(* ===== verification/Prelude.thy ===== *)
theory Prelude
  imports Main "HOL-Library.Word"
begin

text \<open>
  Shared vocabulary of the development: the machine-integer types of \<open>include/type.h\<close>, the
  outcome type of kernel code that may fail, the byte memory in which the C routines work, the
  little-endian layout of a \<open>uint32_t\<close>, and the generic lemmas on them that the component
  theories use.
\<close>

unbundle bit_operations_syntax

section \<open>Collections of rewrite rules\<close>

named_theorems mem_simps \<open>reads and writes of the byte memory\<close>
named_theorems res_simps \<open>the failure monad\<close>

section \<open>Integers\<close>

type_synonym u8 = "8 word"
type_synonym u16 = "16 word"
type_synonym u32 = "32 word"
type_synonym u64 = "64 word"

text \<open>A number that fits in a word.\<close>

lemma unat_of_nat_less: "m < 2 ^ LENGTH('a) \<Longrightarrow> unat (of_nat m :: 'a :: len word) = m"
  by (simp add: unat_of_nat)

section \<open>Outcomes\<close>

text \<open>
  Kernel code does not return when an \<open>assert\<close> fails (\<open>_panic\<close> prints and spins), when it
  dereferences a pointer that is no object of the expected kind (undefined behaviour), or when it
  enters a loop it cannot leave.  Each is a value of \<open>kerr\<close>; a routine that may fail returns
  \<open>kerr + 'a\<close>.
\<close>

datatype kerr =
    Panic   \<comment> \<open>\<open>assert\<close> failed: \<open>_panic\<close> never returns\<close>
  | Fault   \<comment> \<open>null or stray pointer, index out of an array's bounds\<close>
  | Hang    \<comment> \<open>an endless loop of the source\<close>

type_synonym 'a res = "kerr + 'a"

definition bindE :: "'a res \<Rightarrow> ('a \<Rightarrow> 'b res) \<Rightarrow> 'b res" where
  "bindE m f = (case m of Inl e \<Rightarrow> Inl e | Inr x \<Rightarrow> f x)"

definition assertE :: "bool \<Rightarrow> 'a res \<Rightarrow> 'a res" where
  "assertE b k = (if b then k else Inl Panic)"

definition guardE :: "bool \<Rightarrow> 'a res \<Rightarrow> 'a res" where
  "guardE b k = (if b then k else Inl Fault)"

lemma bindE_Inl [simp, res_simps]: "bindE (Inl e) f = Inl e"
  by (simp add: bindE_def)

lemma bindE_Inr [simp, res_simps]: "bindE (Inr x) f = f x"
  by (simp add: bindE_def)

lemma assertE_True [simp, res_simps]: "b \<Longrightarrow> assertE b k = k"
  by (simp add: assertE_def)

lemma assertE_False [simp, res_simps]: "\<not> b \<Longrightarrow> assertE b k = Inl Panic"
  by (simp add: assertE_def)

lemma guardE_True [simp, res_simps]: "b \<Longrightarrow> guardE b k = k"
  by (simp add: guardE_def)

lemma guardE_False [simp, res_simps]: "\<not> b \<Longrightarrow> guardE b k = Inl Fault"
  by (simp add: guardE_def)

lemma bindE_eq_Inr: "bindE m f = Inr y \<longleftrightarrow> (\<exists>x. m = Inr x \<and> f x = Inr y)"
  by (cases m) auto

lemma assertE_eq_Inr: "assertE b k = Inr y \<longleftrightarrow> b \<and> k = Inr y"
  by (simp add: assertE_def)

lemma guardE_eq_Inr: "guardE b k = Inr y \<longleftrightarrow> b \<and> k = Inr y"
  by (simp add: guardE_def)

lemma bindE_eq_Inl: "bindE m f = Inl e \<longleftrightarrow> m = Inl e \<or> (\<exists>x. m = Inr x \<and> f x = Inl e)"
  by (cases m) auto

lemmas res_eq_Inr = bindE_eq_Inr assertE_eq_Inr guardE_eq_Inr

section \<open>The first index of a table with a property\<close>

lemma find_upt_Some: "find P [0..<n] = Some k \<longleftrightarrow> k < n \<and> P k \<and> (\<forall>j<k. \<not> P j)"
  by (auto simp: find_Some_iff)

lemma find_upt_None: "find P [0..<n] = None \<longleftrightarrow> (\<forall>j<n. \<not> P j)"
  by (auto simp: find_None_iff)

section \<open>Byte memory\<close>

text \<open>
  A pointer is an object (a static array, a caller's buffer) and an offset in it; the memory gives
  the byte at each pointer.  Distinct objects never overlap, offsets in one object may.
\<close>

type_synonym 'o ptr = "'o \<times> nat"
type_synonym 'o mem = "'o ptr \<Rightarrow> u8"

fun padd :: "'o ptr \<Rightarrow> nat \<Rightarrow> 'o ptr" where
  "padd (b, i) n = (b, i + n)"

lemma padd_0 [simp]: "padd p 0 = p"
  by (cases p) simp

lemma padd_padd [simp]: "padd (padd p m) n = padd p (m + n)"
  by (cases p) simp

lemma padd_inj [simp]: "padd p m = padd p n \<longleftrightarrow> m = n"
  by (cases p) simp

lemma fst_padd [simp]: "fst (padd p n) = fst p"
  by (cases p) simp

lemma padd_self [simp]: "padd p n = p \<longleftrightarrow> n = 0" "p = padd p n \<longleftrightarrow> n = 0"
  by (cases p; simp)+

text \<open>\<open>bytes_at m p n\<close>: the \<open>n\<close> bytes from \<open>p\<close> on.\<close>

definition bytes_at :: "'o mem \<Rightarrow> 'o ptr \<Rightarrow> nat \<Rightarrow> u8 list" where
  "bytes_at m p n = map (\<lambda>i. m (padd p i)) [0..<n]"

lemma length_bytes_at [simp]: "length (bytes_at m p n) = n"
  by (simp add: bytes_at_def)

lemma nth_bytes_at [simp]: "i < n \<Longrightarrow> bytes_at m p n ! i = m (padd p i)"
  by (simp add: bytes_at_def)

lemma bytes_at_Suc: "bytes_at m p (Suc n) = m p # bytes_at m (padd p 1) n"
  by (rule nth_equalityI) (auto simp: nth_Cons split: nat.splits)

lemma bytes_at_0 [simp]: "bytes_at m p 0 = []"
  by (simp add: bytes_at_def)

lemma bytes_at_cong:
  "(\<And>i. i < n \<Longrightarrow> m (padd p i) = m' (padd q i)) \<Longrightarrow> bytes_at m p n = bytes_at m' q n"
  by (simp add: bytes_at_def)

section \<open>Little-endian \<open>uint32_t\<close> fields\<close>

definition get_u32 :: "'o mem \<Rightarrow> 'o ptr \<Rightarrow> u32" where
  "get_u32 m p =
     ucast (m p) OR push_bit 8 (ucast (m (padd p 1)))
     OR push_bit 16 (ucast (m (padd p 2))) OR push_bit 24 (ucast (m (padd p 3)))"

definition put_u32 :: "'o mem \<Rightarrow> 'o ptr \<Rightarrow> u32 \<Rightarrow> 'o mem" where
  "put_u32 m p v =
     m(p := ucast v, padd p 1 := ucast (drop_bit 8 v),
       padd p 2 := ucast (drop_bit 16 v), padd p 3 := ucast (drop_bit 24 v))"

lemma u32_of_bytes:
  "ucast (ucast v :: u8) OR push_bit 8 (ucast (ucast (drop_bit 8 v) :: u8))
     OR push_bit 16 (ucast (ucast (drop_bit 16 v) :: u8))
     OR push_bit 24 (ucast (ucast (drop_bit 24 v) :: u8)) = (v :: u32)"
proof (rule bit_word_eqI)
  fix n
  assume "n < LENGTH(32)"
  then consider "n < 8" | "8 \<le> n" "n < 16" | "16 \<le> n" "n < 24" | "24 \<le> n" "n < 32"
    by fastforce
  then show "bit (ucast (ucast v :: u8) OR push_bit 8 (ucast (ucast (drop_bit 8 v) :: u8))
     OR push_bit 16 (ucast (ucast (drop_bit 16 v) :: u8))
     OR push_bit 24 (ucast (ucast (drop_bit 24 v) :: u8)) :: u32) n = bit v n"
    by cases (auto simp: bit_simps)
qed

lemma get_put_u32 [simp, mem_simps]: "get_u32 (put_u32 m p v) p = v"
  unfolding get_u32_def put_u32_def using u32_of_bytes [of v]
  by (cases p) (simp add: fun_upd_def)


lemma put_u32_outside [mem_simps]:
  "c \<noteq> b \<or> j < i \<or> i + 4 \<le> j \<Longrightarrow> put_u32 m (b, i) v (c, j) = m (c, j)"
  by (auto simp: put_u32_def)

lemma get_u32_cong:
  "(\<And>k. k < 4 \<Longrightarrow> m (padd p k) = m' (padd q k)) \<Longrightarrow> get_u32 m p = get_u32 m' q"
  unfolding get_u32_def by (metis (no_types, lifting) padd_0 numeral_less_iff one_less_numeral_iff
      semiring_norm(76,77,78,81) zero_less_numeral)

lemma get_put_u32_outside [mem_simps]:
  "c \<noteq> b \<or> j + 4 \<le> i \<or> i + 4 \<le> j \<Longrightarrow> get_u32 (put_u32 m (b, i) v) (c, j) = get_u32 m (c, j)"
  by (rule get_u32_cong) (auto simp: put_u32_outside)

lemma put_u32_zero_bytes:
  assumes "get_u32 m p = 0" and "k < 4"
  shows "m (padd p k) = 0"
proof (rule bit_word_eqI)
  fix n
  assume n: "n < LENGTH(8)"
  have z: "\<not> bit (get_u32 m p) (8 * k + n)" for k n
    using assms(1) by simp
  from n assms(2) consider "k = 0" | "k = 1" | "k = 2" | "k = 3" by linarith
  then show "bit (m (padd p k)) n = bit (0::u8) n"
    using n z [of k n] by cases (auto simp: get_u32_def bit_simps)
qed

end
