(* ===== verification/KString.thy ===== *)
theory KString
  imports Prelude
begin

text \<open>
  The kernel's string routines, \<open>libs/string.c\<close> (the user library's \<open>tiny_libc/string.c\<close> has
  the same bodies and adds \<open>strrev\<close>).  Every routine works on the byte memory of \<open>Prelude\<close>; a
  loop that the source leaves only at a terminating zero byte is a partial function whose value
  \<open>None\<close> means that the loop never ends.  \<open>char\<close> is unsigned on RISC-V, so a character
  difference is the difference of the unsigned byte values.
\<close>

section \<open>The routines\<close>

primrec memcpy :: "'o mem \<Rightarrow> 'o ptr \<Rightarrow> 'o ptr \<Rightarrow> nat \<Rightarrow> 'o mem" where
  "memcpy m dest src 0 = m"
| "memcpy m dest src (Suc len) = memcpy (m(dest := m src)) (padd dest 1) (padd src 1) len"

primrec memset :: "'o mem \<Rightarrow> 'o ptr \<Rightarrow> u8 \<Rightarrow> nat \<Rightarrow> 'o mem" where
  "memset m dst val 0 = m"
| "memset m dst val (Suc len) = memset (m(dst := val)) (padd dst 1) val len"

definition bzero :: "'o mem \<Rightarrow> 'o ptr \<Rightarrow> nat \<Rightarrow> 'o mem" where
  "bzero m dest len = memset m dest 0 len"

partial_function (option) strlen_from :: "'o mem \<Rightarrow> 'o ptr \<Rightarrow> nat \<Rightarrow> nat option" where
  "strlen_from m src i = (if m (padd src i) \<noteq> 0 then strlen_from m src (i + 1) else Some i)"

definition strlen :: "'o mem \<Rightarrow> 'o ptr \<Rightarrow> nat option" where
  "strlen m src = strlen_from m src 0"

definition cdiff :: "u8 \<Rightarrow> u8 \<Rightarrow> int" where
  "cdiff a b = int (unat a) - int (unat b)"

partial_function (option) strcmp :: "'o mem \<Rightarrow> 'o ptr \<Rightarrow> 'o ptr \<Rightarrow> int option" where
  "strcmp m str1 str2 =
     (if m str1 \<noteq> 0 \<and> m str2 \<noteq> 0 then
        if m str1 \<noteq> m str2 then Some (cdiff (m str1) (m str2))
        else strcmp m (padd str1 1) (padd str2 1)
      else Some (cdiff (m str1) (m str2)))"

partial_function (option) strncmp :: "'o mem \<Rightarrow> 'o ptr \<Rightarrow> 'o ptr \<Rightarrow> int \<Rightarrow> int option" where
  "strncmp m str1 str2 n =
     (if m str1 \<noteq> 0 \<and> m str2 \<noteq> 0 \<and> n > 0 then
        if m str1 \<noteq> m str2 then Some (cdiff (m str1) (m str2))
        else strncmp m (padd str1 1) (padd str2 1) (n - 1)
      else Some (cdiff (m str1) (m str2)))"

text \<open>\<open>strcpy\<close> and \<open>strcat\<close> return their first argument; the model returns the new memory.\<close>

partial_function (option) strcpy :: "'o mem \<Rightarrow> 'o ptr \<Rightarrow> 'o ptr \<Rightarrow> 'o mem option" where
  "strcpy m dest src =
     (if m src \<noteq> 0 then strcpy (m(dest := m src)) (padd dest 1) (padd src 1)
      else Some (m(dest := 0)))"

partial_function (option) strcat :: "'o mem \<Rightarrow> 'o ptr \<Rightarrow> 'o ptr \<Rightarrow> 'o mem option" where
  "strcat m dest src =
     (if m dest \<noteq> 0 then strcat m (padd dest 1) src else strcpy m dest src)"

text \<open>
  \<open>strncpy\<close> has two loops: copy while there is a character and room, then fill the rest of the
  \<open>n\<close> bytes with zeros.  In the first loop \<open>n\<close> is decremented only after the test of \<open>*src\<close>.
\<close>

primrec strncpy_fill :: "'o mem \<Rightarrow> 'o ptr \<Rightarrow> nat \<Rightarrow> 'o mem" where
  "strncpy_fill m dest 0 = m"
| "strncpy_fill m dest (Suc n) = strncpy_fill (m(dest := 0)) (padd dest 1) n"

fun strncpy :: "'o mem \<Rightarrow> 'o ptr \<Rightarrow> 'o ptr \<Rightarrow> nat \<Rightarrow> 'o mem" where
  "strncpy m dest src 0 = m"
| "strncpy m dest src (Suc n) =
     (if m src \<noteq> 0 then strncpy (m(dest := m src)) (padd dest 1) (padd src 1) n
      else strncpy_fill m dest (Suc n))"

text \<open>\<open>strrev\<close> swaps the ends of the string until the indices meet.\<close>

function strrev_loop :: "'o mem \<Rightarrow> 'o ptr \<Rightarrow> int \<Rightarrow> int \<Rightarrow> 'o mem" where
  "strrev_loop m str i j =
     (if i < j then
        strrev_loop (m(padd str (nat i) := m (padd str (nat j)),
                       padd str (nat j) := m (padd str (nat i)))) str (i + 1) (j - 1)
      else m)"
  by pat_completeness auto
termination
  by (relation "measure (\<lambda>(m, str, i, j). nat (j - i))") auto

declare strrev_loop.simps [simp del]

definition strrev :: "'o mem \<Rightarrow> 'o ptr \<Rightarrow> 'o mem option" where
  "strrev m str =
     (case strlen m str of None \<Rightarrow> None
      | Some len \<Rightarrow> Some (strrev_loop m str 0 (int len - 1)))"

section \<open>Zero-terminated strings\<close>

text \<open>\<open>cstr m p s\<close>: at \<open>p\<close> stands the string \<open>s\<close>, none of its bytes zero, then a zero byte.\<close>

fun cstr :: "'o mem \<Rightarrow> 'o ptr \<Rightarrow> u8 list \<Rightarrow> bool" where
  "cstr m p [] = (m p = 0)"
| "cstr m p (c # s) = (c \<noteq> 0 \<and> m p = c \<and> cstr m (padd p 1) s)"

lemma cstr_iff:
  "cstr m p s \<longleftrightarrow> (\<forall>i < length s. m (padd p i) = s ! i \<and> s ! i \<noteq> 0) \<and> m (padd p (length s)) = 0"
proof (induction s arbitrary: p)
  case (Cons c s)
  have "cstr m p (c # s) \<longleftrightarrow> c \<noteq> 0 \<and> m p = c \<and>
      (\<forall>i < length s. m (padd p (Suc i)) = s ! i \<and> s ! i \<noteq> 0) \<and> m (padd p (Suc (length s))) = 0"
    by (simp add: Cons.IH)
  then show ?case
    by (auto simp: less_Suc_eq_0_disj)
qed simp

lemma cstr_nth: "cstr m p s \<Longrightarrow> i < length s \<Longrightarrow> m (padd p i) = s ! i \<and> s ! i \<noteq> 0"
  by (simp add: cstr_iff)

lemma cstr_end: "cstr m p s \<Longrightarrow> m (padd p (length s)) = 0"
  by (simp add: cstr_iff)

lemma cstr_unique: "cstr m p s \<Longrightarrow> cstr m p t \<Longrightarrow> s = t"
proof (induction s arbitrary: p t)
  case Nil
  then show ?case by (cases t) auto
next
  case (Cons c s)
  then show ?case by (cases t) auto
qed

lemma cstr_cong:
  "(\<And>i. i \<le> length s \<Longrightarrow> m (padd p i) = m' (padd q i)) \<Longrightarrow> cstr m p s = cstr m' q s"
  by (auto simp: cstr_iff)


section \<open>Correctness\<close>

lemma strlen_from_cstr: "cstr m (padd p i) s \<Longrightarrow> strlen_from m p i = Some (i + length s)"
proof (induction s arbitrary: i)
  case Nil
  then show ?case by (simp add: strlen_from.simps)
next
  case (Cons c s)
  then show ?case by (subst strlen_from.simps) (simp add: Cons.IH)
qed

lemma strlen_cstr: "cstr m p s \<Longrightarrow> strlen m p = Some (length s)"
  using strlen_from_cstr [of m p 0 s] by (simp add: strlen_def)

lemma cdiff_0 [simp]: "cdiff a b = 0 \<longleftrightarrow> a = b"
  by (simp add: cdiff_def word_uint_eq_iff)

lemma cdiff_neg: "cdiff a b < 0 \<longleftrightarrow> a < b"
  by (simp add: cdiff_def word_less_def)

text \<open>The value of \<open>strcmp\<close> as a function of the two strings.\<close>

fun strcmp_spec :: "u8 list \<Rightarrow> u8 list \<Rightarrow> int" where
  "strcmp_spec [] [] = 0"
| "strcmp_spec [] (b # t) = cdiff 0 b"
| "strcmp_spec (a # s) [] = cdiff a 0"
| "strcmp_spec (a # s) (b # t) = (if a = b then strcmp_spec s t else cdiff a b)"

lemma strcmp_cstr: "cstr m p s \<Longrightarrow> cstr m q t \<Longrightarrow> strcmp m p q = Some (strcmp_spec s t)"
  by (induction s t arbitrary: p q rule: strcmp_spec.induct) (auto simp: strcmp.simps)

lemma strcmp_spec_0 [simp]:
  "0 \<notin> set s \<Longrightarrow> 0 \<notin> set t \<Longrightarrow> strcmp_spec s t = 0 \<longleftrightarrow> s = t"
  by (induction s t rule: strcmp_spec.induct) auto

lemma cstr_nonzero: "cstr m p s \<Longrightarrow> 0 \<notin> set s"
  by (auto simp: cstr_iff in_set_conv_nth)

lemma strcmp_eq_0: "cstr m p s \<Longrightarrow> cstr m q t \<Longrightarrow> strcmp m p q = Some 0 \<longleftrightarrow> s = t"
  by (simp add: strcmp_cstr cstr_nonzero)

lemma memcpy_outside:
  "fst q \<noteq> fst d \<or> snd q < snd d \<or> snd d + n \<le> snd q \<Longrightarrow> memcpy m d s n q = m q"
  by (induction n arbitrary: m d s) (cases q; cases d; force)+


lemma memcpy_inside:
  assumes "fst s \<noteq> fst d \<or> snd d \<le> snd s \<or> snd s + n \<le> snd d" and "i < n"
  shows "memcpy m d s n (padd d i) = m (padd s i)"
  using assms
proof (induction n arbitrary: m d s i)
  case (Suc n)
  obtain b x c y where ds: "d = (b, x)" "s = (c, y)" by (cases d; cases s)
  show ?case
  proof (cases i)
    case 0
    then show ?thesis by (simp add: ds memcpy_outside)
  next
    case (Suc j)
    have "memcpy (m(d := m s)) (padd d 1) (padd s 1) n (padd (padd d 1) j) =
        (m(d := m s)) (padd (padd s 1) j)"
      by (rule Suc.IH) (use Suc.prems Suc in \<open>auto simp: ds\<close>)
    with Suc.prems Suc show ?thesis by (auto simp: ds)
  qed
qed simp

text \<open>
  \<open>memcpy\<close> copies forwards: the result is the source's old contents when the regions lie in
  different objects, do not overlap, or overlap with the destination below the source.
\<close>

lemma memcpy_closed:
  assumes "fst s \<noteq> fst d \<or> snd d \<le> snd s \<or> snd s + n \<le> snd d"
  shows "memcpy m d s n = (\<lambda>q. if fst q = fst d \<and> snd d \<le> snd q \<and> snd q < snd d + n
           then m (fst s, snd s + (snd q - snd d)) else m q)"
proof (rule ext)
  fix q
  show "memcpy m d s n q = (if fst q = fst d \<and> snd d \<le> snd q \<and> snd q < snd d + n
           then m (fst s, snd s + (snd q - snd d)) else m q)"
  proof (cases "fst q = fst d \<and> snd d \<le> snd q \<and> snd q < snd d + n")
    case True
    then have "q = padd d (snd q - snd d)"
      by (cases q; cases d) simp
    moreover have "padd s (snd q - snd d) = (fst s, snd s + (snd q - snd d))"
      by (cases s) simp
    ultimately show ?thesis
      using True memcpy_inside [OF assms, of "snd q - snd d" m] by auto
  next
    case False
    then show ?thesis by (auto simp: memcpy_outside)
  qed
qed

lemma memset_closed:
  "memset m d v n = (\<lambda>q. if fst q = fst d \<and> snd d \<le> snd q \<and> snd q < snd d + n then v else m q)"
proof (induction n arbitrary: m d)
  case (Suc n)
  then show ?case by (cases d) (auto simp: fun_eq_iff)
qed (auto simp: fun_eq_iff)

lemma bytes_at_memcpy:
  "fst s \<noteq> fst d \<or> snd d \<le> snd s \<or> snd s + n \<le> snd d \<Longrightarrow>
   bytes_at (memcpy m d s n) d n = bytes_at m s n"
  by (rule bytes_at_cong) (simp add: memcpy_inside)


text \<open>\<open>strcpy\<close> is \<open>memcpy\<close> of the string and its terminator.\<close>

lemma strcpy_memcpy:
  assumes "cstr m src s"
    and "fst src \<noteq> fst dest \<or> snd dest \<le> snd src \<or> snd src + length s < snd dest"
  shows "strcpy m dest src = Some (memcpy m dest src (length s + 1))"
  using assms
proof (induction s arbitrary: m src dest)
  case Nil
  then show ?case by (simp add: strcpy.simps fun_upd_def)
next
  case (Cons c s)
  obtain b x d y where sd: "src = (b, x)" "dest = (d, y)" by (cases src; cases dest)
  have "cstr (m(dest := m src)) (padd src 1) s = cstr m (padd src 1) s"
    by (rule cstr_cong) (use Cons.prems(2) in \<open>auto simp: sd\<close>)
  moreover have "fst (padd src 1) \<noteq> fst (padd dest 1) \<or> snd (padd dest 1) \<le> snd (padd src 1) \<or>
      snd (padd src 1) + length s < snd (padd dest 1)"
    using Cons.prems(2) by (auto simp: sd)
  ultimately have "strcpy (m(dest := m src)) (padd dest 1) (padd src 1) =
      Some (memcpy (m(dest := m src)) (padd dest 1) (padd src 1) (length s + 1))"
    using Cons.prems(1) by (intro Cons.IH) (auto simp: fun_upd_def)
  with Cons.prems(1) show ?case by (subst strcpy.simps) simp
qed

lemma cstr_memcpy:
  assumes "cstr m src s"
    and "fst src \<noteq> fst dest \<or> snd dest \<le> snd src \<or> snd src + length s < snd dest"
  shows "cstr (memcpy m dest src (length s + 1)) dest s"
proof -
  have *: "memcpy m dest src (length s + 1) (padd dest i) = m (padd src i)" if "i \<le> length s" for i
    by (rule memcpy_inside) (use assms(2) that in auto)
  have "cstr (memcpy m dest src (length s + 1)) dest s = cstr m src s"
    by (rule cstr_cong) (rule *)
  with assms(1) show ?thesis by simp
qed

lemma strcat_strcpy: "cstr m dest s \<Longrightarrow> strcat m dest src = strcpy m (padd dest (length s)) src"
  by (induction s arbitrary: dest) (simp_all add: strcat.simps)

lemma cstr_append:
  "0 \<notin> set s \<Longrightarrow>
   cstr m p (s @ t) \<longleftrightarrow> (\<forall>i < length s. m (padd p i) = s ! i) \<and> cstr m (padd p (length s)) t"
proof (induction s arbitrary: p)
  case (Cons c s)
  then show ?case by (auto simp: less_Suc_eq_0_disj)
qed simp

lemma strncpy_fill_memset: "strncpy_fill m d n = memset m d 0 n"
  by (induction n arbitrary: m d) simp_all

text \<open>\<open>strncmp\<close> looks at one character more than its bound.\<close>

lemma strncmp_cstr:
  "cstr m p s \<Longrightarrow> cstr m q t \<Longrightarrow>
   strncmp m p q (int n) = Some (strcmp_spec (take (Suc n) s) (take (Suc n) t))"
proof (induction s t arbitrary: p q n rule: strcmp_spec.induct)
  case (4 a s b t)
  show ?case
  proof (cases n)
    case 0
    with 4 show ?thesis by (simp add: strncmp.simps)
  next
    case (Suc k)
    from 4 Suc show ?thesis by (subst strncmp.simps) simp
  qed
qed (auto simp: strncmp.simps)

lemma strrev_loop_at:
  "0 \<le> i \<Longrightarrow> strrev_loop m p i j (padd p k) =
     (if i \<le> int k \<and> int k \<le> j then m (padd p (nat (i + j - int k))) else m (padd p k))"
proof (induction m p i j rule: strrev_loop.induct)
  case (1 m p i j)
  show ?case
  proof (cases "i < j")
    case True
    with 1 show ?thesis
      by (subst strrev_loop.simps) (auto simp: nat_eq_iff algebra_simps fun_upd_def)
  next
    case False
    then have "i \<le> int k \<and> int k \<le> j \<Longrightarrow> nat (i + j - int k) = k" by linarith
    with False show ?thesis by (subst strrev_loop.simps) auto
  qed
qed

lemma strrev_loop_outside:
  "0 \<le> i \<Longrightarrow> fst q \<noteq> fst p \<or> snd q < snd p \<Longrightarrow> strrev_loop m p i j q = m q"
proof (induction m p i j rule: strrev_loop.induct)
  case (1 m p i j)
  then show ?case by (subst strrev_loop.simps) (cases p; cases q; auto simp: fun_upd_def)
qed


section \<open>Reversal\<close>

lemma strrev_cstr:
  assumes "cstr m p s"
  shows "strrev m p = Some (strrev_loop m p 0 (int (length s) - 1))"
    and "cstr (strrev_loop m p 0 (int (length s) - 1)) p (rev s)"
proof -
  show "strrev m p = Some (strrev_loop m p 0 (int (length s) - 1))"
    using assms by (simp add: strrev_def strlen_cstr)
  show "cstr (strrev_loop m p 0 (int (length s) - 1)) p (rev s)"
    unfolding cstr_iff
  proof (intro conjI allI impI)
    fix i
    assume i: "i < length (rev s)"
    then have "nat (int (length s) - 1 - int i) = length s - Suc i" by linarith
    then show "strrev_loop m p 0 (int (length s) - 1) (padd p i) = rev s ! i"
      and "rev s ! i \<noteq> 0"
      using i cstr_nth [OF assms, of "length s - Suc i"] by (simp_all add: strrev_loop_at rev_nth)
  next
    show "strrev_loop m p 0 (int (length s) - 1) (padd p (length (rev s))) = 0"
      using cstr_end [OF assms] by (simp add: strrev_loop_at)
  qed
qed


section \<open>Properties\<close>

text \<open>
  \<open>strcmp\<close> of two terminated strings returns: 0 exactly for equal strings, otherwise the
  difference of the first bytes that differ, so the sign is the lexicographic order.
\<close>

theorem strcmp_correct:
  assumes "cstr m p s" and "cstr m q t"
  shows "\<exists>d. strcmp m p q = Some d \<and> (d = 0 \<longleftrightarrow> s = t) \<and> (d < 0 \<longleftrightarrow> ord_class.lexordp s t)"
proof -
  have "0 \<notin> set s \<Longrightarrow> 0 \<notin> set t \<Longrightarrow> strcmp_spec s t < 0 \<longleftrightarrow> ord_class.lexordp s t"
    by (induction s t rule: strcmp_spec.induct) (auto simp: cdiff_neg word_neq_0_conv)
  with cstr_nonzero [OF assms(1)] cstr_nonzero [OF assms(2)] show ?thesis
    by (simp add: strcmp_cstr [OF assms])
qed

definition demo_mem :: "nat mem" where
  "demo_mem p = (case p of (0, i) \<Rightarrow> [97, 98, 99, 0] ! (i mod 4) | (_, i) \<Rightarrow> [97, 98, 100, 101, 0] ! (i mod 5))"

lemma demo_cstr: "cstr demo_mem (0, 0) [97, 98, 99]" "cstr demo_mem (1, 0) [97, 98, 100, 101]"
  by (simp_all add: demo_mem_def)

text \<open>
  \<open>strncmp\<close> compares one character more than its bound: with bound \<open>n\<close> it returns 0 exactly if
  the first \<open>n + 1\<close> characters agree.
\<close>

theorem strncmp_compares_one_more:
  assumes "cstr m p s" and "cstr m q t"
  shows "\<exists>d. strncmp m p q (int n) = Some d \<and> (d = 0 \<longleftrightarrow> take (Suc n) s = take (Suc n) t)"
proof -
  have "0 \<notin> set (take (Suc n) s)" "0 \<notin> set (take (Suc n) t)"
    using cstr_nonzero [OF assms(1)] cstr_nonzero [OF assms(2)] by (auto dest: in_set_takeD)
  then show ?thesis by (simp add: strncmp_cstr [OF assms])
qed

text \<open>
  \<open>strcat\<close>: behind two terminated strings in different objects the destination holds their
  concatenation, the source is unchanged, and no byte outside the appended ones is written.
\<close>

theorem strcat_correct:
  assumes "cstr m dest s" and "cstr m src t" and "fst src \<noteq> fst dest"
  shows "\<exists>m'. strcat m dest src = Some m' \<and> cstr m' dest (s @ t) \<and> cstr m' src t \<and>
     (\<forall>q. fst q \<noteq> fst dest \<or> snd q < snd dest + length s \<or> snd dest + length s + length t < snd q \<longrightarrow> m' q = m q)"
proof -
  let ?d = "padd dest (length s)" and ?n = "length t + 1"
  let ?m = "memcpy m ?d src ?n"
  have out: "?m q = m q" if "fst q \<noteq> fst dest \<or> snd q < snd dest + length s \<or> snd dest + length s + length t < snd q" for q
    by (rule memcpy_outside) (use that in \<open>cases dest; auto\<close>)
  have "strcat m dest src = Some ?m"
    using strcat_strcpy [OF assms(1)] strcpy_memcpy [OF assms(2), of ?d] assms(3) by simp
  moreover have "cstr ?m ?d t" by (rule cstr_memcpy [OF assms(2)]) (use assms(3) in simp)
  moreover have "?m (padd dest i) = s ! i" if "i < length s" for i
    using out [of "padd dest i"] cstr_nth [OF assms(1) that] that by (cases dest) simp
  ultimately have "cstr ?m dest (s @ t)" using cstr_append [OF cstr_nonzero [OF assms(1)]] by blast
  moreover have "cstr ?m src t = cstr m src t"
    by (rule cstr_cong) (rule out, use assms(3) in simp)
  ultimately show ?thesis using \<open>strcat m dest src = Some ?m\<close> assms(2) out by blast
qed

text \<open>\<open>strrev\<close> reverses a terminated string in place, and doing it twice restores the string.\<close>

theorem strrev_involution:
  assumes "cstr m p s"
  shows "\<exists>m1 m2. strrev m p = Some m1 \<and> cstr m1 p (rev s) \<and> strrev m1 p = Some m2 \<and> cstr m2 p s"
  using strrev_cstr [OF assms] strrev_cstr [of _ p "rev s"] by (metis rev_rev_ident)

end
