(* ===== verification/KList.thy ===== *)
theory KList
  imports Prelude
begin

text \<open>
  The intrusive doubly linked circular lists of \<open>include/os/list.h\<close>.  A list node is either the
  head of a queue or the \<open>list\<close> member of an element (a process control block, a page record);
  pointers may be null.  The link operations are translated field write by field write; writing
  through a null pointer is a \<open>Fault\<close>.  The second half states what the operations promise to their
  clients as a locale, \<open>queue_store\<close>, and interprets it on the link operations.
\<close>

section \<open>Nodes and the link operations\<close>

datatype ('q, 'e) lnode = Head 'q | Elem 'e

record ('q, 'e) list_node =
  nxt :: "('q, 'e) lnode option"
  prv :: "('q, 'e) lnode option"

type_synonym ('q, 'e) lheap = "('q, 'e) lnode \<Rightarrow> ('q, 'e) list_node"

definition list_add_between ::
  "('q, 'e) lheap \<Rightarrow> ('q, 'e) lnode option \<Rightarrow> ('q, 'e) lnode \<Rightarrow> ('q, 'e) lnode option \<Rightarrow> ('q, 'e) lheap res"
where
  "list_add_between h prev node next =
     (let h = h(node := (h node)\<lparr>nxt := next\<rparr>);
          h = h(node := (h node)\<lparr>prv := prev\<rparr>)
      in case prev of None \<Rightarrow> Inl Fault
         | Some p \<Rightarrow>
             (let h = h(p := (h p)\<lparr>nxt := Some node\<rparr>)
              in case next of None \<Rightarrow> Inl Fault
                 | Some n \<Rightarrow> Inr (h(n := (h n)\<lparr>prv := Some node\<rparr>))))"

definition list_add_tail ::
  "('q, 'e) lheap \<Rightarrow> ('q, 'e) lnode \<Rightarrow> ('q, 'e) lnode \<Rightarrow> ('q, 'e) lheap res" where
  "list_add_tail h node head = list_add_between h (prv (h head)) node (Some head)"

definition list_unlink ::
  "('q, 'e) lheap \<Rightarrow> ('q, 'e) lnode \<Rightarrow> ('q, 'e) lnode \<Rightarrow> ('q, 'e) lheap" where
  "list_unlink h prev next =
     (let h = h(prev := (h prev)\<lparr>nxt := Some next\<rparr>) in h(next := (h next)\<lparr>prv := Some prev\<rparr>))"

definition list_del :: "('q, 'e) lheap \<Rightarrow> ('q, 'e) lnode \<Rightarrow> ('q, 'e) lheap" where
  "list_del h node =
     (case (prv (h node), nxt (h node)) of
        (Some p, Some n) \<Rightarrow>
          (let h = list_unlink h p n;
               h = h(node := (h node)\<lparr>prv := None\<rparr>)
           in h(node := (h node)\<lparr>nxt := None\<rparr>))
      | _ \<Rightarrow> h)"

definition init_list_head :: "('q, 'e) lheap \<Rightarrow> ('q, 'e) lnode \<Rightarrow> ('q, 'e) lheap" where
  "init_list_head h head =
     (let h = h(head := (h head)\<lparr>nxt := Some head\<rparr>) in h(head := (h head)\<lparr>prv := Some head\<rparr>))"

definition list_is_empty :: "('q, 'e) lheap \<Rightarrow> ('q, 'e) lnode \<Rightarrow> bool" where
  "list_is_empty h head = (nxt (h head) = Some head)"

text \<open>
  \<open>list_entry\<close> subtracts the member's offset from the node's address.  It yields the enclosing
  structure only for a node that is such a member; for a bare head, or for null, the result is a
  stray pointer and its use undefined.
\<close>

definition list_entry :: "('q, 'e) lnode option \<Rightarrow> 'e res" where
  "list_entry ptr = (case ptr of Some (Elem e) \<Rightarrow> Inr e | _ \<Rightarrow> Inl Fault)"

section \<open>Well-formed circular lists\<close>

fun links :: "('q, 'e) lheap \<Rightarrow> ('q, 'e) lnode \<Rightarrow> ('q, 'e) lnode list \<Rightarrow> ('q, 'e) lnode \<Rightarrow> bool" where
  "links h a [] b = (nxt (h a) = Some b \<and> prv (h b) = Some a)"
| "links h a (x # xs) b = (nxt (h a) = Some x \<and> prv (h x) = Some a \<and> links h x xs b)"

definition dll :: "('q, 'e) lheap \<Rightarrow> ('q, 'e) lnode \<Rightarrow> ('q, 'e) lnode list \<Rightarrow> bool" where
  "dll h hn xs \<longleftrightarrow> distinct (hn # xs) \<and> links h hn xs hn"

lemma links_append [simp]: "links h a (xs @ y # ys) b \<longleftrightarrow> links h a xs y \<and> links h y ys b"
  by (induction xs arbitrary: a) auto

lemma links_cong:
  "(\<And>x. x \<in> set (a # xs) \<Longrightarrow> nxt (h x) = nxt (h' x)) \<Longrightarrow>
   (\<And>x. x \<in> set (xs @ [b]) \<Longrightarrow> prv (h x) = prv (h' x)) \<Longrightarrow> links h a xs b = links h' a xs b"
  by (induction xs arbitrary: a) auto

lemma links_first: "links h a xs b \<Longrightarrow> nxt (h a) = Some (hd (xs @ [b]))"
  by (cases xs) auto

lemma links_last: "links h a xs b \<Longrightarrow> prv (h b) = Some (last (a # xs))"
  by (induction xs arbitrary: a) auto

lemma dll_cong: "(\<And>x. x \<in> set (hn # xs) \<Longrightarrow> h x = h' x) \<Longrightarrow> dll h hn xs = dll h' hn xs"
  unfolding dll_def by (rule conj_cong [OF refl], rule links_cong) auto

lemma dll_init: "dll (init_list_head h hn) hn []"
  by (simp add: dll_def init_list_head_def)

lemma dll_add_tail:
  assumes "dll h hn xs" and n: "n \<notin> set (hn # xs)"
  obtains h' where "list_add_tail h n hn = Inr h'" and "dll h' hn (xs @ [n])"
    and "\<And>x. x \<notin> set (n # hn # xs) \<Longrightarrow> h' x = h x"
proof -
  have d: "distinct (hn # xs)" and l: "links h hn xs hn"
    using assms(1) by (auto simp: dll_def)
  show ?thesis
  proof (cases xs rule: rev_cases)
    case Nil
    define h' where "h' = h(n := (h n)\<lparr>nxt := Some hn, prv := Some hn\<rparr>,
        hn := (h hn)\<lparr>nxt := Some n, prv := Some n\<rparr>)"
    have "list_add_tail h n hn = Inr h'"
      using d l n Nil by (auto simp: list_add_tail_def list_add_between_def h'_def)
    moreover have "dll h' hn (xs @ [n])"
      using d l n Nil by (auto simp: dll_def h'_def)
    ultimately show ?thesis
      by (rule that) (use Nil in \<open>auto simp: h'_def\<close>)
  next
    case (snoc ys z)
    have z: "prv (h hn) = Some z" using links_last [OF l] snoc by simp
    define h' where "h' = h(n := \<lparr>nxt = Some hn, prv = Some z\<rparr>, z := (h z)\<lparr>nxt := Some n\<rparr>,
        hn := (h hn)\<lparr>prv := Some n\<rparr>)"
    have "list_add_tail h n hn = Inr h'"
      using d n snoc z by (auto simp: list_add_tail_def list_add_between_def h'_def fun_eq_iff)
    moreover have "links h hn ys z = links h' hn ys z"
      by (rule links_cong) (use d n snoc in \<open>auto simp: h'_def\<close>)
    then have "dll h' hn (xs @ [n])"
      using d l n snoc by (auto simp: dll_def h'_def)
    ultimately show ?thesis
      by (rule that) (use snoc in \<open>auto simp: h'_def\<close>)
  qed
qed


text \<open>Deleting a node: its neighbours are linked to each other, its own pointers are cleared.\<close>

lemma list_del_at:
  assumes "prv (h n) = Some p" and "nxt (h n) = Some q" and "p \<noteq> n" and "q \<noteq> n"
  shows "nxt (list_del h n x) = (if x = n then None else if x = p then Some q else nxt (h x))"
    and "prv (list_del h n x) = (if x = n then None else if x = q then Some p else prv (h x))"
  using assms unfolding list_del_def list_unlink_def by auto

lemma links_join_right:
  assumes "links h n ys b" and "links h' a [] (hd (ys @ [b]))" and "distinct (n # ys)" and "b \<notin> set (n # ys)"
    and "\<And>x. x \<in> set ys \<Longrightarrow> nxt (h' x) = nxt (h x)"
    and "\<And>x. x \<in> set (tl (ys @ [b])) \<Longrightarrow> prv (h' x) = prv (h x)"
  shows "links h' a ys b"
proof (cases ys)
  case Nil
  with assms show ?thesis by simp
next
  case (Cons q ys')
  have "links h q ys' b = links h' q ys' b"
    by (rule links_cong) (use assms(5,6) Cons in auto)
  with assms(1,2) Cons show ?thesis by simp
qed

lemma links_join:
  assumes "links h a xs n" and "links h n ys b" and "distinct (xs @ n # ys)"
    and "a \<notin> set (xs @ n # ys)" and "b \<notin> set (xs @ n # ys)"
    and nx: "\<And>x. x \<noteq> n \<Longrightarrow> nxt (h' x) = (if x = last (a # xs) then Some (hd (ys @ [b])) else nxt (h x))"
    and pr: "\<And>x. x \<noteq> n \<Longrightarrow> prv (h' x) = (if x = hd (ys @ [b]) then Some (last (a # xs)) else prv (h x))"
  shows "links h' a (xs @ ys) b"
proof -
  let ?p = "last (a # xs)"
  have p: "?p \<in> set (a # xs)" by (rule last_in_set) simp
  have pn: "?p \<noteq> n" using p assms(3,4) by auto
  have qn: "hd (ys @ [b]) \<noteq> n" using assms(3,5) by (cases ys) auto
  have join: "links h' ?p ys b"
  proof (rule links_join_right [OF assms(2)])
    show "links h' ?p [] (hd (ys @ [b]))" using nx [OF pn] pr [OF qn] by simp
    show "nxt (h' x) = nxt (h x)" if "x \<in> set ys" for x
    proof -
      have "x \<noteq> n" "x \<noteq> ?p" using that p assms(3,4) by auto
      with nx show ?thesis by simp
    qed
    show "prv (h' x) = prv (h x)" if "x \<in> set (tl (ys @ [b]))" for x
    proof -
      have "x \<noteq> n" "x \<noteq> hd (ys @ [b])" using that assms(3,5) by (cases ys; auto)+
      with pr show ?thesis by simp
    qed
  qed (use assms(3,5) in auto)
  show ?thesis
  proof (cases xs rule: rev_cases)
    case Nil
    with join show ?thesis by simp
  next
    case (snoc xs' z)
    have "links h a xs' z = links h' a xs' z"
    proof (rule links_cong)
      show "nxt (h x) = nxt (h' x)" if "x \<in> set (a # xs')" for x
      proof -
        have "x \<noteq> n" "x \<noteq> ?p" using that snoc assms(3,4) by auto
        with nx show ?thesis by simp
      qed
      show "prv (h x) = prv (h' x)" if "x \<in> set (xs' @ [z])" for x
      proof -
        have "x \<noteq> n" "x \<noteq> hd (ys @ [b])" using that snoc assms(3,5) by (cases ys; auto)+
        with pr show ?thesis by simp
      qed
    qed
    with assms(1) snoc join show ?thesis by simp
  qed
qed

lemma dll_del:
  assumes "dll h hn (xs @ n # ys)"
  shows "dll (list_del h n) hn (xs @ ys)"
    and "\<And>x. x \<notin> set (hn # xs @ n # ys) \<Longrightarrow> list_del h n x = h x"
    and "nxt (list_del h n n) = None" and "prv (list_del h n n) = None"
proof -
  have d: "distinct (hn # xs @ n # ys)" and l: "links h hn xs n" "links h n ys hn"
    using assms by (auto simp: dll_def)
  have inset: "last (hn # xs) \<in> set (hn # xs)" "hd (ys @ [hn]) \<in> set (ys @ [hn])"
    by (rule last_in_set, simp) (rule hd_in_set, simp)
  then have ne: "last (hn # xs) \<noteq> n" "hd (ys @ [hn]) \<noteq> n"
    using d by auto
  note at = list_del_at [of h n, OF links_last [OF l(1)] links_first [OF l(2)] ne]
  show "nxt (list_del h n n) = None" "prv (list_del h n n) = None"
    using at [of n] by simp_all
  show "list_del h n x = h x" if "x \<notin> set (hn # xs @ n # ys)" for x
    using that inset at [of x] by (intro list_node.equality) auto
  have "links (list_del h n) hn (xs @ ys) hn"
    by (rule links_join [OF l]) (use d at in auto)
  then show "dll (list_del h n) hn (xs @ ys)"
    using d by (simp add: dll_def)
qed

lemma list_del_detached: "prv (h n) = None \<or> nxt (h n) = None \<Longrightarrow> list_del h n = h"
  by (auto simp: list_del_def split: option.splits)

lemma dll_is_empty: "dll h hn xs \<Longrightarrow> list_is_empty h hn \<longleftrightarrow> xs = []"
  by (cases xs) (auto simp: dll_def list_is_empty_def)

lemma dll_succ: "dll h hn (xs @ n # ys) \<Longrightarrow> nxt (h n) = Some (hd (ys @ [hn]))"
  using links_first by (fastforce simp: dll_def)

lemma dll_front: "dll h hn xs \<Longrightarrow> nxt (h hn) = Some (hd (xs @ [hn]))"
  using links_first by (fastforce simp: dll_def)


text \<open>The links of a heap determine the list.\<close>

lemma links_unique: "links h a xs b \<Longrightarrow> links h a ys b \<Longrightarrow> b \<notin> set xs \<Longrightarrow> b \<notin> set ys \<Longrightarrow> xs = ys"
proof (induction xs arbitrary: a ys)
  case Nil
  then show ?case by (cases ys) auto
next
  case (Cons x xs)
  then show ?case by (cases ys) auto
qed

lemma dll_unique: "dll h hn xs \<Longrightarrow> dll h hn ys \<Longrightarrow> xs = ys"
  by (auto simp: dll_def intro: links_unique)

section \<open>The queues of a heap and what the operations promise\<close>

text \<open>
  \<open>qrep h Q\<close>: the heap holds the queues \<open>Q\<close>.  \<open>Q q\<close> is \<open>None\<close> for a head that was never
  initialised; two queues have no element in common.  \<open>queued Q\<close> are the elements on some queue.
\<close>

definition queued :: "('q \<rightharpoonup> 'e list) \<Rightarrow> 'e set" where
  "queued Q = {e. \<exists>q xs. Q q = Some xs \<and> e \<in> set xs}"

lemma queued_upd:
  "e \<in> queued (Q(q \<mapsto> ys)) \<longleftrightarrow> e \<in> set ys \<or> (\<exists>r xs. r \<noteq> q \<and> Q r = Some xs \<and> e \<in> set xs)"
  by (auto simp: queued_def)

lemma queued_iff:
  "Q q = Some ys \<Longrightarrow> e \<in> queued Q \<longleftrightarrow> e \<in> set ys \<or> (\<exists>r xs. r \<noteq> q \<and> Q r = Some xs \<and> e \<in> set xs)"
  unfolding queued_def mem_Collect_eq by (metis option.inject)

lemma queued_upd_snoc: "Q q = Some xs \<Longrightarrow> queued (Q(q \<mapsto> xs @ [e])) = insert e (queued Q)"
  by (rule set_eqI) (auto simp: queued_upd queued_iff [of Q q])

definition qrep :: "('q, 'e) lheap \<Rightarrow> ('q \<rightharpoonup> 'e list) \<Rightarrow> bool" where
  "qrep h Q \<longleftrightarrow>
     (\<forall>q xs. Q q = Some xs \<longrightarrow> dll h (Head q) (map Elem xs)) \<and>
     (\<forall>q q' xs ys. Q q = Some xs \<longrightarrow> Q q' = Some ys \<longrightarrow> q \<noteq> q' \<longrightarrow> set xs \<inter> set ys = {})"

locale queue_store =
  fixes rep :: "'h \<Rightarrow> ('q \<rightharpoonup> 'e list) \<Rightarrow> bool"
    and init :: "'h \<Rightarrow> 'q \<Rightarrow> 'h"
    and enq :: "'h \<Rightarrow> 'q \<Rightarrow> 'e \<Rightarrow> 'h res"
    and del :: "'h \<Rightarrow> 'e \<Rightarrow> 'h"
    and empty :: "'h \<Rightarrow> 'q \<Rightarrow> bool"
    and first :: "'h \<Rightarrow> 'q \<Rightarrow> ('q, 'e) lnode option"
    and succ :: "'h \<Rightarrow> 'e \<Rightarrow> ('q, 'e) lnode option"
  assumes rep_init: "rep h Q \<Longrightarrow> Q q = None \<or> Q q = Some [] \<Longrightarrow> rep (init h q) (Q(q \<mapsto> []))"
    and rep_enq: "rep h Q \<Longrightarrow> Q q = Some xs \<Longrightarrow> e \<notin> queued Q \<Longrightarrow>
      \<exists>h'. enq h q e = Inr h' \<and> rep h' (Q(q \<mapsto> xs @ [e]))"
    and rep_del: "rep h Q \<Longrightarrow> Q q = Some (xs @ e # ys) \<Longrightarrow> rep (del h e) (Q(q \<mapsto> xs @ ys))"
    and rep_empty: "rep h Q \<Longrightarrow> Q q = Some xs \<Longrightarrow> empty h q \<longleftrightarrow> xs = []"
    and rep_first: "rep h Q \<Longrightarrow> Q q = Some xs \<Longrightarrow>
      first h q = Some (case xs of [] \<Rightarrow> Head q | x # _ \<Rightarrow> Elem x)"
    and rep_succ: "rep h Q \<Longrightarrow> Q q = Some (xs @ e # ys) \<Longrightarrow>
      succ h e = Some (case ys of [] \<Rightarrow> Head q | y # _ \<Rightarrow> Elem y)"
    and rep_distinct: "rep h Q \<Longrightarrow> Q q = Some xs \<Longrightarrow> distinct xs"
    and rep_disjoint: "rep h Q \<Longrightarrow> Q q = Some xs \<Longrightarrow> Q q' = Some ys \<Longrightarrow> q \<noteq> q' \<Longrightarrow>
      set xs \<inter> set ys = {}"
begin

lemma queued_del:
  assumes "rep h Q" and q: "Q q = Some (xs @ e # ys)"
  shows "queued (Q(q \<mapsto> xs @ ys)) = queued Q - {e}"
proof (rule set_eqI)
  fix x
  have "e \<notin> set (xs @ ys)" using rep_distinct [OF assms] by auto
  moreover have "e \<notin> set zs" if "r \<noteq> q" "Q r = Some zs" for r zs
    using rep_disjoint [OF assms that(2)] that(1) by auto
  ultimately show "x \<in> queued (Q(q \<mapsto> xs @ ys)) \<longleftrightarrow> x \<in> queued Q - {e}"
    using q by (auto simp: queued_upd queued_iff [of Q q])
qed

text \<open>Moving an element to the tail of another queue, or of the same one.\<close>

lemma rep_move:
  assumes "rep h Q" and "Q q = Some (xs @ e # ys)" and "(Q(q \<mapsto> xs @ ys)) r = Some zs"
  shows "\<exists>h'. enq (del h e) r e = Inr h' \<and> rep h' (Q(q \<mapsto> xs @ ys, r \<mapsto> zs @ [e]))"
proof (rule rep_enq [OF rep_del [OF assms(1,2)] assms(3)])
  show "e \<notin> queued (Q(q \<mapsto> xs @ ys))" by (simp add: queued_del [OF assms(1,2)])
qed

lemma first_entry: "rep h Q \<Longrightarrow> Q q = Some (x # xs) \<Longrightarrow> list_entry (first h q) = Inr x"
  using rep_first [of h Q q "x # xs"] by (simp add: list_entry_def)

end

text \<open>The link operations of \<open>list.h\<close> provide the contract.\<close>

lemma qrep_dll: "qrep h Q \<Longrightarrow> Q q = Some xs \<Longrightarrow> dll h (Head q) (map Elem xs)"
  by (auto simp: qrep_def)

lemma qrep_init:
  "qrep h Q \<Longrightarrow> Q q = None \<or> Q q = Some [] \<Longrightarrow> qrep (init_list_head h (Head q)) (Q(q \<mapsto> []))"
  unfolding qrep_def
proof (intro conjI allI impI, goal_cases)
  case (1 r xs)
  show ?case
  proof (cases "r = q")
    case True
    with 1 show ?thesis by (simp add: dll_init)
  next
    case False
    with 1 have "dll h (Head r) (map Elem xs)" by simp
    moreover have "dll h (Head r) (map Elem xs) = dll (init_list_head h (Head q)) (Head r) (map Elem xs)"
      by (rule dll_cong) (use False in \<open>auto simp: init_list_head_def\<close>)
    ultimately show ?thesis by simp
  qed
qed (auto split: if_splits)

lemma qrep_enq:
  assumes "qrep h Q" and "Q q = Some xs" and "e \<notin> queued Q"
  shows "\<exists>h'. list_add_tail h (Elem e) (Head q) = Inr h' \<and> qrep h' (Q(q \<mapsto> xs @ [e]))"
proof -
  have e: "Elem e \<notin> set (Head q # map Elem xs)" using assms(2,3) by (auto simp: queued_def)
  obtain h' where h': "list_add_tail h (Elem e) (Head q) = Inr h'"
    "dll h' (Head q) (map Elem xs @ [Elem e])"
    "\<And>x. x \<notin> set (Elem e # Head q # map Elem xs) \<Longrightarrow> h' x = h x"
    by (rule dll_add_tail [OF qrep_dll [OF assms(1,2)] e]) blast
  have "dll h' (Head r) (map Elem zs)" if "r \<noteq> q" and r: "Q r = Some zs" for r zs
  proof -
    have "set zs \<inter> set xs = {}" "e \<notin> set zs"
      using assms that by (auto simp: qrep_def queued_def)
    then have "h x = h' x" if "x \<in> set (Head r # map Elem zs)" for x
      using that \<open>r \<noteq> q\<close> by (intro h'(3) [symmetric]) auto
    then have "dll h (Head r) (map Elem zs) = dll h' (Head r) (map Elem zs)"
      by (rule dll_cong)
    with qrep_dll [OF assms(1) r] show ?thesis by simp
  qed
  then have "qrep h' (Q(q \<mapsto> xs @ [e]))"
    using h'(2) assms unfolding qrep_def queued_def by (auto split: if_splits)
  with h'(1) show ?thesis by blast
qed

lemma qrep_del:
  assumes "qrep h Q" and "Q q = Some (xs @ e # ys)"
  shows "qrep (list_del h (Elem e)) (Q(q \<mapsto> xs @ ys))"
proof -
  have d: "dll h (Head q) (map Elem xs @ Elem e # map Elem ys)"
    using qrep_dll [OF assms] by simp
  have "dll (list_del h (Elem e)) (Head r) (map Elem zs)" if "r \<noteq> q" and r: "Q r = Some zs" for r zs
  proof -
    have "set zs \<inter> set (xs @ e # ys) = {}"
      using assms that unfolding qrep_def by blast
    then have "h x = list_del h (Elem e) x" if "x \<in> set (Head r # map Elem zs)" for x
      using that \<open>r \<noteq> q\<close> by (intro dll_del(2) [OF d, symmetric]) auto
    then have "dll h (Head r) (map Elem zs) = dll (list_del h (Elem e)) (Head r) (map Elem zs)"
      by (rule dll_cong)
    with qrep_dll [OF assms(1) r] show ?thesis by simp
  qed
  then show ?thesis
    using dll_del(1) [OF d] assms unfolding qrep_def by (auto split: if_splits) fastforce+
qed

text \<open>An element is on a queue of the heap.\<close>

definition on_list :: "('q, 'e) lheap \<Rightarrow> 'q \<Rightarrow> 'e \<Rightarrow> bool" where
  "on_list h q e \<longleftrightarrow> (\<exists>xs. dll h (Head q) (map Elem xs) \<and> e \<in> set xs)"

lemma on_list_qrep:
  assumes "qrep h Q" and "Q q = Some xs"
  shows "on_list h q e \<longleftrightarrow> e \<in> set xs"
proof
  assume "on_list h q e"
  then obtain ys where "dll h (Head q) (map Elem ys)" "e \<in> set ys" by (auto simp: on_list_def)
  moreover from this(1) have "map (Elem :: 'b \<Rightarrow> ('a, 'b) lnode) ys = map Elem xs"
    using dll_unique qrep_dll [OF assms] by blast
  then have "ys = xs" by (rule map_injective) (simp add: inj_on_def)
  ultimately show "e \<in> set xs" by simp
qed (use qrep_dll [OF assms] in \<open>auto simp: on_list_def\<close>)

interpretation lq: queue_store qrep "\<lambda>h q. init_list_head h (Head q)"
  "\<lambda>h q e. list_add_tail h (Elem e) (Head q)" "\<lambda>h e. list_del h (Elem e)"
  "\<lambda>h q. list_is_empty h (Head q)" "\<lambda>h q. nxt (h (Head q))" "\<lambda>h e. nxt (h (Elem e))"
proof (unfold_locales, goal_cases)
  case (1 h Q q)
  then show ?case by (rule qrep_init)
next
  case (2 h Q q xs e)
  then show ?case by (rule qrep_enq)
next
  case (3 h Q q xs e ys)
  then show ?case by (rule qrep_del)
next
  case (4 h Q q xs)
  then show ?case using dll_is_empty qrep_dll by fastforce
next
  case (5 h Q q xs)
  then show ?case using dll_front [OF qrep_dll] by (cases xs) fastforce+
next
  case (6 h Q q xs e ys)
  then have "dll h (Head q) (map Elem xs @ Elem e # map Elem ys)" using qrep_dll by fastforce
  then show ?case using dll_succ by (cases ys) fastforce+
next
  case (7 h Q q xs)
  then have "distinct (map (Elem :: 'b \<Rightarrow> ('a, 'b) lnode) xs)" using qrep_dll by (fastforce simp: dll_def)
  then show ?case by (simp add: distinct_map)
next
  case (8 h Q q xs q' ys)
  then show ?case by (simp add: qrep_def)
qed


section \<open>Properties\<close>

text \<open>
  The pointer operations of \<open>list.h\<close> implement FIFO queues: appending a node that is on no queue
  extends exactly one queue by it, deleting a node takes exactly that node out of its queue, in the
  middle as well as at the ends, and all other queues keep their elements.
\<close>

theorem list_ops_queue:
  assumes "qrep h Q" and "Q q = Some xs" and "e \<notin> queued Q" and "d \<in> set (xs @ [e])"
  shows "\<exists>h'. list_add_tail h (Elem e) (Head q) = Inr h' \<and> qrep h' (Q(q \<mapsto> xs @ [e])) \<and>
     qrep (list_del h' (Elem d)) (Q(q \<mapsto> remove1 d (xs @ [e])))"
proof -
  obtain h' where h': "list_add_tail h (Elem e) (Head q) = Inr h'" "qrep h' (Q(q \<mapsto> xs @ [e]))"
    using lq.rep_enq [OF assms(1-3)] by blast
  obtain us vs where d: "xs @ [e] = us @ d # vs" "d \<notin> set us"
    using split_list_first [OF assms(4)] by blast
  then have r: "remove1 d (xs @ [e]) = us @ vs" by (simp add: remove1_append)
  have "(Q(q \<mapsto> xs @ [e])) q = Some (us @ d # vs)" using d(1) by simp
  from lq.rep_del [OF h'(2) this] have "qrep (list_del h' (Elem d)) (Q(q \<mapsto> us @ vs))"
    by (simp del: fun_upd_apply)
  with h' r show ?thesis by metis
qed

definition demo_heap :: "(nat, nat) lheap" where
  "demo_heap n = (case n of Head q \<Rightarrow> \<lparr>nxt = Some (Head q), prv = Some (Head q)\<rparr>
                  | Elem e \<Rightarrow> \<lparr>nxt = None, prv = None\<rparr>)"

end
