(* ===== verification/Pgtable.thy ===== *)
theory Pgtable
  imports Prelude
begin

text \<open>
  Page table entries and address arithmetic: \<open>arch/riscv/include/pgtable.h\<close> and the macros of
  \<open>include/os/mm.h\<close>.  Addresses and entries are 64-bit words; a function that writes through a
  \<open>PTE *\<close> returns the new entry.
\<close>

section \<open>Definitions\<close>

type_synonym pte = u64

definition PAGE_PRESENT :: u64 where "PAGE_PRESENT = push_bit 0 1"
definition PAGE_READ :: u64 where "PAGE_READ = push_bit 1 1"
definition PAGE_WRITE :: u64 where "PAGE_WRITE = push_bit 2 1"
definition PAGE_EXEC :: u64 where "PAGE_EXEC = push_bit 3 1"
definition PAGE_USER :: u64 where "PAGE_USER = push_bit 4 1"
definition PAGE_GLOBAL :: u64 where "PAGE_GLOBAL = push_bit 5 1"
definition PAGE_ACCESSED :: u64 where "PAGE_ACCESSED = push_bit 6 1"
definition PAGE_DIRTY :: u64 where "PAGE_DIRTY = push_bit 7 1"
definition PAGE_SOFT :: u64 where "PAGE_SOFT = push_bit 8 1"
definition PAGE_INSD :: u64 where "PAGE_INSD = push_bit 9 1"

lemmas page_bits = PAGE_PRESENT_def PAGE_READ_def PAGE_WRITE_def PAGE_EXEC_def PAGE_USER_def
  PAGE_GLOBAL_def PAGE_ACCESSED_def PAGE_DIRTY_def PAGE_SOFT_def PAGE_INSD_def

definition PA_MASK :: u64 where "PA_MASK = push_bit 54 1 - 1"
definition VA_MASK :: u64 where "VA_MASK = push_bit 39 1 - 1"
definition VPN_MASK :: u64 where "VPN_MASK = push_bit 9 1 - 1"
definition KVA_OFFSET :: u64 where "KVA_OFFSET = 0xffffffc000000000"

definition kva2pa :: "u64 \<Rightarrow> u64" where "kva2pa kva = kva - KVA_OFFSET"
definition pa2kva :: "u64 \<Rightarrow> u64" where "pa2kva pa = pa + KVA_OFFSET"

definition get_pa :: "pte \<Rightarrow> u64" where
  "get_pa entry = push_bit 12 (drop_bit 10 (entry AND PA_MASK))"

definition get_pfn :: "pte \<Rightarrow> u64" where
  "get_pfn entry = drop_bit 10 (entry AND PA_MASK)"

definition set_pfn :: "pte \<Rightarrow> u64 \<Rightarrow> pte" where
  "set_pfn entry pfn = push_bit 10 pfn OR (entry AND 0x3ff)"

definition get_attribute :: "pte \<Rightarrow> u64 \<Rightarrow> u64" where
  "get_attribute entry bits = entry AND bits"

definition set_attribute :: "pte \<Rightarrow> u64 \<Rightarrow> pte" where
  "set_attribute entry bits = entry OR bits"

text \<open>\<open>clean_attribute\<close> is an exclusive or: it flips the given bits.\<close>

definition clean_attribute :: "pte \<Rightarrow> u64 \<Rightarrow> pte" where
  "clean_attribute entry bits = entry XOR bits"

definition GetVPN2 :: "u64 \<Rightarrow> u64" where "GetVPN2 va = drop_bit 30 va AND VPN_MASK"
definition GetVPN1 :: "u64 \<Rightarrow> u64" where "GetVPN1 va = drop_bit 21 va AND VPN_MASK"
definition GetVPN0 :: "u64 \<Rightarrow> u64" where "GetVPN0 va = drop_bit 12 va AND VPN_MASK"
definition GetPFN :: "u64 \<Rightarrow> u64" where "GetPFN pa = drop_bit 12 pa"
definition PageValid :: "pte \<Rightarrow> bool" where "PageValid entry = (entry AND PAGE_PRESENT \<noteq> 0)"
definition inSD :: "pte \<Rightarrow> bool" where "inSD entry = (entry AND PAGE_INSD \<noteq> 0)"
definition isWrite :: "pte \<Rightarrow> bool" where "isWrite entry = (entry AND PAGE_WRITE \<noteq> 0)"

definition SATP_MODE_SV39 :: u32 where "SATP_MODE_SV39 = 8"

definition set_satp :: "u32 \<Rightarrow> u32 \<Rightarrow> u64 \<Rightarrow> u64" where
  "set_satp mode asid ppn = push_bit 60 (ucast mode) OR push_bit 44 (ucast asid) OR ppn"

section \<open>Lemmas\<close>

lemma kva2pa_pa2kva [simp]: "kva2pa (pa2kva pa) = pa"
  by (simp add: kva2pa_def pa2kva_def)

lemma pa2kva_kva2pa [simp]: "pa2kva (kva2pa kva) = kva"
  by (simp add: kva2pa_def pa2kva_def)

lemma PA_MASK_mask: "PA_MASK = mask 54"
  by (simp add: PA_MASK_def mask_eq_exp_minus_1)

lemma VPN_MASK_mask: "VPN_MASK = mask 9"
  by (simp add: VPN_MASK_def mask_eq_exp_minus_1)

lemma low_bits_mask: "0x3ff = (mask 10 :: u64)"
  by (simp add: mask_eq_exp_minus_1)

lemma bit_get_pfn: "bit (get_pfn e) n \<longleftrightarrow> n < 44 \<and> bit e (n + 10)"
  by (auto simp: get_pfn_def PA_MASK_mask bit_simps ac_simps)

lemma bit_set_pfn: "bit (set_pfn e f) n \<longleftrightarrow> (if n < 10 then bit e n else n < 64 \<and> bit f (n - 10))"
  by (auto simp: set_pfn_def low_bits_mask bit_simps not_le dest: bit_imp_le_length)

lemma bit_get_pa: "bit (get_pa e) n \<longleftrightarrow> 12 \<le> n \<and> n < 56 \<and> bit e (n - 2)"
  by (auto simp: get_pa_def PA_MASK_mask bit_simps le_diff_conv2 less_diff_conv2 algebra_simps numeral_2_eq_2
      dest: bit_imp_le_length)

text \<open>A frame number fits in the 44 bits of the entry's PFN field.\<close>

definition pfn_ok :: "u64 \<Rightarrow> bool" where
  "pfn_ok f \<longleftrightarrow> take_bit 44 f = f"

lemma pfn_ok_bit: "pfn_ok f \<Longrightarrow> bit f n \<Longrightarrow> n < 44"
  unfolding pfn_ok_def by (metis bit_take_bit_iff)

lemma get_pfn_set_pfn: "pfn_ok f \<Longrightarrow> get_pfn (set_pfn e f) = f"
  by (rule bit_word_eqI) (auto simp: bit_get_pfn bit_set_pfn dest: pfn_ok_bit)

lemma get_pa_set_pfn: "pfn_ok f \<Longrightarrow> get_pa (set_pfn e f) = push_bit 12 f"
  by (rule bit_word_eqI)
    (auto simp: bit_get_pa bit_set_pfn bit_simps dest: pfn_ok_bit)

lemma set_pfn_attribute:
  assumes "b < 10"
  shows "set_pfn e f AND push_bit b 1 = e AND push_bit b 1"
  by (rule bit_word_eqI) (use assms in \<open>auto simp: bit_set_pfn bit_simps bit_1_iff\<close>)

lemma get_pfn_set_attribute:
  assumes "b < 10"
  shows "get_pfn (set_attribute e (push_bit b 1)) = get_pfn e"
  by (rule bit_word_eqI) (use assms in \<open>auto simp: bit_get_pfn set_attribute_def bit_simps bit_1_iff\<close>)

lemma clean_attribute_flips:
  "bit (clean_attribute e (push_bit b 1)) n \<longleftrightarrow> (if n = b then n < 64 \<and> \<not> bit e n else bit e n)"
  by (auto simp: clean_attribute_def bit_simps bit_1_iff dest: bit_imp_le_length)


section \<open>Properties\<close>

text \<open>
  An entry into which a frame number was written gives that frame's physical address back and
  keeps all its attribute bits; setting an attribute leaves the address alone.
\<close>

theorem pte_roundtrip:
  assumes "pfn_ok f" and "b < 10"
  shows "get_pa (set_pfn e f) = push_bit 12 f \<and> get_pfn (set_pfn e f) = f \<and>
     get_attribute (set_pfn e f) (push_bit b 1) = get_attribute e (push_bit b 1) \<and>
     get_pfn (set_attribute (set_pfn e f) (push_bit b 1)) = f"
  unfolding get_attribute_def set_pfn_attribute [OF assms(2)] get_pfn_set_attribute [OF assms(2)]
  using assms(1) by (simp add: get_pa_set_pfn get_pfn_set_pfn)

text \<open>
  \<open>clean_attribute\<close> does not clear: on an entry that lacks the attribute it sets it, and it is
  its own inverse.
\<close>

theorem clean_attribute_toggles:
  "get_attribute (clean_attribute e bits) bits = (NOT e) AND bits \<and>
   clean_attribute (clean_attribute e bits) bits = e"
  by (rule conjI; rule bit_word_eqI) (auto simp: clean_attribute_def get_attribute_def bit_simps)

end
