(* ===== verification/Sched.thy ===== *)
theory Sched
  imports KList Pgtable
begin

text \<open>
  The scheduler: \<open>kernel/sched/sched.c\<close> (queues, \<open>do_scheduler\<close>, \<open>do_sleep\<close>, \<open>do_block\<close>,
  \<open>do_unblock\<close>) and \<open>kernel/sched/time.c\<close>.  The state holds the list nodes of \<open>list.h\<close>, the
  process control blocks, the process each core runs, and the clock.  \<open>get_current_cpu_id()\<close> is
  the argument \<open>cpu\<close>.  \<open>switch_to\<close> saves and restores registers (\<open>entry.S\<close>); what it changes of
  the state modelled here is only which process the core runs, which \<open>do_scheduler\<close> has
  recorded in \<open>core_running\<close> just before.
\<close>

section \<open>State\<close>

text \<open>The elements of \<open>pcb[NUM_MAX_TASK]\<close> and the two idle processes.\<close>

datatype pcb_ref = Pcb nat | Pid0Master | Pid0Slave

datatype task_status_t = TASK_BLOCKED | TASK_RUNNING | TASK_READY | TASK_EXITED | TASK_AVAILABLE

datatype task_mode_t = USER | SUPERVISOR | THREAD

text \<open>The queue heads of the kernel; \<open>WaitList p\<close> is the \<open>wait_list\<close> member of a PCB.\<close>

datatype qid =
    ReadyQueue | SleepQueue | WaitList pcb_ref
  | MlockQueue nat | BarrierQueue nat | CondQueue nat
  | MboxLockQueue nat | MboxFullQueue nat | MboxEmptyQueue nat
  | SendBlockQueue | RecvBlockQueue

definition NUM_MAX_TASK :: nat where "NUM_MAX_TASK = 16"
definition CORE_NUM :: nat where "CORE_NUM = 2"

record pcb_t =
  kernel_sp :: u64
  user_sp :: u64
  kernel_stack_base :: u64
  user_stack_base :: u64
  pgdir :: u64
  upbound :: u32
  pagenum :: u32
  shm_page_num :: u64
  pid :: int
  childnum :: int
  task_status :: task_status_t
  cursor_x :: int
  cursor_y :: int
  wakeup_time :: u64
  task_mode :: task_mode_t
  task_mask :: u32

record kstate =
  lists :: "(qid, pcb_ref) lheap"
  pcb :: "pcb_ref \<Rightarrow> pcb_t"
  core_running :: "nat \<Rightarrow> pcb_ref"
  process_id :: int
  rdtime :: u64
  time_elapsed :: u64
  time_base :: u64
  satp :: "nat \<Rightarrow> u64"
  bios_timer :: "nat \<Rightarrow> u64"   \<comment> \<open>last argument of \<open>bios_set_timer\<close> on each core\<close>

definition upd_pcb :: "pcb_ref \<Rightarrow> (pcb_t \<Rightarrow> pcb_t) \<Rightarrow> 's kstate_scheme \<Rightarrow> 's kstate_scheme" where
  "upd_pcb p f s = s\<lparr>pcb := (pcb s)(p := f (pcb s p))\<rparr>"

abbreviation set_status :: "pcb_ref \<Rightarrow> task_status_t \<Rightarrow> 's kstate_scheme \<Rightarrow> 's kstate_scheme" where
  "set_status p st \<equiv> upd_pcb p (task_status_update (\<lambda>_. st))"

section \<open>Queues of processes\<close>

definition add_queue :: "qid \<Rightarrow> pcb_ref \<Rightarrow> 's kstate_scheme \<Rightarrow> 's kstate_scheme res" where
  "add_queue q p s =
     bindE (list_add_tail (lists s) (Elem p) (Head q)) (\<lambda>h. Inr (s\<lparr>lists := h\<rparr>))"

definition del_queue :: "pcb_ref \<Rightarrow> 's kstate_scheme \<Rightarrow> 's kstate_scheme" where
  "del_queue p s = s\<lparr>lists := list_del (lists s) (Elem p)\<rparr>"

definition queue_is_empty :: "qid \<Rightarrow> 's kstate_scheme \<Rightarrow> bool" where
  "queue_is_empty q s = list_is_empty (lists s) (Head q)"

definition get_head :: "qid \<Rightarrow> 's kstate_scheme \<Rightarrow> (pcb_ref \<times> 's kstate_scheme) res" where
  "get_head q s = bindE (list_entry (nxt (lists s (Head q)))) (\<lambda>p. Inr (p, del_queue p s))"

section \<open>Time\<close>

definition get_ticks :: "'s kstate_scheme \<Rightarrow> u64 \<times> 's kstate_scheme" where
  "get_ticks s = (rdtime s, s\<lparr>time_elapsed := rdtime s\<rparr>)"

text \<open>Unsigned division as the RISC-V instruction does it: all ones when the divisor is zero.\<close>

definition divu :: "u64 \<Rightarrow> u64 \<Rightarrow> u64" where
  "divu a b = (if b = 0 then - 1 else a div b)"

definition get_timer :: "'s kstate_scheme \<Rightarrow> u64 \<times> 's kstate_scheme" where
  "get_timer s = (let (t, s) = get_ticks s in (divu t (time_base s), s))"

definition get_time_base :: "'s kstate_scheme \<Rightarrow> u64" where
  "get_time_base s = time_base s"

text \<open>
  The walk along a queue ends when it is back at the head.  \<open>QUEUE_FUEL\<close> bounds the number of
  nodes visited; a queue holds at most the 16 elements of \<open>pcb[]\<close>, so a walk that visits more
  nodes is on a corrupted list and would not end.
\<close>

definition QUEUE_FUEL :: nat where "QUEUE_FUEL = 20"

fun check_sleeping_loop ::
  "nat \<Rightarrow> u64 \<Rightarrow> (qid, pcb_ref) lnode option \<Rightarrow> 's kstate_scheme \<Rightarrow> 's kstate_scheme res" where
  "check_sleeping_loop 0 current_time it s = Inl Hang"
| "check_sleeping_loop (Suc fuel) current_time it s =
     (if it = Some (Head SleepQueue) then Inr s
      else bindE (list_entry it) (\<lambda>sleep_pcb.
        let next = nxt (lists s (Elem sleep_pcb))
        in if wakeup_time (pcb s sleep_pcb) \<le> current_time
           then let s = set_status sleep_pcb TASK_READY s;
                    s = del_queue sleep_pcb s
                in bindE (add_queue ReadyQueue sleep_pcb s)
                     (check_sleeping_loop fuel current_time next)
           else check_sleeping_loop fuel current_time next s))"

definition check_sleeping :: "'s kstate_scheme \<Rightarrow> 's kstate_scheme res" where
  "check_sleeping s =
     (let it = nxt (lists s (Head SleepQueue));
          (current_time, s) = get_timer s
      in check_sleeping_loop QUEUE_FUEL current_time it s)"

section \<open>The scheduler\<close>

definition GETMASK :: "nat \<Rightarrow> u32" where "GETMASK cpu_id = push_bit cpu_id 1"

definition pid0_of :: "nat \<Rightarrow> pcb_ref" where
  "pid0_of cpu_id = (if cpu_id \<noteq> 0 then Pid0Slave else Pid0Master)"

text \<open>The \<open>while\<close> loop of \<open>do_scheduler\<close>: \<open>None\<close> when the walk is back at the head.\<close>

fun find_runnable ::
  "nat \<Rightarrow> nat \<Rightarrow> (qid, pcb_ref) lnode option \<Rightarrow> 's kstate_scheme \<Rightarrow> pcb_ref option res" where
  "find_runnable 0 cpu_id next_list s = Inl Hang"
| "find_runnable (Suc fuel) cpu_id next_list s =
     (if next_list = Some (Head ReadyQueue) then Inr None
      else bindE (list_entry next_list) (\<lambda>next_running.
        if task_mask (pcb s next_running) AND GETMASK cpu_id \<noteq> 0 then Inr (Some next_running)
        else find_runnable fuel cpu_id (nxt (lists s (Elem next_running))) s))"

text \<open>
  The three parts of \<open>do_scheduler\<close> after the check of the sleepers: put the running process
  back, choose the next one, make it the core's running process.
\<close>

definition put_back :: "pcb_ref \<Rightarrow> 's kstate_scheme \<Rightarrow> 's kstate_scheme res" where
  "put_back last_running s =
     (if task_status (pcb s last_running) = TASK_RUNNING \<and> pid (pcb s last_running) \<noteq> 0
      then add_queue ReadyQueue last_running (set_status last_running TASK_READY s)
      else Inr s)"

definition pick_next :: "nat \<Rightarrow> 's kstate_scheme \<Rightarrow> (pcb_ref \<times> 's kstate_scheme) res" where
  "pick_next cpu_id s =
     (if queue_is_empty ReadyQueue s then Inr (pid0_of cpu_id, s)
      else bindE (find_runnable QUEUE_FUEL cpu_id (nxt (lists s (Head ReadyQueue))) s)
        (\<lambda>r. case r of
                None \<Rightarrow> Inr (pid0_of cpu_id, s)
              | Some next_running \<Rightarrow> Inr (next_running, del_queue next_running s)))"

definition run_next :: "nat \<Rightarrow> pcb_ref \<Rightarrow> pcb_ref \<Rightarrow> 's kstate_scheme \<Rightarrow> 's kstate_scheme" where
  "run_next cpu_id last_running current_running s =
     (let s = set_status current_running TASK_RUNNING s;
          s = s\<lparr>core_running := (core_running s)(cpu_id := current_running)\<rparr>
      in if pgdir (pcb s last_running) \<noteq> pgdir (pcb s current_running)
         then s\<lparr>satp := (satp s)(cpu_id :=
                  set_satp SATP_MODE_SV39 (word_of_int (pid (pcb s current_running)))
                    (GetPFN (kva2pa (pgdir (pcb s current_running)))))\<rparr>
         else s)"

definition do_scheduler :: "nat \<Rightarrow> 's kstate_scheme \<Rightarrow> 's kstate_scheme res" where
  "do_scheduler cpu_id s =
     (let last_running = core_running s cpu_id
      in bindE (check_sleeping s) (\<lambda>s.
         bindE (put_back last_running s) (\<lambda>s.
         bindE (pick_next cpu_id s) (\<lambda>(current_running, s).
         Inr (run_next cpu_id last_running current_running s)))))"

definition do_sleep :: "nat \<Rightarrow> u32 \<Rightarrow> 's kstate_scheme \<Rightarrow> 's kstate_scheme res" where
  "do_sleep cpu_id sleep_time s =
     (let current_running = core_running s cpu_id;
          s = set_status current_running TASK_BLOCKED s;
          (now, s) = get_timer s;
          s = upd_pcb current_running (wakeup_time_update (\<lambda>_. ucast sleep_time + now)) s
      in bindE (add_queue SleepQueue current_running s) (do_scheduler cpu_id))"

definition do_block :: "nat \<Rightarrow> pcb_ref \<Rightarrow> qid \<Rightarrow> 's kstate_scheme \<Rightarrow> 's kstate_scheme res" where
  "do_block cpu_id temp queue s =
     bindE (add_queue queue temp (set_status temp TASK_BLOCKED s)) (do_scheduler cpu_id)"

definition do_unblock :: "qid \<Rightarrow> 's kstate_scheme \<Rightarrow> 's kstate_scheme res" where
  "do_unblock head s =
     bindE (get_head head s) (\<lambda>(unblocked_task, s).
       add_queue ReadyQueue unblocked_task (set_status unblocked_task TASK_READY s))"

text \<open>The timer interrupt (\<open>kernel/irq/irq.c\<close>).\<close>

definition TIMER_INTERVAL :: u64 where "TIMER_INTERVAL = 10000"

definition handle_irq_timer :: "nat \<Rightarrow> 's kstate_scheme \<Rightarrow> 's kstate_scheme res" where
  "handle_irq_timer cpu_id s =
     bindE (check_sleeping s) (\<lambda>s.
       let (ticks, s) = get_ticks s
       in do_scheduler cpu_id (s\<lparr>bios_timer := (bios_timer s)(cpu_id := ticks + TIMER_INTERVAL)\<rparr>))"

definition do_getpid :: "nat \<Rightarrow> 's kstate_scheme \<Rightarrow> int" where
  "do_getpid cpu_id s = pid (pcb s (core_running s cpu_id))"


section \<open>Well-formed scheduler states\<close>

text \<open>
  \<open>kwf s Q\<close>: the link fields of \<open>s\<close> hold the queues \<open>Q\<close>, only members of \<open>pcb[]\<close> are queued,
  the idle processes have process number 0, and a core runs its idle process or a member of
  \<open>pcb[]\<close>.
\<close>

abbreviation tasks16 :: "pcb_ref set" where
  "tasks16 \<equiv> Pcb ` {..<NUM_MAX_TASK}"

definition kwf :: "'s kstate_scheme \<Rightarrow> (qid \<rightharpoonup> pcb_ref list) \<Rightarrow> bool" where
  "kwf s Q \<longleftrightarrow>
     qrep (lists s) Q \<and> Q ReadyQueue \<noteq> None \<and> Q SleepQueue \<noteq> None \<and> queued Q \<subseteq> tasks16 \<and>
     pid (pcb s Pid0Master) = 0 \<and> pid (pcb s Pid0Slave) = 0 \<and>
     (\<forall>c < CORE_NUM. core_running s c = pid0_of c \<or> core_running s c \<in> tasks16)"

lemma upd_pcb_sel [simp]:
  "lists (upd_pcb p f s) = lists s" "core_running (upd_pcb p f s) = core_running s"
  "rdtime (upd_pcb p f s) = rdtime s" "time_base (upd_pcb p f s) = time_base s"
  "satp (upd_pcb p f s) = satp s" "process_id (upd_pcb p f s) = process_id s"
  "time_elapsed (upd_pcb p f s) = time_elapsed s"
  "pcb (upd_pcb p f s) = (pcb s)(p := f (pcb s p))"
  by (simp_all add: upd_pcb_def)

lemma kwf_qrep: "kwf s Q \<Longrightarrow> qrep (lists s) Q"
  by (simp add: kwf_def)

lemma queued_member: "Q q = Some xs \<Longrightarrow> p \<in> set xs \<Longrightarrow> p \<in> queued Q"
  by (auto simp: queued_def)

lemma kwf_length:
  assumes "kwf s Q" and "Q q = Some xs"
  shows "length xs \<le> NUM_MAX_TASK"
proof -
  have "distinct xs" by (rule lq.rep_distinct [OF kwf_qrep [OF assms(1)] assms(2)])
  moreover have "set xs \<subseteq> tasks16" using assms by (auto simp: kwf_def queued_def)
  then have "card (set xs) \<le> card tasks16" by (rule card_mono [rotated]) simp
  moreover have "card tasks16 \<le> NUM_MAX_TASK"
    using card_image_le [of "{..<NUM_MAX_TASK}" Pcb] by simp
  ultimately show ?thesis by (simp add: distinct_card)
qed

text \<open>Changes of the state that leave the queues and the identity of processes alone.\<close>

lemma kwf_cong:
  "lists s' = lists s \<Longrightarrow> (\<And>p. pid (pcb s' p) = pid (pcb s p)) \<Longrightarrow>
   core_running s' = core_running s \<Longrightarrow> kwf s' Q = kwf s Q"
  by (simp add: kwf_def)

lemma kwf_set_status [simp]: "kwf (set_status p st s) Q = kwf s Q"
  by (rule kwf_cong) auto

lemma add_queue_ok:
  assumes "kwf s Q" and "Q q = Some xs" and "p \<notin> queued Q" and "p \<in> tasks16"
  shows "\<exists>h. add_queue q p s = Inr (s\<lparr>lists := h\<rparr>) \<and> kwf (s\<lparr>lists := h\<rparr>) (Q(q \<mapsto> xs @ [p]))"
proof -
  from lq.rep_enq [OF kwf_qrep [OF assms(1)] assms(2,3)] obtain h where
    "list_add_tail (lists s) (Elem p) (Head q) = Inr h" "qrep h (Q(q \<mapsto> xs @ [p]))" by blast
  then show ?thesis
    using assms by (auto simp: add_queue_def kwf_def queued_upd_snoc)
qed

lemma del_queue_ok:
  assumes "kwf s Q" and "Q q = Some (xs @ p # ys)"
  shows "kwf (del_queue p s) (Q(q \<mapsto> xs @ ys))"
  using assms lq.rep_del [OF kwf_qrep [OF assms(1)] assms(2)]
    lq.queued_del [OF kwf_qrep [OF assms(1)] assms(2)]
  unfolding kwf_def del_queue_def by (auto simp del: fun_upd_apply) (auto simp: fun_upd_apply)

text \<open>Unlinking an element and appending it to a queue, in one step.\<close>

lemma requeue_ok:
  assumes "kwf s Q" and "Q q = Some (xs @ p # ys)" and "(Q(q \<mapsto> xs @ ys)) r = Some zs"
  shows "\<exists>h. add_queue r p (del_queue p s) = Inr (s\<lparr>lists := h\<rparr>) \<and>
             kwf (s\<lparr>lists := h\<rparr>) (Q(q \<mapsto> xs @ ys, r \<mapsto> zs @ [p]))"
proof -
  have "p \<notin> queued (Q(q \<mapsto> xs @ ys))"
    by (simp add: lq.queued_del [OF kwf_qrep [OF assms(1)] assms(2)])
  moreover have "p \<in> tasks16"
    using assms(1) queued_member [of Q q "xs @ p # ys" p, OF assms(2)] by (auto simp: kwf_def)
  ultimately obtain h where "add_queue r p (del_queue p s) = Inr (del_queue p s\<lparr>lists := h\<rparr>)"
    "kwf (del_queue p s\<lparr>lists := h\<rparr>) (Q(q \<mapsto> xs @ ys, r \<mapsto> zs @ [p]))"
    using add_queue_ok [OF del_queue_ok [OF assms(1,2)] assms(3)] by blast
  then show ?thesis by (auto simp: del_queue_def)
qed

section \<open>Sleeping processes\<close>

definition wake :: "u64 \<Rightarrow> pcb_ref list \<Rightarrow> (pcb_ref \<Rightarrow> pcb_t) \<Rightarrow> pcb_ref \<Rightarrow> pcb_t" where
  "wake now xs f p =
     (if p \<in> set xs \<and> wakeup_time (f p) \<le> now then (f p)\<lparr>task_status := TASK_READY\<rparr> else f p)"

lemma wake_sel [simp]: "wakeup_time (wake now xs f p) = wakeup_time (f p)"
  "pid (wake now xs f p) = pid (f p)" "task_mask (wake now xs f p) = task_mask (f p)"
  by (simp_all add: wake_def)

abbreviation first_node :: "qid \<Rightarrow> pcb_ref list \<Rightarrow> (qid, pcb_ref) lnode option" where
  "first_node q ys \<equiv> Some (case ys of [] \<Rightarrow> Head q | y # _ \<Rightarrow> Elem y)"


lemma check_sleeping_loop_ok:
  assumes "kwf s Q" and "Q SleepQueue = Some (zs @ ys)" and "Q ReadyQueue = Some rs"
    and "length ys < fuel"
  shows "\<exists>h. check_sleeping_loop fuel now (first_node SleepQueue ys) s =
               Inr (s\<lparr>lists := h, pcb := wake now ys (pcb s)\<rparr>) \<and>
             kwf (s\<lparr>lists := h, pcb := wake now ys (pcb s)\<rparr>)
               (Q(SleepQueue \<mapsto> zs @ filter (\<lambda>p. \<not> wakeup_time (pcb s p) \<le> now) ys,
                  ReadyQueue \<mapsto> rs @ filter (\<lambda>p. wakeup_time (pcb s p) \<le> now) ys))"
  using assms
proof (induction ys arbitrary: s Q zs rs fuel)
  case Nil
  have "wake now [] (pcb s) = pcb s" by (auto simp: wake_def)
  moreover have "Q(SleepQueue \<mapsto> zs, ReadyQueue \<mapsto> rs) = Q" using Nil.prems by auto
  ultimately show ?case
    using Nil.prems by (cases fuel) (auto simp del: fun_upd_apply intro!: exI [of _ "lists s"])
next
  case (Cons y ys)
  obtain n where fuel: "fuel = Suc n" "length ys < n" using Cons.prems(4) by (cases fuel) auto
  have nx: "nxt (lists s (Elem y)) = first_node SleepQueue ys"
    by (rule lq.rep_succ [OF kwf_qrep [OF Cons.prems(1)] Cons.prems(2)])
  show ?case
  proof (cases "wakeup_time (pcb s y) \<le> now")
    case True
    let ?s = "set_status y TASK_READY s"
    obtain h where h: "add_queue ReadyQueue y (del_queue y ?s) = Inr (?s\<lparr>lists := h\<rparr>)"
      "kwf (?s\<lparr>lists := h\<rparr>) (Q(SleepQueue \<mapsto> zs @ ys, ReadyQueue \<mapsto> rs @ [y]))"
      using requeue_ok [of ?s Q SleepQueue zs y ys ReadyQueue rs] Cons.prems by auto
    have d: "y \<notin> set ys"
      using lq.rep_distinct [OF kwf_qrep [OF Cons.prems(1)] Cons.prems(2)] by auto
    have w: "wake now ys (pcb (?s\<lparr>lists := h\<rparr>)) = wake now (y # ys) (pcb s)"
      using True d by (auto simp: wake_def)
    have f: "filter (\<lambda>p. wakeup_time (pcb (?s\<lparr>lists := h\<rparr>) p) \<le> now) ys =
        filter (\<lambda>p. wakeup_time (pcb s p) \<le> now) ys"
      "filter (\<lambda>p. \<not> wakeup_time (pcb (?s\<lparr>lists := h\<rparr>) p) \<le> now) ys =
        filter (\<lambda>p. \<not> wakeup_time (pcb s p) \<le> now) ys"
      by (auto intro!: filter_cong)
    let ?Q = "Q(SleepQueue \<mapsto> zs @ ys, ReadyQueue \<mapsto> rs @ [y])"
    have q: "?Q SleepQueue = Some (zs @ ys)" "?Q ReadyQueue = Some (rs @ [y])" by simp_all
    have e: "?s\<lparr>lists := h, lists := h', pcb := g\<rparr> = s\<lparr>lists := h', pcb := g\<rparr>" for h' g
      by (simp add: upd_pcb_def)
    have eQ: "?Q(SleepQueue \<mapsto> us, ReadyQueue \<mapsto> (rs @ [y]) @ vs) =
        Q(SleepQueue \<mapsto> us, ReadyQueue \<mapsto> rs @ y # vs)" for us vs
      by auto
    from Cons.IH [OF h(2) q fuel(2)]
    show ?thesis
      unfolding w f e eQ fuel(1) using True h(1) nx
      by (simp add: list_entry_def Let_def del: fun_upd_apply)
  next
    case False
    have w: "wake now ys (pcb s) = wake now (y # ys) (pcb s)"
      using False by (auto simp: wake_def)
    from Cons.IH [OF Cons.prems(1), of "zs @ [y]" rs n] Cons.prems fuel(2) False nx
    show ?thesis unfolding w fuel(1) by (auto simp: list_entry_def Let_def)
  qed
qed

lemma check_sleeping_ok:
  assumes "kwf s Q" and "Q SleepQueue = Some ys" and "Q ReadyQueue = Some rs"
  defines "now \<equiv> divu (rdtime s) (time_base s)"
  shows "\<exists>h. check_sleeping s =
               Inr (s\<lparr>lists := h, pcb := wake now ys (pcb s), time_elapsed := rdtime s\<rparr>) \<and>
             kwf (s\<lparr>lists := h, pcb := wake now ys (pcb s), time_elapsed := rdtime s\<rparr>)
               (Q(SleepQueue \<mapsto> filter (\<lambda>p. \<not> wakeup_time (pcb s p) \<le> now) ys,
                  ReadyQueue \<mapsto> rs @ filter (\<lambda>p. wakeup_time (pcb s p) \<le> now) ys))"
proof -
  let ?s = "s\<lparr>time_elapsed := rdtime s\<rparr>"
  have k: "kwf ?s Q" using assms(1) by (simp add: kwf_def)
  have n: "nxt (lists s (Head SleepQueue)) = first_node SleepQueue ys"
    by (rule lq.rep_first [OF kwf_qrep [OF assms(1)] assms(2)])
  have "length ys < QUEUE_FUEL"
    using kwf_length [OF assms(1,2)] by (simp add: QUEUE_FUEL_def NUM_MAX_TASK_def)
  note * = check_sleeping_loop_ok [OF k, of "[]" ys rs QUEUE_FUEL now, simplified append_Nil,
      OF assms(2,3) this]
  have e: "?s\<lparr>lists := h, pcb := g\<rparr> = s\<lparr>lists := h, pcb := g, time_elapsed := rdtime s\<rparr>" for h g
    by simp
  have "check_sleeping s = check_sleeping_loop QUEUE_FUEL now (first_node SleepQueue ys) ?s"
    by (simp add: check_sleeping_def get_timer_def get_ticks_def now_def n)
  moreover have "pcb ?s = pcb s" by simp
  ultimately show ?thesis using * by (simp only: e)
qed


lemma queued_transfer:
  assumes "Q q = Some ys" and "Q r = Some rs" and "q \<noteq> r"
  shows "queued (Q(q \<mapsto> filter (\<lambda>p. \<not> P p) ys, r \<mapsto> rs @ filter P ys)) = queued Q"
proof (rule set_eqI)
  fix x
  have "x \<in> queued (Q(q \<mapsto> us, r \<mapsto> vs)) \<longleftrightarrow>
      x \<in> set us \<or> x \<in> set vs \<or> (\<exists>t xs. t \<noteq> q \<and> t \<noteq> r \<and> Q t = Some xs \<and> x \<in> set xs)" for us vs
    using assms(3) unfolding queued_def by (auto split: if_splits)
  from this [of "filter (\<lambda>p. \<not> P p) ys" "rs @ filter P ys"] this [of ys rs]
  show "x \<in> queued (Q(q \<mapsto> filter (\<lambda>p. \<not> P p) ys, r \<mapsto> rs @ filter P ys)) \<longleftrightarrow> x \<in> queued Q"
    using assms(1,2) by (auto simp: fun_upd_idem)
qed

section \<open>What \<open>do_scheduler\<close> does\<close>

definition can_run :: "nat \<Rightarrow> (pcb_ref \<Rightarrow> pcb_t) \<Rightarrow> pcb_ref \<Rightarrow> bool" where
  "can_run cpu f p \<longleftrightarrow> task_mask (f p) AND GETMASK cpu \<noteq> 0"

lemma find_runnable_ok:
  assumes "kwf s Q" and "Q ReadyQueue = Some (zs @ ys)" and "length ys < fuel"
  shows "find_runnable fuel cpu (first_node ReadyQueue ys) s = Inr (find (can_run cpu (pcb s)) ys)"
  using assms(2,3)
proof (induction ys arbitrary: zs fuel)
  case Nil
  then show ?case by (cases fuel) auto
next
  case (Cons y ys)
  obtain n where fuel: "fuel = Suc n" "length ys < n" using Cons.prems(2) by (cases fuel) auto
  have "nxt (lists s (Elem y)) = first_node ReadyQueue ys"
    by (rule lq.rep_succ [OF kwf_qrep [OF assms(1)] Cons.prems(1)])
  with Cons.IH [of "zs @ [y]" n] Cons.prems(1) fuel show ?case
    by (simp add: list_entry_def can_run_def)
qed

text \<open>
  The abstract scheduler: the ready queue once sleepers have been woken and the running process
  has been put back, and the process it then chooses, the first one allowed on the core, or the
  core's idle process.
\<close>

definition timer_now :: "'s kstate_scheme \<Rightarrow> u64" where
  "timer_now s = divu (rdtime s) (time_base s)"

definition requeues :: "nat \<Rightarrow> 's kstate_scheme \<Rightarrow> pcb_ref list \<Rightarrow> bool" where
  "requeues cpu s ss \<longleftrightarrow>
     task_status (wake (timer_now s) ss (pcb s) (core_running s cpu)) = TASK_RUNNING \<and>
     pid (pcb s (core_running s cpu)) \<noteq> 0"

definition ready_after :: "nat \<Rightarrow> 's kstate_scheme \<Rightarrow> pcb_ref list \<Rightarrow> pcb_ref list \<Rightarrow> pcb_ref list" where
  "ready_after cpu s ss rs =
     rs @ filter (\<lambda>p. wakeup_time (pcb s p) \<le> timer_now s) ss @
     (if requeues cpu s ss then [core_running s cpu] else [])"

definition chosen :: "nat \<Rightarrow> 's kstate_scheme \<Rightarrow> pcb_ref list \<Rightarrow> pcb_ref list \<Rightarrow> pcb_ref option" where
  "chosen cpu s ss rs = find (can_run cpu (pcb s)) (ready_after cpu s ss rs)"

definition sched_queues ::
  "nat \<Rightarrow> 's kstate_scheme \<Rightarrow> pcb_ref list \<Rightarrow> pcb_ref list \<Rightarrow> (qid \<rightharpoonup> pcb_ref list) \<Rightarrow> (qid \<rightharpoonup> pcb_ref list)"
where
  "sched_queues cpu s ss rs Q =
     Q(SleepQueue \<mapsto> filter (\<lambda>p. \<not> wakeup_time (pcb s p) \<le> timer_now s) ss,
       ReadyQueue \<mapsto> (case chosen cpu s ss rs of None \<Rightarrow> ready_after cpu s ss rs
                      | Some p \<Rightarrow> remove1 p (ready_after cpu s ss rs)))"

definition sched_next :: "nat \<Rightarrow> 's kstate_scheme \<Rightarrow> pcb_ref list \<Rightarrow> pcb_ref list \<Rightarrow> pcb_ref" where
  "sched_next cpu s ss rs = (case chosen cpu s ss rs of None \<Rightarrow> pid0_of cpu | Some p \<Rightarrow> p)"

text \<open>The PCBs afterwards: only \<open>status\<close> fields change.\<close>

definition sched_pcbs ::
  "nat \<Rightarrow> 's kstate_scheme \<Rightarrow> pcb_ref list \<Rightarrow> pcb_ref list \<Rightarrow> pcb_ref \<Rightarrow> pcb_t" where
  "sched_pcbs cpu s ss rs =
     (let f = wake (timer_now s) ss (pcb s);
          cur = core_running s cpu;
          f = (if requeues cpu s ss then f(cur := (f cur)\<lparr>task_status := TASK_READY\<rparr>) else f);
          nx = sched_next cpu s ss rs
      in f(nx := (f nx)\<lparr>task_status := TASK_RUNNING\<rparr>))"


lemma run_next_sel [simp]:
  "lists (run_next cpu l c s) = lists s"
  "pcb (run_next cpu l c s) = (pcb s)(c := (pcb s c)\<lparr>task_status := TASK_RUNNING\<rparr>)"
  "core_running (run_next cpu l c s) = (core_running s)(cpu := c)"
  "rdtime (run_next cpu l c s) = rdtime s" "time_base (run_next cpu l c s) = time_base s"
  by (simp_all add: run_next_def Let_def)

lemma run_next_ok:
  assumes "kwf s Q" and "c = pid0_of cpu \<or> c \<in> tasks16"
  shows "kwf (run_next cpu l c s) Q"
  using assms unfolding kwf_def run_next_sel by auto

lemma put_back_ok:
  assumes "kwf s Q" and "Q ReadyQueue = Some rs" and "cpu < CORE_NUM" and "l = core_running s cpu"
    and "task_status (pcb s l) = TASK_RUNNING \<Longrightarrow> l \<notin> queued Q"
  shows "\<exists>h. put_back l s =
           Inr (if task_status (pcb s l) = TASK_RUNNING \<and> pid (pcb s l) \<noteq> 0
                then set_status l TASK_READY s\<lparr>lists := h\<rparr> else s) \<and>
         kwf (if task_status (pcb s l) = TASK_RUNNING \<and> pid (pcb s l) \<noteq> 0
              then set_status l TASK_READY s\<lparr>lists := h\<rparr> else s)
           (Q(ReadyQueue \<mapsto> rs @ (if task_status (pcb s l) = TASK_RUNNING \<and> pid (pcb s l) \<noteq> 0
                                   then [l] else [])))"
proof (cases "task_status (pcb s l) = TASK_RUNNING \<and> pid (pcb s l) \<noteq> 0")
  case True
  then have "l \<noteq> pid0_of cpu" using assms(1) by (auto simp: kwf_def pid0_of_def)
  then have "l \<in> tasks16" using assms(1,3,4) by (auto simp: kwf_def)
  moreover have "kwf (set_status l TASK_READY s) Q" using assms(1) by simp
  ultimately show ?thesis
    using add_queue_ok [of "set_status l TASK_READY s" Q ReadyQueue rs l] assms True
    by (auto simp: put_back_def)
next
  case False
  show ?thesis
    unfolding put_back_def if_not_P [OF False] using assms(1,2) by (simp add: fun_upd_idem)
qed

lemma pick_next_ok:
  assumes "kwf s Q" and "Q ReadyQueue = Some rs"
  shows "\<exists>h. pick_next cpu s = Inr (case find (can_run cpu (pcb s)) rs of
               None \<Rightarrow> (pid0_of cpu, s) | Some p \<Rightarrow> (p, s\<lparr>lists := h\<rparr>)) \<and>
             kwf (case find (can_run cpu (pcb s)) rs of None \<Rightarrow> s | Some p \<Rightarrow> s\<lparr>lists := h\<rparr>)
               (Q(ReadyQueue \<mapsto> case find (can_run cpu (pcb s)) rs of
                     None \<Rightarrow> rs | Some p \<Rightarrow> remove1 p rs)) \<and>
             (\<forall>p. find (can_run cpu (pcb s)) rs = Some p \<longrightarrow>
                  p \<notin> queued (Q(ReadyQueue \<mapsto> remove1 p rs)))"
proof -
  have e: "queue_is_empty ReadyQueue s \<longleftrightarrow> rs = []"
    unfolding queue_is_empty_def by (rule lq.rep_empty [OF kwf_qrep [OF assms(1)] assms(2)])
  have n: "nxt (lists s (Head ReadyQueue)) = first_node ReadyQueue rs"
    by (rule lq.rep_first [OF kwf_qrep [OF assms(1)] assms(2)])
  have "length rs < QUEUE_FUEL"
    using kwf_length [OF assms] by (simp add: QUEUE_FUEL_def NUM_MAX_TASK_def)
  with find_runnable_ok [OF assms(1), of "[]" rs] assms(2)
  have f: "find_runnable QUEUE_FUEL cpu (first_node ReadyQueue rs) s =
      Inr (find (can_run cpu (pcb s)) rs)" by simp
  show ?thesis
  proof (cases "find (can_run cpu (pcb s)) rs")
    case None
    then show ?thesis using assms f by (simp add: pick_next_def e n fun_upd_idem)
  next
    case (Some p)
    then have "p \<in> set rs" by (auto simp: find_Some_iff)
    then obtain us vs where rs: "rs = us @ p # vs" "p \<notin> set us"
      by (metis split_list_first)
    then have "remove1 p rs = us @ vs" by (simp add: remove1_append)
    moreover from assms(2) have "kwf (del_queue p s) (Q(ReadyQueue \<mapsto> us @ vs))"
      unfolding rs(1) by (rule del_queue_ok [OF assms(1)])
    moreover from assms(2) have "p \<notin> queued (Q(ReadyQueue \<mapsto> us @ vs))"
      unfolding rs(1) by (simp add: lq.queued_del [OF kwf_qrep [OF assms(1)]] del: fun_upd_apply)
    ultimately show ?thesis
      using Some f rs(1) by (auto simp: pick_next_def e n del_queue_def)
  qed
qed


lemma can_run_cong:
  "(\<And>p. task_mask (f p) = task_mask (g p)) \<Longrightarrow> can_run cpu f = can_run cpu g"
  by (simp add: can_run_def fun_eq_iff)

lemma do_scheduler_ok:
  assumes k: "kwf s Q" and ss: "Q SleepQueue = Some ss" and rs: "Q ReadyQueue = Some rs"
    and cpu: "cpu < CORE_NUM"
    and run: "task_status (pcb s (core_running s cpu)) = TASK_RUNNING \<Longrightarrow> core_running s cpu \<notin> queued Q"
  shows "\<exists>s'. do_scheduler cpu s = Inr s' \<and> kwf s' (sched_queues cpu s ss rs Q) \<and>
              pcb s' = sched_pcbs cpu s ss rs \<and>
              core_running s' = (core_running s)(cpu := sched_next cpu s ss rs) \<and>
              rdtime s' = rdtime s \<and> time_base s' = time_base s \<and>
              sched_next cpu s ss rs \<notin> queued (sched_queues cpu s ss rs Q)"
proof -
  let ?l = "core_running s cpu" and ?now = "timer_now s"
  let ?stay = "filter (\<lambda>p. \<not> wakeup_time (pcb s p) \<le> ?now) ss"
  let ?up = "filter (\<lambda>p. wakeup_time (pcb s p) \<le> ?now) ss"
  obtain h1 where h1: "check_sleeping s =
      Inr (s\<lparr>lists := h1, pcb := wake ?now ss (pcb s), time_elapsed := rdtime s\<rparr>)"
    "kwf (s\<lparr>lists := h1, pcb := wake ?now ss (pcb s), time_elapsed := rdtime s\<rparr>)
       (Q(SleepQueue \<mapsto> ?stay, ReadyQueue \<mapsto> rs @ ?up))"
    using check_sleeping_ok [OF k ss rs] unfolding timer_now_def by blast
  let ?s1 = "s\<lparr>lists := h1, pcb := wake ?now ss (pcb s), time_elapsed := rdtime s\<rparr>"
  let ?Q1 = "Q(SleepQueue \<mapsto> ?stay, ReadyQueue \<mapsto> rs @ ?up)"
  have qd: "queued ?Q1 = queued Q" by (rule queued_transfer [of Q, OF ss rs]) simp
  have r1: "?Q1 ReadyQueue = Some (rs @ ?up)" by simp
  have "task_status (pcb ?s1 ?l) = TASK_RUNNING \<Longrightarrow> ?l \<notin> queued ?Q1"
    unfolding qd using run by (auto simp: wake_def split: if_splits)
  from put_back_ok [OF h1(2) r1 cpu _ this] obtain s2 where
    s2: "put_back ?l ?s1 = Inr s2" "kwf s2 (?Q1(ReadyQueue \<mapsto> ready_after cpu s ss rs))"
    "core_running s2 = core_running s" "rdtime s2 = rdtime s" "time_base s2 = time_base s"
    "pcb s2 = (if requeues cpu s ss
        then (wake ?now ss (pcb s))(?l := (wake ?now ss (pcb s) ?l)\<lparr>task_status := TASK_READY\<rparr>)
        else wake ?now ss (pcb s))"
    by (fastforce simp: requeues_def ready_after_def simp del: fun_upd_apply)
  have cr: "can_run cpu (pcb s2) = can_run cpu (pcb s)"
    unfolding s2(6) by (rule can_run_cong) simp
  have r2: "(?Q1(ReadyQueue \<mapsto> ready_after cpu s ss rs)) ReadyQueue = Some (ready_after cpu s ss rs)"
    by simp
  have qe: "?Q1(ReadyQueue \<mapsto> a, ReadyQueue \<mapsto> b) = Q(SleepQueue \<mapsto> ?stay, ReadyQueue \<mapsto> b)" for a b
    by simp
  from pick_next_ok [OF s2(2) r2, of cpu] obtain s3 where
    s3: "pick_next cpu s2 = Inr (sched_next cpu s ss rs, s3)" "kwf s3 (sched_queues cpu s ss rs Q)"
    "core_running s3 = core_running s" "rdtime s3 = rdtime s" "time_base s3 = time_base s" "pcb s3 = pcb s2"
    "\<And>p. chosen cpu s ss rs = Some p \<Longrightarrow> p \<notin> queued (sched_queues cpu s ss rs Q)"
    unfolding cr sched_queues_def sched_next_def chosen_def qe
    by (cases "find (can_run cpu (pcb s)) (ready_after cpu s ss rs)")
      (auto simp: s2 simp del: fun_upd_apply)
  have "sched_next cpu s ss rs = pid0_of cpu \<or> sched_next cpu s ss rs \<in> tasks16"
  proof (cases "chosen cpu s ss rs")
    case (Some p)
    then have "p \<in> queued (?Q1(ReadyQueue \<mapsto> ready_after cpu s ss rs))"
      by (auto simp: chosen_def find_Some_iff queued_upd)
    with s2(2) Some show ?thesis by (auto simp: sched_next_def kwf_def)
  qed (simp add: sched_next_def)
  then have "kwf (run_next cpu ?l (sched_next cpu s ss rs) s3) (sched_queues cpu s ss rs Q)"
    by (rule run_next_ok [OF s3(2)])
  moreover have "sched_next cpu s ss rs \<notin> queued (sched_queues cpu s ss rs Q)"
    using s3(2,7) by (cases "chosen cpu s ss rs") (auto simp: sched_next_def kwf_def pid0_of_def)
  ultimately show ?thesis
    by (intro exI [of _ "run_next cpu ?l (sched_next cpu s ss rs) s3"])
      (auto simp: do_scheduler_def h1(1) s2 s3 sched_pcbs_def Let_def)
qed


text \<open>At kernel entry and exit no core runs a queued process and the cores run different ones.\<close>

definition kinv :: "'s kstate_scheme \<Rightarrow> (qid \<rightharpoonup> pcb_ref list) \<Rightarrow> bool" where
  "kinv s Q \<longleftrightarrow> kwf s Q \<and> (\<forall>c < CORE_NUM. core_running s c \<notin> queued Q) \<and>
     core_running s 0 \<noteq> core_running s 1"

text \<open>
  Inside a system call the calling core's own process may already be on a queue, provided it is no
  longer marked as running.
\<close>

definition kinv_call :: "nat \<Rightarrow> 's kstate_scheme \<Rightarrow> (qid \<rightharpoonup> pcb_ref list) \<Rightarrow> bool" where
  "kinv_call cpu s Q \<longleftrightarrow> kwf s Q \<and>
     (\<forall>c < CORE_NUM. c \<noteq> cpu \<longrightarrow> core_running s c \<notin> queued Q) \<and>
     (task_status (pcb s (core_running s cpu)) = TASK_RUNNING \<longrightarrow> core_running s cpu \<notin> queued Q) \<and>
     core_running s 0 \<noteq> core_running s 1"

lemma kinv_imp_call: "kinv s Q \<Longrightarrow> cpu < CORE_NUM \<Longrightarrow> kinv_call cpu s Q"
  by (auto simp: kinv_def kinv_call_def)

lemma queued_sched_queues:
  assumes "Q SleepQueue = Some ss" and "Q ReadyQueue = Some rs" and "x \<in> queued (sched_queues cpu s ss rs Q)"
  shows "x \<in> queued Q \<or> requeues cpu s ss \<and> x = core_running s cpu"
proof -
  have "set (case chosen cpu s ss rs of None \<Rightarrow> ready_after cpu s ss rs
        | Some p \<Rightarrow> remove1 p (ready_after cpu s ss rs)) \<subseteq> set (ready_after cpu s ss rs)"
    by (auto split: option.splits dest: set_mp [OF set_remove1_subset])
  then show ?thesis
    using assms unfolding sched_queues_def queued_upd
    by (auto simp: ready_after_def queued_def split: if_splits)
qed


section \<open>Invariants of the kernel between and inside system calls\<close>

text \<open>Wherever a process was before the call, it is running or queued after it.\<close>

lemma sched_not_lost:
  assumes "Q SleepQueue = Some ss" and "Q ReadyQueue = Some rs"
    and "x \<in> queued Q \<or> requeues cpu s ss \<and> x = core_running s cpu"
  shows "x = sched_next cpu s ss rs \<or> x \<in> queued (sched_queues cpu s ss rs Q)"
proof (cases "x \<in> set ss \<union> set rs \<or> requeues cpu s ss \<and> x = core_running s cpu")
  case True
  then consider "x \<in> set ss" "\<not> wakeup_time (pcb s x) \<le> timer_now s" | "x \<in> set (ready_after cpu s ss rs)"
    by (auto simp: ready_after_def)
  then show ?thesis
  proof cases
    case 1
    then show ?thesis by (auto simp: sched_queues_def queued_def intro!: exI [of _ SleepQueue])
  next
    case 2
    then show ?thesis
      by (cases "chosen cpu s ss rs")
        (auto simp: sched_queues_def sched_next_def queued_upd intro: in_set_remove1 [THEN iffD2])
  qed
next
  case False
  with assms(3) obtain q xs where q: "Q q = Some xs" "x \<in> set xs"
    unfolding queued_def by auto
  with False assms(1,2) have "q \<noteq> SleepQueue" "q \<noteq> ReadyQueue" by auto
  with q show ?thesis
    by (auto simp: sched_queues_def queued_def intro!: exI [of _ q])
qed

lemma sched_next_from:
  assumes "Q SleepQueue = Some ss" and "Q ReadyQueue = Some rs"
  shows "sched_next cpu s ss rs = pid0_of cpu \<or> sched_next cpu s ss rs \<in> queued Q \<or>
    requeues cpu s ss \<and> sched_next cpu s ss rs = core_running s cpu"
proof (cases "chosen cpu s ss rs")
  case (Some p)
  then have "p \<in> set (ready_after cpu s ss rs)"
    by (auto simp: chosen_def find_Some_iff)
  then have "p \<in> set ss \<or> p \<in> set rs \<or> requeues cpu s ss \<and> p = core_running s cpu"
    by (auto simp: ready_after_def split: if_splits)
  with assms Some show ?thesis by (auto simp: sched_next_def queued_def)
qed (simp add: sched_next_def)

lemma do_scheduler_kinv:
  assumes "kinv_call cpu s Q" and cpu: "cpu < CORE_NUM"
    and ss: "Q SleepQueue = Some ss" and rs: "Q ReadyQueue = Some rs"
  shows "\<exists>s'. do_scheduler cpu s = Inr s' \<and> kinv s' (sched_queues cpu s ss rs Q) \<and>
              pcb s' = sched_pcbs cpu s ss rs \<and>
              core_running s' = (core_running s)(cpu := sched_next cpu s ss rs) \<and>
              rdtime s' = rdtime s \<and> time_base s' = time_base s"
proof -
  have k: "kwf s Q" and ne: "core_running s 0 \<noteq> core_running s 1"
    and oth: "\<And>c. c < CORE_NUM \<Longrightarrow> c \<noteq> cpu \<Longrightarrow> core_running s c \<notin> queued Q"
    using assms(1) by (auto simp: kinv_call_def)
  obtain s' where s': "do_scheduler cpu s = Inr s'" "kwf s' (sched_queues cpu s ss rs Q)"
    "pcb s' = sched_pcbs cpu s ss rs" "core_running s' = (core_running s)(cpu := sched_next cpu s ss rs)"
    "rdtime s' = rdtime s" "time_base s' = time_base s"
    "sched_next cpu s ss rs \<notin> queued (sched_queues cpu s ss rs Q)"
    using do_scheduler_ok [OF k ss rs cpu] assms(1) by (auto simp: kinv_call_def)
  have diff: "core_running s c \<noteq> core_running s cpu" if "c < CORE_NUM" "c \<noteq> cpu" for c
  proof -
    have "c = 0 \<and> cpu = 1 \<or> c = 1 \<and> cpu = 0" using that cpu by (auto simp: CORE_NUM_def)
    then show ?thesis using ne by auto
  qed
  have "core_running s c \<notin> queued (sched_queues cpu s ss rs Q)" if "c < CORE_NUM" "c \<noteq> cpu" for c
    using queued_sched_queues [OF ss rs] oth [OF that] diff [OF that] by blast
  moreover have "core_running s c \<noteq> sched_next cpu s ss rs" if "c < CORE_NUM" "c \<noteq> cpu" for c
  proof -
    have "core_running s c = pid0_of c \<or> core_running s c \<in> tasks16" using k that(1) by (auto simp: kwf_def)
    moreover have "pid0_of c \<noteq> pid0_of cpu"
      using that cpu by (auto simp: CORE_NUM_def pid0_of_def)
    moreover have "pid0_of cpu \<notin> tasks16" by (auto simp: pid0_of_def)
    ultimately show ?thesis
      using sched_next_from [OF ss rs, of cpu s] oth [OF that] diff [OF that] by metis
  qed
  ultimately have "kinv s' (sched_queues cpu s ss rs Q)"
    using s'(2,4,7) cpu unfolding kinv_def by (auto simp: CORE_NUM_def less_2_cases_iff)
  with s' show ?thesis by blast
qed

text \<open>
  \<open>no_lost s Q\<close>: every process of \<open>pcb[]\<close> that is alive is run by a core or waits on a queue; a
  process for which this fails can never run again.
\<close>

definition alive :: "pcb_t \<Rightarrow> bool" where
  "alive p \<longleftrightarrow> task_status p \<in> {TASK_BLOCKED, TASK_RUNNING, TASK_READY}"

definition no_lost :: "'s kstate_scheme \<Rightarrow> (qid \<rightharpoonup> pcb_ref list) \<Rightarrow> bool" where
  "no_lost s Q \<longleftrightarrow>
     (\<forall>p \<in> tasks16.
        (p \<in> queued Q \<or> alive (pcb s p) \<longrightarrow> pid (pcb s p) \<noteq> 0) \<and>
        (alive (pcb s p) \<longrightarrow>
           p \<in> queued Q \<or> (\<exists>c < CORE_NUM. core_running s c = p \<and> task_status (pcb s p) = TASK_RUNNING)))"

lemma no_lost_pid:
  "no_lost s Q \<Longrightarrow> p \<in> tasks16 \<Longrightarrow> p \<in> queued Q \<or> alive (pcb s p) \<Longrightarrow> pid (pcb s p) \<noteq> 0"
  unfolding no_lost_def by blast

lemma no_lost_at:
  "no_lost s Q \<Longrightarrow> p \<in> tasks16 \<Longrightarrow> alive (pcb s p) \<Longrightarrow> p \<notin> queued Q \<Longrightarrow>
   \<exists>c < CORE_NUM. core_running s c = p \<and> task_status (pcb s p) = TASK_RUNNING"
  unfolding no_lost_def by blast

lemma alive_cong: "task_status p = task_status q \<Longrightarrow> alive p = alive q"
  by (simp add: alive_def)

lemma sched_pcbs_status:
  "x \<noteq> sched_next cpu s ss rs \<Longrightarrow> x \<notin> set ss \<Longrightarrow> x \<noteq> core_running s cpu \<Longrightarrow>
   sched_pcbs cpu s ss rs x = pcb s x"
  by (auto simp: sched_pcbs_def Let_def wake_def)

lemma sched_pcbs_next: "task_status (sched_pcbs cpu s ss rs (sched_next cpu s ss rs)) = TASK_RUNNING"
  by (simp add: sched_pcbs_def Let_def)

lemma sched_pcbs_keep [simp]:
  "pid (sched_pcbs cpu s ss rs x) = pid (pcb s x)"
  "task_mask (sched_pcbs cpu s ss rs x) = task_mask (pcb s x)"
  "wakeup_time (sched_pcbs cpu s ss rs x) = wakeup_time (pcb s x)"
  by (auto simp: sched_pcbs_def Let_def wake_def)

lemma do_scheduler_no_lost:
  assumes k: "kinv_call cpu s Q" and cpu: "cpu < CORE_NUM"
    and ss: "Q SleepQueue = Some ss" and rs: "Q ReadyQueue = Some rs" and n: "no_lost s Q"
    and s': "kinv s' (sched_queues cpu s ss rs Q)" "pcb s' = sched_pcbs cpu s ss rs"
      "core_running s' = (core_running s)(cpu := sched_next cpu s ss rs)"
  shows "no_lost s' (sched_queues cpu s ss rs Q)"
  unfolding no_lost_def
proof (intro ballI conjI impI)
  fix p
  assume p: "p \<in> tasks16"
  let ?next = "sched_next cpu s ss rs"
  have nx: "?next \<in> tasks16 \<Longrightarrow>
      ?next \<in> queued Q \<or> ?next = core_running s cpu \<and> pid (pcb s (core_running s cpu)) \<noteq> 0"
    using sched_next_from [OF ss rs, of cpu s] by (auto simp: pid0_of_def requeues_def split: if_splits)
  have run: "\<exists>c < CORE_NUM. core_running s' c = ?next \<and> task_status (pcb s' ?next) = TASK_RUNNING"
    using cpu by (intro exI [of _ cpu]) (simp add: s' sched_pcbs_next)
  have same: "p \<in> queued Q \<or> p = core_running s cpu \<or> p = ?next \<or> pcb s' p = pcb s p"
    using sched_pcbs_status [of p cpu s ss rs] ss by (auto simp: s' queued_def)
  show "pid (pcb s' p) \<noteq> 0" if a: "p \<in> queued (sched_queues cpu s ss rs Q) \<or> alive (pcb s' p)"
  proof -
    consider "p \<in> queued Q" | "p = core_running s cpu" "pid (pcb s p) \<noteq> 0"
      | "p = core_running s cpu" "pid (pcb s p) = 0" "p \<notin> queued Q" | "alive (pcb s p)"
      using a queued_sched_queues [OF ss rs, of p cpu s] nx same p by metis
    then show ?thesis
    proof cases
      case 3
      then have "alive (pcb s p)"
        using a queued_sched_queues [OF ss rs, of p cpu s] nx p ss
        by (auto simp: s' requeues_def alive_def sched_pcbs_def Let_def wake_def queued_def split: if_splits)
      with no_lost_pid [OF n p] show ?thesis by (simp add: s')
    qed (use no_lost_pid [OF n p] in \<open>auto simp: s'\<close>)
  qed
  assume a: "alive (pcb s' p)"
  show "p \<in> queued (sched_queues cpu s ss rs Q) \<or>
      (\<exists>c < CORE_NUM. core_running s' c = p \<and> task_status (pcb s' p) = TASK_RUNNING)"
  proof (cases "p \<in> queued Q \<or> p = ?next")
    case True
    then show ?thesis using sched_not_lost [OF ss rs, of p cpu s] run by auto
  next
    case False
    then have "p \<notin> set ss" using ss by (auto simp: queued_def)
    show ?thesis
    proof (cases "p = core_running s cpu")
      case True
      show ?thesis
      proof (cases "requeues cpu s ss")
        case True
        then show ?thesis using sched_not_lost [OF ss rs, of p cpu s] \<open>p = core_running s cpu\<close> run by auto
      next
        case False
        with \<open>\<not> (p \<in> queued Q \<or> p = ?next)\<close> \<open>p \<notin> set ss\<close> have "pcb s' p = pcb s p"
          by (auto simp: s' sched_pcbs_def Let_def wake_def)
        with a no_lost_pid [OF n p] no_lost_at [OF n p] \<open>\<not> (p \<in> queued Q \<or> p = ?next)\<close> True
        have "pid (pcb s p) \<noteq> 0" "task_status (pcb s p) = TASK_RUNNING"
          by auto
        with False True \<open>p \<notin> set ss\<close> show ?thesis by (auto simp: requeues_def wake_def)
      qed
    next
      case False
      with \<open>\<not> (p \<in> queued Q \<or> p = ?next)\<close> \<open>p \<notin> set ss\<close> have "pcb s' p = pcb s p"
        by (auto simp: s' sched_pcbs_status)
      with a no_lost_at [OF n p] \<open>\<not> (p \<in> queued Q \<or> p = ?next)\<close> obtain c where
        c: "c < CORE_NUM" "core_running s c = p" "task_status (pcb s' p) = TASK_RUNNING"
        by auto
      with False have "c \<noteq> cpu" by auto
      with c show ?thesis by (auto simp: s')
    qed
  qed
qed


section \<open>Blocking, unblocking and sleeping\<close>

lemma ready_lists [simp]:
  "timer_now (s\<lparr>lists := h\<rparr>) = timer_now s" "requeues cpu (s\<lparr>lists := h\<rparr>) ss = requeues cpu s ss"
  "ready_after cpu (s\<lparr>lists := h\<rparr>) ss rs = ready_after cpu s ss rs"
  "chosen cpu (s\<lparr>lists := h\<rparr>) ss rs = chosen cpu s ss rs"
  by (simp_all add: timer_now_def requeues_def ready_after_def chosen_def)

lemma sched_lists [simp]:
  "sched_queues cpu (s\<lparr>lists := h\<rparr>) ss rs Q = sched_queues cpu s ss rs Q"
  "sched_next cpu (s\<lparr>lists := h\<rparr>) ss rs = sched_next cpu s ss rs"
  "sched_pcbs cpu (s\<lparr>lists := h\<rparr>) ss rs = sched_pcbs cpu s ss rs"
  unfolding sched_queues_def sched_next_def sched_pcbs_def ready_lists by simp_all

text \<open>The calling process stops running and goes to the tail of a queue.\<close>

definition block_state :: "nat \<Rightarrow> (pcb_t \<Rightarrow> pcb_t) \<Rightarrow> 's kstate_scheme \<Rightarrow> 's kstate_scheme" where
  "block_state cpu f s = upd_pcb (core_running s cpu) f s"

lemma enter_queue:
  assumes k: "kinv s Q" and cpu: "cpu < CORE_NUM" and cur: "pid (pcb s (core_running s cpu)) \<noteq> 0"
    and q: "Q q = Some xs"
    and f: "\<And>p. task_status (f p) = TASK_BLOCKED" "\<And>p. pid (f p) = pid p"
  shows "\<exists>h. add_queue q (core_running s cpu) (block_state cpu f s) = Inr (block_state cpu f s\<lparr>lists := h\<rparr>) \<and>
     kinv_call cpu (block_state cpu f s\<lparr>lists := h\<rparr>) (Q(q \<mapsto> xs @ [core_running s cpu])) \<and>
     (no_lost s Q \<longrightarrow> no_lost (block_state cpu f s\<lparr>lists := h\<rparr>) (Q(q \<mapsto> xs @ [core_running s cpu])))"
proof -
  let ?c = "core_running s cpu" and ?s = "block_state cpu f s"
  have kw: "kwf ?s Q"
    using k f(2) unfolding kinv_def block_state_def by (subst kwf_cong [of _ s]) auto
  have nq: "?c \<notin> queued Q" using k cpu by (simp add: kinv_def)
  have ct: "?c \<in> tasks16" using k cpu cur by (auto simp: kinv_def kwf_def pid0_of_def split: if_splits)
  obtain h where h: "add_queue q ?c ?s = Inr (?s\<lparr>lists := h\<rparr>)"
    "kwf (?s\<lparr>lists := h\<rparr>) (Q(q \<mapsto> xs @ [?c]))"
    using add_queue_ok [OF kw q nq ct] by blast
  have qd: "queued (Q(q \<mapsto> xs @ [?c])) = insert ?c (queued Q)" by (rule queued_upd_snoc [of Q, OF q])
  have diff: "core_running s c \<noteq> ?c" if "c < CORE_NUM" "c \<noteq> cpu" for c
  proof -
    have "c = 0 \<and> cpu = 1 \<or> c = 1 \<and> cpu = 0" using that cpu by (auto simp: CORE_NUM_def)
    then show ?thesis using k by (auto simp: kinv_def)
  qed
  have "kinv_call cpu (?s\<lparr>lists := h\<rparr>) (Q(q \<mapsto> xs @ [?c]))"
    using h(2) k diff unfolding kinv_call_def kinv_def qd by (auto simp: block_state_def f)
  moreover have "no_lost (?s\<lparr>lists := h\<rparr>) (Q(q \<mapsto> xs @ [?c]))" if n: "no_lost s Q"
    unfolding no_lost_def qd
  proof (intro ballI conjI impI)
    fix p
    assume p: "p \<in> tasks16"
    have pc: "pcb (?s\<lparr>lists := h\<rparr>) p = (if p = ?c then f (pcb s p) else pcb s p)"
      by (simp add: block_state_def)
    show "pid (pcb (?s\<lparr>lists := h\<rparr>) p) \<noteq> 0"
      if "p \<in> insert ?c (queued Q) \<or> alive (pcb (?s\<lparr>lists := h\<rparr>) p)"
      using that no_lost_pid [OF n p] cur f(2) unfolding pc by (auto split: if_splits)
    show "p \<in> insert ?c (queued Q) \<or> (\<exists>c<CORE_NUM. core_running (?s\<lparr>lists := h\<rparr>) c = p \<and>
        task_status (pcb (?s\<lparr>lists := h\<rparr>) p) = TASK_RUNNING)"
      if "alive (pcb (?s\<lparr>lists := h\<rparr>) p)"
      using that no_lost_at [OF n p] unfolding pc by (auto simp: block_state_def split: if_splits)
  qed
  ultimately show ?thesis using h(1) by blast
qed


lemma do_block_ok:
  assumes k: "kinv s Q" and cpu: "cpu < CORE_NUM" and cur: "pid (pcb s (core_running s cpu)) \<noteq> 0"
    and q: "Q q = Some xs" "q \<noteq> ReadyQueue" "q \<noteq> SleepQueue"
    and ss: "Q SleepQueue = Some ss" and rs: "Q ReadyQueue = Some rs"
  defines "s1 \<equiv> block_state cpu (task_status_update (\<lambda>_. TASK_BLOCKED)) s"
  shows "\<exists>s'. do_block cpu (core_running s cpu) q s = Inr s' \<and>
     kinv s' (sched_queues cpu s1 ss rs (Q(q \<mapsto> xs @ [core_running s cpu]))) \<and>
     (no_lost s Q \<longrightarrow> no_lost s' (sched_queues cpu s1 ss rs (Q(q \<mapsto> xs @ [core_running s cpu])))) \<and>
     pcb s' = sched_pcbs cpu s1 ss rs \<and>
     core_running s' = (core_running s)(cpu := sched_next cpu s1 ss rs)"
proof -
  let ?Q = "Q(q \<mapsto> xs @ [core_running s cpu])"
  obtain h where h: "add_queue q (core_running s cpu) s1 = Inr (s1\<lparr>lists := h\<rparr>)"
    "kinv_call cpu (s1\<lparr>lists := h\<rparr>) ?Q" "no_lost s Q \<Longrightarrow> no_lost (s1\<lparr>lists := h\<rparr>) ?Q"
    using enter_queue [OF k cpu cur q(1), of "task_status_update (\<lambda>_. TASK_BLOCKED)"]
    unfolding s1_def by auto
  have q': "?Q SleepQueue = Some ss" "?Q ReadyQueue = Some rs" using q ss rs by simp_all
  obtain s' where s': "do_scheduler cpu (s1\<lparr>lists := h\<rparr>) = Inr s'"
    "kinv s' (sched_queues cpu s1 ss rs ?Q)" "pcb s' = sched_pcbs cpu s1 ss rs"
    "core_running s' = (core_running s1)(cpu := sched_next cpu s1 ss rs)"
    using do_scheduler_kinv [OF h(2) cpu q'] by (auto simp del: fun_upd_apply)
  have "no_lost s' (sched_queues cpu s1 ss rs ?Q)" if "no_lost s Q"
    using do_scheduler_no_lost [OF h(2) cpu q' h(3) [OF that], of s'] s' by simp
  moreover have "do_block cpu (core_running s cpu) q s = Inr s'"
    using h(1) s'(1) by (simp add: do_block_def s1_def block_state_def)
  ultimately show ?thesis using s' by (simp add: s1_def block_state_def)
qed

lemma do_unblock_ok:
  assumes k: "kwf s Q" and q: "Q q = Some (p # xs)" "q \<noteq> ReadyQueue" and rs: "Q ReadyQueue = Some rs"
  shows "\<exists>h. do_unblock q s = Inr (set_status p TASK_READY s\<lparr>lists := h\<rparr>) \<and>
     kwf (set_status p TASK_READY s\<lparr>lists := h\<rparr>) (Q(q \<mapsto> xs, ReadyQueue \<mapsto> rs @ [p]))"
proof -
  let ?s = "set_status p TASK_READY s"
  have "kwf ?s Q" using k by simp
  moreover have "Q q = Some ([] @ p # xs)" "(Q(q \<mapsto> [] @ xs)) ReadyQueue = Some rs"
    using q rs by simp_all
  ultimately obtain h where h: "add_queue ReadyQueue p (del_queue p ?s) = Inr (?s\<lparr>lists := h\<rparr>)"
    "kwf (?s\<lparr>lists := h\<rparr>) (Q(q \<mapsto> [] @ xs, ReadyQueue \<mapsto> rs @ [p]))"
    using requeue_ok [of ?s Q q "[]" p xs ReadyQueue rs] by blast
  have "list_entry (nxt (lists s (Head q))) = Inr p"
    by (rule lq.first_entry [OF kwf_qrep [OF k] q(1)])
  moreover have "set_status p TASK_READY (del_queue p s) = del_queue p ?s"
    by (simp add: del_queue_def upd_pcb_def)
  ultimately have "do_unblock q s = Inr (?s\<lparr>lists := h\<rparr>)"
    using h(1) by (simp add: do_unblock_def get_head_def)
  with h(2) show ?thesis by auto
qed

text \<open>Unblocking an empty queue takes the queue head for a process.\<close>

lemma do_unblock_empty: "kwf s Q \<Longrightarrow> Q q = Some [] \<Longrightarrow> do_unblock q s = Inl Fault"
  using lq.rep_first [OF kwf_qrep, of s Q q "[]"]
  by (simp add: do_unblock_def get_head_def list_entry_def)

lemma queued_move:
  assumes "kwf s Q" and "Q q = Some (xs @ p # ys)" and "(Q(q \<mapsto> xs @ ys)) r = Some zs"
  shows "queued (Q(q \<mapsto> xs @ ys, r \<mapsto> zs @ [p])) = queued Q"
  using queued_upd_snoc [of "Q(q \<mapsto> xs @ ys)" r zs p, OF assms(3)]
    lq.queued_del [OF kwf_qrep [OF assms(1)] assms(2)] queued_member [of Q q "xs @ p # ys" p, OF assms(2)]
  by auto

text \<open>Moving a queued process to the ready queue keeps the invariants, whatever its status becomes.\<close>

lemma moved_inv:
  assumes "queued Q' = queued Q" and "p \<in> queued Q" and "kwf s' Q'"
    and "pcb s' = (pcb s)(p := f (pcb s p))" and "core_running s' = core_running s"
    and "pid (f (pcb s p)) = pid (pcb s p)"
  shows "kinv s Q \<Longrightarrow> kinv s' Q'" and "no_lost s Q \<Longrightarrow> no_lost s' Q'"
  using assms unfolding kinv_def no_lost_def by (simp_all split: if_splits) blast+

lemma do_unblock_inv:
  assumes k: "kinv s Q" and q: "Q q = Some (p # xs)" "q \<noteq> ReadyQueue" and rs: "Q ReadyQueue = Some rs"
  shows "\<exists>s'. do_unblock q s = Inr s' \<and> kinv s' (Q(q \<mapsto> xs, ReadyQueue \<mapsto> rs @ [p])) \<and>
     (no_lost s Q \<longrightarrow> no_lost s' (Q(q \<mapsto> xs, ReadyQueue \<mapsto> rs @ [p]))) \<and>
     pcb s' = (pcb s)(p := (pcb s p)\<lparr>task_status := TASK_READY\<rparr>) \<and> core_running s' = core_running s"
proof -
  have kw: "kwf s Q" using k by (simp add: kinv_def)
  obtain h where h: "do_unblock q s = Inr (set_status p TASK_READY s\<lparr>lists := h\<rparr>)"
    "kwf (set_status p TASK_READY s\<lparr>lists := h\<rparr>) (Q(q \<mapsto> xs, ReadyQueue \<mapsto> rs @ [p]))"
    using do_unblock_ok [OF kw q rs] by blast
  have "queued (Q(q \<mapsto> xs, ReadyQueue \<mapsto> rs @ [p])) = queued Q"
    using queued_move [of s Q q "[]" p xs ReadyQueue rs, OF kw] q rs by simp
  note * = moved_inv [OF this queued_member [of Q, OF q(1)] h(2), of p s "task_status_update (\<lambda>_. TASK_READY)"]
  show ?thesis
    using h(1) k * by (intro exI [of _ "set_status p TASK_READY s\<lparr>lists := h\<rparr>"]) (simp del: fun_upd_apply)
qed


section \<open>What the scheduler leaves alone\<close>

text \<open>The components built on the scheduler extend its state; its operations keep the extension.\<close>

lemma upd_pcb_more [simp]: "kstate.more (upd_pcb p f s) = kstate.more s"
  by (simp add: upd_pcb_def)

lemma del_queue_more [simp]: "kstate.more (del_queue p s) = kstate.more s"
  by (simp add: del_queue_def)

lemma add_queue_more: "add_queue q p s = Inr s' \<Longrightarrow> kstate.more s' = kstate.more s"
  by (auto simp: add_queue_def res_eq_Inr)

lemma check_sleeping_more: "check_sleeping s = Inr s' \<Longrightarrow> kstate.more s' = kstate.more s"
proof -
  have "check_sleeping_loop n now it s = Inr s' \<Longrightarrow> kstate.more s' = kstate.more s" for n now it s
  proof (induction n arbitrary: it s)
    case (Suc n)
    show ?case
    proof (cases "it = Some (Head SleepQueue)")
      case False
      with Suc.prems obtain p where p: "list_entry it = Inr p" by (auto simp: res_eq_Inr)
      show ?thesis
        using Suc.prems False p Suc.IH
        by (auto simp: res_eq_Inr Let_def split: if_splits) (metis add_queue_more del_queue_more upd_pcb_more)
    qed (use Suc.prems in simp)
  qed simp
  moreover assume "check_sleeping s = Inr s'"
  then have "check_sleeping_loop QUEUE_FUEL (divu (rdtime s) (time_base s)) (nxt (lists s (Head SleepQueue)))
      (s\<lparr>time_elapsed := rdtime s\<rparr>) = Inr s'"
    by (simp add: check_sleeping_def get_timer_def get_ticks_def)
  ultimately show ?thesis by fastforce
qed

lemma run_next_more [simp]: "kstate.more (run_next cpu l c s) = kstate.more s"
  by (simp add: run_next_def Let_def)

lemma put_back_more: "put_back l s = Inr s' \<Longrightarrow> kstate.more s' = kstate.more s"
  using add_queue_more [of ReadyQueue l "set_status l TASK_READY s" s']
  by (auto simp: put_back_def split: if_splits)

lemma pick_next_more: "pick_next cpu s = Inr (c, s') \<Longrightarrow> kstate.more s' = kstate.more s"
  by (auto simp: pick_next_def res_eq_Inr split: if_splits option.splits)

lemma do_scheduler_more:
  assumes "do_scheduler cpu s = Inr s'"
  shows "kstate.more s' = kstate.more s"
proof -
  obtain s1 s2 c s3 where "check_sleeping s = Inr s1" "put_back (core_running s cpu) s1 = Inr s2"
    "pick_next cpu s2 = Inr (c, s3)" "s' = run_next cpu (core_running s cpu) c s3"
    using assms unfolding do_scheduler_def Let_def res_eq_Inr by auto
  then show ?thesis by (simp add: check_sleeping_more put_back_more pick_next_more)
qed

lemma do_block_more: "do_block cpu p q s = Inr s' \<Longrightarrow> kstate.more s' = kstate.more s"
  by (auto simp: do_block_def res_eq_Inr dest!: add_queue_more do_scheduler_more)

lemma do_unblock_more: "do_unblock q s = Inr s' \<Longrightarrow> kstate.more s' = kstate.more s"
  by (auto simp: do_unblock_def get_head_def res_eq_Inr dest!: add_queue_more)

lemmas keeps_more = add_queue_more check_sleeping_more do_scheduler_more do_block_more do_unblock_more

section \<open>Sleepers and round robin\<close>

lemma kinv_call_wake:
  assumes k: "kinv_call cpu s Q" and cpu: "cpu < CORE_NUM"
    and ss: "Q SleepQueue = Some ss" and rs: "Q ReadyQueue = Some rs"
  defines "Q' \<equiv> Q(SleepQueue \<mapsto> filter (\<lambda>p. \<not> wakeup_time (pcb s p) \<le> timer_now s) ss,
                  ReadyQueue \<mapsto> rs @ filter (\<lambda>p. wakeup_time (pcb s p) \<le> timer_now s) ss)"
  shows "\<exists>s'. check_sleeping s = Inr s' \<and> kinv_call cpu s' Q' \<and> queued Q' = queued Q \<and>
     pcb s' = wake (timer_now s) ss (pcb s) \<and> core_running s' = core_running s \<and>
     rdtime s' = rdtime s \<and> time_base s' = time_base s"
proof -
  have kw: "kwf s Q" using k by (simp add: kinv_call_def)
  have qd: "queued Q' = queued Q" unfolding Q'_def by (rule queued_transfer [of Q, OF ss rs]) simp
  obtain h where h: "check_sleeping s =
      Inr (s\<lparr>lists := h, pcb := wake (timer_now s) ss (pcb s), time_elapsed := rdtime s\<rparr>)"
    "kwf (s\<lparr>lists := h, pcb := wake (timer_now s) ss (pcb s), time_elapsed := rdtime s\<rparr>) Q'"
    using check_sleeping_ok [OF kw ss rs] unfolding timer_now_def Q'_def by blast
  then have "kinv_call cpu (s\<lparr>lists := h, pcb := wake (timer_now s) ss (pcb s), time_elapsed := rdtime s\<rparr>) Q'"
    using k unfolding kinv_call_def qd by (auto simp: wake_def split: if_splits)
  with h(1) qd show ?thesis by auto
qed

lemma kwf_bios_timer [simp]: "kinv_call cpu (s\<lparr>bios_timer := f\<rparr>) Q = kinv_call cpu s Q"
  "kinv_call cpu (s\<lparr>time_elapsed := t\<rparr>) Q = kinv_call cpu s Q"
  "kinv_call cpu (s\<lparr>rdtime := t\<rparr>) Q = kinv_call cpu s Q"
  by (simp_all add: kinv_call_def kwf_def)

text \<open>Where a process allowed on the core stands in the ready queue after a timer interrupt.\<close>

lemma find_before:
  assumes "find P xs = Some q" and "P p" and "p \<in> set (take (Suc n) xs)" and "p \<noteq> q"
  shows "p \<in> set (take n (remove1 q xs))"
  using assms
proof (induction xs arbitrary: n)
  case (Cons x xs)
  then show ?case by (cases n; cases "P x") auto
qed simp

lemma find_before_Some: "P p \<Longrightarrow> p \<in> set xs \<Longrightarrow> \<exists>q. find P xs = Some q"
  using find_None_iff [of P xs] by (cases "find P xs") auto

lemma handle_irq_timer_ok:
  assumes k: "kinv_call cpu s Q" and cpu: "cpu < CORE_NUM"
  shows "\<exists>s' Q'. handle_irq_timer cpu s = Inr s' \<and> kinv s' Q' \<and>
     (\<forall>x. task_mask (pcb s' x) = task_mask (pcb s x) \<and> pid (pcb s' x) = pid (pcb s x)) \<and>
     (\<forall>q. q \<noteq> ReadyQueue \<longrightarrow> q \<noteq> SleepQueue \<longrightarrow> Q' q = Q q) \<and> kstate.more s' = kstate.more s \<and>
     (\<forall>p n. p \<in> set (take (Suc n) (the (Q ReadyQueue))) \<longrightarrow> can_run cpu (pcb s) p \<longrightarrow>
        core_running s' cpu = p \<or> p \<in> set (take n (the (Q' ReadyQueue))))"
proof -
  obtain ss rs where ss: "Q SleepQueue = Some ss" and rs: "Q ReadyQueue = Some rs"
    using k by (auto simp: kinv_call_def kwf_def)
  let ?Q = "Q(SleepQueue \<mapsto> filter (\<lambda>p. \<not> wakeup_time (pcb s p) \<le> timer_now s) ss,
              ReadyQueue \<mapsto> rs @ filter (\<lambda>p. wakeup_time (pcb s p) \<le> timer_now s) ss)"
  obtain s1 where s1: "check_sleeping s = Inr s1" "kinv_call cpu s1 ?Q"
    "pcb s1 = wake (timer_now s) ss (pcb s)"
    using kinv_call_wake [OF k cpu ss rs] by blast
  let ?s = "s1\<lparr>time_elapsed := rdtime s1, bios_timer := (bios_timer s1)(cpu := rdtime s1 + TIMER_INTERVAL)\<rparr>"
  define ss2 where "ss2 = filter (\<lambda>p. \<not> wakeup_time (pcb s p) \<le> timer_now s) ss"
  define rs2 where "rs2 = rs @ filter (\<lambda>p. wakeup_time (pcb s p) \<le> timer_now s) ss"
  have q: "?Q SleepQueue = Some ss2" "?Q ReadyQueue = Some rs2" by (simp_all add: ss2_def rs2_def)
  have "kinv_call cpu ?s ?Q" using s1(2) by simp
  from do_scheduler_kinv [OF this cpu q] obtain s2 where
    s2: "do_scheduler cpu ?s = Inr s2" "kinv s2 (sched_queues cpu ?s ss2 rs2 ?Q)"
    "pcb s2 = sched_pcbs cpu ?s ss2 rs2"
    "core_running s2 = (core_running ?s)(cpu := sched_next cpu ?s ss2 rs2)"
    by blast
  have "handle_irq_timer cpu s = Inr s2"
    using s1(1) s2(1) by (simp add: handle_irq_timer_def get_ticks_def)
  moreover have "\<forall>x. task_mask (pcb s2 x) = task_mask (pcb s x) \<and> pid (pcb s2 x) = pid (pcb s x)"
    by (simp add: s2(3) s1(3))
  moreover have "\<forall>q. q \<noteq> ReadyQueue \<longrightarrow> q \<noteq> SleepQueue \<longrightarrow> sched_queues cpu ?s ss2 rs2 ?Q q = Q q"
    by (simp add: sched_queues_def)
  moreover have "kstate.more s2 = kstate.more s"
    using do_scheduler_more [OF s2(1)] check_sleeping_more [OF s1(1)] by simp
  moreover have "core_running s2 cpu = p \<or>
      p \<in> set (take n (the (sched_queues cpu ?s ss2 rs2 ?Q ReadyQueue)))"
    if p: "p \<in> set (take (Suc n) (the (Q ReadyQueue)))" "can_run cpu (pcb s) p" for p n
  proof -
    have pin: "p \<in> set (take (Suc n) (ready_after cpu ?s ss2 rs2))"
      using p(1) rs by (auto simp: ready_after_def rs2_def)
    have "can_run cpu (pcb ?s) p" using p(2) by (simp add: can_run_def s1(3))
    with pin obtain q where f: "find (can_run cpu (pcb ?s)) (ready_after cpu ?s ss2 rs2) = Some q"
      using find_before_Some [of "can_run cpu (pcb ?s)" p] in_set_takeD by metis
    with find_before [OF f \<open>can_run cpu (pcb ?s) p\<close> pin] show ?thesis
      by (auto simp: s2(4) sched_next_def chosen_def sched_queues_def)
  qed
  ultimately show ?thesis using s2(2) by blast
qed

text \<open>A sequence of timer interrupts: the core that takes each one and the time it happens.\<close>

fun timer_run :: "(nat \<times> u64) list \<Rightarrow> 's kstate_scheme \<Rightarrow> 's kstate_scheme res" where
  "timer_run [] s = Inr s"
| "timer_run ((cpu, t) # xs) s = bindE (handle_irq_timer cpu (s\<lparr>rdtime := t\<rparr>)) (timer_run xs)"

lemma timer_run_reaches:
  assumes "kinv s Q" and "\<forall>(cpu, t) \<in> set steps. cpu < CORE_NUM \<and> can_run cpu (pcb s) p"
    and "p \<in> set (take (length steps) (the (Q ReadyQueue)))"
  shows "\<exists>n s'. n < length steps \<and> timer_run (take (Suc n) steps) s = Inr s' \<and>
     core_running s' (fst (steps ! n)) = p"
  using assms
proof (induction steps arbitrary: s Q)
  case (Cons st steps)
  obtain cpu t where st: "st = (cpu, t)" by fastforce
  have cpu: "cpu < CORE_NUM" "can_run cpu (pcb s) p" using Cons.prems(2) st by auto
  have kc: "kinv_call cpu (s\<lparr>rdtime := t\<rparr>) Q"
    using kinv_imp_call [OF Cons.prems(1) cpu(1)] by simp
  have "p \<in> set (take (Suc (length steps)) (the (Q ReadyQueue)))" "can_run cpu (pcb (s\<lparr>rdtime := t\<rparr>)) p"
    using Cons.prems(3) cpu(2) by simp_all
  then obtain s1 Q1 where s1: "handle_irq_timer cpu (s\<lparr>rdtime := t\<rparr>) = Inr s1" "kinv s1 Q1"
    "\<forall>x. task_mask (pcb s1 x) = task_mask (pcb s x)"
    "core_running s1 cpu = p \<or> p \<in> set (take (length steps) (the (Q1 ReadyQueue)))"
    using handle_irq_timer_ok [OF kc cpu(1)] by auto
  show ?case
  proof (cases "core_running s1 cpu = p")
    case True
    with s1(1) st show ?thesis by (intro exI [of _ 0] exI [of _ s1]) simp
  next
    case False
    have "\<forall>(cpu, t) \<in> set steps. cpu < CORE_NUM \<and> can_run cpu (pcb s1) p"
      using Cons.prems(2) s1(3) by (auto simp: can_run_def)
    with Cons.IH [OF s1(2)] s1(4) False obtain n s' where
      "n < length steps" "timer_run (take (Suc n) steps) s1 = Inr s'" "core_running s' (fst (steps ! n)) = p"
      by blast
    with s1(1) st show ?thesis by (intro exI [of _ "Suc n"] exI [of _ s']) simp
  qed
qed simp


section \<open>A concrete kernel state\<close>

text \<open>
  Process 1 (the shell, \<open>pcb[0]\<close>) runs on core 0, core 1 is idle, all other PCBs are available
  and all queues are empty.
\<close>

definition boot_lists :: "('q, 'e) lheap" where
  "boot_lists n = (case n of Head q \<Rightarrow> \<lparr>nxt = Some (Head q), prv = Some (Head q)\<rparr>
                   | Elem e \<Rightarrow> \<lparr>nxt = None, prv = None\<rparr>)"

definition boot_pcb :: "int \<Rightarrow> task_status_t \<Rightarrow> pcb_t" where
  "boot_pcb p st =
     \<lparr>kernel_sp = 0, user_sp = 0, kernel_stack_base = 0, user_stack_base = 0, pgdir = 0xffffffc051000000,
      upbound = 0, pagenum = 0, shm_page_num = 0, pid = p, childnum = 0, task_status = st, cursor_x = 0,
      cursor_y = 0, wakeup_time = 0, task_mode = USER, task_mask = 3\<rparr>"

definition boot_pcbs :: "pcb_ref \<Rightarrow> pcb_t" where
  "boot_pcbs p = (case p of Pcb n \<Rightarrow> boot_pcb (int n + 1) (if n = 0 then TASK_RUNNING else TASK_AVAILABLE)
                  | _ \<Rightarrow> boot_pcb 0 TASK_BLOCKED)"

definition boot_kstate :: kstate where
  "boot_kstate =
     \<lparr>lists = boot_lists, pcb = boot_pcbs, core_running = (\<lambda>c. if c = 0 then Pcb 0 else Pid0Slave),
      process_id = 17, rdtime = 0, time_elapsed = 0, time_base = 1, satp = (\<lambda>_. 0), bios_timer = (\<lambda>_. 0)\<rparr>"

text \<open>The same state with further processes on a queue.\<close>

definition ready_on :: "qid \<Rightarrow> pcb_ref \<Rightarrow> 's kstate_scheme \<Rightarrow> 's kstate_scheme" where
  "ready_on q p s = (case add_queue q p (set_status p TASK_READY s) of Inr s' \<Rightarrow> s' | Inl _ \<Rightarrow> s)"

lemma qrep_boot: "qrep boot_lists (\<lambda>_. Some [])"
  by (simp add: qrep_def dll_def boot_lists_def)

lemma queued_none [simp]: "queued (\<lambda>_. Some []) = {}"
  by (simp add: queued_def)

lemma kinv_boot: "lists s = boot_lists \<Longrightarrow> pcb s = boot_pcbs \<Longrightarrow>
    core_running s = (\<lambda>c. if c = 0 then Pcb 0 else Pid0Slave) \<Longrightarrow>
    kinv s (\<lambda>_. Some []) \<and> no_lost s (\<lambda>_. Some [])"
  by (auto simp: kinv_def kwf_def no_lost_def qrep_boot boot_pcbs_def boot_pcb_def pid0_of_def alive_def
      CORE_NUM_def NUM_MAX_TASK_def)

lemma ready_on_ok:
  assumes "kinv s Q" and "no_lost s Q" and "Q q = Some xs" and "p \<notin> queued Q" and "p \<in> tasks16"
    and "\<forall>c < CORE_NUM. core_running s c \<noteq> p" and "pid (pcb s p) \<noteq> 0"
  shows "kinv (ready_on q p s) (Q(q \<mapsto> xs @ [p])) \<and> no_lost (ready_on q p s) (Q(q \<mapsto> xs @ [p])) \<and>
     pcb (ready_on q p s) = (pcb s)(p := (pcb s p)\<lparr>task_status := TASK_READY\<rparr>) \<and>
     core_running (ready_on q p s) = core_running s \<and> rdtime (ready_on q p s) = rdtime s \<and>
     time_base (ready_on q p s) = time_base s \<and> kstate.more (ready_on q p s) = kstate.more s"
proof -
  let ?s = "set_status p TASK_READY s"
  obtain h where h: "add_queue q p ?s = Inr (?s\<lparr>lists := h\<rparr>)" "kwf (?s\<lparr>lists := h\<rparr>) (Q(q \<mapsto> xs @ [p]))"
    using add_queue_ok [of ?s Q q xs p] assms by (auto simp: kinv_def)
  have e: "ready_on q p s = ?s\<lparr>lists := h\<rparr>" by (simp add: ready_on_def h(1))
  have qd: "queued (Q(q \<mapsto> xs @ [p])) = insert p (queued Q)" by (rule queued_upd_snoc [of Q, OF assms(3)])
  have "kinv (ready_on q p s) (Q(q \<mapsto> xs @ [p]))"
    unfolding kinv_def e qd using h(2) assms by (simp add: kinv_def)
  moreover have "no_lost (ready_on q p s) (Q(q \<mapsto> xs @ [p]))"
    using assms(2,7) unfolding no_lost_def e qd by (simp add: alive_def)
  ultimately show ?thesis by (simp add: e del: fun_upd_apply)
qed

text \<open>Two processes wait for the cores.\<close>

definition two_ready :: kstate where
  "two_ready = ready_on ReadyQueue (Pcb 2) (ready_on ReadyQueue (Pcb 1) boot_kstate)"

lemma two_ready_ok:
  "kinv two_ready ((\<lambda>_. Some [])(ReadyQueue \<mapsto> [Pcb 1, Pcb 2])) \<and>
   no_lost two_ready ((\<lambda>_. Some [])(ReadyQueue \<mapsto> [Pcb 1, Pcb 2])) \<and> core_running two_ready 0 = Pcb 0 \<and>
   pid (pcb two_ready (Pcb 0)) = 1 \<and> (\<forall>p. task_mask (pcb two_ready p) = 3) \<and>
   rdtime two_ready = 0 \<and> time_base two_ready = 1 \<and> (\<forall>p. wakeup_time (pcb two_ready p) = 0)"
proof -
  have b: "kinv boot_kstate (\<lambda>_. Some [])" "no_lost boot_kstate (\<lambda>_. Some [])"
    using kinv_boot [of boot_kstate] by (simp_all add: boot_kstate_def)
  have b1: "pcb boot_kstate = boot_pcbs" "core_running boot_kstate = (\<lambda>c. if c = 0 then Pcb 0 else Pid0Slave)"
    "rdtime boot_kstate = 0" "time_base boot_kstate = 1"
    by (simp_all add: boot_kstate_def)
  let ?s1 = "ready_on ReadyQueue (Pcb 1) boot_kstate" and ?Q1 = "(\<lambda>_. Some [])(ReadyQueue \<mapsto> [] @ [Pcb 1])"
  have s1: "kinv ?s1 ?Q1" "no_lost ?s1 ?Q1" "pcb ?s1 = boot_pcbs(Pcb 1 := (boot_pcbs (Pcb 1))\<lparr>task_status := TASK_READY\<rparr>)"
    "core_running ?s1 = core_running boot_kstate" "rdtime ?s1 = 0" "time_base ?s1 = 1"
    using ready_on_ok [OF b, where q = ReadyQueue and xs = "[]" and p = "Pcb 1"]
    by (simp_all add: NUM_MAX_TASK_def CORE_NUM_def b1 boot_pcbs_def boot_pcb_def del: fun_upd_apply)
  have q2: "?Q1 ReadyQueue = Some [Pcb 1]" "Pcb 2 \<notin> queued ?Q1" by (simp_all add: queued_def)
  have m: "task_mask (boot_pcbs p) = 3" "wakeup_time (boot_pcbs p) = 0" for p
    by (cases p; simp add: boot_pcbs_def boot_pcb_def)+
  have p2: "Pcb 2 \<in> tasks16" "\<forall>c<CORE_NUM. core_running ?s1 c \<noteq> Pcb 2" "pid (pcb ?s1 (Pcb 2)) \<noteq> 0"
    unfolding s1(3,4) b1 by (simp_all add: NUM_MAX_TASK_def boot_pcbs_def boot_pcb_def)
  from ready_on_ok [OF s1(1,2) q2 p2] show ?thesis
    unfolding two_ready_def s1(3-6) b1 by (simp add: m) (simp add: boot_pcbs_def boot_pcb_def)
qed


section \<open>Properties\<close>

text \<open>
  C1: \<open>do_scheduler\<close> implements the abstract scheduler.  From any well-formed state it returns; the
  sleepers whose time has come are appended to the ready queue, then the running process if it
  still runs; the core then runs the first process of the ready queue that is allowed on it, or its
  idle process.  Only \<open>status\<close> fields change, no process is on two queues or on a queue and a core,
  and no living process is lost.
\<close>

theorem do_scheduler_refines:
  assumes "kinv s Q" and "no_lost s Q" and "cpu < CORE_NUM"
    and "Q SleepQueue = Some ss" and "Q ReadyQueue = Some rs"
  shows "\<exists>s'. do_scheduler cpu s = Inr s' \<and>
     kinv s' (sched_queues cpu s ss rs Q) \<and> no_lost s' (sched_queues cpu s ss rs Q) \<and>
     pcb s' = sched_pcbs cpu s ss rs \<and>
     core_running s' = (core_running s)(cpu := sched_next cpu s ss rs)"
proof -
  have kc: "kinv_call cpu s Q" by (rule kinv_imp_call [OF assms(1,3)])
  from do_scheduler_kinv [OF kc assms(3-5)] do_scheduler_no_lost [OF kc assms(3-5,2)]
  show ?thesis by blast
qed

theorem do_scheduler_refines_witness:
  "\<exists>s'. do_scheduler 0 two_ready = Inr s' \<and> core_running s' 0 = Pcb 1"
proof -
  let ?Q = "(\<lambda>_. Some [])(ReadyQueue \<mapsto> [Pcb 1, Pcb 2])"
  have q: "?Q SleepQueue = Some []" "?Q ReadyQueue = Some [Pcb 1, Pcb 2]" by simp_all
  have "sched_next 0 two_ready [] [Pcb 1, Pcb 2] = Pcb 1"
    using two_ready_ok by (simp add: sched_next_def chosen_def ready_after_def can_run_def GETMASK_def)
  moreover have "(0::nat) < CORE_NUM" by (simp add: CORE_NUM_def)
  ultimately show ?thesis
    using do_scheduler_refines [of two_ready ?Q 0 "[]" "[Pcb 1, Pcb 2]"] two_ready_ok q
    by (auto simp del: fun_upd_apply) (auto simp: fun_upd_apply)
qed

text \<open>
  C2: Round robin.  Whatever the order in which the two cores take timer interrupts and whatever the
  clock says, a process at position \<open>k\<close> of the ready queue that is allowed on the interrupted cores
  is given a core within \<open>k + 1\<close> interrupts.
\<close>

theorem round_robin:
  assumes "kinv s Q" and "k < length (the (Q ReadyQueue))" and "the (Q ReadyQueue) ! k = p"
    and "\<forall>(cpu, t) \<in> set steps. cpu < CORE_NUM \<and> can_run cpu (pcb s) p" and "k < length steps"
  shows "\<exists>n s'. n < length steps \<and> timer_run (take (Suc n) steps) s = Inr s' \<and>
     core_running s' (fst (steps ! n)) = p"
proof (rule timer_run_reaches [OF assms(1,4)])
  show "p \<in> set (take (length steps) (the (Q ReadyQueue)))"
    using assms(2,3,5) by (auto simp: in_set_conv_nth intro!: exI [of _ k])
qed

theorem round_robin_witness:
  "\<exists>n s'. n < 2 \<and> timer_run (take (Suc n) [(0, 5), (1, 7)]) two_ready = Inr s' \<and>
     core_running s' (fst ([(0::nat, 5::u64), (1, 7)] ! n)) = Pcb 2"
proof -
  have c: "\<forall>(cpu, t) \<in> set [(0::nat, 5::u64), (1, 7)]. cpu < CORE_NUM \<and> can_run cpu (pcb two_ready) (Pcb 2)"
    using two_ready_ok by (simp add: CORE_NUM_def can_run_def GETMASK_def)
  let ?Q = "(\<lambda>_. Some [])(ReadyQueue \<mapsto> [Pcb 1, Pcb 2])"
  have "kinv two_ready ?Q" using two_ready_ok by blast
  from round_robin [OF this _ _ c, of 1] show ?thesis by (simp add: numeral_2_eq_2)
qed

text \<open>
  Sleeping.  When the core reschedules, a sleeping process stays on the sleep queue exactly as
  long as its wake-up time lies in the future; otherwise it is on the ready queue afterwards or
  runs on the core.
\<close>

theorem sleepers_wake:
  assumes "kinv s Q" and "cpu < CORE_NUM" and "p \<in> set (the (Q SleepQueue))"
  shows "\<exists>s' Q'. do_scheduler cpu s = Inr s' \<and> kinv s' Q' \<and>
     (p \<in> set (the (Q' SleepQueue)) \<longleftrightarrow> divu (rdtime s) (time_base s) < wakeup_time (pcb s p)) \<and>
     (wakeup_time (pcb s p) \<le> divu (rdtime s) (time_base s) \<longrightarrow>
        p \<in> set (the (Q' ReadyQueue)) \<or> core_running s' cpu = p)"
proof -
  obtain ss rs where q: "Q SleepQueue = Some ss" "Q ReadyQueue = Some rs"
    using assms(1) by (auto simp: kinv_def kwf_def)
  obtain s' where s': "do_scheduler cpu s = Inr s'" "kinv s' (sched_queues cpu s ss rs Q)"
    "core_running s' = (core_running s)(cpu := sched_next cpu s ss rs)"
    using do_scheduler_kinv [OF kinv_imp_call [OF assms(1,2)] assms(2) q] by blast
  have "p \<in> set (the (sched_queues cpu s ss rs Q SleepQueue)) \<longleftrightarrow> timer_now s < wakeup_time (pcb s p)"
    using assms(3) q(1) by (auto simp: sched_queues_def)
  moreover have "p \<in> set (the (sched_queues cpu s ss rs Q ReadyQueue)) \<or> core_running s' cpu = p"
    if "wakeup_time (pcb s p) \<le> timer_now s"
  proof -
    have "p \<in> set (ready_after cpu s ss rs)" using that assms(3) q(1) by (simp add: ready_after_def)
    then show ?thesis
      by (cases "chosen cpu s ss rs") (auto simp: s'(3) sched_queues_def sched_next_def)
  qed
  ultimately show ?thesis using s'(1,2) unfolding timer_now_def by blast
qed

definition one_asleep :: kstate where
  "one_asleep = ready_on SleepQueue (Pcb 1) boot_kstate"

lemma one_asleep_ok:
  "kinv one_asleep ((\<lambda>_. Some [])(SleepQueue \<mapsto> [Pcb 1])) \<and> wakeup_time (pcb one_asleep (Pcb 1)) = 0"
proof -
  have "kinv boot_kstate (\<lambda>_. Some [])" "no_lost boot_kstate (\<lambda>_. Some [])"
    using kinv_boot [of boot_kstate] by (simp_all add: boot_kstate_def)
  from ready_on_ok [OF this, where q = SleepQueue and xs = "[]" and p = "Pcb 1"] show ?thesis
    unfolding one_asleep_def
    by (simp add: NUM_MAX_TASK_def boot_kstate_def boot_pcbs_def boot_pcb_def)
qed

text \<open>
  \<open>do_block\<close> and \<open>do_unblock\<close>.  A process that blocks on a queue leaves its core, which runs
  another process; \<open>do_unblock\<close> takes the process that has waited longest and puts it at the end of
  the ready queue, marked ready.
\<close>

theorem block_unblock_fifo:
  assumes "kinv s Q" and "no_lost s Q" and "cpu < CORE_NUM" and "pid (pcb s (core_running s cpu)) \<noteq> 0"
    and "Q q = Some xs" and "q \<noteq> ReadyQueue" and "q \<noteq> SleepQueue"
  shows "\<exists>s1 Q1 s2 Q2. do_block cpu (core_running s cpu) q s = Inr s1 \<and> kinv s1 Q1 \<and> no_lost s1 Q1 \<and>
     Q1 q = Some (xs @ [core_running s cpu]) \<and> core_running s1 cpu \<noteq> core_running s cpu \<and>
     do_unblock q s1 = Inr s2 \<and> kinv s2 Q2 \<and> no_lost s2 Q2 \<and> Q2 q = Some (tl (xs @ [core_running s cpu])) \<and>
     last (the (Q2 ReadyQueue)) = hd (xs @ [core_running s cpu]) \<and>
     task_status (pcb s2 (hd (xs @ [core_running s cpu]))) = TASK_READY"
proof -
  let ?c = "core_running s cpu" and ?s1 = "block_state cpu (task_status_update (\<lambda>_. TASK_BLOCKED)) s"
  obtain ss rs where q: "Q SleepQueue = Some ss" "Q ReadyQueue = Some rs"
    using assms(1) by (auto simp: kinv_def kwf_def)
  have "sched_queues cpu ?s1 ss rs (Q(q \<mapsto> xs @ [?c])) q = Some (xs @ [?c])"
    using assms(6,7) by (simp add: sched_queues_def)
  with do_block_ok [OF assms(1,3-7) q] assms(2) obtain s1 Q1 where
    s1: "do_block cpu ?c q s = Inr s1" "kinv s1 Q1" "no_lost s1 Q1" and q1: "Q1 q = Some (xs @ [?c])"
    by blast
  have "?c \<in> queued Q1" by (rule queued_member [of Q1, OF q1]) simp
  with s1(2) assms(3) have ne: "core_running s1 cpu \<noteq> ?c" by (auto simp: kinv_def)
  obtain p ys where py: "xs @ [?c] = p # ys" by (cases "xs @ [?c]") auto
  obtain rs1 where r1: "Q1 ReadyQueue = Some rs1" using s1(2) by (auto simp: kinv_def kwf_def)
  let ?Q2 = "Q1(q \<mapsto> ys, ReadyQueue \<mapsto> rs1 @ [p])"
  obtain s2 where s2: "do_unblock q s1 = Inr s2" "kinv s2 ?Q2" "no_lost s2 ?Q2"
    "pcb s2 = (pcb s1)(p := (pcb s1 p)\<lparr>task_status := TASK_READY\<rparr>)"
    using do_unblock_inv [OF s1(2) q1 [unfolded py] assms(6) r1] s1(3) by blast
  have "?Q2 q = Some ys" "last (the (?Q2 ReadyQueue)) = p" "task_status (pcb s2 p) = TASK_READY"
    using assms(6) by (simp_all add: s2(4))
  then show ?thesis using s1 q1 ne s2(1-3) unfolding py list.sel by blast
qed

end
