(* ===== verification/Lock.thy ===== *)
theory Lock
  imports Sched KString
begin

text \<open>
  Synchronisation primitives: \<open>kernel/locking/lock.c\<close> (spin locks, mutexes, barriers, condition
  variables; the mailboxes are in theory \<open>Mailbox\<close>) and the big kernel lock of
  \<open>kernel/smp/smp.c\<close>.  The scheduler state is extended by the arrays of \<open>lock.c\<close>; an index outside
  an array is a \<open>Fault\<close>.  The primitives call the scheduler as their last action, so each is one
  uninterrupted step of the kernel.
\<close>

section \<open>State\<close>

datatype lock_status_t = UNLOCKED | LOCKED

record spin_lock_t =
  status :: lock_status_t

record mutex_lock_t =
  mlock :: spin_lock_t
  owner :: int
  mkey :: int

record barrier_t =
  bkey :: int
  barrier_num :: int

record condition_t =
  cond_key :: int
  lock_idx :: int
  cvalid :: bool

record mailbox_t =
  valid :: bool
  mhead :: int
  mtail :: int
  user_num :: int
  mblock :: spin_lock_t

definition LOCK_NUM :: nat where "LOCK_NUM = 16"
definition BARRIER_NUM :: nat where "BARRIER_NUM = 16"
definition CONDITION_NUM :: nat where "CONDITION_NUM = 16"
definition MBOX_NUM :: nat where "MBOX_NUM = 16"
definition MAX_MBOX_LENGTH :: nat where "MAX_MBOX_LENGTH = 64"
definition MBOX_NAME_LENGTH :: nat where "MBOX_NAME_LENGTH = 24"

text \<open>
  Byte objects: a mailbox (its \<open>name\<close> is at offset 8 of the structure, its \<open>content\<close> at
  offset 32, right behind the name) and the caller's memory.
\<close>

datatype kobj = Mbox nat | User nat

abbreviation mbox_name :: "nat \<Rightarrow> kobj ptr" where "mbox_name i \<equiv> (Mbox i, 8)"
abbreviation mbox_content :: "nat \<Rightarrow> kobj ptr" where "mbox_content i \<equiv> (Mbox i, 32)"

record lstate = kstate +
  mlocks :: "nat \<Rightarrow> mutex_lock_t"
  barriers :: "nat \<Rightarrow> barrier_t"
  conditions :: "nat \<Rightarrow> condition_t"
  mboxs :: "nat \<Rightarrow> mailbox_t"
  kmem :: "kobj mem"

text \<open>An array index given by the caller.\<close>

definition at :: "nat \<Rightarrow> int \<Rightarrow> nat res" where
  "at n i = (if 0 \<le> i \<and> i < int n then Inr (nat i) else Inl Fault)"

definition upd_mlock :: "nat \<Rightarrow> (mutex_lock_t \<Rightarrow> mutex_lock_t) \<Rightarrow> 's lstate_scheme \<Rightarrow> 's lstate_scheme" where
  "upd_mlock i f s = s\<lparr>mlocks := (mlocks s)(i := f (mlocks s i))\<rparr>"

definition upd_barrier :: "nat \<Rightarrow> (barrier_t \<Rightarrow> barrier_t) \<Rightarrow> 's lstate_scheme \<Rightarrow> 's lstate_scheme" where
  "upd_barrier i f s = s\<lparr>barriers := (barriers s)(i := f (barriers s i))\<rparr>"

definition upd_condition :: "nat \<Rightarrow> (condition_t \<Rightarrow> condition_t) \<Rightarrow> 's lstate_scheme \<Rightarrow> 's lstate_scheme" where
  "upd_condition i f s = s\<lparr>conditions := (conditions s)(i := f (conditions s i))\<rparr>"

definition upd_mbox :: "nat \<Rightarrow> (mailbox_t \<Rightarrow> mailbox_t) \<Rightarrow> 's lstate_scheme \<Rightarrow> 's lstate_scheme" where
  "upd_mbox i f s = s\<lparr>mboxs := (mboxs s)(i := f (mboxs s i))\<rparr>"

definition init_queue :: "qid \<Rightarrow> 's lstate_scheme \<Rightarrow> 's lstate_scheme" where
  "init_queue q s = s\<lparr>lists := init_list_head (lists s) (Head q)\<rparr>"

section \<open>Spin locks\<close>

definition spin_lock_init :: "spin_lock_t \<Rightarrow> spin_lock_t" where
  "spin_lock_init l = l\<lparr>status := UNLOCKED\<rparr>"

definition spin_lock_try_acquire :: "spin_lock_t \<Rightarrow> bool" where
  "spin_lock_try_acquire l = (status l = UNLOCKED)"

definition spin_lock_acquire :: "spin_lock_t \<Rightarrow> spin_lock_t" where
  "spin_lock_acquire l = l\<lparr>status := LOCKED\<rparr>"

definition spin_lock_release :: "spin_lock_t \<Rightarrow> spin_lock_t" where
  "spin_lock_release l = l\<lparr>status := UNLOCKED\<rparr>"

section \<open>Mutexes\<close>

definition init_lock :: "nat \<Rightarrow> 's lstate_scheme \<Rightarrow> 's lstate_scheme" where
  "init_lock i s =
     (let s = init_queue (MlockQueue i) s;
          s = upd_mlock i (mkey_update (\<lambda>_. 0)) s;
          s = upd_mlock i (owner_update (\<lambda>_. - 1)) s
      in upd_mlock i (mlock_update spin_lock_init) s)"

definition init_locks :: "'s lstate_scheme \<Rightarrow> 's lstate_scheme" where
  "init_locks s = fold init_lock [0..<LOCK_NUM] s"

text \<open>
  The search loop of \<open>do_mutex_lock_init\<close>: \<open>Some (i, True)\<close> when it returns the lock \<open>i\<close> whose key
  matches, \<open>Some (i, False)\<close> when it stops at a lock without owner, \<open>None\<close> when it ends.
\<close>

fun find_mlock :: "int \<Rightarrow> (nat \<Rightarrow> mutex_lock_t) \<Rightarrow> nat list \<Rightarrow> (nat \<times> bool) option" where
  "find_mlock k ms [] = None"
| "find_mlock k ms (i # is) =
     (if mkey (ms i) = k then Some (i, True)
      else if owner (ms i) = - 1 then Some (i, False)
      else find_mlock k ms is)"

definition do_mutex_lock_init :: "int \<Rightarrow> 's lstate_scheme \<Rightarrow> (int \<times> 's lstate_scheme) res" where
  "do_mutex_lock_init k s =
     (case find_mlock k (mlocks s) [0..<LOCK_NUM] of
        None \<Rightarrow> Inl Hang
      | Some (i, True) \<Rightarrow> Inr (int i, s)
      | Some (i, False) \<Rightarrow>
          (let s = upd_mlock i (owner_update (\<lambda>_. 0)) s;
               s = upd_mlock i (mkey_update (\<lambda>_. k)) s;
               s = upd_mlock i (mlock_update (\<lambda>l. l\<lparr>status := UNLOCKED\<rparr>)) s
           in Inr (int i, s)))"

definition do_mutex_lock_acquire :: "nat \<Rightarrow> int \<Rightarrow> 's lstate_scheme \<Rightarrow> 's lstate_scheme res" where
  "do_mutex_lock_acquire cpu mlock_idx s =
     (let current_running = core_running s cpu
      in bindE (at LOCK_NUM mlock_idx) (\<lambda>i.
         if spin_lock_try_acquire (mlock (mlocks s i))
         then let s = upd_mlock i (mlock_update spin_lock_acquire) s
              in Inr (upd_mlock i (owner_update (\<lambda>_. pid (pcb s current_running))) s)
         else do_block cpu current_running (MlockQueue i) s))"

definition do_mutex_lock_release :: "int \<Rightarrow> 's lstate_scheme \<Rightarrow> 's lstate_scheme res" where
  "do_mutex_lock_release mlock_idx s =
     bindE (at LOCK_NUM mlock_idx) (\<lambda>i.
       if queue_is_empty (MlockQueue i) s
       then let s = upd_mlock i (mlock_update spin_lock_release) s
            in Inr (upd_mlock i (owner_update (\<lambda>_. - 1)) s)
       else bindE (list_entry (nxt (lists s (Head (MlockQueue i))))) (\<lambda>next_pcb.
              do_unblock (MlockQueue i) (upd_mlock i (owner_update (\<lambda>_. pid (pcb s next_pcb))) s)))"

fun release_loop :: "int \<Rightarrow> nat list \<Rightarrow> 's lstate_scheme \<Rightarrow> 's lstate_scheme res" where
  "release_loop p [] s = Inr s"
| "release_loop p (i # is) s =
     (if owner (mlocks s i) = p
      then bindE (do_mutex_lock_release (int i) s) (release_loop p is)
      else release_loop p is s)"

definition release_pcb_lock :: "int \<Rightarrow> 's lstate_scheme \<Rightarrow> 's lstate_scheme res" where
  "release_pcb_lock p s = release_loop p [0..<LOCK_NUM] s"

section \<open>Barriers\<close>

definition init_barrier :: "nat \<Rightarrow> 's lstate_scheme \<Rightarrow> 's lstate_scheme" where
  "init_barrier i s =
     (let s = init_queue (BarrierQueue i) s;
          s = upd_barrier i (bkey_update (\<lambda>_. - 1)) s
      in upd_barrier i (barrier_num_update (\<lambda>_. - 1)) s)"

definition init_barriers :: "'s lstate_scheme \<Rightarrow> 's lstate_scheme" where
  "init_barriers s = fold init_barrier [0..<BARRIER_NUM] s"

definition do_barrier_init :: "int \<Rightarrow> int \<Rightarrow> 's lstate_scheme \<Rightarrow> int \<times> 's lstate_scheme" where
  "do_barrier_init k goal s =
     (case find (\<lambda>i. bkey (barriers s i) = - 1) [0..<BARRIER_NUM] of
        None \<Rightarrow> (- 1, s)
      | Some i \<Rightarrow>
          (let s = upd_barrier i (bkey_update (\<lambda>_. k)) s
           in (int i, upd_barrier i (barrier_num_update (\<lambda>_. goal)) s)))"

text \<open>\<open>while (!list_is_empty(q)) { do_unblock(q); f }\<close>\<close>

fun unblock_all :: "nat \<Rightarrow> qid \<Rightarrow> ('s lstate_scheme \<Rightarrow> 's lstate_scheme) \<Rightarrow> 's lstate_scheme \<Rightarrow> 's lstate_scheme res"
where
  "unblock_all 0 q f s = Inl Hang"
| "unblock_all (Suc fuel) q f s =
     (if queue_is_empty q s then Inr s
      else bindE (do_unblock q s) (\<lambda>s. unblock_all fuel q f (f s)))"

definition do_barrier_wait :: "nat \<Rightarrow> int \<Rightarrow> 's lstate_scheme \<Rightarrow> 's lstate_scheme res" where
  "do_barrier_wait cpu bar_idx s =
     (let current_running = core_running s cpu
      in bindE (at BARRIER_NUM bar_idx) (\<lambda>i.
         bindE (if barrier_num (barriers s i) = 1
                then unblock_all QUEUE_FUEL (BarrierQueue i)
                       (upd_barrier i (barrier_num_update (\<lambda>n. n + 1))) s
                else bindE (add_queue (BarrierQueue i) current_running
                              (set_status current_running TASK_BLOCKED s))
                       (\<lambda>s. Inr (upd_barrier i (barrier_num_update (\<lambda>n. n - 1)) s)))
           (do_scheduler cpu)))"

definition do_barrier_destroy :: "int \<Rightarrow> 's lstate_scheme \<Rightarrow> 's lstate_scheme res" where
  "do_barrier_destroy bar_idx s =
     bindE (at BARRIER_NUM bar_idx) (\<lambda>i.
       if bkey (barriers s i) = - 1 then Inr s
       else let s = upd_barrier i (bkey_update (\<lambda>_. - 1)) s
            in Inr (upd_barrier i (barrier_num_update (\<lambda>_. - 1)) s))"

section \<open>Condition variables\<close>

definition init_condition :: "nat \<Rightarrow> 's lstate_scheme \<Rightarrow> 's lstate_scheme" where
  "init_condition i s =
     (let s = init_queue (CondQueue i) s;
          s = upd_condition i (cond_key_update (\<lambda>_. - 1)) s;
          s = upd_condition i (lock_idx_update (\<lambda>_. - 1)) s
      in upd_condition i (cvalid_update (\<lambda>_. False)) s)"

definition init_conditions :: "'s lstate_scheme \<Rightarrow> 's lstate_scheme" where
  "init_conditions s = fold init_condition [0..<CONDITION_NUM] s"

definition do_condition_init :: "int \<Rightarrow> 's lstate_scheme \<Rightarrow> int \<times> 's lstate_scheme" where
  "do_condition_init k s =
     (case find (\<lambda>i. \<not> cvalid (conditions s i)) [0..<CONDITION_NUM] of
        None \<Rightarrow> (- 1, s)
      | Some i \<Rightarrow>
          (let s = upd_condition i (cond_key_update (\<lambda>_. k)) s
           in (int i, upd_condition i (cvalid_update (\<lambda>_. True)) s)))"

definition do_condition_wait :: "nat \<Rightarrow> int \<Rightarrow> int \<Rightarrow> 's lstate_scheme \<Rightarrow> 's lstate_scheme res" where
  "do_condition_wait cpu cond_idx mutex_idx s =
     (let current_running = core_running s cpu;
          s = set_status current_running TASK_BLOCKED s
      in bindE (at CONDITION_NUM cond_idx) (\<lambda>i.
         bindE (add_queue (CondQueue i) current_running
                  (upd_condition i (lock_idx_update (\<lambda>_. mutex_idx)) s)) (\<lambda>s.
         bindE (do_mutex_lock_release mutex_idx s) (do_scheduler cpu))))"

definition do_condition_signal :: "nat \<Rightarrow> int \<Rightarrow> 's lstate_scheme \<Rightarrow> 's lstate_scheme res" where
  "do_condition_signal cpu cond_idx s =
     bindE (at CONDITION_NUM cond_idx) (\<lambda>i.
     bindE (get_head (CondQueue i) s) (\<lambda>(signaled_pcb, s).
     bindE (at LOCK_NUM (lock_idx (conditions s i))) (\<lambda>lock_id.
       if spin_lock_try_acquire (mlock (mlocks s lock_id))
       then let s = upd_mlock lock_id (mlock_update spin_lock_acquire) s
            in Inr (upd_mlock lock_id (owner_update (\<lambda>_. pid (pcb s signaled_pcb))) s)
       else do_block cpu signaled_pcb (MlockQueue lock_id) s)))"

fun broadcast_loop :: "nat \<Rightarrow> nat \<Rightarrow> int \<Rightarrow> 's lstate_scheme \<Rightarrow> 's lstate_scheme res" where
  "broadcast_loop 0 i lock_id s = Inl Hang"
| "broadcast_loop (Suc fuel) i lock_id s =
     (if queue_is_empty (CondQueue i) s then Inr s
      else bindE (get_head (CondQueue i) s) (\<lambda>(tmp, s).
           bindE (at LOCK_NUM lock_id) (\<lambda>l.
           bindE (if spin_lock_try_acquire (mlock (mlocks s l))
                  then let s = upd_mlock l (mlock_update spin_lock_acquire) s;
                           s = upd_mlock l (owner_update (\<lambda>_. pid (pcb s tmp))) s
                       in add_queue ReadyQueue tmp s
                  else add_queue (MlockQueue l) tmp (set_status tmp TASK_BLOCKED s))
             (broadcast_loop fuel i lock_id))))"

definition do_condition_broadcast :: "nat \<Rightarrow> int \<Rightarrow> 's lstate_scheme \<Rightarrow> 's lstate_scheme res" where
  "do_condition_broadcast cpu cond_idx s =
     bindE (at CONDITION_NUM cond_idx) (\<lambda>i.
     bindE (broadcast_loop QUEUE_FUEL i (lock_idx (conditions s i)) s) (do_scheduler cpu))"

definition do_condition_destroy :: "int \<Rightarrow> 's lstate_scheme \<Rightarrow> 's lstate_scheme res" where
  "do_condition_destroy cond_idx s =
     bindE (at CONDITION_NUM cond_idx) (\<lambda>i.
       if queue_is_empty (CondQueue i) s then Inr (init_condition i s) else Inr s)"

section \<open>The big kernel lock\<close>

text \<open>
  \<open>atomic_swap\<close> stores its argument and returns the old value.  \<open>lock_kernel\<close> repeats it until the
  old value is 0, \<open>UNLOCKED\<close>; \<open>lock_kernel_step\<close> is one round, with the result whether the loop
  ends.
\<close>

definition atomic_swap :: "lock_status_t \<Rightarrow> lock_status_t \<Rightarrow> lock_status_t \<times> lock_status_t" where
  "atomic_swap v l = (l, v)"

definition smp_init :: "spin_lock_t \<Rightarrow> spin_lock_t" where
  "smp_init l = l\<lparr>status := UNLOCKED\<rparr>"

definition lock_kernel_step :: "spin_lock_t \<Rightarrow> bool \<times> spin_lock_t" where
  "lock_kernel_step l =
     (let (old, new) = atomic_swap LOCKED (status l) in (old = UNLOCKED, l\<lparr>status := new\<rparr>))"

definition unlock_kernel :: "spin_lock_t \<Rightarrow> spin_lock_t" where
  "unlock_kernel l = l\<lparr>status := snd (atomic_swap UNLOCKED (status l))\<rparr>"


section \<open>Frame lemmas\<close>

lemma lstate_more:
  assumes "kstate.more s' = kstate.more (s :: 's lstate_scheme)"
  shows "mlocks s' = mlocks s" "barriers s' = barriers s" "conditions s' = conditions s"
    "mboxs s' = mboxs s" "kmem s' = kmem s"
  using assms by (cases s; cases s'; simp)+

lemma upd_sel [simp]:
  "lists (upd_mlock i f s) = lists s" "pcb (upd_mlock i f s) = pcb s"
  "core_running (upd_mlock i f s) = core_running s"
  "mlocks (upd_mlock i f s) = (mlocks s)(i := f (mlocks s i))"
  "mboxs (upd_mlock i f s) = mboxs s" "kmem (upd_mlock i f s) = kmem s"
  "barriers (upd_mlock i f s) = barriers s" "conditions (upd_mlock i f s) = conditions s"
  "lists (upd_barrier i g s) = lists s" "pcb (upd_barrier i g s) = pcb s"
  "core_running (upd_barrier i g s) = core_running s"
  "barriers (upd_barrier i g s) = (barriers s)(i := g (barriers s i))"
  "mlocks (upd_barrier i g s) = mlocks s"
  "lists (upd_condition i k s) = lists s" "pcb (upd_condition i k s) = pcb s"
  "core_running (upd_condition i k s) = core_running s"
  "conditions (upd_condition i k s) = (conditions s)(i := k (conditions s i))"
  "mlocks (upd_condition i k s) = mlocks s"
  "lists (upd_mbox i l s) = lists s" "pcb (upd_mbox i l s) = pcb s"
  "core_running (upd_mbox i l s) = core_running s"
  "mboxs (upd_mbox i l s) = (mboxs s)(i := l (mboxs s i))"
  "kmem (upd_mbox i l s) = kmem s" "mlocks (upd_mbox i l s) = mlocks s"
  by (simp_all add: upd_mlock_def upd_barrier_def upd_condition_def upd_mbox_def)

lemma lstate_pcb_sel [simp]:
  "mlocks (upd_pcb p f s) = mlocks s" "barriers (upd_pcb p f s) = barriers s"
  "conditions (upd_pcb p f s) = conditions s" "mboxs (upd_pcb p f s) = mboxs s"
  "kmem (upd_pcb p f s) = kmem s"
  by (simp_all add: upd_pcb_def)

text \<open>The invariants of the scheduler only depend on its own part of the state.\<close>

lemma kinv_cong:
  assumes "lists s' = lists s" and "pcb s' = pcb s" and "core_running s' = core_running s"
  shows "kwf s' Q = kwf s Q" "kinv s' Q = kinv s Q" "kinv_call cpu s' Q = kinv_call cpu s Q"
    "no_lost s' Q = no_lost s Q"
  using assms by (simp_all add: kwf_def kinv_def kinv_call_def no_lost_def)

lemma kinv_upd [simp]:
  "kwf (upd_mlock i f s) Q = kwf s Q" "kinv (upd_mlock i f s) Q = kinv s Q"
  "kinv_call cpu (upd_mlock i f s) Q = kinv_call cpu s Q" "no_lost (upd_mlock i f s) Q = no_lost s Q"
  "kwf (upd_barrier i g s) Q = kwf s Q" "kinv (upd_barrier i g s) Q = kinv s Q"
  "kinv_call cpu (upd_barrier i g s) Q = kinv_call cpu s Q" "no_lost (upd_barrier i g s) Q = no_lost s Q"
  "kwf (upd_condition i k s) Q = kwf s Q" "kinv (upd_condition i k s) Q = kinv s Q"
  "kinv_call cpu (upd_condition i k s) Q = kinv_call cpu s Q" "no_lost (upd_condition i k s) Q = no_lost s Q"
  "kwf (upd_mbox i l s) Q = kwf s Q" "kinv (upd_mbox i l s) Q = kinv s Q"
  "kinv_call cpu (upd_mbox i l s) Q = kinv_call cpu s Q" "no_lost (upd_mbox i l s) Q = no_lost s Q"
  by (rule kinv_cong; simp)+

lemma at_nat [simp]: "i < n \<Longrightarrow> at n (int i) = Inr i"
  by (simp add: at_def)

lemma at_range: "at n i = Inr j \<longleftrightarrow> i = int j \<and> j < n"
  by (auto simp: at_def)


section \<open>Mutexes: what each operation does\<close>

lemma acquire_free:
  assumes "i < LOCK_NUM" and "status (mlock (mlocks s i)) = UNLOCKED"
  shows "do_mutex_lock_acquire cpu (int i) s =
    Inr (upd_mlock i (\<lambda>l. (mlock_update spin_lock_acquire l)\<lparr>owner := pid (pcb s (core_running s cpu))\<rparr>) s)"
  using assms
  by (simp add: do_mutex_lock_acquire_def spin_lock_try_acquire_def upd_mlock_def)

lemma acquire_busy:
  "i < LOCK_NUM \<Longrightarrow> status (mlock (mlocks s i)) = LOCKED \<Longrightarrow>
   do_mutex_lock_acquire cpu (int i) s = do_block cpu (core_running s cpu) (MlockQueue i) s"
  by (simp add: do_mutex_lock_acquire_def spin_lock_try_acquire_def)

lemma release_last:
  assumes "i < LOCK_NUM" and "kwf s Q" and "Q (MlockQueue i) = Some []"
  shows "do_mutex_lock_release (int i) s =
    Inr (upd_mlock i (\<lambda>l. (mlock_update spin_lock_release l)\<lparr>owner := - 1\<rparr>) s)"
  using assms lq.rep_empty [OF kwf_qrep [OF assms(2)] assms(3)]
  by (simp add: do_mutex_lock_release_def queue_is_empty_def upd_mlock_def)

lemma release_handoff:
  assumes "i < LOCK_NUM" and "kwf s Q" and "Q (MlockQueue i) = Some (p # xs)"
  shows "do_mutex_lock_release (int i) s =
    do_unblock (MlockQueue i) (upd_mlock i (\<lambda>l. l\<lparr>owner := pid (pcb s p)\<rparr>) s)"
  using assms lq.rep_empty [OF kwf_qrep [OF assms(2)] assms(3)]
    lq.first_entry [OF kwf_qrep [OF assms(2)] assms(3)]
  by (simp add: do_mutex_lock_release_def queue_is_empty_def)

section \<open>Mutual exclusion\<close>

text \<open>
  Processes of both cores call the mutex operations and are interrupted by the timer in any
  order.  The second component of a state records which process is inside which critical
  section: a process enters when its \<open>do_mutex_lock_acquire\<close> returns, at once or when it is later
  taken off the lock's queue, and leaves with \<open>do_mutex_lock_release\<close>, which only a process inside
  calls.
\<close>

abbreviation waiting :: "'s lstate_scheme \<Rightarrow> nat \<Rightarrow> pcb_ref \<Rightarrow> bool" where
  "waiting s i p \<equiv> on_list (lists s) (MlockQueue i) p"

inductive mutex_step ::
  "'s lstate_scheme \<times> (nat \<times> pcb_ref) set \<Rightarrow> 's lstate_scheme \<times> (nat \<times> pcb_ref) set \<Rightarrow> bool" where
  acquire: "cpu < CORE_NUM \<Longrightarrow> p = core_running s cpu \<Longrightarrow> pid (pcb s p) \<noteq> 0 \<Longrightarrow> i < LOCK_NUM \<Longrightarrow>
     do_mutex_lock_acquire cpu (int i) s = Inr s' \<Longrightarrow>
     mutex_step (s, C) (s', C \<union> (if waiting s' i p then {} else {(i, p)}))"
| release: "cpu < CORE_NUM \<Longrightarrow> p = core_running s cpu \<Longrightarrow> (i, p) \<in> C \<Longrightarrow> i < LOCK_NUM \<Longrightarrow>
     do_mutex_lock_release (int i) s = Inr s' \<Longrightarrow>
     mutex_step (s, C) (s', C - {(i, p)} \<union> {(i, w) |w. waiting s i w \<and> \<not> waiting s' i w})"
| timer: "cpu < CORE_NUM \<Longrightarrow> handle_irq_timer cpu (s\<lparr>rdtime := t\<rparr>) = Inr s' \<Longrightarrow> mutex_step (s, C) (s', C)"

text \<open>
  An unlocked mutex has no waiters and nobody inside; a locked one has exactly one process inside,
  its recorded owner.
\<close>

definition mutex_ok :: "mutex_lock_t \<Rightarrow> (pcb_ref \<Rightarrow> pcb_t) \<Rightarrow> pcb_ref list \<Rightarrow> pcb_ref set \<Rightarrow> bool" where
  "mutex_ok l f ws inside \<longleftrightarrow>
     (case status (mlock l) of
        UNLOCKED \<Rightarrow> ws = [] \<and> inside = {}
      | LOCKED \<Rightarrow> (\<exists>p. inside = {p} \<and> owner l = pid (f p)))"

definition mutex_inv ::
  "'s lstate_scheme \<Rightarrow> (nat \<times> pcb_ref) set \<Rightarrow> (qid \<rightharpoonup> pcb_ref list) \<Rightarrow> bool" where
  "mutex_inv s C Q \<longleftrightarrow> kinv s Q \<and>
     (\<forall>i < LOCK_NUM. \<exists>ws. Q (MlockQueue i) = Some ws \<and> mutex_ok (mlocks s i) (pcb s) ws {p. (i, p) \<in> C})"

lemma mutex_ok_cong:
  "(\<And>p. pid (f p) = pid (g p)) \<Longrightarrow> mutex_ok l f ws inside = mutex_ok l g ws inside"
  by (simp add: mutex_ok_def split: lock_status_t.split)


lemma mutex_inv_kinv: "mutex_inv s C Q \<Longrightarrow> kinv s Q"
  by (simp add: mutex_inv_def)

lemma mutex_invD:
  assumes "mutex_inv s C Q" and "i < LOCK_NUM"
  obtains ws where "Q (MlockQueue i) = Some ws" and "mutex_ok (mlocks s i) (pcb s) ws {p. (i, p) \<in> C}"
  using assms by (auto simp: mutex_inv_def)

text \<open>A step that touches one mutex only.\<close>

lemma mutex_invI:
  assumes inv: "mutex_inv s C Q" and k: "kinv s' Q'" and i: "i < LOCK_NUM"
    and pids: "\<And>p. pid (pcb s' p) = pid (pcb s p)"
    and other: "\<And>j. j \<noteq> i \<Longrightarrow> mlocks s' j = mlocks s j" "\<And>j. j \<noteq> i \<Longrightarrow> Q' (MlockQueue j) = Q (MlockQueue j)"
      "\<And>j p. j \<noteq> i \<Longrightarrow> (j, p) \<in> C' \<longleftrightarrow> (j, p) \<in> C"
    and lock: "Q' (MlockQueue i) = Some ws" "mutex_ok (mlocks s' i) (pcb s) ws {p. (i, p) \<in> C'}"
  shows "mutex_inv s' C' Q'"
  unfolding mutex_inv_def
proof (intro conjI allI impI)
  fix j
  assume "j < LOCK_NUM"
  then obtain ws' where w: "Q (MlockQueue j) = Some ws'" "mutex_ok (mlocks s j) (pcb s) ws' {p. (j, p) \<in> C}"
    by (rule mutex_invD [OF inv])
  have e: "mutex_ok l (pcb s') vs X = mutex_ok l (pcb s) vs X" for l vs X
    by (rule mutex_ok_cong) (simp add: pids)
  show "\<exists>ws. Q' (MlockQueue j) = Some ws \<and> mutex_ok (mlocks s' j) (pcb s') ws {p. (j, p) \<in> C'}"
    using w other lock unfolding e by (cases "j = i") auto
qed (rule k)

lemma on_list_kinv: "kinv s Q \<Longrightarrow> Q q = Some xs \<Longrightarrow> on_list (lists s) q p \<longleftrightarrow> p \<in> set xs"
  by (simp add: kinv_def kwf_def on_list_qrep [of _ Q])

lemma acquire_inv:
  assumes inv: "mutex_inv s C Q" and cpu: "cpu < CORE_NUM" "pid (pcb s (core_running s cpu)) \<noteq> 0"
    and i: "i < LOCK_NUM" and run: "do_mutex_lock_acquire cpu (int i) s = Inr s'"
  shows "\<exists>Q'. mutex_inv s' (C \<union> (if waiting s' i (core_running s cpu) then {} else {(i, core_running s cpu)})) Q'"
proof -
  let ?p = "core_running s cpu"
  obtain ws where ws: "Q (MlockQueue i) = Some ws" "mutex_ok (mlocks s i) (pcb s) ws {p. (i, p) \<in> C}"
    by (rule mutex_invD [OF inv i])
  have k: "kinv s Q" using inv by (rule mutex_inv_kinv)
  show ?thesis
  proof (cases "status (mlock (mlocks s i))")
    case UNLOCKED
    then have free: "ws = []" "{p. (i, p) \<in> C} = {}" using ws(2) by (auto simp: mutex_ok_def)
    have s': "s' = upd_mlock i (\<lambda>l. (mlock_update spin_lock_acquire l)\<lparr>owner := pid (pcb s ?p)\<rparr>) s"
      using run acquire_free [OF i UNLOCKED, of cpu] by simp
    have k': "kinv s' Q" using k by (simp add: s')
    have "\<not> waiting s' i ?p" using on_list_kinv [OF k' ws(1)] free by simp
    then have "mutex_inv s' (C \<union> (if waiting s' i ?p then {} else {(i, ?p)})) Q"
      using free ws(1) by (intro mutex_invI [OF inv k' i])
        (auto simp: s' mutex_ok_def spin_lock_acquire_def)
    then show ?thesis by blast
  next
    case LOCKED
    obtain ss rs where q: "Q SleepQueue = Some ss" "Q ReadyQueue = Some rs"
      using k by (auto simp: kinv_def kwf_def)
    let ?s1 = "block_state cpu (task_status_update (\<lambda>_. TASK_BLOCKED)) s"
    let ?Q = "sched_queues cpu ?s1 ss rs (Q(MlockQueue i \<mapsto> ws @ [?p]))"
    have r: "do_block cpu ?p (MlockQueue i) s = Inr s'" using run acquire_busy [OF i LOCKED] by metis
    then have s': "kinv s' ?Q" "pcb s' = sched_pcbs cpu ?s1 ss rs"
      using do_block_ok [OF k cpu ws(1) _ _ q] by auto
    have qj: "?Q (MlockQueue j) = Q (MlockQueue j)" if "j \<noteq> i" for j
      using that by (simp add: sched_queues_def)
    have qi: "?Q (MlockQueue i) = Some (ws @ [?p])" by (simp add: sched_queues_def)
    have "waiting s' i ?p" using on_list_kinv [OF s'(1) qi] by simp
    moreover have "mlocks s' = mlocks s" using do_block_more [OF r] by (rule lstate_more)
    moreover have "pid (pcb s' p) = pid (pcb s p)" for p by (simp add: s'(2) block_state_def)
    ultimately have "mutex_inv s' (C \<union> (if waiting s' i ?p then {} else {(i, ?p)})) ?Q"
      using ws(2) LOCKED qj by (intro mutex_invI [OF inv s'(1) i _ _ qj _ qi]) (auto simp: mutex_ok_def simp del: fun_upd_apply)
    then show ?thesis by blast
  qed
qed

lemma release_inv:
  assumes inv: "mutex_inv s C Q" and i: "i < LOCK_NUM" and inside: "(i, p) \<in> C"
    and run: "do_mutex_lock_release (int i) s = Inr s'"
  shows "\<exists>Q'. mutex_inv s' (C - {(i, p)} \<union> {(i, w) |w. waiting s i w \<and> \<not> waiting s' i w}) Q'"
proof -
  obtain ws where ws: "Q (MlockQueue i) = Some ws" "mutex_ok (mlocks s i) (pcb s) ws {p. (i, p) \<in> C}"
    by (rule mutex_invD [OF inv i])
  have k: "kinv s Q" using inv by (rule mutex_inv_kinv)
  then have kw: "kwf s Q" by (simp add: kinv_def)
  have p: "p \<in> {q. (i, q) \<in> C}" using inside by simp
  then have locked: "status (mlock (mlocks s i)) = LOCKED"
    using ws(2) by (cases "status (mlock (mlocks s i))") (auto simp: mutex_ok_def)
  with ws(2) obtain x where "{q. (i, q) \<in> C} = {x}" by (auto simp: mutex_ok_def)
  with p have in1: "{q. (i, q) \<in> C} = {p}" by simp
  note wait = on_list_kinv [OF k ws(1)]
  show ?thesis
  proof (cases ws)
    case Nil
    have s': "s' = upd_mlock i (\<lambda>l. (mlock_update spin_lock_release l)\<lparr>owner := - 1\<rparr>) s"
      using run release_last [OF i kw] ws(1) Nil by simp
    have "mutex_inv s' (C - {(i, p)} \<union> {(i, w) |w. waiting s i w \<and> \<not> waiting s' i w}) Q"
      using in1 wait Nil ws(1) k by (intro mutex_invI [OF inv _ i])
        (auto simp: s' mutex_ok_def spin_lock_release_def)
    then show ?thesis by blast
  next
    case (Cons w xs)
    obtain rs where rs: "Q ReadyQueue = Some rs" using kw by (auto simp: kwf_def)
    let ?s = "upd_mlock i (\<lambda>l. l\<lparr>owner := pid (pcb s w)\<rparr>) s" and ?Q = "Q(MlockQueue i \<mapsto> xs, ReadyQueue \<mapsto> rs @ [w])"
    have r: "do_unblock (MlockQueue i) ?s = Inr s'"
      using run release_handoff [OF i kw] ws(1) Cons by simp
    have "kinv ?s Q" "Q (MlockQueue i) = Some (w # xs)" using k ws(1) Cons by simp_all
    then have s': "kinv s' ?Q" "pcb s' = (pcb s)(w := (pcb s w)\<lparr>task_status := TASK_READY\<rparr>)"
      using do_unblock_inv [of ?s Q "MlockQueue i" w xs rs] rs r by (auto simp del: fun_upd_apply)
    have qi: "?Q (MlockQueue i) = Some xs" by simp
    have ml: "mlocks s' = (mlocks s)(i := (mlocks s i)\<lparr>owner := pid (pcb s w)\<rparr>)"
      using lstate_more(1) [OF do_unblock_more [OF r]] by simp
    have "w \<notin> set xs" using lq.rep_distinct [OF kwf_qrep [OF kw] ws(1)] Cons by simp
    then have "{q. (i, q) \<in> C - {(i, p)} \<union> {(i, v) |v. waiting s i v \<and> \<not> waiting s' i v}} = {w}"
      using in1 wait on_list_kinv [OF s'(1) qi] Cons by auto
    then have "mutex_inv s' (C - {(i, p)} \<union> {(i, v) |v. waiting s i v \<and> \<not> waiting s' i v}) ?Q"
      using locked by (intro mutex_invI [OF inv s'(1) i _ _ _ _ qi]) (auto simp: s'(2) ml mutex_ok_def)
    then show ?thesis by blast
  qed
qed

lemma timer_inv:
  assumes inv: "mutex_inv s C Q" and cpu: "cpu < CORE_NUM"
    and run: "handle_irq_timer cpu (s\<lparr>rdtime := t\<rparr>) = Inr s'"
  shows "\<exists>Q'. mutex_inv s' C Q'"
proof -
  have "kinv_call cpu (s\<lparr>rdtime := t\<rparr>) Q"
    using kinv_imp_call [OF mutex_inv_kinv [OF inv] cpu] by simp
  from handle_irq_timer_ok [OF this cpu] run obtain Q' where
    Q': "kinv s' Q'" "\<forall>x. pid (pcb s' x) = pid (pcb s x)"
    "\<forall>q. q \<noteq> ReadyQueue \<longrightarrow> q \<noteq> SleepQueue \<longrightarrow> Q' q = Q q" "kstate.more s' = kstate.more s"
    by auto
  have "mutex_inv s' C Q'"
    using inv Q' lstate_more(1) [OF Q'(4)] mutex_ok_cong [of "pcb s'" "pcb s"]
    unfolding mutex_inv_def by simp
  then show ?thesis by blast
qed

lemma mutex_step_inv:
  assumes "mutex_step (s, C) (s', C')" and inv: "mutex_inv s C Q"
  shows "\<exists>Q'. mutex_inv s' C' Q'"
  using assms(1)
proof cases
  case (acquire cpu p i)
  then show ?thesis using acquire_inv [OF inv, of cpu i s'] by (auto split: if_splits)
next
  case (release cpu p i)
  then show ?thesis using release_inv [OF inv, of i p s'] by simp
next
  case (timer cpu t)
  then show ?thesis using timer_inv [OF inv, of cpu t s'] by simp
qed

lemma mutex_steps_inv:
  "mutex_step\<^sup>*\<^sup>* (s, C) (s', C') \<Longrightarrow> mutex_inv s C Q \<Longrightarrow> \<exists>Q'. mutex_inv s' C' Q'"
  by (induction rule: rtranclp_induct2) (blast dest: mutex_step_inv)+


section \<open>Releasing whole queues\<close>

text \<open>
  The loop that unblocks a whole queue.  \<open>obs\<close> is a part of the state that the scheduler does not
  touch and that the extra statement of the loop changes by \<open>g\<close>.
\<close>

lemma unblock_all_ok:
  assumes f: "\<And>s. lists (f s) = lists s" "\<And>s. pcb (f s) = pcb s" "\<And>s. core_running (f s) = core_running s"
      "\<And>s. obs (f s) = g (obs s)"
    and obs: "\<And>s s'. kstate.more s' = kstate.more s \<Longrightarrow> obs s' = obs s"
    and "kinv s Q" and "Q q = Some xs" and "Q ReadyQueue = Some rs" and q: "q \<noteq> ReadyQueue"
    and "length xs < fuel"
  shows "\<exists>s'. unblock_all fuel q f s = Inr s' \<and> kinv s' (Q(q \<mapsto> [], ReadyQueue \<mapsto> rs @ xs)) \<and>
     (no_lost s Q \<longrightarrow> no_lost s' (Q(q \<mapsto> [], ReadyQueue \<mapsto> rs @ xs))) \<and>
     pcb s' = (\<lambda>p. if p \<in> set xs then (pcb s p)\<lparr>task_status := TASK_READY\<rparr> else pcb s p) \<and>
     core_running s' = core_running s \<and> obs s' = (g ^^ length xs) (obs s)"
  using assms(6,7,8,10)
proof (induction xs arbitrary: s Q rs fuel)
  case Nil
  have "queue_is_empty q s"
    using lq.rep_empty [OF kwf_qrep, of s Q q "[]"] Nil by (auto simp: kinv_def queue_is_empty_def)
  moreover have "Q(q \<mapsto> [], ReadyQueue \<mapsto> rs) = Q" using Nil.prems by auto
  ultimately show ?case using Nil.prems by (cases fuel) (auto simp del: fun_upd_apply)
next
  case (Cons p xs)
  obtain n where fuel: "fuel = Suc n" "length xs < n" using Cons.prems(4) by (cases fuel) auto
  have ne: "\<not> queue_is_empty q s"
    using lq.rep_empty [OF kwf_qrep, of s Q q "p # xs"] Cons.prems by (auto simp: kinv_def queue_is_empty_def)
  let ?Q = "Q(q \<mapsto> xs, ReadyQueue \<mapsto> rs @ [p])"
  obtain s1 where s1: "do_unblock q s = Inr s1" "kinv s1 ?Q" "no_lost s Q \<Longrightarrow> no_lost s1 ?Q"
    "pcb s1 = (pcb s)(p := (pcb s p)\<lparr>task_status := TASK_READY\<rparr>)" "core_running s1 = core_running s"
    using do_unblock_inv [OF Cons.prems(1,2) q Cons.prems(3)] by blast
  have k: "kinv (f s1) ?Q" "no_lost s Q \<Longrightarrow> no_lost (f s1) ?Q"
    using s1(2,3) kinv_cong [OF f(1-3)] by auto
  have Q': "?Q q = Some xs" "?Q ReadyQueue = Some (rs @ [p])" using q by simp_all
  have eQ: "?Q(q \<mapsto> [], ReadyQueue \<mapsto> (rs @ [p]) @ xs) = Q(q \<mapsto> [], ReadyQueue \<mapsto> rs @ p # xs)"
    using q by auto
  have pc: "(\<lambda>x. if x \<in> set xs then (pcb (f s1) x)\<lparr>task_status := TASK_READY\<rparr> else pcb (f s1) x) =
      (\<lambda>x. if x \<in> set (p # xs) then (pcb s x)\<lparr>task_status := TASK_READY\<rparr> else pcb s x)"
    by (auto simp: f s1(4))
  have "obs s1 = obs s" using do_unblock_more [OF s1(1)] by (rule obs)
  then have ob: "(g ^^ length xs) (obs (f s1)) = (g ^^ length (p # xs)) (obs s)"
    by (simp add: f(4) funpow_swap1)
  obtain s2 where s2: "unblock_all n q f (f s1) = Inr s2" "kinv s2 (Q(q \<mapsto> [], ReadyQueue \<mapsto> rs @ p # xs))"
    "no_lost (f s1) ?Q \<Longrightarrow> no_lost s2 (Q(q \<mapsto> [], ReadyQueue \<mapsto> rs @ p # xs))"
    "pcb s2 = (\<lambda>x. if x \<in> set (p # xs) then (pcb s x)\<lparr>task_status := TASK_READY\<rparr> else pcb s x)"
    "core_running s2 = core_running (f s1)" "obs s2 = (g ^^ length (p # xs)) (obs s)"
    using Cons.IH [OF k(1) Q' fuel(2)] unfolding eQ pc ob by blast
  have "unblock_all fuel q f s = Inr s2"
    by (simp add: fuel(1) ne s1(1) s2(1))
  moreover have "core_running s2 = core_running s" by (simp add: s2(5) f(3) s1(5))
  ultimately show ?case using s2(2,3,4,6) k(2) by blast
qed

section \<open>Barriers\<close>

text \<open>
  \<open>barrier_inv\<close>: a barrier for \<open>goal\<close> processes with \<open>xs\<close> waiting counts the ones still to come.
\<close>

definition barrier_inv :: "'s lstate_scheme \<Rightarrow> (qid \<rightharpoonup> pcb_ref list) \<Rightarrow> nat \<Rightarrow> nat \<Rightarrow> pcb_ref list \<Rightarrow> bool" where
  "barrier_inv s Q i goal xs \<longleftrightarrow>
     Q (BarrierQueue i) = Some xs \<and> barrier_num (barriers s i) = int goal - int (length xs) \<and> length xs < goal"

lemma kwf_fuel: "kwf s Q \<Longrightarrow> Q q = Some xs \<Longrightarrow> length xs < QUEUE_FUEL"
  using kwf_length [of s Q q xs] by (simp add: QUEUE_FUEL_def NUM_MAX_TASK_def)

lemma barrier_incr:
  "((\<lambda>b. b(i := barrier_num_update (\<lambda>n. n + 1) (b i))) ^^ k) b =
   b(i := barrier_num_update (\<lambda>n. n + int k) (b i))"
proof (induction k)
  case (Suc k)
  show ?case unfolding funpow.simps comp_def Suc.IH by (auto simp: add.assoc)
qed (auto intro!: ext)

lemma barrier_last:
  assumes k: "kinv s Q" and n: "no_lost s Q" and cpu: "cpu < CORE_NUM" and i: "i < BARRIER_NUM"
    and b: "barrier_inv s Q i goal xs" and last: "length xs + 1 = goal"
  shows "\<exists>s' Q'. do_barrier_wait cpu (int i) s = Inr s' \<and> kinv s' Q' \<and> no_lost s' Q' \<and>
     barrier_inv s' Q' i goal [] \<and>
     (\<forall>p \<in> set xs. p \<in> set (the (Q' ReadyQueue)) \<or> core_running s' cpu = p)"
proof -
  obtain ss rs where q: "Q SleepQueue = Some ss" "Q ReadyQueue = Some rs"
    using k by (auto simp: kinv_def kwf_def)
  have bq: "Q (BarrierQueue i) = Some xs" and num: "barrier_num (barriers s i) = 1"
    using b last by (auto simp: barrier_inv_def)
  let ?Q = "Q(BarrierQueue i \<mapsto> [], ReadyQueue \<mapsto> rs @ xs)"
  let ?f = "upd_barrier i (barrier_num_update (\<lambda>n. n + 1))"
  have fuel: "length xs < QUEUE_FUEL" using k kwf_fuel [of s Q, OF _ bq] by (simp add: kinv_def)
  obtain s1 where s1: "unblock_all QUEUE_FUEL (BarrierQueue i) ?f s = Inr s1" "kinv s1 ?Q" "no_lost s1 ?Q"
    "barriers s1 = (barriers s)(i := barrier_num_update (\<lambda>n. n + int (length xs)) (barriers s i))"
    using unblock_all_ok [of ?f barriers "\<lambda>b. b(i := barrier_num_update (\<lambda>n. n + 1) (b i))",
        OF _ _ _ _ lstate_more(2) k bq q(2) _ fuel] n by (auto simp: barrier_incr simp del: fun_upd_apply)
  have q1: "?Q SleepQueue = Some ss" "?Q ReadyQueue = Some (rs @ xs)" using q by simp_all
  note kc = kinv_imp_call [OF s1(2) cpu]
  let ?Q2 = "sched_queues cpu s1 ss (rs @ xs) ?Q"
  obtain s2 where s2: "do_scheduler cpu s1 = Inr s2" "kinv s2 ?Q2" "pcb s2 = sched_pcbs cpu s1 ss (rs @ xs)"
    "core_running s2 = (core_running s1)(cpu := sched_next cpu s1 ss (rs @ xs))"
    using do_scheduler_kinv [OF kc cpu q1] by blast
  have nl: "no_lost s2 ?Q2" by (rule do_scheduler_no_lost [OF kc cpu q1 s1(3) s2(2,3,4)])
  have "barriers s2 = barriers s1" using do_scheduler_more [OF s2(1)] by (rule lstate_more)
  then have "barrier_inv s2 ?Q2 i goal []"
    using num last by (simp add: barrier_inv_def s1(4) sched_queues_def)
  moreover have "p \<in> set (the (?Q2 ReadyQueue)) \<or> core_running s2 cpu = p" if "p \<in> set xs" for p
    using that by (cases "chosen cpu s1 ss (rs @ xs)")
      (auto simp: s2(4) sched_queues_def sched_next_def ready_after_def remove1_append)
  moreover have "do_barrier_wait cpu (int i) s = Inr s2"
    using i num s1(1) s2(1) by (simp add: do_barrier_wait_def)
  ultimately show ?thesis using s2(2) nl by blast
qed

lemma barrier_early:
  assumes k: "kinv s Q" and n: "no_lost s Q" and cpu: "cpu < CORE_NUM" and i: "i < BARRIER_NUM"
    and cur: "pid (pcb s (core_running s cpu)) \<noteq> 0"
    and b: "barrier_inv s Q i goal xs" and more: "length xs + 1 < goal"
  shows "\<exists>s' Q'. do_barrier_wait cpu (int i) s = Inr s' \<and> kinv s' Q' \<and> no_lost s' Q' \<and>
     barrier_inv s' Q' i goal (xs @ [core_running s cpu])"
proof -
  obtain ss rs where q: "Q SleepQueue = Some ss" "Q ReadyQueue = Some rs"
    using k by (auto simp: kinv_def kwf_def)
  have bq: "Q (BarrierQueue i) = Some xs" and num: "barrier_num (barriers s i) \<noteq> 1"
    using b more by (auto simp: barrier_inv_def)
  let ?c = "core_running s cpu" and ?s = "block_state cpu (task_status_update (\<lambda>_. TASK_BLOCKED)) s"
  let ?Q = "Q(BarrierQueue i \<mapsto> xs @ [?c])"
  obtain h where h: "add_queue (BarrierQueue i) ?c ?s = Inr (?s\<lparr>lists := h\<rparr>)"
    "kinv_call cpu (?s\<lparr>lists := h\<rparr>) ?Q" "no_lost (?s\<lparr>lists := h\<rparr>) ?Q"
    using enter_queue [OF k cpu cur bq, of "task_status_update (\<lambda>_. TASK_BLOCKED)"] n by auto
  let ?s1 = "upd_barrier i (barrier_num_update (\<lambda>n. n - 1)) (?s\<lparr>lists := h\<rparr>)"
  have kc: "kinv_call cpu ?s1 ?Q" "no_lost ?s1 ?Q" using h by simp_all
  have q1: "?Q SleepQueue = Some ss" "?Q ReadyQueue = Some rs" using q by simp_all
  let ?Q2 = "sched_queues cpu ?s1 ss rs ?Q"
  obtain s2 where s2: "do_scheduler cpu ?s1 = Inr s2" "kinv s2 ?Q2" "pcb s2 = sched_pcbs cpu ?s1 ss rs"
    "core_running s2 = (core_running ?s1)(cpu := sched_next cpu ?s1 ss rs)"
    using do_scheduler_kinv [OF kc(1) cpu q1] by blast
  have nl: "no_lost s2 ?Q2" by (rule do_scheduler_no_lost [OF kc(1) cpu q1 kc(2) s2(2,3,4)])
  have "barriers s2 = barriers ?s1" using do_scheduler_more [OF s2(1)] by (rule lstate_more)
  then have "barrier_inv s2 ?Q2 i goal (xs @ [?c])"
    using b more by (simp add: barrier_inv_def sched_queues_def block_state_def)
  moreover have "do_barrier_wait cpu (int i) s = Inr s2"
    using i num h(1) s2(1) by (simp add: do_barrier_wait_def block_state_def)
  ultimately show ?thesis using s2(2) nl by blast
qed


section \<open>Condition variables\<close>

text \<open>
  Taking the first process of a queue off it and appending it to another one, with changes of the
  state in between that touch only its PCB and the arrays of this theory.
\<close>

lemma get_head_ok: "kwf s Q \<Longrightarrow> Q q = Some (p # xs) \<Longrightarrow> get_head q s = Inr (p, del_queue p s)"
  by (simp add: get_head_def lq.first_entry [OF kwf_qrep])

lemma move_ok:
  assumes k: "kinv s Q" and q: "Q q = Some (p # xs)" and r: "(Q(q \<mapsto> xs)) r = Some zs"
    and s1: "lists s1 = lists (del_queue p s)" "pcb s1 = (pcb s)(p := f (pcb s p))"
      "core_running s1 = core_running s" "pid (f (pcb s p)) = pid (pcb s p)"
  shows "\<exists>h. add_queue r p s1 = Inr (s1\<lparr>lists := h\<rparr>) \<and> kinv (s1\<lparr>lists := h\<rparr>) (Q(q \<mapsto> xs, r \<mapsto> zs @ [p])) \<and>
     (no_lost s Q \<longrightarrow> no_lost (s1\<lparr>lists := h\<rparr>) (Q(q \<mapsto> xs, r \<mapsto> zs @ [p])))"
proof -
  have kw: "kwf s Q" using k by (simp add: kinv_def)
  have q0: "Q q = Some ([] @ p # xs)" "(Q(q \<mapsto> [] @ xs)) r = Some zs" using q r by simp_all
  have "kwf s1 (Q(q \<mapsto> [] @ xs))"
    using del_queue_ok [OF kw q0(1)] s1 by (subst kwf_cong [of _ "del_queue p s"]) (auto simp: del_queue_def)
  moreover have "p \<notin> queued (Q(q \<mapsto> [] @ xs))"
    unfolding lq.queued_del [OF kwf_qrep [OF kw] q0(1)] by simp
  moreover have p: "p \<in> queued Q" using queued_member [of Q, OF q] by simp
  then have "p \<in> tasks16" using kw by (auto simp: kwf_def)
  ultimately obtain h where h: "add_queue r p s1 = Inr (s1\<lparr>lists := h\<rparr>)"
    "kwf (s1\<lparr>lists := h\<rparr>) (Q(q \<mapsto> [] @ xs, r \<mapsto> zs @ [p]))"
    using add_queue_ok [of s1 "Q(q \<mapsto> [] @ xs)" r zs p] q0(2) by blast
  have h': "kwf (s1\<lparr>lists := h\<rparr>) (Q(q \<mapsto> xs, r \<mapsto> zs @ [p]))" using h(2) by (simp del: fun_upd_apply)
  have "queued (Q(q \<mapsto> xs, r \<mapsto> zs @ [p])) = queued Q"
    using queued_move [of s Q q "[]" p xs r zs, OF kw] q0 by (simp del: fun_upd_apply)
  note inv = moved_inv [OF this p h', of s f]
  have "kinv (s1\<lparr>lists := h\<rparr>) (Q(q \<mapsto> xs, r \<mapsto> zs @ [p]))" using inv(1) k s1 by (simp del: fun_upd_apply)
  moreover have "no_lost s Q \<longrightarrow> no_lost (s1\<lparr>lists := h\<rparr>) (Q(q \<mapsto> xs, r \<mapsto> zs @ [p]))"
    using inv(2) s1 by (simp del: fun_upd_apply)
  ultimately show ?thesis using h(1) by blast
qed

lemma broadcast_locked:
  assumes "kinv s Q" and "no_lost s Q" and "Q (CondQueue i) = Some xs" and "Q (MlockQueue l) = Some ms"
    and l: "l < LOCK_NUM" and "status (mlock (mlocks s l)) = LOCKED" and "length xs < fuel"
  shows "\<exists>s'. broadcast_loop fuel i (int l) s = Inr s' \<and> kinv s' (Q(CondQueue i \<mapsto> [], MlockQueue l \<mapsto> ms @ xs)) \<and>
     no_lost s' (Q(CondQueue i \<mapsto> [], MlockQueue l \<mapsto> ms @ xs)) \<and> kstate.more s' = kstate.more s \<and>
     core_running s' = core_running s \<and> (\<forall>p. pid (pcb s' p) = pid (pcb s p))"
  using assms(1,2,3,4,6,7)
proof (induction xs arbitrary: s Q ms fuel)
  case Nil
  have "queue_is_empty (CondQueue i) s"
    using lq.rep_empty [OF kwf_qrep, of s Q "CondQueue i" "[]"] Nil by (auto simp: kinv_def queue_is_empty_def)
  moreover have "Q(CondQueue i \<mapsto> [], MlockQueue l \<mapsto> ms) = Q" using Nil.prems by auto
  ultimately show ?case using Nil.prems by (cases fuel) (auto simp del: fun_upd_apply)
next
  case (Cons p xs)
  obtain n where fuel: "fuel = Suc n" "length xs < n" using Cons.prems(6) by (cases fuel) auto
  have kw: "kwf s Q" using Cons.prems(1) by (simp add: kinv_def)
  have ne: "\<not> queue_is_empty (CondQueue i) s"
    using lq.rep_empty [OF kwf_qrep [OF kw] Cons.prems(3)] by (simp add: queue_is_empty_def)
  let ?Q = "Q(CondQueue i \<mapsto> xs, MlockQueue l \<mapsto> ms @ [p])"
  let ?s1 = "set_status p TASK_BLOCKED (del_queue p s)"
  have r: "(Q(CondQueue i \<mapsto> xs)) (MlockQueue l) = Some ms" using Cons.prems(4) by simp
  obtain h where h: "add_queue (MlockQueue l) p ?s1 = Inr (?s1\<lparr>lists := h\<rparr>)" "kinv (?s1\<lparr>lists := h\<rparr>) ?Q"
    "no_lost (?s1\<lparr>lists := h\<rparr>) ?Q"
    using move_ok [OF Cons.prems(1,3) r, of ?s1 "task_status_update (\<lambda>_. TASK_BLOCKED)"] Cons.prems(2)
    by (auto simp: del_queue_def simp del: fun_upd_apply)
  let ?s2 = "?s1\<lparr>lists := h\<rparr>"
  have m: "kstate.more ?s2 = kstate.more s" by simp
  have st: "status (mlock (mlocks ?s2 l)) = LOCKED" using Cons.prems(5) lstate_more(1) [OF m] by simp
  have q1: "?Q (CondQueue i) = Some xs" "?Q (MlockQueue l) = Some (ms @ [p])" by simp_all
  have eQ: "?Q(CondQueue i \<mapsto> [], MlockQueue l \<mapsto> (ms @ [p]) @ xs) =
      Q(CondQueue i \<mapsto> [], MlockQueue l \<mapsto> ms @ p # xs)" by auto
  obtain s3 where s3: "broadcast_loop n i (int l) ?s2 = Inr s3"
    "kinv s3 (Q(CondQueue i \<mapsto> [], MlockQueue l \<mapsto> ms @ p # xs))"
    "no_lost s3 (Q(CondQueue i \<mapsto> [], MlockQueue l \<mapsto> ms @ p # xs))" "kstate.more s3 = kstate.more ?s2"
    "core_running s3 = core_running ?s2" "\<forall>p. pid (pcb s3 p) = pid (pcb ?s2 p)"
    using Cons.IH [OF h(2,3) q1 st fuel(2)] unfolding eQ by blast
  have "\<not> spin_lock_try_acquire (mlock (mlocks (del_queue p s) l))"
    using Cons.prems(5) lstate_more(1) [of "del_queue p s" s] by (simp add: spin_lock_try_acquire_def)
  then have "broadcast_loop fuel i (int l) s = Inr s3"
    using s3(1) h(1) ne l by (simp add: fuel(1) get_head_ok [OF kw Cons.prems(3)])
  moreover have "core_running s3 = core_running s" "\<forall>p. pid (pcb s3 p) = pid (pcb s p)"
    using s3(5,6) by (auto simp: del_queue_def)
  ultimately show ?case using s3(2,3) s3(4) [unfolded m] by blast
qed


lemma broadcast_free:
  assumes k: "kinv s Q" and n: "no_lost s Q" and c: "Q (CondQueue i) = Some (p # xs)"
    and ms: "Q (MlockQueue l) = Some ms" and rs: "Q ReadyQueue = Some rs"
    and l: "l < LOCK_NUM" and free: "status (mlock (mlocks s l)) = UNLOCKED" and fuel: "length (p # xs) < fuel"
  shows "\<exists>s'. broadcast_loop fuel i (int l) s = Inr s' \<and>
     kinv s' (Q(ReadyQueue \<mapsto> rs @ [p], CondQueue i \<mapsto> [], MlockQueue l \<mapsto> ms @ xs)) \<and>
     no_lost s' (Q(ReadyQueue \<mapsto> rs @ [p], CondQueue i \<mapsto> [], MlockQueue l \<mapsto> ms @ xs)) \<and>
     status (mlock (mlocks s' l)) = LOCKED \<and> owner (mlocks s' l) = pid (pcb s p) \<and>
     core_running s' = core_running s \<and> (\<forall>p. pid (pcb s' p) = pid (pcb s p))"
proof -
  have kw: "kwf s Q" using k by (simp add: kinv_def)
  obtain n' where n': "fuel = Suc n'" "length xs < n'" using fuel by (cases fuel) auto
  have ne: "\<not> queue_is_empty (CondQueue i) s"
    using lq.rep_empty [OF kwf_qrep [OF kw] c] by (simp add: queue_is_empty_def)
  let ?s0 = "upd_mlock l (mlock_update spin_lock_acquire) (del_queue p s)"
  let ?s1 = "upd_mlock l (owner_update (\<lambda>_. pid (pcb s p))) ?s0"
  have r: "(Q(CondQueue i \<mapsto> xs)) ReadyQueue = Some rs" using rs by simp
  let ?Q = "Q(CondQueue i \<mapsto> xs, ReadyQueue \<mapsto> rs @ [p])"
  obtain h where h: "add_queue ReadyQueue p ?s1 = Inr (?s1\<lparr>lists := h\<rparr>)" "kinv (?s1\<lparr>lists := h\<rparr>) ?Q"
    "no_lost (?s1\<lparr>lists := h\<rparr>) ?Q"
    using move_ok [OF k c r, of ?s1 id] n by (auto simp: del_queue_def simp del: fun_upd_apply)
  let ?s2 = "?s1\<lparr>lists := h\<rparr>"
  have ml: "mlocks ?s2 l = (mlock_update spin_lock_acquire (mlocks s l))\<lparr>owner := pid (pcb s p)\<rparr>"
    by (simp add: del_queue_def)
  have q1: "?Q (CondQueue i) = Some xs" "?Q (MlockQueue l) = Some ms" using ms by simp_all
  have eQ: "?Q(CondQueue i \<mapsto> [], MlockQueue l \<mapsto> ms @ xs) =
      Q(ReadyQueue \<mapsto> rs @ [p], CondQueue i \<mapsto> [], MlockQueue l \<mapsto> ms @ xs)" by auto
  have st: "status (mlock (mlocks ?s2 l)) = LOCKED" unfolding ml by (simp add: spin_lock_acquire_def)
  obtain s3 where s3: "broadcast_loop n' i (int l) ?s2 = Inr s3"
    "kinv s3 (Q(ReadyQueue \<mapsto> rs @ [p], CondQueue i \<mapsto> [], MlockQueue l \<mapsto> ms @ xs))"
    "no_lost s3 (Q(ReadyQueue \<mapsto> rs @ [p], CondQueue i \<mapsto> [], MlockQueue l \<mapsto> ms @ xs))"
    "kstate.more s3 = kstate.more ?s2" "core_running s3 = core_running ?s2" "\<forall>p. pid (pcb s3 p) = pid (pcb ?s2 p)"
    using broadcast_locked [OF h(2,3) q1 l st n'(2)] unfolding eQ by blast
  have tr: "spin_lock_try_acquire (mlock (mlocks (del_queue p s) l))"
    using free lstate_more(1) [of "del_queue p s" s] by (simp add: spin_lock_try_acquire_def)
  have "pcb ?s0 p = pcb s p" by (simp add: del_queue_def)
  then have "broadcast_loop fuel i (int l) s = Inr s3"
    using s3(1) h(1) ne l tr by (simp add: n'(1) get_head_ok [OF kw c])
  moreover have "status (mlock (mlocks s3 l)) = LOCKED" "owner (mlocks s3 l) = pid (pcb s p)"
    unfolding lstate_more(1) [OF s3(4)] ml by (simp_all add: spin_lock_acquire_def)
  moreover have "core_running s3 = core_running s" "\<forall>p. pid (pcb s3 p) = pid (pcb s p)"
    using s3(5,6) by (auto simp: del_queue_def)
  ultimately show ?thesis using s3(2,3) by blast
qed

text \<open>
  \<open>do_condition_signal\<close> with the mutex free: the signalled process is off every queue and no core
  runs it.
\<close>

lemma signal_free:
  assumes k: "kinv s Q" and i: "i < CONDITION_NUM" and c: "Q (CondQueue i) = Some (p # xs)"
    and l: "lock_idx (conditions s i) = int l" "l < LOCK_NUM" and free: "status (mlock (mlocks s l)) = UNLOCKED"
  shows "\<exists>s'. do_condition_signal cpu (int i) s = Inr s' \<and> kinv s' (Q(CondQueue i \<mapsto> xs)) \<and>
     p \<notin> queued (Q(CondQueue i \<mapsto> xs)) \<and> pcb s' = pcb s \<and> core_running s' = core_running s \<and>
     owner (mlocks s' l) = pid (pcb s p)"
proof -
  have kw: "kwf s Q" using k by (simp add: kinv_def)
  have c0: "Q (CondQueue i) = Some ([] @ p # xs)" using c by simp
  let ?s0 = "upd_mlock l (mlock_update spin_lock_acquire) (del_queue p s)"
  let ?s1 = "upd_mlock l (owner_update (\<lambda>_. pid (pcb s p))) ?s0"
  have m: "kstate.more (del_queue p s) = kstate.more s" by simp
  have "do_condition_signal cpu (int i) s = Inr ?s1"
    using i l free lstate_more(1,3) [OF m]
    by (simp add: do_condition_signal_def get_head_ok [OF kw c] spin_lock_try_acquire_def Let_def)
      (simp add: del_queue_def)
  moreover have qd: "queued (Q(CondQueue i \<mapsto> xs)) = queued Q - {p}"
    using lq.queued_del [OF kwf_qrep [OF kw] c0] by simp
  have "kwf (del_queue p s) (Q(CondQueue i \<mapsto> xs))"
    using del_queue_ok [OF kw c0] by (simp del: fun_upd_apply)
  then have "kinv (del_queue p s) (Q(CondQueue i \<mapsto> xs))"
    using k unfolding kinv_def qd by (auto simp: del_queue_def)
  then have "kinv ?s1 (Q(CondQueue i \<mapsto> xs))" by (simp del: fun_upd_apply)
  moreover have "p \<notin> queued (Q(CondQueue i \<mapsto> xs))" unfolding qd by simp
  moreover have "pcb ?s1 = pcb s" "core_running ?s1 = core_running s" "owner (mlocks ?s1 l) = pid (pcb s p)"
    by (simp_all add: del_queue_def)
  ultimately show ?thesis by blast
qed

section \<open>The big kernel lock\<close>

text \<open>The two cores enter and leave the kernel; each round of the spinning loop is one step.\<close>

datatype core_pc = Outside | Spinning | Inside

inductive kernel_step :: "spin_lock_t \<times> (nat \<Rightarrow> core_pc) \<Rightarrow> spin_lock_t \<times> (nat \<Rightarrow> core_pc) \<Rightarrow> bool" where
  trap: "pc c = Outside \<Longrightarrow> kernel_step (l, pc) (l, pc(c := Spinning))"
| spin: "pc c = Spinning \<Longrightarrow> lock_kernel_step l = (won, l') \<Longrightarrow>
     kernel_step (l, pc) (l', pc(c := if won then Inside else Spinning))"
| leave: "pc c = Inside \<Longrightarrow> kernel_step (l, pc) (unlock_kernel l, pc(c := Outside))"

definition kernel_ok :: "spin_lock_t \<times> (nat \<Rightarrow> core_pc) \<Rightarrow> bool" where
  "kernel_ok x \<longleftrightarrow>
     (case status (fst x) of
        UNLOCKED \<Rightarrow> {c. snd x c = Inside} = {}
      | LOCKED \<Rightarrow> (\<exists>c. {d. snd x d = Inside} = {c}))"

lemma inside_upd:
  "{d. (pc(c := v)) d = Inside} = (if v = Inside then insert c {d. pc d = Inside} else {d. pc d = Inside} - {c})"
  by auto

lemma kernel_step_ok:
  assumes "kernel_step x y" and "kernel_ok x"
  shows "kernel_ok y"
  using assms(1)
proof cases
  case (trap pc c l)
  then have "{d. (pc(c := Spinning)) d = Inside} = {d. pc d = Inside}" by auto
  with trap assms(2) show ?thesis by (cases "status l") (simp_all add: kernel_ok_def del: fun_upd_apply)
next
  case (spin pc c l won l')
  then have "{d. (pc(c := Spinning)) d = Inside} = {d. pc d = Inside}"
    "{d. (pc(c := Inside)) d = Inside} = insert c {d. pc d = Inside}" by auto
  with spin assms(2) show ?thesis
    by (cases "status l")
      (auto simp: kernel_ok_def lock_kernel_step_def atomic_swap_def simp del: fun_upd_apply)
next
  case (leave pc c l)
  then have c: "c \<in> {d. pc d = Inside}" by simp
  with leave assms(2) have "status l = LOCKED" "{d. pc d = Inside} = {c}"
    by (cases "status l"; auto simp: kernel_ok_def)+
  with leave show ?thesis
    by (simp add: kernel_ok_def unlock_kernel_def atomic_swap_def inside_upd del: fun_upd_apply)
qed

lemma kernel_steps_ok: "kernel_step\<^sup>*\<^sup>* x y \<Longrightarrow> kernel_ok x \<Longrightarrow> kernel_ok y"
  by (induction rule: rtranclp_induct) (blast dest: kernel_step_ok)+


section \<open>Initialisation\<close>

lemma init_queue_ok:
  assumes "kinv s Q" and "Q q = None \<or> Q q = Some []"
  shows "kinv (init_queue q s) (Q(q \<mapsto> []))"
proof -
  have "queued (Q(q \<mapsto> [])) = queued Q"
    by (rule set_eqI) (use assms(2) in \<open>auto simp: queued_upd, auto simp: queued_def, force+\<close>)
  moreover have "qrep (init_list_head (lists s) (Head q)) (Q(q \<mapsto> []))"
    using assms by (intro lq.rep_init) (simp_all add: kinv_def kwf_def)
  ultimately show ?thesis
    using assms(1) unfolding kinv_def kwf_def init_queue_def by auto
qed

lemma init_queue_sel [simp]:
  "pcb (init_queue q s) = pcb s" "core_running (init_queue q s) = core_running s"
  "mlocks (init_queue q s) = mlocks s"
  by (simp_all add: init_queue_def)

lemma init_lock_ok:
  assumes "kinv s Q" and "Q (MlockQueue i) = None \<or> Q (MlockQueue i) = Some []"
  shows "kinv (init_lock i s) (Q(MlockQueue i \<mapsto> []))"
    and "status (mlock (mlocks (init_lock i s) i)) = UNLOCKED" and "owner (mlocks (init_lock i s) i) = - 1"
    and "j \<noteq> i \<Longrightarrow> mlocks (init_lock i s) j = mlocks s j"
  using init_queue_ok [OF assms] by (simp_all add: init_lock_def Let_def spin_lock_init_def del: fun_upd_apply)
    (simp_all add: fun_upd_apply spin_lock_init_def)

lemma init_locks_ok:
  assumes "kinv s Q" and "\<forall>i < LOCK_NUM. Q (MlockQueue i) = None \<or> Q (MlockQueue i) = Some []"
  shows "\<exists>Q'. kinv (init_locks s) Q' \<and>
     (\<forall>i < LOCK_NUM. Q' (MlockQueue i) = Some [] \<and> status (mlock (mlocks (init_locks s) i)) = UNLOCKED)"
proof -
  have "\<exists>Q'. kinv (fold init_lock [0..<n] s) Q' \<and>
      (\<forall>i < LOCK_NUM. Q' (MlockQueue i) = None \<or> Q' (MlockQueue i) = Some []) \<and>
      (\<forall>i < n. Q' (MlockQueue i) = Some [] \<and> status (mlock (mlocks (fold init_lock [0..<n] s) i)) = UNLOCKED)"
    if "n \<le> LOCK_NUM" for n
    using that
  proof (induction n)
    case 0
    with assms show ?case by auto
  next
    case (Suc n)
    then obtain Q1 where Q1: "kinv (fold init_lock [0..<n] s) Q1"
      "\<forall>i < LOCK_NUM. Q1 (MlockQueue i) = None \<or> Q1 (MlockQueue i) = Some []"
      "\<forall>i < n. Q1 (MlockQueue i) = Some [] \<and> status (mlock (mlocks (fold init_lock [0..<n] s) i)) = UNLOCKED"
      by auto
    with Suc.prems have "Q1 (MlockQueue n) = None \<or> Q1 (MlockQueue n) = Some []" by auto
    note step = init_lock_ok [OF Q1(1) this]
    show ?case
      using Q1(2,3) step by (intro exI [of _ "Q1(MlockQueue n \<mapsto> [])"])
        (auto simp: less_Suc_eq simp del: fun_upd_apply, auto)
  qed
  from this [of LOCK_NUM] show ?thesis unfolding init_locks_def by blast
qed

lemma mutex_inv_initial:
  assumes "kinv s Q" and "\<forall>i < LOCK_NUM. Q (MlockQueue i) = Some [] \<and> status (mlock (mlocks s i)) = UNLOCKED"
  shows "mutex_inv s {} Q"
  using assms by (simp add: mutex_inv_def mutex_ok_def)

lemma find_mlock_first:
  assumes "i \<in> set is" and "\<And>j. j \<in> set is \<Longrightarrow> j < i \<Longrightarrow> mkey (ms j) \<noteq> k \<and> owner (ms j) \<noteq> - 1"
    and "mkey (ms i) \<noteq> k" and "owner (ms i) = - 1" and "sorted is"
  shows "find_mlock k ms is = Some (i, False)"
  using assms
proof (induction "is")
  case (Cons a "is")
  show ?case
  proof (cases "a = i")
    case False
    with Cons.prems(1,5) have "a < i" by fastforce
    with Cons.prems False have "mkey (ms a) \<noteq> k" "owner (ms a) \<noteq> - 1" "i \<in> set is" by auto
    then show ?thesis using Cons by simp
  qed (use Cons.prems in simp)
qed simp

section \<open>A concrete state\<close>

definition boot_lstate :: lstate where
  "boot_lstate =
     \<lparr>lists = boot_lists, pcb = boot_pcbs, core_running = (\<lambda>c. if c = 0 then Pcb 0 else Pid0Slave),
      process_id = 17, rdtime = 0, time_elapsed = 0, time_base = 1, satp = (\<lambda>_. 0), bios_timer = (\<lambda>_. 0),
      mlocks = (\<lambda>_. \<lparr>mlock = \<lparr>status = UNLOCKED\<rparr>, owner = - 1, mkey = 0\<rparr>),
      barriers = (\<lambda>_. \<lparr>bkey = 1, barrier_num = 1\<rparr>),
      conditions = (\<lambda>_. \<lparr>cond_key = 1, lock_idx = 0, cvalid = True\<rparr>),
      mboxs = (\<lambda>_. \<lparr>valid = True, mhead = 0, mtail = 0, user_num = 0, mblock = \<lparr>status = UNLOCKED\<rparr>\<rparr>),
      kmem = (\<lambda>(b, i). of_nat i)\<rparr>"

lemma boot_lstate_ok:
  "kinv boot_lstate (\<lambda>_. Some [])" "no_lost boot_lstate (\<lambda>_. Some [])"
  using kinv_boot [of boot_lstate] by (simp_all add: boot_lstate_def)

lemma boot_lstate_sel:
  "pcb boot_lstate = boot_pcbs" "core_running boot_lstate 0 = Pcb 0"
  "core_running boot_lstate (Suc 0) = Pid0Slave" "pid (boot_pcbs (Pcb n)) = int n + 1"
  by (simp_all add: boot_lstate_def boot_pcbs_def boot_pcb_def)

text \<open>Process 2 (\<open>pcb[1]\<close>) waits on one queue.\<close>

definition one_waits :: "qid \<Rightarrow> lstate" where
  "one_waits q = ready_on q (Pcb 1) boot_lstate"

lemma one_waits_ok:
  "kinv (one_waits q) ((\<lambda>_. Some [])(q \<mapsto> [Pcb 1]))" "no_lost (one_waits q) ((\<lambda>_. Some [])(q \<mapsto> [Pcb 1]))"
  "mlocks (one_waits q) = mlocks boot_lstate" "barriers (one_waits q) = barriers boot_lstate"
  "conditions (one_waits q) = conditions boot_lstate" "core_running (one_waits q) = core_running boot_lstate"
  "\<And>p. pid (pcb (one_waits q) p) = pid (boot_pcbs p)" "alive (pcb (one_waits q) (Pcb 1))"
proof -
  have "\<forall>c < CORE_NUM. core_running boot_lstate c \<noteq> Pcb 1" by (simp add: boot_lstate_def)
  note * = ready_on_ok [OF boot_lstate_ok refl _ _ this, of q, folded one_waits_def]
  note r = * [simplified NUM_MAX_TASK_def boot_lstate_sel, simplified]
  have m: "kstate.more (one_waits q) = kstate.more boot_lstate" using r by simp
  show "kinv (one_waits q) ((\<lambda>_. Some [])(q \<mapsto> [Pcb 1]))" "no_lost (one_waits q) ((\<lambda>_. Some [])(q \<mapsto> [Pcb 1]))"
    using r by (simp_all del: fun_upd_apply)
  show "mlocks (one_waits q) = mlocks boot_lstate" "barriers (one_waits q) = barriers boot_lstate"
    "conditions (one_waits q) = conditions boot_lstate"
    using m by (rule lstate_more)+
  show "core_running (one_waits q) = core_running boot_lstate" using r by simp
  show "\<And>p. pid (pcb (one_waits q) p) = pid (boot_pcbs p)" using r by simp
  show "alive (pcb (one_waits q) (Pcb 1))" using r by (simp add: alive_def)
qed


section \<open>Properties\<close>

text \<open>
  C3: Mutual exclusion.  After \<open>init_locks\<close>, however the processes on both cores call
  \<open>do_mutex_lock_acquire\<close> and \<open>do_mutex_lock_release\<close> and however timer interrupts fall in between,
  at most one process is inside the critical section of a mutex; the mutex is then locked and its
  \<open>owner\<close> field is that process's number.
\<close>

theorem mutex_mutual_exclusion:
  assumes "kinv s Q" and "\<forall>i < LOCK_NUM. Q (MlockQueue i) = None \<or> Q (MlockQueue i) = Some []"
    and "mutex_step\<^sup>*\<^sup>* (init_locks s, {}) (s', C)" and "i < LOCK_NUM" and "(i, p) \<in> C"
  shows "{q. (i, q) \<in> C} = {p} \<and> status (mlock (mlocks s' i)) = LOCKED \<and> owner (mlocks s' i) = pid (pcb s' p)"
proof -
  obtain Q0 where "kinv (init_locks s) Q0"
    "\<forall>i < LOCK_NUM. Q0 (MlockQueue i) = Some [] \<and> status (mlock (mlocks (init_locks s) i)) = UNLOCKED"
    using init_locks_ok [OF assms(1,2)] by blast
  then have "mutex_inv (init_locks s) {} Q0" by (rule mutex_inv_initial)
  then obtain Q' where "mutex_inv s' C Q'" using mutex_steps_inv [OF assms(3)] by blast
  then obtain ws where "mutex_ok (mlocks s' i) (pcb s') ws {p. (i, p) \<in> C}"
    by (rule mutex_invD [OF _ assms(4)])
  moreover have p: "p \<in> {p. (i, p) \<in> C}" using assms(5) by simp
  ultimately obtain q where q: "{p. (i, p) \<in> C} = {q}" "status (mlock (mlocks s' i)) = LOCKED"
    "owner (mlocks s' i) = pid (pcb s' q)"
    by (cases "status (mlock (mlocks s' i))") (auto simp: mutex_ok_def)
  with p have "q = p" by simp
  with q show ?thesis by simp
qed

theorem mutex_mutual_exclusion_witness:
  "\<exists>s' C. mutex_step\<^sup>*\<^sup>* (init_locks boot_lstate, {}) (s', C) \<and> (3, Pcb 0) \<in> C \<and>
     status (mlock (mlocks s' 3)) = LOCKED \<and> (3, Pcb 1) \<notin> C"
proof -
  let ?s = "init_locks boot_lstate"
  have "\<forall>i < LOCK_NUM. (Some [] :: pcb_ref list option) = None \<or> Some [] = (Some [] :: pcb_ref list option)"
    by simp
  then obtain Q0 where Q0: "kinv ?s Q0"
    "\<forall>i < LOCK_NUM. Q0 (MlockQueue i) = Some [] \<and> status (mlock (mlocks ?s i)) = UNLOCKED"
    using init_locks_ok [OF boot_lstate_ok(1)] by blast
  have f: "core_running (fold init_lock ns s) = core_running s \<and> pcb (fold init_lock ns s) = pcb s" for ns s
    by (induction ns arbitrary: s) (simp_all add: init_lock_def Let_def)
  have c: "core_running ?s 0 = Pcb 0" "pid (pcb ?s (Pcb 0)) \<noteq> 0"
    using f [of "[0..<LOCK_NUM]" boot_lstate] by (simp_all add: init_locks_def boot_lstate_sel)
  have l3: "3 < LOCK_NUM" "(0::nat) < CORE_NUM" by (simp_all add: LOCK_NUM_def CORE_NUM_def)
  have u: "status (mlock (mlocks ?s 3)) = UNLOCKED" using Q0(2) l3 by blast
  obtain s' where s': "do_mutex_lock_acquire 0 (int 3) ?s = Inr s'" "lists s' = lists ?s"
    using acquire_free [OF l3(1) u, of 0] by auto
  have "\<not> waiting s' 3 (Pcb 0)" unfolding s'(2) using on_list_kinv [OF Q0(1)] Q0(2) l3(1) by auto
  with mutex_step.acquire [OF l3(2) refl _ l3(1) s'(1), of "{}"] c
  have st: "mutex_step\<^sup>*\<^sup>* (?s, {}) (s', {(3, Pcb 0)})" by auto
  from mutex_mutual_exclusion [OF boot_lstate_ok(1) _ st l3(1), of "Pcb 0"] st show ?thesis
    by (intro exI [of _ s'] exI [of _ "{(3, Pcb 0)}"]) simp
qed

text \<open>
  Releasing a mutex that processes wait for hands it to the one that has waited longest: the
  mutex stays locked, the owner becomes that process, and the process is made ready.
\<close>

theorem mutex_release_fifo:
  assumes "kinv s Q" and "no_lost s Q" and "i < LOCK_NUM" and "Q (MlockQueue i) = Some (p # ws)"
    and "status (mlock (mlocks s i)) = LOCKED" and "Q ReadyQueue = Some rs"
  shows "\<exists>s'. do_mutex_lock_release (int i) s = Inr s' \<and>
     kinv s' (Q(MlockQueue i \<mapsto> ws, ReadyQueue \<mapsto> rs @ [p])) \<and>
     no_lost s' (Q(MlockQueue i \<mapsto> ws, ReadyQueue \<mapsto> rs @ [p])) \<and>
     status (mlock (mlocks s' i)) = LOCKED \<and> owner (mlocks s' i) = pid (pcb s p) \<and>
     task_status (pcb s' p) = TASK_READY"
proof -
  let ?s = "upd_mlock i (\<lambda>l. l\<lparr>owner := pid (pcb s p)\<rparr>) s"
  have kw: "kwf s Q" using assms(1) by (simp add: kinv_def)
  have k: "kinv ?s Q" "no_lost ?s Q" using assms(1,2) by simp_all
  obtain s' where s': "do_unblock (MlockQueue i) ?s = Inr s'"
    "kinv s' (Q(MlockQueue i \<mapsto> ws, ReadyQueue \<mapsto> rs @ [p]))"
    "no_lost s' (Q(MlockQueue i \<mapsto> ws, ReadyQueue \<mapsto> rs @ [p]))"
    "pcb s' = (pcb ?s)(p := (pcb ?s p)\<lparr>task_status := TASK_READY\<rparr>)"
    using do_unblock_inv [OF k(1) assms(4) _ assms(6)] k(2) by blast
  have "mlocks s' = mlocks ?s" using do_unblock_more [OF s'(1)] by (rule lstate_more)
  then have "status (mlock (mlocks s' i)) = LOCKED" "owner (mlocks s' i) = pid (pcb s p)"
    using assms(5) by simp_all
  moreover have "do_mutex_lock_release (int i) s = Inr s'"
    using release_handoff [OF assms(3) kw assms(4)] s'(1) by simp
  moreover have "task_status (pcb s' p) = TASK_READY" by (simp add: s'(4))
  ultimately show ?thesis using s'(2,3) by blast
qed

text \<open>
  A mutex slot is given away when its mutex is released: once nobody holds or waits for the
  mutex of one key, \<open>do_mutex_lock_init\<close> hands the same slot to any other key, so the users of both
  keys share one mutex.
\<close>

theorem mutex_slot_reused:
  assumes "kwf s Q" and "i < LOCK_NUM" and "Q (MlockQueue i) = Some []"
    and "\<forall>j < i. mkey (mlocks s j) \<noteq> k \<and> owner (mlocks s j) \<noteq> - 1" and "mkey (mlocks s i) \<noteq> k"
  shows "\<exists>s1 s2. do_mutex_lock_release (int i) s = Inr s1 \<and> do_mutex_lock_init k s1 = Inr (int i, s2) \<and>
     mkey (mlocks s2 i) = k"
proof -
  let ?s = "upd_mlock i (\<lambda>l. (mlock_update spin_lock_release l)\<lparr>owner := - 1\<rparr>) s"
  have "find_mlock k (mlocks ?s) [0..<LOCK_NUM] = Some (i, False)"
    by (rule find_mlock_first) (use assms in auto)
  then have "do_mutex_lock_init k ?s =
     Inr (int i, upd_mlock i (mlock_update (\<lambda>l. l\<lparr>status := UNLOCKED\<rparr>))
       (upd_mlock i (mkey_update (\<lambda>_. k)) (upd_mlock i (owner_update (\<lambda>_. 0)) ?s)))"
    by (simp add: do_mutex_lock_init_def)
  with release_last [OF assms(2,1,3)] show ?thesis by auto
qed

text \<open>
  C10: Barriers.  At a barrier for \<open>goal\<close> processes a process that calls \<open>do_barrier_wait\<close> before
  \<open>goal - 1\<close> others wait is appended to the waiting ones; the \<open>goal\<close>-th arrival makes all of them
  ready, and the barrier is as new.
\<close>

theorem barrier_wait_correct:
  assumes "kinv s Q" and "no_lost s Q" and "cpu < CORE_NUM" and "i < BARRIER_NUM"
    and "pid (pcb s (core_running s cpu)) \<noteq> 0" and "barrier_inv s Q i goal xs"
  shows "\<exists>s' Q'. do_barrier_wait cpu (int i) s = Inr s' \<and> kinv s' Q' \<and> no_lost s' Q' \<and>
     (if length xs + 1 = goal
      then barrier_inv s' Q' i goal [] \<and> (\<forall>p \<in> set xs. p \<in> set (the (Q' ReadyQueue)) \<or> core_running s' cpu = p)
      else barrier_inv s' Q' i goal (xs @ [core_running s cpu]))"
proof (cases "length xs + 1 = goal")
  case True
  with barrier_last [OF assms(1-4,6)] show ?thesis by simp
next
  case False
  then have "length xs + 1 < goal" using assms(6) by (simp add: barrier_inv_def)
  with barrier_early [OF assms(1-6)] False show ?thesis by simp
qed

theorem barrier_wait_correct_witness:
  "\<exists>s' Q'. do_barrier_wait 0 4 (one_waits (BarrierQueue 4)) = Inr s' \<and> barrier_inv s' Q' 4 2 []"
proof -
  let ?s = "one_waits (BarrierQueue 4)" and ?Q = "(\<lambda>_. Some [])(BarrierQueue 4 \<mapsto> [Pcb 1])"
  have b: "barrier_inv ?s ?Q 4 2 [Pcb 1]" by (simp add: barrier_inv_def one_waits_ok(4) boot_lstate_def)
  have "(0::nat) < CORE_NUM" "4 < BARRIER_NUM" "pid (pcb ?s (core_running ?s 0)) \<noteq> 0"
    by (simp_all add: CORE_NUM_def BARRIER_NUM_def one_waits_ok boot_lstate_sel)
  from barrier_wait_correct [OF one_waits_ok(1,2) this b] show ?thesis by auto
qed

text \<open>
  C37: \<open>do_condition_broadcast\<close> with the mutex free: the process that has waited longest gets the
  mutex and is put on the ready queue, all others go to the mutex's queue in their order; no
  process is lost.
\<close>

theorem broadcast_correct:
  assumes "kinv s Q" and "no_lost s Q" and "cpu < CORE_NUM" and "i < CONDITION_NUM"
    and "Q (CondQueue i) = Some (p # xs)" and "lock_idx (conditions s i) = int l" and "l < LOCK_NUM"
    and "Q (MlockQueue l) = Some ms" and "status (mlock (mlocks s l)) = UNLOCKED"
  shows "\<exists>s' Q'. do_condition_broadcast cpu (int i) s = Inr s' \<and> kinv s' Q' \<and> no_lost s' Q' \<and>
     Q' (CondQueue i) = Some [] \<and> Q' (MlockQueue l) = Some (ms @ xs) \<and>
     (p \<in> set (the (Q' ReadyQueue)) \<or> core_running s' cpu = p) \<and>
     status (mlock (mlocks s' l)) = LOCKED \<and> owner (mlocks s' l) = pid (pcb s p)"
proof -
  obtain ss rs where q: "Q SleepQueue = Some ss" "Q ReadyQueue = Some rs"
    using assms(1) by (auto simp: kinv_def kwf_def)
  let ?Q = "Q(ReadyQueue \<mapsto> rs @ [p], CondQueue i \<mapsto> [], MlockQueue l \<mapsto> ms @ xs)"
  have "length (p # xs) < QUEUE_FUEL"
    using assms(1,5) by (intro kwf_fuel [of s Q "CondQueue i"]) (simp_all add: kinv_def)
  then obtain s1 where s1: "broadcast_loop QUEUE_FUEL i (int l) s = Inr s1" "kinv s1 ?Q" "no_lost s1 ?Q"
    "status (mlock (mlocks s1 l)) = LOCKED" "owner (mlocks s1 l) = pid (pcb s p)"
    using broadcast_free [OF assms(1,2,5,8) q(2) assms(7,9)] by blast
  have q1: "?Q SleepQueue = Some ss" "?Q ReadyQueue = Some (rs @ [p])" using q by simp_all
  note kc = kinv_imp_call [OF s1(2) assms(3)]
  let ?Q2 = "sched_queues cpu s1 ss (rs @ [p]) ?Q"
  obtain s2 where s2: "do_scheduler cpu s1 = Inr s2" "kinv s2 ?Q2" "pcb s2 = sched_pcbs cpu s1 ss (rs @ [p])"
    "core_running s2 = (core_running s1)(cpu := sched_next cpu s1 ss (rs @ [p]))"
    using do_scheduler_kinv [OF kc assms(3) q1] by blast
  have "no_lost s2 ?Q2" by (rule do_scheduler_no_lost [OF kc assms(3) q1 s1(3) s2(2-4)])
  moreover have "do_condition_broadcast cpu (int i) s = Inr s2"
    using assms(4,6) s1(1) s2(1) by (simp add: do_condition_broadcast_def)
  moreover have "mlocks s2 = mlocks s1" using do_scheduler_more [OF s2(1)] by (rule lstate_more)
  moreover have "?Q2 (CondQueue i) = Some []" "?Q2 (MlockQueue l) = Some (ms @ xs)"
    by (simp_all add: sched_queues_def)
  moreover have "p \<in> set (the (?Q2 ReadyQueue)) \<or> core_running s2 cpu = p"
    by (cases "chosen cpu s1 ss (rs @ [p])")
      (auto simp: s2(4) sched_queues_def sched_next_def ready_after_def)
  ultimately show ?thesis using s1(4,5) s2(2) by metis
qed

theorem broadcast_correct_witness:
  "\<exists>s' Q'. do_condition_broadcast 0 1 (one_waits (CondQueue 1)) = Inr s' \<and> kinv s' Q' \<and>
     owner (mlocks s' 0) = 2"
proof -
  let ?s = "one_waits (CondQueue 1)" and ?Q = "(\<lambda>_. Some [])(CondQueue 1 \<mapsto> [Pcb 1])"
  have a: "(0::nat) < CORE_NUM" "1 < CONDITION_NUM" "?Q (CondQueue 1) = Some [Pcb 1]"
    "lock_idx (conditions ?s 1) = int 0" "0 < LOCK_NUM" "?Q (MlockQueue 0) = Some []"
    "status (mlock (mlocks ?s 0)) = UNLOCKED" "pid (pcb ?s (Pcb 1)) = 2"
    by (simp_all add: CORE_NUM_def CONDITION_NUM_def LOCK_NUM_def one_waits_ok)
      (simp_all add: boot_lstate_def boot_pcbs_def boot_pcb_def)
  from broadcast_correct [OF one_waits_ok(1,2) a(1-7)] a(8) show ?thesis by auto
qed

text \<open>
  C38: \<open>do_condition_signal\<close> with the mutex free loses the signalled process.  When \<open>Q\<close> lists every queue
  of the kernel and no process was lost before, the only change of the queues is that the process has left the
  condition's queue: it is alive and the owner of the mutex, but on no queue at all and on no core, so it
  never runs again and the mutex is never released.
\<close>

theorem signal_loses_process:
  assumes "kinv s Q" and "no_lost s Q" and "\<forall>q. Q q \<noteq> None"
    and "i < CONDITION_NUM" and "Q (CondQueue i) = Some (p # xs)" and "alive (pcb s p)"
    and "lock_idx (conditions s i) = int l" and "l < LOCK_NUM" and "status (mlock (mlocks s l)) = UNLOCKED"
  defines "Q' \<equiv> Q(CondQueue i \<mapsto> xs)"
  shows "\<exists>s'. do_condition_signal cpu (int i) s = Inr s' \<and> kinv s' Q' \<and> (\<forall>q. Q' q \<noteq> None) \<and> \<not> no_lost s' Q' \<and>
     alive (pcb s' p) \<and> owner (mlocks s' l) = pid (pcb s p) \<and> p \<notin> queued Q' \<and> (\<forall>c < CORE_NUM. core_running s' c \<noteq> p)"
proof -
  obtain s' where s': "do_condition_signal cpu (int i) s = Inr s'" "kinv s' Q'" "p \<notin> queued Q'" "pcb s' = pcb s"
    "core_running s' = core_running s" "owner (mlocks s' l) = pid (pcb s p)"
    using signal_free [OF assms(1,4,5,7-9)] unfolding Q'_def by blast
  have p: "p \<in> queued Q" using queued_member [of Q, OF assms(5)] by simp
  then have "p \<in> tasks16" "\<forall>c < CORE_NUM. core_running s' c \<noteq> p"
    using assms(1) s'(5) by (auto simp: kinv_def kwf_def)
  moreover have "\<not> no_lost s' Q'" using no_lost_at [of s' Q' p] calculation s'(3,4) assms(6) by auto
  moreover have "\<forall>q. Q' q \<noteq> None" using assms(3) by (simp add: Q'_def)
  ultimately show ?thesis using s' assms(6) by auto
qed

theorem signal_loses_process_witness:
  "\<exists>s'. do_condition_signal 0 1 (one_waits (CondQueue 1)) = Inr s' \<and> kinv s' (\<lambda>_. Some []) \<and> alive (pcb s' (Pcb 1)) \<and>
     owner (mlocks s' 0) = pid (pcb (one_waits (CondQueue 1)) (Pcb 1)) \<and> (\<forall>c < CORE_NUM. core_running s' c \<noteq> Pcb 1)"
proof -
  let ?s = "one_waits (CondQueue 1)" and ?Q = "(\<lambda>_. Some [])(CondQueue 1 \<mapsto> [Pcb 1])"
  have a: "\<forall>q. ?Q q \<noteq> None" "1 < CONDITION_NUM" "?Q (CondQueue 1) = Some [Pcb 1]"
    "lock_idx (conditions ?s 1) = int 0" "0 < LOCK_NUM" "status (mlock (mlocks ?s 0)) = UNLOCKED"
    by (simp_all add: CONDITION_NUM_def LOCK_NUM_def one_waits_ok) (simp_all add: boot_lstate_def)
  have e: "?Q(CondQueue 1 \<mapsto> []) = (\<lambda>_. Some [])" by auto
  from signal_loses_process [OF one_waits_ok(1,2) a(1-3) one_waits_ok(8) a(4-6), of 0, unfolded e] show ?thesis by auto
qed

text \<open>
  C40: The big kernel lock.  However the two cores interleave their traps, rounds of \<open>lock_kernel\<close>
  and \<open>unlock_kernel\<close>, at most one of them is inside the kernel.
\<close>

theorem kernel_lock_exclusive:
  assumes "kernel_step\<^sup>*\<^sup>* (smp_init l, \<lambda>_. Outside) (l', pc)" and "pc c = Inside" and "pc d = Inside"
  shows "c = d"
proof -
  have "kernel_ok (smp_init l, \<lambda>_. Outside)" by (simp add: kernel_ok_def smp_init_def)
  then have "kernel_ok (l', pc)" by (rule kernel_steps_ok [OF assms(1)])
  moreover have cd: "c \<in> {d. pc d = Inside}" "d \<in> {d. pc d = Inside}" using assms(2,3) by simp_all
  ultimately obtain x where "{d. pc d = Inside} = {x}" by (cases "status l'") (auto simp: kernel_ok_def)
  with cd show ?thesis by simp
qed

theorem kernel_lock_exclusive_witness:
  "\<exists>l' pc. kernel_step\<^sup>*\<^sup>* (smp_init \<lparr>status = LOCKED\<rparr>, \<lambda>_. Outside) (l', pc) \<and> pc (0::nat) = Inside \<and> pc 1 \<noteq> Inside"
proof -
  let ?l = "smp_init \<lparr>status = LOCKED\<rparr>" and ?p = "\<lambda>_. Outside"
  have "kernel_step (?l, ?p) (?l, ?p(0 := Spinning))" by (rule kernel_step.trap) simp
  moreover have "kernel_step (?l, ?p(0 := Spinning))
      (\<lparr>status = LOCKED\<rparr>, (?p(0 := Spinning))(0 := if True then Inside else Spinning))"
    by (rule kernel_step.spin) (simp_all add: smp_init_def lock_kernel_step_def atomic_swap_def)
  ultimately have st: "kernel_step\<^sup>*\<^sup>* (?l, ?p) (\<lparr>status = LOCKED\<rparr>, ?p(0 := Inside))"
    by (auto intro: converse_rtranclp_into_rtranclp)
  have "(?p(0 := Inside)) (1::nat) \<noteq> Inside" using kernel_lock_exclusive [OF st, of 0 1] by auto
  with st show ?thesis by (intro exI conjI) (assumption, simp_all)
qed

end
