(* ===== verification/Mailbox.thy ===== *)
theory Mailbox
  imports Lock
begin

text \<open>
  The mailboxes of \<open>kernel/locking/lock.c\<close>.  A transfer goes on after a call of the scheduler; the
  two transfer functions are cut at these calls into the pieces that run without interruption
  (\<open>mbox_pc\<close> says where a transfer resumes).
\<close>

section \<open>Mailboxes\<close>

definition init_mbox_at :: "nat \<Rightarrow> 's lstate_scheme \<Rightarrow> 's lstate_scheme" where
  "init_mbox_at i s =
     (let s = init_queue (MboxFullQueue i) s;
          s = init_queue (MboxEmptyQueue i) s;
          s = init_queue (MboxLockQueue i) s;
          s = upd_mbox i (valid_update (\<lambda>_. False)) s;
          s = upd_mbox i (mhead_update (\<lambda>_. 0)) s;
          s = upd_mbox i (mtail_update (\<lambda>_. 0)) s;
          s = upd_mbox i (mblock_update (\<lambda>l. l\<lparr>status := UNLOCKED\<rparr>)) s;
          s = upd_mbox i (user_num_update (\<lambda>_. 0)) s;
          s = s\<lparr>kmem := bzero (kmem s) (mbox_name i) MBOX_NAME_LENGTH\<rparr>
      in s\<lparr>kmem := bzero (kmem s) (mbox_content i) MAX_MBOX_LENGTH\<rparr>)"

definition init_mbox :: "'s lstate_scheme \<Rightarrow> 's lstate_scheme" where
  "init_mbox s = fold init_mbox_at [0..<MBOX_NUM] s"

text \<open>The search of \<open>do_mbox_open\<close>; a string without a terminating zero leaves its object.\<close>

fun find_mbox :: "kobj ptr \<Rightarrow> nat list \<Rightarrow> 's lstate_scheme \<Rightarrow> nat option res" where
  "find_mbox name [] s = Inr None"
| "find_mbox name (i # is) s =
     (if \<not> valid (mboxs s i) then Inr (Some i)
      else case strcmp (kmem s) name (mbox_name i) of
             None \<Rightarrow> Inl Fault
           | Some d \<Rightarrow> if d = 0 then Inr (Some i) else find_mbox name is s)"

text \<open>
  A name of 88 bytes or more would be copied over \<open>content\<close> and the fields behind it; the model
  stops there.
\<close>

definition do_mbox_open :: "kobj ptr \<Rightarrow> 's lstate_scheme \<Rightarrow> (int \<times> 's lstate_scheme) res" where
  "do_mbox_open name s =
     bindE (find_mbox name [0..<MBOX_NUM] s) (\<lambda>r.
       case r of None \<Rightarrow> Inr (- 1, s)
       | Some i \<Rightarrow>
           (let s = (if \<not> valid (mboxs s i) then upd_mbox i (valid_update (\<lambda>_. True)) s else s)
            in case strlen (kmem s) name of
                 None \<Rightarrow> Inl Fault
               | Some n \<Rightarrow>
                   guardE (n < 88)
                     (case strcpy (kmem s) (mbox_name i) name of
                        None \<Rightarrow> Inl Fault
                      | Some m \<Rightarrow> Inr (int i, s\<lparr>kmem := m\<rparr>))))"

definition do_mbox_close :: "int \<Rightarrow> 's lstate_scheme \<Rightarrow> 's lstate_scheme res" where
  "do_mbox_close mbox_idx s =
     bindE (at MBOX_NUM mbox_idx) (\<lambda>i.
       if user_num (mboxs s i) = 0 then Inr (upd_mbox i (valid_update (\<lambda>_. True)) s) else Inr s)"

text \<open>
  The pieces of \<open>do_mbox_send\<close> and \<open>do_mbox_recv\<close> between calls of the scheduler.  A piece either
  ends the call with its return value or leaves the process on a queue, to go on at \<open>mbox_pc\<close>
  when it is scheduled again.  \<open>HaveLock\<close> is the point after the process was taken from
  \<open>lock_queue\<close>, \<open>Woken\<close> the point after it was taken from \<open>empty_queue\<close> or \<open>full_queue\<close>.
\<close>

datatype mbox_pc = HaveLock | Woken

datatype mbox_outcome = Return int | Wait mbox_pc int

text \<open>The calling process is marked blocked, appended to a queue, and the core reschedules.\<close>

definition mbox_block ::
  "nat \<Rightarrow> qid \<Rightarrow> mbox_outcome \<Rightarrow> 's lstate_scheme \<Rightarrow> (mbox_outcome \<times> 's lstate_scheme) res" where
  "mbox_block cpu q r s =
     (let current_running = core_running s cpu
      in bindE (add_queue q current_running (set_status current_running TASK_BLOCKED s)) (\<lambda>s.
         bindE (do_scheduler cpu s) (\<lambda>s. Inr (r, s))))"

definition unlock_mbox :: "nat \<Rightarrow> 's lstate_scheme \<Rightarrow> 's lstate_scheme res" where
  "unlock_mbox i s =
     (let s = upd_mbox i (mblock_update (\<lambda>l. l\<lparr>status := UNLOCKED\<rparr>)) s
      in if \<not> queue_is_empty (MboxLockQueue i) s then do_unblock (MboxLockQueue i) s else Inr s)"

definition unblock_one :: "qid \<Rightarrow> 's lstate_scheme \<Rightarrow> 's lstate_scheme res" where
  "unblock_one q s = (if \<not> queue_is_empty q s then do_unblock q s else Inr s)"

text \<open>
  The copy loops.  \<open>tail\<close> and \<open>head\<close> are \<open>int\<close>: incrementing one past \<open>2\<^sup>3\<^sup>1 - 1\<close> is undefined.
\<close>

fun send_copy :: "nat \<Rightarrow> kobj ptr \<Rightarrow> nat \<Rightarrow> nat \<Rightarrow> 's lstate_scheme \<Rightarrow> 's lstate_scheme res" where
  "send_copy i msg j 0 s = Inr s"
| "send_copy i msg j (Suc n) s =
     guardE (mtail (mboxs s i) < 2 ^ 31 - 1)
       (let index = nat (mtail (mboxs s i) mod int MAX_MBOX_LENGTH);
            s = s\<lparr>kmem := (kmem s)(padd (mbox_content i) index := kmem s (padd msg j))\<rparr>
        in send_copy i msg (Suc j) n (upd_mbox i (mtail_update (\<lambda>t. t + 1)) s))"

fun recv_copy :: "nat \<Rightarrow> kobj ptr \<Rightarrow> nat \<Rightarrow> nat \<Rightarrow> 's lstate_scheme \<Rightarrow> 's lstate_scheme res" where
  "recv_copy i msg j 0 s = Inr s"
| "recv_copy i msg j (Suc n) s =
     guardE (mhead (mboxs s i) < 2 ^ 31 - 1)
       (let index = nat (mhead (mboxs s i) mod int MAX_MBOX_LENGTH);
            s = s\<lparr>kmem := (kmem s)(padd msg j := kmem s (padd (mbox_content i) index))\<rparr>
        in recv_copy i msg (Suc j) n (upd_mbox i (mhead_update (\<lambda>h. h + 1)) s))"

text \<open>
  From the test of the loop condition on, with the mailbox lock held.  A negative length makes
  the copy loop run until \<open>tail\<close> overflows.
\<close>

definition mbox_send_rest ::
  "nat \<Rightarrow> nat \<Rightarrow> kobj ptr \<Rightarrow> int \<Rightarrow> int \<Rightarrow> 's lstate_scheme \<Rightarrow> (mbox_outcome \<times> 's lstate_scheme) res" where
  "mbox_send_rest cpu i msg msg_length blocked s =
     (if msg_length > int MAX_MBOX_LENGTH - (mtail (mboxs s i) - mhead (mboxs s i))
      then bindE (unlock_mbox i s) (mbox_block cpu (MboxEmptyQueue i) (Wait Woken (blocked + 1)))
      else guardE (0 \<le> msg_length)
        (bindE (send_copy i msg 0 (nat msg_length) s) (\<lambda>s.
         bindE (if mhead (mboxs s i) + int MAX_MBOX_LENGTH = mtail (mboxs s i)
                then unblock_all QUEUE_FUEL (MboxFullQueue i) id s else Inr s) (\<lambda>s.
         bindE (unlock_mbox i s) (\<lambda>s.
         bindE (unblock_one (MboxFullQueue i) (upd_mbox i (user_num_update (\<lambda>n. n - 1)) s)) (\<lambda>s.
         Inr (Return blocked, s)))))))"

definition mbox_recv_rest ::
  "nat \<Rightarrow> nat \<Rightarrow> kobj ptr \<Rightarrow> int \<Rightarrow> int \<Rightarrow> 's lstate_scheme \<Rightarrow> (mbox_outcome \<times> 's lstate_scheme) res" where
  "mbox_recv_rest cpu i msg msg_length blocked s =
     (if msg_length > mtail (mboxs s i) - mhead (mboxs s i)
      then bindE (unlock_mbox i s) (mbox_block cpu (MboxFullQueue i) (Wait Woken (blocked + 1)))
      else guardE (0 \<le> msg_length)
        (bindE (recv_copy i msg 0 (nat msg_length) s) (\<lambda>s.
         bindE (if mhead (mboxs s i) = mtail (mboxs s i)
                then unblock_all QUEUE_FUEL (MboxEmptyQueue i) id s else Inr s) (\<lambda>s.
         bindE (unlock_mbox i s) (\<lambda>s.
         bindE (unblock_one (MboxEmptyQueue i) (upd_mbox i (user_num_update (\<lambda>n. n - 1)) s)) (\<lambda>s.
         Inr (Return 0, s)))))))"

text \<open>Taking the mailbox lock, at the start and after a wait.\<close>

definition mbox_enter ::
  "nat \<Rightarrow> nat \<Rightarrow> int \<Rightarrow> ('s lstate_scheme \<Rightarrow> (mbox_outcome \<times> 's lstate_scheme) res) \<Rightarrow>
   's lstate_scheme \<Rightarrow> (mbox_outcome \<times> 's lstate_scheme) res" where
  "mbox_enter cpu i blocked rest s =
     (if status (mblock (mboxs s i)) = LOCKED
      then mbox_block cpu (MboxLockQueue i) (Wait HaveLock (blocked + 1)) s
      else rest (upd_mbox i (mblock_update (\<lambda>l. l\<lparr>status := LOCKED\<rparr>)) s))"

definition do_mbox_send ::
  "nat \<Rightarrow> int \<Rightarrow> kobj ptr \<Rightarrow> int \<Rightarrow> 's lstate_scheme \<Rightarrow> (mbox_outcome \<times> 's lstate_scheme) res" where
  "do_mbox_send cpu mbox_idx msg msg_length s =
     bindE (at MBOX_NUM mbox_idx) (\<lambda>i.
       if \<not> valid (mboxs s i) then Inr (Return (- 1), s)
       else mbox_enter cpu i 0 (mbox_send_rest cpu i msg msg_length 0)
              (upd_mbox i (user_num_update (\<lambda>n. n + 1)) s))"

definition do_mbox_recv ::
  "nat \<Rightarrow> int \<Rightarrow> kobj ptr \<Rightarrow> int \<Rightarrow> 's lstate_scheme \<Rightarrow> (mbox_outcome \<times> 's lstate_scheme) res" where
  "do_mbox_recv cpu mbox_idx msg msg_length s =
     bindE (at MBOX_NUM mbox_idx) (\<lambda>i.
       if \<not> valid (mboxs s i) then Inr (Return (- 1), s)
       else mbox_enter cpu i 0 (mbox_recv_rest cpu i msg msg_length 0)
              (upd_mbox i (user_num_update (\<lambda>n. n + 1)) s))"

definition mbox_send_resume ::
  "nat \<Rightarrow> nat \<Rightarrow> kobj ptr \<Rightarrow> int \<Rightarrow> mbox_pc \<Rightarrow> int \<Rightarrow> 's lstate_scheme \<Rightarrow> (mbox_outcome \<times> 's lstate_scheme) res"
where
  "mbox_send_resume cpu i msg msg_length pc blocked s =
     (case pc of
        HaveLock \<Rightarrow> mbox_send_rest cpu i msg msg_length blocked s
      | Woken \<Rightarrow> mbox_enter cpu i blocked (mbox_send_rest cpu i msg msg_length blocked) s)"

definition mbox_recv_resume ::
  "nat \<Rightarrow> nat \<Rightarrow> kobj ptr \<Rightarrow> int \<Rightarrow> mbox_pc \<Rightarrow> int \<Rightarrow> 's lstate_scheme \<Rightarrow> (mbox_outcome \<times> 's lstate_scheme) res"
where
  "mbox_recv_resume cpu i msg msg_length pc blocked s =
     (case pc of
        HaveLock \<Rightarrow> mbox_recv_rest cpu i msg msg_length blocked s
      | Woken \<Rightarrow> mbox_enter cpu i blocked (mbox_recv_rest cpu i msg msg_length blocked) s)"


section \<open>The content of a mailbox\<close>

text \<open>
  The ring buffer as a list of bytes: the bytes from \<open>head\<close> up to \<open>tail\<close>, oldest first.
\<close>

definition slot :: "nat \<Rightarrow> int \<Rightarrow> kobj ptr" where
  "slot i t = padd (mbox_content i) (nat (t mod int MAX_MBOX_LENGTH))"

definition mbox_bytes :: "'s lstate_scheme \<Rightarrow> nat \<Rightarrow> u8 list" where
  "mbox_bytes s i =
     map (\<lambda>k. kmem s (slot i (mhead (mboxs s i) + int k))) [0..<nat (mtail (mboxs s i) - mhead (mboxs s i))]"

definition mbox_inv :: "'s lstate_scheme \<Rightarrow> (qid \<rightharpoonup> pcb_ref list) \<Rightarrow> nat \<Rightarrow> bool" where
  "mbox_inv s Q i \<longleftrightarrow>
     0 \<le> mhead (mboxs s i) \<and> mhead (mboxs s i) \<le> mtail (mboxs s i) \<and>
     mtail (mboxs s i) \<le> mhead (mboxs s i) + int MAX_MBOX_LENGTH \<and>
     status (mblock (mboxs s i)) = UNLOCKED \<and> Q (MboxLockQueue i) = Some [] \<and>
     Q (MboxFullQueue i) \<noteq> None \<and> Q (MboxEmptyQueue i) \<noteq> None"

lemma slot_inj:
  assumes "slot i t = slot i u" and "\<bar>t - u\<bar> < int MAX_MBOX_LENGTH"
  shows "t = u"
proof -
  have "nat (t mod 64) = nat (u mod 64)" using assms(1) by (simp add: slot_def MAX_MBOX_LENGTH_def)
  then have "t mod 64 = u mod 64" by (simp add: eq_nat_nat_iff)
  then have "(t - u) mod 64 = 0" by (simp add: mod_eq_dvd_iff mod_0_imp_dvd)
  with assms(2) show ?thesis by (simp add: MAX_MBOX_LENGTH_def zmod_eq_0_iff) presburger
qed

lemma slot_mbox [simp]: "fst (slot i t) = Mbox i"
  by (simp add: slot_def)

lemma mbox_upd_id: "mtail_update (\<lambda>t. t) x = x" "mhead_update (\<lambda>t. t) x = x"
  by (cases x; simp)+

text \<open>The copy loops, with every memory cell they leave.\<close>

lemma send_copy_ok:
  assumes "mtail (mboxs s i) + int n \<le> 2 ^ 31 - 1" and "fst msg \<noteq> Mbox i" and "n \<le> MAX_MBOX_LENGTH"
  shows "\<exists>m. send_copy i msg j n s = Inr (upd_mbox i (mtail_update (\<lambda>t. t + int n)) s\<lparr>kmem := m\<rparr>) \<and>
     (\<forall>k < n. m (slot i (mtail (mboxs s i) + int k)) = kmem s (padd msg (j + k))) \<and>
     (\<forall>x. (\<forall>k < n. x \<noteq> slot i (mtail (mboxs s i) + int k)) \<longrightarrow> m x = kmem s x)"
  using assms(1,3)
proof (induction n arbitrary: j s)
  case 0
  have "upd_mbox i (mtail_update (\<lambda>t. t)) s\<lparr>kmem := kmem s\<rparr> = s" by (simp add: upd_mbox_def mbox_upd_id)
  then show ?case by (intro exI [of _ "kmem s"]) simp
next
  case (Suc n)
  let ?t = "mtail (mboxs s i)"
  let ?s = "upd_mbox i (mtail_update (\<lambda>t. t + 1)) (s\<lparr>kmem := (kmem s)(slot i ?t := kmem s (padd msg j))\<rparr>)"
  have t: "mtail (mboxs ?s i) = ?t + 1" by (simp add: upd_mbox_def)
  obtain m where m: "send_copy i msg (Suc j) n ?s = Inr (upd_mbox i (mtail_update (\<lambda>t. t + int n)) ?s\<lparr>kmem := m\<rparr>)"
    "\<forall>k < n. m (slot i (?t + 1 + int k)) = kmem ?s (padd msg (Suc j + k))"
    "\<forall>x. (\<forall>k < n. x \<noteq> slot i (?t + 1 + int k)) \<longrightarrow> m x = kmem ?s x"
    using Suc.IH [of ?s "Suc j"] Suc.prems unfolding t by auto
  have "send_copy i msg j (Suc n) s = Inr (upd_mbox i (mtail_update (\<lambda>t. t + int (Suc n))) s\<lparr>kmem := m\<rparr>)"
    using m(1) Suc.prems by (simp add: slot_def Let_def upd_mbox_def algebra_simps comp_def)
  moreover have "m (slot i (?t + int k)) = kmem s (padd msg (j + k))" if "k < Suc n" for k
  proof (cases k)
    case 0
    have "slot i ?t \<noteq> slot i (?t + 1 + int k)" if "k < n" for k
      using slot_inj [of i ?t "?t + 1 + int k"] that Suc.prems(2) by auto
    then have "m (slot i ?t) = kmem ?s (slot i ?t)" using m(3) by blast
    with 0 show ?thesis by simp
  next
    case (Suc k')
    have e: "?t + 1 + int k' = ?t + int k" "Suc j + k' = j + k" using Suc by simp_all
    have "padd msg (j + k) \<noteq> slot i ?t"
      using assms(2) slot_mbox [of i ?t] by (metis fst_padd)
    moreover have "m (slot i (?t + 1 + int k')) = kmem ?s (padd msg (Suc j + k'))"
      using m(2) that Suc by blast
    ultimately show ?thesis unfolding e by simp
  qed
  moreover have "m x = kmem s x" if "\<forall>k < Suc n. x \<noteq> slot i (?t + int k)" for x
  proof -
    have "x \<noteq> slot i (?t + 1 + int k)" if "k < n" for k
      using \<open>\<forall>k < Suc n. _ k\<close> [rule_format, of "Suc k"] that by (simp add: add.assoc)
    moreover have "x \<noteq> slot i ?t" using that [rule_format, of 0] by simp
    ultimately show ?thesis using m(3) [rule_format, of x] by simp
  qed
  ultimately show ?case by blast
qed

lemma recv_copy_ok:
  assumes "mhead (mboxs s i) + int n \<le> 2 ^ 31 - 1" and "fst msg \<noteq> Mbox i"
  shows "\<exists>m. recv_copy i msg j n s = Inr (upd_mbox i (mhead_update (\<lambda>h. h + int n)) s\<lparr>kmem := m\<rparr>) \<and>
     (\<forall>k < n. m (padd msg (j + k)) = kmem s (slot i (mhead (mboxs s i) + int k))) \<and>
     (\<forall>x. (\<forall>k < n. x \<noteq> padd msg (j + k)) \<longrightarrow> m x = kmem s x)"
  using assms(1)
proof (induction n arbitrary: j s)
  case 0
  have "upd_mbox i (mhead_update (\<lambda>t. t)) s\<lparr>kmem := kmem s\<rparr> = s" by (simp add: upd_mbox_def mbox_upd_id)
  then show ?case by (intro exI [of _ "kmem s"]) simp
next
  case (Suc n)
  let ?t = "mhead (mboxs s i)"
  let ?s = "upd_mbox i (mhead_update (\<lambda>t. t + 1)) (s\<lparr>kmem := (kmem s)(padd msg j := kmem s (slot i ?t))\<rparr>)"
  have t: "mhead (mboxs ?s i) = ?t + 1" by (simp add: upd_mbox_def)
  obtain m where m: "recv_copy i msg (Suc j) n ?s = Inr (upd_mbox i (mhead_update (\<lambda>t. t + int n)) ?s\<lparr>kmem := m\<rparr>)"
    "\<forall>k < n. m (padd msg (Suc j + k)) = kmem ?s (slot i (?t + 1 + int k))"
    "\<forall>x. (\<forall>k < n. x \<noteq> padd msg (Suc j + k)) \<longrightarrow> m x = kmem ?s x"
    using Suc.IH [of ?s "Suc j"] Suc.prems unfolding t by auto
  have "recv_copy i msg j (Suc n) s = Inr (upd_mbox i (mhead_update (\<lambda>t. t + int (Suc n))) s\<lparr>kmem := m\<rparr>)"
    using m(1) Suc.prems by (simp add: slot_def Let_def upd_mbox_def algebra_simps comp_def)
  moreover have "m (padd msg (j + k)) = kmem s (slot i (?t + int k))" if "k < Suc n" for k
  proof (cases k)
    case 0
    have "m (padd msg j) = kmem ?s (padd msg j)" using m(3) [rule_format, of "padd msg j"] by simp
    with 0 show ?thesis by simp
  next
    case (Suc k')
    have e: "?t + 1 + int k' = ?t + int k" "Suc j + k' = j + k" using Suc by simp_all
    have "padd msg j \<noteq> slot i (?t + int k)"
      using assms(2) slot_mbox [of i "?t + int k"] by (metis fst_padd)
    moreover have "m (padd msg (Suc j + k')) = kmem ?s (slot i (?t + 1 + int k'))"
      using m(2) that Suc by blast
    ultimately show ?thesis unfolding e by simp
  qed
  moreover have "m x = kmem s x" if "\<forall>k < Suc n. x \<noteq> padd msg (j + k)" for x
  proof -
    have "x \<noteq> padd msg (Suc j + k)" if "k < n" for k
      using \<open>\<forall>k < Suc n. _ k\<close> [rule_format, of "Suc k"] that by simp
    moreover have "x \<noteq> padd msg j" using that [rule_format, of 0] by simp
    ultimately show ?thesis using m(3) [rule_format, of x] by simp
  qed
  ultimately show ?case by blast
qed

section \<open>The end of a transfer\<close>

text \<open>What the scheduler operations of a transfer leave alone.\<close>

definition mbox_frame ::
  "nat \<Rightarrow> 's lstate_scheme \<Rightarrow> (qid \<rightharpoonup> pcb_ref list) \<Rightarrow> 's lstate_scheme \<Rightarrow> (qid \<rightharpoonup> pcb_ref list) \<Rightarrow> bool" where
  "mbox_frame i s Q s' Q' \<longleftrightarrow>
     kinv s' Q' \<and> (no_lost s Q \<longrightarrow> no_lost s' Q') \<and> kmem s' = kmem s \<and>
     Q' (MboxLockQueue i) = Q (MboxLockQueue i) \<and>
     Q' (MboxFullQueue i) \<noteq> None \<and> Q' (MboxEmptyQueue i) \<noteq> None"

abbreviation transfer_queue :: "nat \<Rightarrow> qid \<Rightarrow> bool" where
  "transfer_queue i q \<equiv> q = MboxFullQueue i \<or> q = MboxEmptyQueue i"

lemma unblock_all_frame:
  assumes k: "kinv s Q" and q: "transfer_queue i q"
    and d: "Q (MboxFullQueue i) \<noteq> None" "Q (MboxEmptyQueue i) \<noteq> None"
  shows "\<exists>s' Q'. unblock_all QUEUE_FUEL q id s = Inr s' \<and> mbox_frame i s Q s' Q' \<and> mboxs s' = mboxs s"
proof -
  obtain xs rs where x: "Q q = Some xs" "Q ReadyQueue = Some rs"
    using k q d by (auto simp: kinv_def kwf_def)
  have "length xs < QUEUE_FUEL" using k kwf_fuel [of s Q q xs] x by (simp add: kinv_def)
  then obtain s' where s': "unblock_all QUEUE_FUEL q id s = Inr s'" "kinv s' (Q(q \<mapsto> [], ReadyQueue \<mapsto> rs @ xs))"
    "no_lost s Q \<Longrightarrow> no_lost s' (Q(q \<mapsto> [], ReadyQueue \<mapsto> rs @ xs))"
    "kstate.more s' = (id ^^ length xs) (kstate.more s)"
    using unblock_all_ok [of id kstate.more id s Q q xs rs QUEUE_FUEL] k x q by (auto simp del: fun_upd_apply)
  then have m: "kstate.more s' = kstate.more s" by simp
  have "mbox_frame i s Q s' (Q(q \<mapsto> [], ReadyQueue \<mapsto> rs @ xs))"
    using s' q d lstate_more(5) [OF m] unfolding mbox_frame_def by auto
  with s'(1) lstate_more(4) [OF m] show ?thesis by blast
qed

lemma unblock_one_frame:
  assumes k: "kinv s Q" and q: "transfer_queue i q"
    and d: "Q (MboxFullQueue i) \<noteq> None" "Q (MboxEmptyQueue i) \<noteq> None"
  shows "\<exists>s' Q'. unblock_one q s = Inr s' \<and> mbox_frame i s Q s' Q' \<and> mboxs s' = mboxs s"
proof -
  obtain xs rs where x: "Q q = Some xs" "Q ReadyQueue = Some rs"
    using k q d by (auto simp: kinv_def kwf_def)
  have e: "queue_is_empty q s \<longleftrightarrow> xs = []"
    using k lq.rep_empty [OF kwf_qrep, of s Q q xs] x by (simp add: kinv_def queue_is_empty_def)
  show ?thesis
  proof (cases xs)
    case Nil
    with e k d show ?thesis by (auto simp: unblock_one_def mbox_frame_def)
  next
    case (Cons p ys)
    have qr: "q \<noteq> ReadyQueue" using q by auto
    obtain s' where s': "do_unblock q s = Inr s'" "kinv s' (Q(q \<mapsto> ys, ReadyQueue \<mapsto> rs @ [p]))"
      "no_lost s Q \<Longrightarrow> no_lost s' (Q(q \<mapsto> ys, ReadyQueue \<mapsto> rs @ [p]))"
      using do_unblock_inv [OF k _ qr x(2), of p ys] x(1) Cons by blast
    note m = do_unblock_more [OF s'(1)]
    have "mbox_frame i s Q s' (Q(q \<mapsto> ys, ReadyQueue \<mapsto> rs @ [p]))"
      using s' q d lstate_more(5) [OF m] unfolding mbox_frame_def by auto
    moreover have "unblock_one q s = Inr s'" using e Cons s'(1) by (simp add: unblock_one_def)
    ultimately show ?thesis using lstate_more(4) [OF m] by blast
  qed
qed

lemma unlock_mbox_ok:
  "kinv s Q \<Longrightarrow> Q (MboxLockQueue i) = Some [] \<Longrightarrow>
   unlock_mbox i s = Inr (upd_mbox i (mblock_update (\<lambda>l. l\<lparr>status := UNLOCKED\<rparr>)) s)"
  using lq.rep_empty [OF kwf_qrep, of s Q "MboxLockQueue i" "[]"]
  by (simp add: unlock_mbox_def queue_is_empty_def kinv_def)

lemma mbox_frame_trans:
  "mbox_frame i s Q s' Q' \<Longrightarrow> mbox_frame i s' Q' s'' Q'' \<Longrightarrow> mbox_frame i s Q s'' Q''"
  by (simp add: mbox_frame_def)

lemma mbox_frame_upd [simp]:
  "mbox_frame i (upd_mbox i f s) Q s' Q' = mbox_frame i s Q s' Q'"
  "mbox_frame i s Q (upd_mbox i f s') Q' = mbox_frame i s Q s' Q'"
  by (simp_all add: mbox_frame_def)

lemma mbox_finish_ok:
  assumes k: "kinv s Q" and q: "transfer_queue i q"
    and d: "Q (MboxFullQueue i) \<noteq> None" "Q (MboxEmptyQueue i) \<noteq> None" and l: "Q (MboxLockQueue i) = Some []"
  shows "\<exists>s' Q'.
     bindE (if b then unblock_all QUEUE_FUEL q id s else Inr s) (\<lambda>s.
     bindE (unlock_mbox i s) (\<lambda>s.
     bindE (unblock_one q (upd_mbox i (user_num_update (\<lambda>n. n - 1)) s)) (\<lambda>s. Inr (r, s)))) = Inr (r, s') \<and>
     mbox_frame i s Q s' Q' \<and>
     mboxs s' = (mboxs s)(i := user_num_update (\<lambda>n. n - 1) (mblock_update (\<lambda>l. l\<lparr>status := UNLOCKED\<rparr>) (mboxs s i)))"
proof -
  have "mbox_frame i s Q s Q" using k d by (simp add: mbox_frame_def)
  then obtain s1 Q1 where s1: "(if b then unblock_all QUEUE_FUEL q id s else Inr s) = Inr s1"
    "mbox_frame i s Q s1 Q1" "mboxs s1 = mboxs s"
    using unblock_all_frame [OF k q d] by (cases b) auto
  let ?s2 = "upd_mbox i (user_num_update (\<lambda>n. n - 1)) (upd_mbox i (mblock_update (\<lambda>l. l\<lparr>status := UNLOCKED\<rparr>)) s1)"
  have "kinv s1 Q1" "Q1 (MboxLockQueue i) = Some []" "Q1 (MboxFullQueue i) \<noteq> None" "Q1 (MboxEmptyQueue i) \<noteq> None"
    using s1(2) l by (auto simp: mbox_frame_def)
  then have s2: "unlock_mbox i s1 = Inr (upd_mbox i (mblock_update (\<lambda>l. l\<lparr>status := UNLOCKED\<rparr>)) s1)"
    "kinv ?s2 Q1" "Q1 (MboxFullQueue i) \<noteq> None" "Q1 (MboxEmptyQueue i) \<noteq> None"
    by (simp_all add: unlock_mbox_ok)
  obtain s3 Q3 where s3: "unblock_one q ?s2 = Inr s3" "mbox_frame i ?s2 Q1 s3 Q3" "mboxs s3 = mboxs ?s2"
    using unblock_one_frame [OF s2(2) q s2(3,4)] by blast
  have "mbox_frame i s Q s3 Q3" using mbox_frame_trans [OF s1(2)] s3(2) by simp
  then show ?thesis using s1(1,3) s2(1) s3(1,3) by auto
qed


section \<open>Transfers\<close>

lemma length_mbox_bytes: "length (mbox_bytes s i) = nat (mtail (mboxs s i) - mhead (mboxs s i))"
  by (simp add: mbox_bytes_def)

lemma mbox_bytes_send:
  assumes h: "mhead (mboxs s' i) = mhead (mboxs s i)" and t: "mtail (mboxs s' i) = mtail (mboxs s i) + int n"
    and new: "\<forall>k < n. kmem s' (slot i (mtail (mboxs s i) + int k)) = kmem s (padd msg k)"
    and old: "\<forall>x. (\<forall>k < n. x \<noteq> slot i (mtail (mboxs s i) + int k)) \<longrightarrow> kmem s' x = kmem s x"
    and le: "mhead (mboxs s i) \<le> mtail (mboxs s i)"
    and room: "mtail (mboxs s i) + int n \<le> mhead (mboxs s i) + int MAX_MBOX_LENGTH"
  shows "mbox_bytes s' i = mbox_bytes s i @ bytes_at (kmem s) msg n"
proof (rule nth_equalityI)
  show "length (mbox_bytes s' i) = length (mbox_bytes s i @ bytes_at (kmem s) msg n)"
    using le by (simp add: length_mbox_bytes h t nat_diff_distrib' nat_add_distrib)
  fix k
  assume k: "k < length (mbox_bytes s' i)"
  let ?u = "nat (mtail (mboxs s i) - mhead (mboxs s i))"
  have u: "nat (mtail (mboxs s i) + int n - mhead (mboxs s i)) = ?u + n" using le by simp
  have kn: "k < ?u + n" using k by (simp add: length_mbox_bytes h t u)
  have lhs: "mbox_bytes s' i ! k = kmem s' (slot i (mhead (mboxs s i) + int k))"
    using kn by (simp add: mbox_bytes_def h t u)
  show "mbox_bytes s' i ! k = (mbox_bytes s i @ bytes_at (kmem s) msg n) ! k"
  proof (cases "k < ?u")
    case True
    have "slot i (mhead (mboxs s i) + int k) \<noteq> slot i (mtail (mboxs s i) + int j)" if "j < n" for j
      using slot_inj [of i "mhead (mboxs s i) + int k" "mtail (mboxs s i) + int j"] that True room le by auto
    with old have "kmem s' (slot i (mhead (mboxs s i) + int k)) = kmem s (slot i (mhead (mboxs s i) + int k))"
      by blast
    with True show ?thesis unfolding lhs by (simp add: nth_append mbox_bytes_def)
  next
    case False
    then have e: "mhead (mboxs s i) + int k = mtail (mboxs s i) + int (k - ?u)" using le by simp
    have "k - ?u < n" using kn False by simp
    then have "kmem s' (slot i (mhead (mboxs s i) + int k)) = kmem s (padd msg (k - ?u))"
      unfolding e using new by blast
    with False kn show ?thesis unfolding lhs by (simp add: nth_append length_mbox_bytes)
  qed
qed

lemma mbox_bytes_recv:
  assumes h: "mhead (mboxs s' i) = mhead (mboxs s i) + int n" and t: "mtail (mboxs s' i) = mtail (mboxs s i)"
    and old: "\<And>x. fst x = Mbox i \<Longrightarrow> kmem s' x = kmem s x"
    and le: "int n \<le> mtail (mboxs s i) - mhead (mboxs s i)"
  shows "mbox_bytes s' i = drop n (mbox_bytes s i)"
proof -
  have "nat (mtail (mboxs s i) - (mhead (mboxs s i) + int n)) = nat (mtail (mboxs s i) - mhead (mboxs s i)) - n"
    by simp
  then show ?thesis
    by (intro nth_equalityI) (auto simp: mbox_bytes_def h t old add.assoc)
qed

lemma do_mbox_send_ok:
  assumes k: "kinv s Q" and i: "i < MBOX_NUM" and v: "valid (mboxs s i)" and inv: "mbox_inv s Q i"
    and room: "mtail (mboxs s i) + int n \<le> mhead (mboxs s i) + int MAX_MBOX_LENGTH"
    and ov: "mtail (mboxs s i) + int n \<le> 2 ^ 31 - 1" and msg: "fst msg \<noteq> Mbox i"
  shows "\<exists>s' Q'. do_mbox_send cpu (int i) msg (int n) s = Inr (Return 0, s') \<and>
     kinv s' Q' \<and> (no_lost s Q \<longrightarrow> no_lost s' Q') \<and> mbox_inv s' Q' i \<and> valid (mboxs s' i) \<and>
     mbox_bytes s' i = mbox_bytes s i @ bytes_at (kmem s) msg n \<and> user_num (mboxs s' i) = user_num (mboxs s i) \<and>
     mhead (mboxs s' i) = mhead (mboxs s i) \<and> mtail (mboxs s' i) = mtail (mboxs s i) + int n \<and>
     (\<forall>x. fst x \<noteq> Mbox i \<longrightarrow> kmem s' x = kmem s x)"
proof -
  let ?s1 = "upd_mbox i (mblock_update (\<lambda>l. l\<lparr>status := LOCKED\<rparr>)) (upd_mbox i (user_num_update (\<lambda>n. n + 1)) s)"
  have t1: "mtail (mboxs ?s1 i) = mtail (mboxs s i)" "mhead (mboxs ?s1 i) = mhead (mboxs s i)" "kmem ?s1 = kmem s"
    by simp_all
  have d: "Q (MboxFullQueue i) \<noteq> None" "Q (MboxEmptyQueue i) \<noteq> None" "Q (MboxLockQueue i) = Some []"
    and un: "status (mblock (mboxs s i)) = UNLOCKED"
    and bnd: "0 \<le> mhead (mboxs s i)" "mhead (mboxs s i) \<le> mtail (mboxs s i)"
    using inv by (auto simp: mbox_inv_def)
  have "n \<le> MAX_MBOX_LENGTH" using room bnd by simp
  then obtain m where m: "send_copy i msg 0 n ?s1 = Inr (upd_mbox i (mtail_update (\<lambda>t. t + int n)) ?s1\<lparr>kmem := m\<rparr>)"
    "\<forall>k < n. m (slot i (mtail (mboxs s i) + int k)) = kmem s (padd msg k)"
    "\<forall>x. (\<forall>k < n. x \<noteq> slot i (mtail (mboxs s i) + int k)) \<longrightarrow> m x = kmem s x"
    using send_copy_ok [of ?s1 i n msg 0] msg ov unfolding t1 add_0 by blast
  let ?s2 = "upd_mbox i (mtail_update (\<lambda>t. t + int n)) ?s1\<lparr>kmem := m\<rparr>"
  have k2: "kinv ?s2 Q" "no_lost ?s2 Q = no_lost s Q"
    using k kinv_cong [of ?s2 s] by simp_all
  obtain s3 Q3 where s3: "bindE (if mhead (mboxs ?s2 i) + int MAX_MBOX_LENGTH = mtail (mboxs ?s2 i)
        then unblock_all QUEUE_FUEL (MboxFullQueue i) id ?s2 else Inr ?s2) (\<lambda>s.
     bindE (unlock_mbox i s) (\<lambda>s.
     bindE (unblock_one (MboxFullQueue i) (upd_mbox i (user_num_update (\<lambda>n. n - 1)) s))
       (\<lambda>s. Inr (Return 0, s)))) = Inr (Return 0, s3)"
    "mbox_frame i ?s2 Q s3 Q3"
    "mboxs s3 = (mboxs ?s2)(i := user_num_update (\<lambda>n. n - 1) (mblock_update (\<lambda>l. l\<lparr>status := UNLOCKED\<rparr>) (mboxs ?s2 i)))"
    using mbox_finish_ok [OF k2(1), where q = "MboxFullQueue i" and r = "Return 0"] d by blast
  have "do_mbox_send cpu (int i) msg (int n) s = mbox_send_rest cpu i msg (int n) 0 ?s1"
    using i v un by (simp add: do_mbox_send_def mbox_enter_def)
  also have "\<dots> = Inr (Return 0, s3)"
    unfolding mbox_send_rest_def t1 using room m(1) s3(1) by simp
  finally have run: "do_mbox_send cpu (int i) msg (int n) s = Inr (Return 0, s3)" .
  have km: "kmem s3 = m" using s3(2) by (simp add: mbox_frame_def)
  have b: "mhead (mboxs s3 i) = mhead (mboxs s i)" "mtail (mboxs s3 i) = mtail (mboxs s i) + int n"
    "user_num (mboxs s3 i) = user_num (mboxs s i)" "valid (mboxs s3 i)" "status (mblock (mboxs s3 i)) = UNLOCKED"
    using v by (simp_all add: s3(3))
  have "mbox_bytes s3 i = mbox_bytes s i @ bytes_at (kmem s) msg n"
    by (rule mbox_bytes_send [OF b(1,2)]) (use m km bnd room in auto)
  moreover have "mbox_inv s3 Q3 i"
    using s3(2) d bnd room b by (auto simp: mbox_inv_def mbox_frame_def)
  moreover have "kmem s3 x = kmem s x" if "fst x \<noteq> Mbox i" for x
    unfolding km using that m(3) slot_mbox by metis
  moreover have "kinv s3 Q3" "no_lost s Q \<longrightarrow> no_lost s3 Q3"
    using s3(2) k2(2) by (simp_all add: mbox_frame_def)
  ultimately show ?thesis using run b by blast
qed


lemma do_mbox_recv_ok:
  assumes k: "kinv s Q" and i: "i < MBOX_NUM" and v: "valid (mboxs s i)" and inv: "mbox_inv s Q i"
    and avail: "int n \<le> mtail (mboxs s i) - mhead (mboxs s i)"
    and ov: "mtail (mboxs s i) \<le> 2 ^ 31 - 1" and msg: "fst msg \<noteq> Mbox i"
  shows "\<exists>s' Q'. do_mbox_recv cpu (int i) msg (int n) s = Inr (Return 0, s') \<and>
     kinv s' Q' \<and> (no_lost s Q \<longrightarrow> no_lost s' Q') \<and> mbox_inv s' Q' i \<and> valid (mboxs s' i) \<and>
     bytes_at (kmem s') msg n = take n (mbox_bytes s i) \<and> mbox_bytes s' i = drop n (mbox_bytes s i) \<and>
     user_num (mboxs s' i) = user_num (mboxs s i)"
proof -
  let ?s1 = "upd_mbox i (mblock_update (\<lambda>l. l\<lparr>status := LOCKED\<rparr>)) (upd_mbox i (user_num_update (\<lambda>n. n + 1)) s)"
  have t1: "mtail (mboxs ?s1 i) = mtail (mboxs s i)" "mhead (mboxs ?s1 i) = mhead (mboxs s i)" "kmem ?s1 = kmem s"
    by simp_all
  have d: "Q (MboxFullQueue i) \<noteq> None" "Q (MboxEmptyQueue i) \<noteq> None" "Q (MboxLockQueue i) = Some []"
    and un: "status (mblock (mboxs s i)) = UNLOCKED"
    and bnd: "0 \<le> mhead (mboxs s i)" "mtail (mboxs s i) \<le> mhead (mboxs s i) + int MAX_MBOX_LENGTH"
    using inv by (auto simp: mbox_inv_def)
  have "mhead (mboxs ?s1 i) + int n \<le> 2 ^ 31 - 1" unfolding t1 using avail ov by simp
  then obtain m where m: "recv_copy i msg 0 n ?s1 = Inr (upd_mbox i (mhead_update (\<lambda>h. h + int n)) ?s1\<lparr>kmem := m\<rparr>)"
    "\<forall>k < n. m (padd msg k) = kmem s (slot i (mhead (mboxs s i) + int k))"
    "\<forall>x. (\<forall>k < n. x \<noteq> padd msg k) \<longrightarrow> m x = kmem s x"
    using recv_copy_ok [of ?s1 i n msg 0] msg unfolding t1 add_0 by blast
  let ?s2 = "upd_mbox i (mhead_update (\<lambda>h. h + int n)) ?s1\<lparr>kmem := m\<rparr>"
  have k2: "kinv ?s2 Q" "no_lost ?s2 Q = no_lost s Q"
    using k kinv_cong [of ?s2 s] by simp_all
  obtain s3 Q3 where s3: "bindE (if mhead (mboxs ?s2 i) = mtail (mboxs ?s2 i)
        then unblock_all QUEUE_FUEL (MboxEmptyQueue i) id ?s2 else Inr ?s2) (\<lambda>s.
     bindE (unlock_mbox i s) (\<lambda>s.
     bindE (unblock_one (MboxEmptyQueue i) (upd_mbox i (user_num_update (\<lambda>n. n - 1)) s))
       (\<lambda>s. Inr (Return 0, s)))) = Inr (Return 0, s3)"
    "mbox_frame i ?s2 Q s3 Q3"
    "mboxs s3 = (mboxs ?s2)(i := user_num_update (\<lambda>n. n - 1) (mblock_update (\<lambda>l. l\<lparr>status := UNLOCKED\<rparr>) (mboxs ?s2 i)))"
    using mbox_finish_ok [OF k2(1), where q = "MboxEmptyQueue i" and r = "Return 0"] d by blast
  have "do_mbox_recv cpu (int i) msg (int n) s = mbox_recv_rest cpu i msg (int n) 0 ?s1"
    using i v un by (simp add: do_mbox_recv_def mbox_enter_def)
  also have "\<dots> = Inr (Return 0, s3)"
    unfolding mbox_recv_rest_def t1 using avail m(1) s3(1) by simp
  finally have run: "do_mbox_recv cpu (int i) msg (int n) s = Inr (Return 0, s3)" .
  have km: "kmem s3 = m" using s3(2) by (simp add: mbox_frame_def)
  have b: "mhead (mboxs s3 i) = mhead (mboxs s i) + int n" "mtail (mboxs s3 i) = mtail (mboxs s i)"
    "user_num (mboxs s3 i) = user_num (mboxs s i)" "valid (mboxs s3 i)" "status (mblock (mboxs s3 i)) = UNLOCKED"
    using v by (simp_all add: s3(3))
  have "m x = kmem s x" if "fst x = Mbox i" for x using m(3) that msg by (metis fst_padd)
  then have "mbox_bytes s3 i = drop n (mbox_bytes s i)"
    by (intro mbox_bytes_recv [OF b(1,2)]) (use km avail in auto)
  moreover have "bytes_at (kmem s3) msg n = take n (mbox_bytes s i)"
    using avail m(2) by (intro nth_equalityI) (auto simp: km mbox_bytes_def)
  moreover have "mbox_inv s3 Q3 i"
    using s3(2) d bnd avail b by (auto simp: mbox_inv_def mbox_frame_def)
  moreover have "kinv s3 Q3" "no_lost s Q \<longrightarrow> no_lost s3 Q3"
    using s3(2) k2(2) by (simp_all add: mbox_frame_def)
  ultimately show ?thesis using run b by blast
qed

text \<open>Without enough room, or data, the caller is left on the mailbox's queue; nothing is transferred.\<close>

lemma mbox_block_ok:
  assumes k: "kinv s Q" and cpu: "cpu < CORE_NUM" "pid (pcb s (core_running s cpu)) \<noteq> 0"
    and q: "transfer_queue i q" "Q q = Some xs"
  shows "\<exists>s' Q'. mbox_block cpu q r s = Inr (r, s') \<and> kinv s' Q' \<and> (no_lost s Q \<longrightarrow> no_lost s' Q') \<and>
     Q' q = Some (xs @ [core_running s cpu]) \<and> (\<forall>p. p \<noteq> ReadyQueue \<and> p \<noteq> SleepQueue \<and> p \<noteq> q \<longrightarrow> Q' p = Q p) \<and>
     kstate.more s' = kstate.more s"
proof -
  obtain ss rs where sr: "Q SleepQueue = Some ss" "Q ReadyQueue = Some rs"
    using k by (auto simp: kinv_def kwf_def)
  have ne: "q \<noteq> ReadyQueue" "q \<noteq> SleepQueue" using q(1) by auto
  let ?s1 = "block_state cpu (task_status_update (\<lambda>_. TASK_BLOCKED)) s"
  let ?Q = "sched_queues cpu ?s1 ss rs (Q(q \<mapsto> xs @ [core_running s cpu]))"
  obtain s' where s': "do_block cpu (core_running s cpu) q s = Inr s'" "kinv s' ?Q" "no_lost s Q \<longrightarrow> no_lost s' ?Q"
    using do_block_ok [OF k cpu q(2) ne sr] by blast
  have "mbox_block cpu q r s = bindE (do_block cpu (core_running s cpu) q s) (\<lambda>s. Inr (r, s))"
    by (simp add: mbox_block_def do_block_def bindE_def split: sum.splits)
  then have "mbox_block cpu q r s = Inr (r, s')" using s'(1) by simp
  moreover have "?Q q = Some (xs @ [core_running s cpu])"
    "\<forall>p. p \<noteq> ReadyQueue \<and> p \<noteq> SleepQueue \<and> p \<noteq> q \<longrightarrow> ?Q p = Q p"
    using ne by (auto simp: sched_queues_def)
  ultimately show ?thesis using s'(2,3) do_block_more [OF s'(1)] by blast
qed

lemma mbox_wait_ok:
  assumes k: "kinv s Q" and cpu: "cpu < CORE_NUM" "pid (pcb s (core_running s cpu)) \<noteq> 0"
    and inv: "mbox_inv s Q i" and q: "transfer_queue i q" "Q q = Some xs"
  defines "s1 \<equiv> upd_mbox i (mblock_update (\<lambda>l. l\<lparr>status := LOCKED\<rparr>)) (upd_mbox i (user_num_update (\<lambda>n. n + 1)) s)"
  shows "\<exists>s' Q'. bindE (unlock_mbox i s1) (mbox_block cpu q r) = Inr (r, s') \<and> kinv s' Q' \<and>
     (no_lost s Q \<longrightarrow> no_lost s' Q') \<and> mbox_inv s' Q' i \<and> mbox_bytes s' i = mbox_bytes s i \<and>
     Q' q = Some (xs @ [core_running s cpu]) \<and> user_num (mboxs s' i) = user_num (mboxs s i) + 1"
proof -
  let ?s2 = "upd_mbox i (mblock_update (\<lambda>l. l\<lparr>status := UNLOCKED\<rparr>)) s1"
  have un: "unlock_mbox i s1 = Inr ?s2"
    using inv k by (intro unlock_mbox_ok [of _ Q]) (simp_all add: s1_def mbox_inv_def)
  have "kinv ?s2 Q" "pid (pcb ?s2 (core_running ?s2 cpu)) \<noteq> 0" using k cpu by (simp_all add: s1_def)
  from mbox_block_ok [OF this(1) cpu(1) this(2) q, of r] obtain s' Q' where
    s': "mbox_block cpu q r ?s2 = Inr (r, s')" "kinv s' Q'" "no_lost ?s2 Q \<longrightarrow> no_lost s' Q'"
    "Q' q = Some (xs @ [core_running ?s2 cpu])" "\<forall>p. p \<noteq> ReadyQueue \<and> p \<noteq> SleepQueue \<and> p \<noteq> q \<longrightarrow> Q' p = Q p"
    "kstate.more s' = kstate.more ?s2"
    by blast
  have m: "mboxs s' = mboxs ?s2" "kmem s' = kmem s"
    using lstate_more(4,5) [OF s'(6)] by (simp_all add: s1_def)
  have "mbox_bytes s' i = mbox_bytes s i" by (simp add: mbox_bytes_def m s1_def)
  moreover have "Q' (MboxLockQueue i) = Q (MboxLockQueue i)" "Q' (MboxFullQueue i) \<noteq> None" "Q' (MboxEmptyQueue i) \<noteq> None"
    using s'(4,5) q(1) inv unfolding mbox_inv_def by (metis option.distinct(1) qid.distinct qid.inject)+
  with inv m have "mbox_inv s' Q' i" by (simp add: mbox_inv_def s1_def)
  moreover have "bindE (unlock_mbox i s1) (mbox_block cpu q r) = Inr (r, s')" using un s'(1) by simp
  moreover have "user_num (mboxs s' i) = user_num (mboxs s i) + 1" by (simp add: m s1_def)
  ultimately show ?thesis using s'(2,3,4) by (auto simp: s1_def)
qed


section \<open>Properties\<close>

lemma length_mbox_inv:
  "mbox_inv s Q i \<Longrightarrow> int (length (mbox_bytes s i)) = mtail (mboxs s i) - mhead (mboxs s i)"
  by (simp add: length_mbox_bytes mbox_inv_def)

text \<open>
  C11: \<open>do_mbox_send\<close> on the ring buffer is appending to a byte list.  If the message fits behind the
  \<open>length (mbox_bytes s i)\<close> bytes already stored, the call returns 0 and the content is extended by
  the message; if not, nothing is stored and the caller waits on the mailbox's \<open>empty_queue\<close>.
  The mailbox never holds more than 64 bytes and is never left locked.
\<close>

theorem mbox_send_refines:
  assumes "kinv s Q" and "no_lost s Q" and "i < MBOX_NUM" and "valid (mboxs s i)" and "mbox_inv s Q i"
    and "fst msg \<noteq> Mbox i" and "mtail (mboxs s i) + int n \<le> 2 ^ 31 - 1"
    and "cpu < CORE_NUM" and "pid (pcb s (core_running s cpu)) \<noteq> 0"
  shows "\<exists>r s' Q'. do_mbox_send cpu (int i) msg (int n) s = Inr (r, s') \<and>
     kinv s' Q' \<and> no_lost s' Q' \<and> mbox_inv s' Q' i \<and>
     (if length (mbox_bytes s i) + n \<le> MAX_MBOX_LENGTH
      then r = Return 0 \<and> mbox_bytes s' i = mbox_bytes s i @ bytes_at (kmem s) msg n
      else r = Wait Woken 1 \<and> mbox_bytes s' i = mbox_bytes s i \<and>
           core_running s cpu \<in> set (the (Q' (MboxEmptyQueue i))))"
proof (cases "length (mbox_bytes s i) + n \<le> MAX_MBOX_LENGTH")
  case True
  then have "mtail (mboxs s i) + int n \<le> mhead (mboxs s i) + int MAX_MBOX_LENGTH"
    using length_mbox_inv [OF assms(5)] by linarith
  from do_mbox_send_ok [OF assms(1,3,4,5) this assms(7,6), of cpu] assms(2) True
  show ?thesis by (simp only: if_True) blast
next
  case False
  let ?s1 = "upd_mbox i (mblock_update (\<lambda>l. l\<lparr>status := LOCKED\<rparr>)) (upd_mbox i (user_num_update (\<lambda>n. n + 1)) s)"
  from False have big: "int n > int MAX_MBOX_LENGTH - (mtail (mboxs s i) - mhead (mboxs s i))"
    using length_mbox_inv [OF assms(5)] by linarith
  have un: "status (mblock (mboxs s i)) = UNLOCKED" and "Q (MboxEmptyQueue i) \<noteq> None"
    using assms(5) by (simp_all add: mbox_inv_def)
  then obtain xs where xs: "Q (MboxEmptyQueue i) = Some xs" by auto
  have tq: "transfer_queue i (MboxEmptyQueue i)" by simp
  have "do_mbox_send cpu (int i) msg (int n) s =
      bindE (unlock_mbox i ?s1) (mbox_block cpu (MboxEmptyQueue i) (Wait Woken 1))"
    using assms(3,4) un big by (simp add: do_mbox_send_def mbox_enter_def mbox_send_rest_def)
  with mbox_wait_ok [OF assms(1,8,9,5) tq xs, of "Wait Woken 1"] assms(2) False show ?thesis by fastforce
qed

theorem mbox_send_refines_witness:
  "\<exists>s' Q'. do_mbox_send 0 5 (User 0, 7) 3 boot_lstate = Inr (Return 0, s') \<and> mbox_inv s' Q' 5 \<and>
     mbox_bytes s' 5 = [7, 8, 9]"
proof -
  have a: "5 < MBOX_NUM" "valid (mboxs boot_lstate 5)" "mbox_inv boot_lstate (\<lambda>_. Some []) 5"
    "fst (User 0, 7::nat) \<noteq> Mbox 5" "mtail (mboxs boot_lstate 5) + int 3 \<le> 2 ^ 31 - 1" "(0::nat) < CORE_NUM"
    "pid (pcb boot_lstate (core_running boot_lstate 0)) \<noteq> 0"
    by (simp_all add: MBOX_NUM_def CORE_NUM_def mbox_inv_def boot_lstate_sel) (simp_all add: boot_lstate_def)
  have "mbox_bytes boot_lstate 5 = []" by (simp add: mbox_bytes_def boot_lstate_def)
  moreover have "bytes_at (kmem boot_lstate) (User 0, 7) 3 = [7, 8, 9]"
    by (simp add: bytes_at_def boot_lstate_def upt_rec)
  ultimately show ?thesis
    using mbox_send_refines [OF boot_lstate_ok a] by (auto simp: MAX_MBOX_LENGTH_def)
qed

text \<open>
  C12: \<open>do_mbox_recv\<close> takes bytes from the front of the list.  If enough bytes are stored, the call
  returns 0, the caller's buffer holds the oldest \<open>n\<close> bytes and they are gone from the mailbox; if
  not, nothing moves and the caller waits on \<open>full_queue\<close>.
\<close>

theorem mbox_recv_refines:
  assumes "kinv s Q" and "no_lost s Q" and "i < MBOX_NUM" and "valid (mboxs s i)" and "mbox_inv s Q i"
    and "fst msg \<noteq> Mbox i" and "mtail (mboxs s i) \<le> 2 ^ 31 - 1"
    and "cpu < CORE_NUM" and "pid (pcb s (core_running s cpu)) \<noteq> 0"
  shows "\<exists>r s' Q'. do_mbox_recv cpu (int i) msg (int n) s = Inr (r, s') \<and>
     kinv s' Q' \<and> no_lost s' Q' \<and> mbox_inv s' Q' i \<and>
     (if n \<le> length (mbox_bytes s i)
      then r = Return 0 \<and> bytes_at (kmem s') msg n = take n (mbox_bytes s i) \<and>
           mbox_bytes s' i = drop n (mbox_bytes s i)
      else r = Wait Woken 1 \<and> mbox_bytes s' i = mbox_bytes s i \<and>
           core_running s cpu \<in> set (the (Q' (MboxFullQueue i))))"
proof (cases "n \<le> length (mbox_bytes s i)")
  case True
  then have "int n \<le> mtail (mboxs s i) - mhead (mboxs s i)"
    using length_mbox_inv [OF assms(5)] by linarith
  from do_mbox_recv_ok [OF assms(1,3,4,5) this assms(7,6), of cpu] assms(2) True
  show ?thesis by (simp only: if_True) blast
next
  case False
  let ?s1 = "upd_mbox i (mblock_update (\<lambda>l. l\<lparr>status := LOCKED\<rparr>)) (upd_mbox i (user_num_update (\<lambda>n. n + 1)) s)"
  from False have big: "int n > mtail (mboxs s i) - mhead (mboxs s i)"
    using length_mbox_inv [OF assms(5)] by linarith
  have un: "status (mblock (mboxs s i)) = UNLOCKED" and "Q (MboxFullQueue i) \<noteq> None"
    using assms(5) by (simp_all add: mbox_inv_def)
  then obtain xs where xs: "Q (MboxFullQueue i) = Some xs" by auto
  have tq: "transfer_queue i (MboxFullQueue i)" by simp
  have "do_mbox_recv cpu (int i) msg (int n) s =
      bindE (unlock_mbox i ?s1) (mbox_block cpu (MboxFullQueue i) (Wait Woken 1))"
    using assms(3,4) un big by (simp add: do_mbox_recv_def mbox_enter_def mbox_recv_rest_def)
  with mbox_wait_ok [OF assms(1,8,9,5) tq xs, of "Wait Woken 1"] assms(2) False show ?thesis by fastforce
qed

theorem mbox_recv_refines_witness:
  "\<exists>r s' Q'. do_mbox_recv 0 5 (User 0, 7) 3 boot_lstate = Inr (r, s') \<and> r = Wait Woken 1 \<and>
     Pcb 0 \<in> set (the (Q' (MboxFullQueue 5))) \<and> kinv s' Q'"
proof -
  have a: "5 < MBOX_NUM" "valid (mboxs boot_lstate 5)" "mbox_inv boot_lstate (\<lambda>_. Some []) 5"
    "fst (User 0, 7::nat) \<noteq> Mbox 5" "mtail (mboxs boot_lstate 5) \<le> 2 ^ 31 - 1" "(0::nat) < CORE_NUM"
    "pid (pcb boot_lstate (core_running boot_lstate 0)) \<noteq> 0"
    by (simp_all add: MBOX_NUM_def CORE_NUM_def mbox_inv_def boot_lstate_sel) (simp_all add: boot_lstate_def)
  have "mbox_bytes boot_lstate 5 = []" by (simp add: mbox_bytes_def boot_lstate_def)
  with mbox_recv_refines [OF boot_lstate_ok a, of 3] show ?thesis by (auto simp: boot_lstate_sel)
qed

text \<open>
  Round trip.  A message sent to an empty mailbox and then received, by any process on any core,
  arrives byte for byte, and the mailbox is empty again.
\<close>

theorem mbox_roundtrip:
  assumes "kinv s Q" and "i < MBOX_NUM" and "valid (mboxs s i)" and "mbox_inv s Q i" and "mbox_bytes s i = []"
    and "fst msg \<noteq> Mbox i" and "fst buf \<noteq> Mbox i" and "n \<le> MAX_MBOX_LENGTH"
    and "mtail (mboxs s i) + int n \<le> 2 ^ 31 - 1"
  shows "\<exists>s1 s2. do_mbox_send cpu (int i) msg (int n) s = Inr (Return 0, s1) \<and>
     do_mbox_recv cpu' (int i) buf (int n) s1 = Inr (Return 0, s2) \<and>
     bytes_at (kmem s2) buf n = bytes_at (kmem s) msg n \<and> mbox_bytes s2 i = []"
proof -
  have "mtail (mboxs s i) = mhead (mboxs s i)" using length_mbox_inv [OF assms(4)] assms(5) by simp
  then have "mtail (mboxs s i) + int n \<le> mhead (mboxs s i) + int MAX_MBOX_LENGTH" using assms(8) by simp
  from do_mbox_send_ok [OF assms(1-4) this assms(9,6), of cpu] obtain s1 Q1 where
    s1: "do_mbox_send cpu (int i) msg (int n) s = Inr (Return 0, s1)" "kinv s1 Q1" "mbox_inv s1 Q1 i"
    "valid (mboxs s1 i)" "mbox_bytes s1 i = mbox_bytes s i @ bytes_at (kmem s) msg n"
    "mtail (mboxs s1 i) = mtail (mboxs s i) + int n"
    by blast
  have len: "int n \<le> mtail (mboxs s1 i) - mhead (mboxs s1 i)" "mtail (mboxs s1 i) \<le> 2 ^ 31 - 1"
    using length_mbox_inv [OF s1(3)] s1(5,6) assms(5,9) by simp_all
  from do_mbox_recv_ok [OF s1(2) assms(2) s1(4,3) len assms(7), of cpu'] s1(1,5) assms(5)
  show ?thesis by auto
qed

end
