(* ===== verification/Sdcard.thy ===== *)
theory Sdcard
  imports Prelude
begin

text \<open>
  The SD card, which the kernel reaches through two calls of the firmware (\<open>bios_sdread\<close>,
  \<open>bios_sdwrite\<close>).  The firmware is not part of the repository: the card and its two operations are
  a parameter \<open>D\<close> of everything that uses them, and \<open>sd_ok D\<close> states what a block device does.
\<close>

text \<open>
  \<open>sd_get d n i\<close> is byte \<open>i\<close> of sector \<open>n\<close>; \<open>sd_put d n f\<close> is the card with sector \<open>n\<close>
  overwritten by \<open>f\<close>.
\<close>

record 'd sdcard =
  sd_get :: "'d \<Rightarrow> u32 \<Rightarrow> nat \<Rightarrow> u8"
  sd_put :: "'d \<Rightarrow> u32 \<Rightarrow> (nat \<Rightarrow> u8) \<Rightarrow> 'd"

definition sd_ok :: "'d sdcard \<Rightarrow> bool" where
  "sd_ok D \<longleftrightarrow>
     (\<forall>d n f m i. i < 512 \<longrightarrow> sd_get D (sd_put D d n f) m i = (if m = n then f i else sd_get D d m i))"

text \<open>A card kept in memory, on which the properties are instantiated.\<close>

definition ram_disk :: "(u32 \<Rightarrow> nat \<Rightarrow> u8) sdcard" where
  "ram_disk = \<lparr>sd_get = (\<lambda>d n i. d n i), sd_put = (\<lambda>d n f. d(n := f))\<rparr>"

lemma ram_disk_ok: "sd_ok ram_disk"
  by (simp add: ram_disk_def sd_ok_def)

end
