(* ===== verification/FsDisk.thy ===== *)
theory FsDisk
  imports KString Sdcard
begin

text \<open>
  The lower half of the file system, \<open>kernel/fs/fs.c\<close> from line 704 on, and the layout of
  \<open>include/os/fs.h\<close>: superblock, inode map, block map, inode sectors and data blocks.  The static
  buffers of \<open>fs.c\<close> are byte objects, and all structures are read and written in them byte for byte
  as the C structures lie there.  The SD card is driven by the firmware: its two calls are a
  parameter of the model (\<open>'d sdcard\<close>), and \<open>sd_ok\<close> states what a block device does.
\<close>

section \<open>State\<close>

text \<open>The static objects of \<open>fs.c\<close>, the current path argument(s) and the caller's buffers.\<close>

datatype fobj =
    Superblock | CurrentInode | InodeMap | BlockMap | SctBuffer | BlkBuffer | UserMem nat

datatype parg = PNum u32 | PStr "fobj ptr option"

record fdesc_t =
  fd_inode_id :: u32
  fd_status :: u32
  fd_mode :: u32
  rd_offset :: u32
  wr_offset :: u32

record 'd fstate =
  fmem :: "fobj mem"
  sd :: 'd
  fdesc_array :: "nat \<Rightarrow> fdesc_t"
  console :: "(string \<times> parg list) list"   \<comment> \<open>the calls of \<open>printk\<close>, latest first\<close>
  input :: "int list"                       \<comment> \<open>what \<open>port_read_ch\<close> will return\<close>
  cur_pid :: u32                            \<comment> \<open>\<open>core_running[cpu]->pid\<close>\<close>

definition SUPERBLOCK_MAGIC :: u32 where "SUPERBLOCK_MAGIC = 0x20221205"
definition NUM_FDESCS :: nat where "NUM_FDESCS = 16"
definition FS_SIZE :: u32 where "FS_SIZE = 1049346"
definition FS_START :: u32 where "FS_START = push_bit 14 1"
definition SUPERBLOCK_START :: u32 where "SUPERBLOCK_START = FS_START"
definition INODE_MAP_OFFSET :: u32 where "INODE_MAP_OFFSET = 1"
definition INODE_MAP_NUM :: u32 where "INODE_MAP_NUM = 1"
definition BLOCK_MAP_OFFSET :: u32 where "BLOCK_MAP_OFFSET = 2"
definition BLOCK_MAP_NUM :: u32 where "BLOCK_MAP_NUM = 256"
definition INODE_BLOCK_OFFSET :: u32 where "INODE_BLOCK_OFFSET = 258"
definition INODE_BLOCK_NUM :: u32 where "INODE_BLOCK_NUM = 512"
definition DATA_NUM_OFFSET :: u32 where "DATA_NUM_OFFSET = 770"
definition DATA_BLOCK_NUM :: u32 where "DATA_BLOCK_NUM = 1048576"
definition SECTOR_SIZE :: nat where "SECTOR_SIZE = 512"
definition BLOCK_SIZE :: nat where "BLOCK_SIZE = 4096"
definition D_NAME :: nat where "D_NAME = 24"
definition I_DIR :: u32 where "I_DIR = 1"
definition I_FILE :: u32 where "I_FILE = 2"
definition D_DIR :: u32 where "D_DIR = I_DIR"
definition D_FILE :: u32 where "D_FILE = I_FILE"
definition D_LINK :: u32 where "D_LINK = 3"
definition O_RDONLY :: u32 where "O_RDONLY = 1"
definition O_WRONLY :: u32 where "O_WRONLY = 2"
definition O_RDWR :: u32 where "O_RDWR = 3"
definition F_AVAILABLE :: u32 where "F_AVAILABLE = 0"
definition F_OCCUPIED :: u32 where "F_OCCUPIED = 1"

lemmas layout_defs = FS_START_def SUPERBLOCK_START_def INODE_MAP_OFFSET_def INODE_MAP_NUM_def
  BLOCK_MAP_OFFSET_def BLOCK_MAP_NUM_def INODE_BLOCK_OFFSET_def INODE_BLOCK_NUM_def
  DATA_NUM_OFFSET_def DATA_BLOCK_NUM_def

text \<open>The fields of \<open>superblock_t\<close>, \<open>inode_t\<close> and \<open>dentry_t\<close> as offsets.\<close>

definition sb_field :: "nat \<Rightarrow> fobj ptr" where "sb_field k = (Superblock, 4 * k)"

definition ino_mode :: "'o ptr \<Rightarrow> 'o ptr" where "ino_mode p = padd p 0"
definition ino_type :: "'o ptr \<Rightarrow> 'o ptr" where "ino_type p = padd p 4"
definition ino_uid :: "'o ptr \<Rightarrow> 'o ptr" where "ino_uid p = padd p 8"
definition ino_id :: "'o ptr \<Rightarrow> 'o ptr" where "ino_id p = padd p 12"
definition ino_file_num :: "'o ptr \<Rightarrow> 'o ptr" where "ino_file_num p = padd p 16"
definition ino_size :: "'o ptr \<Rightarrow> 'o ptr" where "ino_size p = padd p 20"
definition ino_links :: "'o ptr \<Rightarrow> 'o ptr" where "ino_links p = padd p 24"
definition ino_blocks :: "'o ptr \<Rightarrow> 'o ptr" where "ino_blocks p = padd p 28"
definition direct_block :: "'o ptr \<Rightarrow> nat \<Rightarrow> 'o ptr" where "direct_block p k = padd p (32 + 4 * k)"
definition first_block :: "'o ptr \<Rightarrow> nat \<Rightarrow> 'o ptr" where "first_block p k = padd p (88 + 4 * k)"
definition second_block :: "'o ptr \<Rightarrow> nat \<Rightarrow> 'o ptr" where "second_block p k = padd p (100 + 4 * k)"
definition third_block :: "'o ptr \<Rightarrow> nat \<Rightarrow> 'o ptr" where "third_block p k = padd p (108 + 4 * k)"

definition INODE_SIZE :: nat where "INODE_SIZE = 128"

lemmas ino_defs = ino_mode_def ino_type_def ino_uid_def ino_id_def ino_file_num_def ino_size_def
  ino_links_def ino_blocks_def direct_block_def first_block_def second_block_def third_block_def

definition den_type :: "nat \<Rightarrow> fobj ptr" where "den_type i = (BlkBuffer, 32 * i)"
definition den_inode :: "nat \<Rightarrow> fobj ptr" where "den_inode i = (BlkBuffer, 32 * i + 4)"
definition den_name :: "nat \<Rightarrow> fobj ptr" where "den_name i = (BlkBuffer, 32 * i + 8)"

lemmas den_defs = den_type_def den_inode_def den_name_def

section \<open>Memory, console and card\<close>

definition rd32 :: "'d fstate \<Rightarrow> fobj ptr \<Rightarrow> u32" where
  "rd32 s p = get_u32 (fmem s) p"

definition wr32 :: "fobj ptr \<Rightarrow> u32 \<Rightarrow> 'd fstate \<Rightarrow> 'd fstate" where
  "wr32 p v s = s\<lparr>fmem := put_u32 (fmem s) p v\<rparr>"

definition printk :: "string \<Rightarrow> parg list \<Rightarrow> 'd fstate \<Rightarrow> 'd fstate" where
  "printk fmt args s = s\<lparr>console := (fmt, args) # console s\<rparr>"

definition sd_read :: "'d sdcard \<Rightarrow> fobj \<Rightarrow> nat \<Rightarrow> u32 \<Rightarrow> 'd fstate \<Rightarrow> 'd fstate" where
  "sd_read D b num n s =
     s\<lparr>fmem := (\<lambda>(c, i). if c = b \<and> i < 512 * num
                        then sd_get D (sd s) (n + of_nat (i div 512)) (i mod 512) else fmem s (c, i))\<rparr>"

definition sd_write :: "'d sdcard \<Rightarrow> fobj \<Rightarrow> nat \<Rightarrow> u32 \<Rightarrow> 'd fstate \<Rightarrow> 'd fstate" where
  "sd_write D b num n s =
     s\<lparr>sd := fold (\<lambda>k d. sd_put D d (n + of_nat k) (\<lambda>i. fmem s (b, 512 * k + i))) [0..<num] (sd s)\<rparr>"

definition zero_buffer :: "fobj \<Rightarrow> nat \<Rightarrow> 'd fstate \<Rightarrow> 'd fstate" where
  "zero_buffer b n s = s\<lparr>fmem := memset (fmem s) (b, 0) 0 n\<rparr>"

section \<open>Superblock\<close>

definition read_superblock :: "'d sdcard \<Rightarrow> 'd fstate \<Rightarrow> 'd fstate" where
  "read_superblock D s = sd_read D Superblock 1 SUPERBLOCK_START s"

definition write_superblock :: "'d sdcard \<Rightarrow> 'd fstate \<Rightarrow> 'd fstate" where
  "write_superblock D s = sd_write D Superblock 1 SUPERBLOCK_START s"

section \<open>Inodes\<close>

definition get_inode_map :: "'d sdcard \<Rightarrow> 'd fstate \<Rightarrow> 'd fstate" where
  "get_inode_map D s = sd_read D InodeMap 1 (FS_START + INODE_MAP_OFFSET) s"

definition sync_inode_map :: "'d sdcard \<Rightarrow> 'd fstate \<Rightarrow> 'd fstate" where
  "sync_inode_map D s = sd_write D InodeMap 1 (FS_START + INODE_MAP_OFFSET) s"

definition set_byte :: "fobj ptr \<Rightarrow> u8 \<Rightarrow> 'd fstate \<Rightarrow> 'd fstate" where
  "set_byte p v s = s\<lparr>fmem := (fmem s)(p := v)\<rparr>"

definition alloc_inode :: "'d sdcard \<Rightarrow> 'd fstate \<Rightarrow> (u32 \<times> 'd fstate) res" where
  "alloc_inode D s =
     (let s = get_inode_map D s
      in case find (\<lambda>i. fmem s (InodeMap, i) = 0) [0..<SECTOR_SIZE] of
           Some i \<Rightarrow> Inr (of_nat i, sync_inode_map D (set_byte (InodeMap, i) 1 s))
         | None \<Rightarrow> Inl Panic)"

definition free_inode_map :: "'d sdcard \<Rightarrow> u32 \<Rightarrow> 'd fstate \<Rightarrow> 'd fstate res" where
  "free_inode_map D inode_id s =
     (let s = get_inode_map D s
      in guardE (unat inode_id < 512)
           (assertE (fmem s (InodeMap, unat inode_id) = 1)
              (Inr (sync_inode_map D (set_byte (InodeMap, unat inode_id) 0 s)))))"

definition read_inode :: "'d sdcard \<Rightarrow> u32 \<Rightarrow> 'd fstate \<Rightarrow> 'd fstate" where
  "read_inode D inode_sct_id s = sd_read D SctBuffer 1 (FS_START + INODE_BLOCK_OFFSET + inode_sct_id) s"

definition write_inode :: "'d sdcard \<Rightarrow> u32 \<Rightarrow> 'd fstate \<Rightarrow> 'd fstate" where
  "write_inode D inode_sct_id s = sd_write D SctBuffer 1 (FS_START + INODE_BLOCK_OFFSET + inode_sct_id) s"

text \<open>\<open>inode_ptr n\<close> is the pointer that \<open>get_inode(n)\<close> returns.\<close>

definition inode_ptr :: "u32 \<Rightarrow> fobj ptr" where
  "inode_ptr n = (SctBuffer, INODE_SIZE * unat (n mod 4))"

definition get_inode :: "'d sdcard \<Rightarrow> u32 \<Rightarrow> 'd fstate \<Rightarrow> fobj ptr \<times> 'd fstate" where
  "get_inode D search_inode_id s = (inode_ptr search_inode_id, read_inode D (drop_bit 2 search_inode_id) s)"

definition create_inode ::
  "'d sdcard \<Rightarrow> u32 \<Rightarrow> u32 \<Rightarrow> u32 \<Rightarrow> u32 \<Rightarrow> 'd fstate \<Rightarrow> fobj ptr \<times> 'd fstate" where
  "create_inode D inode_id block_id type mode s =
     (let (p, s) = get_inode D inode_id s;
          s = wr32 (ino_mode p) mode s;
          s = wr32 (ino_type p) type s;
          s = wr32 (ino_uid p) (- 1) s;
          s = wr32 (ino_id p) inode_id s;
          s = wr32 (ino_links p) 1 s;
          s = wr32 (ino_blocks p) 1 s;
          s = wr32 (direct_block p 0) block_id s;
          s = (if type = I_DIR
               then wr32 (ino_file_num p) 2 (wr32 (ino_size p) 4096 s)
               else wr32 (ino_file_num p) 0 (wr32 (ino_size p) 0 s))
      in (p, write_inode D (drop_bit 2 inode_id) s))"

definition update_inode :: "fobj ptr \<Rightarrow> 'd fstate \<Rightarrow> 'd fstate" where
  "update_inode p s = s\<lparr>fmem := memcpy (fmem s) (CurrentInode, 0) p INODE_SIZE\<rparr>"

section \<open>Blocks\<close>

definition get_block_map :: "'d sdcard \<Rightarrow> 'd fstate \<Rightarrow> 'd fstate" where
  "get_block_map D s = sd_read D BlockMap 8 (FS_START + BLOCK_MAP_OFFSET) s"

definition sync_block_map :: "'d sdcard \<Rightarrow> 'd fstate \<Rightarrow> 'd fstate" where
  "sync_block_map D s = sd_write D BlockMap 8 (FS_START + BLOCK_MAP_OFFSET) s"

definition alloc_block :: "'d sdcard \<Rightarrow> 'd fstate \<Rightarrow> (u32 \<times> 'd fstate) res" where
  "alloc_block D s =
     (let s = get_block_map D s
      in case find (\<lambda>i. fmem s (BlockMap, i) = 0) [0..<BLOCK_SIZE] of
           Some i \<Rightarrow> Inr (of_nat i, sync_block_map D (set_byte (BlockMap, i) 1 s))
         | None \<Rightarrow> Inl Panic)"

definition block_sector :: "u32 \<Rightarrow> u32" where
  "block_sector block_id = FS_START + DATA_NUM_OFFSET + push_bit 3 block_id"

definition read_block :: "'d sdcard \<Rightarrow> u32 \<Rightarrow> 'd fstate \<Rightarrow> 'd fstate" where
  "read_block D block_id s = sd_read D BlkBuffer 8 (block_sector block_id) s"

definition write_block :: "'d sdcard \<Rightarrow> u32 \<Rightarrow> 'd fstate \<Rightarrow> 'd fstate" where
  "write_block D block_id s = sd_write D BlkBuffer 8 (block_sector block_id) s"

definition release_block :: "'d sdcard \<Rightarrow> u32 \<Rightarrow> 'd fstate \<Rightarrow> 'd fstate res" where
  "release_block D block_id s =
     (let s = get_block_map D s
      in guardE (unat block_id < 131072)
           (assertE (fmem s (BlockMap, unat block_id) = 1)
              (let s = sync_block_map D (set_byte (BlockMap, unat block_id) 0 s);
                   s = zero_buffer BlkBuffer BLOCK_SIZE s
               in Inr (write_block D block_id s))))"

definition create_dir_block :: "'d sdcard \<Rightarrow> u32 \<Rightarrow> u32 \<Rightarrow> u32 \<Rightarrow> 'd fstate \<Rightarrow> 'd fstate" where
  "create_dir_block D dir_block_id parent_inode_id dir_inode_id s =
     (let s = zero_buffer BlkBuffer BLOCK_SIZE s;
          s = set_byte (den_name 0) 46 s;
          s = wr32 (den_type 0) D_DIR s;
          s = wr32 (den_inode 0) dir_inode_id s;
          s = set_byte (padd (den_name 1) 1) 46 (set_byte (den_name 1) 46 s);
          s = wr32 (den_type 1) D_DIR s;
          s = wr32 (den_inode 1) parent_inode_id s
      in write_block D dir_block_id s)"

definition create_file_block :: "'d sdcard \<Rightarrow> u32 \<Rightarrow> 'd fstate \<Rightarrow> 'd fstate" where
  "create_file_block D dir_block_id s = write_block D dir_block_id (zero_buffer BlkBuffer BLOCK_SIZE s)"


section \<open>What the card holds\<close>

text \<open>
  The areas of the file system on the card; \<open>area_byte D d a i\<close> is byte \<open>i\<close> of area \<open>a\<close> of the card
  \<open>d\<close>.  Only the first eight sectors of the block map are ever transferred.
\<close>

datatype area = ASuper | AInodeMap | ABlockMap | AInodes u32 | ABlock u32

fun area_sector :: "area \<Rightarrow> u32" where
  "area_sector ASuper = SUPERBLOCK_START"
| "area_sector AInodeMap = FS_START + INODE_MAP_OFFSET"
| "area_sector ABlockMap = FS_START + BLOCK_MAP_OFFSET"
| "area_sector (AInodes k) = FS_START + INODE_BLOCK_OFFSET + k"
| "area_sector (ABlock b) = block_sector b"

fun area_len :: "area \<Rightarrow> nat" where
  "area_len ASuper = 1"
| "area_len AInodeMap = 1"
| "area_len ABlockMap = 8"
| "area_len (AInodes k) = 1"
| "area_len (ABlock b) = 8"

fun area_ok :: "area \<Rightarrow> bool" where
  "area_ok (AInodes k) = (k < INODE_BLOCK_NUM)"
| "area_ok (ABlock b) = (b < 131072)"
| "area_ok _ = True"

definition area_byte :: "'d sdcard \<Rightarrow> 'd \<Rightarrow> area \<Rightarrow> nat \<Rightarrow> u8" where
  "area_byte D d a i = sd_get D d (area_sector a + of_nat (i div 512)) (i mod 512)"

text \<open>Sector numbers as natural numbers: nothing wraps around.\<close>

fun area_start :: "area \<Rightarrow> nat" where
  "area_start ASuper = 16384"
| "area_start AInodeMap = 16385"
| "area_start ABlockMap = 16386"
| "area_start (AInodes k) = 16642 + unat k"
| "area_start (ABlock b) = 17154 + 8 * unat b"

lemma area_sector_start:
  assumes "area_ok a"
  shows "area_sector a = of_nat (area_start a)" and "area_start a + area_len a < 2 ^ 21"
proof -
  have b: "push_bit 3 b = (8 * b :: u32)" for b by (simp add: push_bit_eq_mult)
  show "area_sector a = of_nat (area_start a)"
    by (cases a) (simp_all add: layout_defs block_sector_def b)
  show "area_start a + area_len a < 2 ^ 21"
    using assms by (cases a) (simp_all add: layout_defs word_less_nat_alt)
qed

lemma areas_apart:
  assumes "area_ok a" and "area_ok b" and "a \<noteq> b" and "i < area_len a" and "j < area_len b"
  shows "area_start a + i \<noteq> area_start b + j"
proof -
  have lt: "k < INODE_BLOCK_NUM \<Longrightarrow> unat k < 512" for k
    by (simp add: layout_defs word_less_nat_alt)
  have "8 * unat k + i \<noteq> 8 * unat l + j" if "k \<noteq> l" "i < 8" "j < 8" for k l :: u32
  proof -
    have "unat k \<noteq> unat l" using that(1) by (simp add: word_unat_eq_iff)
    then show ?thesis using that(2,3) by presburger
  qed
  with assms show ?thesis by (cases a; cases b) (auto dest!: lt)
qed

lemma sector_eq_iff:
  assumes "area_ok a" and "area_ok b" and "i < area_len a" and "j < area_len b"
  shows "area_sector a + of_nat i = area_sector b + of_nat j \<longleftrightarrow> a = b \<and> i = j"
proof -
  have lt: "area_start a + i < 2 ^ 32" "area_start b + j < 2 ^ 32"
    using area_sector_start(2) [OF assms(1)] area_sector_start(2) [OF assms(2)] assms(3,4) by simp_all
  have "area_sector a + of_nat i = (of_nat (area_start a + i) :: u32)"
    "area_sector b + of_nat j = (of_nat (area_start b + j) :: u32)"
    by (simp_all add: area_sector_start(1) assms(1,2))
  moreover have "(of_nat (area_start a + i) :: u32) = of_nat (area_start b + j) \<longleftrightarrow>
      area_start a + i = area_start b + j"
    using lt by (simp only: word_of_nat_eq_iff) (simp add: take_bit_nat_eq_self)
  ultimately show ?thesis using areas_apart [OF assms(1,2) _ assms(3,4)] by (cases "a = b") simp_all
qed


text \<open>Transfers between a buffer and an area, in terms of what the card holds.\<close>

definition area_read :: "'d sdcard \<Rightarrow> fobj \<Rightarrow> area \<Rightarrow> 'd fstate \<Rightarrow> 'd fstate" where
  "area_read D b a s =
     s\<lparr>fmem := (\<lambda>(c, i). if c = b \<and> i < 512 * area_len a then area_byte D (sd s) a i else fmem s (c, i))\<rparr>"

lemma sd_read_area: "sd_read D b (area_len a) (area_sector a) s = area_read D b a s"
  unfolding sd_read_def area_read_def area_byte_def ..

lemma fold_put_get:
  assumes "sd_ok D" and "i < 512" and "inj_on f (set ks)" and "distinct ks"
  shows "sd_get D (fold (\<lambda>k d. sd_put D d (f k) (g k)) ks d) n i =
    (case find (\<lambda>k. f k = n) ks of Some k \<Rightarrow> g k i | None \<Rightarrow> sd_get D d n i)"
  using assms(3,4)
proof (induction ks arbitrary: d)
  case (Cons k ks)
  have "find (\<lambda>l. f l = n) ks = None" if "f k = n"
    using Cons.prems that by (auto simp: find_None_iff inj_on_def)
  with Cons assms(1,2) show ?case by (auto simp: sd_ok_def split: option.splits)
qed simp

lemma sd_write_area:
  assumes D: "sd_ok D" and "area_ok a" and "area_ok a'" and i: "i < 512 * area_len a'"
  shows "area_byte D (sd (sd_write D b (area_len a) (area_sector a) s)) a' i =
    (if a' = a then fmem s (b, i) else area_byte D (sd s) a' i)"
proof -
  let ?f = "\<lambda>k. area_sector a + of_nat k"
  have k: "i div 512 < area_len a'" using i by (simp add: less_mult_imp_div_less mult.commute)
  have inj: "inj_on ?f (set [0..<area_len a])"
    using sector_eq_iff [OF assms(2,2)] by (auto simp: inj_on_def)
  have eq: "?f k' = area_sector a' + of_nat (i div 512) \<longleftrightarrow> a' = a \<and> k' = i div 512" if "k' < area_len a" for k'
    using sector_eq_iff [OF assms(2,3) that k] by blast
  have "find (\<lambda>k'. ?f k' = area_sector a' + of_nat (i div 512)) [0..<area_len a] =
      (if a' = a then Some (i div 512) else None)"
  proof (cases "a' = a")
    case True
    have "?f j \<noteq> area_sector a' + of_nat (i div 512)" if "j < i div 512" for j
      using eq [of j] that k True by simp
    with True k show ?thesis by (simp add: find_upt_Some eq)
  qed (simp add: find_upt_None eq)
  then show ?thesis
    using fold_put_get [OF D _ inj distinct_upt, where i = "i mod 512"]
    by (simp add: sd_write_def area_byte_def)
qed

lemma sd_write_frame [simp]:
  "fmem (sd_write D b n k s) = fmem s" "fdesc_array (sd_write D b n k s) = fdesc_array s"
  "console (sd_write D b n k s) = console s" "input (sd_write D b n k s) = input s"
  "cur_pid (sd_write D b n k s) = cur_pid s"
  by (simp_all add: sd_write_def)

lemma area_read_frame [simp]:
  "sd (area_read D b a s) = sd s" "fdesc_array (area_read D b a s) = fdesc_array s"
  "console (area_read D b a s) = console s" "input (area_read D b a s) = input s"
  "cur_pid (area_read D b a s) = cur_pid s"
  by (simp_all add: area_read_def)

lemma area_read_mem:
  "fmem (area_read D b a s) (c, i) =
     (if c = b \<and> i < 512 * area_len a then area_byte D (sd s) a i else fmem s (c, i))"
  by (simp add: area_read_def)

definition area_write :: "'d sdcard \<Rightarrow> fobj \<Rightarrow> area \<Rightarrow> 'd fstate \<Rightarrow> 'd fstate" where
  "area_write D b a s = sd_write D b (area_len a) (area_sector a) s"

lemma area_write_frame [simp]:
  "fmem (area_write D b a s) = fmem s" "fdesc_array (area_write D b a s) = fdesc_array s"
  "console (area_write D b a s) = console s" "input (area_write D b a s) = input s"
  "cur_pid (area_write D b a s) = cur_pid s"
  by (simp_all add: area_write_def)

lemma area_write_byte:
  assumes "sd_ok D" and "area_ok a" and "area_ok a'" and "i < 512 * area_len a'"
  shows "area_byte D (sd (area_write D b a s)) a' i = (if a' = a then fmem s (b, i) else area_byte D (sd s) a' i)"
  using sd_write_area [OF assms] by (simp add: area_write_def)

lemma transfers:
  "read_superblock D s = area_read D Superblock ASuper s"
  "write_superblock D s = area_write D Superblock ASuper s"
  "get_inode_map D s = area_read D InodeMap AInodeMap s"
  "sync_inode_map D s = area_write D InodeMap AInodeMap s"
  "read_inode D k s = area_read D SctBuffer (AInodes k) s"
  "write_inode D k s = area_write D SctBuffer (AInodes k) s"
  "get_block_map D s = area_read D BlockMap ABlockMap s"
  "sync_block_map D s = area_write D BlockMap ABlockMap s"
  "read_block D b s = area_read D BlkBuffer (ABlock b) s"
  "write_block D b s = area_write D BlkBuffer (ABlock b) s"
  by (simp_all add: area_write_def read_superblock_def write_superblock_def get_inode_map_def
      sync_inode_map_def read_inode_def write_inode_def get_block_map_def sync_block_map_def
      read_block_def write_block_def flip: sd_read_area)

text \<open>The \<open>uint32_t\<close> at offset \<open>i\<close> of an area, and reads of it through a buffer.\<close>

definition card_u32 :: "'d sdcard \<Rightarrow> 'd \<Rightarrow> area \<Rightarrow> nat \<Rightarrow> u32" where
  "card_u32 D d a i = get_u32 (\<lambda>(u::unit, j). area_byte D d a j) ((), i)"

lemma rd32_wr32 [simp]: "rd32 (wr32 p v s) p = v"
  by (simp add: rd32_def wr32_def)

lemma rd32_wr32_other:
  "c \<noteq> b \<or> j + 4 \<le> i \<or> i + 4 \<le> j \<Longrightarrow> rd32 (wr32 (b, i) v s) (c, j) = rd32 s (c, j)"
  by (simp add: rd32_def wr32_def get_put_u32_outside)

lemma wr32_frame [simp]:
  "sd (wr32 p v s) = sd s" "fdesc_array (wr32 p v s) = fdesc_array s" "console (wr32 p v s) = console s"
  "input (wr32 p v s) = input s" "cur_pid (wr32 p v s) = cur_pid s"
  by (simp_all add: wr32_def)

lemma fmem_wr32_other:
  "c \<noteq> b \<or> j < i \<or> i + 4 \<le> j \<Longrightarrow> fmem (wr32 (b, i) v s) (c, j) = fmem s (c, j)"
  by (simp add: wr32_def put_u32_outside)

lemma rd32_cong_mem: "fmem s = fmem s' \<Longrightarrow> rd32 s p = rd32 s' p"
  by (simp add: rd32_def)

lemma rd32_area_write [simp]: "rd32 (area_write D b a s) p = rd32 s p"
  by (rule rd32_cong_mem) simp

lemma rd32_area_read:
  "i + 4 \<le> 512 * area_len a \<Longrightarrow> rd32 (area_read D b a s) (b, i) = card_u32 D (sd s) a i"
  unfolding rd32_def card_u32_def by (rule get_u32_cong) (simp add: area_read_mem)

lemma rd32_area_read_other:
  "c \<noteq> b \<Longrightarrow> rd32 (area_read D b a s) (c, i) = rd32 s (c, i)"
  unfolding rd32_def by (rule get_u32_cong) (simp add: area_read_mem)

lemma card_u32_write:
  assumes "sd_ok D" and "area_ok a" and "area_ok a'" and "i + 4 \<le> 512 * area_len a'"
  shows "card_u32 D (sd (area_write D b a s)) a' i = (if a' = a then rd32 s (b, i) else card_u32 D (sd s) a' i)"
proof -
  have "area_byte D (sd (area_write D b a s)) a' (i + k) =
      (if a' = a then fmem s (b, i + k) else area_byte D (sd s) a' (i + k))" if "k < 4" for k
    using area_write_byte [OF assms(1-3)] assms(4) that by simp
  then show ?thesis
    unfolding card_u32_def rd32_def
    by (cases "a' = a") (simp_all, (rule get_u32_cong; simp)+)
qed

lemma card_u32_cong:
  "(\<And>k. k < 4 \<Longrightarrow> area_byte D d a (i + k) = area_byte D d' a (i + k)) \<Longrightarrow> card_u32 D d a i = card_u32 D d' a i"
  unfolding card_u32_def by (rule get_u32_cong) simp

section \<open>The allocation maps\<close>

text \<open>
  The two maps are handled alike: read in, scanned for the first zero byte, written back.  \<open>alloc_map\<close>
  is what the allocators promise to the rest of the file system.
\<close>

definition free_id :: "'d sdcard \<Rightarrow> area \<Rightarrow> nat \<Rightarrow> 'd fstate \<Rightarrow> nat \<Rightarrow> bool" where
  "free_id D a n s i \<longleftrightarrow> i < n \<and> area_byte D (sd s) a i = 0"

definition map_marked :: "'d sdcard \<Rightarrow> fobj \<Rightarrow> area \<Rightarrow> nat \<Rightarrow> u8 \<Rightarrow> 'd fstate \<Rightarrow> 'd fstate \<Rightarrow> bool" where
  "map_marked D b a i v s s' \<longleftrightarrow>
     (\<forall>a' k. area_ok a' \<longrightarrow> k < 512 * area_len a' \<longrightarrow>
        area_byte D (sd s') a' k = (if a' = a \<and> k = i then v else area_byte D (sd s) a' k)) \<and>
     (\<forall>c k. c \<noteq> b \<longrightarrow> fmem s' (c, k) = fmem s (c, k)) \<and>
     fdesc_array s' = fdesc_array s \<and> console s' = console s \<and> input s' = input s \<and> cur_pid s' = cur_pid s"

lemma mark_byte:
  assumes "sd_ok D" and "area_ok a" and "i < 512 * area_len a"
  shows "map_marked D b a i v s (area_write D b a (set_byte (b, i) v (area_read D b a s)))"
  using assms by (simp add: map_marked_def set_byte_def area_read_mem area_write_byte)

locale alloc_map =
  fixes b :: fobj and a :: area and n :: nat
    and alloc :: "'d sdcard \<Rightarrow> 'd fstate \<Rightarrow> (u32 \<times> 'd fstate) res"
    and release :: "'d sdcard \<Rightarrow> nat \<Rightarrow> 'd fstate \<Rightarrow> 'd fstate"
  assumes area: "area_ok a" and room: "n = 512 * area_len a" "n < 2 ^ 32"
    and alloc_eq: "alloc D s = (case find (free_id D a n s) [0..<n] of
      Some i \<Rightarrow> Inr (of_nat i, area_write D b a (set_byte (b, i) 1 (area_read D b a s))) | None \<Rightarrow> Inl Panic)"
    and release_eq: "release D i s = area_write D b a (set_byte (b, i) 0 (area_read D b a s))"
begin

lemma panics_iff: "alloc D s = Inl Panic \<longleftrightarrow> (\<forall>i<n. area_byte D (sd s) a i \<noteq> 0)"
  by (auto simp: alloc_eq find_upt_None find_upt_Some free_id_def split: option.splits)

lemma no_other_error: "alloc D s = Inl e \<Longrightarrow> e = Panic"
  by (auto simp: alloc_eq split: option.splits)

lemma takes_first:
  assumes "sd_ok D" and "alloc D s = Inr (x, s')"
  shows "unat x < n \<and> area_byte D (sd s) a (unat x) = 0 \<and> (\<forall>j<unat x. area_byte D (sd s) a j \<noteq> 0) \<and>
    map_marked D b a (unat x) 1 s s'"
proof -
  from assms(2) obtain i where i: "find (free_id D a n s) [0..<n] = Some i"
    and x: "x = of_nat i" and s': "s' = area_write D b a (set_byte (b, i) 1 (area_read D b a s))"
    by (auto simp: alloc_eq split: option.splits)
  from i have first: "i < n" "area_byte D (sd s) a i = 0" "\<forall>j<i. area_byte D (sd s) a j \<noteq> 0"
    by (auto simp: find_upt_Some free_id_def)
  with room have "unat x = i" by (simp add: x unat_of_nat)
  with first mark_byte [OF assms(1) area, of i] room(1) show ?thesis by (simp add: s')
qed

lemma outcome:
  assumes "sd_ok D"
  shows "(\<forall>i<n. area_byte D (sd s) a i \<noteq> 0) \<and> alloc D s = Inl Panic \<or>
    (\<exists>x s'. alloc D s = Inr (x, s') \<and> unat x < n \<and> area_byte D (sd s) a (unat x) = 0 \<and>
      (\<forall>j<unat x. area_byte D (sd s) a j \<noteq> 0) \<and> map_marked D b a (unat x) 1 s s')"
proof (cases "alloc D s")
  case (Inl e)
  then show ?thesis using no_other_error panics_iff by metis
next
  case (Inr r)
  then show ?thesis using takes_first [OF assms] by (cases r) auto
qed

lemma takes_another:
  assumes "sd_ok D" and "alloc D s = Inr (x, s')" and "alloc D s' = Inr (y, s'')"
  shows "x < y"
proof -
  have x: "unat x < n" "\<forall>j<unat x. area_byte D (sd s) a j \<noteq> 0" "map_marked D b a (unat x) 1 s s'"
    using takes_first [OF assms(1,2)] by auto
  then have "\<forall>j\<le>unat x. area_byte D (sd s') a j \<noteq> 0"
    using area room by (auto simp: map_marked_def)
  with takes_first [OF assms(1,3)] have "unat x < unat y" by (metis not_le)
  then show ?thesis by (simp add: word_less_nat_alt)
qed

lemma release_marks:
  assumes "sd_ok D" and "i < n"
  shows "map_marked D b a i 0 s (release D i s)"
  using mark_byte [OF assms(1) area] assms(2) room(1) by (simp add: release_eq)

lemma release_alloc:
  assumes "sd_ok D" and "alloc D s = Inr (x, s')"
  shows "\<forall>a' k. area_ok a' \<longrightarrow> k < 512 * area_len a' \<longrightarrow>
    area_byte D (sd (release D (unat x) s')) a' k = area_byte D (sd s) a' k"
  using takes_first [OF assms] release_marks [OF assms(1)] by (simp add: map_marked_def)

end

interpretation imap: alloc_map InodeMap AInodeMap 512 alloc_inode
    "\<lambda>D i s. sync_inode_map D (set_byte (InodeMap, i) 0 (get_inode_map D s))"
proof
  fix D :: "'d sdcard" and s :: "'d fstate"
  have "find (\<lambda>i. fmem (get_inode_map D s) (InodeMap, i) = 0) [0..<SECTOR_SIZE] =
      find (free_id D AInodeMap 512 s) [0..<512]"
    by (rule find_cong) (auto simp: transfers area_read_mem SECTOR_SIZE_def free_id_def)
  then show "alloc_inode D s = (case find (free_id D AInodeMap 512 s) [0..<512] of
      Some i \<Rightarrow> Inr (of_nat i, area_write D InodeMap AInodeMap (set_byte (InodeMap, i) 1 (area_read D InodeMap AInodeMap s)))
    | None \<Rightarrow> Inl Panic)"
    unfolding alloc_inode_def Let_def transfers by simp
qed (simp_all add: transfers)

interpretation bmap: alloc_map BlockMap ABlockMap 4096 alloc_block
    "\<lambda>D i s. sync_block_map D (set_byte (BlockMap, i) 0 (get_block_map D s))"
proof
  fix D :: "'d sdcard" and s :: "'d fstate"
  have "find (\<lambda>i. fmem (get_block_map D s) (BlockMap, i) = 0) [0..<BLOCK_SIZE] =
      find (free_id D ABlockMap 4096 s) [0..<4096]"
    by (rule find_cong) (auto simp: transfers area_read_mem BLOCK_SIZE_def free_id_def)
  then show "alloc_block D s = (case find (free_id D ABlockMap 4096 s) [0..<4096] of
      Some i \<Rightarrow> Inr (of_nat i, area_write D BlockMap ABlockMap (set_byte (BlockMap, i) 1 (area_read D BlockMap ABlockMap s)))
    | None \<Rightarrow> Inl Panic)"
    unfolding alloc_block_def Let_def transfers by simp
qed (simp_all add: transfers)

lemma free_inode_map_eq:
  assumes "unat x < 512" and "area_byte D (sd s) AInodeMap (unat x) = 1"
  shows "free_inode_map D x s = Inr (sync_inode_map D (set_byte (InodeMap, unat x) 0 (get_inode_map D s)))"
  using assms by (simp add: free_inode_map_def transfers area_read_mem)

lemma release_block_eq:
  assumes "unat x < 4096" and "area_byte D (sd s) ABlockMap (unat x) = 1"
  shows "release_block D x s = Inr (write_block D x (zero_buffer BlkBuffer BLOCK_SIZE
    (sync_block_map D (set_byte (BlockMap, unat x) 0 (get_block_map D s)))))"
  using assms by (simp add: release_block_def transfers area_read_mem)

lemma zero_buffer_mem: "fmem (zero_buffer b n s) (c, i) = (if c = b \<and> i < n then 0 else fmem s (c, i))"
  by (auto simp: zero_buffer_def memset_closed)

lemma zero_buffer_frame [simp]: "sd (zero_buffer b n s) = sd s"
  by (simp add: zero_buffer_def)

section \<open>Inodes on the card\<close>

definition inode_u32 :: "'d sdcard \<Rightarrow> 'd \<Rightarrow> u32 \<Rightarrow> nat \<Rightarrow> u32" where
  "inode_u32 D d n k = card_u32 D d (AInodes (drop_bit 2 n)) (128 * unat (n mod 4) + k)"

definition inode_byte :: "'d sdcard \<Rightarrow> 'd \<Rightarrow> u32 \<Rightarrow> nat \<Rightarrow> u8" where
  "inode_byte D d n k = area_byte D d (AInodes (drop_bit 2 n)) (128 * unat (n mod 4) + k)"

lemma inode_area_ok: "n < 2048 \<Longrightarrow> area_ok (AInodes (drop_bit 2 n))"
  by (simp add: layout_defs word_less_nat_alt drop_bit_eq_div unat_div)

lemma mod_4_less: "unat (n mod 4 :: u32) < 4"
  by (simp add: unat_mod)

lemma inode_slot_eq:
  fixes m n :: u32
  assumes "drop_bit 2 m = drop_bit 2 n" and "m mod 4 = n mod 4"
  shows "m = n"
proof -
  have "unat (m div 4) = unat (n div 4)" "unat (m mod 4) = unat (n mod 4)"
    using assms by (simp_all add: drop_bit_eq_div)
  then have "unat m div 4 = unat n div 4" "unat m mod 4 = unat n mod 4"
    by (simp_all add: unat_div unat_mod)
  then have "unat m = unat n" by (metis div_mult_mod_eq)
  then show ?thesis by (simp add: word_unat_eq_iff)
qed

text \<open>Changing inode \<open>n\<close> in the sector buffer leaves the three others in that sector alone.\<close>

definition only_inode :: "u32 \<Rightarrow> 'd fstate \<Rightarrow> 'd fstate \<Rightarrow> bool" where
  "only_inode n s s' \<longleftrightarrow>
     (\<forall>c i. c \<noteq> SctBuffer \<or> i < 128 * unat (n mod 4) \<or> 128 * unat (n mod 4) + 128 \<le> i \<longrightarrow>
        fmem s' (c, i) = fmem s (c, i)) \<and>
     sd s' = sd s \<and> fdesc_array s' = fdesc_array s \<and> console s' = console s \<and> input s' = input s \<and>
     cur_pid s' = cur_pid s"

lemma only_inode_refl [simp]: "only_inode n s s"
  by (simp add: only_inode_def)

lemma only_inode_wr32:
  assumes "only_inode n s s'" and "k \<le> 124"
  shows "only_inode n s (wr32 (padd (inode_ptr n) k) v s')"
  using assms by (auto simp: only_inode_def inode_ptr_def INODE_SIZE_def fmem_wr32_other)

definition others_kept :: "'d sdcard \<Rightarrow> u32 \<Rightarrow> 'd fstate \<Rightarrow> 'd fstate \<Rightarrow> bool" where
  "others_kept D n s t \<longleftrightarrow> sd t = sd s \<and>
     (\<forall>i<512. i < 128 * unat (n mod 4) \<or> 128 * unat (n mod 4) + 128 \<le> i \<longrightarrow>
        fmem t (SctBuffer, i) = area_byte D (sd s) (AInodes (drop_bit 2 n)) i)"

lemma only_inode_others_kept:
  assumes "only_inode n (area_read D SctBuffer (AInodes (drop_bit 2 n)) s) t"
  shows "others_kept D n s t"
  using assms unfolding only_inode_def others_kept_def area_read_frame by (simp add: area_read_mem)

lemma inode_other_bytes:
  assumes D: "sd_ok D" and "n < 2048" and "m < 2048" and "m \<noteq> n" and "k < 128" and only: "others_kept D n s s'"
  shows "inode_byte D (sd (area_write D SctBuffer (AInodes (drop_bit 2 n)) s')) m k = inode_byte D (sd s) m k"
proof -
  let ?i = "128 * unat (m mod 4) + k"
  have k: "?i < 512" using mod_4_less [of m] assms(5) by simp
  have sd: "sd s' = sd s" using only by (simp add: others_kept_def)
  have "area_byte D (sd (area_write D SctBuffer (AInodes (drop_bit 2 n)) s')) (AInodes (drop_bit 2 m)) ?i =
      (if AInodes (drop_bit 2 m) = AInodes (drop_bit 2 n) then fmem s' (SctBuffer, ?i)
       else area_byte D (sd s') (AInodes (drop_bit 2 m)) ?i)"
    by (rule area_write_byte [OF D inode_area_ok [OF assms(2)] inode_area_ok [OF assms(3)]]) (use k in simp)
  then have w: "inode_byte D (sd (area_write D SctBuffer (AInodes (drop_bit 2 n)) s')) m k =
      (if drop_bit 2 m = drop_bit 2 n then fmem s' (SctBuffer, ?i) else inode_byte D (sd s) m k)"
    by (simp only: inode_byte_def sd area.inject)
  show ?thesis
  proof (cases "drop_bit 2 m = drop_bit 2 n")
    case True
    with assms(4) inode_slot_eq have "m mod 4 \<noteq> n mod 4" by blast
    then have "unat (m mod 4) \<noteq> unat (n mod 4)" unfolding word_unat_eq_iff .
    then have "?i < 128 * unat (n mod 4) \<or> 128 * unat (n mod 4) + 128 \<le> ?i" using assms(5) by linarith
    then have "fmem s' (SctBuffer, ?i) = inode_byte D (sd s) m k"
      using only k unfolding others_kept_def inode_byte_def True by blast
    then show ?thesis using True w by simp
  qed (use w in simp)
qed

text \<open>Assignments to the fields of an inode, one after the other.\<close>

definition set_fields :: "fobj ptr \<Rightarrow> (nat \<times> u32) list \<Rightarrow> 'd fstate \<Rightarrow> 'd fstate" where
  "set_fields p fs s = fold (\<lambda>(k, v). wr32 (padd p k) v) fs s"

lemma set_fields_simps [simp]:
  "set_fields p [] s = s" "set_fields p ((k, v) # fs) s = set_fields p fs (wr32 (padd p k) v s)"
  by (simp_all add: set_fields_def)

lemma set_fields_only:
  "\<forall>(k, v) \<in> set fs. k \<le> 124 \<Longrightarrow> only_inode n s s' \<Longrightarrow> only_inode n s (set_fields (inode_ptr n) fs s')"
  by (induction fs arbitrary: s') (auto simp: only_inode_wr32)

lemma set_fields_frame [simp]: "sd (set_fields p fs s) = sd s"
  by (induction fs arbitrary: s) auto

lemma rd32_wr32_field:
  "4 dvd k \<Longrightarrow> 4 dvd l \<Longrightarrow> rd32 (wr32 (padd p k) v s) (padd p l) = (if l = k then v else rd32 s (padd p l))"
proof (cases "l = k")
  case False
  assume "4 dvd k" "4 dvd l"
  with False have "l + 4 \<le> k \<or> k + 4 \<le> l" by presburger
  then show ?thesis using False by (cases p) (simp add: rd32_wr32_other)
qed simp

lemma rd32_set_fields:
  "\<forall>(k, v) \<in> set fs. 4 dvd k \<Longrightarrow> 4 dvd l \<Longrightarrow> distinct (map fst fs) \<Longrightarrow>
   rd32 (set_fields p fs s) (padd p l) = (case map_of fs l of Some v \<Rightarrow> v | None \<Rightarrow> rd32 s (padd p l))"
proof (induction fs arbitrary: s)
  case (Cons f fs)
  have "map_of fs (fst f) = None" using Cons.prems by (simp add: map_of_eq_None_iff)
  with Cons show ?case by (cases f) (auto simp: rd32_wr32_field split: option.splits)
qed simp

text \<open>The fields that \<open>create_inode\<close> sets.\<close>

definition inode_fields :: "u32 \<Rightarrow> u32 \<Rightarrow> u32 \<Rightarrow> u32 \<Rightarrow> (nat \<times> u32) list" where
  "inode_fields inode_id block_id type mode =
     [(0, mode), (4, type), (8, - 1), (12, inode_id), (24, 1), (28, 1), (32, block_id),
      (20, if type = I_DIR then 4096 else 0), (16, if type = I_DIR then 2 else 0)]"

lemma create_inode_eq:
  "create_inode D n blk type mode s =
     (inode_ptr n, area_write D SctBuffer (AInodes (drop_bit 2 n))
       (set_fields (inode_ptr n) (inode_fields n blk type mode) (area_read D SctBuffer (AInodes (drop_bit 2 n)) s)))"
  by (simp add: create_inode_def get_inode_def transfers Let_def ino_defs inode_fields_def)

lemma inode_field_write:
  assumes "sd_ok D" and "n < 2048" and "k + 4 \<le> 128"
  shows "inode_u32 D (sd (area_write D SctBuffer (AInodes (drop_bit 2 n)) s)) n k = rd32 s (padd (inode_ptr n) k)"
  using card_u32_write [OF assms(1) inode_area_ok [OF assms(2)] inode_area_ok [OF assms(2)]] assms(3)
    mod_4_less [of n]
  by (simp add: inode_u32_def inode_ptr_def INODE_SIZE_def)

lemma inode_field_read:
  "k + 4 \<le> 128 \<Longrightarrow> rd32 (area_read D SctBuffer (AInodes (drop_bit 2 n)) s) (padd (inode_ptr n) k) = inode_u32 D (sd s) n k"
  using mod_4_less [of n] by (simp add: inode_u32_def inode_ptr_def INODE_SIZE_def rd32_area_read)

lemma inode_other_areas:
  assumes "sd_ok D" and "n < 2048" and "area_ok a" and "a \<noteq> AInodes (drop_bit 2 n)" and "i < 512 * area_len a"
  shows "area_byte D (sd (area_write D SctBuffer (AInodes (drop_bit 2 n)) s)) a i = area_byte D (sd s) a i"
  using area_write_byte [OF assms(1) inode_area_ok [OF assms(2)] assms(3,5)] assms(4) by simp

section \<open>Properties\<close>

text \<open>An empty file system state.\<close>

definition blank_state :: "(u32 \<Rightarrow> nat \<Rightarrow> u8) fstate" where
  "blank_state = \<lparr>fmem = (\<lambda>_. 0), sd = (\<lambda>_ _. 0),
     fdesc_array = (\<lambda>_. \<lparr>fd_inode_id = 0, fd_status = 0, fd_mode = 0, rd_offset = 0, wr_offset = 0\<rparr>),
     console = [], input = [], cur_pid = 1\<rparr>"

lemma blank_card [simp]: "area_byte ram_disk (sd blank_state) a i = 0"
  by (simp add: area_byte_def ram_disk_def blank_state_def)

text \<open>
  \<open>alloc_inode\<close> fails an assertion exactly when all 512 entries of the inode map on the card
  are taken.  Otherwise it returns the least free number, sets that entry of the map on the card to
  1, and changes nothing else on the card nor in any buffer but the one of the map.
\<close>

theorem alloc_inode_correct:
  assumes "sd_ok D"
  shows "(\<forall>i<512. area_byte D (sd s) AInodeMap i \<noteq> 0) \<and> alloc_inode D s = Inl Panic \<or>
    (\<exists>x s'. alloc_inode D s = Inr (x, s') \<and> unat x < 512 \<and> area_byte D (sd s) AInodeMap (unat x) = 0 \<and>
      (\<forall>j<unat x. area_byte D (sd s) AInodeMap j \<noteq> 0) \<and> map_marked D InodeMap AInodeMap (unat x) 1 s s')"
  using assms by (rule imap.outcome)

text \<open>
  Block numbers are bounded: \<open>alloc_block\<close> only ever returns the least free number below 4096
  and fails an assertion as soon as the first 4096 blocks are taken, although the block map on the
  card has room for 131072; a second allocation returns a larger number.
\<close>

theorem alloc_block_bounded:
  assumes "sd_ok D"
  shows "(alloc_block D s = Inl Panic \<longleftrightarrow> (\<forall>i<4096. area_byte D (sd s) ABlockMap i \<noteq> 0)) \<and>
    (\<forall>x s'. alloc_block D s = Inr (x, s') \<longrightarrow> x < 4096 \<and>
      (\<forall>j<unat x. area_byte D (sd s) ABlockMap j \<noteq> 0) \<and> map_marked D BlockMap ABlockMap (unat x) 1 s s' \<and>
      (\<forall>y s''. alloc_block D s' = Inr (y, s'') \<longrightarrow> x < y))"
proof (intro conjI allI impI)
  fix x s'
  assume a: "alloc_block D s = Inr (x, s')"
  note first = bmap.takes_first [OF assms a]
  show "x < 4096" using first by (simp add: word_less_nat_alt)
  show "area_byte D (sd s) ABlockMap j \<noteq> 0" if "j < unat x" for j using first that by blast
  show "map_marked D BlockMap ABlockMap (unat x) 1 s s'" using first by blast
  show "x < y" if "alloc_block D s' = Inr (y, s'')" for y s'' using a that by (rule bmap.takes_another [OF assms])
qed (rule bmap.panics_iff)

text \<open>
  Releasing undoes allocating.  After \<open>alloc_inode\<close>, \<open>free_inode_map\<close> of the number it returned
  succeeds and the card is as before; after \<open>alloc_block\<close>, \<open>release_block\<close> succeeds and the card
  is as before except that the block itself is wiped.
\<close>

theorem alloc_release_roundtrip:
  assumes "sd_ok D" and "alloc_inode D s = Inr (x, s1)" and "alloc_block D t = Inr (y, t1)"
  shows "(\<exists>s2. free_inode_map D x s1 = Inr s2 \<and>
      (\<forall>a k. area_ok a \<longrightarrow> k < 512 * area_len a \<longrightarrow> area_byte D (sd s2) a k = area_byte D (sd s) a k)) \<and>
    (\<exists>t2. release_block D y t1 = Inr t2 \<and>
      (\<forall>a k. area_ok a \<longrightarrow> k < 512 * area_len a \<longrightarrow>
        area_byte D (sd t2) a k = (if a = ABlock y then 0 else area_byte D (sd t) a k)))"
proof -
  have x: "unat x < 512" "area_byte D (sd s1) AInodeMap (unat x) = 1"
    using imap.takes_first [OF assms(1,2)] by (auto simp: map_marked_def)
  have y: "unat y < 4096" "area_byte D (sd t1) ABlockMap (unat y) = 1"
    using bmap.takes_first [OF assms(1,3)] by (auto simp: map_marked_def)
  have ok: "area_ok (ABlock y)" using y(1) by (simp add: word_less_nat_alt)
  show ?thesis
    using imap.release_alloc [OF assms(1,2)] bmap.release_alloc [OF assms(1,3)] ok
    unfolding free_inode_map_eq [OF x] release_block_eq [OF y]
    by (simp add: transfers(10) area_write_byte [OF assms(1)] zero_buffer_mem BLOCK_SIZE_def)
qed

text \<open>
  C23: An inode that was created is found again: after \<open>create_inode\<close>, \<open>get_inode\<close> reads the given
  number, type, mode and block, one link and one block, and the size and entry count of an empty
  directory or file; every other inode and every other area on the card is unchanged.
\<close>

theorem create_inode_roundtrip:
  assumes "sd_ok D" and "n < 2048" and "create_inode D n blk type mode s = (p, s1)"
    and "get_inode D n s1 = (q, s2)"
  shows "q = p \<and> rd32 s2 (ino_id q) = n \<and> rd32 s2 (ino_type q) = type \<and> rd32 s2 (ino_mode q) = mode \<and>
    rd32 s2 (direct_block q 0) = blk \<and> rd32 s2 (ino_links q) = 1 \<and> rd32 s2 (ino_blocks q) = 1 \<and>
    rd32 s2 (ino_size q) = (if type = I_DIR then 4096 else 0) \<and>
    rd32 s2 (ino_file_num q) = (if type = I_DIR then 2 else 0) \<and>
    (\<forall>m k. m < 2048 \<longrightarrow> m \<noteq> n \<longrightarrow> k < 128 \<longrightarrow> inode_byte D (sd s1) m k = inode_byte D (sd s) m k) \<and>
    (\<forall>a k. area_ok a \<longrightarrow> a \<noteq> AInodes (drop_bit 2 n) \<longrightarrow> k < 512 * area_len a \<longrightarrow>
      area_byte D (sd s1) a k = area_byte D (sd s) a k)"
proof -
  let ?s = "set_fields (inode_ptr n) (inode_fields n blk type mode) (area_read D SctBuffer (AInodes (drop_bit 2 n)) s)"
  have s1: "s1 = area_write D SctBuffer (AInodes (drop_bit 2 n)) ?s" and p: "p = inode_ptr n"
    using assms(3) unfolding create_inode_eq by blast+
  have q: "q = inode_ptr n" "s2 = area_read D SctBuffer (AInodes (drop_bit 2 n)) s1"
    using assms(4) by (simp_all add: get_inode_def transfers)
  have dvd: "\<forall>(k, v)\<in>set (inode_fields n blk type mode). 4 dvd k" "distinct (map fst (inode_fields n blk type mode))"
    by (simp_all add: inode_fields_def)
  have rd: "rd32 s2 (padd q k) = (case map_of (inode_fields n blk type mode) k of Some v \<Rightarrow> v
      | None \<Rightarrow> inode_u32 D (sd s) n k)" if "k + 4 \<le> 128" "4 dvd k" for k
    using that(1)
    by (simp add: rd32_set_fields [OF dvd(1) that(2) dvd(2)] q inode_field_read s1 inode_field_write [OF assms(1,2)] split: option.split)
  have "only_inode n (area_read D SctBuffer (AInodes (drop_bit 2 n)) s) ?s"
    by (rule set_fields_only) (simp_all add: inode_fields_def)
  then have others: "inode_byte D (sd s1) m k = inode_byte D (sd s) m k" if "m < 2048" "m \<noteq> n" "k < 128" for m k
    unfolding s1 using inode_other_bytes [OF assms(1,2) that] only_inode_others_kept by blast
  have areas: "area_byte D (sd s1) a k = area_byte D (sd s) a k"
    if "area_ok a" "a \<noteq> AInodes (drop_bit 2 n)" "k < 512 * area_len a" for a k
    unfolding s1 using inode_other_areas [OF assms(1,2) that] by simp
  have "rd32 s2 q = mode" using rd [of 0] by (simp add: inode_fields_def)
  moreover have "q = p" by (simp add: p q(1))
  ultimately show ?thesis
    using others areas rd by (simp add: ino_defs inode_fields_def)
qed

theorem create_inode_roundtrip_witness:
  "\<exists>p s1. create_inode ram_disk 5 7 I_FILE O_RDWR blank_state = (p, s1) \<and>
     rd32 (snd (get_inode ram_disk 5 s1)) (direct_block p 0) = 7"
proof -
  obtain p s1 where c: "create_inode ram_disk 5 7 I_FILE O_RDWR blank_state = (p, s1)" by fastforce
  obtain q s2 where g: "get_inode ram_disk 5 s1 = (q, s2)" by fastforce
  show ?thesis using create_inode_roundtrip [OF ram_disk_ok _ c g] c g by auto
qed

end
