(* ===== verification/FsDir.thy ===== *)
theory FsDir
  imports FsDisk
begin

text \<open>
  Directories and paths (\<open>kernel/fs/fs.c\<close>): directory entries, path splitting, and the system
  calls \<open>do_mkfs\<close>, \<open>do_statfs\<close>, \<open>do_cd\<close>, \<open>do_mkdir\<close>, \<open>do_rmdir\<close>, \<open>do_ls\<close>, \<open>do_touch\<close>,
  \<open>do_cat\<close>, \<open>do_ln\<close>, \<open>do_rm\<close>.  A \<open>char *\<close> is an optional pointer, \<open>None\<close> the null pointer; the
  result \<open>-1\<close> of a search is the word with all bits set.  Paths are split in place, so a path
  argument is memory that the calls overwrite.  Messages are logged without their final newline.
\<close>

section \<open>Directory entries\<close>

definition den_match :: "nat \<Rightarrow> fobj ptr option \<Rightarrow> 'd fstate \<Rightarrow> bool res" where
  "den_match i name s =
     (case name of None \<Rightarrow> Inl Fault
      | Some p \<Rightarrow> (case strcmp (fmem s) (den_name i) p of None \<Rightarrow> Inl Fault | Some d \<Rightarrow> Inr (d = 0)))"

fun search_loop :: "nat \<Rightarrow> nat \<Rightarrow> u32 \<Rightarrow> u32 \<Rightarrow> fobj ptr option \<Rightarrow> u32 \<Rightarrow> 'd fstate \<Rightarrow> u32 res" where
  "search_loop 0 i found file_num name type s = Inr (- 1)"
| "search_loop (Suc n) i found file_num name type s =
     (let found = (if rd32 s (den_type i) \<noteq> 0 then found + 1 else found)
      in bindE (if rd32 s (den_type i) AND type \<noteq> 0 then den_match i name s else Inr False) (\<lambda>hit.
           if hit then Inr (rd32 s (den_inode i))
           else if found = file_num then Inr (- 1)
           else search_loop n (Suc i) found file_num name type s))"

definition search_dentry ::
  "'d sdcard \<Rightarrow> u32 \<Rightarrow> fobj ptr option \<Rightarrow> u32 \<Rightarrow> 'd fstate \<Rightarrow> (u32 \<times> 'd fstate) res" where
  "search_dentry D search_inode name type s =
     (let (cur_inode, s) = get_inode D search_inode s;
          s = read_block D (rd32 s (direct_block cur_inode 0)) s
      in bindE (search_loop 128 0 0 (rd32 s (ino_file_num cur_inode)) name type s) (\<lambda>r. Inr (r, s)))"

fun getDir_loop :: "nat \<Rightarrow> nat \<Rightarrow> fobj ptr \<Rightarrow> 'd fstate \<Rightarrow> fobj ptr option \<times> 'd fstate" where
  "getDir_loop 0 i path s = (None, printk ''Error: dir name is too long !!'' [] s)"
| "getDir_loop (Suc n) i path s =
     (if fmem s (padd path i) = 0 then (Some path, s)
      else if fmem s (padd path i) = 47 then (Some path, set_byte (padd path i) 0 s)
      else getDir_loop n (Suc i) path s)"

definition getDir :: "fobj ptr \<Rightarrow> 'd fstate \<Rightarrow> fobj ptr option \<times> 'd fstate" where
  "getDir path s = getDir_loop D_NAME 0 path s"

fun getSubdir_loop :: "nat \<Rightarrow> nat \<Rightarrow> fobj ptr \<Rightarrow> 'd fstate \<Rightarrow> fobj ptr option" where
  "getSubdir_loop 0 i path s = None"
| "getSubdir_loop (Suc n) i path s =
     (if fmem s (padd path i) = 0 then (if Suc i = D_NAME then None else Some (padd path (Suc i)))
      else getSubdir_loop n (Suc i) path s)"

definition getSubdir :: "fobj ptr \<Rightarrow> 'd fstate \<Rightarrow> fobj ptr option" where
  "getSubdir path s = getSubdir_loop D_NAME 0 path s"

definition create_dentry ::
  "'d sdcard \<Rightarrow> u32 \<Rightarrow> u32 \<Rightarrow> fobj ptr option \<Rightarrow> u32 \<Rightarrow> 'd fstate \<Rightarrow> (u32 \<times> 'd fstate) res" where
  "create_dentry D dir_id subdir_id name type s =
     (let (cur_inode, s) = get_inode D dir_id s;
          s = wr32 (ino_file_num cur_inode) (rd32 s (ino_file_num cur_inode) + 1) s;
          s = (if type = D_DIR then wr32 (ino_links cur_inode) (rd32 s (ino_links cur_inode) + 1) s else s);
          s = read_block D (rd32 s (direct_block cur_inode 0)) s
      in case find (\<lambda>i. rd32 s (den_type i) = 0) [0..<128] of
           None \<Rightarrow> Inl Panic
         | Some i \<Rightarrow>
             (let s = wr32 (den_inode i) subdir_id s;
                  s = wr32 (den_type i) type s
              in case name of None \<Rightarrow> Inl Fault
                 | Some p \<Rightarrow>
                     (case strlen (fmem s) p of None \<Rightarrow> Inl Fault
                      | Some n \<Rightarrow>
                          (let s = s\<lparr>fmem := memcpy (fmem s) (den_name i) p n\<rparr>;
                               s = write_inode D (drop_bit 2 dir_id) s
                           in Inr (subdir_id, write_block D (rd32 s (direct_block cur_inode 0)) s)))))"

definition delete_dentry :: "'d sdcard \<Rightarrow> u32 \<Rightarrow> u32 \<Rightarrow> u32 \<Rightarrow> 'd fstate \<Rightarrow> (bool \<times> 'd fstate) res" where
  "delete_dentry D dir_id subdir_id type s =
     (let (subdir, s) = get_inode D subdir_id s
      in if type = D_DIR \<and> \<not> (rd32 s (ino_file_num subdir) = 2 \<and> rd32 s (ino_links subdir) = 1)
         then Inr (False, printk ''Error: there are links or contents to be deleted first!'' [] s)
         else
           (let ret = (type = D_DIR \<or> rd32 s (ino_links subdir) = 1);
                (dir_inode, s) = get_inode D dir_id s;
                s = wr32 (ino_file_num dir_inode) (rd32 s (ino_file_num dir_inode) - 1) s;
                s = wr32 (ino_links dir_inode) (rd32 s (ino_links dir_inode) - 1) s;
                s = write_inode D (drop_bit 2 dir_id) s;
                s = read_block D (rd32 s (direct_block dir_inode 0)) s
            in case find (\<lambda>i. rd32 s (den_inode i) = subdir_id) [0..<128] of
                 None \<Rightarrow> Inl Panic
               | Some i \<Rightarrow>
                   (let s = wr32 (den_type i) 0 s;
                        s = s\<lparr>fmem := memset (fmem s) (den_name i) 0 D_NAME\<rparr>
                    in Inr (ret, write_block D (rd32 s (direct_block dir_inode 0)) s))))"

definition legal_char :: "u8 \<Rightarrow> bool" where
  "legal_char c \<longleftrightarrow> c = 45 \<or> c = 46 \<or> c = 95 \<or> 48 \<le> c \<and> c \<le> 57 \<or> 97 \<le> c \<and> c \<le> 122 \<or> 65 \<le> c \<and> c \<le> 90"

partial_function (option) is_name_illegal_from :: "fobj mem \<Rightarrow> fobj ptr \<Rightarrow> nat \<Rightarrow> bool option" where
  "is_name_illegal_from m name i =
     (if m (padd name i) = 0 then Some False
      else if legal_char (m (padd name i)) then is_name_illegal_from m name (Suc i)
      else Some True)"

definition is_name_illegal :: "fobj ptr option \<Rightarrow> 'd fstate \<Rightarrow> bool res" where
  "is_name_illegal name s =
     (case name of None \<Rightarrow> Inl Fault
      | Some p \<Rightarrow> (case is_name_illegal_from (fmem s) p 0 of None \<Rightarrow> Inl Fault | Some b \<Rightarrow> Inr b))"

section \<open>Walking along a path\<close>

definition or_hang :: "'a res option \<Rightarrow> 'a res" where
  "or_hang r = (case r of None \<Rightarrow> Inl Hang | Some x \<Rightarrow> x)"

definition at_more :: "fobj ptr option \<Rightarrow> 'd fstate \<Rightarrow> bool" where
  "at_more subdir s = (case subdir of None \<Rightarrow> False | Some p \<Rightarrow> fmem s p \<noteq> 0)"

text \<open>
  The loop \<open>while(subdir != 0 && subdir[0] != 0)\<close> that all calls with a path share.  \<open>msg\<close> logs the
  call's error message.  The value \<open>None\<close> means that a component was not found (the call returns
  0), \<open>Some (d, n)\<close> that \<open>d\<close> is the directory of the last component \<open>n\<close>.
\<close>

partial_function (option) walk_path ::
  "'d sdcard \<Rightarrow> (fobj ptr option \<Rightarrow> fobj ptr option \<Rightarrow> 'd fstate \<Rightarrow> 'd fstate) \<Rightarrow> u32 \<Rightarrow>
   fobj ptr option \<Rightarrow> fobj ptr option \<Rightarrow> 'd fstate \<Rightarrow>
   ((u32 \<times> fobj ptr option) option \<times> 'd fstate) res option" where
  "walk_path D msg dir_id dir subdir s =
     (if at_more subdir s
      then (case search_dentry D dir_id dir D_DIR s of
              Inl e \<Rightarrow> Some (Inl e)
            | Inr (dir_id, s) \<Rightarrow>
                if dir_id = - 1 then Some (Inr (None, msg dir subdir s))
                else (case getDir (the subdir) s of
                        (dir, s) \<Rightarrow> walk_path D msg dir_id dir (getSubdir (the subdir) s) s))
      else Some (Inr (Some (dir_id, dir), s)))"

definition start_walk ::
  "'d sdcard \<Rightarrow> (fobj ptr option \<Rightarrow> fobj ptr option \<Rightarrow> 'd fstate \<Rightarrow> 'd fstate) \<Rightarrow> fobj ptr \<Rightarrow> 'd fstate \<Rightarrow>
   ((u32 \<times> fobj ptr option) option \<times> 'd fstate) res" where
  "start_walk D msg path s =
     (let dir_id = rd32 s (ino_id (CurrentInode, 0));
          (dir, s) = getDir path s
      in if dir = None then Inr (None, s)
         else or_hang (walk_path D msg dir_id dir (getSubdir path s) s))"

text \<open>The \<open>do ... while\<close> form of \<open>do_cd\<close> and \<open>do_ls\<close>, which goes down into the last component too.\<close>

partial_function (option) walk_down ::
  "'d sdcard \<Rightarrow> (fobj ptr option \<Rightarrow> fobj ptr option \<Rightarrow> 'd fstate \<Rightarrow> 'd fstate) \<Rightarrow> u32 \<Rightarrow> fobj ptr \<Rightarrow> 'd fstate \<Rightarrow>
   (u32 option \<times> 'd fstate) res option" where
  "walk_down D msg dir_id path s =
     (case getDir path s of (dir, s) \<Rightarrow>
        (case search_dentry D dir_id dir D_DIR s of
           Inl e \<Rightarrow> Some (Inl e)
         | Inr (dir_id, s') \<Rightarrow>
             if dir_id = - 1 then Some (Inr (None, msg dir (getSubdir path s) s'))
             else if at_more (getSubdir path s) s'
                  then walk_down D msg dir_id (the (getSubdir path s)) s'
                  else Some (Inr (Some dir_id, s'))))"

section \<open>System calls on directories\<close>

text \<open>The question of \<open>do_mkfs\<close> (label \<open>reset\<close>): asked again until the answer is y or n.\<close>

function mkfs_ask :: "int list \<Rightarrow> 'd fstate \<Rightarrow> (bool \<times> 'd fstate) res" where
  "mkfs_ask inp s =
     (let s = printk ''the filesystem exists! Do you want to reset the inodes and blocks? [Y/N]:'' [] s
      in case dropWhile ((=) (- 1)) inp of
           [] \<Rightarrow> Inl Hang
         | ch # rest \<Rightarrow>
             (let s = printk [] [] s
              in if ch = 121 \<or> ch = 89 then Inr (True, s\<lparr>input := rest\<rparr>)
                 else if ch = 78 \<or> ch = 110 then Inr (False, s\<lparr>input := rest\<rparr>)
                 else mkfs_ask rest s))"
  by pat_completeness auto
termination
proof (relation "measure (\<lambda>(inp, s). length inp)")
  fix inp :: "int list" and s x ch rest and xa :: "'d fstate"
  assume "dropWhile ((=) (- 1)) inp = ch # rest"
  then have "length (ch # rest) \<le> length inp" by (metis length_dropWhile_le)
  then show "((rest, xa), inp, s) \<in> measure (\<lambda>(inp, s). length inp)" by simp
qed simp

declare mkfs_ask.simps [simp del]

definition print_superblock :: "'d fstate \<Rightarrow> 'd fstate" where
  "print_superblock s =
     (let s = printk ''     magic: 0x%x'' [PNum (rd32 s (sb_field 0))] s;
          s = printk ''     num sector: %d, start sector: %d'' [PNum (rd32 s (sb_field 1)), PNum (rd32 s (sb_field 2))] s;
          s = printk ''     inode map offset: %d, inode map num: %d'' [PNum (rd32 s (sb_field 5)), PNum (rd32 s (sb_field 6))] s;
          s = printk ''     block map offset: %d, block map num: %d'' [PNum (rd32 s (sb_field 3)), PNum (rd32 s (sb_field 4))] s;
          s = printk ''     inode block offset: %d, inode block num: %d'' [PNum (rd32 s (sb_field 7)), PNum (rd32 s (sb_field 8))] s
      in printk ''     data block offset: %d, data block num: %d'' [PNum (rd32 s (sb_field 9)), PNum (rd32 s (sb_field 10))] s)"

definition init_superblock :: "'d sdcard \<Rightarrow> 'd fstate \<Rightarrow> 'd fstate" where
  "init_superblock D s =
     (let s = wr32 (sb_field 0) SUPERBLOCK_MAGIC s;
          s = wr32 (sb_field 1) FS_SIZE s;
          s = wr32 (sb_field 2) FS_START s;
          s = wr32 (sb_field 3) BLOCK_MAP_OFFSET s;
          s = wr32 (sb_field 4) BLOCK_MAP_NUM s;
          s = wr32 (sb_field 5) INODE_MAP_OFFSET s;
          s = wr32 (sb_field 6) INODE_MAP_NUM s;
          s = wr32 (sb_field 7) INODE_BLOCK_OFFSET s;
          s = wr32 (sb_field 8) INODE_BLOCK_NUM s;
          s = wr32 (sb_field 9) DATA_NUM_OFFSET s;
          s = wr32 (sb_field 10) DATA_BLOCK_NUM s
      in write_superblock D s)"

definition clear_area :: "'d sdcard \<Rightarrow> u32 \<Rightarrow> u32 \<Rightarrow> 'd fstate \<Rightarrow> 'd fstate" where
  "clear_area D start num s = fold (\<lambda>i. sd_write D SctBuffer 1 (FS_START + start + of_nat i)) [0..<unat num] s"

definition init_areas :: "'d sdcard \<Rightarrow> 'd fstate \<Rightarrow> 'd fstate" where
  "init_areas D s =
     (let s = zero_buffer SctBuffer SECTOR_SIZE s;
          s = printk ''[FS] Setting up inode map...'' [] s;
          s = clear_area D INODE_MAP_OFFSET INODE_MAP_NUM s;
          s = printk ''[FS] Setting up block map...'' [] s;
          s = clear_area D BLOCK_MAP_OFFSET BLOCK_MAP_NUM s;
          s = printk ''[FS] Setting up inode block...'' [] s
      in clear_area D INODE_BLOCK_OFFSET INODE_BLOCK_NUM s)"

definition init_root :: "'d sdcard \<Rightarrow> 'd fstate \<Rightarrow> 'd fstate res" where
  "init_root D s =
     bindE (alloc_inode D s) (\<lambda>(root_inode_id, s).
     bindE (alloc_block D s) (\<lambda>(root_dir_block, s).
       let (root_inode, s) = create_inode D root_inode_id root_dir_block I_DIR O_RDWR s;
           s = update_inode root_inode s;
           s = write_inode D (drop_bit 2 root_inode_id) s;
           s = printk ''     inode_num = %d'' [PNum root_inode_id] s;
           s = printk ''[FS] Setting up data block(root directory)...'' [] s;
           s = create_dir_block D root_dir_block root_inode_id root_inode_id s;
           s = printk ''     block_num = %d'' [PNum root_dir_block] s
       in Inr (printk ''[FS] Initialize filesystem finished.'' [] s)))"

definition do_mkfs :: "'d sdcard \<Rightarrow> 'd fstate \<Rightarrow> (int \<times> 'd fstate) res" where
  "do_mkfs D s =
     (let s = read_superblock D s;
          s = printk ''> [FS] Checking existence of FileSystem!'' [] s;
          fs_exist = (rd32 s (sb_field 0) = SUPERBLOCK_MAGIC);
          s = (if fs_exist then printk ''> [FS] FileSystem detected!'' [] s
               else init_superblock D
                      (printk ''> [FS] Setting up superblock...'' []
                        (printk ''> [FS] Start initialize filesystem!'' [] s)));
          s = print_superblock (printk ''> [FS] Checking superblock:'' [] s)
      in bindE (if fs_exist then mkfs_ask (input s) s else Inr (True, s)) (\<lambda>(reset, s).
           if reset then bindE (init_root D (init_areas D s)) (\<lambda>s. Inr (0, s)) else Inr (0, s)))"

definition do_statfs :: "'d sdcard \<Rightarrow> 'd fstate \<Rightarrow> int \<times> 'd fstate" where
  "do_statfs D s =
     (let s = read_superblock D s
      in if rd32 s (sb_field 0) = SUPERBLOCK_MAGIC
         then (let s = print_superblock (printk ''> [FS] Putting superblock:'' []
                         (printk ''> [FS] FileSystem detected!'' [] s));
                   s = get_inode_map D s;
                   s = printk ''    used inodes num: %d''
                         [PNum (of_nat (length (filter (\<lambda>i. fmem s (InodeMap, i) \<noteq> 0) [0..<SECTOR_SIZE])))] s;
                   s = get_block_map D s;
                   s = printk ''    used blocks num: %d''
                         [PNum (of_nat (length (filter (\<lambda>i. fmem s (BlockMap, i) \<noteq> 0) [0..<131072])))] s
               in (0, s))
         else (0, printk ''> [FS] Warning: NO FileSystem detected! '' [] s))"

definition do_cd :: "'d sdcard \<Rightarrow> fobj ptr \<Rightarrow> 'd fstate \<Rightarrow> (int \<times> 'd fstate) res" where
  "do_cd D path s =
     bindE (or_hang (walk_down D
              (\<lambda>dir subdir. printk ''Erorr: can find '%s', no such directroy'' [PStr subdir])
              (rd32 s (ino_id (CurrentInode, 0))) path s)) (\<lambda>(r, s).
       case r of None \<Rightarrow> Inr (0, s)
       | Some dir_id \<Rightarrow>
           (let (target_inode, s) = get_inode D dir_id s in Inr (0, update_inode target_inode s)))"

definition do_mkdir :: "'d sdcard \<Rightarrow> fobj ptr \<Rightarrow> 'd fstate \<Rightarrow> (int \<times> 'd fstate) res" where
  "do_mkdir D path s =
     bindE (start_walk D
              (\<lambda>dir subdir. printk ''Erorr: can not create '%s' under '%s', no such dir or file'' [PStr dir, PStr subdir])
              path s) (\<lambda>(r, s).
       case r of None \<Rightarrow> Inr (0, s)
       | Some (dir_id, dir) \<Rightarrow>
           bindE (is_name_illegal dir s) (\<lambda>bad.
             if bad then Inr (- 1, printk ''Please using a~z, A~Z, 0~9, -_.'' []
                                (printk ''Error:: illegal characters in dir name!!'' [] s))
             else bindE (search_dentry D dir_id dir D_DIR s) (\<lambda>(dentry_id, s).
               if dentry_id \<noteq> - 1 then Inr (- 1, printk ''Error: dir name had existed!!'' [] s)
               else bindE (alloc_inode D s) (\<lambda>(dentry_id, s).
                    bindE (create_dentry D dir_id dentry_id dir D_DIR s) (\<lambda>(dentry_id, s).
                    bindE (alloc_block D s) (\<lambda>(block_id, s).
                      let (_, s) = create_inode D dentry_id block_id I_DIR O_RDWR s;
                          s = write_inode D (drop_bit 2 dentry_id) s
                      in Inr (0, create_dir_block D block_id dir_id dentry_id s)))))))"

text \<open>The end of \<open>do_rmdir\<close> and \<open>do_rm\<close>: the block, the inode and its map entry are released.\<close>

definition remove_inode :: "'d sdcard \<Rightarrow> u32 \<Rightarrow> u32 \<Rightarrow> 'd fstate \<Rightarrow> (int \<times> 'd fstate) res" where
  "remove_inode D dentry_id type s =
     (let (to_delete_inode, s) = get_inode D dentry_id s
      in assertE (rd32 s (ino_type to_delete_inode) = type)
        (bindE (release_block D (rd32 s (direct_block to_delete_inode 0)) s) (\<lambda>s.
           let s = s\<lparr>fmem := memset (fmem s) to_delete_inode 0 INODE_SIZE\<rparr>;
               s = write_inode D (drop_bit 2 dentry_id) s
           in bindE (free_inode_map D dentry_id s) (\<lambda>s. Inr (0, s)))))"

definition do_rmdir :: "'d sdcard \<Rightarrow> fobj ptr \<Rightarrow> 'd fstate \<Rightarrow> (int \<times> 'd fstate) res" where
  "do_rmdir D path s =
     bindE (start_walk D
              (\<lambda>dir subdir. printk ''Erorr: can not delete '%s' under '%s', no such dir or file'' [PStr dir, PStr subdir])
              path s) (\<lambda>(r, s).
       case r of None \<Rightarrow> Inr (0, s)
       | Some (dir_id, dir) \<Rightarrow>
           bindE (search_dentry D dir_id dir D_DIR s) (\<lambda>(dentry_id, s).
             if dentry_id = - 1
             then Inr (- 1, printk ''Error: cannot remove '%s': No such directory!!'' [PStr dir] s)
             else bindE (delete_dentry D dir_id dentry_id D_DIR s) (\<lambda>(done, s).
               if \<not> done then Inr (- 1, s) else remove_inode D dentry_id I_DIR s)))"

fun ls_loop :: "'d sdcard \<Rightarrow> bool \<Rightarrow> nat \<Rightarrow> nat \<Rightarrow> u32 \<Rightarrow> 'd fstate \<Rightarrow> 'd fstate" where
  "ls_loop D all 0 i dentry_num s = s"
| "ls_loop D all (Suc n) i dentry_num s =
     (if dentry_num = 0 then s
      else if rd32 s (den_type i) \<noteq> 0 then
        (let s = (if all then
                    (let (tmp, s) = get_inode D (rd32 s (den_inode i)) s;
                         s = printk (if rd32 s (ino_type tmp) = I_DIR then ''d'' else ''-'') [] s;
                         s = printk '' %d '' [PNum (rd32 s (ino_id tmp))] s;
                         s = printk (if rd32 s (ino_mode tmp) AND 1 \<noteq> 0 then ''r'' else ''-'') [] s;
                         s = printk (if rd32 s (ino_mode tmp) AND 2 \<noteq> 0 then ''w'' else ''-'') [] s;
                         s = printk '' %d '' [PNum (rd32 s (ino_links tmp))] s
                     in printk '' %d '' [PNum (rd32 s (ino_size tmp))] s)
                  else s);
             s = printk ''%s'' [PStr (Some (den_name i))] s
         in ls_loop D all n (Suc i) (dentry_num - 1) s)
      else ls_loop D all n (Suc i) dentry_num s)"

definition do_ls :: "'d sdcard \<Rightarrow> fobj ptr \<Rightarrow> u32 \<Rightarrow> 'd fstate \<Rightarrow> (int \<times> 'd fstate) res" where
  "do_ls D path opts s =
     (let all = (opts AND 2 \<noteq> 0);
          dir_id = rd32 s (ino_id (CurrentInode, 0))
      in bindE (if opts AND 1 \<noteq> 0
                then or_hang (walk_down D
                       (\<lambda>dir subdir. printk ''Erorr: can find '%s' under '%s', no such directroy'' [PStr dir, PStr subdir])
                       dir_id path s)
                else Inr (Some dir_id, s)) (\<lambda>(r, s).
           case r of None \<Rightarrow> Inr (0, s)
           | Some dir_id \<Rightarrow>
               (let (tmp, s) = get_inode D dir_id s;
                    s = read_block D (rd32 s (direct_block tmp 0)) s;
                    s = printk ''total: %d'' [PNum (rd32 s (ino_file_num tmp))] s
                in Inr (0, ls_loop D all 128 0 (rd32 s (ino_file_num tmp)) s))))"

text \<open>\<open>do_touch\<close> returns the new inode's number; \<open>do_fopen\<close> takes it for an \<open>int\<close>.\<close>

definition do_touch :: "'d sdcard \<Rightarrow> fobj ptr \<Rightarrow> 'd fstate \<Rightarrow> (u32 \<times> 'd fstate) res" where
  "do_touch D path s =
     bindE (start_walk D
              (\<lambda>dir subdir. printk ''Erorr: can not create '%s' under '%s', no such directory!'' [PStr dir, PStr subdir])
              path s) (\<lambda>(r, s).
       case r of None \<Rightarrow> Inr (0, s)
       | Some (dir_id, dir) \<Rightarrow>
           bindE (is_name_illegal dir s) (\<lambda>bad.
             if bad then Inr (- 1, printk ''Please using a~z, A~Z, 0~9, -_.'' []
                                (printk ''Error:: illegal characters in file name!!'' [] s))
             else bindE (search_dentry D dir_id dir D_FILE s) (\<lambda>(dentry_id, s).
               if dentry_id \<noteq> - 1 then Inr (- 1, printk ''Error: filename had existed!!'' [] s)
               else bindE (alloc_inode D s) (\<lambda>(dentry_id, s).
                    bindE (create_dentry D dir_id dentry_id dir D_FILE s) (\<lambda>(dentry_id, s).
                    bindE (alloc_block D s) (\<lambda>(block_id, s).
                      let (_, s) = create_inode D dentry_id block_id I_FILE O_RDWR s;
                          s = write_inode D (drop_bit 2 dentry_id) s
                      in Inr (dentry_id, create_file_block D block_id s)))))))"

definition do_cat :: "'d sdcard \<Rightarrow> fobj ptr \<Rightarrow> 'd fstate \<Rightarrow> (int \<times> 'd fstate) res" where
  "do_cat D path s =
     bindE (start_walk D
              (\<lambda>dir subdir. printk ''Erorr: can not create '%s' under '%s', no such directory!'' [PStr dir, PStr subdir])
              path s) (\<lambda>(r, s).
       case r of None \<Rightarrow> Inr (0, s)
       | Some (dir_id, dir) \<Rightarrow>
           bindE (search_dentry D dir_id dir D_FILE s) (\<lambda>(dentry_id, s).
             if dentry_id = - 1 then Inr (- 1, printk ''Error: No such file!!'' [] s)
             else let (cat_inode, s) = get_inode D dentry_id s;
                      s = read_block D (rd32 s (direct_block cat_inode 0)) s
                  in Inr (0, printk ''%s'' [PStr (Some (BlkBuffer, 0))] s)))"

definition do_ln :: "'d sdcard \<Rightarrow> fobj ptr \<Rightarrow> fobj ptr \<Rightarrow> 'd fstate \<Rightarrow> (int \<times> 'd fstate) res" where
  "do_ln D src_path dst_path s =
     (let msg = (\<lambda>dir subdir. printk ''Erorr: can not fine '%s' under '%s', no such dir or file'' [PStr subdir, PStr dir])
      in bindE (start_walk D msg src_path s) (\<lambda>(r, s).
         case r of None \<Rightarrow> Inr (0, s)
         | Some (src_dir_id, src_dir) \<Rightarrow>
         bindE (start_walk D msg dst_path s) (\<lambda>(r, s).
         case r of None \<Rightarrow> Inr (0, s)
         | Some (dst_dir_id, dst_dir) \<Rightarrow>
         bindE (search_dentry D src_dir_id src_dir (D_DIR OR D_FILE) s) (\<lambda>(src_dentry_id, s).
         if src_dentry_id = - 1
         then Inr (- 1, printk ''Error: cannot link '%s': No such file or directory!!'' [PStr src_dir] s)
         else bindE (search_dentry D dst_dir_id dst_dir D_LINK s) (\<lambda>(dst_dentry_id, s).
         if dst_dentry_id \<noteq> - 1
         then Inr (- 1, printk ''Error: cannot link '%s': it has existed!!'' [PStr dst_dir] s)
         else let (src_inode, s) = get_inode D src_dentry_id s;
                  s = wr32 (ino_links src_inode) (rd32 s (ino_links src_inode) + 1) s;
                  s = write_inode D (drop_bit 2 src_dentry_id) s
              in bindE (create_dentry D dst_dir_id src_dentry_id dst_dir D_LINK s) (\<lambda>(_, s).
                 Inr (0, s)))))))"

definition do_rm :: "'d sdcard \<Rightarrow> fobj ptr \<Rightarrow> 'd fstate \<Rightarrow> (int \<times> 'd fstate) res" where
  "do_rm D path s =
     bindE (start_walk D
              (\<lambda>dir subdir. printk ''Erorr: can not delete '%s' under '%s', no such dir or file'' [PStr dir, PStr subdir])
              path s) (\<lambda>(r, s).
       case r of None \<Rightarrow> Inr (0, s)
       | Some (dir_id, dir) \<Rightarrow>
           bindE (search_dentry D dir_id dir D_FILE s) (\<lambda>(dentry_id, s).
             if dentry_id = - 1
             then Inr (- 1, printk ''Error: cannot remove '%s': No such file!!'' [PStr dir] s)
             else bindE (delete_dentry D dir_id dentry_id D_FILE s) (\<lambda>(done, s).
               if \<not> done then Inr (- 1, s) else remove_inode D dentry_id I_FILE s)))"

end
