(* ===== verification/FsFile.thy ===== *)
theory FsFile
  imports FsDir
begin

text \<open>
  Files (\<open>kernel/fs/fs.c\<close>): \<open>byte_locate\<close>, which maps a byte offset to a data block through the
  direct and indirect block pointers and allocates missing blocks, and the calls \<open>do_fopen\<close>,
  \<open>do_fread\<close>, \<open>do_fwrite\<close>, \<open>do_fclose\<close>, \<open>do_lseek\<close>.  A length is used as an unsigned 32-bit
  number, as the comparisons in the code convert it.
\<close>

section \<open>Block pointers\<close>

definition DIRECT_SIZE :: u32 where "DIRECT_SIZE = 9 + 5"
definition FIRST_BLOCK_SIZE :: u32 where "FIRST_BLOCK_SIZE = push_bit 10 1"
definition SECOND_BLOCK_SIZE :: u32 where "SECOND_BLOCK_SIZE = push_bit 20 1"
definition THIRD_BLOCK_SIZE :: u32 where "THIRD_BLOCK_SIZE = push_bit 30 1"
definition FIRST_LEVEL_SIZE :: u32 where "FIRST_LEVEL_SIZE = push_bit 10 3"
definition SECOND_LEVEL_SIZE :: u32 where "SECOND_LEVEL_SIZE = push_bit 20 2"
definition THIRD_LEVEL_SIZE :: u32 where "THIRD_LEVEL_SIZE = push_bit 30 1"

lemmas level_defs = DIRECT_SIZE_def FIRST_BLOCK_SIZE_def SECOND_BLOCK_SIZE_def THIRD_BLOCK_SIZE_def
  FIRST_LEVEL_SIZE_def SECOND_LEVEL_SIZE_def THIRD_LEVEL_SIZE_def

definition page_level :: "u32 \<Rightarrow> (nat \<times> u32) option" where
  "page_level page_id =
     (if page_id < DIRECT_SIZE then Some (0, page_id)
      else if page_id < DIRECT_SIZE + FIRST_LEVEL_SIZE then Some (1, page_id - DIRECT_SIZE)
      else if page_id < DIRECT_SIZE + FIRST_LEVEL_SIZE + SECOND_LEVEL_SIZE
      then Some (2, page_id - (DIRECT_SIZE + FIRST_LEVEL_SIZE))
      else if page_id < DIRECT_SIZE + FIRST_LEVEL_SIZE + SECOND_LEVEL_SIZE + THIRD_LEVEL_SIZE
      then Some (3, page_id - (DIRECT_SIZE + FIRST_LEVEL_SIZE + SECOND_LEVEL_SIZE))
      else None)"

text \<open>
  The id in a pointer field of the inode \<open>p\<close>, read from \<open>q\<close>; if it is 0 a zeroed block is
  allocated and its id stored in \<open>q'\<close> (a different field than \<open>q\<close> only in the third level).
\<close>

definition new_block :: "'d sdcard \<Rightarrow> fobj ptr \<Rightarrow> (u32 \<Rightarrow> 'd fstate \<Rightarrow> 'd fstate) \<Rightarrow> 'd fstate \<Rightarrow> (u32 \<times> 'd fstate) res"
where
  "new_block D p store s =
     bindE (alloc_block D s) (\<lambda>(b, s).
       let s = store b s in Inr (b, write_block D b (zero_buffer BlkBuffer BLOCK_SIZE s)))"

definition inode_slot :: "'d sdcard \<Rightarrow> fobj ptr \<Rightarrow> fobj ptr \<Rightarrow> fobj ptr \<Rightarrow> 'd fstate \<Rightarrow> (u32 \<times> 'd fstate) res" where
  "inode_slot D p q q' s =
     (if rd32 s q = 0
      then new_block D p (\<lambda>b s.
             let s = wr32 q' b s in wr32 (ino_blocks p) (rd32 s (ino_blocks p) + 1) s) s
      else Inr (rd32 s q, s))"

text \<open>The id at index \<open>k\<close> of the pointer block \<open>parent\<close>, allocated likewise.\<close>

definition block_slot :: "'d sdcard \<Rightarrow> fobj ptr \<Rightarrow> u32 \<Rightarrow> nat \<Rightarrow> 'd fstate \<Rightarrow> (u32 \<times> 'd fstate) res" where
  "block_slot D p parent k s =
     (let s = read_block D parent s
      in if rd32 s (BlkBuffer, 4 * k) = 0
         then new_block D p (\<lambda>b s.
                let s = wr32 (BlkBuffer, 4 * k) b s;
                    s = wr32 (ino_blocks p) (rd32 s (ino_blocks p) + 1) s
                in write_block D parent s) s
         else Inr (rd32 s (BlkBuffer, 4 * k), s))"

definition locate_block :: "'d sdcard \<Rightarrow> fobj ptr \<Rightarrow> nat \<Rightarrow> u32 \<Rightarrow> 'd fstate \<Rightarrow> (u32 \<times> 'd fstate) res" where
  "locate_block D p level page_id s =
     (if level = 0 then
        (let q = direct_block p (unat page_id) in inode_slot D p q q s)
      else if level = 1 then
        (let q = first_block p (unat (drop_bit 10 page_id))
         in bindE (inode_slot D p q q s) (\<lambda>(first_id, s).
            block_slot D p first_id (unat (page_id mod FIRST_BLOCK_SIZE)) s))
      else if level = 2 then
        (let q = second_block p (unat (drop_bit 20 page_id))
         in bindE (inode_slot D p q q s) (\<lambda>(second_id, s).
            let page_id = page_id mod SECOND_BLOCK_SIZE
            in bindE (block_slot D p second_id (unat (drop_bit 10 page_id)) s) (\<lambda>(first_id, s).
               block_slot D p first_id (unat (page_id mod FIRST_BLOCK_SIZE)) s)))
      else
        (let third_offset = unat (drop_bit 30 page_id)
         in bindE (inode_slot D p (second_block p third_offset) (third_block p third_offset) s) (\<lambda>(third_id, s).
            let page_id = page_id mod THIRD_BLOCK_SIZE
            in bindE (block_slot D p third_id (unat (drop_bit 20 page_id)) s) (\<lambda>(second_id, s).
               let page_id = page_id mod SECOND_BLOCK_SIZE
               in bindE (block_slot D p second_id (unat (drop_bit 10 page_id)) s) (\<lambda>(first_id, s).
                  block_slot D p first_id (unat (page_id mod FIRST_BLOCK_SIZE)) s)))))"

text \<open>\<open>None\<close> is the result -1; otherwise the block and the offset in it.\<close>

definition byte_locate :: "'d sdcard \<Rightarrow> u32 \<Rightarrow> fobj ptr \<Rightarrow> 'd fstate \<Rightarrow> ((u32 \<times> u32) option \<times> 'd fstate) res" where
  "byte_locate D offset in_inode s =
     (case page_level (drop_bit 12 offset) of
        None \<Rightarrow> Inr (None, s)
      | Some (level, page_id) \<Rightarrow>
          bindE (locate_block D in_inode level page_id s) (\<lambda>(direct_id, s).
            Inr (Some (direct_id, offset mod 4096), write_inode D (drop_bit 2 (rd32 s (ino_id in_inode))) s)))"

section \<open>System calls on files\<close>

definition fd_at :: "int \<Rightarrow> nat res" where
  "fd_at fd = (if 0 \<le> fd \<and> fd < int NUM_FDESCS then Inr (nat fd) else Inl Fault)"

definition upd_fd :: "nat \<Rightarrow> (fdesc_t \<Rightarrow> fdesc_t) \<Rightarrow> 'd fstate \<Rightarrow> 'd fstate" where
  "upd_fd i f s = s\<lparr>fdesc_array := (fdesc_array s)(i := f (fdesc_array s i))\<rparr>"

definition do_fopen :: "'d sdcard \<Rightarrow> fobj ptr \<Rightarrow> u32 \<Rightarrow> 'd fstate \<Rightarrow> (int \<times> 'd fstate) res" where
  "do_fopen D path mode s =
     bindE (search_dentry D (rd32 s (ino_id (CurrentInode, 0))) (Some path) I_FILE s) (\<lambda>(file_inode_id, s).
     bindE (if file_inode_id = - 1 then do_touch D path s else Inr (file_inode_id, s)) (\<lambda>(file_inode_id, s).
       let (file_inode, s) = get_inode D file_inode_id s
       in if rd32 s (ino_mode file_inode) AND mode = 0
          then Inr (- 1, printk ''Error: Permission denied'' [] s)
          else case find (\<lambda>i. fd_status (fdesc_array s i) = F_AVAILABLE) [0..<NUM_FDESCS] of
                 None \<Rightarrow> Inl Panic
               | Some i \<Rightarrow>
                   (let s = upd_fd i (fd_status_update (\<lambda>_. F_OCCUPIED)) s;
                        s = wr32 (ino_uid file_inode) (cur_pid s) s;
                        s = write_inode D (drop_bit 2 file_inode_id) s;
                        s = upd_fd i (fd_inode_id_update (\<lambda>_. file_inode_id)) s;
                        s = upd_fd i (fd_mode_update (\<lambda>_. mode)) s;
                        s = upd_fd i (rd_offset_update (\<lambda>_. 0)) s;
                        s = upd_fd i (wr_offset_update (\<lambda>_. 0)) s
                    in Inr (int i, s))))"

text \<open>
  The transfer loops.  Every round moves at least one byte, so as much fuel as the length is enough
  for all rounds (\<open>fread_fuel\<close>, \<open>fwrite_fuel\<close> below).  \<open>None\<close>: the position cannot be located.
\<close>

definition chunk :: "u32 \<Rightarrow> u32 \<Rightarrow> u32" where
  "chunk len block_offset = (if len < 4096 - block_offset then len else 4096 - block_offset)"

fun fread_loop ::
  "'d sdcard \<Rightarrow> nat \<Rightarrow> nat \<Rightarrow> fobj ptr \<Rightarrow> fobj ptr \<Rightarrow> u32 \<Rightarrow> u32 \<Rightarrow> 'd fstate \<Rightarrow> (u32 option \<times> 'd fstate) res" where
  "fread_loop D fuel fd rd_inode buff len bytes s =
     (if len = 0 then Inr (Some bytes, s)
      else case fuel of 0 \<Rightarrow> Inl Hang
      | Suc fuel \<Rightarrow>
        bindE (byte_locate D (rd_offset (fdesc_array s fd)) rd_inode s) (\<lambda>(loc, s).
          case loc of None \<Rightarrow> Inr (None, s)
          | Some (block_id, block_offset) \<Rightarrow>
              (let rd_size = chunk len block_offset;
                   s = read_block D block_id s;
                   s = s\<lparr>fmem := memcpy (fmem s) (padd buff (unat bytes)) (BlkBuffer, unat block_offset) (unat rd_size)\<rparr>;
                   s = upd_fd fd (rd_offset_update (\<lambda>n. n + rd_size)) s
               in fread_loop D fuel fd rd_inode buff (len - rd_size) (bytes + rd_size) s)))"

definition do_fread :: "'d sdcard \<Rightarrow> int \<Rightarrow> fobj ptr \<Rightarrow> u32 \<Rightarrow> 'd fstate \<Rightarrow> (u32 \<times> 'd fstate) res" where
  "do_fread D fd buff len s =
     bindE (fd_at fd) (\<lambda>i.
       if fd_mode (fdesc_array s i) = O_WRONLY then Inr (0, s)
       else if fd_status (fdesc_array s i) = F_AVAILABLE then Inr (0, s)
       else let (rd_inode, s) = get_inode D (fd_inode_id (fdesc_array s i)) s
            in if rd32 s (ino_size rd_inode) < rd_offset (fdesc_array s i) + len then Inr (0, s)
               else bindE (fread_loop D (unat len) i rd_inode buff len 0 s) (\<lambda>(r, s).
                 case r of None \<Rightarrow> Inr (0, s)
                 | Some bytes \<Rightarrow>
                     (let s = wr32 (ino_size rd_inode)
                                (max (rd32 s (ino_size rd_inode)) (rd_offset (fdesc_array s i))) s
                      in Inr (bytes, write_inode D (drop_bit 2 (rd32 s (ino_id rd_inode))) s))))"

fun fwrite_loop ::
  "'d sdcard \<Rightarrow> nat \<Rightarrow> nat \<Rightarrow> fobj ptr \<Rightarrow> fobj ptr \<Rightarrow> u32 \<Rightarrow> u32 \<Rightarrow> 'd fstate \<Rightarrow> (u32 option \<times> 'd fstate) res" where
  "fwrite_loop D fuel fd wr_inode buff len bytes s =
     (if len = 0 then Inr (Some bytes, s)
      else case fuel of 0 \<Rightarrow> Inl Hang
      | Suc fuel \<Rightarrow>
        bindE (byte_locate D (wr_offset (fdesc_array s fd)) wr_inode s) (\<lambda>(loc, s).
          case loc of None \<Rightarrow> Inr (None, s)
          | Some (block_id, block_offset) \<Rightarrow>
              (let wr_size = chunk len block_offset;
                   s = read_block D block_id s;
                   s = s\<lparr>fmem := memcpy (fmem s) (BlkBuffer, unat block_offset) (padd buff (unat bytes)) (unat wr_size)\<rparr>;
                   s = write_block D block_id s;
                   s = upd_fd fd (wr_offset_update (\<lambda>n. n + wr_size)) s
               in fwrite_loop D fuel fd wr_inode buff (len - wr_size) (bytes + wr_size) s)))"

declare fread_loop.simps [simp del] fwrite_loop.simps [simp del]

text \<open>
  The size test \<open>(1ul << 32) < fp->wr_offset + length\<close> compares with a 32-bit sum, so it never
  holds; it is kept here as it is written.
\<close>

definition do_fwrite :: "'d sdcard \<Rightarrow> int \<Rightarrow> fobj ptr \<Rightarrow> u32 \<Rightarrow> 'd fstate \<Rightarrow> (u32 \<times> 'd fstate) res" where
  "do_fwrite D fd buff len s =
     bindE (fd_at fd) (\<lambda>i.
       if fd_mode (fdesc_array s i) = O_RDONLY then Inr (0, s)
       else if fd_status (fdesc_array s i) = F_AVAILABLE then Inr (0, s)
       else if (push_bit 32 1 :: u64) < ucast (wr_offset (fdesc_array s i) + len) then Inr (0, s)
       else let (wr_inode, s) = get_inode D (fd_inode_id (fdesc_array s i)) s
            in bindE (fwrite_loop D (unat len) i wr_inode buff len 0 s) (\<lambda>(r, s).
                 case r of None \<Rightarrow> Inr (0, s)
                 | Some bytes \<Rightarrow>
                     (let s = wr32 (ino_size wr_inode)
                                (max (rd32 s (ino_size wr_inode)) (wr_offset (fdesc_array s i))) s
                      in Inr (bytes, write_inode D (drop_bit 2 (rd32 s (ino_id wr_inode))) s))))"

definition do_fclose :: "int \<Rightarrow> 'd fstate \<Rightarrow> (int \<times> 'd fstate) res" where
  "do_fclose fd s =
     bindE (fd_at fd) (\<lambda>i.
       Inr (0, upd_fd i (\<lambda>_. \<lparr>fd_inode_id = 0, fd_status = 0, fd_mode = 0, rd_offset = 0, wr_offset = 0\<rparr>) s))"

text \<open>The target of a seek; \<open>None\<close> is the value \<open>target_offset\<close> was never given.\<close>

definition seek_target :: "int \<Rightarrow> u32 \<Rightarrow> u32 \<Rightarrow> u32 \<Rightarrow> u32 option" where
  "seek_target whence offset cur fsize =
     (if whence = 0 then Some offset
      else if whence = 1 then Some (cur + offset)
      else if whence = 2 then Some (fsize + offset)
      else None)"

definition do_lseek :: "'d sdcard \<Rightarrow> int \<Rightarrow> u32 \<Rightarrow> int \<Rightarrow> 'd fstate \<Rightarrow> (int \<times> 'd fstate) res" where
  "do_lseek D fd offset whence s =
     bindE (fd_at fd) (\<lambda>i.
       if fd_status (fdesc_array s i) = F_AVAILABLE then Inr (- 1, s)
       else let (seek_inode, s) = get_inode D (fd_inode_id (fdesc_array s i)) s;
                finish = (\<lambda>s. Inr (0, write_inode D (drop_bit 2 (fd_inode_id (fdesc_array s i))) s));
                wr_part = (\<lambda>s.
                  if fd_mode (fdesc_array s i) AND 2 \<noteq> 0
                  then case seek_target whence offset (wr_offset (fdesc_array s i)) (rd32 s (ino_size seek_inode)) of
                         None \<Rightarrow> Inl Fault
                       | Some target_offset \<Rightarrow>
                           if target_offset > rd32 s (ino_size seek_inode)
                           then bindE (byte_locate D target_offset seek_inode s) (\<lambda>(_, s).
                                  finish (upd_fd i (wr_offset_update (\<lambda>_. target_offset))
                                            (wr32 (ino_size seek_inode) target_offset s)))
                           else finish (upd_fd i (wr_offset_update (\<lambda>_. target_offset)) s)
                  else finish s)
            in if fd_mode (fdesc_array s i) AND 1 \<noteq> 0
               then case seek_target whence offset (rd_offset (fdesc_array s i)) (rd32 s (ino_size seek_inode)) of
                      None \<Rightarrow> Inl Fault
                    | Some target_offset \<Rightarrow>
                        if target_offset > rd32 s (ino_size seek_inode) then Inr (- 1, s)
                        else wr_part (upd_fd i (rd_offset_update (\<lambda>_. target_offset)) s)
               else wr_part s)"

end
