(* ===== verification/FsDirSpec.thy ===== *)
theory FsDirSpec
  imports FsDir
begin

text \<open>
  What the directory operations of \<open>fs.c\<close> promise.  A directory block is a table of 128 entries; the
  abstraction reads each entry as its type, inode number and name.  \<open>dir_ok\<close> is the invariant of a
  directory: the entry count of the inode is the number of used entries, used entries have
  terminated names and free entries have zeroed names.  \<open>create_dentry\<close> relies on the last point (it
  copies a name without its terminator) and \<open>search_dentry\<close> on the first (it stops after as many
  used entries as the inode counts).
\<close>

section \<open>Entries of a directory block\<close>

type_synonym dentry = "u32 \<times> u32 \<times> u8 list"

definition ent_type :: "fobj mem \<Rightarrow> nat \<Rightarrow> u32" where
  "ent_type m i = get_u32 m (den_type i)"

definition ent_name :: "fobj mem \<Rightarrow> nat \<Rightarrow> u8 list" where
  "ent_name m i = takeWhile ((\<noteq>) 0) (bytes_at m (den_name i) D_NAME)"

definition entry :: "fobj mem \<Rightarrow> nat \<Rightarrow> dentry" where
  "entry m i = (ent_type m i, get_u32 m (den_inode i), ent_name m i)"

definition dir_list :: "fobj mem \<Rightarrow> dentry list" where
  "dir_list m = map (entry m) [0..<128]"

text \<open>The first entry of a type in \<open>type\<close> with a name, as the calls want it.\<close>

definition dir_find :: "u8 list \<Rightarrow> u32 \<Rightarrow> dentry list \<Rightarrow> u32" where
  "dir_find name type es =
     (case find (\<lambda>(t, x, nm). t AND type \<noteq> 0 \<and> nm = name) es of Some (t, x, nm) \<Rightarrow> x | None \<Rightarrow> - 1)"

definition entry_ok :: "fobj mem \<Rightarrow> nat \<Rightarrow> bool" where
  "entry_ok m i \<longleftrightarrow>
     (if ent_type m i = 0 then \<forall>k<24. m (padd (den_name i) k) = 0 else \<exists>k<24. m (padd (den_name i) k) = 0)"

definition used :: "fobj mem \<Rightarrow> nat set" where
  "used m = {i. i < 128 \<and> ent_type m i \<noteq> 0}"

definition table_ok :: "fobj mem \<Rightarrow> u32 \<Rightarrow> bool" where
  "table_ok m file_num \<longleftrightarrow> (\<forall>i<128. entry_ok m i) \<and> unat file_num = card (used m)"

lemma finite_used [simp]: "finite (used m)"
  by (simp add: used_def)

lemma card_used: "card (used m) \<le> 128"
  using card_mono [of "{..<128}" "used m"] by (auto simp: used_def)

lemma entry_cong:
  assumes "\<And>k. 32 * i \<le> k \<Longrightarrow> k < 32 * i + 32 \<Longrightarrow> m (BlkBuffer, k) = m' (BlkBuffer, k)"
  shows "entry m i = entry m' i" and "entry_ok m i = entry_ok m' i" and "ent_type m i = ent_type m' i"
proof -
  have t: "get_u32 m (den_type i) = get_u32 m' (den_type i)" "get_u32 m (den_inode i) = get_u32 m' (den_inode i)"
    by (rule get_u32_cong; simp add: den_defs assms)+
  have n: "m (padd (den_name i) k) = m' (padd (den_name i) k)" if "k < 24" for k
    using that by (simp add: den_defs assms)
  then have "bytes_at m (den_name i) 24 = bytes_at m' (den_name i) 24"
    by (intro bytes_at_cong)
  with t n show "entry m i = entry m' i" "entry_ok m i = entry_ok m' i" "ent_type m i = ent_type m' i"
    by (auto simp: entry_def ent_type_def ent_name_def D_NAME_def entry_ok_def)
qed

lemma ent_name_cstr:
  assumes "\<exists>k<24. m (padd (den_name i) k) = 0"
  shows "cstr m (den_name i) (ent_name m i)"
proof -
  let ?b = "bytes_at m (den_name i) 24" and ?t = "ent_name m i"
  have t: "?t = takeWhile ((\<noteq>) 0) ?b" by (simp add: ent_name_def D_NAME_def)
  have b: "?b = ?t @ dropWhile ((\<noteq>) 0) ?b" by (simp add: t)
  have "0 \<in> set ?b" using assms by (force simp: in_set_conv_nth)
  then have ne: "dropWhile ((\<noteq>) 0) ?b \<noteq> []" by (auto simp: dropWhile_eq_Nil_conv)
  have "24 = length ?t + length (dropWhile ((\<noteq>) 0) ?b)" by (metis b length_append length_bytes_at)
  with length_greater_0_conv [THEN iffD2, OF ne] have len: "length ?t < 24" by linarith
  have "?b ! length ?t = 0"
    using ne hd_dropWhile [OF ne] by (subst b) (simp add: nth_append hd_conv_nth)
  moreover have "?b ! j = ?t ! j" if "j < length ?t" for j
    using that by (subst b) (simp add: nth_append)
  moreover have "?t ! j \<noteq> 0" if "j < length ?t" for j
    using nth_mem [OF that] by (auto simp: t dest: set_takeWhileD)
  ultimately show ?thesis using len by (simp add: cstr_iff)
qed

lemma ent_name_unique: "cstr m (den_name i) nm \<Longrightarrow> length nm < 24 \<Longrightarrow> ent_name m i = nm"
  by (rule cstr_unique [OF ent_name_cstr]) (auto dest: cstr_end)

section \<open>Searching\<close>

definition hits :: "fobj mem \<Rightarrow> u8 list \<Rightarrow> u32 \<Rightarrow> nat \<Rightarrow> bool" where
  "hits m name type i \<longleftrightarrow> ent_type m i AND type \<noteq> 0 \<and> ent_name m i = name"

lemma find_map: "find P (map f xs) = map_option f (find (P \<circ> f) xs)"
  by (induction xs) auto

lemma dir_find_eq:
  "dir_find name type (dir_list m) =
     (case find (hits m name type) [0..<128] of Some j \<Rightarrow> get_u32 m (den_inode j) | None \<Rightarrow> - 1)"
proof -
  have "(\<lambda>(t, x, nm). t AND type \<noteq> 0 \<and> nm = name) \<circ> entry m = hits m name type"
    by (auto simp: fun_eq_iff entry_def hits_def)
  then show ?thesis
    by (simp add: dir_find_def dir_list_def find_map entry_def split: option.split)
qed

lemma search_loop_eq:
  assumes ok: "table_ok (fmem s) file_num" and p: "cstr (fmem s) p name"
  shows "n + i = 128 \<Longrightarrow> unat found = card (used (fmem s) \<inter> {..<i}) \<Longrightarrow>
    search_loop n i found file_num (Some p) type s =
      Inr (case find (hits (fmem s) name type) [i..<128] of Some j \<Rightarrow> rd32 s (den_inode j) | None \<Rightarrow> - 1)"
proof (induction n arbitrary: i found)
  case (Suc n)
  let ?U = "used (fmem s)"
  define f where "f = (if rd32 s (den_type i) \<noteq> 0 then found + 1 else found)"
  have i: "i < 128" using Suc.prems by simp
  have upt: "[i..<128] = i # [Suc i..<128]" using i by (simp add: upt_conv_Cons)
  have step: "?U \<inter> {..<Suc i} = (if ent_type (fmem s) i \<noteq> 0 then insert i (?U \<inter> {..<i}) else ?U \<inter> {..<i})"
    using i by (auto simp: used_def less_Suc_eq)
  have "card (?U \<inter> {..<i}) \<le> 128" using card_mono [of ?U "?U \<inter> {..<i}"] card_used [of "fmem s"] by simp
  then have "unat (found + 1) = Suc (card (?U \<inter> {..<i}))"
    using Suc.prems(2) by (simp add: unat_plus_if')
  then have found: "unat f = card (?U \<inter> {..<Suc i})"
    using Suc.prems(2) by (simp add: f_def step ent_type_def rd32_def)
  have hit: "(if rd32 s (den_type i) AND type \<noteq> 0 then den_match i (Some p) s else Inr False) =
      Inr (hits (fmem s) name type i)"
  proof (cases "rd32 s (den_type i) AND type \<noteq> 0")
    case True
    then have "ent_type (fmem s) i \<noteq> 0" by (auto simp: ent_type_def rd32_def)
    with ok i have "cstr (fmem s) (den_name i) (ent_name (fmem s) i)"
      by (intro ent_name_cstr) (auto simp: table_ok_def entry_ok_def)
    with p True show ?thesis
      by (auto simp: den_match_def hits_def ent_type_def rd32_def strcmp_cstr cstr_nonzero)
  qed (simp add: hits_def ent_type_def rd32_def)
  have stop: "find (hits (fmem s) name type) [Suc i..<128] = None" if "f = file_num"
  proof -
    have "card (?U \<inter> {..<Suc i}) = card ?U" using that found ok by (simp add: table_ok_def)
    then have "?U \<subseteq> {..<Suc i}" using card_subset_eq [of ?U "?U \<inter> {..<Suc i}"] by auto
    then have "\<forall>j. Suc i \<le> j \<and> j < 128 \<longrightarrow> ent_type (fmem s) j = 0" by (force simp: used_def)
    then show ?thesis by (auto simp: find_None_iff hits_def)
  qed
  have "search_loop n (Suc i) f file_num (Some p) type s =
      Inr (case find (hits (fmem s) name type) [Suc i..<128] of Some j \<Rightarrow> rd32 s (den_inode j) | None \<Rightarrow> - 1)"
    using Suc.prems(1) found by (intro Suc.IH) auto
  with stop show ?case
    unfolding search_loop.simps Let_def hit f_def [symmetric] bindE_Inr by (simp add: upt)
qed simp

section \<open>Directories on the card\<close>

text \<open>The contents of a block as a memory, and the block of a directory.\<close>

definition block_mem :: "'d sdcard \<Rightarrow> 'd \<Rightarrow> u32 \<Rightarrow> fobj mem" where
  "block_mem D d b = (\<lambda>(c, j). area_byte D d (ABlock b) j)"

definition dir_block :: "'d sdcard \<Rightarrow> 'd \<Rightarrow> u32 \<Rightarrow> u32" where
  "dir_block D d n = inode_u32 D d n 32"

definition dir_at :: "'d sdcard \<Rightarrow> 'd \<Rightarrow> u32 \<Rightarrow> dentry list" where
  "dir_at D d n = dir_list (block_mem D d (dir_block D d n))"

definition dir_ok :: "'d sdcard \<Rightarrow> 'd \<Rightarrow> u32 \<Rightarrow> bool" where
  "dir_ok D d n \<longleftrightarrow> n < 2048 \<and> dir_block D d n < 131072 \<and>
     table_ok (block_mem D d (dir_block D d n)) (inode_u32 D d n 16)"

lemma dir_list_cong:
  assumes "\<And>k. k < 4096 \<Longrightarrow> m (BlkBuffer, k) = m' (BlkBuffer, k)"
  shows "dir_list m = dir_list m'" and "table_ok m x = table_ok m' x" and "used m = used m'"
proof -
  have e: "entry m i = entry m' i" "entry_ok m i = entry_ok m' i" "ent_type m i = ent_type m' i" if "i < 128" for i
    by (rule entry_cong; use that assms in simp)+
  show "dir_list m = dir_list m'" by (simp add: dir_list_def e)
  show "used m = used m'" using e by (auto simp: used_def)
  then show "table_ok m x = table_ok m' x" using e by (auto simp: table_ok_def)
qed

text \<open>The state in which \<open>search_dentry\<close>, \<open>create_dentry\<close> and \<open>delete_dentry\<close> look at the entries.\<close>

definition open_dir :: "'d sdcard \<Rightarrow> u32 \<Rightarrow> 'd fstate \<Rightarrow> 'd fstate" where
  "open_dir D n s = area_read D BlkBuffer (ABlock (dir_block D (sd s) n)) (area_read D SctBuffer (AInodes (drop_bit 2 n)) s)"

lemma open_dir_field:
  assumes "k + 4 \<le> 128"
  shows "rd32 (open_dir D n s) (padd (inode_ptr n) k) = inode_u32 D (sd s) n k"
proof -
  have "rd32 (open_dir D n s) (padd (inode_ptr n) k) =
      rd32 (area_read D SctBuffer (AInodes (drop_bit 2 n)) s) (padd (inode_ptr n) k)"
    by (simp add: open_dir_def inode_ptr_def rd32_area_read_other)
  then show ?thesis using assms by (simp add: inode_field_read)
qed

lemma open_dir_sd [simp]: "sd (open_dir D n s) = sd s"
  by (simp add: open_dir_def)

lemma open_dir_mem:
  "fmem (open_dir D n s) (c, j) =
     (if c = BlkBuffer \<and> j < 4096 then area_byte D (sd s) (ABlock (dir_block D (sd s) n)) j
      else if c = SctBuffer \<and> j < 512 then area_byte D (sd s) (AInodes (drop_bit 2 n)) j else fmem s (c, j))"
  by (simp add: open_dir_def area_read_mem)

lemma open_dir_list:
  "dir_list (fmem (open_dir D n s)) = dir_at D (sd s) n"
  "table_ok (fmem (open_dir D n s)) x = table_ok (block_mem D (sd s) (dir_block D (sd s) n)) x"
  unfolding dir_at_def by (rule dir_list_cong; simp add: open_dir_mem block_mem_def)+

lemma search_dentry_open:
  "search_dentry D n name type s =
     bindE (search_loop 128 0 0 (inode_u32 D (sd s) n 16) name type (open_dir D n s)) (\<lambda>r. Inr (r, open_dir D n s))"
proof -
  have "rd32 (area_read D SctBuffer (AInodes (drop_bit 2 n)) s) (padd (inode_ptr n) 32) = dir_block D (sd s) n"
    by (simp add: dir_block_def inode_field_read)
  then have o: "open_dir D n s = area_read D BlkBuffer (ABlock (rd32 (area_read D SctBuffer (AInodes (drop_bit 2 n)) s)
      (direct_block (inode_ptr n) 0))) (area_read D SctBuffer (AInodes (drop_bit 2 n)) s)"
    by (simp add: open_dir_def direct_block_def)
  have f: "rd32 (open_dir D n s) (ino_file_num (inode_ptr n)) = inode_u32 D (sd s) n 16"
    by (simp add: ino_file_num_def open_dir_field)
  show ?thesis
    unfolding search_dentry_def get_inode_def Let_def transfers prod.case o [symmetric] f ..
qed

lemma search_dentry_eq:
  assumes "dir_ok D (sd s) n" and "cstr (fmem s) p name" and "fst p \<noteq> SctBuffer" and "fst p \<noteq> BlkBuffer"
  shows "search_dentry D n (Some p) type s = Inr (dir_find name type (dir_at D (sd s) n), open_dir D n s)"
proof -
  have "cstr (fmem (open_dir D n s)) p name = cstr (fmem s) p name"
    using assms(3,4) by (intro cstr_cong) (cases p, simp add: open_dir_mem)
  moreover have "table_ok (fmem (open_dir D n s)) (inode_u32 D (sd s) n 16)"
    using assms(1) by (simp add: dir_ok_def open_dir_list)
  ultimately have "search_loop 128 0 0 (inode_u32 D (sd s) n 16) (Some p) type (open_dir D n s) =
      Inr (dir_find name type (dir_list (fmem (open_dir D n s))))"
    using assms(2) by (subst search_loop_eq) (simp_all add: dir_find_eq rd32_def cong: option.case_cong)
  then show ?thesis by (simp add: search_dentry_open open_dir_list)
qed

section \<open>Changing one entry\<close>

text \<open>\<open>m'\<close> differs from \<open>m\<close> at most in the bytes of entry \<open>i\<close> of the directory block.\<close>

definition only_entry :: "nat \<Rightarrow> fobj mem \<Rightarrow> fobj mem \<Rightarrow> bool" where
  "only_entry i m m' \<longleftrightarrow> (\<forall>c k. c \<noteq> BlkBuffer \<or> k < 32 * i \<or> 32 * i + 32 \<le> k \<longrightarrow> m' (c, k) = m (c, k))"

lemma only_entry_other:
  assumes "only_entry i m m'" and "j \<noteq> i"
  shows "entry m' j = entry m j" and "entry_ok m' j = entry_ok m j" and "ent_type m' j = ent_type m j"
proof -
  have "m' (BlkBuffer, k) = m (BlkBuffer, k)" if "32 * j \<le> k" "k < 32 * j + 32" for k
  proof -
    have "k < 32 * i \<or> 32 * i + 32 \<le> k" using assms(2) that by presburger
    then show ?thesis using assms(1) unfolding only_entry_def by blast
  qed
  then show "entry m' j = entry m j" "entry_ok m' j = entry_ok m j" "ent_type m' j = ent_type m j"
    by (rule entry_cong; simp)+
qed

lemma only_entry_list:
  assumes "only_entry i m m'" and "i < 128"
  shows "dir_list m' = (dir_list m)[i := entry m' i]"
  using only_entry_other(1) [OF assms(1)] assms(2)
  by (auto simp: dir_list_def list_eq_iff_nth_eq nth_list_update)

lemma only_entry_used:
  assumes "only_entry i m m'" and "i < 128"
  shows "used m' = (if ent_type m' i = 0 then used m - {i} else insert i (used m))"
  using only_entry_other(3) [OF assms(1)] assms(2) by (auto simp: used_def) metis+

lemma table_ok_add:
  assumes "table_ok m x" and "only_entry i m m'" and "i < 128"
    and "ent_type m i = 0" and "ent_type m' i \<noteq> 0" and "entry_ok m' i"
  shows "table_ok m' (x + 1)"
proof -
  have "i \<notin> used m" using assms(4) by (simp add: used_def)
  then have "card (used m') = Suc (card (used m))" using assms(5) by (simp add: only_entry_used [OF assms(2,3)])
  moreover have "unat x \<le> 128" using assms(1) card_used by (simp add: table_ok_def)
  moreover have "\<forall>j<128. entry_ok m' j"
    using assms(1,6) only_entry_other(2) [OF assms(2)] unfolding table_ok_def by metis
  ultimately show ?thesis using assms(1) by (simp add: table_ok_def unat_plus_if')
qed

lemma table_ok_remove:
  assumes "table_ok m x" and "only_entry i m m'" and "i < 128"
    and "ent_type m i \<noteq> 0" and "ent_type m' i = 0" and "entry_ok m' i"
  shows "table_ok m' (x - 1)"
proof -
  have "i \<in> used m" using assms(3,4) by (simp add: used_def)
  then have c: "card (used m') = card (used m) - 1" "0 < card (used m)"
    using assms(5) by (auto simp: only_entry_used [OF assms(2,3)] card_gt_0_iff)
  then have "unat (x - 1) = unat x - 1"
    using assms(1) by (simp add: table_ok_def unat_sub_if' )
  moreover have "\<forall>j<128. entry_ok m' j"
    using assms(1,6) only_entry_other(2) [OF assms(2)] unfolding table_ok_def by metis
  ultimately show ?thesis using c assms(1) by (simp add: table_ok_def)
qed

text \<open>Writing a new entry into a free slot: \<open>create_dentry\<close> copies the name over zeroed bytes.\<close>

lemma put_entry:
  assumes "entry_ok m i" and "ent_type m i = 0" and nm: "cstr m p nm" "length nm < 24" "fst p \<noteq> BlkBuffer"
    and "type \<noteq> 0"
    and m': "m' = memcpy (put_u32 (put_u32 m (den_inode i) sub) (den_type i) type) (den_name i) p (length nm)"
  shows "only_entry i m m'" and "entry m' i = (type, sub, nm)" and "entry_ok m' i"
proof -
  let ?m = "put_u32 (put_u32 m (den_inode i) sub) (den_type i) type"
  obtain b y where p: "p = (b, y)" by (cases p)
  have bytes: "m' (c, k) = (if c = BlkBuffer \<and> 32 * i + 8 \<le> k \<and> k < 32 * i + 8 + length nm
      then m (b, y + (k - (32 * i + 8))) else ?m (c, k))" for c k
    using nm(3) by (simp add: m' memcpy_closed p den_defs put_u32_outside)
  have "get_u32 m' (den_type i) = get_u32 ?m (den_type i)" "get_u32 m' (den_inode i) = get_u32 ?m (den_inode i)"
    by (rule get_u32_cong; simp add: den_defs bytes)+
  then have t: "get_u32 m' (den_type i) = type" "get_u32 m' (den_inode i) = sub"
    by (simp_all add: den_defs get_put_u32_outside)
  have zero: "m (BlkBuffer, 32 * i + 8 + k) = 0" if "k < 24" for k
    using assms(1,2) that by (simp add: entry_ok_def den_defs)
  have name: "cstr m' (den_name i) nm"
    using cstr_nth [OF nm(1)] nm(2) zero [of "length nm"]
    by (auto simp: cstr_iff bytes den_defs put_u32_outside p)
  show "entry m' i = (type, sub, nm)"
    using t ent_name_unique [OF name nm(2)] by (simp add: entry_def ent_type_def)
  show "entry_ok m' i" using t cstr_end [OF name] nm(2) assms(6) by (auto simp: entry_ok_def ent_type_def)
  show "only_entry i m m'" using nm(2) by (auto simp: only_entry_def bytes den_defs put_u32_outside)
qed

lemma clear_entry:
  assumes m': "m' = memset (put_u32 m (den_type i) 0) (den_name i) 0 D_NAME"
  shows "only_entry i m m'" and "entry m' i = (0, get_u32 m (den_inode i), [])" and "entry_ok m' i"
proof -
  have bytes: "m' (c, k) = (if c = BlkBuffer \<and> 32 * i + 8 \<le> k \<and> k < 32 * i + 32
      then 0 else put_u32 m (den_type i) 0 (c, k))" for c k
    by (simp add: m' memset_closed den_defs D_NAME_def)
  have "get_u32 m' (den_type i) = get_u32 (put_u32 m (den_type i) 0) (den_type i)"
    "get_u32 m' (den_inode i) = get_u32 (put_u32 m (den_type i) 0) (den_inode i)"
    by (rule get_u32_cong; simp add: den_defs bytes)+
  then have t: "get_u32 m' (den_type i) = 0" "get_u32 m' (den_inode i) = get_u32 m (den_inode i)"
    by (simp_all add: den_defs get_put_u32_outside)
  have "cstr m' (den_name i) []" by (simp add: den_defs bytes)
  then show "entry m' i = (0, get_u32 m (den_inode i), [])"
    using t ent_name_unique [of m' i "[]"] by (simp add: entry_def ent_type_def)
  show "entry_ok m' i" using t by (simp add: entry_ok_def ent_type_def den_defs bytes)
  show "only_entry i m m'" by (auto simp: only_entry_def bytes den_defs put_u32_outside)
qed

section \<open>Saving a directory\<close>

text \<open>
  \<open>dir_saved D n blk F m d d'\<close>: card \<open>d'\<close> is \<open>d\<close> with the fields \<open>F\<close> in inode \<open>n\<close> and the buffer of
  memory \<open>m\<close> in block \<open>blk\<close>; all other inodes, blocks and maps are as in \<open>d\<close>.
\<close>

definition dir_saved ::
  "'d sdcard \<Rightarrow> u32 \<Rightarrow> u32 \<Rightarrow> (nat \<Rightarrow> u32) \<Rightarrow> fobj mem \<Rightarrow> 'd \<Rightarrow> 'd \<Rightarrow> bool" where
  "dir_saved D n blk F m d d' \<longleftrightarrow>
     (\<forall>k. k \<le> 124 \<longrightarrow> 4 dvd k \<longrightarrow> inode_u32 D d' n k = F k) \<and>
     (\<forall>j<4096. area_byte D d' (ABlock blk) j = m (BlkBuffer, j)) \<and>
     (\<forall>n' k. n' < 2048 \<longrightarrow> n' \<noteq> n \<longrightarrow> k < 128 \<longrightarrow> inode_byte D d' n' k = inode_byte D d n' k) \<and>
     (\<forall>a k. area_ok a \<longrightarrow> a \<noteq> AInodes (drop_bit 2 n) \<longrightarrow> a \<noteq> ABlock blk \<longrightarrow> k < 512 * area_len a \<longrightarrow>
        area_byte D d' a k = area_byte D d a k)"

lemma block_write_inode:
  assumes D: "sd_ok D" and "n < 2048" and "blk < 131072"
  shows "k + 4 \<le> 128 \<Longrightarrow> inode_u32 D (sd (area_write D BlkBuffer (ABlock blk) s)) n k = inode_u32 D (sd s) n k"
    and "k < 128 \<Longrightarrow> inode_byte D (sd (area_write D BlkBuffer (ABlock blk) s)) n k = inode_byte D (sd s) n k"
  using card_u32_write [OF D _ inode_area_ok [OF assms(2)], of "ABlock blk"]
    area_write_byte [OF D _ inode_area_ok [OF assms(2)], of "ABlock blk"] assms(3) mod_4_less [of n]
  by (simp_all add: inode_u32_def inode_byte_def)

lemma dir_save:
  assumes D: "sd_ok D" and n: "n < 2048" and blk: "blk < 131072" and kept: "others_kept D n s t1"
    and F: "\<And>k. k \<le> 124 \<Longrightarrow> 4 dvd k \<Longrightarrow> rd32 t1 (padd (inode_ptr n) k) = F k"
    and t2: "sd t2 = sd (area_write D SctBuffer (AInodes (drop_bit 2 n)) t1)"
  shows "dir_saved D n blk F (fmem t2) (sd s) (sd (area_write D BlkBuffer (ABlock blk) t2))"
proof -
  have ok: "area_ok (ABlock blk)" using blk by simp
  have sd: "sd t1 = sd s" using kept by (simp add: others_kept_def)
  have 1: "inode_u32 D (sd (area_write D BlkBuffer (ABlock blk) t2)) n k = F k" if "k \<le> 124" "4 dvd k" for k
    using that by (simp add: block_write_inode(1) [OF D n blk] t2 inode_field_write [OF D n] F)
  have 2: "inode_byte D (sd (area_write D BlkBuffer (ABlock blk) t2)) n' k = inode_byte D (sd s) n' k"
    if "n' < 2048" "n' \<noteq> n" "k < 128" for n' k
    using block_write_inode(2) [OF D that(1) blk that(3)] inode_other_bytes [OF D n that kept] by (simp add: t2)
  have 3: "area_byte D (sd (area_write D BlkBuffer (ABlock blk) t2)) a k = area_byte D (sd s) a k"
    if "area_ok a" "a \<noteq> AInodes (drop_bit 2 n)" "a \<noteq> ABlock blk" "k < 512 * area_len a" for a k
    using area_write_byte [OF D ok that(1,4)] inode_other_areas [OF D n that(1,2,4)] that(3) by (simp add: t2 sd)
  have 4: "area_byte D (sd (area_write D BlkBuffer (ABlock blk) t2)) (ABlock blk) j = fmem t2 (BlkBuffer, j)"
    if "j < 4096" for j
    using area_write_byte [OF D ok ok] that by simp
  show ?thesis unfolding dir_saved_def using 1 2 3 4 by blast
qed

lemma dir_saved_ok:
  assumes "dir_saved D n blk F m d d'" and "n < 2048" and "blk < 131072" and "F 32 = blk" and "table_ok m (F 16)"
  shows "dir_ok D d' n" and "dir_at D d' n = dir_list m"
proof -
  have b: "dir_block D d' n = blk" and f: "inode_u32 D d' n 16 = F 16"
    using assms(1,4) by (auto simp: dir_saved_def dir_block_def)
  have eq: "block_mem D d' blk (BlkBuffer, k) = m (BlkBuffer, k)" if "k < 4096" for k
    using assms(1) that by (simp add: dir_saved_def block_mem_def)
  have "dir_list (block_mem D d' blk) = dir_list m" "table_ok (block_mem D d' blk) x = table_ok m x" for x
    by (rule dir_list_cong; simp add: eq)+
  with assms(2,3,5) show "dir_ok D d' n" "dir_at D d' n = dir_list m"
    by (simp_all add: dir_ok_def dir_at_def b f)
qed

text \<open>The fields after one entry more or less.\<close>

definition fields_of :: "'d sdcard \<Rightarrow> 'd \<Rightarrow> u32 \<Rightarrow> (nat \<times> u32) list \<Rightarrow> nat \<Rightarrow> u32" where
  "fields_of D d n fs k = (case map_of fs k of Some v \<Rightarrow> v | None \<Rightarrow> inode_u32 D d n k)"

lemma fields_of_read:
  assumes "\<forall>(k, v) \<in> set fs. 4 dvd k" and "distinct (map fst fs)" and "4 dvd k" and "k \<le> 124"
  shows "rd32 (set_fields (inode_ptr n) fs (area_read D SctBuffer (AInodes (drop_bit 2 n)) s)) (padd (inode_ptr n) k) =
    fields_of D (sd s) n fs k"
  using assms(4)
  by (simp add: rd32_set_fields [OF assms(1,3,2)] fields_of_def inode_field_read split: option.split)

lemma set_fields_kept:
  "\<forall>(k, v) \<in> set fs. k \<le> 124 \<Longrightarrow>
   others_kept D n s (set_fields (inode_ptr n) fs (area_read D SctBuffer (AInodes (drop_bit 2 n)) s))"
  by (intro only_inode_others_kept set_fields_only) simp_all

section \<open>Creating an entry\<close>

definition create_fields :: "'d sdcard \<Rightarrow> 'd \<Rightarrow> u32 \<Rightarrow> u32 \<Rightarrow> (nat \<times> u32) list" where
  "create_fields D d n type =
     (16, inode_u32 D d n 16 + 1) # (if type = D_DIR then [(24, inode_u32 D d n 24 + 1)] else [])"

lemma create_fields_ok:
  "\<forall>(k, v) \<in> set (create_fields D d n type). 4 dvd k" "distinct (map fst (create_fields D d n type))"
  "\<forall>(k, v) \<in> set (create_fields D d n type). k \<le> 124"
  by (auto simp: create_fields_def)

text \<open>The buffers once the inode is updated and the block of the directory is read.\<close>

definition edit_dir :: "'d sdcard \<Rightarrow> u32 \<Rightarrow> (nat \<times> u32) list \<Rightarrow> 'd fstate \<Rightarrow> 'd fstate" where
  "edit_dir D n fs s = area_read D BlkBuffer (ABlock (dir_block D (sd s) n))
     (set_fields (inode_ptr n) fs (area_read D SctBuffer (AInodes (drop_bit 2 n)) s))"

lemma edit_dir_sd [simp]: "sd (edit_dir D n fs s) = sd s"
  by (simp add: edit_dir_def)

lemma set_fields_mem:
  "c \<noteq> b \<Longrightarrow> fmem (set_fields (b, i) fs s) (c, k) = fmem s (c, k)"
  by (induction fs arbitrary: s) (auto simp: fmem_wr32_other)

lemma edit_dir_mem:
  "fmem (edit_dir D n fs s) (BlkBuffer, j) =
     (if j < 4096 then area_byte D (sd s) (ABlock (dir_block D (sd s) n)) j else fmem s (BlkBuffer, j))"
  "c \<noteq> BlkBuffer \<Longrightarrow> c \<noteq> SctBuffer \<Longrightarrow> fmem (edit_dir D n fs s) (c, j) = fmem s (c, j)"
  "fmem (edit_dir D n fs s) (SctBuffer, j) =
     fmem (set_fields (inode_ptr n) fs (area_read D SctBuffer (AInodes (drop_bit 2 n)) s)) (SctBuffer, j)"
  by (simp_all add: edit_dir_def area_read_mem inode_ptr_def set_fields_mem)

lemma edit_dir_list:
  "dir_list (fmem (edit_dir D n fs s)) = dir_at D (sd s) n"
  "table_ok (fmem (edit_dir D n fs s)) x = table_ok (block_mem D (sd s) (dir_block D (sd s) n)) x"
  unfolding dir_at_def by (rule dir_list_cong; simp add: edit_dir_mem block_mem_def)+

lemma edit_dir_kept:
  assumes "\<forall>(k, v) \<in> set fs. k \<le> 124" and "\<And>k. fmem t (SctBuffer, k) = fmem (edit_dir D n fs s) (SctBuffer, k)"
    and "sd t = sd s"
  shows "others_kept D n s t"
  using set_fields_kept [OF assms(1), of D n s] assms(2,3) by (simp add: others_kept_def edit_dir_mem)

lemma edit_dir_field:
  assumes "\<forall>(k, v) \<in> set fs. 4 dvd k" and "distinct (map fst fs)" and "4 dvd k" and "k \<le> 124"
    and "\<And>k. fmem t (SctBuffer, k) = fmem (edit_dir D n fs s) (SctBuffer, k)"
  shows "rd32 t (padd (inode_ptr n) k) = fields_of D (sd s) n fs k"
proof -
  have "rd32 t (padd (inode_ptr n) k) =
      rd32 (set_fields (inode_ptr n) fs (area_read D SctBuffer (AInodes (drop_bit 2 n)) s)) (padd (inode_ptr n) k)"
    unfolding rd32_def by (rule get_u32_cong) (simp add: assms(5) edit_dir_mem inode_ptr_def)
  with fields_of_read [OF assms(1-4)] show ?thesis by simp
qed

lemma first_free:
  "find (\<lambda>i. rd32 s (den_type i) = 0) [0..<128] = find (\<lambda>i. fst (dir_list (fmem s) ! i) = 0) [0..<128]"
  by (rule find_cong) (auto simp: dir_list_def entry_def ent_type_def rd32_def)

lemma create_dentry_open:
  "create_dentry D n sub (Some p) type s =
     (let s4 = edit_dir D n (create_fields D (sd s) n type) s
      in case find (\<lambda>i. fst (dir_at D (sd s) n ! i) = 0) [0..<128] of
           None \<Rightarrow> Inl Panic
         | Some i \<Rightarrow>
             (let s6 = wr32 (den_type i) type (wr32 (den_inode i) sub s4)
              in case strlen (fmem s6) p of None \<Rightarrow> Inl Fault
                 | Some len \<Rightarrow>
                     (let s7 = s6\<lparr>fmem := memcpy (fmem s6) (den_name i) p len\<rparr>
                      in Inr (sub, area_write D BlkBuffer (ABlock (rd32 s7 (direct_block (inode_ptr n) 0)))
                                     (area_write D SctBuffer (AInodes (drop_bit 2 n)) s7)))))"
proof -
  let ?s1 = "area_read D SctBuffer (AInodes (drop_bit 2 n)) s"
  let ?fs = "create_fields D (sd s) n type"
  let ?s2 = "wr32 (padd (inode_ptr n) 16) (rd32 ?s1 (padd (inode_ptr n) 16) + 1) ?s1"
  have s3: "(if type = D_DIR then wr32 (padd (inode_ptr n) 24) (rd32 ?s2 (padd (inode_ptr n) 24) + 1) ?s2 else ?s2) =
      set_fields (inode_ptr n) ?fs ?s1"
    by (simp add: create_fields_def inode_field_read rd32_wr32_field)
  have "rd32 (set_fields (inode_ptr n) ?fs ?s1) (padd (inode_ptr n) 32) = dir_block D (sd s) n"
    by (subst fields_of_read) (simp_all add: create_fields_def fields_of_def dir_block_def)
  then have s4: "area_read D BlkBuffer (ABlock (rd32 (set_fields (inode_ptr n) ?fs ?s1) (padd (inode_ptr n) 32)))
      (set_fields (inode_ptr n) ?fs ?s1) = edit_dir D n ?fs s"
    by (simp add: edit_dir_def)
  show ?thesis
    unfolding create_dentry_def get_inode_def Let_def transfers prod.case ino_file_num_def ino_links_def
      direct_block_def mult_0_right add_0_right s3 s4 first_free edit_dir_list option.case rd32_area_write ..
qed

lemma create_dentry_eq:
  assumes D: "sd_ok D" and ok: "dir_ok D (sd s) n" and nm: "cstr (fmem s) p nm" "length nm < 24"
    and p: "fst p \<noteq> BlkBuffer" "fst p \<noteq> SctBuffer" and "type \<noteq> 0"
    and free: "find (\<lambda>i. fst (dir_at D (sd s) n ! i) = 0) [0..<128] = Some i"
  shows "\<exists>s'. create_dentry D n sub (Some p) type s = Inr (sub, s') \<and>
    dir_saved D n (dir_block D (sd s) n) (fields_of D (sd s) n (create_fields D (sd s) n type)) (fmem s') (sd s) (sd s') \<and>
    table_ok (fmem s') (inode_u32 D (sd s) n 16 + 1) \<and>
    dir_list (fmem s') = (dir_at D (sd s) n)[i := (type, sub, nm)] \<and>
    (\<forall>c k. c \<noteq> BlkBuffer \<and> c \<noteq> SctBuffer \<longrightarrow> fmem s' (c, k) = fmem s (c, k))"
proof -
  let ?fs = "create_fields D (sd s) n type" and ?blk = "dir_block D (sd s) n"
  define s4 where "s4 = edit_dir D n ?fs s"
  define s6 where "s6 = wr32 (den_type i) type (wr32 (den_inode i) sub s4)"
  define m where "m = memcpy (fmem s6) (den_name i) p (length nm)"
  have i: "i < 128" and "fst (dir_list (fmem s4) ! i) = 0"
    using free by (auto simp: find_upt_Some s4_def edit_dir_list)
  then have t0: "ent_type (fmem s4) i = 0" by (simp add: dir_list_def entry_def)
  have tab: "table_ok (fmem s4) (inode_u32 D (sd s) n 16)" using ok by (simp add: s4_def edit_dir_list dir_ok_def)
  then have e0: "entry_ok (fmem s4) i" using i by (simp add: table_ok_def)
  obtain b y where py: "p = (b, y)" by (cases p)
  have "cstr (fmem s4) p nm = cstr (fmem s) p nm"
    using p by (intro cstr_cong) (simp add: s4_def py edit_dir_mem)
  with nm have c4: "cstr (fmem s4) p nm" by simp
  have mem6: "fmem s6 = put_u32 (put_u32 (fmem s4) (den_inode i) sub) (den_type i) type"
    by (simp add: s6_def wr32_def)
  have "cstr (fmem s6) p nm = cstr (fmem s4) p nm"
    using p by (intro cstr_cong) (simp add: mem6 py den_defs put_u32_outside)
  with c4 have len: "strlen (fmem s6) p = Some (length nm)" by (simp add: strlen_cstr)
  note new = put_entry [OF e0 t0 c4 nm(2) p(1) assms(7), of m sub, unfolded m_def mem6, OF refl]
  have tm: "ent_type m i \<noteq> 0" using new(2) assms(7) by (simp add: entry_def m_def mem6)
  let ?s7 = "s6\<lparr>fmem := m\<rparr>"
  have sct: "fmem ?s7 (SctBuffer, k) = fmem (edit_dir D n ?fs s) (SctBuffer, k)" for k
    using new(1) by (simp add: only_entry_def s4_def m_def mem6)
  have sd7: "sd ?s7 = sd s" by (simp add: s6_def s4_def)
  have fld: "rd32 ?s7 (padd (inode_ptr n) k) = fields_of D (sd s) n ?fs k" if "k \<le> 124" "4 dvd k" for k
    by (rule edit_dir_field [OF create_fields_ok(1,2) that(2,1) sct])
  have blk: "rd32 ?s7 (direct_block (inode_ptr n) 0) = ?blk"
    using fld [of 32] by (simp add: direct_block_def fields_of_def create_fields_def dir_block_def)
  have n: "n < 2048" "?blk < 131072" using ok by (simp_all add: dir_ok_def)
  let ?s' = "area_write D BlkBuffer (ABlock ?blk) (area_write D SctBuffer (AInodes (drop_bit 2 n)) ?s7)"
  have "create_dentry D n sub (Some p) type s = Inr (sub, ?s')"
    unfolding create_dentry_open Let_def free option.case s4_def [symmetric] s6_def [symmetric] len m_def [symmetric] blk ..
  moreover have "dir_saved D n ?blk (fields_of D (sd s) n ?fs) (fmem ?s') (sd s) (sd ?s')"
    using dir_save [OF D n edit_dir_kept [OF create_fields_ok(3) sct sd7] fld refl] by simp
  moreover have "fmem ?s' = m" by simp
  ultimately show ?thesis
    using table_ok_add [OF tab new(1) i t0 _ new(3)] tm only_entry_list [OF new(1) i] new(2) new(1)
    by (auto simp: m_def mem6 s4_def edit_dir_list only_entry_def edit_dir_mem)
qed

section \<open>Deleting an entry\<close>

definition delete_fields :: "'d sdcard \<Rightarrow> 'd \<Rightarrow> u32 \<Rightarrow> (nat \<times> u32) list" where
  "delete_fields D d n = [(16, inode_u32 D d n 16 - 1), (24, inode_u32 D d n 24 - 1)]"

lemma delete_fields_ok:
  "\<forall>(k, v) \<in> set (delete_fields D d n). 4 dvd k" "distinct (map fst (delete_fields D d n))"
  "\<forall>(k, v) \<in> set (delete_fields D d n). k \<le> 124"
  by (auto simp: delete_fields_def)

text \<open>A directory may only be deleted when it has no entries but the first two and one link.\<close>

definition may_delete :: "'d sdcard \<Rightarrow> 'd \<Rightarrow> u32 \<Rightarrow> u32 \<Rightarrow> bool" where
  "may_delete D d sub type \<longleftrightarrow> type = D_DIR \<longrightarrow> inode_u32 D d sub 16 = 2 \<and> inode_u32 D d sub 24 = 1"

lemma delete_dentry_refused:
  assumes "\<not> may_delete D (sd s) sub type"
  shows "\<exists>s'. delete_dentry D n sub type s = Inr (False, s') \<and> sd s' = sd s"
  using assms inode_field_read [of 16 D sub s] inode_field_read [of 24 D sub s]
  by (auto simp: delete_dentry_def get_inode_def transfers may_delete_def ino_defs Let_def printk_def)

text \<open>The state in which the entry is looked for: the inode of the directory is already saved.\<close>

definition delete_state :: "'d sdcard \<Rightarrow> u32 \<Rightarrow> u32 \<Rightarrow> 'd fstate \<Rightarrow> 'd fstate" where
  "delete_state D n sub s =
     (let s0 = area_read D SctBuffer (AInodes (drop_bit 2 sub)) s;
          s3 = set_fields (inode_ptr n) (delete_fields D (sd s) n) (area_read D SctBuffer (AInodes (drop_bit 2 n)) s0)
      in area_read D BlkBuffer (ABlock (dir_block D (sd s) n)) (area_write D SctBuffer (AInodes (drop_bit 2 n)) s3))"

lemma delete_dentry_open:
  assumes "may_delete D (sd s) sub type"
  shows "delete_dentry D n sub type s =
     (let s5 = delete_state D n sub s
      in case find (\<lambda>i. rd32 s5 (den_inode i) = sub) [0..<128] of
           None \<Rightarrow> Inl Panic
         | Some i \<Rightarrow>
             (let s6 = wr32 (den_type i) 0 s5;
                  s7 = s6\<lparr>fmem := memset (fmem s6) (den_name i) 0 D_NAME\<rparr>
              in Inr (type = D_DIR \<or> inode_u32 D (sd s) sub 24 = 1,
                   area_write D BlkBuffer (ABlock (rd32 s7 (direct_block (inode_ptr n) 0))) s7)))"
proof -
  let ?s0 = "area_read D SctBuffer (AInodes (drop_bit 2 sub)) s"
  let ?s1 = "area_read D SctBuffer (AInodes (drop_bit 2 n)) ?s0"
  let ?fs = "delete_fields D (sd s) n"
  have sub: "rd32 ?s0 (padd (inode_ptr sub) 16) = inode_u32 D (sd s) sub 16"
    "rd32 ?s0 (padd (inode_ptr sub) 24) = inode_u32 D (sd s) sub 24"
    by (simp_all add: inode_field_read)
  have no: "(type = D_DIR \<and> \<not> (inode_u32 D (sd s) sub 16 = 2 \<and> inode_u32 D (sd s) sub 24 = 1)) = False"
    using assms by (auto simp: may_delete_def)
  let ?s2 = "wr32 (padd (inode_ptr n) 16) (rd32 ?s1 (padd (inode_ptr n) 16) - 1) ?s1"
  have s3: "wr32 (padd (inode_ptr n) 24) (rd32 ?s2 (padd (inode_ptr n) 24) - 1) ?s2 = set_fields (inode_ptr n) ?fs ?s1"
    by (simp add: delete_fields_def inode_field_read rd32_wr32_field)
  have "rd32 (set_fields (inode_ptr n) ?fs ?s1) (padd (inode_ptr n) 32) = dir_block D (sd s) n"
    by (subst fields_of_read) (simp_all add: delete_fields_def fields_of_def dir_block_def)
  then have s5: "area_read D BlkBuffer (ABlock (rd32 (area_write D SctBuffer (AInodes (drop_bit 2 n))
      (set_fields (inode_ptr n) ?fs ?s1)) (padd (inode_ptr n) 32)))
      (area_write D SctBuffer (AInodes (drop_bit 2 n)) (set_fields (inode_ptr n) ?fs ?s1)) = delete_state D n sub s"
    by (simp add: delete_state_def Let_def)
  show ?thesis
    unfolding delete_dentry_def get_inode_def Let_def transfers prod.case ino_file_num_def ino_links_def
      direct_block_def mult_0_right add_0_right sub no if_False s3 s5 ..
qed

lemma delete_state_mem:
  assumes "sd_ok D" and "dir_ok D (sd s) n"
  shows "j < 4096 \<Longrightarrow> fmem (delete_state D n sub s) (BlkBuffer, j) = area_byte D (sd s) (ABlock (dir_block D (sd s) n)) j"
    and "c \<noteq> BlkBuffer \<Longrightarrow> c \<noteq> SctBuffer \<Longrightarrow> fmem (delete_state D n sub s) (c, j) = fmem s (c, j)"
    and "fmem (delete_state D n sub s) (SctBuffer, j) = fmem (set_fields (inode_ptr n) (delete_fields D (sd s) n)
      (area_read D SctBuffer (AInodes (drop_bit 2 n)) (area_read D SctBuffer (AInodes (drop_bit 2 sub)) s))) (SctBuffer, j)"
  using assms inode_other_areas [OF assms(1), of n "ABlock (dir_block D (sd s) n)"]
  by (simp_all add: delete_state_def Let_def area_read_mem dir_ok_def inode_ptr_def set_fields_mem)

lemma delete_state_list:
  assumes "sd_ok D" and "dir_ok D (sd s) n"
  shows "dir_list (fmem (delete_state D n sub s)) = dir_at D (sd s) n"
    "table_ok (fmem (delete_state D n sub s)) x = table_ok (block_mem D (sd s) (dir_block D (sd s) n)) x"
  unfolding dir_at_def by (rule dir_list_cong; simp add: delete_state_mem [OF assms] block_mem_def)+

lemma first_inode:
  "find (\<lambda>i. rd32 s (den_inode i) = sub) [0..<128] = find (\<lambda>i. fst (snd (dir_list (fmem s) ! i)) = sub) [0..<128]"
  by (rule find_cong) (auto simp: dir_list_def entry_def rd32_def)

lemma delete_dentry_eq:
  assumes D: "sd_ok D" and ok: "dir_ok D (sd s) n" and may: "may_delete D (sd s) sub type"
    and first: "find (\<lambda>i. fst (snd (dir_at D (sd s) n ! i)) = sub) [0..<128] = Some i"
  shows "\<exists>s' m. delete_dentry D n sub type s = Inr (type = D_DIR \<or> inode_u32 D (sd s) sub 24 = 1, s') \<and>
    dir_saved D n (dir_block D (sd s) n) (fields_of D (sd s) n (delete_fields D (sd s) n)) (fmem s') (sd s) (sd s') \<and>
    only_entry i m (fmem s') \<and> dir_list m = dir_at D (sd s) n \<and> table_ok m (inode_u32 D (sd s) n 16) \<and>
    entry (fmem s') i = (0, sub, []) \<and> entry_ok (fmem s') i \<and>
    (\<forall>c k. c \<noteq> BlkBuffer \<and> c \<noteq> SctBuffer \<longrightarrow> fmem s' (c, k) = fmem s (c, k))"
proof -
  let ?fs = "delete_fields D (sd s) n" and ?blk = "dir_block D (sd s) n"
  let ?s3 = "set_fields (inode_ptr n) ?fs
    (area_read D SctBuffer (AInodes (drop_bit 2 n)) (area_read D SctBuffer (AInodes (drop_bit 2 sub)) s))"
  define s5 where "s5 = delete_state D n sub s"
  define m where "m = memset (put_u32 (fmem s5) (den_type i) 0) (den_name i) 0 D_NAME"
  note clear = clear_entry [of m "fmem s5" i, unfolded m_def, OF refl]
  have i: "i < 128" "fst (snd (dir_list (fmem s5) ! i)) = sub"
    using first by (auto simp: find_upt_Some s5_def delete_state_list [OF D ok])
  then have sub: "get_u32 (fmem s5) (den_inode i) = sub" by (simp add: dir_list_def entry_def)
  have tab: "table_ok (fmem s5) (inode_u32 D (sd s) n 16)"
    using ok by (simp add: s5_def delete_state_list [OF D ok] dir_ok_def)
  let ?s7 = "s5\<lparr>fmem := m\<rparr>"
  have sct: "fmem ?s7 (SctBuffer, k) = fmem ?s3 (SctBuffer, k)" for k
    using clear(1) by (simp add: only_entry_def m_def s5_def delete_state_mem [OF D ok])
  have fld3: "rd32 ?s3 (padd (inode_ptr n) k) = fields_of D (sd s) n ?fs k" if "k \<le> 124" "4 dvd k" for k
    by (simp add: fields_of_read [OF delete_fields_ok(1,2) that(2,1)] fields_of_def)
  have "rd32 ?s7 (padd (inode_ptr n) 32) = rd32 ?s3 (padd (inode_ptr n) 32)"
    unfolding rd32_def by (rule get_u32_cong) (use sct in \<open>simp add: inode_ptr_def\<close>)
  with fld3 [of 32] have blk: "rd32 ?s7 (direct_block (inode_ptr n) 0) = ?blk"
    by (simp add: direct_block_def fields_of_def delete_fields_def dir_block_def)
  have n: "n < 2048" "?blk < 131072" using ok by (simp_all add: dir_ok_def)
  let ?s' = "area_write D BlkBuffer (ABlock ?blk) ?s7"
  have "others_kept D n (area_read D SctBuffer (AInodes (drop_bit 2 sub)) s) ?s3"
    by (rule set_fields_kept) (rule delete_fields_ok(3))
  then have kept: "others_kept D n s ?s3" by (simp add: others_kept_def)
  have sd7: "sd ?s7 = sd (area_write D SctBuffer (AInodes (drop_bit 2 n)) ?s3)"
    by (simp add: s5_def delete_state_def Let_def)
  have "dir_saved D n ?blk (fields_of D (sd s) n ?fs) (fmem ?s7) (sd s) (sd ?s')"
    by (rule dir_save [OF D n kept fld3 sd7])
  moreover have "delete_dentry D n sub type s = Inr (type = D_DIR \<or> inode_u32 D (sd s) sub 24 = 1, ?s')"
    using blk unfolding delete_dentry_open [OF may] Let_def first_inode delete_state_list [OF D ok] first option.case
    by (simp add: m_def s5_def wr32_def)
  moreover have "fmem ?s' = m" by simp
  ultimately show ?thesis
    using clear tab sub
    by (intro exI [of _ ?s'] exI [of _ "fmem s5"])
      (simp add: m_def s5_def delete_state_list [OF D ok] only_entry_def delete_state_mem [OF D ok])
qed

section \<open>A new file system\<close>

lemma table_zero:
  assumes "\<And>k. k < 4096 \<Longrightarrow> m (BlkBuffer, k) = 0"
  shows "i < 128 \<Longrightarrow> entry m i = (0, 0, [])" and "i < 128 \<Longrightarrow> entry_ok m i"
proof -
  have z: "get_u32 m (BlkBuffer, k) = 0" if "k + 4 \<le> 4096" for k
    using that by (simp add: get_u32_def assms)
  assume "i < 128"
  then have "cstr m (den_name i) []" "get_u32 m (den_type i) = 0" "get_u32 m (den_inode i) = 0"
    by (simp_all add: den_defs z assms)
  then show "entry m i = (0, 0, [])" using ent_name_unique [of m i "[]"] by (simp add: entry_def ent_type_def)
next
  assume "i < 128"
  then have "\<And>k. k < 24 \<Longrightarrow> m (padd (den_name i) k) = 0" by (simp add: den_defs assms)
  from this this [of 0] show "entry_ok m i" by (auto simp: entry_ok_def intro!: exI [of _ 0])
qed

text \<open>The two entries of an empty directory.\<close>

definition empty_dir :: "u32 \<Rightarrow> u32 \<Rightarrow> dentry list" where
  "empty_dir self parent = [(D_DIR, self, [46]), (D_DIR, parent, [46, 46])] @ replicate 126 (0, 0, [])"

lemma dir_block_table:
  assumes m: "m = put_u32 (put_u32 ((put_u32 (put_u32 ((memset m0 (BlkBuffer, 0) 0 BLOCK_SIZE)(den_name 0 := 46))
      (den_type 0) D_DIR) (den_inode 0) self)(den_name 1 := 46, padd (den_name 1) 1 := 46)) (den_type 1) D_DIR)
      (den_inode 1) parent"
  shows "dir_list m = empty_dir self parent" and "table_ok m 2"
proof -
  define z where "z = memset m0 (BlkBuffer, 0) 0 BLOCK_SIZE"
  have zero: "z (BlkBuffer, k) = 0" if "k < 4096" for k using that by (simp add: z_def memset_closed BLOCK_SIZE_def)
  note nm = m [folded z_def, unfolded den_defs, simplified]
  have name: "m (BlkBuffer, 8) = 46" "m (BlkBuffer, 9) = 0" "m (BlkBuffer, 40) = 46" "m (BlkBuffer, 41) = 46"
    "m (BlkBuffer, 42) = 0"
    by (simp_all add: nm put_u32_outside zero)
  have "cstr m (den_name 0) [46]" "cstr m (den_name 1) [46, 46]" by (simp_all add: den_defs name)
  then have n: "ent_name m 0 = [46]" "ent_name m 1 = [46, 46]" by (simp_all add: ent_name_unique)
  have t: "get_u32 m (den_type 0) = D_DIR" "get_u32 m (den_inode 0) = self"
    "get_u32 m (den_type 1) = D_DIR" "get_u32 m (den_inode 1) = parent"
  proof -
    have up: "get_u32 (q(p := v)) (BlkBuffer, k) = get_u32 q (BlkBuffer, k)"
      if "snd p < k \<or> k + 4 \<le> snd p" for q :: "fobj mem" and p v k
      by (rule get_u32_cong) (use that in auto)
    show "get_u32 m (den_type 0) = D_DIR" "get_u32 m (den_inode 0) = self"
      "get_u32 m (den_type 1) = D_DIR" "get_u32 m (den_inode 1) = parent"
      by (simp_all add: nm den_defs get_put_u32_outside up)
  qed
  have e01: "entry m 0 = (D_DIR, self, [46])" "entry m 1 = (D_DIR, parent, [46, 46])"
    using n t by (simp_all add: entry_def ent_type_def)
  have ok01: "entry_ok m 0" "entry_ok m 1"
    using t name by (auto simp: entry_ok_def ent_type_def D_DIR_def I_DIR_def den_defs intro: exI [of _ 1] exI [of _ 2])
  have rest: "entry m i = (0, 0, [])" "entry_ok m i" if "2 \<le> i" "i < 128" for i
  proof -
    have "m (BlkBuffer, k) = z (BlkBuffer, k)" if "32 * i \<le> k" for k
      using that \<open>2 \<le> i\<close> by (simp add: nm put_u32_outside)
    then have "entry m i = entry z i" "entry_ok m i = entry_ok z i" by (rule entry_cong; simp)+
    then show "entry m i = (0, 0, [])" "entry_ok m i" using table_zero [of z i] zero that(2) by simp_all
  qed
  show "dir_list m = empty_dir self parent"
  proof (rule nth_equalityI)
    fix i
    assume "i < length (dir_list m)"
    then have i: "i < 128" by (simp add: dir_list_def)
    then consider "i = 0" | "i = 1" | "2 \<le> i" by linarith
    then show "dir_list m ! i = empty_dir self parent ! i"
      by cases (use i e01 rest in \<open>simp_all add: dir_list_def empty_dir_def nth_append nth_Cons'\<close>)
  qed (simp add: dir_list_def empty_dir_def)
  have cases: "i = 0 \<or> i = 1 \<or> 2 \<le> i" for i :: nat by linarith
  have "ent_type m i = 0" if "2 \<le> i" "i < 128" for i using rest(1) [OF that] by (simp add: entry_def)
  moreover have "ent_type m 0 \<noteq> 0" "ent_type m 1 \<noteq> 0" using e01 by (auto simp: entry_def D_DIR_def I_DIR_def)
  ultimately have "i \<in> used m \<longleftrightarrow> i \<in> {0, 1}" for i
    using cases [of i] unfolding used_def by force
  then have "used m = {0, 1}" by blast
  moreover have "entry_ok m i" if "i < 128" for i
    using cases [of i] ok01 rest(2) [OF _ that] by blast
  ultimately show "table_ok m 2" by (simp add: table_ok_def)
qed

text \<open>\<open>do_mkfs\<close> clears the maps and the inode sectors, sector by sector.\<close>

lemma clear_area_fold:
  "fold (\<lambda>i. sd_write D SctBuffer 1 (base + of_nat i)) ks s =
     s\<lparr>sd := fold (\<lambda>k d. sd_put D d (base + of_nat k) (\<lambda>i. fmem s (SctBuffer, i))) ks (sd s)\<rparr>"
  by (induction ks arbitrary: s) (simp_all add: sd_write_def)

lemma clear_area_sd:
  "clear_area D start num s = s\<lparr>sd := fold (\<lambda>k d. sd_put D d (FS_START + start + of_nat k)
     (\<lambda>i. fmem s (SctBuffer, i))) [0..<unat num] (sd s)\<rparr>"
  unfolding clear_area_def clear_area_fold ..

lemma clear_area_frame [simp]: "fmem (clear_area D start num s) = fmem s"
  by (simp add: clear_area_sd)

lemma clear_area_byte:
  assumes D: "sd_ok D" and z: "\<And>i. i < 512 \<Longrightarrow> fmem s (SctBuffer, i) = 0" and num: "unat num \<le> 512"
  shows "area_byte D (sd (clear_area D start num s)) a i =
    (if \<exists>k<unat num. area_sector a + of_nat (i div 512) = FS_START + start + of_nat k then 0 else area_byte D (sd s) a i)"
proof -
  let ?f = "\<lambda>k. FS_START + start + of_nat k"
  have inj: "inj_on ?f (set [0..<unat num])"
    using num by (auto simp: inj_on_def word_of_nat_eq_iff take_bit_nat_eq_self)
  have "area_byte D (sd (clear_area D start num s)) a i =
      (case find (\<lambda>k. ?f k = area_sector a + of_nat (i div 512)) [0..<unat num] of
         Some k \<Rightarrow> fmem s (SctBuffer, i mod 512) | None \<Rightarrow> area_byte D (sd s) a i)"
    unfolding area_byte_def by (simp add: clear_area_sd fold_put_get [OF D _ inj distinct_upt])
  also have "\<dots> = (if \<exists>k<unat num. area_sector a + of_nat (i div 512) = ?f k then 0 else area_byte D (sd s) a i)"
  proof (cases "find (\<lambda>k. ?f k = area_sector a + of_nat (i div 512)) [0..<unat num]")
    case None
    then have "\<not> (\<exists>k<unat num. area_sector a + of_nat (i div 512) = ?f k)" unfolding find_upt_None by metis
    with None show ?thesis by (simp only: option.case if_False)
  next
    case (Some k)
    then have "\<exists>k<unat num. area_sector a + of_nat (i div 512) = ?f k" unfolding find_upt_Some by metis
    with Some z [of "i mod 512"] show ?thesis by (simp only: option.case if_True)
  qed
  finally show ?thesis .
qed

lemma clear_area_sectors:
  assumes "sd_ok D" and "\<And>i. i < 512 \<Longrightarrow> fmem s (SctBuffer, i) = 0" and "unat num \<le> 512"
  shows "k < unat num \<Longrightarrow> area_sector a + of_nat (i div 512) = FS_START + start + of_nat k \<Longrightarrow>
      area_byte D (sd (clear_area D start num s)) a i = 0"
    and "area_byte D (sd s) a i = 0 \<Longrightarrow> area_byte D (sd (clear_area D start num s)) a i = 0"
    and "unat start \<noteq> 0 \<Longrightarrow> unat start + unat num \<le> 2 ^ 20 \<Longrightarrow> i < 512 \<Longrightarrow>
      area_byte D (sd (clear_area D start num s)) ASuper i = area_byte D (sd s) ASuper i"
proof -
  assume st: "unat start \<noteq> 0" "unat start + unat num \<le> 2 ^ 20" "i < 512"
  have "start + of_nat k \<noteq> 0" if "k < unat num" for k
  proof
    assume "start + of_nat k = (0 :: u32)"
    then have "unat (start + of_nat k) = 0" by simp
    moreover have "unat (of_nat k :: u32) = k" using that st(2) by (simp add: unat_of_nat)
    ultimately show False using st(1,2) that by (simp add: unat_plus_if')
  qed
  then have "\<not> (\<exists>k<unat num. area_sector ASuper + of_nat (i div 512) = FS_START + start + of_nat k)"
    using st(3) by (auto simp: SUPERBLOCK_START_def add.assoc)
  then show "area_byte D (sd (clear_area D start num s)) ASuper i = area_byte D (sd s) ASuper i"
    by (simp only: clear_area_byte [OF assms] if_False)
qed (auto simp: clear_area_byte [OF assms])

lemma printk_frame [simp]: "fmem (printk f as s) = fmem s" "sd (printk f as s) = sd s" "rd32 (printk f as s) p = rd32 s p"
  by (simp_all add: printk_def rd32_def)

definition maps_clear :: "'d sdcard \<Rightarrow> 'd \<Rightarrow> bool" where
  "maps_clear D d \<longleftrightarrow> (\<forall>i<512. area_byte D d AInodeMap i = 0) \<and> (\<forall>i<4096. area_byte D d ABlockMap i = 0) \<and>
     (\<forall>k i. k < 512 \<longrightarrow> i < 512 \<longrightarrow> area_byte D d (AInodes k) i = 0)"

lemma init_areas_clear:
  assumes D: "sd_ok D"
  shows "maps_clear D (sd (init_areas D s))"
    and "i < 512 \<Longrightarrow> area_byte D (sd (init_areas D s)) ASuper i = area_byte D (sd s) ASuper i"
proof -
  define z where "z = printk ''[FS] Setting up inode map...'' [] (zero_buffer SctBuffer SECTOR_SIZE s)"
  define a where "a = printk ''[FS] Setting up block map...'' [] (clear_area D INODE_MAP_OFFSET INODE_MAP_NUM z)"
  define b where "b = printk ''[FS] Setting up inode block...'' [] (clear_area D BLOCK_MAP_OFFSET BLOCK_MAP_NUM a)"
  have init: "init_areas D s = clear_area D INODE_BLOCK_OFFSET INODE_BLOCK_NUM b"
    by (simp add: init_areas_def z_def a_def b_def)
  have zero: "fmem z (SctBuffer, i) = 0" "fmem a (SctBuffer, i) = 0" "fmem b (SctBuffer, i) = 0" if "i < 512" for i
    using that by (simp_all add: z_def a_def b_def zero_buffer_mem SECTOR_SIZE_def)
  note ca = clear_area_sectors [OF D zero(1)] and cb = clear_area_sectors [OF D zero(2)]
    and cc = clear_area_sectors [OF D zero(3)]
  have "area_byte D (sd (clear_area D INODE_MAP_OFFSET INODE_MAP_NUM z)) AInodeMap i = 0" if "i < 512" for i
    using that by (intro ca(1) [of _ 0]) (simp_all add: layout_defs)
  then have "area_byte D (sd (init_areas D s)) AInodeMap i = 0" if "i < 512" for i
    unfolding init using that
    by (intro cc(2)) (simp_all add: b_def cb(2) a_def layout_defs cb(2) [unfolded a_def layout_defs])
  moreover have "area_byte D (sd (clear_area D BLOCK_MAP_OFFSET BLOCK_MAP_NUM a)) ABlockMap i = 0" if "i < 4096" for i
    using that by (intro cb(1) [of _ "i div 512"]) (simp_all add: layout_defs)
  then have "area_byte D (sd (init_areas D s)) ABlockMap i = 0" if "i < 4096" for i
    unfolding init using that by (intro cc(2)) (simp_all add: b_def layout_defs)
  moreover have "area_byte D (sd (init_areas D s)) (AInodes k) i = 0" if "k < 512" "i < 512" for k i
    unfolding init using that by (intro cc(1) [of _ "unat k"]) (simp_all add: layout_defs word_less_nat_alt)
  ultimately show "maps_clear D (sd (init_areas D s))" by (simp add: maps_clear_def)
  assume i: "i < 512"
  have "area_byte D (sd (init_areas D s)) ASuper i = area_byte D (sd b) ASuper i"
    unfolding init using i by (intro cc(3)) (simp_all add: layout_defs)
  also have "\<dots> = area_byte D (sd a) ASuper i"
    unfolding b_def printk_frame using i by (intro cb(3)) (simp_all add: layout_defs)
  also have "\<dots> = area_byte D (sd s) ASuper i"
    unfolding a_def printk_frame using i by (subst ca(3)) (simp_all add: layout_defs z_def)
  finally show "area_byte D (sd (init_areas D s)) ASuper i = area_byte D (sd s) ASuper i" .
qed

text \<open>The first directory: inode 0 and block 0.\<close>

lemma alloc_first:
  assumes "sd_ok D" and "maps_clear D (sd s)"
  shows "\<exists>s1 s2. alloc_inode D s = Inr (0, s1) \<and> alloc_block D s1 = Inr (0, s2) \<and>
    (\<forall>a k. area_ok a \<longrightarrow> k < 512 * area_len a \<longrightarrow>
      area_byte D (sd s2) a k = (if (a = AInodeMap \<or> a = ABlockMap) \<and> k = 0 then 1 else area_byte D (sd s) a k))"
proof -
  have z: "area_byte D (sd s) AInodeMap 0 = 0" "area_byte D (sd s) ABlockMap 0 = 0"
    using assms(2) by (simp_all add: maps_clear_def)
  obtain x s1 where a1: "alloc_inode D s = Inr (x, s1)" and f1: "\<forall>j<unat x. area_byte D (sd s) AInodeMap j \<noteq> 0"
    and m1: "map_marked D InodeMap AInodeMap (unat x) 1 s s1"
    using imap.outcome [OF assms(1), of s] z(1) by (metis zero_less_numeral)
  have x: "x = 0" using f1 z(1) by (metis unat_eq_zero neq0_conv)
  have z1: "area_byte D (sd s1) ABlockMap 0 = 0" using m1 z(2) by (simp add: map_marked_def)
  obtain y s2 where a2: "alloc_block D s1 = Inr (y, s2)" and f2: "\<forall>j<unat y. area_byte D (sd s1) ABlockMap j \<noteq> 0"
    and m2: "map_marked D BlockMap ABlockMap (unat y) 1 s1 s2"
    using bmap.outcome [OF assms(1), of s1] z1 by (metis zero_less_numeral)
  have y: "y = 0" using f2 z1 by (metis unat_eq_zero neq0_conv)
  have "area_byte D (sd s2) a k = (if (a = AInodeMap \<or> a = ABlockMap) \<and> k = 0 then 1 else area_byte D (sd s) a k)"
    if "area_ok a" "k < 512 * area_len a" for a k
    using m1 m2 that by (simp add: map_marked_def x y)
  then show ?thesis using a1 a2 x y by blast
qed

lemma create_dir_block_eq:
  "\<exists>t. create_dir_block D b parent self s = area_write D BlkBuffer (ABlock b) t \<and> sd t = sd s \<and>
     dir_list (fmem t) = empty_dir self parent \<and> table_ok (fmem t) 2 \<and> (\<forall>c k. c \<noteq> BlkBuffer \<longrightarrow> fmem t (c, k) = fmem s (c, k))"
proof -
  define m where "m = put_u32 (put_u32 ((put_u32 (put_u32 ((memset (fmem s) (BlkBuffer, 0) 0 BLOCK_SIZE)(den_name 0 := 46))
      (den_type 0) D_DIR) (den_inode 0) self)(den_name 1 := 46, padd (den_name 1) 1 := 46)) (den_type 1) D_DIR)
      (den_inode 1) parent"
  have "create_dir_block D b parent self s = area_write D BlkBuffer (ABlock b) (s\<lparr>fmem := m\<rparr>)"
    by (simp add: create_dir_block_def transfers Let_def zero_buffer_def set_byte_def wr32_def m_def)
  moreover have "m (c, k) = fmem s (c, k)" if "c \<noteq> BlkBuffer" for c k
    using that by (simp add: m_def den_defs put_u32_outside memset_closed)
  ultimately show ?thesis using dir_block_table [OF m_def] by (intro exI [of _ "s\<lparr>fmem := m\<rparr>"]) simp
qed

lemma init_root_ok:
  assumes D: "sd_ok D" and clear: "maps_clear D (sd s)"
  shows "\<exists>s'. init_root D s = Inr s' \<and> dir_ok D (sd s') 0 \<and> dir_at D (sd s') 0 = empty_dir 0 0 \<and>
    inode_u32 D (sd s') 0 4 = I_DIR \<and> inode_u32 D (sd s') 0 24 = 1 \<and>
    rd32 s' (ino_id (CurrentInode, 0)) = 0 \<and>
    (\<forall>i<512. area_byte D (sd s') AInodeMap i = (if i = 0 then 1 else 0)) \<and>
    (\<forall>i<4096. area_byte D (sd s') ABlockMap i = (if i = 0 then 1 else 0)) \<and>
    (\<forall>i<512. area_byte D (sd s') ASuper i = area_byte D (sd s) ASuper i)"
proof -
  obtain s1 s2 where a: "alloc_inode D s = Inr (0, s1)" "alloc_block D s1 = Inr (0, s2)"
    and b2: "\<And>a k. area_ok a \<Longrightarrow> k < 512 * area_len a \<Longrightarrow>
      area_byte D (sd s2) a k = (if (a = AInodeMap \<or> a = ABlockMap) \<and> k = 0 then 1 else area_byte D (sd s) a k)"
    using alloc_first [OF assms] by blast
  let ?u = "set_fields (inode_ptr 0) (inode_fields 0 0 I_DIR O_RDWR) (area_read D SctBuffer (AInodes 0) s2)"
  let ?s3 = "area_write D SctBuffer (AInodes 0) ?u"
  let ?s4 = "area_write D SctBuffer (AInodes 0) (update_inode (inode_ptr 0) ?s3)"
  have c: "create_inode D 0 0 I_DIR O_RDWR s2 = (inode_ptr 0, ?s3)" by (simp add: create_inode_eq)
  have n0: "(0::u32) < 2048" by simp
  have upd: "fmem (update_inode (inode_ptr 0) ?s3) (c, k) =
      (if c = CurrentInode \<and> k < 128 then fmem ?u (SctBuffer, k) else fmem ?u (c, k))" for c k
    by (simp add: update_inode_def memcpy_closed inode_ptr_def INODE_SIZE_def)
  have upd_sd: "sd (update_inode (inode_ptr 0) ?s3) = sd ?s3" by (simp add: update_inode_def)
  have fields: "rd32 ?u (padd (inode_ptr 0) k) = (case map_of (inode_fields 0 0 I_DIR O_RDWR) k of Some v \<Rightarrow> v
      | None \<Rightarrow> rd32 (area_read D SctBuffer (AInodes 0) s2) (padd (inode_ptr 0) k))" if "4 dvd k" for k
    using that by (intro rd32_set_fields) (simp_all add: inode_fields_def)
  have ip: "inode_ptr 0 = (SctBuffer, 0)" by (simp add: inode_ptr_def)
  have fields': "rd32 (update_inode (inode_ptr 0) ?s3) (padd (inode_ptr 0) k) = rd32 ?u (padd (inode_ptr 0) k)" for k
    unfolding rd32_def by (rule get_u32_cong) (use upd in \<open>simp add: ip\<close>)
  have kept: "others_kept D 0 ?s3 (update_inode (inode_ptr 0) ?s3)"
    unfolding others_kept_def upd_sd upd using area_write_byte [OF D, of "AInodes 0" "AInodes 0"]
    by (simp add: layout_defs)
  let ?s5 = "printk ''[FS] Setting up data block(root directory)...'' [] (printk ''     inode_num = %d'' [PNum 0] ?s4)"
  obtain t where t: "create_dir_block D 0 0 0 ?s5 = area_write D BlkBuffer (ABlock 0) t" "sd t = sd ?s4"
      "dir_list (fmem t) = empty_dir 0 0" "table_ok (fmem t) 2"
      and cwd: "\<And>c k. c \<noteq> BlkBuffer \<Longrightarrow> fmem t (c, k) = fmem (update_inode (inode_ptr 0) ?s3) (c, k)"
    using create_dir_block_eq [of D 0 0 0 ?s5] by auto
  let ?s' = "area_write D BlkBuffer (ABlock 0) t"
  let ?F = "\<lambda>k. rd32 ?u (padd (inode_ptr 0) k)"
  have F: "?F 32 = 0" "?F 16 = 2" "?F 4 = I_DIR" "?F 24 = 1" "?F 12 = 0"
    by (simp_all add: fields) (simp_all add: inode_fields_def)
  have saved: "dir_saved D 0 0 ?F (fmem t) (sd ?s3) (sd ?s')"
    by (rule dir_save [OF D n0 _ kept fields' ]) (simp_all add: t(2))
  have s3: "area_byte D (sd ?s3) a k = area_byte D (sd s2) a k" if "area_ok a" "a \<noteq> AInodes 0" "k < 512 * area_len a" for a k
    using inode_other_areas [OF D n0 that(1) _ that(3), of ?u] that(2) by simp
  have keep: "area_byte D (sd ?s') a k = area_byte D (sd s2) a k" if "a = AInodeMap \<or> a = ABlockMap \<or> a = ASuper"
      "k < 512 * area_len a" for a k
    using saved s3 [of a k] that by (auto simp: dir_saved_def)
  note dir = dir_saved_ok [OF saved n0, simplified F, OF _ refl t(4)]
  have "rd32 ?s' (ino_id (CurrentInode, 0)) = ?F 12"
    unfolding rd32_def ino_id_def by (rule get_u32_cong) (use upd cwd in \<open>simp add: ip\<close>)
  moreover have "init_root D s = Inr (printk ''[FS] Initialize filesystem finished.'' [] (printk ''     block_num = %d'' [PNum 0] ?s'))"
    by (simp add: init_root_def a c transfers t(1))
  moreover have "inode_u32 D (sd ?s') 0 4 = I_DIR" "inode_u32 D (sd ?s') 0 24 = 1"
    using saved F(3,4) by (simp_all add: dir_saved_def)
  moreover have "area_byte D (sd ?s') AInodeMap i = (if i = 0 then 1 else 0)" if "i < 512" for i
    using keep [of AInodeMap i] b2 [of AInodeMap i] clear that by (simp add: maps_clear_def)
  moreover have "area_byte D (sd ?s') ABlockMap i = (if i = 0 then 1 else 0)" if "i < 4096" for i
    using keep [of ABlockMap i] b2 [of ABlockMap i] clear that by (simp add: maps_clear_def)
  moreover have "area_byte D (sd ?s') ASuper i = area_byte D (sd s) ASuper i" if "i < 512" for i
    using keep [of ASuper i] b2 [of ASuper i] that by simp
  ultimately show ?thesis using dir t(3) F(5) by auto
qed

section \<open>Shared steps of the properties\<close>

lemma length_dir_at [simp]: "length (dir_at D d n) = 128"
  by (simp add: dir_at_def dir_list_def)

lemma dir_find_new:
  assumes "\<forall>(t, x, nm) \<in> set es. \<not> (t AND type \<noteq> 0 \<and> nm = name)" and "i < length es" and "type \<noteq> 0"
  shows "dir_find name type (es[i := (type, sub, name)]) = sub"
proof -
  let ?P = "\<lambda>(t, x, nm). t AND type \<noteq> 0 \<and> nm = name"
  have "es[i := (type, sub, name)] = take i es @ (type, sub, name) # drop (Suc i) es"
    using assms(2) by (simp add: upd_conv_take_nth_drop)
  moreover have "find ?P (take i es) = None"
    using assms(1) by (auto simp: find_None_iff dest!: in_set_takeD)
  moreover have "find P (xs @ ys) = (case find P xs of Some x \<Rightarrow> Some x | None \<Rightarrow> find P ys)" for P :: "dentry \<Rightarrow> bool" and xs ys
    by (induction xs) auto
  ultimately have "find ?P (es[i := (type, sub, name)]) = Some (type, sub, name)"
    using assms(3) by simp
  then show ?thesis by (simp add: dir_find_def)
qed

lemma create_dentry_result:
  assumes "sd_ok D" and "dir_ok D (sd s) n" and "cstr (fmem s) p name" and "length name < 24"
    and "fst p \<noteq> BlkBuffer" and "fst p \<noteq> SctBuffer" and "type \<noteq> 0"
    and "find (\<lambda>i. fst (dir_at D (sd s) n ! i) = 0) [0..<128] = Some i"
  shows "\<exists>s'. create_dentry D n sub (Some p) type s = Inr (sub, s') \<and> dir_ok D (sd s') n \<and>
    dir_at D (sd s') n = (dir_at D (sd s) n)[i := (type, sub, name)] \<and>
    dir_block D (sd s') n = dir_block D (sd s) n \<and>
    inode_u32 D (sd s') n 16 = inode_u32 D (sd s) n 16 + 1 \<and>
    inode_u32 D (sd s') n 24 = inode_u32 D (sd s) n 24 + (if type = D_DIR then 1 else 0) \<and>
    (\<forall>n' k. n' < 2048 \<longrightarrow> n' \<noteq> n \<longrightarrow> k < 128 \<longrightarrow> inode_byte D (sd s') n' k = inode_byte D (sd s) n' k) \<and>
    (\<forall>a k. area_ok a \<longrightarrow> a \<noteq> AInodes (drop_bit 2 n) \<longrightarrow> a \<noteq> ABlock (dir_block D (sd s) n) \<longrightarrow>
      k < 512 * area_len a \<longrightarrow> area_byte D (sd s') a k = area_byte D (sd s) a k) \<and>
    (\<forall>c k. c \<noteq> BlkBuffer \<and> c \<noteq> SctBuffer \<longrightarrow> fmem s' (c, k) = fmem s (c, k))"
proof -
  let ?F = "fields_of D (sd s) n (create_fields D (sd s) n type)"
  obtain s' where s': "create_dentry D n sub (Some p) type s = Inr (sub, s')"
    and saved: "dir_saved D n (dir_block D (sd s) n) ?F (fmem s') (sd s) (sd s')"
    and tab: "table_ok (fmem s') (inode_u32 D (sd s) n 16 + 1)"
    and lst: "dir_list (fmem s') = (dir_at D (sd s) n)[i := (type, sub, name)]"
    and frame: "\<forall>c k. c \<noteq> BlkBuffer \<and> c \<noteq> SctBuffer \<longrightarrow> fmem s' (c, k) = fmem s (c, k)"
    using create_dentry_eq [OF assms] by blast
  have F: "?F 16 = inode_u32 D (sd s) n 16 + 1" "?F 32 = dir_block D (sd s) n"
    "?F 24 = inode_u32 D (sd s) n 24 + (if type = D_DIR then 1 else 0)"
    by (simp_all add: fields_of_def create_fields_def dir_block_def)
  have "n < 2048" "dir_block D (sd s) n < 131072" using assms(2) by (simp_all add: dir_ok_def)
  note new = dir_saved_ok [OF saved this F(2), unfolded F(1), OF tab]
  have "inode_u32 D (sd s') n 16 = ?F 16" "inode_u32 D (sd s') n 24 = ?F 24" "dir_block D (sd s') n = ?F 32"
    using saved by (simp_all add: dir_saved_def dir_block_def)
  then show ?thesis
    using s' new lst saved frame by (simp add: F dir_saved_def)
qed

text \<open>Deleting an entry that is in use, and one that was deleted before.\<close>

lemma delete_dentry_result:
  assumes "sd_ok D" and ok: "dir_ok D (sd s) n" and "may_delete D (sd s) sub type"
    and first: "find (\<lambda>i. fst (snd (dir_at D (sd s) n ! i)) = sub) [0..<128] = Some i"
  shows "\<exists>s'. delete_dentry D n sub type s = Inr (type = D_DIR \<or> inode_u32 D (sd s) sub 24 = 1, s') \<and>
    dir_at D (sd s') n = (dir_at D (sd s) n)[i := (0, sub, [])] \<and>
    (if fst (dir_at D (sd s) n ! i) \<noteq> 0 then dir_ok D (sd s') n
     else dir_at D (sd s') n = dir_at D (sd s) n \<and> \<not> dir_ok D (sd s') n) \<and>
    inode_u32 D (sd s') n 16 = inode_u32 D (sd s) n 16 - 1 \<and>
    inode_u32 D (sd s') n 24 = inode_u32 D (sd s) n 24 - 1 \<and>
    (\<forall>n' k. n' < 2048 \<longrightarrow> n' \<noteq> n \<longrightarrow> k < 128 \<longrightarrow> inode_byte D (sd s') n' k = inode_byte D (sd s) n' k) \<and>
    (\<forall>a k. area_ok a \<longrightarrow> a \<noteq> AInodes (drop_bit 2 n) \<longrightarrow> a \<noteq> ABlock (dir_block D (sd s) n) \<longrightarrow>
      k < 512 * area_len a \<longrightarrow> area_byte D (sd s') a k = area_byte D (sd s) a k)"
proof -
  let ?F = "fields_of D (sd s) n (delete_fields D (sd s) n)" and ?blk = "dir_block D (sd s) n"
  obtain s' m where s': "delete_dentry D n sub type s = Inr (type = D_DIR \<or> inode_u32 D (sd s) sub 24 = 1, s')"
    and saved: "dir_saved D n ?blk ?F (fmem s') (sd s) (sd s')" and only: "only_entry i m (fmem s')"
    and lst: "dir_list m = dir_at D (sd s) n" and tab: "table_ok m (inode_u32 D (sd s) n 16)"
    and e: "entry (fmem s') i = (0, sub, [])" "entry_ok (fmem s') i"
    using delete_dentry_eq [OF assms] by blast
  have i: "i < 128" and sub: "fst (snd (dir_list m ! i)) = sub"
    using first by (simp_all add: find_upt_Some lst)
  have ty: "ent_type m i = fst (dir_at D (sd s) n ! i)" using i by (simp add: dir_list_def entry_def flip: lst)
  have F: "?F 16 = inode_u32 D (sd s) n 16 - 1" "?F 24 = inode_u32 D (sd s) n 24 - 1" "?F 32 = ?blk"
    by (simp_all add: fields_of_def delete_fields_def dir_block_def)
  have n: "n < 2048" "?blk < 131072" using ok by (simp_all add: dir_ok_def)
  have new: "dir_list (fmem s') = (dir_at D (sd s) n)[i := (0, sub, [])]"
    using only_entry_list [OF only i] by (simp add: e lst)
  have blk: "dir_block D (sd s') n = ?blk" "inode_u32 D (sd s') n 16 = ?F 16" "inode_u32 D (sd s') n 24 = ?F 24"
    using saved F(3) by (simp_all add: dir_saved_def dir_block_def)
  have eq: "block_mem D (sd s') ?blk (BlkBuffer, k) = fmem s' (BlkBuffer, k)" if "k < 4096" for k
    using saved that by (simp add: dir_saved_def block_mem_def)
  have card: "dir_at D (sd s') n = dir_list (fmem s')"
    "dir_ok D (sd s') n = table_ok (fmem s') (inode_u32 D (sd s) n 16 - 1)"
    using dir_list_cong [of "block_mem D (sd s') ?blk" "fmem s'"] eq n by (simp_all add: dir_at_def dir_ok_def blk F)
  have "if fst (dir_at D (sd s) n ! i) \<noteq> 0 then dir_ok D (sd s') n
     else dir_at D (sd s') n = dir_at D (sd s) n \<and> \<not> dir_ok D (sd s') n"
  proof (cases "ent_type m i = 0")
    case False
    then show ?thesis using table_ok_remove [OF tab only i _ _ e(2)] e(1) ty by (simp add: card entry_def)
  next
    case True
    then have "entry m i = (0, sub, [])"
      using tab i sub ent_name_unique [of m i "[]"] by (simp add: table_ok_def entry_ok_def entry_def dir_list_def)
        (metis padd_0 zero_less_numeral)
    then have "dir_at D (sd s) n ! i = (0, sub, [])" using i by (simp add: dir_list_def flip: lst)
    then have "dir_at D (sd s') n = dir_at D (sd s) n" unfolding card new by (metis list_update_id)
    moreover have "used (fmem s') = used m"
      using only_entry_used [OF only i] e(1) True by (auto simp: entry_def used_def)
    then have "\<not> table_ok (fmem s') (inode_u32 D (sd s) n 16 - 1)"
      using tab by (simp add: table_ok_def) (metis word_unat_eq_iff diff_eq_eq add_cancel_left_right one_neq_zero
          diff_zero diff_left_imp_eq)
    ultimately show ?thesis using True ty by (simp add: card)
  qed
  then show ?thesis using s' saved new by (simp add: card(1) blk F dir_saved_def)
qed

text \<open>A state with a fresh root directory and the name \<open>a\<close> in the caller's memory.\<close>

definition root_fs :: "(u32 \<Rightarrow> nat \<Rightarrow> u8) fstate" where
  "root_fs = (let s = (case init_root ram_disk blank_state of Inr s \<Rightarrow> s | Inl e \<Rightarrow> blank_state)
     in s\<lparr>fmem := (\<lambda>(c, k). if c = UserMem 0 then (if k = 0 then 97 else 0) else fmem s (c, k))\<rparr>)"

lemma root_fs_ok:
  "dir_ok ram_disk (sd root_fs) 0" "dir_at ram_disk (sd root_fs) 0 = empty_dir 0 0"
  "inode_u32 ram_disk (sd root_fs) 0 24 = 1" "cstr (fmem root_fs) (UserMem 0, 0) [97]"
proof -
  have "maps_clear ram_disk (sd blank_state)" by (simp add: maps_clear_def)
  from init_root_ok [OF ram_disk_ok this]
  show "dir_ok ram_disk (sd root_fs) 0" "dir_at ram_disk (sd root_fs) 0 = empty_dir 0 0"
    "inode_u32 ram_disk (sd root_fs) 0 24 = 1"
    by (auto simp: root_fs_def Let_def)
  show "cstr (fmem root_fs) (UserMem 0, 0) [97]" by (simp add: root_fs_def Let_def)
qed

lemma empty_dir_find: "dir_find [97] type (empty_dir a b) = - 1"
proof -
  have "find (\<lambda>(t, x, nm). t AND type \<noteq> 0 \<and> nm = [97]) (empty_dir a b) = None"
    by (auto simp: find_None_iff empty_dir_def)
  then show ?thesis by (simp add: dir_find_def)
qed

lemma root_fs_free: "find (\<lambda>i. fst (dir_at ram_disk (sd root_fs) 0 ! i) = 0) [0..<128] = Some 2"
proof -
  have "fst (empty_dir 0 0 ! j) \<noteq> 0" if "j < 2" for j
    using that by (auto simp: empty_dir_def D_DIR_def I_DIR_def less_2_cases_iff)
  then show ?thesis by (simp add: root_fs_ok find_upt_Some) (simp add: empty_dir_def)
qed

section \<open>Properties\<close>

text \<open>
  C17: \<open>search_dentry\<close> is equivalent to a search of the whole table: in a directory that satisfies its
  invariant it returns the inode number of the first entry with the wanted name and type, or -1,
  although it stops early and compares byte by byte; the card is not changed.
\<close>

theorem search_dentry_correct:
  assumes "dir_ok D (sd s) n" and "cstr (fmem s) p name" and "fst p \<noteq> SctBuffer" and "fst p \<noteq> BlkBuffer"
  shows "\<exists>s'. search_dentry D n (Some p) type s = Inr (dir_find name type (dir_at D (sd s) n), s') \<and> sd s' = sd s"
  using search_dentry_eq [OF assms] by simp

theorem search_dentry_correct_witness:
  "\<exists>s'. search_dentry ram_disk 0 (Some (UserMem 0, 0)) D_FILE root_fs = Inr (- 1, s') \<and> sd s' = sd root_fs"
  using search_dentry_correct [OF root_fs_ok(1,4), of D_FILE] by (simp add: root_fs_ok(2) empty_dir_find)

text \<open>
  C16: \<open>create_dentry\<close> implements the insertion into the table: it fails an assertion exactly when all
  128 entries are used; otherwise the first free entry becomes the new one, the directory invariant
  still holds, the entry count grows by one, the link count by one exactly for a directory, and all
  other inodes, blocks and maps on the card are unchanged.
\<close>

theorem create_dentry_refines:
  assumes "sd_ok D" and "dir_ok D (sd s) n" and "cstr (fmem s) p name" and "length name < 24"
    and "fst p \<noteq> BlkBuffer" and "fst p \<noteq> SctBuffer" and "type \<noteq> 0"
  shows "case find (\<lambda>i. fst (dir_at D (sd s) n ! i) = 0) [0..<128] of
      None \<Rightarrow> create_dentry D n sub (Some p) type s = Inl Panic
    | Some i \<Rightarrow> \<exists>s'. create_dentry D n sub (Some p) type s = Inr (sub, s') \<and> dir_ok D (sd s') n \<and>
        dir_at D (sd s') n = (dir_at D (sd s) n)[i := (type, sub, name)] \<and>
        inode_u32 D (sd s') n 16 = inode_u32 D (sd s) n 16 + 1 \<and>
        inode_u32 D (sd s') n 24 = inode_u32 D (sd s) n 24 + (if type = D_DIR then 1 else 0) \<and>
        (\<forall>n' k. n' < 2048 \<longrightarrow> n' \<noteq> n \<longrightarrow> k < 128 \<longrightarrow> inode_byte D (sd s') n' k = inode_byte D (sd s) n' k) \<and>
        (\<forall>a k. area_ok a \<longrightarrow> a \<noteq> AInodes (drop_bit 2 n) \<longrightarrow> a \<noteq> ABlock (dir_block D (sd s) n) \<longrightarrow>
          k < 512 * area_len a \<longrightarrow> area_byte D (sd s') a k = area_byte D (sd s) a k)"
proof (cases "find (\<lambda>i. fst (dir_at D (sd s) n ! i) = 0) [0..<128]")
  case None
  then show ?thesis by (simp add: create_dentry_open)
next
  case (Some i)
  from create_dentry_result [OF assms Some, of sub] show ?thesis unfolding Some option.case by blast
qed

theorem create_dentry_refines_witness:
  "\<exists>s'. create_dentry ram_disk 0 5 (Some (UserMem 0, 0)) D_FILE root_fs = Inr (5, s') \<and> dir_ok ram_disk (sd s') 0 \<and>
     dir_at ram_disk (sd s') 0 = (empty_dir 0 0)[2 := (D_FILE, 5, [97])]"
proof -
  have "(D_FILE :: u32) \<noteq> 0" by (simp add: D_FILE_def I_FILE_def)
  then show ?thesis
    using create_dentry_refines [OF ram_disk_ok root_fs_ok(1,4), of D_FILE 5]
    unfolding root_fs_free option.case by (auto simp: root_fs_ok(2))
qed

text \<open>
  C18: On a card without the magic number \<open>do_mkfs\<close> returns 0 and makes a file system: the superblock
  carries the magic number, exactly inode 0 and block 0 are taken, inode 0 is a directory with one
  link that satisfies the directory invariant and has exactly the entries \<open>.\<close> and \<open>..\<close>, both
  pointing to itself, and it is the current directory.
\<close>

theorem mkfs_formats:
  assumes "sd_ok D" and "card_u32 D (sd s) ASuper 0 \<noteq> SUPERBLOCK_MAGIC"
  shows "\<exists>s'. do_mkfs D s = Inr (0, s') \<and> card_u32 D (sd s') ASuper 0 = SUPERBLOCK_MAGIC \<and>
    dir_ok D (sd s') 0 \<and> dir_at D (sd s') 0 = empty_dir 0 0 \<and> inode_u32 D (sd s') 0 4 = I_DIR \<and>
    inode_u32 D (sd s') 0 24 = 1 \<and> rd32 s' (ino_id (CurrentInode, 0)) = 0 \<and>
    (\<forall>i<512. area_byte D (sd s') AInodeMap i = (if i = 0 then 1 else 0)) \<and>
    (\<forall>i<4096. area_byte D (sd s') ABlockMap i = (if i = 0 then 1 else 0))"
proof -
  define s1 where "s1 = printk ''> [FS] Checking existence of FileSystem!'' [] (read_superblock D s)"
  have no: "rd32 s1 (sb_field 0) \<noteq> SUPERBLOCK_MAGIC"
    using assms(2) by (simp add: s1_def transfers sb_field_def rd32_area_read)
  define s2 where "s2 = init_superblock D (printk ''> [FS] Setting up superblock...'' []
    (printk ''> [FS] Start initialize filesystem!'' [] s1))"
  define s3 where "s3 = print_superblock (printk ''> [FS] Checking superblock:'' [] s2)"
  have "card_u32 D (sd s2) ASuper 0 = SUPERBLOCK_MAGIC"
    by (simp add: s2_def init_superblock_def transfers sb_field_def card_u32_write [OF assms(1)] rd32_wr32_other)
  then have magic: "card_u32 D (sd s3) ASuper 0 = SUPERBLOCK_MAGIC" by (simp add: s3_def print_superblock_def)
  obtain s' where s': "init_root D (init_areas D s3) = Inr s'" and props: "dir_ok D (sd s') 0"
    "dir_at D (sd s') 0 = empty_dir 0 0" "inode_u32 D (sd s') 0 4 = I_DIR" "inode_u32 D (sd s') 0 24 = 1"
    "rd32 s' (ino_id (CurrentInode, 0)) = 0"
    "\<forall>i<512. area_byte D (sd s') AInodeMap i = (if i = 0 then 1 else 0)"
    "\<forall>i<4096. area_byte D (sd s') ABlockMap i = (if i = 0 then 1 else 0)"
    and super: "\<forall>i<512. area_byte D (sd s') ASuper i = area_byte D (sd (init_areas D s3)) ASuper i"
    using init_root_ok [OF assms(1) init_areas_clear(1) [OF assms(1)], of s3] by blast
  have "do_mkfs D s = Inr (0, s')"
    using no s' by (simp add: do_mkfs_def Let_def s3_def s2_def s1_def)
  moreover have "card_u32 D (sd s') ASuper 0 = card_u32 D (sd s3) ASuper 0"
    by (rule card_u32_cong) (simp add: super init_areas_clear(2) [OF assms(1)])
  ultimately show ?thesis using props magic by metis
qed

lemma blank_no_magic: "card_u32 ram_disk (sd blank_state) ASuper 0 \<noteq> SUPERBLOCK_MAGIC"
  by (simp add: card_u32_def get_u32_def SUPERBLOCK_MAGIC_def)

theorem mkfs_formats_witness:
  "\<exists>s'. do_mkfs ram_disk blank_state = Inr (0, s') \<and> dir_ok ram_disk (sd s') 0"
  using mkfs_formats [OF ram_disk_ok blank_no_magic] by metis

text \<open>
  What was created is found: after \<open>create_dentry\<close> of a name that no entry of that type had, a
  search for the name returns the inode number of the new entry.
\<close>

theorem create_search_roundtrip:
  assumes "sd_ok D" and "dir_ok D (sd s) n" and "cstr (fmem s) p name" and "length name < 24"
    and "fst p \<noteq> BlkBuffer" and "fst p \<noteq> SctBuffer" and "type \<noteq> 0"
    and "\<forall>(t, x, nm) \<in> set (dir_at D (sd s) n). \<not> (t AND type \<noteq> 0 \<and> nm = name)"
    and "create_dentry D n sub (Some p) type s = Inr (x, s1)"
  shows "\<exists>s2. search_dentry D n (Some p) type s1 = Inr (sub, s2)"
proof -
  obtain i where i: "find (\<lambda>i. fst (dir_at D (sd s) n ! i) = 0) [0..<128] = Some i"
    using assms(9) by (cases "find (\<lambda>i. fst (dir_at D (sd s) n ! i) = 0) [0..<128]") (auto simp: create_dentry_open)
  have new: "dir_ok D (sd s1) n" "dir_at D (sd s1) n = (dir_at D (sd s) n)[i := (type, sub, name)]"
    and mem: "\<And>c k. c \<noteq> BlkBuffer \<and> c \<noteq> SctBuffer \<longrightarrow> fmem s1 (c, k) = fmem s (c, k)"
    using create_dentry_result [OF assms(1-7) i, of sub] assms(9) by auto
  have "cstr (fmem s1) p name = cstr (fmem s) p name"
    using mem assms(5,6) by (intro cstr_cong) (cases p, simp)
  moreover have "i < length (dir_at D (sd s) n)" using i by (simp add: find_upt_Some)
  ultimately show ?thesis
    using search_dentry_eq [OF new(1) _ assms(6,5)] dir_find_new [OF assms(8) _ assms(7)] assms(3) new(2) by simp
qed

text \<open>
  C19: \<open>delete_dentry\<close> refuses a directory that has further entries or links and leaves the card
  alone; it fails an assertion when no entry has the inode number; otherwise it clears the first
  entry with that number, decrements the two counters, reports whether the inode itself is to be
  removed, and, when that entry was in use, preserves the directory invariant.
\<close>

theorem delete_dentry_correct:
  assumes "sd_ok D" and "dir_ok D (sd s) n"
  shows "if \<not> may_delete D (sd s) sub type then \<exists>s'. delete_dentry D n sub type s = Inr (False, s') \<and> sd s' = sd s
    else case find (\<lambda>i. fst (snd (dir_at D (sd s) n ! i)) = sub) [0..<128] of
      None \<Rightarrow> delete_dentry D n sub type s = Inl Panic
    | Some i \<Rightarrow> \<exists>s'. delete_dentry D n sub type s = Inr (type = D_DIR \<or> inode_u32 D (sd s) sub 24 = 1, s') \<and>
        dir_at D (sd s') n = (dir_at D (sd s) n)[i := (0, sub, [])] \<and>
        (fst (dir_at D (sd s) n ! i) \<noteq> 0 \<longrightarrow> dir_ok D (sd s') n) \<and>
        inode_u32 D (sd s') n 16 = inode_u32 D (sd s) n 16 - 1 \<and>
        inode_u32 D (sd s') n 24 = inode_u32 D (sd s) n 24 - 1 \<and>
        (\<forall>n' k. n' < 2048 \<longrightarrow> n' \<noteq> n \<longrightarrow> k < 128 \<longrightarrow> inode_byte D (sd s') n' k = inode_byte D (sd s) n' k)"
proof (cases "may_delete D (sd s) sub type")
  case False
  then show ?thesis using delete_dentry_refused by simp
next
  case may: True
  show ?thesis
  proof (cases "find (\<lambda>i. fst (snd (dir_at D (sd s) n ! i)) = sub) [0..<128]")
    case None
    then show ?thesis
      using may by (simp add: delete_dentry_open Let_def first_inode delete_state_list [OF assms])
  next
    case (Some i)
    have split: "(if b then P else Q) \<Longrightarrow> b \<longrightarrow> P" for b P Q by simp
    show ?thesis
      using delete_dentry_result [OF assms may Some] split
      by (simp only: Some option.case may not_True_eq_False if_False) blast
  qed
qed

theorem delete_dentry_correct_witness:
  "\<exists>b s'. delete_dentry ram_disk 0 0 D_FILE root_fs = Inr (b, s') \<and> dir_ok ram_disk (sd s') 0"
proof -
  have f: "find (\<lambda>i. fst (snd (dir_at ram_disk (sd root_fs) 0 ! i)) = 0) [0..<128] = Some 0"
    by (simp add: root_fs_ok(2) find_upt_Some empty_dir_def)
  show ?thesis
    using delete_dentry_correct [OF ram_disk_ok root_fs_ok(1), of 0 D_FILE]
    unfolding f option.case
    by (auto simp: may_delete_def D_FILE_def I_FILE_def D_DIR_def I_DIR_def root_fs_ok(2) empty_dir_def split: if_splits)
qed

text \<open>
  C36: Deleting looks for the inode number only, also in entries that were deleted before: when the
  first entry with the number is such an entry (one of two hard links in a directory was removed),
  \<open>delete_dentry\<close> leaves the table of entries as it is, so the name is still there, but decrements
  the entry count, and the directory no longer satisfies its invariant.
\<close>

theorem delete_hits_stale_entry:
  assumes "sd_ok D" and "dir_ok D (sd s) n" and "type \<noteq> D_DIR"
    and "find (\<lambda>i. fst (snd (dir_at D (sd s) n ! i)) = sub) [0..<128] = Some i" and "fst (dir_at D (sd s) n ! i) = 0"
  shows "\<exists>b s'. delete_dentry D n sub type s = Inr (b, s') \<and> dir_at D (sd s') n = dir_at D (sd s) n \<and>
    inode_u32 D (sd s') n 16 = inode_u32 D (sd s) n 16 - 1 \<and> \<not> dir_ok D (sd s') n"
proof -
  have "may_delete D (sd s) sub type" using assms(3) by (simp add: may_delete_def)
  from delete_dentry_result [OF assms(1,2) this assms(4)] show ?thesis using assms(5) by auto
qed

theorem delete_hits_stale_entry_witness:
  "\<exists>s b s'. dir_ok ram_disk (sd s) 0 \<and> delete_dentry ram_disk 0 0 D_FILE s = Inr (b, s') \<and> \<not> dir_ok ram_disk (sd s') 0"
proof -
  have t: "(D_FILE :: u32) \<noteq> D_DIR" by (simp add: D_FILE_def I_FILE_def D_DIR_def I_DIR_def)
  have f: "find (\<lambda>i. fst (snd (dir_at ram_disk (sd root_fs) 0 ! i)) = 0) [0..<128] = Some 0"
    by (simp add: root_fs_ok(2) find_upt_Some empty_dir_def)
  have e0: "fst (empty_dir 0 0 ! 0) \<noteq> 0" by (simp add: empty_dir_def D_DIR_def I_DIR_def)
  have "may_delete ram_disk (sd root_fs) 0 D_FILE" using t by (simp add: may_delete_def)
  from delete_dentry_result [OF ram_disk_ok root_fs_ok(1) this f] obtain s :: "(u32 \<Rightarrow> nat \<Rightarrow> u8) fstate" where
    "dir_at ram_disk (sd s) 0 = (dir_at ram_disk (sd root_fs) 0)[0 := (0, 0, [])]"
    "if fst (dir_at ram_disk (sd root_fs) 0 ! 0) \<noteq> 0 then dir_ok ram_disk (sd s) 0
     else dir_at ram_disk (sd s) 0 = dir_at ram_disk (sd root_fs) 0 \<and> \<not> dir_ok ram_disk (sd s) 0"
    by blast
  then have s: "dir_ok ram_disk (sd s) 0" "dir_at ram_disk (sd s) 0 = (empty_dir 0 0)[0 := (0, 0, [])]"
    using e0 by (simp_all add: root_fs_ok(2))
  have g: "find (\<lambda>i. fst (snd (dir_at ram_disk (sd s) 0 ! i)) = 0) [0..<128] = Some 0"
    by (simp add: s(2) find_upt_Some empty_dir_def)
  have "fst (dir_at ram_disk (sd s) 0 ! 0) = 0" by (simp add: s(2) empty_dir_def)
  from delete_hits_stale_entry [OF ram_disk_ok s(1) t g this] show ?thesis using s(1) by blast
qed

text \<open>
  Creating a file and deleting it again does not restore the directory: the entry count is as
  before, but the link count has lost one, because deleting decrements it for every entry and
  creating increments it only for directories.  A directory with one link can then no longer be
  removed: \<open>delete_dentry\<close> refuses it, though it is empty.
\<close>

theorem create_delete_loses_link:
  assumes "sd_ok D" and "dir_ok D (sd s) n" and "cstr (fmem s) p name" and "length name < 24"
    and "fst p \<noteq> BlkBuffer" and "fst p \<noteq> SctBuffer"
    and new: "\<forall>e \<in> set (dir_at D (sd s) n). fst (snd e) \<noteq> sub"
    and "create_dentry D n sub (Some p) D_FILE s = Inr (x, s1)"
  shows "\<exists>b s2. delete_dentry D n sub D_FILE s1 = Inr (b, s2) \<and>
    inode_u32 D (sd s2) n 16 = inode_u32 D (sd s) n 16 \<and> inode_u32 D (sd s2) n 24 = inode_u32 D (sd s) n 24 - 1 \<and>
    (inode_u32 D (sd s) n 24 = 1 \<longrightarrow>
      (\<forall>parent. \<exists>s3. delete_dentry D parent n D_DIR s2 = Inr (False, s3) \<and> sd s3 = sd s2))"
proof -
  have t: "(D_FILE :: u32) \<noteq> 0" "(D_FILE :: u32) \<noteq> D_DIR" by (simp_all add: D_FILE_def I_FILE_def D_DIR_def I_DIR_def)
  obtain i where i: "find (\<lambda>i. fst (dir_at D (sd s) n ! i) = 0) [0..<128] = Some i"
    using assms(8) by (cases "find (\<lambda>i. fst (dir_at D (sd s) n ! i) = 0) [0..<128]") (auto simp: create_dentry_open)
  have s1: "dir_ok D (sd s1) n" "dir_at D (sd s1) n = (dir_at D (sd s) n)[i := (D_FILE, sub, name)]"
    "inode_u32 D (sd s1) n 16 = inode_u32 D (sd s) n 16 + 1" "inode_u32 D (sd s1) n 24 = inode_u32 D (sd s) n 24"
    using create_dentry_result [OF assms(1-6) t(1) i, of sub] assms(8) t(2) by auto
  have "i < 128" using i by (simp add: find_upt_Some)
  then have first: "find (\<lambda>j. fst (snd (dir_at D (sd s1) n ! j)) = sub) [0..<128] = Some i"
    using new by (auto simp: find_upt_Some s1(2))
  have "may_delete D (sd s1) sub D_FILE" using t(2) by (simp add: may_delete_def)
  from delete_dentry_result [OF assms(1) s1(1) this first] obtain b s2 where
    s2: "delete_dentry D n sub D_FILE s1 = Inr (b, s2)" "inode_u32 D (sd s2) n 16 = inode_u32 D (sd s) n 16"
      "inode_u32 D (sd s2) n 24 = inode_u32 D (sd s) n 24 - 1"
    by (auto simp: s1)
  have "\<not> may_delete D (sd s2) n D_DIR" if "inode_u32 D (sd s) n 24 = 1"
    using that s2(3) by (simp add: may_delete_def)
  then show ?thesis using s2 delete_dentry_refused [of D s2 n D_DIR] by blast
qed

end
