(* ===== verification/FsFileSpec.thy ===== *)
theory FsFileSpec
  imports FsFile FsDirSpec
begin

text \<open>
  What the file calls of \<open>fs.c\<close> promise: every byte offset has a place in the inode's pointers, the
  transfer loops end, and what is written is read back.
\<close>

section \<open>Levels of block pointers\<close>

lemma page_level_cases:
  fixes page :: u32
  assumes "page < 1048576"
  obtains "unat page < 14" "page_level page = Some (0, page)"
  | "14 \<le> unat page" "unat page < 3086" "page_level page = Some (1, page - 14)"
  | "3086 \<le> unat page" "page_level page = Some (2, page - 3086)"
proof -
  have lt: "unat page < 1048576" using assms by (simp add: word_less_nat_alt)
  have pl: "page_level page = (if page < 14 then Some (0, page) else if page < 3086 then Some (1, page - 14)
      else if page < 2100238 then Some (2, page - 3086)
      else if page < 1075842062 then Some (3, page - 2100238) else None)"
    by (simp add: page_level_def level_defs push_bit_eq_mult)
  have l: "page < 14 \<longleftrightarrow> unat page < 14" "page < 3086 \<longleftrightarrow> unat page < 3086" "page < 2100238 \<longleftrightarrow> unat page < 2100238"
    by (simp_all add: word_less_nat_alt)
  consider "unat page < 14" | "14 \<le> unat page" "unat page < 3086" | "3086 \<le> unat page" by linarith
  then show thesis
  proof cases
    case 1
    then show ?thesis using that(1) by (simp add: pl l)
  next
    case 2
    then show ?thesis using that(2) by (simp add: pl l)
  next
    case 3
    then show ?thesis using that(3) lt by (simp add: pl l)
  qed
qed

lemma drop_12_less: "drop_bit 12 (off :: u32) < 1048576"
proof -
  have "unat off < 2 ^ LENGTH(32)" by (rule unsigned_less)
  then have "unat (off div 4096) < 1048576" by (simp add: unat_div less_mult_imp_div_less)
  then show ?thesis by (simp add: drop_bit_eq_div word_less_nat_alt)
qed

lemma mod_4096_less: "unat (off mod 4096 :: u32) < 4096"
  by (simp add: unat_mod)

lemma byte_locate_result:
  "byte_locate D off p s = Inr (r, s') \<Longrightarrow> \<exists>b. r = Some (b, off mod 4096)"
  by (rule page_level_cases [OF drop_12_less [of off]])
    (auto simp: byte_locate_def res_eq_Inr split: prod.splits)

section \<open>The tree of block pointers\<close>

text \<open>
  Where the block of page \<open>P\<close> of a file is to be found: the offset of a pointer in the inode (14 direct
  pointers from byte 32 on, 3 of the first level from byte 88 on, 2 of the second level from byte 100 on) and the
  indices into the pointer blocks below it, which hold 1024 pointers each.
\<close>

definition file_path :: "nat \<Rightarrow> nat \<times> nat list" where
  "file_path P =
     (if P < 14 then (32 + 4 * P, [])
      else if P < 3086 then (88 + 4 * ((P - 14) div 1024), [(P - 14) mod 1024])
      else (100 + 4 * ((P - 3086) div 1048576), [(P - 3086) div 1024 mod 1024, (P - 3086) mod 1024]))"

text \<open>Following the indices on the card from block \<open>b\<close> on; \<open>linked\<close> holds when no pointer on the way is null.\<close>

fun follow :: "'d sdcard \<Rightarrow> 'd \<Rightarrow> u32 \<Rightarrow> nat list \<Rightarrow> u32" where
  "follow D d b [] = b"
| "follow D d b (k # ks) = follow D d (card_u32 D d (ABlock b) (4 * k)) ks"

fun linked :: "'d sdcard \<Rightarrow> 'd \<Rightarrow> u32 \<Rightarrow> nat list \<Rightarrow> bool" where
  "linked D d b [] \<longleftrightarrow> b \<noteq> 0"
| "linked D d b (k # ks) \<longleftrightarrow> b \<noteq> 0 \<and> linked D d (card_u32 D d (ABlock b) (4 * k)) ks"

lemma linked_nonzero: "linked D d b ks \<Longrightarrow> b \<noteq> 0"
  by (cases ks) auto

lemma file_path_inside:
  assumes "P < 1048576"
  shows "32 \<le> fst (file_path P)" and "fst (file_path P) + 4 \<le> 108" and "4 dvd fst (file_path P)"
    and "\<forall>k\<in>set (snd (file_path P)). k < 1024"
proof -
  have "(P - 14) div 1024 < 3" if "P < 3086" using that by (intro less_mult_imp_div_less) simp
  then have d: "(P - 3086) div 1048576 = 0" "P < 3086 \<Longrightarrow> (P - 14) div 1024 \<le> 2" using assms by (auto simp: less_Suc_eq_le)
  show "32 \<le> fst (file_path P)" "4 dvd fst (file_path P)" "\<forall>k\<in>set (snd (file_path P)). k < 1024" by (simp_all add: file_path_def)
  have "P < 3086 \<Longrightarrow> (P - 14) div 1024 \<le> 4" using d(2) by (rule le_trans) simp_all
  then show "fst (file_path P) + 4 \<le> 108" using d by (simp add: file_path_def)
qed

lemma file_path_inj:
  assumes "file_path P = file_path Q" and "P < 1048576" and "Q < 1048576"
  shows "P = Q"
proof -
  have split: "(x :: nat) = y" if "x div 1024 = y div 1024" "x mod 1024 = y mod 1024" for x y
    using that by (metis div_mult_mod_eq)
  have small: "(P - 3086) div 1024 mod 1024 = (P - 3086) div 1024" "(Q - 3086) div 1024 mod 1024 = (Q - 3086) div 1024"
    using assms(2,3) by (simp_all add: less_mult_imp_div_less)
  show ?thesis
    using assms(1) split [of "P - 14" "Q - 14"] split [of "P - 3086" "Q - 3086"]
    unfolding file_path_def small by (auto split: if_splits)
qed

lemma unat_page: "unat (drop_bit 12 off :: u32) = unat off div 4096"
  by (simp add: drop_bit_eq_div unat_div)

lemma unat_minus: "unat c \<le> unat x \<Longrightarrow> unat (x - c :: u32) = unat x - unat c"
  by (simp add: unat_sub word_le_nat_alt)

lemma inode_slot_there: "rd32 s q \<noteq> 0 \<Longrightarrow> inode_slot D p q q' s = Inr (rd32 s q, s)"
  by (simp add: inode_slot_def)

lemma block_slot_there:
  "card_u32 D (sd s) (ABlock b) (4 * k) \<noteq> 0 \<Longrightarrow> k < 1024 \<Longrightarrow>
   block_slot D p b k s = Inr (card_u32 D (sd s) (ABlock b) (4 * k), area_read D BlkBuffer (ABlock b) s)"
  by (simp add: block_slot_def transfers rd32_area_read Let_def)

text \<open>\<open>locate_block\<close> follows the path when it is there, and only uses the buffer for blocks on the way.\<close>

lemma locate_there:
  assumes "page_level (drop_bit 12 off) = Some (l, k)" and "file_path (unat off div 4096) = (f, ks)"
    and "linked D (sd s) (rd32 s (padd p f)) ks"
  shows "\<exists>s'. locate_block D p l k s = Inr (follow D (sd s) (rd32 s (padd p f)) ks, s') \<and> sd s' = sd s \<and>
    (\<forall>c i. c \<noteq> BlkBuffer \<longrightarrow> fmem s' (c, i) = fmem s (c, i))"
proof (rule page_level_cases [OF drop_12_less [of off]])
  assume a: "unat (drop_bit 12 off) < 14" "page_level (drop_bit 12 off) = Some (0, drop_bit 12 off)"
  then have "f = 32 + 4 * unat (drop_bit 12 off)" "ks = []" "l = 0" "k = drop_bit 12 off"
    using assms(1,2) by (simp_all add: file_path_def unat_page)
  then show ?thesis using assms(3) by (intro exI [of _ s]) (simp add: locate_block_def direct_block_def inode_slot_there)
next
  assume a: "14 \<le> unat (drop_bit 12 off)" "unat (drop_bit 12 off) < 3086" "page_level (drop_bit 12 off) = Some (1, drop_bit 12 off - 14)"
  let ?x = "unat off div 4096 - 14"
  have "unat (drop_bit 12 off - 14) = ?x" using unat_minus [of 14 "drop_bit 12 off"] a(1) by (simp add: unat_page)
  then have lk: "l = 1" "unat k = ?x" using assms(1) a(3) by auto
  have fk: "f = 88 + 4 * (?x div 1024)" "ks = [?x mod 1024]" using assms(2) a(1,2) by (simp_all add: file_path_def unat_page)
  have i: "unat (drop_bit 10 k) = ?x div 1024" "unat (k mod FIRST_BLOCK_SIZE) = ?x mod 1024"
    by (simp_all add: drop_bit_eq_div unat_div unat_mod lk FIRST_BLOCK_SIZE_def push_bit_eq_mult)
  show ?thesis using assms(3)
    by (simp add: locate_block_def lk(1) i first_block_def fk inode_slot_there block_slot_there area_read_mem Let_def)
next
  assume a: "3086 \<le> unat (drop_bit 12 off)" "page_level (drop_bit 12 off) = Some (2, drop_bit 12 off - 3086)"
  let ?x = "unat off div 4096 - 3086"
  have "unat (drop_bit 12 off - 3086) = ?x" using unat_minus [of 3086 "drop_bit 12 off"] a(1) by (simp add: unat_page)
  then have lk: "l = 2" "unat k = ?x" using assms(1) a(2) by auto
  have fk: "f = 100 + 4 * (?x div 1048576)" "ks = [?x div 1024 mod 1024, ?x mod 1024]"
    using assms(2) a(1) by (simp_all add: file_path_def unat_page)
  have m: "?x mod 1048576 div 1024 = ?x div 1024 mod 1024" "?x mod 1048576 mod 1024 = ?x mod 1024"
    using mod_mult2_eq [of ?x 1024 1024] by simp_all
  have i: "unat (drop_bit 20 k) = ?x div 1048576" "unat (drop_bit 10 (k mod SECOND_BLOCK_SIZE)) = ?x div 1024 mod 1024"
    "unat (k mod SECOND_BLOCK_SIZE mod FIRST_BLOCK_SIZE) = ?x mod 1024"
    using m by (simp_all add: drop_bit_eq_div unat_div unat_mod lk FIRST_BLOCK_SIZE_def SECOND_BLOCK_SIZE_def push_bit_eq_mult)
  show ?thesis using assms(3)
    by (simp add: locate_block_def lk(1) i second_block_def fk inode_slot_there block_slot_there area_read_mem Let_def)
qed

section \<open>The transfer loops end\<close>

lemma chunk_le:
  assumes "len \<noteq> 0" and "unat off < 4096"
  shows "0 < unat (chunk len off)" and "chunk len off \<le> len"
proof -
  have "off \<le> 4096" using assms(2) by (simp add: word_le_nat_alt)
  then have "unat (4096 - off) = 4096 - unat off" by (simp add: unat_sub)
  moreover have "0 < unat len" using assms(1) by (simp add: unat_gt_0)
  ultimately show "0 < unat (chunk len off)" using assms(2) by (simp add: chunk_def)
  show "chunk len off \<le> len" by (simp add: chunk_def not_less)
qed

lemma chunk_decreases: "len \<noteq> 0 \<Longrightarrow> unat (len - chunk len (off mod 4096)) < unat len"
  using chunk_le [OF _ mod_4096_less, of len off] by (simp add: unat_sub word_le_nat_alt)

lemma byte_locate_no_hang: "byte_locate D off p s \<noteq> Inl Hang"
proof -
  have ab: "alloc_block D s \<noteq> Inl Hang" for s using bmap.no_other_error by blast
  then have nb: "new_block D p f s \<noteq> Inl Hang" for p f s
    by (cases "alloc_block D s") (auto simp: new_block_def Let_def)
  have isl: "inode_slot D p q q' s \<noteq> Inl Hang" for p q q' s by (simp add: inode_slot_def nb)
  have bs: "block_slot D p b k s \<noteq> Inl Hang" for p b k s by (simp add: block_slot_def nb Let_def)
  have "locate_block D p l k s \<noteq> Inl Hang" for l k s
    by (auto simp: locate_block_def Let_def bindE_eq_Inl isl bs)
  then show ?thesis
    by (auto simp: byte_locate_def bindE_eq_Inl split: option.splits)
qed

lemma fread_loop_ends: "unat len \<le> fuel \<Longrightarrow> fread_loop D fuel fd p buff len bytes s \<noteq> Inl Hang"
proof (induction fuel arbitrary: len bytes s)
  case 0
  then show ?case by (simp add: fread_loop.simps unat_eq_zero)
next
  case (Suc fuel)
  show ?case
  proof (cases "len = 0")
    case False
    show ?thesis
    proof (cases "byte_locate D (rd_offset (fdesc_array s fd)) p s")
      case (Inl e)
      then show ?thesis using False byte_locate_no_hang [of D _ p s] by (subst fread_loop.simps) auto
    next
      case (Inr r)
      obtain loc s1 where r: "r = (loc, s1)" by (cases r)
      obtain b where b: "loc = Some (b, rd_offset (fdesc_array s fd) mod 4096)"
        using byte_locate_result [OF Inr [unfolded r]] by blast
      have "unat (len - chunk len (rd_offset (fdesc_array s fd) mod 4096)) \<le> fuel"
        using Suc.prems chunk_decreases [OF False] by (meson less_Suc_eq_le less_le_trans)
      then show ?thesis
        using False Inr r b Suc.IH by (subst fread_loop.simps) (simp add: Let_def)
    qed
  qed (simp add: fread_loop.simps)
qed

lemma fwrite_loop_ends: "unat len \<le> fuel \<Longrightarrow> fwrite_loop D fuel fd p buff len bytes s \<noteq> Inl Hang"
proof (induction fuel arbitrary: len bytes s)
  case 0
  then show ?case by (simp add: fwrite_loop.simps unat_eq_zero)
next
  case (Suc fuel)
  show ?case
  proof (cases "len = 0")
    case False
    show ?thesis
    proof (cases "byte_locate D (wr_offset (fdesc_array s fd)) p s")
      case (Inl e)
      then show ?thesis using False byte_locate_no_hang [of D _ p s] by (subst fwrite_loop.simps) auto
    next
      case (Inr r)
      obtain loc s1 where r: "r = (loc, s1)" by (cases r)
      obtain b where b: "loc = Some (b, wr_offset (fdesc_array s fd) mod 4096)"
        using byte_locate_result [OF Inr [unfolded r]] by blast
      have "unat (len - chunk len (wr_offset (fdesc_array s fd) mod 4096)) \<le> fuel"
        using Suc.prems chunk_decreases [OF False] by (meson less_Suc_eq_le less_le_trans)
      then show ?thesis
        using False Inr r b Suc.IH by (subst fwrite_loop.simps) (simp add: Let_def)
    qed
  qed (simp add: fwrite_loop.simps)
qed

section \<open>Transfers within one direct block\<close>

text \<open>
  \<open>fd_on D s i n\<close>: descriptor \<open>i\<close> is open for reading and writing on inode \<open>n\<close>, and
  \<open>in_block D s i k b off len\<close>: \<open>len\<close> bytes from \<open>off\<close> lie in one block, reached by direct pointer \<open>k\<close>.
\<close>

definition fd_on :: "'d sdcard \<Rightarrow> 'd fstate \<Rightarrow> nat \<Rightarrow> u32 \<Rightarrow> bool" where
  "fd_on D s i n \<longleftrightarrow> i < NUM_FDESCS \<and> fd_inode_id (fdesc_array s i) = n \<and> fd_status (fdesc_array s i) = F_OCCUPIED \<and>
     fd_mode (fdesc_array s i) = O_RDWR \<and> n < 2048 \<and> inode_u32 D (sd s) n 12 = n"

definition in_block :: "'d sdcard \<Rightarrow> 'd \<Rightarrow> u32 \<Rightarrow> u32 \<Rightarrow> u32 \<Rightarrow> u32 \<Rightarrow> bool" where
  "in_block D d n b off len \<longleftrightarrow> unat off + unat len \<le> 14 * 4096 \<and> len \<noteq> 0 \<and>
     unat (off mod 4096) + unat len \<le> 4096 \<and> b \<noteq> 0 \<and> b < 131072 \<and>
     inode_u32 D d n (32 + 4 * (unat off div 4096)) = b"

lemma chunk_all: "unat (off mod 4096) + unat len \<le> 4096 \<Longrightarrow> chunk len (off mod 4096) = len"
proof -
  assume le: "unat (off mod 4096) + unat len \<le> 4096"
  have "off mod 4096 \<le> 4096" using mod_4096_less [of off] by (simp add: word_le_nat_alt)
  then have "unat (4096 - off mod 4096) = 4096 - unat (off mod 4096)" by (simp add: unat_sub)
  with le show ?thesis
    by (auto simp: chunk_def word_less_nat_alt word_unat_eq_iff)
qed

lemma locate_direct:
  assumes "in_block D d n b off len" and "rd32 s (padd p (32 + 4 * (unat off div 4096))) = b"
  shows "byte_locate D off p s =
    Inr (Some (b, off mod 4096), area_write D SctBuffer (AInodes (drop_bit 2 (rd32 s (ino_id p)))) s)"
proof -
  have "0 < unat len" using assms(1) by (simp add: in_block_def unat_gt_0)
  then have "unat off < 14 * 4096" using assms(1) by (simp add: in_block_def)
  then have k: "unat (drop_bit 12 off) < 14" "unat (drop_bit 12 off) = unat off div 4096"
    by (simp_all add: drop_bit_eq_div unat_div less_mult_imp_div_less)
  have "page_level (drop_bit 12 off) = Some (0, drop_bit 12 off)"
    by (rule page_level_cases [OF drop_12_less [of off]]) (use k(1) in auto)
  then show ?thesis
    using assms k(2) by (simp add: byte_locate_def locate_block_def inode_slot_def direct_block_def in_block_def transfers)
qed

lemma upd_fd_frame [simp]:
  "fmem (upd_fd i f s) = fmem s" "sd (upd_fd i f s) = sd s" "rd32 (upd_fd i f s) p = rd32 s p"
  "fdesc_array (upd_fd i f s) = (fdesc_array s)(i := f (fdesc_array s i))"
  by (simp_all add: upd_fd_def rd32_def)

definition write_chunk :: "'d sdcard \<Rightarrow> fobj ptr \<Rightarrow> u32 \<Rightarrow> u32 \<Rightarrow> u32 \<Rightarrow> 'd fstate \<Rightarrow> 'd fstate" where
  "write_chunk D buff b off len s =
     (let s2 = area_read D BlkBuffer (ABlock b) s
      in area_write D BlkBuffer (ABlock b)
           (s2\<lparr>fmem := memcpy (fmem s2) (BlkBuffer, unat (off mod 4096)) buff (unat len)\<rparr>))"

lemma fwrite_once:
  assumes "in_block D d n b (wr_offset (fdesc_array s i)) len"
    and "rd32 s (padd p (32 + 4 * (unat (wr_offset (fdesc_array s i)) div 4096))) = b"
  shows "fwrite_loop D (unat len) i p buff len 0 s = Inr (Some len, upd_fd i (wr_offset_update (\<lambda>n. n + len))
    (write_chunk D buff b (wr_offset (fdesc_array s i)) len
      (area_write D SctBuffer (AInodes (drop_bit 2 (rd32 s (ino_id p)))) s)))"
proof -
  have len: "len \<noteq> 0" "unat (wr_offset (fdesc_array s i) mod 4096) + unat len \<le> 4096"
    using assms(1) by (simp_all add: in_block_def)
  then obtain f where f: "unat len = Suc f" by (metis unat_eq_zero not0_implies_Suc)
  show ?thesis
    unfolding f using len(1) locate_direct [OF assms] chunk_all [OF len(2)]
    by (subst fwrite_loop.simps) (simp add: Let_def fwrite_loop.simps transfers write_chunk_def f)
qed

text \<open>Writing the buffer with the inode sector back unchanged changes nothing on the card.\<close>

lemma rewrite_same:
  assumes "sd_ok D" and "area_ok a" and "area_ok a'" and "k < 512 * area_len a'"
    and "\<And>j. j < 512 * area_len a \<Longrightarrow> fmem s (b, j) = area_byte D (sd s) a j"
  shows "area_byte D (sd (area_write D b a s)) a' k = area_byte D (sd s) a' k"
  using area_write_byte [OF assms(1-4)] assms(4,5) by (cases "a' = a") simp_all

lemma write_chunk_byte:
  assumes "sd_ok D" and "area_ok a" and "k < 512 * area_len a" and "b < 131072" and "fst buff \<noteq> BlkBuffer"
  shows "area_byte D (sd (write_chunk D buff b off len s)) a k =
    (if a = ABlock b \<and> unat (off mod 4096) \<le> k \<and> k < unat (off mod 4096) + unat len
     then fmem s (fst buff, snd buff + (k - unat (off mod 4096))) else area_byte D (sd s) a k)"
proof -
  have "area_ok (ABlock b)" using assms(4) by simp
  from area_write_byte [OF assms(1) this assms(2,3)] show ?thesis
    using assms(3,5) by (auto simp: write_chunk_def Let_def memcpy_closed area_read_mem)
qed

lemma write_chunk_mem:
  "c \<noteq> BlkBuffer \<Longrightarrow> fmem (write_chunk D buff b off len s) (c, k) = fmem s (c, k)"
  "fdesc_array (write_chunk D buff b off len s) = fdesc_array s"
  by (simp_all add: write_chunk_def Let_def memcpy_outside area_read_mem)

lemma rd32_same_object: "(\<And>k. fmem s (fst p, k) = fmem s' (fst p, k)) \<Longrightarrow> rd32 s p = rd32 s' p"
  unfolding rd32_def by (rule get_u32_cong) (cases p, simp)

text \<open>The last step of both calls: the size is updated and the inode saved.\<close>

definition save_size :: "'d sdcard \<Rightarrow> u32 \<Rightarrow> u32 \<Rightarrow> 'd fstate \<Rightarrow> 'd fstate" where
  "save_size D n v s = area_write D SctBuffer (AInodes (drop_bit 2 n)) (wr32 (padd (inode_ptr n) 20) v s)"

lemma save_size_card:
  assumes D: "sd_ok D" and n: "n < 2048"
    and buf: "\<And>k. k < 512 \<Longrightarrow> fmem s (SctBuffer, k) = area_byte D (sd s) (AInodes (drop_bit 2 n)) k"
  shows "4 dvd k \<Longrightarrow> k \<le> 124 \<Longrightarrow>
      inode_u32 D (sd (save_size D n v s)) n k = (if k = 20 then v else inode_u32 D (sd s) n k)"
    and "m < 2048 \<Longrightarrow> m \<noteq> n \<Longrightarrow> k < 128 \<Longrightarrow> inode_byte D (sd (save_size D n v s)) m k = inode_byte D (sd s) m k"
    and "area_ok a \<Longrightarrow> a \<noteq> AInodes (drop_bit 2 n) \<Longrightarrow> k < 512 * area_len a \<Longrightarrow>
      area_byte D (sd (save_size D n v s)) a k = area_byte D (sd s) a k"
proof -
  have u: "rd32 s (padd (inode_ptr n) k) = inode_u32 D (sd s) n k" if "k + 4 \<le> 128" for k
    unfolding inode_u32_def rd32_def card_u32_def
    by (rule get_u32_cong) (use that mod_4_less [of n] in \<open>simp add: inode_ptr_def INODE_SIZE_def buf\<close>)
  show "inode_u32 D (sd (save_size D n v s)) n k = (if k = 20 then v else inode_u32 D (sd s) n k)"
    if "4 dvd k" "k \<le> 124"
    using that by (simp add: save_size_def inode_field_write [OF D n] rd32_wr32_field u)
  have kept: "others_kept D n s (wr32 (padd (inode_ptr n) 20) v s)"
    using buf by (auto simp: others_kept_def inode_ptr_def INODE_SIZE_def fmem_wr32_other)
  show "inode_byte D (sd (save_size D n v s)) m k = inode_byte D (sd s) m k" if "m < 2048" "m \<noteq> n" "k < 128"
    unfolding save_size_def using inode_other_bytes [OF D n that kept] .
  show "area_byte D (sd (save_size D n v s)) a k = area_byte D (sd s) a k"
    if "area_ok a" "a \<noteq> AInodes (drop_bit 2 n)" "k < 512 * area_len a"
    unfolding save_size_def using inode_other_areas [OF D n that] by simp
qed

lemma no_4GB: "\<not> (4294967296 :: u64) < ucast (x :: u32)"
proof -
  have "unat x < 2 ^ LENGTH(32)" by (rule unsigned_less)
  moreover from this have "unat (ucast x :: u64) = unat x"
    by (simp add: unsigned_ucast_eq take_bit_nat_eq_self)
  ultimately show ?thesis by (simp add: word_less_nat_alt)
qed

lemma do_fwrite_block:
  assumes D: "sd_ok D" and fd: "fd_on D s i n" and blk: "in_block D (sd s) n b (wr_offset (fdesc_array s i)) len"
    and buff: "fst buff = UserMem u"
  defines "off \<equiv> wr_offset (fdesc_array s i)"
  shows "\<exists>s'. do_fwrite D (int i) buff len s = Inr (len, s') \<and>
    (\<forall>k<4096. area_byte D (sd s') (ABlock b) k =
      (if unat (off mod 4096) \<le> k \<and> k < unat (off mod 4096) + unat len
       then fmem s (UserMem u, snd buff + (k - unat (off mod 4096))) else area_byte D (sd s) (ABlock b) k)) \<and>
    (\<forall>k. 4 dvd k \<longrightarrow> k \<le> 124 \<longrightarrow> inode_u32 D (sd s') n k =
      (if k = 20 then max (inode_u32 D (sd s) n 20) (off + len) else inode_u32 D (sd s) n k)) \<and>
    (\<forall>a k. area_ok a \<longrightarrow> a \<noteq> AInodes (drop_bit 2 n) \<longrightarrow> a \<noteq> ABlock b \<longrightarrow> k < 512 * area_len a \<longrightarrow>
      area_byte D (sd s') a k = area_byte D (sd s) a k) \<and>
    (\<forall>m k. m < 2048 \<longrightarrow> m \<noteq> n \<longrightarrow> k < 128 \<longrightarrow> inode_byte D (sd s') m k = inode_byte D (sd s) m k) \<and>
    fdesc_array s' = (fdesc_array s)(i := (fdesc_array s i)\<lparr>wr_offset := off + len\<rparr>) \<and>
    (\<forall>v k. fmem s' (UserMem v, k) = fmem s (UserMem v, k))"
proof -
  let ?A = "AInodes (drop_bit 2 n)" and ?p = "inode_ptr n"
  have n: "n < 2048" "i < 16" and id: "inode_u32 D (sd s) n 12 = n"
    and st: "fd_inode_id (fdesc_array s i) = n" "fd_status (fdesc_array s i) = 1" "fd_mode (fdesc_array s i) = 3"
    using fd by (auto simp: fd_on_def F_OCCUPIED_def O_RDWR_def NUM_FDESCS_def)
  have bb: "b < 131072" and k0: "32 + 4 * (unat off div 4096) \<le> 124"
    using blk by (auto simp: in_block_def off_def unat_gt_0 dest: less_mult_imp_div_less)
  define s1 where "s1 = area_read D SctBuffer ?A s"
  define s5 where "s5 = write_chunk D buff b off len (area_write D SctBuffer ?A s1)"
  define s6 where "s6 = upd_fd i (wr_offset_update (\<lambda>n. n + len)) s5"
  have r1: "rd32 s1 (padd ?p k) = inode_u32 D (sd s) n k" if "k \<le> 124" for k
    using that by (simp add: s1_def inode_field_read)
  have sct6: "fmem s6 (c, k) = fmem s1 (c, k)" if "c \<noteq> BlkBuffer" for c k
    using that by (simp add: s6_def s5_def write_chunk_mem)
  have fd1: "fdesc_array s1 = fdesc_array s" by (simp add: s1_def)
  have "inode_u32 D (sd s) n (32 + 4 * (unat off div 4096)) = b" using blk by (simp add: in_block_def off_def)
  then have loop: "fwrite_loop D (unat len) i ?p buff len 0 s1 = Inr (Some len, s6)"
    using fwrite_once [of D "sd s" n b s1 i len ?p buff] blk k0
    by (simp add: fd1 off_def [symmetric] r1 ino_id_def id s6_def s5_def)
  have r6: "rd32 s6 (padd ?p k) = inode_u32 D (sd s) n k" if "k \<le> 124" for k
    using rd32_same_object [of s6 "padd ?p k" s1] sct6 r1 [OF that] by (simp add: inode_ptr_def)
  have wr6: "wr_offset (fdesc_array s6 i) = off + len" by (simp add: s6_def s5_def write_chunk_mem fd1 off_def)
  let ?v = "max (inode_u32 D (sd s) n 20) (off + len)"
  let ?s' = "save_size D n ?v s6"
  have id7: "rd32 (wr32 (padd ?p 20) ?v s6) (padd ?p 12) = n" by (simp add: rd32_wr32_field r6 id)
  note no = no_4GB [of "off + len"]
  have result: "do_fwrite D (int i) buff len s = Inr (len, ?s')"
    using loop n st no unfolding off_def [symmetric]
    by (simp add: do_fwrite_def fd_at_def NUM_FDESCS_def O_RDONLY_def F_AVAILABLE_def get_inode_def transfers
        ino_size_def ino_id_def save_size_def push_bit_eq_mult r6 wr6 id7 flip: s1_def off_def)
  have okA: "area_ok ?A" by (rule inode_area_ok [OF n(1)])
  have same: "area_byte D (sd (area_write D SctBuffer ?A s1)) a k = area_byte D (sd s) a k"
    if "area_ok a" "k < 512 * area_len a" for a k
    using rewrite_same [OF D okA that, of s1 SctBuffer] by (simp add: s1_def area_read_mem)
  have card6: "area_byte D (sd s6) a k = (if a = ABlock b \<and> unat (off mod 4096) \<le> k \<and> k < unat (off mod 4096) + unat len
      then fmem s (UserMem u, snd buff + (k - unat (off mod 4096))) else area_byte D (sd s) a k)"
    if "area_ok a" "k < 512 * area_len a" for a k
    using write_chunk_byte [OF D that bb, of buff off len "area_write D SctBuffer ?A s1"] buff same [OF that]
    by (simp add: s6_def s5_def s1_def area_read_mem)
  have inode6: "inode_byte D (sd s6) m k = inode_byte D (sd s) m k" if "m < 2048" "k < 128" for m k
    using card6 [OF inode_area_ok [OF that(1)], of "128 * unat (m mod 4) + k"] mod_4_less [of m] that(2)
    by (simp add: inode_byte_def)
  have field6: "inode_u32 D (sd s6) n k = inode_u32 D (sd s) n k" if "k \<le> 124" for k
    unfolding inode_u32_def
    by (rule card_u32_cong) (use card6 [OF okA] that mod_4_less [of n] in simp)
  have buf6: "fmem s6 (SctBuffer, k) = area_byte D (sd s6) ?A k" if "k < 512" for k
    using card6 [OF okA, of k] sct6 [of SctBuffer k] that by (simp add: s1_def area_read_mem)
  note save = save_size_card [OF D n(1) buf6, where v = ?v]
  have "area_byte D (sd ?s') a k = area_byte D (sd s6) a k" if "area_ok a" "a \<noteq> ?A" "k < 512 * area_len a" for a k
    using save(3) that by blast
  moreover have "fmem ?s' (UserMem v, k) = fmem s (UserMem v, k)" for v k
    using sct6 [of "UserMem v" k] by (simp add: save_size_def inode_ptr_def fmem_wr32_other s1_def area_read_mem)
  moreover have "fdesc_array ?s' = (fdesc_array s)(i := (fdesc_array s i)\<lparr>wr_offset := off + len\<rparr>)"
    by (cases "fdesc_array s i") (simp add: save_size_def s6_def s5_def write_chunk_mem fd1 off_def)
  moreover have "area_ok (ABlock b)" using bb by simp
  ultimately show ?thesis
    using result save(1,2) field6 inode6 card6 by (intro exI [of _ ?s']) simp
qed

definition read_chunk :: "'d sdcard \<Rightarrow> fobj ptr \<Rightarrow> u32 \<Rightarrow> u32 \<Rightarrow> u32 \<Rightarrow> 'd fstate \<Rightarrow> 'd fstate" where
  "read_chunk D buff b off len s =
     (let s2 = area_read D BlkBuffer (ABlock b) s
      in s2\<lparr>fmem := memcpy (fmem s2) buff (BlkBuffer, unat (off mod 4096)) (unat len)\<rparr>)"

lemma fread_once:
  assumes "in_block D d n b (rd_offset (fdesc_array s i)) len"
    and "rd32 s (padd p (32 + 4 * (unat (rd_offset (fdesc_array s i)) div 4096))) = b"
  shows "fread_loop D (unat len) i p buff len 0 s = Inr (Some len, upd_fd i (rd_offset_update (\<lambda>n. n + len))
    (read_chunk D buff b (rd_offset (fdesc_array s i)) len
      (area_write D SctBuffer (AInodes (drop_bit 2 (rd32 s (ino_id p)))) s)))"
proof -
  have len: "len \<noteq> 0" "unat (rd_offset (fdesc_array s i) mod 4096) + unat len \<le> 4096"
    using assms(1) by (simp_all add: in_block_def)
  then obtain f where f: "unat len = Suc f" by (metis unat_eq_zero not0_implies_Suc)
  show ?thesis
    unfolding f using len(1) locate_direct [OF assms] chunk_all [OF len(2)]
    by (subst fread_loop.simps) (simp add: Let_def fread_loop.simps transfers read_chunk_def f)
qed

lemma read_chunk_frame [simp]:
  "sd (read_chunk D buff b off len s) = sd s" "fdesc_array (read_chunk D buff b off len s) = fdesc_array s"
  by (simp_all add: read_chunk_def Let_def)

lemma read_chunk_mem:
  assumes "fst buff = UserMem u"
  shows "fmem (read_chunk D buff b off len s) (SctBuffer, k) = fmem s (SctBuffer, k)"
    and "unat (off mod 4096) + unat len \<le> 4096 \<Longrightarrow> k < unat len \<Longrightarrow>
      fmem (read_chunk D buff b off len s) (padd buff k) = area_byte D (sd s) (ABlock b) (unat (off mod 4096) + k)"
  using assms by (cases buff; simp add: read_chunk_def Let_def memcpy_closed area_read_mem)+

lemma do_fread_block:
  assumes D: "sd_ok D" and fd: "fd_on D s i n" and blk: "in_block D (sd s) n b (rd_offset (fdesc_array s i)) len"
    and fits: "rd_offset (fdesc_array s i) + len \<le> inode_u32 D (sd s) n 20" and buff: "fst buff = UserMem u"
  defines "off \<equiv> rd_offset (fdesc_array s i)"
  shows "\<exists>s'. do_fread D (int i) buff len s = Inr (len, s') \<and>
    (\<forall>k<unat len. fmem s' (padd buff k) = area_byte D (sd s) (ABlock b) (unat (off mod 4096) + k)) \<and>
    (\<forall>k. 4 dvd k \<longrightarrow> k \<le> 124 \<longrightarrow> inode_u32 D (sd s') n k = inode_u32 D (sd s) n k) \<and>
    (\<forall>a k. area_ok a \<longrightarrow> a \<noteq> AInodes (drop_bit 2 n) \<longrightarrow> k < 512 * area_len a \<longrightarrow>
      area_byte D (sd s') a k = area_byte D (sd s) a k)"
proof -
  let ?A = "AInodes (drop_bit 2 n)" and ?p = "inode_ptr n"
  have n: "n < 2048" "i < 16" and id: "inode_u32 D (sd s) n 12 = n"
    and st: "fd_inode_id (fdesc_array s i) = n" "fd_status (fdesc_array s i) = 1" "fd_mode (fdesc_array s i) = 3"
    using fd by (auto simp: fd_on_def F_OCCUPIED_def O_RDWR_def NUM_FDESCS_def)
  have k0: "32 + 4 * (unat off div 4096) \<le> 124" and len: "unat (off mod 4096) + unat len \<le> 4096"
    using blk by (auto simp: in_block_def off_def unat_gt_0 dest: less_mult_imp_div_less)
  define s1 where "s1 = area_read D SctBuffer ?A s"
  define s5 where "s5 = read_chunk D buff b off len (area_write D SctBuffer ?A s1)"
  define s6 where "s6 = upd_fd i (rd_offset_update (\<lambda>n. n + len)) s5"
  have r1: "rd32 s1 (padd ?p k) = inode_u32 D (sd s) n k" if "k \<le> 124" for k
    using that by (simp add: s1_def inode_field_read)
  have sct6: "fmem s6 (SctBuffer, k) = fmem s1 (SctBuffer, k)" for k
    by (simp add: s6_def s5_def read_chunk_mem [OF buff])
  have fd1: "fdesc_array s1 = fdesc_array s" by (simp add: s1_def)
  have "inode_u32 D (sd s) n (32 + 4 * (unat off div 4096)) = b" using blk by (simp add: in_block_def off_def)
  then have loop: "fread_loop D (unat len) i ?p buff len 0 s1 = Inr (Some len, s6)"
    using fread_once [of D "sd s" n b s1 i len ?p buff] blk k0
    by (simp add: fd1 off_def [symmetric] r1 ino_id_def id s6_def s5_def)
  have r6: "rd32 s6 (padd ?p k) = inode_u32 D (sd s) n k" if "k \<le> 124" for k
    using rd32_same_object [of s6 "padd ?p k" s1] sct6 r1 [OF that] by (simp add: inode_ptr_def)
  have rd6: "rd_offset (fdesc_array s6 i) = off + len" by (simp add: s6_def s5_def fd1 off_def)
  let ?v = "inode_u32 D (sd s) n 20"
  let ?s' = "save_size D n ?v s6"
  have id7: "rd32 (wr32 (padd ?p 20) ?v s6) (padd ?p 12) = n" by (simp add: rd32_wr32_field r6 id)
  have big: "\<not> ?v < off + len" and mx: "max ?v (off + len) = ?v" using fits by (auto simp: off_def max_def)
  have result: "do_fread D (int i) buff len s = Inr (len, ?s')"
    using loop n st big unfolding off_def [symmetric]
    by (simp add: do_fread_def fd_at_def NUM_FDESCS_def O_WRONLY_def F_AVAILABLE_def get_inode_def transfers
        ino_size_def ino_id_def save_size_def r1 r6 rd6 id7 fd1 mx flip: s1_def off_def)
  have okA: "area_ok ?A" by (rule inode_area_ok [OF n(1)])
  have same: "area_byte D (sd s6) a k = area_byte D (sd s) a k" if "area_ok a" "k < 512 * area_len a" for a k
    using rewrite_same [OF D okA that, of s1 SctBuffer] by (simp add: s6_def s5_def s1_def area_read_mem)
  have field6: "inode_u32 D (sd s6) n k = inode_u32 D (sd s) n k" if "k \<le> 124" for k
    unfolding inode_u32_def by (rule card_u32_cong) (use same [OF okA] that mod_4_less [of n] in simp)
  have buf6: "fmem s6 (SctBuffer, k) = area_byte D (sd s6) ?A k" if "k < 512" for k
    using same [OF okA, of k] sct6 [of k] that by (simp add: s1_def area_read_mem)
  note save = save_size_card [OF D n(1) buf6, where v = ?v]
  have "area_ok (ABlock b)" using blk by (simp add: in_block_def)
  then have "fmem s6 (padd buff k) = area_byte D (sd s) (ABlock b) (unat (off mod 4096) + k)" if "k < unat len" for k
    using read_chunk_mem(2) [OF buff len that, of D b "area_write D SctBuffer ?A s1"] len that
      rewrite_same [OF D okA, of "ABlock b" "unat (off mod 4096) + k" s1 SctBuffer]
    by (simp add: s6_def s5_def s1_def area_read_mem)
  moreover have "fmem ?s' (padd buff k) = fmem s6 (padd buff k)" for k
    using buff by (cases buff) (simp add: save_size_def inode_ptr_def fmem_wr32_other)
  ultimately show ?thesis
    using result save(1,3) field6 same by (intro exI [of _ ?s']) simp
qed

text \<open>A state with one file (inode 5, block 7) open as descriptor 0.\<close>

definition file_state :: "(u32 \<Rightarrow> nat \<Rightarrow> u8) fstate" where
  "file_state = (snd (create_inode ram_disk 5 7 I_FILE O_RDWR blank_state))
     \<lparr>fdesc_array := (\<lambda>_. \<lparr>fd_inode_id = 5, fd_status = F_OCCUPIED, fd_mode = O_RDWR, rd_offset = 0, wr_offset = 0\<rparr>),
      fmem := (\<lambda>(c, k). if c = UserMem 0 then of_nat k else 0)\<rparr>"

lemma file_state_ok: "fd_on ram_disk file_state 0 5" "in_block ram_disk (sd file_state) 5 7 0 3"
  "wr_offset (fdesc_array file_state 0) = 0" "rd_offset (fdesc_array file_state 0) = 0"
proof -
  have f: "inode_u32 ram_disk (sd file_state) 5 k = (case map_of (inode_fields 5 7 I_FILE O_RDWR) k of Some v \<Rightarrow> v
      | None \<Rightarrow> rd32 (area_read ram_disk SctBuffer (AInodes (drop_bit 2 5)) blank_state) (padd (inode_ptr 5) k))"
    if "4 dvd k" "k \<le> 124" for k
    using that rd32_set_fields [of "inode_fields 5 7 I_FILE O_RDWR" k "inode_ptr 5"
        "area_read ram_disk SctBuffer (AInodes (drop_bit 2 5)) blank_state"]
    by (simp add: file_state_def create_inode_eq inode_field_write [OF ram_disk_ok, of 5, simplified])
      (simp add: inode_fields_def)
  show "fd_on ram_disk file_state 0 5"
    using f [of 12] by (simp add: fd_on_def NUM_FDESCS_def inode_fields_def) (simp add: file_state_def)
  show "in_block ram_disk (sd file_state) 5 7 0 3"
    using f [of 32] by (simp add: in_block_def inode_fields_def)
qed (simp_all add: file_state_def)

section \<open>Properties\<close>

text \<open>
  C21: the place of a byte in a file.  Every 32-bit byte offset lies on one of the first three levels; the path to
  its block starts at a pointer field of the inode and has indices below 1024, and different pages
  have different paths.  When the pointers along the path are there, \<open>byte_locate\<close> returns the block to
  which they lead on the card, with the offset in it, and changes nothing on the card.  Whatever the state is,
  it never returns -1.
\<close>

theorem byte_locate_bounded:
  fixes off :: u32
  defines "path \<equiv> file_path (unat off div 4096)"
  assumes "sd_ok D" and "n < 2048" and "inode_u32 D (sd s) n 12 = n" and "get_inode D n s = (p, s1)"
  shows "(\<exists>l k. page_level (drop_bit 12 off) = Some (l, k) \<and> l \<le> 2) \<and>
    32 \<le> fst path \<and> fst path + 4 \<le> 108 \<and> 4 dvd fst path \<and> (\<forall>k\<in>set (snd path). k < 1024) \<and>
    (\<forall>off'. file_path (unat off' div 4096) = path \<longrightarrow> unat (off' :: u32) div 4096 = unat off div 4096) \<and>
    (let b = inode_u32 D (sd s) n (fst path)
     in linked D (sd s) b (snd path) \<longrightarrow>
        (\<exists>s2. byte_locate D off p s1 = Inr (Some (follow D (sd s) b (snd path), off mod 4096), s2) \<and>
           (\<forall>a k. area_ok a \<longrightarrow> k < 512 * area_len a \<longrightarrow> area_byte D (sd s2) a k = area_byte D (sd s) a k))) \<and>
    (\<forall>q s r s'. byte_locate D off q s = Inr (r, s') \<longrightarrow> (\<exists>b. r = Some (b, off mod 4096)))"
proof -
  have lt: "unat (x :: u32) div 4096 < 1048576" for x
    using drop_12_less [of x] by (simp add: word_less_nat_alt unat_page)
  have level: "\<exists>l k. page_level (drop_bit 12 off) = Some (l, k) \<and> l \<le> 2"
    by (rule page_level_cases [OF drop_12_less [of off]]) auto
  have inj: "\<forall>off'. file_path (unat off' div 4096) = path \<longrightarrow> unat (off' :: u32) div 4096 = unat off div 4096"
    unfolding path_def using file_path_inj [OF _ lt lt] by blast
  have there: "\<exists>s2. byte_locate D off p s1 = Inr (Some (follow D (sd s) b (snd path), off mod 4096), s2) \<and>
       (\<forall>a k. area_ok a \<longrightarrow> k < 512 * area_len a \<longrightarrow> area_byte D (sd s2) a k = area_byte D (sd s) a k)"
    if b: "b = inode_u32 D (sd s) n (fst path)" and ln: "linked D (sd s) b (snd path)" for b
  proof -
    let ?A = "AInodes (drop_bit 2 n)"
    have s1: "p = inode_ptr n" "s1 = area_read D SctBuffer ?A s" using assms(5) by (simp_all add: get_inode_def transfers)
    have f: "rd32 s1 (padd p k) = inode_u32 D (sd s) n k" if "k + 4 \<le> 128" for k unfolding s1 by (rule inode_field_read [OF that])
    have fb: "rd32 s1 (padd p (fst path)) = b" using f [of "fst path"] file_path_inside(2) [OF lt [of off]] b by (simp add: path_def)
    obtain l k where lk: "page_level (drop_bit 12 off) = Some (l, k)" using level by blast
    obtain s2 where s2: "locate_block D p l k s1 = Inr (follow D (sd s) b (snd path), s2)" "sd s2 = sd s"
      "\<And>c i. c \<noteq> BlkBuffer \<Longrightarrow> fmem s2 (c, i) = fmem s1 (c, i)"
      using locate_there [OF lk, of "fst path" "snd path" D s1 p] ln fb by (auto simp: path_def s1(2))
    have "rd32 s2 (ino_id p) = n"
      using rd32_same_object [of s2 "padd p 12" s1] s2(3) f [of 12] assms(4) by (simp add: s1(1) ino_id_def inode_ptr_def)
    then have run: "byte_locate D off p s1 = Inr (Some (follow D (sd s) b (snd path), off mod 4096), area_write D SctBuffer ?A s2)"
      by (simp add: byte_locate_def lk s2(1) transfers)
    have "area_byte D (sd (area_write D SctBuffer ?A s2)) a k = area_byte D (sd s) a k" if "area_ok a" "k < 512 * area_len a" for a k
      using rewrite_same [OF assms(2) inode_area_ok [OF assms(3)] that, of s2 SctBuffer] s2(2,3) by (simp add: s1(2) area_read_mem)
    then show ?thesis using run by blast
  qed
  have never: "\<forall>q s r s'. byte_locate D off q s = Inr (r, s') \<longrightarrow> (\<exists>b. r = Some (b, off mod 4096))" using byte_locate_result by blast
  show ?thesis
    unfolding Let_def using level inj there never file_path_inside [OF lt [of off]] by (simp only: path_def) blast
qed

text \<open>A card on which every word is 5, so that inode 5 has number 5 and all its pointers lead to block 5.\<close>

definition fives :: "(u32 \<Rightarrow> nat \<Rightarrow> u8) fstate" where
  "fives = blank_state\<lparr>sd := \<lambda>_ i. if i mod 4 = 0 then 5 else 0\<rparr>"

lemma fives_word:
  assumes "4 dvd k"
  shows "card_u32 ram_disk (sd fives) a k = 5"
proof -
  have m: "(k + i) mod 512 mod 4 = i mod 4" for i
  proof -
    have "(k + i) mod 512 mod 4 = (k + i) mod 4" by (rule mod_mod_cancel) simp
    also have "\<dots> = i mod 4" using assms by (auto elim: dvdE)
    finally show ?thesis .
  qed
  have b: "area_byte ram_disk (sd fives) a (k + i) = (if i mod 4 = 0 then 5 else 0)" for i
    by (simp add: area_byte_def ram_disk_def fives_def m)
  show ?thesis using b [of 0] b [of 1] b [of 2] b [of 3] by (simp add: card_u32_def get_u32_def)
qed

theorem byte_locate_bounded_witness:
  "file_path (unat (20480000 :: u32) div 4096) = (100, [1, 890]) \<and>
   (\<exists>p s1 s2. get_inode ram_disk 5 fives = (p, s1) \<and> byte_locate ram_disk 20480000 p s1 = Inr (Some (5, 0), s2))"
proof
  show path: "file_path (unat (20480000 :: u32) div 4096) = (100, [1, 890])" by (simp add: file_path_def)
  obtain p s1 where s1: "get_inode ram_disk 5 fives = (p, s1)" by (cases "get_inode ram_disk 5 fives")
  have w: "inode_u32 ram_disk (sd fives) 5 k = 5" if "4 dvd k" for k using that by (simp add: inode_u32_def fives_word)
  have n: "(5 :: u32) < 2048" by simp
  from byte_locate_bounded [OF ram_disk_ok n w s1, of 20480000, unfolded path]
  show "\<exists>p s1 s2. get_inode ram_disk 5 fives = (p, s1) \<and> byte_locate ram_disk 20480000 p s1 = Inr (Some (5, 0), s2)"
    using s1 by (auto simp: w fives_word Let_def)
qed

text \<open>
  C22: The loops of \<open>do_fread\<close> and \<open>do_fwrite\<close> end, from every state and for every length: each round
  moves at least one byte.  The only ways not to return are the assertion of \<open>alloc_block\<close> and a
  descriptor out of range.
\<close>

theorem transfers_end:
  "do_fread D fd buff len s \<noteq> Inl Hang \<and> do_fwrite D fd buff len s \<noteq> Inl Hang"
  by (auto simp: do_fread_def do_fwrite_def fd_at_def bindE_eq_Inl get_inode_def Let_def
      fread_loop_ends [OF order_refl] fwrite_loop_ends [OF order_refl] split: if_splits option.splits)

text \<open>
  C20: What is written is read back: for a file open for reading and writing, a write of bytes that lie
  in one allocated block returns their number and moves the write offset behind them.  The bytes stand at their
  place in the block, whose other bytes are as before; of the inode only the size changes, which
  becomes the end of the written bytes if it was smaller; all other inodes and all other areas of the card
  are as before.  A following read at the same offset returns the same bytes.
\<close>

theorem fwrite_fread_roundtrip:
  assumes "sd_ok D" and "fd_on D s i n" and "in_block D (sd s) n b off len"
    and "wr_offset (fdesc_array s i) = off" and "rd_offset (fdesc_array s i) = off" and "fst buff = UserMem u"
    and "fst buff' = UserMem v"
  shows "\<exists>s1 s2. do_fwrite D (int i) buff len s = Inr (len, s1) \<and>
    fdesc_array s1 = (fdesc_array s)(i := (fdesc_array s i)\<lparr>wr_offset := off + len\<rparr>) \<and>
    (\<forall>k<4096. area_byte D (sd s1) (ABlock b) k =
      (if unat (off mod 4096) \<le> k \<and> k < unat (off mod 4096) + unat len
       then fmem s (UserMem u, snd buff + (k - unat (off mod 4096))) else area_byte D (sd s) (ABlock b) k)) \<and>
    (\<forall>k. 4 dvd k \<longrightarrow> k \<le> 124 \<longrightarrow> inode_u32 D (sd s1) n k =
      (if k = 20 then max (inode_u32 D (sd s) n 20) (off + len) else inode_u32 D (sd s) n k)) \<and>
    (\<forall>m k. m < 2048 \<longrightarrow> m \<noteq> n \<longrightarrow> k < 128 \<longrightarrow> inode_byte D (sd s1) m k = inode_byte D (sd s) m k) \<and>
    (\<forall>a k. area_ok a \<longrightarrow> a \<noteq> AInodes (drop_bit 2 n) \<longrightarrow> a \<noteq> ABlock b \<longrightarrow> k < 512 * area_len a \<longrightarrow>
      area_byte D (sd s1) a k = area_byte D (sd s) a k) \<and>
    do_fread D (int i) buff' len s1 = Inr (len, s2) \<and>
    bytes_at (fmem s2) buff' (unat len) = bytes_at (fmem s) buff (unat len)"
proof -
  obtain s1 where w: "do_fwrite D (int i) buff len s = Inr (len, s1)"
    and blk: "\<And>k. k < 4096 \<Longrightarrow> area_byte D (sd s1) (ABlock b) k =
      (if unat (off mod 4096) \<le> k \<and> k < unat (off mod 4096) + unat len
       then fmem s (UserMem u, snd buff + (k - unat (off mod 4096))) else area_byte D (sd s) (ABlock b) k)"
    and fields: "\<And>k. 4 dvd k \<Longrightarrow> k \<le> 124 \<Longrightarrow> inode_u32 D (sd s1) n k =
      (if k = 20 then max (inode_u32 D (sd s) n 20) (off + len) else inode_u32 D (sd s) n k)"
    and rest: "\<forall>a k. area_ok a \<longrightarrow> a \<noteq> AInodes (drop_bit 2 n) \<longrightarrow> a \<noteq> ABlock b \<longrightarrow> k < 512 * area_len a \<longrightarrow>
      area_byte D (sd s1) a k = area_byte D (sd s) a k"
    and others: "\<forall>m k. m < 2048 \<longrightarrow> m \<noteq> n \<longrightarrow> k < 128 \<longrightarrow> inode_byte D (sd s1) m k = inode_byte D (sd s) m k"
    and fds: "fdesc_array s1 = (fdesc_array s)(i := (fdesc_array s i)\<lparr>wr_offset := off + len\<rparr>)"
    using do_fwrite_block [OF assms(1,2) _ assms(6), of b len] assms(3,4) by auto
  have pre: "fd_on D s1 i n" "rd_offset (fdesc_array s1 i) = off"
    using assms(2,5) fields [of 12] by (simp_all add: fd_on_def fds)
  have k0: "32 + 4 * (unat off div 4096) \<le> 124" "32 + 4 * (unat off div 4096) \<noteq> 20"
    using assms(3) by (auto simp: in_block_def unat_gt_0 dest: less_mult_imp_div_less)
  have inb: "in_block D (sd s1) n b (rd_offset (fdesc_array s1 i)) len"
    using assms(3) fields [of "32 + 4 * (unat off div 4096)"] k0 by (simp add: in_block_def pre)
  have len: "unat (off mod 4096) + unat len \<le> 4096" using assms(3) by (simp add: in_block_def)
  obtain s2 where r: "do_fread D (int i) buff' len s1 = Inr (len, s2)"
    and got: "\<And>k. k < unat len \<Longrightarrow> fmem s2 (padd buff' k) = area_byte D (sd s1) (ABlock b) (unat (off mod 4096) + k)"
    using do_fread_block [OF assms(1) pre(1) inb _ assms(7)] fields [of 20] by (auto simp: pre)
  have "bytes_at (fmem s2) buff' (unat len) = bytes_at (fmem s) buff (unat len)"
  proof (rule bytes_at_cong)
    fix k
    assume "k < unat len"
    then show "fmem s2 (padd buff' k) = fmem s (padd buff k)"
      using got [of k] blk [of "unat (off mod 4096) + k"] len assms(6) by (cases buff) simp
  qed
  then show ?thesis using w blk fields others rest fds r by (intro exI [of _ s1] exI [of _ s2]) simp
qed

theorem fwrite_fread_roundtrip_witness:
  "\<exists>s1 s2. do_fwrite ram_disk 0 (UserMem 0, 5) 3 file_state = Inr (3, s1) \<and>
     do_fread ram_disk 0 (UserMem 1, 0) 3 s1 = Inr (3, s2) \<and> bytes_at (fmem s2) (UserMem 1, 0) 3 = [5, 6, 7]"
proof -
  have "bytes_at (fmem file_state) (UserMem 0, 5) (unat (3::u32)) = [5, 6, 7]"
    by (simp add: bytes_at_def file_state_def upt_rec)
  then show ?thesis
    using fwrite_fread_roundtrip [OF ram_disk_ok file_state_ok(1-4), of "(UserMem 0, 5)" 0 "(UserMem 1, 0)" 1]
    by auto
qed

end
