(* ===== verification/Mm.thy ===== *)
theory Mm
  imports Lock Sdcard
begin

text \<open>
  Memory management: \<open>kernel/mm/mm.c\<close>, \<open>include/os/mm.h\<close> and \<open>kernel/mm/ioremap.c\<close>.  The memory the
  kernel sees is a function from the addresses that are multiples of 8 to 64-bit words, as the
  page tables are used; bytes are taken from the words little-endian.  The lists of page records
  are lists of \<open>list.h\<close>.  \<open>current_running\<close> is \<open>core_running s cpu\<close>.  Flushing the TLB has no effect
  on this state.
\<close>

section \<open>State\<close>

datatype page_status_t = UNUSED | SWAPABLE | UNSWAPABLE | COPY_ON_WRITE | NOT_IN_MEM

record page_info_t =
  pg_status :: page_status_t
  read_member :: int
  pg_kva :: u64
  uva :: u64
  pg_pte :: u64

record shm_t =
  shm_valid :: u16
  shm_key :: u16
  shm_num :: u32
  shm_pa :: u64

datatype phead = PageHead pcb_ref | FreeList

definition PAGE_SIZE :: u64 where "PAGE_SIZE = 4096"
definition PAGE_NUM :: nat where "PAGE_NUM = 300"
definition NUM_MAX_SHM :: nat where "NUM_MAX_SHM = 16"
definition INIT_MASTER_KERNEL_STACK :: u64 where "INIT_MASTER_KERNEL_STACK = 0xffffffc052000000"
definition INIT_SLAVE_KERNEL_STACK :: u64 where
  "INIT_SLAVE_KERNEL_STACK = INIT_MASTER_KERNEL_STACK + PAGE_SIZE"
definition FREEMEM_KERNEL :: u64 where "FREEMEM_KERNEL = INIT_SLAVE_KERNEL_STACK + push_bit 1 PAGE_SIZE"
definition USER_STACK_ADDR :: u64 where "USER_STACK_ADDR = 0xf00010000"
definition ROUND :: "u64 \<Rightarrow> u64 \<Rightarrow> u64" where "ROUND a n = (a + n - 1) AND NOT (n - 1)"
definition PGDIR_PA :: u64 where "PGDIR_PA = 0x51000000"

record 'd mstate = lstate +
  ram :: "u64 \<Rightarrow> u64"
  kernMemCurr :: u64
  page_manager :: "nat \<Rightarrow> page_info_t"
  page_id :: nat                          \<comment> \<open>the static variable of \<open>allocPagetable\<close>\<close>
  plists :: "(phead, nat) lheap"
  shm_page_table :: "nat \<Rightarrow> shm_t"
  swap_sector :: u32                      \<comment> \<open>the static variable of \<open>get_sector\<close>\<close>
  sdc :: 'd
  io_base :: u64
  klog :: "(string \<times> int list) list"     \<comment> \<open>the calls of \<open>printk\<close>, latest first\<close>

type_synonym ('d, 's) ms = "('d, 's) mstate_scheme"

definition upd_page :: "nat \<Rightarrow> (page_info_t \<Rightarrow> page_info_t) \<Rightarrow> ('d, 's) ms \<Rightarrow> ('d, 's) ms" where
  "upd_page i f s = s\<lparr>page_manager := (page_manager s)(i := f (page_manager s i))\<rparr>"

definition upd_shm :: "nat \<Rightarrow> (shm_t \<Rightarrow> shm_t) \<Rightarrow> ('d, 's) ms \<Rightarrow> ('d, 's) ms" where
  "upd_shm i f s = s\<lparr>shm_page_table := (shm_page_table s)(i := f (shm_page_table s i))\<rparr>"

section \<open>Memory\<close>

definition wr64 :: "u64 \<Rightarrow> u64 \<Rightarrow> ('d, 's) ms \<Rightarrow> ('d, 's) ms" where
  "wr64 a v s = s\<lparr>ram := (ram s)(a := v)\<rparr>"

definition ram_byte :: "(u64 \<Rightarrow> u64) \<Rightarrow> u64 \<Rightarrow> u8" where
  "ram_byte r a = ucast (drop_bit (8 * unat (a AND 7)) (r (a AND NOT 7)))"

text \<open>The word \<open>w\<close> with byte \<open>k\<close> replaced.\<close>

definition set_word_byte :: "u64 \<Rightarrow> nat \<Rightarrow> u8 \<Rightarrow> u64" where
  "set_word_byte w k v = (w AND NOT (push_bit (8 * k) 255)) OR push_bit (8 * k) (ucast v)"

definition wr_byte :: "u64 \<Rightarrow> u8 \<Rightarrow> ('d, 's) ms \<Rightarrow> ('d, 's) ms" where
  "wr_byte a v s = wr64 (a AND NOT 7) (set_word_byte (ram s (a AND NOT 7)) (unat (a AND 7)) v) s"

text \<open>\<open>entry_at t i\<close>: the address of entry \<open>i\<close> of the page table at \<open>t\<close>.\<close>

definition entry_at :: "u64 \<Rightarrow> u64 \<Rightarrow> u64" where
  "entry_at t i = t + 8 * i"

definition upd_pte :: "u64 \<Rightarrow> (pte \<Rightarrow> pte) \<Rightarrow> ('d, 's) ms \<Rightarrow> ('d, 's) ms" where
  "upd_pte a f s = wr64 a (f (ram s a)) s"

definition clear_pgdir :: "u64 \<Rightarrow> ('d, 's) ms \<Rightarrow> ('d, 's) ms" where
  "clear_pgdir pgdir_addr s = fold (\<lambda>i. wr64 (pgdir_addr + 8 * of_nat i) 0) [0..<512] s"

definition share_pgtable :: "u64 \<Rightarrow> u64 \<Rightarrow> ('d, 's) ms \<Rightarrow> ('d, 's) ms" where
  "share_pgtable dest_pgdir src_pgdir s =
     fold (\<lambda>i s. wr64 (dest_pgdir + 8 * of_nat i) (ram s (src_pgdir + 8 * of_nat i)) s) [0..<512] s"

text \<open>One page to and from eight sectors of the card; the memory is given by its kernel address.\<close>

definition sd_write_page :: "'d sdcard \<Rightarrow> u64 \<Rightarrow> u32 \<Rightarrow> ('d, 's) ms \<Rightarrow> ('d, 's) ms" where
  "sd_write_page D pa n s =
     s\<lparr>sdc := fold (\<lambda>k d. sd_put D d (n + of_nat k) (\<lambda>i. ram_byte (ram s) (pa2kva pa + of_nat (512 * k + i)))) [0..<8] (sdc s)\<rparr>"

definition sd_read_page :: "'d sdcard \<Rightarrow> u64 \<Rightarrow> u32 \<Rightarrow> ('d, 's) ms \<Rightarrow> ('d, 's) ms" where
  "sd_read_page D pa n s =
     fold (\<lambda>i. wr_byte (pa2kva pa + of_nat i) (sd_get D (sdc s) (n + of_nat (i div 512)) (i mod 512))) [0..<4096] s"

section \<open>Physical pages\<close>

definition allocPage :: "int \<Rightarrow> ('d, 's) ms \<Rightarrow> u64 \<times> ('d, 's) ms" where
  "allocPage numPage s =
     (let ret = ROUND (kernMemCurr s) PAGE_SIZE
      in (ret, s\<lparr>kernMemCurr := ret + of_int numPage * PAGE_SIZE\<rparr>))"

definition init_pagetable :: "('d, 's) ms \<Rightarrow> ('d, 's) ms" where
  "init_pagetable s =
     (let s = fold (\<lambda>i s.
                let s = upd_page i (\<lambda>p. p\<lparr>pg_pte := 0, pg_status := UNUSED, read_member := 0\<rparr>) s
                in s\<lparr>plists := (plists s)(Elem i := \<lparr>nxt = None, prv = None\<rparr>)\<rparr>) [0..<PAGE_NUM] s
      in fold (\<lambda>i. upd_shm i (\<lambda>_. \<lparr>shm_valid = 0, shm_key = 0, shm_num = 0, shm_pa = 0\<rparr>)) [0..<NUM_MAX_SHM] s)"

definition get_first_page :: "phead \<Rightarrow> ('d, 's) ms \<Rightarrow> (nat \<times> ('d, 's) ms) res" where
  "get_first_page head s =
     bindE (list_entry (nxt (plists s (Head head)))) (\<lambda>i. Inr (i, s\<lparr>plists := list_del (plists s) (Elem i)\<rparr>))"

definition freePage :: "nat \<Rightarrow> ('d, 's) ms \<Rightarrow> ('d, 's) ms res" where
  "freePage i s =
     (let s = upd_page i (pg_status_update (\<lambda>_. UNUSED)) s;
          s = s\<lparr>plists := list_del (plists s) (Elem i)\<rparr>;
          s = upd_page i (uva_update (\<lambda>_. 0)) s
      in bindE (list_add_tail (plists s) (Elem i) (Head FreeList)) (\<lambda>h.
           let s = s\<lparr>plists := h\<rparr> in assertE (pg_kva (page_manager s i) \<noteq> 0) (Inr s)))"

text \<open>
  The search for an unused record.  It starts where the last one ended and wraps around; the wrap
  is only tested at a record in use, so a search that starts at 300 reads behind the array
  (\<open>Fault\<close>).  \<open>PAGE_FUEL\<close> is more than the number of records: a search that visits more has seen
  every record in use and never ends.
\<close>

definition PAGE_FUEL :: nat where "PAGE_FUEL = 302"

fun find_unused :: "nat \<Rightarrow> (nat \<Rightarrow> page_info_t) \<Rightarrow> nat \<Rightarrow> nat res" where
  "find_unused 0 pm i = Inl Hang"
| "find_unused (Suc fuel) pm i =
     guardE (i < PAGE_NUM)
       (if pg_status (pm i) = UNUSED then Inr i
        else find_unused fuel pm (if Suc i = PAGE_NUM then 0 else Suc i))"

section \<open>Walking the page tables\<close>

definition pte_checker :: "u64 \<Rightarrow> u64 \<Rightarrow> ('d, 's) ms \<Rightarrow> u64 option" where
  "pte_checker va pgdir_va s =
     (let cur_pte = ram s (entry_at pgdir_va (GetVPN2 va))
      in if \<not> PageValid cur_pte then None
         else let second_pgdir = pa2kva (get_pa cur_pte);
                  cur_pte = ram s (entry_at second_pgdir (GetVPN1 va))
              in if \<not> PageValid cur_pte then None
                 else let third_pgdir = pa2kva (get_pa cur_pte);
                          cur_pte = ram s (entry_at third_pgdir (GetVPN0 va))
                      in if PageValid cur_pte \<or> inSD cur_pte then Some (entry_at third_pgdir (GetVPN0 va))
                         else None)"

definition get_sector :: "('d, 's) ms \<Rightarrow> u32 \<times> ('d, 's) ms" where
  "get_sector s = (swap_sector s, s\<lparr>swap_sector := swap_sector s + 8\<rparr>)"

definition get_pte :: "nat \<Rightarrow> pcb_ref \<Rightarrow> ('d, 's) ms \<Rightarrow> u64 res" where
  "get_pte page p s =
     (let va = uva (page_manager s page);
          cur_pte = ram s (entry_at (pgdir (pcb s p)) (GetVPN2 va))
      in assertE (PageValid cur_pte)
        (let tab = pa2kva (get_pa cur_pte); cur_pte = ram s (entry_at tab (GetVPN1 va))
         in assertE (PageValid cur_pte)
           (let tab = pa2kva (get_pa cur_pte); cur_pte = ram s (entry_at tab (GetVPN0 va))
            in assertE (PageValid cur_pte) (Inr (entry_at tab (GetVPN0 va))))))"

section \<open>Swapping\<close>

fun get_swap_page_loop :: "nat \<Rightarrow> phead \<Rightarrow> (phead, nat) lnode option \<Rightarrow> ('d, 's) ms \<Rightarrow> nat res" where
  "get_swap_page_loop 0 head page_list s = Inl Hang"
| "get_swap_page_loop (Suc fuel) head page_list s =
     (if page_list = Some (Head head) then Inl Panic
      else bindE (list_entry page_list) (\<lambda>i.
        if pg_status (page_manager s i) = SWAPABLE then Inr i
        else get_swap_page_loop fuel head (nxt (plists s (Elem i))) s))"

definition get_swap_page :: "phead \<Rightarrow> ('d, 's) ms \<Rightarrow> nat res" where
  "get_swap_page head s = get_swap_page_loop PAGE_FUEL head (nxt (plists s (Head head))) s"

definition swap_to_sd :: "'d sdcard \<Rightarrow> nat \<Rightarrow> pcb_ref \<Rightarrow> ('d, 's) ms \<Rightarrow> (u64 \<times> ('d, 's) ms) res" where
  "swap_to_sd D page p s =
     (let (sector_id, s) = get_sector s;
          kva = pg_kva (page_manager s page)
      in bindE (get_pte page p s) (\<lambda>pte.
           let s = upd_pte pte (\<lambda>e. set_attribute e PAGE_INSD) s;
               s = upd_pte pte (\<lambda>e. clean_attribute e PAGE_PRESENT) s;
               s = sd_write_page D (get_pa (ram s pte)) sector_id s;
               s = clear_pgdir (pa2kva (get_pa (ram s pte))) s;
               s = upd_pte pte (\<lambda>e. set_pfn e (ucast sector_id)) s;
               s = upd_page page (\<lambda>p. p\<lparr>pg_pte := pte, pg_status := NOT_IN_MEM, pg_kva := 0\<rparr>) s
           in Inr (kva, s)))"

definition do_swap :: "'d sdcard \<Rightarrow> pcb_ref \<Rightarrow> ('d, 's) ms \<Rightarrow> (u64 \<times> ('d, 's) ms) res" where
  "do_swap D p s = bindE (get_swap_page (PageHead p) s) (\<lambda>page. swap_to_sd D page p s)"

text \<open>
  The walk along the page list of a process that two functions share: it stops at the first record
  with \<open>P\<close>, else the variable keeps the last record visited; \<open>None\<close> is the variable before any
  assignment.
\<close>

fun find_record ::
  "nat \<Rightarrow> (page_info_t \<Rightarrow> bool) \<Rightarrow> phead \<Rightarrow> (phead, nat) lnode option \<Rightarrow> nat option \<Rightarrow> ('d, 's) ms \<Rightarrow> nat res" where
  "find_record 0 P head page_list tmp s = Inl Hang"
| "find_record (Suc fuel) P head page_list tmp s =
     (if page_list = Some (Head head) then (case tmp of None \<Rightarrow> Inl Fault | Some i \<Rightarrow> Inr i)
      else bindE (list_entry page_list) (\<lambda>i.
        if P (page_manager s i) then Inr i
        else find_record fuel P head (nxt (plists s (Elem i))) (Some i) s))"

definition find_page_record :: "(page_info_t \<Rightarrow> bool) \<Rightarrow> pcb_ref \<Rightarrow> ('d, 's) ms \<Rightarrow> nat res" where
  "find_page_record P p s = find_record PAGE_FUEL P (PageHead p) (nxt (plists s (Head (PageHead p)))) None s"

definition swap_to_mem :: "'d sdcard \<Rightarrow> nat \<Rightarrow> u64 \<Rightarrow> u64 \<Rightarrow> u64 \<Rightarrow> ('d, 's) ms \<Rightarrow> ('d, 's) ms res" where
  "swap_to_mem D cpu pte va kva s =
     (let sector_id = ucast (get_pfn (ram s pte)) :: u32
      in bindE (find_page_record (\<lambda>r. pg_pte r = pte) (core_running s cpu) s) (\<lambda>tmp.
         assertE (pg_status (page_manager s tmp) = NOT_IN_MEM)
           (let s = upd_page tmp (\<lambda>r. r\<lparr>pg_status := SWAPABLE, uva := va\<rparr>) s
            in assertE (pg_kva (page_manager s tmp) = 0)
                 (let s = upd_page tmp (pg_kva_update (\<lambda>_. kva)) s;
                      s = sd_read_page D (kva2pa kva) sector_id s;
                      s = upd_pte pte (\<lambda>e. clean_attribute e PAGE_INSD) s;
                      s = upd_pte pte (\<lambda>e. set_attribute e PAGE_PRESENT) s
                  in Inr (upd_pte pte (\<lambda>e. set_pfn e (drop_bit 12 (kva2pa kva))) s)))))"

section \<open>Page records\<close>

definition allocPagetable ::
  "'d sdcard \<Rightarrow> pcb_ref \<Rightarrow> page_status_t \<Rightarrow> ('d, 's) ms \<Rightarrow> (nat \<times> ('d, 's) ms) res" where
  "allocPagetable D p page_status s =
     bindE
       (if pagenum (pcb s p) = upbound (pcb s p)
        then bindE (do_swap D p s) (\<lambda>(kva, s).
             bindE (find_unused PAGE_FUEL (page_manager s) (page_id s)) (\<lambda>i.
               let s = s\<lparr>page_id := Suc i\<rparr>;
                   s = upd_page i (\<lambda>r. r\<lparr>pg_status := page_status, pg_kva := kva\<rparr>) s
               in Inr (i, s)))
        else bindE (find_unused PAGE_FUEL (page_manager s) (page_id s)) (\<lambda>i.
               let s = s\<lparr>page_id := Suc i\<rparr>;
                   s = upd_page i (pg_status_update (\<lambda>_. page_status)) s;
                   (kva, s) = allocPage 1 s;
                   s = upd_page i (pg_kva_update (\<lambda>_. kva)) s;
                   s = upd_pcb p (pagenum_update (\<lambda>n. n + 1)) s
               in Inr (i, s)))
       (\<lambda>(i, s). bindE (list_add_tail (plists s) (Elem i) (Head (PageHead p))) (\<lambda>h. Inr (i, s\<lparr>plists := h\<rparr>)))"

text \<open>
  The step that \<open>alloc_page_helper\<close> and \<open>build_page_helper\<close> take at the upper two levels: the table
  that entry \<open>i\<close> of table \<open>tab\<close> leads to, allocated and cleared when the entry is not valid.
\<close>

definition next_level :: "'d sdcard \<Rightarrow> pcb_ref \<Rightarrow> u64 \<Rightarrow> u64 \<Rightarrow> ('d, 's) ms \<Rightarrow> (u64 \<times> ('d, 's) ms) res" where
  "next_level D p tab i s =
     (let cur_pte = ram s (entry_at tab i)
      in if PageValid cur_pte then Inr (pa2kva (get_pa cur_pte), s)
         else bindE (allocPagetable D p UNSWAPABLE s) (\<lambda>(temp_page, s).
           let new_tab = pg_kva (page_manager s temp_page);
               s = clear_pgdir new_tab s;
               s = upd_pte (entry_at tab i) (\<lambda>e. set_pfn e (GetPFN (kva2pa new_tab))) s;
               s = upd_pte (entry_at tab i) (\<lambda>e. set_attribute e (PAGE_PRESENT OR PAGE_USER)) s
           in Inr (new_tab, s)))"

definition LEAF_BITS :: u64 where
  "LEAF_BITS = PAGE_ACCESSED OR PAGE_DIRTY OR PAGE_PRESENT OR PAGE_USER OR PAGE_READ OR PAGE_WRITE OR PAGE_EXEC"

definition alloc_page_helper ::
  "'d sdcard \<Rightarrow> u64 \<Rightarrow> pcb_ref \<Rightarrow> page_status_t \<Rightarrow> ('d, 's) ms \<Rightarrow> (u64 \<times> ('d, 's) ms) res" where
  "alloc_page_helper D va p page_status s =
     bindE (next_level D p (pgdir (pcb s p)) (GetVPN2 va) s) (\<lambda>(second_pgdir, s).
     bindE (next_level D p second_pgdir (GetVPN1 va) s) (\<lambda>(third_pgdir, s).
       let a = entry_at third_pgdir (GetVPN0 va); cur_pte = ram s a
       in if \<not> PageValid cur_pte
          then bindE (allocPagetable D p page_status s) (\<lambda>(temp_page, s).
            let s = upd_page temp_page (\<lambda>r. r\<lparr>uva := va, pg_pte := a\<rparr>) s;
                kva = pg_kva (page_manager s temp_page);
                s = upd_pte a (\<lambda>e. set_pfn e (GetPFN (kva2pa kva))) s;
                s = upd_pte a (\<lambda>e. set_attribute e LEAF_BITS) s
            in Inr (kva, s))
          else Inr (pa2kva (get_pa cur_pte), s)))"

definition build_page_helper :: "'d sdcard \<Rightarrow> u64 \<Rightarrow> pcb_ref \<Rightarrow> u64 \<Rightarrow> ('d, 's) ms \<Rightarrow> ('d, 's) ms res" where
  "build_page_helper D va p pa s =
     bindE (next_level D p (pgdir (pcb s p)) (GetVPN2 va) s) (\<lambda>(second_pgdir, s).
     bindE (next_level D p second_pgdir (GetVPN1 va) s) (\<lambda>(third_pgdir, s).
       let a = entry_at third_pgdir (GetVPN0 va)
       in if \<not> PageValid (ram s a)
          then let s = upd_pte a (\<lambda>e. set_pfn e (GetPFN pa)) s
               in Inr (upd_pte a (\<lambda>e. set_attribute e LEAF_BITS) s)
          else Inr s))"

section \<open>Shared memory and snapshots\<close>

definition shm_next_va :: "pcb_ref \<Rightarrow> ('d, 's) ms \<Rightarrow> u64" where
  "shm_next_va p s = USER_STACK_ADDR - (shm_page_num (pcb s p) + 1) * PAGE_SIZE"

definition shm_page_get :: "'d sdcard \<Rightarrow> nat \<Rightarrow> int \<Rightarrow> ('d, 's) ms \<Rightarrow> (u64 \<times> ('d, 's) ms) res" where
  "shm_page_get D cpu key s =
     (let p = core_running s cpu;
          found = find (\<lambda>i. uint (shm_key (shm_page_table s i)) = key \<and> shm_valid (shm_page_table s i) \<noteq> 0) [0..<NUM_MAX_SHM];
          (slot, s) = (case found of Some i \<Rightarrow> (Some i, s)
                       | None \<Rightarrow> (case find (\<lambda>i. shm_valid (shm_page_table s i) = 0) [0..<NUM_MAX_SHM] of
                           Some i \<Rightarrow> (Some i, upd_shm i (shm_key_update (\<lambda>_. of_int key)) s)
                         | None \<Rightarrow> (None, s)))
      in case slot of None \<Rightarrow> Inl Panic
         | Some index \<Rightarrow>
             if shm_valid (shm_page_table s index) = 0
             then bindE (allocPagetable D p UNSWAPABLE s) (\<lambda>(tmp, s).
                  let pa = kva2pa (pg_kva (page_manager s tmp));
                      s = upd_shm index (shm_pa_update (\<lambda>_. pa)) s;
                      s = upd_pcb p (shm_page_num_update (\<lambda>n. n + 1)) s;
                      vaddr = shm_next_va p s
                  in bindE (build_page_helper D vaddr p pa s) (\<lambda>s.
                       let s = clear_pgdir (pa2kva pa) s;
                           s = upd_shm index (shm_num_update (\<lambda>n. n + 1)) s
                       in Inr (vaddr, upd_shm index (shm_valid_update (\<lambda>_. 1)) s)))
             else let s = upd_pcb p (shm_page_num_update (\<lambda>n. n + 1)) s;
                      vaddr = shm_next_va p s
                  in bindE (build_page_helper D vaddr p (shm_pa (shm_page_table s index)) s) (\<lambda>s.
                       Inr (vaddr, upd_shm index (shm_num_update (\<lambda>n. n + 1)) s)))"

definition shm_page_dt :: "nat \<Rightarrow> u64 \<Rightarrow> ('d, 's) ms \<Rightarrow> ('d, 's) ms res" where
  "shm_page_dt cpu addr s =
     (case pte_checker addr (pgdir (pcb s (core_running s cpu))) s of
        None \<Rightarrow> Inl Fault
      | Some pte \<Rightarrow>
          (let pa = push_bit 12 (drop_bit 10 (ram s pte))
           in case find (\<lambda>i. shm_pa (shm_page_table s i) \<noteq> pa) [0..<NUM_MAX_SHM] of
                None \<Rightarrow> Inr s
              | Some i \<Rightarrow>
                  (let s = upd_shm i (shm_num_update (\<lambda>n. n - 1)) s;
                       s = wr64 pte 0 s
                   in Inr (if shm_num (shm_page_table s i) = 0 then upd_shm i (shm_valid_update (\<lambda>_. 0)) s else s))))"

text \<open>The probing loop of \<open>do_snapshot\<close>; \<open>None\<close> when every page is mapped.\<close>

partial_function (option) probe_va :: "u64 \<Rightarrow> u64 \<Rightarrow> ('d, 's) ms \<Rightarrow> u64 option" where
  "probe_va pgdir_va va s =
     (let new_va = va + PAGE_SIZE
      in if pte_checker new_va pgdir_va s = None then Some new_va else probe_va pgdir_va new_va s)"

definition do_snapshot :: "'d sdcard \<Rightarrow> nat \<Rightarrow> u64 \<Rightarrow> ('d, 's) ms \<Rightarrow> (u64 \<times> ('d, 's) ms) res" where
  "do_snapshot D cpu va s =
     (let p = core_running s cpu
      in case pte_checker va (pgdir (pcb s p)) s of None \<Rightarrow> Inl Fault
         | Some pte \<Rightarrow>
             (let kva = pa2kva (get_pa (ram s pte))
              in bindE (find_page_record (\<lambda>r. pg_kva r = kva) p s) (\<lambda>tmp.
                 case probe_va (pgdir (pcb s p)) va s of None \<Rightarrow> Inl Hang
                 | Some new_va \<Rightarrow>
                     (let s = (if pg_status (page_manager s tmp) \<noteq> COPY_ON_WRITE
                               then upd_page tmp (\<lambda>r. r\<lparr>pg_status := COPY_ON_WRITE, read_member := 2\<rparr>)
                                      (upd_pte pte (\<lambda>e. clean_attribute e PAGE_WRITE) s)
                               else upd_page tmp (read_member_update (\<lambda>n. n + 1)) s)
                      in bindE (build_page_helper D new_va p (kva2pa (pg_kva (page_manager s tmp))) s) (\<lambda>s.
                           case pte_checker new_va (pgdir (pcb s p)) s of None \<Rightarrow> Inl Fault
                           | Some pte \<Rightarrow> Inr (new_va, upd_pte pte (\<lambda>e. clean_attribute e PAGE_WRITE) s))))))"

definition do_getpa :: "nat \<Rightarrow> u64 \<Rightarrow> ('d, 's) ms \<Rightarrow> u64 res" where
  "do_getpa cpu va s =
     (case pte_checker va (pgdir (pcb s (core_running s cpu))) s of None \<Rightarrow> Inl Fault
      | Some pte \<Rightarrow> Inr (get_pa (ram s pte) OR (va AND 0xfff)))"

section \<open>Device memory\<close>

definition LARGE_PAGE_SIZE :: u64 where "LARGE_PAGE_SIZE = 0x200000"
definition IO_ADDR_START :: u64 where "IO_ADDR_START = 0xffffffe000000000"

definition ioremap_helper :: "u64 \<Rightarrow> u64 \<Rightarrow> u64 \<Rightarrow> ('d, 's) ms \<Rightarrow> ('d, 's) ms" where
  "ioremap_helper va pa pgdir_va s =
     (let va = va AND VA_MASK;
          vpn2 = drop_bit 30 va;
          vpn1 = push_bit 9 vpn2 XOR drop_bit 21 va;
          a = entry_at pgdir_va vpn2;
          s = (if ram s a = 0 then
                 (let (new_page, s) = allocPage 1 s;
                      s = upd_pte a (\<lambda>e. set_pfn e (GetPFN (kva2pa new_page))) s;
                      s = upd_pte a (\<lambda>e. set_attribute e PAGE_PRESENT) s
                  in clear_pgdir (pa2kva (get_pa (ram s a))) s)
               else s);
          b = entry_at (pa2kva (get_pa (ram s a))) vpn1;
          s = upd_pte b (\<lambda>e. set_pfn e (GetPFN pa)) s
      in upd_pte b (\<lambda>e. set_attribute e
           (PAGE_PRESENT OR PAGE_READ OR PAGE_WRITE OR PAGE_EXEC OR PAGE_ACCESSED OR PAGE_DIRTY)) s)"

text \<open>
  The loop of \<open>ioremap\<close>, with the number of rounds as fuel; it ends when \<open>kva\<close> has reached the new
  \<open>io_base\<close>, which takes one round per large page.
\<close>

fun ioremap_loop :: "nat \<Rightarrow> u64 \<Rightarrow> u64 \<Rightarrow> ('d, 's) ms \<Rightarrow> ('d, 's) ms res" where
  "ioremap_loop fuel kva phys_addr s =
     (if kva < io_base s then
        (case fuel of 0 \<Rightarrow> Inl Hang
         | Suc fuel \<Rightarrow>
             ioremap_loop fuel (kva + LARGE_PAGE_SIZE) (phys_addr + LARGE_PAGE_SIZE)
               (ioremap_helper kva phys_addr (pa2kva PGDIR_PA) s))
      else Inr s)"

definition ioremap :: "u64 \<Rightarrow> u64 \<Rightarrow> ('d, 's) ms \<Rightarrow> (u64 \<times> ('d, 's) ms) res" where
  "ioremap phys_addr sz s =
     (let ret = io_base s; s = s\<lparr>io_base := io_base s + sz\<rparr>
      in bindE (ioremap_loop (Suc (unat sz)) ret phys_addr s) (\<lambda>s. Inr (ret, s)))"

end
