(* ===== verification/MmSpec.thy ===== *)
theory MmSpec
  imports Mm
begin

text \<open>
  What the page tables promise.  The tables of a process form a tree: \<open>tab_of r T x\<close> is the table at
  node \<open>x\<close> of the tree with root \<open>T\<close> in memory \<open>r\<close>.  \<open>tree\<close> is its invariant: different nodes are
  different pages, all of them allocated.  The tree represents the map \<open>xlate\<close> from user pages to
  physical pages, and mapping a page updates that map at one place.  The upper half of the root is
  shared with the kernel, whose large pages are no tables; only user addresses are considered.
\<close>

section \<open>Page addresses\<close>

text \<open>A page of kernel memory: aligned, and in the window where physical memory is mapped.\<close>

definition kpage :: "u64 \<Rightarrow> bool" where
  "kpage t \<longleftrightarrow> 4096 dvd unat t \<and> unat KVA_OFFSET \<le> unat t"

lemma kpage_bound: "kpage t \<Longrightarrow> unat t + 4096 \<le> 2 ^ 64"
proof -
  assume "kpage t"
  then obtain q where q: "unat t = 4096 * q" by (auto simp: kpage_def)
  have "unat t < 2 ^ LENGTH(64)" by (rule unsigned_less)
  with q have "q < 2 ^ 52" by simp
  with q show ?thesis by simp
qed

lemma unat_entry:
  assumes "kpage t" and "unat i < 512"
  shows "unat (entry_at t i) = unat t + 8 * unat i"
proof -
  have "unat (8 * i) = 8 * unat i" using assms(2) by (simp add: unat_mult_lem unat_word_ariths)
  then show ?thesis
    using kpage_bound [OF assms(1)] assms(2) by (simp add: entry_at_def unat_plus_if')
qed

lemma entry_eq_iff:
  assumes "kpage t" and "kpage u" and "unat i < 512" and "unat j < 512"
  shows "entry_at t i = entry_at u j \<longleftrightarrow> t = u \<and> i = j"
proof
  assume eq: "entry_at t i = entry_at u j"
  have "4096 dvd unat t" "4096 dvd unat u" using assms(1,2) by (simp_all add: kpage_def)
  then obtain a b where ab: "unat t = 4096 * a" "unat u = 4096 * b" by (auto elim!: dvdE)
  have "unat t + 8 * unat i = unat u + 8 * unat j"
    using eq unat_entry [OF assms(1,3)] unat_entry [OF assms(2,4)] by simp
  then have e: "4096 * a + 8 * unat i = 4096 * b + 8 * unat j" by (simp only: ab)
  have "(4096 * a + 8 * unat i) div 4096 = a" "(4096 * b + 8 * unat j) div 4096 = b"
    using assms(3,4) by simp_all
  with e have "a = b" by metis
  with e have "unat t = unat u \<and> unat i = unat j" by (simp add: ab)
  then show "t = u \<and> i = j" by (simp add: word_unat_eq_iff)
qed simp

lemma clear_pgdir_ram:
  assumes "kpage t"
  shows "unat i < 512 \<Longrightarrow> ram (clear_pgdir t s) (entry_at t i) = 0"
    and "kpage u \<Longrightarrow> u \<noteq> t \<Longrightarrow> unat i < 512 \<Longrightarrow> ram (clear_pgdir t s) (entry_at u i) = ram s (entry_at u i)"
proof -
  have gen: "ram (fold (\<lambda>i. wr64 (t + 8 * of_nat i) 0) ks s) a = (if \<exists>k\<in>set ks. a = t + 8 * of_nat k then 0 else ram s a)"
    for ks a and s :: "('c, 'd) ms"
    by (induction ks arbitrary: s) (auto simp: wr64_def)
  {
    assume "unat i < 512"
    then have "unat i \<in> set [0..<512] \<and> entry_at t i = t + 8 * of_nat (unat i)" by (simp add: entry_at_def)
    then have "\<exists>k\<in>set [0..<512]. entry_at t i = t + 8 * of_nat k" by blast
    then show "ram (clear_pgdir t s) (entry_at t i) = 0" unfolding clear_pgdir_def gen by (rule if_P)
  }
  assume u: "kpage u" "u \<noteq> t" and i: "unat i < 512"
  have "entry_at u i \<noteq> t + 8 * of_nat k" if "k < 512" for k
    using entry_eq_iff [OF u(1) assms i, of "of_nat k"] u(2) that by (simp add: entry_at_def unat_of_nat)
  then show "ram (clear_pgdir t s) (entry_at u i) = ram s (entry_at u i)"
    unfolding clear_pgdir_def gen by auto
qed

section \<open>Entries\<close>

lemma kpage_pa:
  assumes "kpage t"
  shows "pfn_ok (GetPFN (kva2pa t))" and "push_bit 12 (GetPFN (kva2pa t)) = kva2pa t"
proof -
  have kva: "unat KVA_OFFSET = 2 ^ 64 - 2 ^ 38" by (simp add: KVA_OFFSET_def)
  have le: "KVA_OFFSET \<le> t" using assms by (simp add: kpage_def word_le_nat_alt)
  have "unat t < 2 ^ LENGTH(64)" by (rule unsigned_less)
  moreover have u: "unat (kva2pa t) = unat t - unat KVA_OFFSET" using le by (simp add: kva2pa_def unat_sub)
  ultimately have lt: "unat (kva2pa t) < 2 ^ 38" using assms kva by (simp add: kpage_def)
  have "4096 dvd unat (kva2pa t)" using assms by (simp add: u kpage_def KVA_OFFSET_def dvd_diff_nat)
  then have al: "kva2pa t mod 4096 = 0" by (simp add: word_unat_eq_iff unat_mod mod_eq_0_iff_dvd)
  have "kva2pa t = 4096 * (kva2pa t div 4096)"
    using al mult_div_mod_eq [of 4096 "kva2pa t"] by simp
  then show "push_bit 12 (GetPFN (kva2pa t)) = kva2pa t"
    by (simp add: GetPFN_def drop_bit_eq_div push_bit_eq_mult mult.commute)
  have "unat (GetPFN (kva2pa t)) < 2 ^ 44"
    using lt by (simp add: GetPFN_def drop_bit_eq_div unat_div less_mult_imp_div_less)
  then show "pfn_ok (GetPFN (kva2pa t))"
    by (simp add: pfn_ok_def take_bit_eq_mod word_unat_eq_iff unat_mod)
qed

definition new_pte :: "pte \<Rightarrow> u64 \<Rightarrow> u64 \<Rightarrow> pte" where
  "new_pte e pa bits = set_attribute (set_pfn e (GetPFN pa)) bits"

lemma new_pte_ok:
  assumes "kpage t" and "bits AND 0x3ff = bits" and "bits AND PAGE_PRESENT \<noteq> 0"
  shows "PageValid (new_pte e (kva2pa t) bits)" and "get_pa (new_pte e (kva2pa t) bits) = kva2pa t"
proof -
  show "PageValid (new_pte e (kva2pa t) bits)"
    using assms(3) by (simp add: PageValid_def new_pte_def set_attribute_def bit.conj_disj_distrib2 or_eq_0_iff)
  have "\<not> bit bits n" if "10 \<le> n" for n
    using assms(2) that unfolding low_bits_mask by (metis bit_and_iff bit_mask_iff linorder_not_less)
  then have "get_pa (set_pfn e (GetPFN (kva2pa t)) OR bits) = get_pa (set_pfn e (GetPFN (kva2pa t)))"
    by (intro bit_word_eqI) (auto simp: bit_get_pa bit_simps)
  then show "get_pa (new_pte e (kva2pa t) bits) = kva2pa t"
    using kpage_pa [OF assms(1)] by (simp add: new_pte_def set_attribute_def get_pa_set_pfn)
qed

lemma table_bits: "(PAGE_PRESENT OR PAGE_USER) AND 0x3ff = PAGE_PRESENT OR PAGE_USER"
  "(PAGE_PRESENT OR PAGE_USER) AND PAGE_PRESENT \<noteq> 0" "LEAF_BITS AND 0x3ff = LEAF_BITS" "LEAF_BITS AND PAGE_PRESENT \<noteq> 0"
  by (simp_all add: page_bits LEAF_BITS_def push_bit_eq_mult)

section \<open>The tree of tables\<close>

datatype tnode = N1 | N2 u64 | N3 u64 u64

definition tab2 :: "(u64 \<Rightarrow> u64) \<Rightarrow> u64 \<Rightarrow> u64 \<Rightarrow> u64 option" where
  "tab2 r T i =
     (if unat i < 256 \<and> PageValid (r (entry_at T i)) then Some (pa2kva (get_pa (r (entry_at T i)))) else None)"

fun tab_of :: "(u64 \<Rightarrow> u64) \<Rightarrow> u64 \<Rightarrow> tnode \<Rightarrow> u64 option" where
  "tab_of r T N1 = Some T"
| "tab_of r T (N2 i) = tab2 r T i"
| "tab_of r T (N3 i j) =
     (case tab2 r T i of None \<Rightarrow> None
      | Some t \<Rightarrow> if unat j < 512 \<and> PageValid (r (entry_at t j)) then Some (pa2kva (get_pa (r (entry_at t j)))) else None)"

lemmas tab_of_2 = tab_of.simps(2) [unfolded tab2_def]

lemma tab_of_3:
  "tab_of r T (N3 i j) =
     (case tab_of r T (N2 i) of None \<Rightarrow> None
      | Some t \<Rightarrow> if unat j < 512 \<and> PageValid (r (entry_at t j)) then Some (pa2kva (get_pa (r (entry_at t j)))) else None)"
  by simp

declare tab_of.simps(2,3) [simp del]

definition tree :: "(u64 \<Rightarrow> u64) \<Rightarrow> u64 \<Rightarrow> u64 \<Rightarrow> bool" where
  "tree r T kern \<longleftrightarrow>
     (\<forall>x t. tab_of r T x = Some t \<longrightarrow> kpage t \<and> unat t + 4096 \<le> unat kern) \<and>
     (\<forall>x y t. tab_of r T x = Some t \<longrightarrow> tab_of r T y = Some t \<longrightarrow> x = y)"

text \<open>The physical page that the tables give for a user address.\<close>

definition xlate :: "(u64 \<Rightarrow> u64) \<Rightarrow> u64 \<Rightarrow> u64 \<Rightarrow> u64 option" where
  "xlate r T va =
     (case tab_of r T (N3 (GetVPN2 va) (GetVPN1 va)) of None \<Rightarrow> None
      | Some t \<Rightarrow> (let e = r (entry_at t (GetVPN0 va)) in if PageValid e then Some (get_pa e) else None))"

lemma tree_kpage: "tree r T kern \<Longrightarrow> tab_of r T x = Some t \<Longrightarrow> kpage t \<and> t \<noteq> kern"
  unfolding tree_def by fastforce

lemma tree_root: "tree r T kern \<Longrightarrow> kpage T \<and> T \<noteq> kern"
  by (rule tree_kpage [of r T kern N1]) simp_all

lemma tree_inj: "tree r T kern \<Longrightarrow> tab_of r T x = Some t \<Longrightarrow> tab_of r T y = Some t \<Longrightarrow> x = y"
  unfolding tree_def by blast

lemma vpn_less [simp]: "unat (GetVPN2 va) < 512" "unat (GetVPN1 va) < 512" "unat (GetVPN0 va) < 512"
proof -
  have "unat (x AND VPN_MASK) < 512" for x
    by (simp add: VPN_MASK_mask flip: take_bit_eq_mask) (simp add: take_bit_eq_mod unat_mod)
  then show "unat (GetVPN2 va) < 512" "unat (GetVPN1 va) < 512" "unat (GetVPN0 va) < 512"
    by (simp_all add: GetVPN2_def GetVPN1_def GetVPN0_def)
qed

text \<open>
  \<open>grown r tab i kern E r'\<close>: memory \<open>r'\<close> is \<open>r\<close> with entry \<open>i\<close> of page \<open>tab\<close> set to \<open>E\<close> and the page at
  \<open>kern\<close> cleared, as far as entries of pages are concerned.
\<close>

definition grown :: "(u64 \<Rightarrow> u64) \<Rightarrow> u64 \<Rightarrow> u64 \<Rightarrow> u64 \<Rightarrow> pte \<Rightarrow> (u64 \<Rightarrow> u64) \<Rightarrow> bool" where
  "grown r tab i kern E r' \<longleftrightarrow> r' (entry_at tab i) = E \<and>
     (\<forall>j. unat j < 512 \<longrightarrow> r' (entry_at kern j) = 0) \<and>
     (\<forall>t j. kpage t \<longrightarrow> unat j < 512 \<longrightarrow> t \<noteq> kern \<longrightarrow> (t, j) \<noteq> (tab, i) \<longrightarrow> r' (entry_at t j) = r (entry_at t j))"

lemma grown_entry:
  "grown r tab i kern E r' \<Longrightarrow> kpage t \<and> t \<noteq> kern \<Longrightarrow> unat j < 512 \<Longrightarrow> (t, j) \<noteq> (tab, i) \<Longrightarrow>
   r' (entry_at t j) = r (entry_at t j)"
  unfolding grown_def by blast

lemma PageValid_0 [simp]: "\<not> PageValid 0"
  by (simp add: PageValid_def)

lemma tab_grown2:
  assumes tr: "tree r T kern" and i: "unat i < 256" and old: "\<not> PageValid (r (entry_at T i))"
    and g: "grown r T i kern E r'" and E: "PageValid E" "pa2kva (get_pa E) = kern"
  shows "tab_of r' T x = (if x = N2 i then Some kern else tab_of r T x)"
proof -
  have two: "tab_of r' T (N2 k) = (if k = i then Some kern else tab_of r T (N2 k))" for k
  proof (cases "k = i")
    case True
    then show ?thesis using g E i by (simp add: tab_of_2 grown_def)
  next
    case False
    then show ?thesis using grown_entry [OF g tree_root [OF tr], of k] by (auto simp: tab_of_2)
  qed
  show ?thesis
  proof (cases x)
    case (N3 k j)
    show ?thesis
    proof (cases "k = i")
      case True
      then show ?thesis using two [of i] g old by (simp add: N3 tab_of_3) (simp add: tab_of_2 grown_def)
    next
      case False
      have "r' (entry_at t j) = r (entry_at t j)" if "tab_of r T (N2 k) = Some t" "unat j < 512" for t
        using grown_entry [OF g tree_kpage [OF tr that(1)] that(2)] tree_inj [OF tr that(1), of N1] by auto
      with False two [of k] show ?thesis by (auto simp: N3 tab_of_3 split: option.splits)
    qed
  qed (simp_all add: two)
qed

lemma tab_grown3:
  assumes tr: "tree r T kern" and t2: "tab_of r T (N2 i) = Some t2" and j: "unat j < 512"
    and g: "grown r t2 j kern E r'" and E: "PageValid E" "pa2kva (get_pa E) = kern"
  shows "tab_of r' T x = (if x = N3 i j then Some kern else tab_of r T x)"
proof -
  have "T \<noteq> t2" using tree_inj [OF tr, of N1 T "N2 i"] t2 by auto
  then have two: "tab_of r' T (N2 k) = tab_of r T (N2 k)" for k
    using grown_entry [OF g tree_root [OF tr], of k] by (auto simp: tab_of_2)
  show ?thesis
  proof (cases x)
    case (N3 k l)
    have same: "r' (entry_at t l) = r (entry_at t l)"
      if "tab_of r T (N2 k) = Some t" "unat l < 512" "(k, l) \<noteq> (i, j)" for t
    proof (rule grown_entry [OF g tree_kpage [OF tr that(1)] that(2)])
      show "(t, l) \<noteq> (t2, j)" using that tree_inj [OF tr that(1), of "N2 i"] t2 by auto
    qed
    show ?thesis
    proof (cases "(k, l) = (i, j)")
      case True
      then show ?thesis using two [of i] t2 j g E by (simp add: N3 tab_of_3 grown_def)
    next
      case False
      then show ?thesis using two [of k] same by (auto simp: N3 tab_of_3 split: option.splits)
    qed
  qed (simp_all add: two)
qed

lemma tree_grow:
  assumes tr: "tree r T kern" and tab: "\<And>y. tab_of r' T y = (if y = x then Some kern else tab_of r T y)"
    and "kpage kern" and "unat kern + 4096 < 2 ^ 64"
  shows "tree r' T (kern + 4096)"
proof -
  have k: "unat (kern + 4096) = unat kern + 4096" using assms(4) by (simp add: unat_plus_if')
  have "kpage t \<and> unat t + 4096 \<le> unat (kern + 4096)" if "tab_of r' T y = Some t" for y t
    using that tr assms(3) unfolding tab k tree_def by (fastforce split: if_splits)
  moreover have "y = z" if "tab_of r' T y = Some t" "tab_of r' T z = Some t" for y z t
    using that tree_inj [OF tr] tree_kpage [OF tr] unfolding tab by (metis option.inject)
  ultimately show ?thesis unfolding tree_def by blast
qed

lemma tab_leaf:
  assumes tr: "tree r T kern" and t3: "tab_of r T (N3 i j) = Some t3"
    and same: "\<And>t l. kpage t \<Longrightarrow> unat l < 512 \<Longrightarrow> t \<noteq> t3 \<Longrightarrow> r' (entry_at t l) = r (entry_at t l)"
  shows "tab_of r' T x = tab_of r T x"
proof -
  have "T \<noteq> t3" using tree_inj [OF tr, of N1 T "N3 i j"] t3 by auto
  then have two: "tab_of r' T (N2 k) = tab_of r T (N2 k)" for k
    using same tree_root [OF tr] by (auto simp: tab_of_2)
  have "r' (entry_at t l) = r (entry_at t l)" if "tab_of r T (N2 k) = Some t" "unat l < 512" for k t l
    using same tree_kpage [OF tr that(1)] that(2) tree_inj [OF tr that(1), of "N3 i j"] t3 by blast
  with two show ?thesis by (cases x) (auto simp: tab_of_3 split: option.splits)
qed

section \<open>Allocating pages\<close>

text \<open>
  \<open>room n s p\<close>: the next \<open>n\<close> allocations for process \<open>p\<close> find a fresh page and the next records of the
  table, without swapping.
\<close>

definition room :: "nat \<Rightarrow> ('d, 's) ms \<Rightarrow> pcb_ref \<Rightarrow> bool" where
  "room n s p \<longleftrightarrow> unat (pagenum (pcb s p)) + n \<le> unat (upbound (pcb s p)) \<and> page_id s + n \<le> PAGE_NUM \<and>
     (\<forall>i. page_id s \<le> i \<longrightarrow> i < page_id s + n \<longrightarrow> pg_status (page_manager s i) = UNUSED) \<and>
     (\<exists>xs. dll (plists s) (Head (PageHead p)) xs \<and> (\<forall>i\<ge>page_id s. Elem i \<notin> set xs)) \<and>
     kpage (kernMemCurr s) \<and> unat (kernMemCurr s) + 4096 * n < 2 ^ 64"

lemma room_less: "room n s p \<Longrightarrow> m \<le> n \<Longrightarrow> room m s p"
  unfolding room_def by auto

lemma ROUND_kpage:
  assumes "kpage a"
  shows "ROUND a PAGE_SIZE = a"
proof -
  have low: "\<not> bit a n" if "n < 12" for n
  proof -
    have "take_bit 12 (unat a) = 0" using assms by (simp add: kpage_def take_bit_eq_mod mod_eq_0_iff_dvd)
    then have "\<not> bit (unat a) n" using that by (metis bit_take_bit_iff bit_0_eq bot_apply bot_bool_def)
    then show ?thesis by (simp add: bit_unsigned_iff)
  qed
  have m: "(4095 :: u64) = mask 12" by (simp add: mask_eq_exp_minus_1)
  have "a AND mask 12 = 0" by (rule bit_word_eqI) (auto simp: bit_simps low)
  then have "a + mask 12 = a OR mask 12" by (simp add: disjunctive_add bit_eq_iff bit_simps low)
  then have "ROUND a PAGE_SIZE = (a OR mask 12) AND NOT (mask 12)" by (simp add: ROUND_def PAGE_SIZE_def add_diff_eq [symmetric] m)
  also have "\<dots> = a" by (rule bit_word_eqI) (auto simp: bit_simps low)
  finally show ?thesis .
qed

text \<open>What the helpers leave alone besides the memory: of the processes they change only the page counts.\<close>

abbreviation uncounted :: "pcb_t \<Rightarrow> pcb_t" where
  "uncounted c \<equiv> c\<lparr>pagenum := 0\<rparr>"

definition same_proc :: "('d, 's) ms \<Rightarrow> ('d, 's) ms \<Rightarrow> bool" where
  "same_proc s s' \<longleftrightarrow> (\<forall>q. uncounted (pcb s' q) = uncounted (pcb s q)) \<and> core_running s' = core_running s \<and>
     lists s' = lists s \<and> process_id s' = process_id s \<and> sdc s' = sdc s"

lemma same_proc_fields:
  assumes "same_proc s s'"
  shows "pgdir (pcb s' q) = pgdir (pcb s q)" "pid (pcb s' q) = pid (pcb s q)"
    "task_status (pcb s' q) = task_status (pcb s q)" "upbound (pcb s' q) = upbound (pcb s q)"
proof -
  have "uncounted (pcb s' q) = uncounted (pcb s q)" using assms by (simp add: same_proc_def)
  then show "pgdir (pcb s' q) = pgdir (pcb s q)" "pid (pcb s' q) = pid (pcb s q)"
    "task_status (pcb s' q) = task_status (pcb s q)" "upbound (pcb s' q) = upbound (pcb s q)"
    by (cases "pcb s' q"; cases "pcb s q"; simp)+
qed

lemma find_unused_first:
  "i < PAGE_NUM \<Longrightarrow> pg_status (pm i) = UNUSED \<Longrightarrow> find_unused PAGE_FUEL pm i = Inr i"
  by (simp add: PAGE_FUEL_def numeral_eq_Suc)

lemma allocPagetable_fresh:
  assumes r: "room (Suc n) s p"
  shows "\<exists>i s'. allocPagetable D p st s = Inr (i, s') \<and> ram s' = ram s \<and> pg_kva (page_manager s' i) = kernMemCurr s \<and>
    pg_status (page_manager s' i) = st \<and> kernMemCurr s' = kernMemCurr s + 4096 \<and> room n s' p \<and> same_proc s s'"
proof -
  have num: "pagenum (pcb s p) \<noteq> upbound (pcb s p)" "pagenum (pcb s p) + 1 \<noteq> 0"
    "unat (pagenum (pcb s p) + 1) = Suc (unat (pagenum (pcb s p)))"
  proof -
    have "unat (pagenum (pcb s p)) < unat (upbound (pcb s p))" using r by (simp add: room_def)
    moreover have "unat (upbound (pcb s p)) < 2 ^ LENGTH(32)" by (rule unsigned_less)
    ultimately show "pagenum (pcb s p) \<noteq> upbound (pcb s p)" "unat (pagenum (pcb s p) + 1) = Suc (unat (pagenum (pcb s p)))"
      by (auto simp: unat_plus_if')
    then show "pagenum (pcb s p) + 1 \<noteq> 0" by auto
  qed
  let ?i = "page_id s"
  have f: "find_unused PAGE_FUEL (page_manager s) ?i = Inr ?i"
    using r by (intro find_unused_first) (simp_all add: room_def)
  have R: "ROUND (kernMemCurr s) 4096 = kernMemCurr s"
    using r ROUND_kpage [of "kernMemCurr s"] by (simp add: room_def PAGE_SIZE_def)
  obtain xs where xs: "dll (plists s) (Head (PageHead p)) xs" "\<forall>i\<ge>page_id s. Elem i \<notin> set xs"
    using r by (auto simp: room_def)
  obtain h where h: "list_add_tail (plists s) (Elem ?i) (Head (PageHead p)) = Inr h"
      "dll h (Head (PageHead p)) (xs @ [Elem ?i])"
    using xs by (auto elim: dll_add_tail [of "plists s" "Head (PageHead p)" xs "Elem ?i"])
  have k: "kpage (kernMemCurr s + 4096)" "unat (kernMemCurr s + 4096) = unat (kernMemCurr s) + 4096"
  proof -
    show "unat (kernMemCurr s + 4096) = unat (kernMemCurr s) + 4096" using r by (simp add: room_def unat_plus_if')
    then show "kpage (kernMemCurr s + 4096)" using r by (simp add: room_def kpage_def)
  qed
  define s' where "s' = upd_pcb p (pagenum_update (\<lambda>n. n + 1)) (upd_page ?i (pg_kva_update (\<lambda>_. kernMemCurr s))
    ((upd_page ?i (pg_status_update (\<lambda>_. st)) (s\<lparr>page_id := Suc ?i\<rparr>))\<lparr>kernMemCurr := kernMemCurr s + 4096\<rparr>))\<lparr>plists := h\<rparr>"
  have "allocPagetable D p st s = Inr (?i, s')"
    using num(1) h(1) by (simp add: allocPagetable_def f R allocPage_def Let_def s'_def upd_page_def upd_pcb_def PAGE_SIZE_def)
  moreover have "room n s' p"
    using r num(3) k h(2) xs(2)
    by (auto simp: room_def s'_def upd_page_def upd_pcb_def intro!: exI [of _ "xs @ [Elem ?i]"])
  ultimately show ?thesis
    by (intro exI [of _ ?i] exI [of _ s']) (simp add: s'_def upd_page_def upd_pcb_def same_proc_def)
qed

section \<open>Mapping a page\<close>

lemma clear_pgdir_frame:
  "\<exists>r. clear_pgdir t s = s\<lparr>ram := r\<rparr>"
proof -
  have "\<exists>r. fold (\<lambda>i. wr64 (t + 8 * of_nat i) 0) ks s = s\<lparr>ram := r\<rparr>" for ks and s :: "('a, 'b) ms"
  proof (induction ks arbitrary: s)
    case Nil
    show ?case by (intro exI [of _ "ram s"]) simp
  next
    case (Cons k ks)
    show ?case using Cons [of "wr64 (t + 8 * of_nat k) 0 s"] by (auto simp: wr64_def)
  qed
  then show ?thesis by (simp add: clear_pgdir_def)
qed

lemma next_level_ok:
  assumes room: "room (Suc n) s p" and tab: "kpage tab" "tab \<noteq> kernMemCurr s" and i: "unat i < 512"
    and inv: "\<not> PageValid (ram s (entry_at tab i))"
  shows "\<exists>s' E. next_level D p tab i s = Inr (kernMemCurr s, s') \<and> grown (ram s) tab i (kernMemCurr s) E (ram s') \<and>
    PageValid E \<and> pa2kva (get_pa E) = kernMemCurr s \<and> kernMemCurr s' = kernMemCurr s + 4096 \<and> room n s' p \<and> same_proc s s'"
proof -
  obtain k s1 where a: "allocPagetable D p UNSWAPABLE s = Inr (k, s1)" "ram s1 = ram s"
      "pg_kva (page_manager s1 k) = kernMemCurr s" "kernMemCurr s1 = kernMemCurr s + 4096" "room n s1 p"
      "same_proc s s1"
    using allocPagetable_fresh [OF room, of D UNSWAPABLE] by blast
  let ?K = "kernMemCurr s"
  have K: "kpage ?K" using room by (simp add: room_def)
  obtain r where r: "clear_pgdir ?K s1 = s1\<lparr>ram := r\<rparr>" using clear_pgdir_frame by blast
  have r0: "r (entry_at ?K j) = 0" if "unat j < 512" for j
    using clear_pgdir_ram(1) [OF K that, of s1] by (simp add: r)
  have r1: "r (entry_at t j) = ram s (entry_at t j)" if "kpage t" "t \<noteq> ?K" "unat j < 512" for t j
    using clear_pgdir_ram(2) [OF K that, of s1] by (simp add: r a(2))
  let ?E = "new_pte (r (entry_at tab i)) (kva2pa ?K) (PAGE_PRESENT OR PAGE_USER)"
  let ?s' = "s1\<lparr>ram := r(entry_at tab i := ?E)\<rparr>"
  have E: "PageValid ?E" "get_pa ?E = kva2pa ?K"
    using new_pte_ok [OF K table_bits(1,2)] by blast+
  have "next_level D p tab i s = Inr (?K, ?s')"
    using inv by (simp add: next_level_def a r Let_def upd_pte_def wr64_def new_pte_def)
  moreover have "grown (ram s) tab i ?K ?E (ram ?s')"
    unfolding grown_def using r0 r1 tab i entry_eq_iff [OF _ tab(1) _ i] K by auto
  moreover have "room n ?s' p" using a(5) by (simp add: room_def)
  moreover have "same_proc s ?s'" using a(6) by (simp add: same_proc_def)
  ultimately show ?thesis using E a(4) by (intro exI [of _ ?s'] exI [of _ ?E]) simp
qed

text \<open>
  One step down the tree: after \<open>next_level\<close> at node \<open>x\<close> with child \<open>y\<close>, the tree has a table at \<open>y\<close>;
  all tables it had, and the contents of all tables of the third level, are as before.
\<close>

definition reaches :: "u64 \<Rightarrow> ('d, 's) ms \<Rightarrow> ('d, 's) ms \<Rightarrow> bool" where
  "reaches T s s' \<longleftrightarrow> tree (ram s') T (kernMemCurr s') \<and> unat (kernMemCurr s) \<le> unat (kernMemCurr s') \<and> same_proc s s' \<and>
     (\<forall>x t. tab_of (ram s) T x = Some t \<longrightarrow> tab_of (ram s') T x = Some t) \<and>
     (\<forall>x t. tab_of (ram s') T x = Some t \<longrightarrow> tab_of (ram s) T x = Some t \<or> unat (kernMemCurr s) \<le> unat t) \<and>
     (\<forall>t j. kpage t \<longrightarrow> unat j < 512 \<longrightarrow> unat t + 4096 \<le> unat (kernMemCurr s) \<longrightarrow> (\<forall>x. tab_of (ram s) T x \<noteq> Some t) \<longrightarrow>
        ram s' (entry_at t j) = ram s (entry_at t j))"

lemmas reachesD = reaches_def [THEN iffD1]

definition extends :: "u64 \<Rightarrow> ('d, 's) ms \<Rightarrow> ('d, 's) ms \<Rightarrow> bool" where
  "extends T s s' \<longleftrightarrow> reaches T s s' \<and> (\<forall>va. xlate (ram s') T va = xlate (ram s) T va)"

lemma reaches_refl: "tree (ram s) T (kernMemCurr s) \<Longrightarrow> reaches T s s"
  by (simp add: reaches_def same_proc_def)

lemma same_proc_trans: "same_proc s s' \<Longrightarrow> same_proc s' s'' \<Longrightarrow> same_proc s s''"
  by (simp add: same_proc_def)

lemma reaches_trans:
  assumes 1: "reaches T s s'" and 2: "reaches T s' s''"
  shows "reaches T s s''"
proof -
  let ?k = "\<lambda>s. unat (kernMemCurr s)"
  have k: "?k s \<le> ?k s'" "?k s' \<le> ?k s''" using 1 2 by (simp_all add: reaches_def)
  have older: "tab_of (ram s) T x = Some t \<or> ?k s \<le> unat t" if "tab_of (ram s'') T x = Some t" for x t
  proof -
    have "tab_of (ram s') T x = Some t \<or> ?k s' \<le> unat t" using 2 that by (simp add: reaches_def)
    then show ?thesis using 1 k(1) by (auto simp: reaches_def)
  qed
  have frame: "ram s'' (entry_at t j) = ram s (entry_at t j)"
    if t: "kpage t" "unat j < 512" "unat t + 4096 \<le> ?k s" "\<forall>x. tab_of (ram s) T x \<noteq> Some t" for t j
  proof -
    have "tab_of (ram s') T x \<noteq> Some t" for x
    proof
      assume "tab_of (ram s') T x = Some t"
      then have "tab_of (ram s) T x = Some t \<or> ?k s \<le> unat t" using 1 by (simp add: reaches_def)
      then show False using t(3,4) by auto
    qed
    then have "ram s'' (entry_at t j) = ram s' (entry_at t j)"
      using reachesD [OF 2] t(1,2,3) k(1) by (meson le_trans)
    also have "\<dots> = ram s (entry_at t j)" using reachesD [OF 1] t by blast
    finally show ?thesis .
  qed
  have fw: "tab_of (ram s'') T x = Some t" if "tab_of (ram s) T x = Some t" for x t
    using 1 2 that by (simp add: reaches_def)
  have "same_proc s s''" using 1 2 by (auto simp: reaches_def intro: same_proc_trans)
  moreover have "tree (ram s'') T (kernMemCurr s'')" using 2 by (simp add: reaches_def)
  ultimately show ?thesis unfolding reaches_def using k older frame fw by (meson le_trans)
qed

lemma extends_refl: "tree (ram s) T (kernMemCurr s) \<Longrightarrow> extends T s s"
  by (simp add: extends_def reaches_refl)

lemma extends_trans: "extends T s s' \<Longrightarrow> extends T s' s'' \<Longrightarrow> extends T s s''"
  by (auto simp: extends_def intro: reaches_trans)

lemma xlate_grown:
  assumes tr: "tree r T kern" and g: "grown r tab i kern E r'"
    and tab: "\<And>y. tab_of r' T y = (if y = x then Some kern else tab_of r T y)"
    and x: "tab_of r T x = None" and node: "tab_of r T n = Some tab" "n = N1 \<or> (\<exists>k. n = N2 k)"
  shows "xlate r' T va = xlate r T va"
proof (cases "x = N3 (GetVPN2 va) (GetVPN1 va)")
  case True
  then show ?thesis using x g by (simp add: xlate_def tab grown_def)
next
  case False
  show ?thesis
  proof (cases "tab_of r T (N3 (GetVPN2 va) (GetVPN1 va))")
    case None
    with False show ?thesis by (auto simp: xlate_def tab)
  next
    case (Some t)
    have "t \<noteq> tab" using tree_inj [OF tr Some, of n] node by auto
    then have "r' (entry_at t (GetVPN0 va)) = r (entry_at t (GetVPN0 va))"
      by (intro grown_entry [OF g tree_kpage [OF tr Some]]) auto
    with False Some show ?thesis by (auto simp: xlate_def tab)
  qed
qed

text \<open>The step from a table to the next one, for both upper levels.\<close>

fun child :: "tnode \<Rightarrow> u64 \<Rightarrow> tnode" where
  "child N1 i = N2 i"
| "child (N2 k) i = N3 k i"
| "child (N3 k l) i = N3 k l"

fun inner :: "tnode \<Rightarrow> u64 \<Rightarrow> bool" where
  "inner N1 i \<longleftrightarrow> unat i < 256"
| "inner (N2 k) i \<longleftrightarrow> unat i < 512"
| "inner (N3 k l) i \<longleftrightarrow> False"

lemma tab_child:
  assumes "tab_of r T n = Some tab" and "inner n i"
  shows "tab_of r T (child n i) =
    (if PageValid (r (entry_at tab i)) then Some (pa2kva (get_pa (r (entry_at tab i)))) else None)"
  using assms by (cases n) (auto simp: tab_of_3, auto simp: tab_of_2)

lemma tab_grown:
  assumes tr: "tree r T kern" and n: "tab_of r T n = Some tab" "inner n i"
    and old: "\<not> PageValid (r (entry_at tab i))"
    and g: "grown r tab i kern E r'" and E: "PageValid E" "pa2kva (get_pa E) = kern"
  shows "tab_of r' T x = (if x = child n i then Some kern else tab_of r T x)"
proof (cases n)
  case N1
  then show ?thesis using tab_grown2 [OF tr _ _ _ E] n old g by simp
next
  case (N2 k)
  then show ?thesis using tab_grown3 [OF tr _ _ _ E] n g by simp
qed (use n in simp)

lemma descend:
  assumes tr: "tree (ram s) T (kernMemCurr s)" and room: "room (Suc k) s p"
    and n: "tab_of (ram s) T n = Some tab" "inner n i"
  shows "\<exists>t s'. next_level D p tab i s = Inr (t, s') \<and> extends T s s' \<and> tab_of (ram s') T (child n i) = Some t \<and> room k s' p"
proof (cases "PageValid (ram s (entry_at tab i))")
  case True
  have "room k s p" by (rule room_less [OF room]) simp
  with True show ?thesis using extends_refl [OF tr] tab_child [OF n] by (simp add: next_level_def Let_def)
next
  case False
  have i: "unat i < 512" using n(2) by (cases n) simp_all
  obtain s' E where a: "next_level D p tab i s = Inr (kernMemCurr s, s')" "grown (ram s) tab i (kernMemCurr s) E (ram s')"
      "PageValid E" "pa2kva (get_pa E) = kernMemCurr s" "kernMemCurr s' = kernMemCurr s + 4096" "room k s' p" "same_proc s s'"
    using next_level_ok [OF room _ _ i False] tree_kpage [OF tr n(1)] by blast
  note tab = tab_grown [OF tr n False a(2-4)]
  have none: "tab_of (ram s) T (child n i) = None" using tab_child [OF n] False by simp
  have "tree (ram s') T (kernMemCurr s')"
    unfolding a(5) by (rule tree_grow [OF tr tab]) (use room in \<open>auto simp: room_def\<close>)
  moreover have "xlate (ram s') T va = xlate (ram s) T va" for va
    by (rule xlate_grown [OF tr a(2) tab none n(1)]) (use n(2) in \<open>cases n; auto\<close>)
  moreover have "tab_of (ram s') T x = Some t" if "tab_of (ram s) T x = Some t" for x t
    using that none tab by auto
  moreover have "unat (kernMemCurr s) \<le> unat (kernMemCurr s')"
    using room by (simp add: a(5) room_def unat_plus_if')
  moreover have "tab_of (ram s) T x = Some t \<or> unat (kernMemCurr s) \<le> unat t" if "tab_of (ram s') T x = Some t" for x t
    using that tab [of x] by (auto split: if_splits)
  moreover have "ram s' (entry_at t j) = ram s (entry_at t j)"
    if "kpage t" "unat j < 512" "unat t + 4096 \<le> unat (kernMemCurr s)" "\<forall>x. tab_of (ram s) T x \<noteq> Some t" for t j
    by (rule grown_entry [OF a(2)]) (use that n(1) in auto)
  ultimately have "extends T s s'" using a(7) by (simp add: extends_def reaches_def)
  then show ?thesis using a(1,6) tab [of "child n i"] by auto
qed

text \<open>The walk of both helpers from the root to the table of the third level.\<close>

definition walk :: "'d sdcard \<Rightarrow> pcb_ref \<Rightarrow> u64 \<Rightarrow> ('d, 's) ms \<Rightarrow> (u64 \<times> ('d, 's) ms) res" where
  "walk D p va s =
     bindE (next_level D p (pgdir (pcb s p)) (GetVPN2 va) s) (\<lambda>(t, s). next_level D p t (GetVPN1 va) s)"

lemma walk_ok:
  assumes tr: "tree (ram s) T (kernMemCurr s)" and T: "T = pgdir (pcb s p)" and room: "room (Suc (Suc k)) s p"
    and va: "unat (GetVPN2 va) < 256"
  shows "\<exists>t s'. walk D p va s = Inr (t, s') \<and> extends T s s' \<and>
    tab_of (ram s') T (N3 (GetVPN2 va) (GetVPN1 va)) = Some t \<and> room k s' p"
proof -
  obtain t s1 where 1: "next_level D p T (GetVPN2 va) s = Inr (t, s1)" "extends T s s1"
      "tab_of (ram s1) T (N2 (GetVPN2 va)) = Some t" "room (Suc k) s1 p"
    using descend [OF tr room, of N1 T "GetVPN2 va" D] va by auto
  obtain u s2 where 2: "next_level D p t (GetVPN1 va) s1 = Inr (u, s2)" "extends T s1 s2"
      "tab_of (ram s2) T (N3 (GetVPN2 va) (GetVPN1 va)) = Some u" "room k s2 p"
    using descend [OF _ 1(4,3), of "GetVPN1 va" D] 1(2) by (auto simp: extends_def reaches_def)
  show ?thesis using 1(1) 2 extends_trans [OF 1(2) 2(2)] T by (auto simp: walk_def)
qed

text \<open>Writing a leaf of the tree changes the translation of one page.\<close>

definition vpn :: "u64 \<Rightarrow> u64 \<times> u64 \<times> u64" where
  "vpn va = (GetVPN2 va, GetVPN1 va, GetVPN0 va)"

lemma xlate_leaf:
  assumes tr: "tree r T kern" and t: "tab_of r T (N3 (GetVPN2 va) (GetVPN1 va)) = Some t"
    and r': "r' = r(entry_at t (GetVPN0 va) := E)" and E: "PageValid E"
  shows "tab_of r' T x = tab_of r T x"
    and "xlate r' T w = (if vpn w = vpn va then Some (get_pa E) else xlate r T w)"
proof -
  have kt: "kpage t" using tree_kpage [OF tr t] by simp
  have other: "r' (entry_at u l) = r (entry_at u l)" if "kpage u" "unat l < 512" "(u, l) \<noteq> (t, GetVPN0 va)" for u l
    using entry_eq_iff [OF that(1) kt that(2), of "GetVPN0 va"] that(3) by (auto simp: r')
  show tab: "tab_of r' T x = tab_of r T x" for x
    by (rule tab_leaf [OF tr t]) (auto intro!: other)
  show "xlate r' T w = (if vpn w = vpn va then Some (get_pa E) else xlate r T w)"
  proof (cases "vpn w = vpn va")
    case True
    have "r' (entry_at t (GetVPN0 va)) = E" by (simp add: r')
    with True show ?thesis using t E by (simp add: xlate_def tab vpn_def Let_def)
  next
    case False
    have "r' (entry_at u (GetVPN0 w)) = r (entry_at u (GetVPN0 w))"
      if u: "tab_of r T (N3 (GetVPN2 w) (GetVPN1 w)) = Some u" for u
    proof (rule other)
      show "kpage u" using tree_kpage [OF tr u] by simp
      show "(u, GetVPN0 w) \<noteq> (t, GetVPN0 va)" using False tree_inj [OF tr u, of "N3 (GetVPN2 va) (GetVPN1 va)"] t by (auto simp: vpn_def)
    qed simp
    with False show ?thesis by (auto simp: xlate_def tab split: option.split)
  qed
qed

lemma tree_mono: "tree r T kern \<Longrightarrow> unat kern \<le> unat kern' \<Longrightarrow> tree r T kern'"
  unfolding tree_def by (meson le_trans)

lemma xlate_vpn: "vpn v = vpn w \<Longrightarrow> xlate r T v = xlate r T w"
  by (auto simp: vpn_def xlate_def Let_def split: option.split)

lemma alloc_page_helper_walk:
  "alloc_page_helper D va p st s =
     bindE (walk D p va s) (\<lambda>(t, s).
       let a = entry_at t (GetVPN0 va); e = ram s a
       in if \<not> PageValid e
          then bindE (allocPagetable D p st s) (\<lambda>(i, s).
            let s = upd_page i (\<lambda>r. r\<lparr>uva := va, pg_pte := a\<rparr>) s; kva = pg_kva (page_manager s i)
            in Inr (kva, upd_pte a (\<lambda>e. new_pte e (kva2pa kva) LEAF_BITS) s))
          else Inr (pa2kva (get_pa e), s))"
  by (cases "next_level D p (pgdir (pcb s p)) (GetVPN2 va) s")
    (auto simp: alloc_page_helper_def walk_def Let_def upd_pte_def wr64_def new_pte_def bindE_def split: sum.split)

lemma alloc_page_helper_grow:
  fixes s :: "('d, 's) ms"
  assumes tr: "tree (ram s) T (kernMemCurr s)" and T: "T = pgdir (pcb s p)" and room: "room (Suc (Suc (Suc n))) s p"
    and va: "unat (GetVPN2 va) < 256"
  shows "\<exists>kva s'. alloc_page_helper D va p st s = Inr (kva, s') \<and> reaches T s s' \<and> room n s' p \<and>
    (\<forall>w. xlate (ram s') T w = (if vpn w = vpn va then Some (kva2pa kva) else xlate (ram s) T w)) \<and>
    (case xlate (ram s) T va of Some pa \<Rightarrow> kva = pa2kva pa
     | None \<Rightarrow> unat (kernMemCurr s) \<le> unat kva \<and> unat kva + 4096 \<le> unat (kernMemCurr s') \<and>
         kpage kva \<and> tree (ram s') T kva)"
proof -
  obtain t s1 where w: "walk D p va s = Inr (t, s1)" "extends T s s1"
      "tab_of (ram s1) T (N3 (GetVPN2 va) (GetVPN1 va)) = Some t" "room (Suc n) s1 p"
    using walk_ok [OF tr T room va] by blast
  have x: "xlate (ram s1) T v = xlate (ram s) T v" for v using w(2) by (simp add: extends_def)
  have r1: "reaches T s s1" using w(2) by (simp add: extends_def)
  have tr1: "tree (ram s1) T (kernMemCurr s1)" using r1 by (simp add: reaches_def)
  let ?a = "entry_at t (GetVPN0 va)"
  show ?thesis
  proof (cases "PageValid (ram s1 ?a)")
    case True
    then have "xlate (ram s) T va = Some (get_pa (ram s1 ?a))" using w(3) unfolding x [of va, symmetric] by (simp add: xlate_def)
    moreover have "xlate (ram s1) T v = (if vpn v = vpn va then xlate (ram s) T va else xlate (ram s) T v)" for v
      using xlate_vpn [of v va "ram s" T] x [of v] by simp
    moreover have "alloc_page_helper D va p st s = Inr (pa2kva (get_pa (ram s1 ?a)), s1)"
      using True w(1) by (simp add: alloc_page_helper_walk)
    moreover have "room n s1 p" by (rule room_less [OF w(4)]) simp
    ultimately show ?thesis using r1 by (intro exI [of _ "pa2kva (get_pa (ram s1 ?a))"] exI [of _ s1]) simp
  next
    case False
    then have none: "xlate (ram s) T va = None" using w(3) unfolding x [of va, symmetric] by (simp add: xlate_def)
    let ?K = "kernMemCurr s1"
    obtain i s2 where a: "allocPagetable D p st s1 = Inr (i, s2)" "ram s2 = ram s1" "pg_kva (page_manager s2 i) = ?K"
        "kernMemCurr s2 = ?K + 4096" "same_proc s1 s2" "room n s2 p"
      using allocPagetable_fresh [OF w(4), of D st] by blast
    have K: "kpage ?K" "unat (?K + 4096) = unat ?K + 4096" using w(4) by (simp_all add: room_def unat_plus_if')
    let ?E = "new_pte (ram s1 ?a) (kva2pa ?K) LEAF_BITS"
    let ?s' = "upd_pte ?a (\<lambda>e. new_pte e (kva2pa ?K) LEAF_BITS) (upd_page i (\<lambda>r. r\<lparr>uva := va, pg_pte := ?a\<rparr>) s2)"
    have E: "PageValid ?E" "get_pa ?E = kva2pa ?K" using new_pte_ok [OF K(1) table_bits(3,4)] by blast+
    have ram': "ram ?s' = (ram s1)(?a := ?E)" and k': "kernMemCurr ?s' = ?K + 4096"
      by (simp_all add: upd_pte_def wr64_def upd_page_def a(2,4))
    note leaf = xlate_leaf [OF tr1 w(3) ram' E(1)]
    have trK: "tree (ram ?s') T ?K" using tr1 unfolding tree_def leaf(1) .
    then have "tree (ram ?s') T (kernMemCurr ?s')" by (rule tree_mono) (simp add: k' K(2))
    moreover have "same_proc s1 ?s'" using a(5) by (simp add: same_proc_def upd_pte_def wr64_def upd_page_def)
    moreover have "room n ?s' p" using a(6) by (auto simp: room_def upd_pte_def wr64_def upd_page_def)
    moreover have "ram ?s' (entry_at u j) = ram s1 (entry_at u j)"
      if "kpage u" "unat j < 512" "\<forall>x. tab_of (ram s1) T x \<noteq> Some u" for u j
      unfolding ram' using entry_eq_iff [of u t j "GetVPN0 va"] tree_kpage [OF tr1 w(3)] w(3) that by auto
    ultimately have re: "reaches T s1 ?s'" and rm: "room n ?s' p" unfolding reaches_def using leaf(1) k' K(2) by simp_all
    have "reaches T s ?s'" by (rule reaches_trans [OF r1 re])
    moreover have "alloc_page_helper D va p st s = Inr (?K, ?s')"
      using False by (simp add: alloc_page_helper_walk w(1) a(1,3) Let_def upd_page_def)
    moreover have "unat (kernMemCurr s) \<le> unat ?K" using r1 by (simp add: reaches_def)
    moreover have "xlate (ram ?s') T v = (if vpn v = vpn va then Some (kva2pa ?K) else xlate (ram s) T v)" for v
      unfolding leaf(2) E(2) x ..
    moreover have "unat ?K + 4096 \<le> unat (kernMemCurr ?s')" unfolding k' K(2) ..
    ultimately show ?thesis using rm K(1) trK unfolding none option.case by blast
  qed
qed

lemma alloc_page_helper_step:
  fixes s :: "('d, 's) ms"
  assumes tr: "tree (ram s) T (kernMemCurr s)" and T: "T = pgdir (pcb s p)" and room: "room 3 s p"
    and va: "unat (GetVPN2 va) < 256"
  shows "\<exists>kva s'. alloc_page_helper D va p st s = Inr (kva, s') \<and> reaches T s s' \<and>
    (\<forall>w. xlate (ram s') T w = (if vpn w = vpn va then Some (kva2pa kva) else xlate (ram s) T w)) \<and>
    (case xlate (ram s) T va of Some pa \<Rightarrow> kva = pa2kva pa
     | None \<Rightarrow> unat (kernMemCurr s) \<le> unat kva \<and> unat kva + 4096 \<le> unat (kernMemCurr s'))"
proof -
  have "room (Suc (Suc (Suc 0))) s p" using room by (simp add: numeral_3_eq_3)
  from alloc_page_helper_grow [OF tr T this va, of D st] obtain kva s' where
    *: "alloc_page_helper D va p st s = Inr (kva, s')" "reaches T s s'"
      "\<forall>w. xlate (ram s') T w = (if vpn w = vpn va then Some (kva2pa kva) else xlate (ram s) T w)" and
    c: "case xlate (ram s) T va of Some pa \<Rightarrow> kva = pa2kva pa
      | None \<Rightarrow> unat (kernMemCurr s) \<le> unat kva \<and> unat kva + 4096 \<le> unat (kernMemCurr s') \<and> kpage kva \<and> tree (ram s') T kva"
    by blast
  have "case xlate (ram s) T va of Some pa \<Rightarrow> kva = pa2kva pa
      | None \<Rightarrow> unat (kernMemCurr s) \<le> unat kva \<and> unat kva + 4096 \<le> unat (kernMemCurr s')"
    using c by (cases "xlate (ram s) T va") auto
  with * show ?thesis by blast
qed

section \<open>Two address spaces\<close>

text \<open>Two trees that share no table below the kernel's half; a tree all of whose mapped pages are allocated.\<close>

definition apart :: "(u64 \<Rightarrow> u64) \<Rightarrow> u64 \<Rightarrow> u64 \<Rightarrow> bool" where
  "apart r T U \<longleftrightarrow> (\<forall>x y t. tab_of r T x = Some t \<longrightarrow> tab_of r U y \<noteq> Some t)"

definition mapped_below :: "(u64 \<Rightarrow> u64) \<Rightarrow> u64 \<Rightarrow> u64 \<Rightarrow> bool" where
  "mapped_below r U kern \<longleftrightarrow> (\<forall>w pa. xlate r U w = Some pa \<longrightarrow> unat (pa2kva pa) + 4096 \<le> unat kern)"

lemma tab_same:
  assumes "\<And>x t j. tab_of r U x = Some t \<Longrightarrow> unat j < 512 \<Longrightarrow> r' (entry_at t j) = r (entry_at t j)"
  shows "tab_of r' U x = tab_of r U x" and "xlate r' U w = xlate r U w"
proof -
  have two: "tab_of r' U (N2 i) = tab_of r U (N2 i)" for i
    using assms [of N1 U i] by (auto simp: tab_of_2)
  have three: "tab_of r' U (N3 i j) = tab_of r U (N3 i j)" for i j
    using assms [of "N2 i" _ j] by (auto simp: tab_of_3 two split: option.split)
  show "tab_of r' U x = tab_of r U x" using two three by (cases x) simp_all
  show "xlate r' U w = xlate r U w"
    using assms [of "N3 (GetVPN2 w) (GetVPN1 w)" _ "GetVPN0 w"] by (auto simp: xlate_def three split: option.split)
qed

lemma reaches_apart:
  assumes re: "reaches T s s'" and U: "tree (ram s) U (kernMemCurr s)" and ap: "apart (ram s) T U"
  shows "tree (ram s') U (kernMemCurr s')" and "apart (ram s') T U" and "xlate (ram s') U w = xlate (ram s) U w"
proof -
  have below: "kpage t \<and> unat t + 4096 \<le> unat (kernMemCurr s)" if "tab_of (ram s) U x = Some t" for x t
    using U that by (auto simp: tree_def)
  have same: "ram s' (entry_at t j) = ram s (entry_at t j)" if "tab_of (ram s) U x = Some t" "unat j < 512" for x t j
  proof -
    have "\<forall>y. tab_of (ram s) T y \<noteq> Some t" using ap that(1) unfolding apart_def by blast
    then show ?thesis using reachesD [OF re] below [OF that(1)] that(2) by blast
  qed
  have tab: "tab_of (ram s') U x = tab_of (ram s) U x" for x by (rule tab_same(1)) (rule same)
  show "xlate (ram s') U w = xlate (ram s) U w" by (rule tab_same(2)) (rule same)
  have "tree (ram s') U (kernMemCurr s)" using U unfolding tree_def tab .
  then show "tree (ram s') U (kernMemCurr s')" by (rule tree_mono) (use re in \<open>simp add: reaches_def\<close>)
  show "apart (ram s') T U" unfolding apart_def tab
  proof (intro allI impI notI)
    fix x y t
    assume "tab_of (ram s') T x = Some t" and y: "tab_of (ram s) U y = Some t"
    then have "tab_of (ram s) T x = Some t \<or> unat (kernMemCurr s) \<le> unat t" using reachesD [OF re] by blast
    then show False using ap y below [OF y] unfolding apart_def by auto
  qed
qed

section \<open>A concrete state\<close>

text \<open>
  Process 0 with an empty page directory, process 1 with another one, both allocated from the
  beginning of the free memory.
\<close>

definition boot_mstate :: "(u32 \<Rightarrow> nat \<Rightarrow> u8) mstate" where
  "boot_mstate =
     \<lparr>lists = boot_lists,
      pcb = (\<lambda>p. (boot_pcbs p)\<lparr>pgdir := if p = Pcb 0 then FREEMEM_KERNEL else FREEMEM_KERNEL + 4096, upbound := 24, pagenum := 1\<rparr>),
      core_running = (\<lambda>c. if c = 0 then Pcb 0 else Pid0Slave),
      process_id = 17, rdtime = 0, time_elapsed = 0, time_base = 1, satp = (\<lambda>_. 0), bios_timer = (\<lambda>_. 0),
      mlocks = mlocks boot_lstate, barriers = barriers boot_lstate, conditions = conditions boot_lstate,
      mboxs = mboxs boot_lstate, kmem = kmem boot_lstate,
      ram = (\<lambda>_. 0), kernMemCurr = FREEMEM_KERNEL + 0x2000,
      page_manager = (\<lambda>i. \<lparr>pg_status = if i < 2 then UNSWAPABLE else UNUSED, read_member = 0, pg_kva = 0, uva = 0, pg_pte = 0\<rparr>),
      page_id = 2, plists = (\<lambda>n. \<lparr>nxt = Some n, prv = Some n\<rparr>),
      shm_page_table = (\<lambda>_. \<lparr>shm_valid = 0, shm_key = 0, shm_num = 0, shm_pa = 0\<rparr>),
      swap_sector = 0x3000, sdc = (\<lambda>_ _. 0), io_base = IO_ADDR_START, klog = []\<rparr>"

lemma freemem: "FREEMEM_KERNEL = 0xffffffc052003000"
  by (simp add: FREEMEM_KERNEL_def INIT_SLAVE_KERNEL_STACK_def INIT_MASTER_KERNEL_STACK_def PAGE_SIZE_def push_bit_eq_mult)

lemma tab_of_zero: "tab_of (\<lambda>_. 0) T x = (if x = N1 then Some T else None)"
  by (cases x) (simp_all add: tab_of_3 tab_of_2)

lemma boot_tree: "kpage T \<Longrightarrow> unat T + 4096 \<le> unat kern \<Longrightarrow> tree (\<lambda>_. 0) T kern"
  by (simp add: tree_def tab_of_zero)

lemma boot_mstate_ok:
  "room 3 boot_mstate (Pcb 0)" "ram boot_mstate = (\<lambda>_. 0)" "core_running boot_mstate 0 = Pcb 0"
  "pgdir (pcb boot_mstate (Pcb 0)) = FREEMEM_KERNEL" "pgdir (pcb boot_mstate (Pcb 1)) = FREEMEM_KERNEL + 4096"
  "tree (ram boot_mstate) FREEMEM_KERNEL (kernMemCurr boot_mstate)"
  "tree (ram boot_mstate) (FREEMEM_KERNEL + 4096) (kernMemCurr boot_mstate)"
  "xlate (ram boot_mstate) T va = None"
proof -
  have "dll (plists boot_mstate) (Head (PageHead (Pcb 0))) []" by (simp add: boot_mstate_def dll_def)
  then show "room 3 boot_mstate (Pcb 0)"
    unfolding room_def by (auto simp: boot_mstate_def PAGE_NUM_def freemem kpage_def KVA_OFFSET_def intro!: exI [of _ "[]"])
  show "tree (ram boot_mstate) FREEMEM_KERNEL (kernMemCurr boot_mstate)"
    "tree (ram boot_mstate) (FREEMEM_KERNEL + 4096) (kernMemCurr boot_mstate)"
    by (simp_all add: boot_mstate_def boot_tree kpage_def freemem KVA_OFFSET_def)
  show "xlate (ram boot_mstate) T va = None" by (simp add: boot_mstate_def xlate_def tab_of_zero)
qed (simp_all add: boot_mstate_def)

lemma vpn_eval: "GetVPN2 0x10000 = 0" "vpn 0x10000 \<noteq> vpn 0x11000"
  by (simp_all add: vpn_def GetVPN2_def GetVPN1_def GetVPN0_def VPN_MASK_mask flip: take_bit_eq_mask)

section \<open>Properties\<close>

text \<open>
  C5: mapping a page.  For a user address, with room for three pages and the tables of the process
  in order, \<open>alloc_page_helper\<close> succeeds, whichever tables are missing.  Afterwards the tables are in
  order again, the page of the address is mapped to the page whose kernel address is returned, and
  every other page is mapped as before.  A page that was mapped keeps its mapping; otherwise the
  page is fresh: it lies above everything allocated so far.
\<close>

theorem alloc_page_helper_maps:
  fixes s :: "('d, 's) ms"
  assumes "tree (ram s) T (kernMemCurr s)" and "T = pgdir (pcb s p)" and "room 3 s p" and "unat (GetVPN2 va) < 256"
  shows "\<exists>kva s'. alloc_page_helper D va p st s = Inr (kva, s') \<and> tree (ram s') T (kernMemCurr s') \<and>
    (\<forall>w. xlate (ram s') T w = (if vpn w = vpn va then Some (kva2pa kva) else xlate (ram s) T w)) \<and>
    (case xlate (ram s) T va of Some pa \<Rightarrow> kva = pa2kva pa
     | None \<Rightarrow> unat (kernMemCurr s) \<le> unat kva \<and> unat kva + 4096 \<le> unat (kernMemCurr s'))"
  using alloc_page_helper_step [OF assms, of D st] unfolding reaches_def by blast

theorem alloc_page_helper_maps_witness:
  "\<exists>kva s'. alloc_page_helper ram_disk 0x10000 (Pcb 0) SWAPABLE boot_mstate = Inr (kva, s') \<and>
     xlate (ram s') FREEMEM_KERNEL 0x10000 = Some (kva2pa kva) \<and> xlate (ram s') FREEMEM_KERNEL 0x11000 = None"
  using alloc_page_helper_maps [OF boot_mstate_ok(6) boot_mstate_ok(4) [symmetric] boot_mstate_ok(1), of "0x10000" ram_disk SWAPABLE]
    vpn_eval boot_mstate_ok(8)
  by auto

text \<open>
  C4: address spaces are isolated.  As long as there is room for three pages, so that nothing is swapped out: when the tables of another process share no page with those of
  process \<open>p\<close>, mapping a page for \<open>p\<close> changes no translation of the other process, its tables stay in
  order and still share no page with those of \<open>p\<close>.  A page that is new to \<open>p\<close> is mapped nowhere in
  the other process.
\<close>

theorem alloc_page_helper_isolates:
  fixes s :: "('d, 's) ms"
  assumes "tree (ram s) T (kernMemCurr s)" and "T = pgdir (pcb s p)" and "room 3 s p" and "unat (GetVPN2 va) < 256"
    and U: "tree (ram s) U (kernMemCurr s)" "apart (ram s) T U" "mapped_below (ram s) U (kernMemCurr s)"
    and run: "alloc_page_helper D va p st s = Inr (kva, s')"
  shows "tree (ram s') U (kernMemCurr s') \<and> apart (ram s') T U \<and> mapped_below (ram s') U (kernMemCurr s') \<and>
    (\<forall>w. xlate (ram s') U w = xlate (ram s) U w \<and> (xlate (ram s) T va = None \<longrightarrow> xlate (ram s') U w \<noteq> Some (kva2pa kva)))"
proof -
  have re: "reaches T s s'"
    and fresh: "case xlate (ram s) T va of Some pa \<Rightarrow> kva = pa2kva pa
      | None \<Rightarrow> unat (kernMemCurr s) \<le> unat kva \<and> unat kva + 4096 \<le> unat (kernMemCurr s')"
    using alloc_page_helper_step [OF assms(1-4), of D st] run by auto
  note U' = reaches_apart [OF re U(1,2)]
  have k: "unat (kernMemCurr s) \<le> unat (kernMemCurr s')" using re by (simp add: reaches_def)
  have "mapped_below (ram s') U (kernMemCurr s')" using U(3) k unfolding mapped_below_def U'(3) by (meson le_trans)
  moreover have "xlate (ram s) U w \<noteq> Some (kva2pa kva)" if "xlate (ram s) T va = None" for w
  proof
    assume "xlate (ram s) U w = Some (kva2pa kva)"
    then have "unat (pa2kva (kva2pa kva)) + 4096 \<le> unat (kernMemCurr s)" using U(3) unfolding mapped_below_def by blast
    then show False using fresh that by simp
  qed
  ultimately show ?thesis using U' by simp
qed

theorem alloc_page_helper_isolates_witness:
  "\<exists>kva s'. alloc_page_helper ram_disk 0x10000 (Pcb 0) SWAPABLE boot_mstate = Inr (kva, s') \<and>
     apart (ram s') (pgdir (pcb boot_mstate (Pcb 0))) (pgdir (pcb boot_mstate (Pcb 1)))"
proof -
  have va: "unat (GetVPN2 0x10000) < 256" by (simp add: vpn_eval)
  obtain kva s' where run: "alloc_page_helper ram_disk 0x10000 (Pcb 0) SWAPABLE boot_mstate = Inr (kva, s')"
    using alloc_page_helper_step [OF boot_mstate_ok(6) boot_mstate_ok(4) [symmetric] boot_mstate_ok(1) va] by blast
  have "apart (ram boot_mstate) FREEMEM_KERNEL (FREEMEM_KERNEL + 4096)"
    by (simp add: apart_def boot_mstate_ok(2) tab_of_zero)
  moreover have "mapped_below (ram boot_mstate) (FREEMEM_KERNEL + 4096) (kernMemCurr boot_mstate)"
    by (simp add: mapped_below_def boot_mstate_ok(8))
  ultimately show ?thesis
    using alloc_page_helper_isolates [OF boot_mstate_ok(6) boot_mstate_ok(4) [symmetric] boot_mstate_ok(1) va boot_mstate_ok(7) _ _ run]
      run boot_mstate_ok(4,5) by auto
qed

end
