(* ===== verification/SwapSpec.thy ===== *)
theory SwapSpec
  imports MmSpec
begin

text \<open>
  Swapping: what goes to the card with \<open>swap_to_sd\<close> comes back with \<open>swap_to_mem\<close>.  The page is
  compared byte by byte, and its entry is followed through its three forms: present, on the card
  (with the sector in place of the page number), present at a new place.
\<close>

section \<open>Bytes of words\<close>

lemma word_split7: "(a AND NOT 7) OR (a AND 7) = (a :: u64)"
  by (simp flip: bit.conj_disj_distrib)

lemma low3: "unat (a AND 7 :: u64) < 8"
proof -
  have m: "(7 :: u64) = mask 3" by (simp add: mask_eq_exp_minus_1)
  show ?thesis unfolding m by (simp add: take_bit_eq_mod unat_mod flip: take_bit_eq_mask)
qed

lemma bit_set_word_byte:
  assumes "m < 64" and "k < 8"
  shows "bit (set_word_byte w k v) m \<longleftrightarrow> (if 8 * k \<le> m \<and> m < 8 * k + 8 then bit v (m - 8 * k) else bit w m)"
proof -
  have m: "(255 :: u64) = mask 8" by (simp add: mask_eq_exp_minus_1)
  have "\<not> bit v n" if "8 \<le> n" for n using bit_imp_le_length [of v n] that by auto
  then show ?thesis using assms by (auto simp: set_word_byte_def m bit_simps)
qed

lemma set_word_byte_get:
  assumes "k < 8" and "l < 8"
  shows "ucast (drop_bit (8 * l) (set_word_byte w k v)) = (if l = k then v else (ucast (drop_bit (8 * l) w) :: u8))"
proof (rule bit_word_eqI)
  fix n
  assume n: "n < LENGTH(8)"
  have "8 * l + n < 64" using assms n by simp
  note * = bit_set_word_byte [OF this assms(1), of w v]
  have "8 * k \<le> 8 * l + n \<and> 8 * l + n < 8 * k + 8 \<longleftrightarrow> l = k" using n by auto
  then show "bit (ucast (drop_bit (8 * l) (set_word_byte w k v)) :: u8) n = bit (if l = k then v else ucast (drop_bit (8 * l) w)) n"
    using n * by (auto simp: bit_simps)
qed

lemma ram_byte_wr_byte: "ram_byte (ram (wr_byte a v s)) b = (if b = a then v else ram_byte (ram s) b)"
proof (cases "b AND NOT 7 = a AND NOT 7")
  case True
  have "b = a \<longleftrightarrow> unat (b AND 7) = unat (a AND 7)" using word_split7 [of a] word_split7 [of b] True by (metis word_unat_eq_iff)
  then show ?thesis using True by (simp add: ram_byte_def wr_byte_def wr64_def set_word_byte_get low3)
next
  case False
  then show ?thesis by (auto simp: ram_byte_def wr_byte_def wr64_def)
qed

lemma wr_bytes:
  assumes "n \<le> 4096"
  shows "ram_byte (ram (fold (\<lambda>i. wr_byte (base + of_nat i) (f i)) [0..<n] s)) b =
    (if \<exists>i<n. b = base + of_nat i then f (unat (b - base)) else ram_byte (ram s) b)"
  using assms
proof (induction n)
  case (Suc n)
  have u: "unat (of_nat n :: u64) = n" using Suc.prems by (simp add: unat_of_nat)
  show ?case using Suc u by (auto simp: ram_byte_wr_byte less_Suc_eq)
qed simp

lemma wr_bytes_outside:
  assumes "\<And>i. i < n \<Longrightarrow> a \<noteq> (base + of_nat i) AND NOT 7"
  shows "ram (fold (\<lambda>i. wr_byte (base + of_nat i) (f i)) [0..<n] s) a = ram s a"
  using assms by (induction n) (auto simp: wr_byte_def wr64_def)

lemma wr_bytes_frame: "\<exists>r. fold (\<lambda>i. wr_byte (base + of_nat i) (f i)) ks s = s\<lparr>ram := r\<rparr>"
proof (induction ks arbitrary: s)
  case Nil
  show ?case by (intro exI [of _ "ram s"]) simp
next
  case (Cons k ks)
  show ?case using Cons [of "wr_byte (base + of_nat k) (f k) s"] by (auto simp: wr_byte_def wr64_def)
qed

section \<open>A page on the card\<close>

lemma sd_puts:
  assumes "sd_ok D" and "n \<le> 8" and "i < 512"
  shows "sd_get D (fold (\<lambda>k d. sd_put D d (m + of_nat k) (f k)) [0..<n] d) x i =
    (if \<exists>k<n. x = m + of_nat k then f (unat (x - m)) i else sd_get D d x i)"
  using assms(2)
proof (induction n)
  case (Suc n)
  have u: "unat (of_nat n :: u32) = n" using Suc.prems by (simp add: unat_of_nat)
  show ?case using Suc u assms(1,3) by (auto simp: sd_ok_def less_Suc_eq)
qed simp

lemma sd_write_page_get:
  assumes "sd_ok D" and "i < 4096"
  shows "sd_get D (sdc (sd_write_page D pa m s)) (m + of_nat (i div 512)) (i mod 512) = ram_byte (ram s) (pa2kva pa + of_nat i)"
proof -
  have k: "i div 512 < 8" "unat (of_nat (i div 512) :: u32) = i div 512" using assms(2) by (simp_all add: unat_of_nat)
  then have "\<exists>k<8. m + of_nat (i div 512) = m + of_nat k" by blast
  moreover have "of_nat (512 * (i div 512) + i mod 512) = (of_nat i :: u64)" by (simp only: mult_div_mod_eq)
  ultimately show ?thesis using sd_puts [OF assms(1), of 8 "i mod 512"] k(2)
    unfolding sd_write_page_def by (simp del: of_nat_add of_nat_mult)
qed

section \<open>The entry of a page on the card\<close>

definition swapped_out :: "pte \<Rightarrow> u32 \<Rightarrow> pte" where
  "swapped_out e m = set_pfn (clean_attribute (set_attribute e PAGE_INSD) PAGE_PRESENT) (ucast m)"

definition swapped_in :: "pte \<Rightarrow> u64 \<Rightarrow> pte" where
  "swapped_in e f = set_pfn (set_attribute (clean_attribute e PAGE_INSD) PAGE_PRESENT) f"

lemma bit_attr: "e AND push_bit b 1 \<noteq> 0 \<longleftrightarrow> bit e b" if "b < 64" for e :: u64
proof
  assume "bit e b"
  then have "bit (e AND push_bit b 1) b" using that by (simp add: bit_simps)
  then show "e AND push_bit b 1 \<noteq> 0" by auto
next
  assume "e AND push_bit b 1 \<noteq> 0"
  then obtain n where "bit (e AND push_bit b 1) n" by (metis bit_eq_iff bit_0_eq bot_apply bot_bool_def)
  then show "bit e b" by (auto simp: bit_simps bit_1_iff)
qed

lemma bit_push1: "bit (push_bit b 1 :: u64) n \<longleftrightarrow> n = b \<and> n < 64"
  by (auto simp: bit_simps)

lemma attr_bit:
  "PageValid e \<longleftrightarrow> bit e 0" "inSD e \<longleftrightarrow> bit e 9" "bit PAGE_PRESENT n \<longleftrightarrow> n = 0" "bit PAGE_INSD n \<longleftrightarrow> n = 9"
  by (simp_all only: PageValid_def inSD_def PAGE_PRESENT_def PAGE_INSD_def bit_attr bit_push1) auto

lemma swap_attr_pa: "get_pa (clean_attribute (set_attribute e PAGE_INSD) PAGE_PRESENT) = get_pa e"
  by (rule bit_word_eqI)
    (auto simp: bit_get_pa attr_bit clean_attribute_def set_attribute_def bit_simps)

lemma swapped_out_sector: "ucast (get_pfn (swapped_out e m)) = m"
proof -
  have "pfn_ok (ucast m)" by (simp add: pfn_ok_def bit_eq_iff bit_simps) (auto dest: bit_imp_le_length)
  moreover have "ucast (ucast m :: u64) = m" by (rule bit_word_eqI) (simp add: bit_simps)
  ultimately show ?thesis by (simp add: swapped_out_def get_pfn_set_pfn)
qed

lemma swapped_out_state:
  assumes "PageValid e"
  shows "inSD (swapped_out e m)" and "\<not> PageValid (swapped_out e m)"
  using assms unfolding swapped_out_def
  by (auto simp: attr_bit bit_set_pfn clean_attribute_def set_attribute_def bit_simps)

lemma swap_entry_roundtrip:
  assumes "PageValid e" and "\<not> inSD e"
  shows "swapped_in (swapped_out e m) f = set_pfn e f"
  using assms unfolding swapped_in_def swapped_out_def
  by (intro bit_word_eqI) (auto simp: attr_bit bit_set_pfn clean_attribute_def set_attribute_def bit_simps)

section \<open>Pages as bytes\<close>

lemma byte_word:
  assumes "kpage t" and "i < 4096"
  shows "(t + of_nat i) AND NOT 7 = entry_at t (of_nat (i div 8))"
proof -
  have m: "(7 :: u64) = mask 3" by (simp add: mask_eq_exp_minus_1)
  have "x AND NOT 7 = push_bit 3 (drop_bit 3 x)" for x :: u64
    unfolding m by (rule bit_word_eqI) (auto simp: bit_simps)
  then have x: "(t + of_nat i) AND NOT 7 = 8 * ((t + of_nat i) div 8)"
    by (simp add: push_bit_eq_mult drop_bit_eq_div)
  obtain q where q: "unat t = 8 * q" using assms(1) unfolding kpage_def by (auto elim!: dvdE)
  have u: "unat (t + of_nat i) = unat t + i"
    using kpage_bound [OF assms(1)] assms(2) by (simp add: unat_plus_if' unat_of_nat)
  have "unat (8 * ((t + of_nat i) div 8)) = 8 * (unat (t + of_nat i) div 8)"
    using u kpage_bound [OF assms(1)] assms(2) by (simp add: unat_word_ariths unat_div)
  also have "\<dots> = unat t + 8 * (i div 8)" using q by (simp add: u)
  finally have "unat ((t + of_nat i) AND NOT 7) = unat (entry_at t (of_nat (i div 8)))"
    unfolding x using unat_entry [OF assms(1), of "of_nat (i div 8)"] assms(2) by (simp add: unat_of_nat)
  then show ?thesis by (simp add: word_unat_eq_iff)
qed

lemma ram_byte_page:
  assumes "kpage t" and "i < 4096" and "r (entry_at t (of_nat (i div 8))) = r' (entry_at t (of_nat (i div 8)))"
  shows "ram_byte r (t + of_nat i) = ram_byte r' (t + of_nat i)"
  unfolding ram_byte_def byte_word [OF assms(1,2)] assms(3) ..

lemma page_in_bytes:
  assumes "kpage t"
  shows "i < 4096 \<Longrightarrow> ram_byte (ram (sd_read_page D (kva2pa t) m s)) (t + of_nat i) = sd_get D (sdc s) (m + of_nat (i div 512)) (i mod 512)"
    and "kpage u \<Longrightarrow> u \<noteq> t \<Longrightarrow> unat j < 512 \<Longrightarrow> ram (sd_read_page D (kva2pa t) m s) (entry_at u j) = ram s (entry_at u j)"
    and "\<exists>r. sd_read_page D (kva2pa t) m s = s\<lparr>ram := r\<rparr>"
proof -
  show "\<exists>r. sd_read_page D (kva2pa t) m s = s\<lparr>ram := r\<rparr>" unfolding sd_read_page_def by (rule wr_bytes_frame)
  {
    assume i: "i < 4096"
    then have "\<exists>k<4096. t + of_nat i = t + of_nat k" "unat (of_nat i :: u64) = i" by (auto simp: unat_of_nat)
    then show "ram_byte (ram (sd_read_page D (kva2pa t) m s)) (t + of_nat i) = sd_get D (sdc s) (m + of_nat (i div 512)) (i mod 512)"
      using i by (simp add: sd_read_page_def wr_bytes)
  }
  assume u: "kpage u" "u \<noteq> t" "unat j < 512"
  have "entry_at u j \<noteq> (t + of_nat k) AND NOT 7" if "k < 4096" for k
    unfolding byte_word [OF assms that] using entry_eq_iff [OF u(1) assms u(3), of "of_nat (k div 8)"] u(2) that
    by (simp add: unat_of_nat)
  then show "ram (sd_read_page D (kva2pa t) m s) (entry_at u j) = ram s (entry_at u j)"
    unfolding sd_read_page_def by (simp add: wr_bytes_outside)
qed

section \<open>Finding the record\<close>

lemma find_record_dll:
  assumes "dll (plists s) (Head head) (ys @ map Elem (as @ i # bs))" and "\<forall>j\<in>set as. \<not> P (page_manager s j)"
    and "P (page_manager s i)" and "length as < fuel"
  shows "find_record fuel P head (Some (hd (map Elem (as @ [i])))) tmp s = Inr i"
  using assms
proof (induction as arbitrary: fuel ys tmp)
  case Nil
  then show ?case by (cases fuel) (simp_all add: list_entry_def)
next
  case (Cons a as)
  obtain n where fuel: "fuel = Suc n" "length as < n" using Cons.prems(4) by (cases fuel) simp_all
  have "nxt (plists s (Elem a)) = Some (hd (map Elem (as @ i # bs) @ [Head head]))"
    using dll_succ [of "plists s" "Head head" ys "Elem a" "map Elem (as @ i # bs)"] Cons.prems(1) by simp
  also have "hd (map Elem (as @ i # bs) @ [Head head]) = hd (map Elem (as @ [i]))" by (cases as) simp_all
  finally have nxt: "nxt (plists s (Elem a)) = Some (hd (map Elem (as @ [i])))" .
  show ?case using Cons.IH [of "ys @ [Elem a]" n "Some a"] Cons.prems fuel nxt by (simp add: list_entry_def)
qed

lemma find_page_record_first:
  assumes "dll (plists s) (Head (PageHead p)) (map Elem (as @ i # bs))" and "\<forall>j\<in>set as. \<not> P (page_manager s j)"
    and "P (page_manager s i)" and "length as < PAGE_FUEL"
  shows "find_page_record P p s = Inr i"
proof -
  have "nxt (plists s (Head (PageHead p))) = Some (hd (map Elem (as @ i # bs) @ [Head (PageHead p)]))"
    by (rule dll_front [OF assms(1)])
  also have "hd (map Elem (as @ i # bs) @ [Head (PageHead p)]) = hd (map Elem (as @ [i]))" by (cases as) simp_all
  finally show ?thesis unfolding find_page_record_def using find_record_dll [of s "PageHead p" "[]"] assms by simp
qed

section \<open>Swapping out and in\<close>

lemma get_pte_valid: "get_pte page p s = Inr pte \<Longrightarrow> PageValid (ram s pte)"
  by (auto simp: get_pte_def Let_def res_eq_Inr)

text \<open>
  \<open>resident s p page pte t i\<close>: record \<open>page\<close> of process \<open>p\<close> is a page in memory whose entry is entry \<open>i\<close>
  of the table \<open>t\<close>, and no other record of the process names that entry.
\<close>

definition resident :: "('d, 's) ms \<Rightarrow> pcb_ref \<Rightarrow> nat \<Rightarrow> u64 \<Rightarrow> u64 \<Rightarrow> bool" where
  "resident s p page t i \<longleftrightarrow> get_pte page p s = Inr (entry_at t i) \<and> kpage t \<and> unat i < 512 \<and>
     \<not> inSD (ram s (entry_at t i)) \<and> kpage (pg_kva (page_manager s page)) \<and> t \<noteq> pg_kva (page_manager s page) \<and>
     get_pa (ram s (entry_at t i)) = kva2pa (pg_kva (page_manager s page)) \<and>
     (\<exists>as bs. dll (plists s) (Head (PageHead p)) (map Elem (as @ page # bs)) \<and> page \<notin> set as \<and> length as < PAGE_FUEL \<and>
        (\<forall>j\<in>set as. pg_pte (page_manager s j) \<noteq> entry_at t i))"

lemma swap_out_ok:
  fixes s :: "('d, 's) ms"
  assumes ok: "sd_ok D" and res: "resident s p page t i"
  defines "kva \<equiv> pg_kva (page_manager s page)" and "e \<equiv> ram s (entry_at t i)"
  shows "\<exists>s1. swap_to_sd D page p s = Inr (kva, s1) \<and> ram s1 (entry_at t i) = swapped_out e (swap_sector s) \<and>
    plists s1 = plists s \<and> core_running s1 = core_running s \<and>
    page_manager s1 = (page_manager s)(page := (page_manager s page)\<lparr>pg_pte := entry_at t i, pg_status := NOT_IN_MEM, pg_kva := 0\<rparr>) \<and>
    (\<forall>k<4096. sd_get D (sdc s1) (swap_sector s + of_nat (k div 512)) (k mod 512) = ram_byte (ram s) (kva + of_nat k))"
proof -
  let ?a = "entry_at t i"
  let ?e1 = "clean_attribute (set_attribute e PAGE_INSD) PAGE_PRESENT"
  have r: "get_pte page p s = Inr ?a" "kpage t" "unat i < 512" "kpage kva" "t \<noteq> kva" "get_pa e = kva2pa kva"
    using res by (simp_all add: resident_def kva_def e_def)
  have gp: "get_pte page p (s\<lparr>swap_sector := m\<rparr>) = get_pte page p s" for m by (simp add: get_pte_def)
  define s0 where "s0 = s\<lparr>swap_sector := swap_sector s + 8, ram := (ram s)(?a := ?e1)\<rparr>"
  define s2 where "s2 = sd_write_page D (kva2pa kva) (swap_sector s) s0"
  have bytes: "sd_get D (sdc s2) (swap_sector s + of_nat (k div 512)) (k mod 512) = ram_byte (ram s) (kva + of_nat k)"
    if k: "k < 4096" for k
  proof -
    have "entry_at kva (of_nat (k div 8)) \<noteq> ?a"
      using entry_eq_iff [OF r(4,2) _ r(3), of "of_nat (k div 8)"] r(5) k by (auto simp: unat_of_nat)
    then have "ram_byte (ram s0) (kva + of_nat k) = ram_byte (ram s) (kva + of_nat k)"
      by (intro ram_byte_page [OF r(4) k]) (simp add: s0_def)
    then show ?thesis unfolding s2_def sd_write_page_get [OF ok k] by simp
  qed
  obtain r3 where r3: "clear_pgdir kva s2 = s2\<lparr>ram := r3\<rparr>" using clear_pgdir_frame by blast
  have "r3 ?a = ram s2 ?a" using clear_pgdir_ram(2) [OF r(4,2,5,3), of s2] by (simp add: r3)
  moreover have e2: "ram s2 ?a = ?e1" by (simp add: s2_def s0_def sd_write_page_def)
  ultimately have e3: "r3 ?a = ?e1" by simp
  let ?s1 = "upd_page page (\<lambda>p. p\<lparr>pg_pte := ?a, pg_status := NOT_IN_MEM, pg_kva := 0\<rparr>)
    (s2\<lparr>ram := r3(?a := swapped_out e (swap_sector s))\<rparr>)"
  have "swap_to_sd D page p s = Inr (kva, ?s1)"
    using r3 e2 e3 r(1,6) swap_attr_pa [of e]
    by (simp add: swap_to_sd_def get_sector_def gp Let_def upd_pte_def wr64_def swapped_out_def
        s0_def [symmetric] e_def [symmetric] kva_def [symmetric] s2_def [symmetric])
  then show ?thesis using bytes
    by (intro exI [of _ ?s1]) (simp add: upd_page_def s2_def s0_def sd_write_page_def)
qed

lemma swap_in_ok:
  fixes s :: "('d, 's) ms"
  assumes rec: "find_page_record (\<lambda>r. pg_pte r = entry_at t i) (core_running s cpu) s = Inr page"
    and st: "pg_status (page_manager s page) = NOT_IN_MEM" "pg_kva (page_manager s page) = 0"
    and t: "kpage t" "unat i < 512" "t \<noteq> kva" "kpage kva" and e: "ram s (entry_at t i) = swapped_out e m"
  shows "\<exists>s2. swap_to_mem D cpu (entry_at t i) va kva s = Inr s2 \<and>
    ram s2 (entry_at t i) = swapped_in (swapped_out e m) (GetPFN (kva2pa kva)) \<and>
    pg_status (page_manager s2 page) = SWAPABLE \<and> pg_kva (page_manager s2 page) = kva \<and> uva (page_manager s2 page) = va \<and>
    (\<forall>k<4096. ram_byte (ram s2) (kva + of_nat k) = sd_get D (sdc s) (m + of_nat (k div 512)) (k mod 512))"
proof -
  let ?a = "entry_at t i" and ?E = "swapped_in (swapped_out e m) (GetPFN (kva2pa kva))"
  define s1 where "s1 = upd_page page (pg_kva_update (\<lambda>_. kva)) (upd_page page (\<lambda>r. r\<lparr>pg_status := SWAPABLE, uva := va\<rparr>) s)"
  obtain r where r: "sd_read_page D (kva2pa kva) m s1 = s1\<lparr>ram := r\<rparr>" using page_in_bytes(3) [OF t(4)] by blast
  have ra: "r ?a = swapped_out e m"
    using page_in_bytes(2) [OF t(4,1) t(3) t(2), of D m s1] e by (simp add: r) (simp add: s1_def upd_page_def)
  let ?s2 = "s1\<lparr>ram := r(?a := ?E)\<rparr>"
  have "ram_byte (ram ?s2) (kva + of_nat k) = sd_get D (sdc s) (m + of_nat (k div 512)) (k mod 512)" if k: "k < 4096" for k
  proof -
    have "entry_at kva (of_nat (k div 8)) \<noteq> ?a"
      using entry_eq_iff [OF t(4,1) _ t(2), of "of_nat (k div 8)"] t(3) k by (auto simp: unat_of_nat)
    then have "ram_byte (ram ?s2) (kva + of_nat k) = ram_byte r (kva + of_nat k)"
      by (intro ram_byte_page [OF t(4) k]) simp
    then show ?thesis using page_in_bytes(1) [OF t(4) k, of D m s1] by (simp add: r) (simp add: s1_def upd_page_def)
  qed
  moreover have "pg_kva (page_manager (upd_page page (\<lambda>r. r\<lparr>pg_status := SWAPABLE, uva := va\<rparr>) s) page) = 0"
    using st(2) by (simp add: upd_page_def)
  then have "swap_to_mem D cpu ?a va kva s = Inr ?s2"
    using rec st(1) ra r
    by (simp add: swap_to_mem_def e swapped_out_sector Let_def s1_def [symmetric] upd_pte_def wr64_def swapped_in_def GetPFN_def)
  ultimately show ?thesis by (intro exI [of _ ?s2]) (simp add: s1_def upd_page_def)
qed

section \<open>A concrete state\<close>

text \<open>Process 0 with one page mapped at \<open>0x10000\<close>.\<close>

definition free_page :: "u64 \<Rightarrow> u64" where
  "free_page n = FREEMEM_KERNEL + 4096 * n"

definition swap_state :: "(u32 \<Rightarrow> nat \<Rightarrow> u8) mstate" where
  "swap_state = boot_mstate
     \<lparr>ram := (\<lambda>_. 0)(entry_at (free_page 0) 0 := new_pte 0 (kva2pa (free_page 2)) (PAGE_PRESENT OR PAGE_USER),
        entry_at (free_page 2) 0 := new_pte 0 (kva2pa (free_page 3)) (PAGE_PRESENT OR PAGE_USER),
        entry_at (free_page 3) 16 := new_pte 0 (kva2pa (free_page 4)) LEAF_BITS, free_page 4 := 0x1234),
      page_manager := (\<lambda>i. \<lparr>pg_status = SWAPABLE, read_member = 0, pg_kva = free_page 4, uva = 0x10000, pg_pte = 0\<rparr>),
      plists := (\<lambda>n. \<lparr>nxt = Some (if n = Elem 2 then Head (PageHead (Pcb 0)) else Elem 2),
                      prv = Some (if n = Elem 2 then Head (PageHead (Pcb 0)) else Elem 2)\<rparr>)\<rparr>"

lemma free_pages: "kpage (free_page 0)" "kpage (free_page 2)" "kpage (free_page 3)" "kpage (free_page 4)" "kpage (free_page 5)"
  by (simp_all add: kpage_def free_page_def freemem KVA_OFFSET_def)

lemma swap_addrs:
  "entry_at (free_page 0) 0 = 0xffffffc052003000" "entry_at (free_page 2) 0 = 0xffffffc052005000"
  "entry_at (free_page 3) 16 = 0xffffffc052006080" "free_page 4 = 0xffffffc052007000"
  by (simp_all add: entry_at_def free_page_def freemem)

lemma swap_vpns: "GetVPN2 0x10000 = 0" "GetVPN1 0x10000 = 0" "GetVPN0 0x10000 = 16"
  by (simp_all add: GetVPN2_def GetVPN1_def GetVPN0_def VPN_MASK_mask flip: take_bit_eq_mask)

lemma swap_ram:
  "ram swap_state (entry_at (free_page 0) 0) = new_pte 0 (kva2pa (free_page 2)) (PAGE_PRESENT OR PAGE_USER)"
  "ram swap_state (entry_at (free_page 2) 0) = new_pte 0 (kva2pa (free_page 3)) (PAGE_PRESENT OR PAGE_USER)"
  "ram swap_state (entry_at (free_page 3) 16) = new_pte 0 (kva2pa (free_page 4)) LEAF_BITS"
  unfolding swap_state_def by (simp_all add: swap_addrs)

lemma swap_state_resident: "resident swap_state (Pcb 0) 2 (free_page 3) 16"
proof -
  note nodes = new_pte_ok [OF free_pages(2) table_bits(1,2)] new_pte_ok [OF free_pages(3) table_bits(1,2)]
    new_pte_ok [OF free_pages(4) table_bits(3,4)]
  have u: "uva (page_manager swap_state 2) = 0x10000" "pgdir (pcb swap_state (Pcb 0)) = free_page 0"
    "pg_kva (page_manager swap_state 2) = free_page 4"
    by (simp_all add: swap_state_def boot_mstate_def) (simp add: free_page_def)
  have g: "get_pte 2 (Pcb 0) swap_state = Inr (entry_at (free_page 3) 16)"
    by (simp add: get_pte_def Let_def u swap_vpns swap_ram nodes)
  have "dll (plists swap_state) (Head (PageHead (Pcb 0))) (map Elem ([] @ 2 # []))"
    by (simp add: swap_state_def dll_def)
  moreover have "\<not> inSD (new_pte 0 (kva2pa (free_page 4)) LEAF_BITS)"
    by (simp add: new_pte_def set_attribute_def attr_bit bit_or_iff bit_set_pfn) (simp add: LEAF_BITS_def page_bits)
  ultimately show ?thesis unfolding resident_def u(3) swap_ram g
    using free_pages nodes by (auto simp: free_page_def freemem PAGE_FUEL_def intro!: exI [of _ "[]"])
qed

section \<open>Properties\<close>

text \<open>
  C6: a page survives being swapped.  Let a page of the running process be in memory, and its entry
  in a table on neither of the two pages involved.  \<open>swap_to_sd\<close> succeeds and leaves an entry that is
  marked as on the card and not present; \<open>swap_to_mem\<close> to any page then succeeds, every byte of that
  page is what the old page held, and the entry is the old one with the new page's number.
\<close>

theorem swap_roundtrip:
  fixes s :: "('d, 's) ms"
  assumes "sd_ok D" and res: "resident s (core_running s cpu) page t i" and kva: "kpage kva" "t \<noteq> kva"
  shows "\<exists>s1 s2. swap_to_sd D page (core_running s cpu) s = Inr (pg_kva (page_manager s page), s1) \<and>
    inSD (ram s1 (entry_at t i)) \<and> \<not> PageValid (ram s1 (entry_at t i)) \<and>
    swap_to_mem D cpu (entry_at t i) va kva s1 = Inr s2 \<and>
    (\<forall>k<4096. ram_byte (ram s2) (kva + of_nat k) = ram_byte (ram s) (pg_kva (page_manager s page) + of_nat k)) \<and>
    ram s2 (entry_at t i) = set_pfn (ram s (entry_at t i)) (GetPFN (kva2pa kva)) \<and>
    pg_status (page_manager s2 page) = SWAPABLE \<and> pg_kva (page_manager s2 page) = kva"
proof -
  let ?a = "entry_at t i"
  have e: "PageValid (ram s ?a)" "\<not> inSD (ram s ?a)" and t: "kpage t" "unat i < 512"
    using res get_pte_valid by (auto simp: resident_def)
  obtain s1 where s1: "swap_to_sd D page (core_running s cpu) s = Inr (pg_kva (page_manager s page), s1)"
      "ram s1 ?a = swapped_out (ram s ?a) (swap_sector s)" "plists s1 = plists s" "core_running s1 = core_running s"
      "page_manager s1 = (page_manager s)(page := (page_manager s page)\<lparr>pg_pte := ?a, pg_status := NOT_IN_MEM, pg_kva := 0\<rparr>)"
      "\<forall>k<4096. sd_get D (sdc s1) (swap_sector s + of_nat (k div 512)) (k mod 512) =
         ram_byte (ram s) (pg_kva (page_manager s page) + of_nat k)"
    using swap_out_ok [OF assms(1) res] by blast
  obtain as bs where l: "dll (plists s) (Head (PageHead (core_running s cpu))) (map Elem (as @ page # bs))" "page \<notin> set as"
      "length as < PAGE_FUEL" "\<forall>j\<in>set as. pg_pte (page_manager s j) \<noteq> ?a"
    using res by (auto simp: resident_def)
  have "find_page_record (\<lambda>r. pg_pte r = ?a) (core_running s1 cpu) s1 = Inr page"
    by (rule find_page_record_first [OF _ _ _ l(3)]) (use l s1(3-5) in auto)
  then obtain s2 where "swap_to_mem D cpu ?a va kva s1 = Inr s2"
      "ram s2 ?a = swapped_in (swapped_out (ram s ?a) (swap_sector s)) (GetPFN (kva2pa kva))"
      "pg_status (page_manager s2 page) = SWAPABLE" "pg_kva (page_manager s2 page) = kva"
      "\<forall>k<4096. ram_byte (ram s2) (kva + of_nat k) = sd_get D (sdc s1) (swap_sector s + of_nat (k div 512)) (k mod 512)"
    using swap_in_ok [of t i s1 cpu page kva "ram s ?a" "swap_sector s" D va] s1(2,5) t kva by auto
  then show ?thesis using s1(1,2,6) swap_entry_roundtrip [OF e] swapped_out_state [OF e(1)]
    by (intro exI [of _ s1] exI [of _ s2]) simp
qed

theorem swap_roundtrip_witness:
  "\<exists>s1 s2. swap_to_sd ram_disk 2 (Pcb 0) swap_state = Inr (free_page 4, s1) \<and>
     swap_to_mem ram_disk 0 (entry_at (free_page 3) 16) 0x10000 (free_page 5) s1 = Inr s2 \<and>
     ram_byte (ram s2) (free_page 5) = 0x34"
proof -
  have c: "core_running swap_state 0 = Pcb 0" "pg_kva (page_manager swap_state 2) = free_page 4"
    by (simp_all add: swap_state_def boot_mstate_def)
  have b: "ram_byte (ram swap_state) (free_page 4) = 0x34"
    unfolding swap_state_def by (simp add: ram_byte_def swap_addrs)
  have "free_page 3 \<noteq> free_page 5" by (simp add: free_page_def freemem)
  then obtain s1 s2 where *: "swap_to_sd ram_disk 2 (Pcb 0) swap_state = Inr (free_page 4, s1)"
      "swap_to_mem ram_disk 0 (entry_at (free_page 3) 16) 0x10000 (free_page 5) s1 = Inr s2"
      "\<forall>k<4096. ram_byte (ram s2) (free_page 5 + of_nat k) = ram_byte (ram swap_state) (free_page 4 + of_nat k)"
    using swap_roundtrip [OF ram_disk_ok, of swap_state 0 2 "free_page 3" 16 "free_page 5" "0x10000"]
      swap_state_resident free_pages(5) c by auto
  from *(3) [rule_format, of 0] b * show ?thesis by auto
qed

end
