(* ===== verification/Irq.thy ===== *)
theory Irq
  imports Mm
begin

text \<open>
  Exceptions: \<open>kernel/irq/irq.c\<close>.  The handler tables, the dispatch by \<open>scause\<close>, and the handlers of
  page faults, which allocate pages on demand, bring pages back from the card and resolve writes to
  shared pages.  \<open>handle_irq_timer\<close> is in the theory of the scheduler.
\<close>

section \<open>Dispatch\<close>

datatype handler_t =
    HandleOther | HandleSyscall | HandleInstPagefault | HandleLoadPageFault | HandleStorePageFault | HandleIrqTimer

definition IRQC_COUNT :: nat where "IRQC_COUNT = 12"
definition EXCC_COUNT :: nat where "EXCC_COUNT = 16"
definition EXCC_SYSCALL :: nat where "EXCC_SYSCALL = 8"
definition EXCC_INST_PAGE_FAULT :: nat where "EXCC_INST_PAGE_FAULT = 12"
definition EXCC_LOAD_PAGE_FAULT :: nat where "EXCC_LOAD_PAGE_FAULT = 13"
definition EXCC_STORE_PAGE_FAULT :: nat where "EXCC_STORE_PAGE_FAULT = 15"

text \<open>The two tables after \<open>init_exception\<close>.\<close>

definition init_exception :: "(nat \<Rightarrow> handler_t) \<times> (nat \<Rightarrow> handler_t) \<Rightarrow> (nat \<Rightarrow> handler_t) \<times> (nat \<Rightarrow> handler_t)" where
  "init_exception tabs =
     (case tabs of (exc_table, irq_table) \<Rightarrow>
        (let exc_table = fold (\<lambda>i t. t(i := HandleOther)) [0..<EXCC_COUNT] exc_table;
             exc_table = exc_table(EXCC_SYSCALL := HandleSyscall);
             exc_table = exc_table(EXCC_INST_PAGE_FAULT := HandleInstPagefault);
             exc_table = exc_table(EXCC_LOAD_PAGE_FAULT := HandleLoadPageFault);
             exc_table = exc_table(EXCC_STORE_PAGE_FAULT := HandleStorePageFault);
             irq_table = fold (\<lambda>i t. t(i := HandleIrqTimer)) [0..<IRQC_COUNT] irq_table
         in (exc_table, irq_table)))"

text \<open>\<open>interrupt_helper\<close> up to the call: which handler; a code outside the table is a stray call.\<close>

definition interrupt_helper :: "(nat \<Rightarrow> handler_t) \<times> (nat \<Rightarrow> handler_t) \<Rightarrow> u64 \<Rightarrow> handler_t res" where
  "interrupt_helper tabs scause =
     (let exc_code = unat (scause AND NOT (push_bit 63 1))
      in if drop_bit 63 scause \<noteq> 0 then guardE (exc_code < IRQC_COUNT) (Inr (snd tabs exc_code))
         else guardE (exc_code < EXCC_COUNT) (Inr (fst tabs exc_code)))"

section \<open>Page faults\<close>

text \<open>\<open>handle_other\<close> prints the registers and fails an assertion.\<close>

definition handle_other :: "('d, 's) ms \<Rightarrow> ('d, 's) ms res" where
  "handle_other s = Inl Panic"

text \<open>
  The common first part of the two data page faults.  When the page is on the card and the process
  has not used up its pages, the variable \<open>kva\<close> is used without a value (\<open>Fault\<close>).
\<close>

definition page_in :: "'d sdcard \<Rightarrow> nat \<Rightarrow> u64 \<Rightarrow> u64 \<Rightarrow> ('d, 's) ms \<Rightarrow> ('d, 's) ms res" where
  "page_in D cpu pte stval s =
     (let p = core_running s cpu
      in if pagenum (pcb s p) = upbound (pcb s p)
         then bindE (do_swap D p s) (\<lambda>(kva, s). swap_to_mem D cpu pte stval kva s)
         else Inl Fault)"

definition handle_load_page_fault :: "'d sdcard \<Rightarrow> nat \<Rightarrow> u64 \<Rightarrow> ('d, 's) ms \<Rightarrow> ('d, 's) ms res" where
  "handle_load_page_fault D cpu stval s =
     (let p = core_running s cpu
      in case pte_checker stval (pgdir (pcb s p)) s of
           None \<Rightarrow> bindE (alloc_page_helper D stval p SWAPABLE s) (\<lambda>(_, s). Inr s)
         | Some pte \<Rightarrow>
             if inSD (ram s pte) then page_in D cpu pte stval s
             else assertE (get_attribute (ram s pte) PAGE_ACCESSED = 0)
                    (Inr (upd_pte pte (\<lambda>e. set_attribute e PAGE_ACCESSED) s)))"

text \<open>
  A write to a shared page: the last user gets the page back, any other a new page.  \<open>memcpy\<close> copies
  from the record's page to the page at \<open>kva\<close>, which is the same page.
\<close>

definition copy_on_write :: "'d sdcard \<Rightarrow> nat \<Rightarrow> u64 \<Rightarrow> u64 \<Rightarrow> ('d, 's) ms \<Rightarrow> ('d, 's) ms res" where
  "copy_on_write D cpu pte stval s =
     (let p = core_running s cpu; kva = pa2kva (get_pa (ram s pte))
      in bindE (find_page_record (\<lambda>r. pg_kva r = kva) p s) (\<lambda>tmp.
         assertE (pg_status (page_manager s tmp) = COPY_ON_WRITE)
           (if read_member (page_manager s tmp) = 1
            then let s = upd_page tmp (read_member_update (\<lambda>_. 0)) s;
                     s = upd_pte pte (\<lambda>e. set_attribute e PAGE_WRITE) s
                 in Inr (upd_page tmp (pg_status_update (\<lambda>_. SWAPABLE)) s)
            else let s = upd_page tmp (read_member_update (\<lambda>n. n - 1)) s;
                     s = upd_pte pte (\<lambda>e. clean_attribute e PAGE_PRESENT) s
                 in bindE (allocPagetable D p SWAPABLE s) (\<lambda>(new, s).
                    bindE (build_page_helper D stval p (kva2pa (pg_kva (page_manager s new))) s) (\<lambda>s.
                      Inr (share_pgtable kva (pg_kva (page_manager s tmp)) s))))))"

definition handle_store_page_fault :: "'d sdcard \<Rightarrow> nat \<Rightarrow> u64 \<Rightarrow> ('d, 's) ms \<Rightarrow> ('d, 's) ms res" where
  "handle_store_page_fault D cpu stval s =
     (let p = core_running s cpu
      in case pte_checker stval (pgdir (pcb s p)) s of
           None \<Rightarrow> bindE (alloc_page_helper D stval p SWAPABLE s) (\<lambda>(_, s). Inr s)
         | Some pte \<Rightarrow>
             if inSD (ram s pte) then page_in D cpu pte stval s
             else if isWrite (ram s pte)
                  then assertE (get_attribute (ram s pte) PAGE_ACCESSED = 0)
                         (Inr (upd_pte pte (\<lambda>e. set_attribute e (PAGE_ACCESSED OR PAGE_DIRTY)) s))
                  else copy_on_write D cpu pte stval s)"

definition handle_inst_pagefault :: "nat \<Rightarrow> u64 \<Rightarrow> ('d, 's) ms \<Rightarrow> ('d, 's) ms res" where
  "handle_inst_pagefault cpu stval s =
     (case pte_checker stval (pgdir (pcb s (core_running s cpu))) s of
        Some pte \<Rightarrow> Inr (upd_pte pte (\<lambda>e. set_attribute e (PAGE_ACCESSED OR PAGE_DIRTY)) s)
      | None \<Rightarrow> handle_other s)"

end
