(* ===== verification/IrqSpec.thy ===== *)
theory IrqSpec
  imports Irq MmSpec
begin

text \<open>
  What the page fault handlers promise, on top of the page tables: a fault on an unmapped page maps
  a fresh page as long as nothing has to be swapped out, and the walk of the tables in software (\<open>pte_checker\<close>, \<open>do_getpa\<close>) agrees with the
  translation that the tables represent.
\<close>

section \<open>The walk in software\<close>

text \<open>The entry of a page that the tables translate is found, and it holds the translation.\<close>

lemma pte_checker_xlate:
  assumes "xlate (ram s) T va = Some pa"
  shows "\<exists>a. pte_checker va T s = Some a \<and> get_pa (ram s a) = pa \<and> PageValid (ram s a)"
  using assms by (auto simp: xlate_def pte_checker_def tab_of_3 tab_of_2 Let_def split: option.splits if_splits)

lemma pte_checker_None:
  assumes "pte_checker va T s = None"
  shows "xlate (ram s) T va = None"
proof (rule ccontr)
  assume "xlate (ram s) T va \<noteq> None"
  then show False using pte_checker_xlate assms by fastforce
qed

lemma do_getpa_xlate:
  assumes "xlate (ram s) (pgdir (pcb s (core_running s cpu))) va = Some pa"
  shows "do_getpa cpu va s = Inr (pa OR (va AND 0xfff))"
  using pte_checker_xlate [OF assms] by (auto simp: do_getpa_def)

section \<open>Properties\<close>

text \<open>
  C7: demand paging without swapping.  While the process is at least three pages below its limit and three
  page records are free, so that neither a table nor the page itself makes \<open>allocPagetable\<close> swap another page out, a load or a store
  to a user page that has no entry and is not on the card ends with the page mapped to a fresh page:
  \<open>do_getpa\<close> then gives that page plus the offset, and no other page of the process is affected.
\<close>

theorem page_fault_maps:
  fixes s :: "('d, 's) ms"
  assumes tr: "tree (ram s) T (kernMemCurr s)" and T: "T = pgdir (pcb s (core_running s cpu))"
    and room: "room 3 s (core_running s cpu)" and va: "unat (GetVPN2 stval) < 256"
    and none: "pte_checker stval T s = None"
  shows "\<exists>kva s'. handle_load_page_fault D cpu stval s = Inr s' \<and> handle_store_page_fault D cpu stval s = Inr s' \<and>
    unat (kernMemCurr s) \<le> unat kva \<and> tree (ram s') T (kernMemCurr s') \<and>
    do_getpa cpu stval s' = Inr (kva2pa kva OR (stval AND 0xfff)) \<and>
    (\<forall>w. vpn w \<noteq> vpn stval \<longrightarrow> xlate (ram s') T w = xlate (ram s) T w)"
proof -
  obtain kva s' where a: "alloc_page_helper D stval (core_running s cpu) SWAPABLE s = Inr (kva, s')" "reaches T s s'"
      "\<forall>w. xlate (ram s') T w = (if vpn w = vpn stval then Some (kva2pa kva) else xlate (ram s) T w)"
      "unat (kernMemCurr s) \<le> unat kva"
    using alloc_page_helper_step [OF tr T room va, of D SWAPABLE] pte_checker_None [OF none] by auto
  have "same_proc s s'" "tree (ram s') T (kernMemCurr s')" using a(2) by (simp_all add: reaches_def)
  then have "pgdir (pcb s' (core_running s' cpu)) = T" using same_proc_fields(1) by (metis same_proc_def T)
  then have "do_getpa cpu stval s' = Inr (kva2pa kva OR (stval AND 0xfff))" using a(3) by (intro do_getpa_xlate) simp
  moreover have "handle_load_page_fault D cpu stval s = Inr s'" "handle_store_page_fault D cpu stval s = Inr s'"
    using none a(1) by (simp_all add: handle_load_page_fault_def handle_store_page_fault_def T Let_def)
  ultimately show ?thesis using a(3,4) \<open>tree (ram s') T (kernMemCurr s')\<close> by auto
qed

theorem page_fault_maps_witness:
  "\<exists>kva s'. handle_store_page_fault ram_disk 0 0x10000 boot_mstate = Inr s' \<and>
     do_getpa 0 0x10000 s' = Inr (kva2pa kva OR (0x10000 AND 0xfff))"
proof -
  let ?T = "pgdir (pcb boot_mstate (core_running boot_mstate 0))"
  have T: "?T = FREEMEM_KERNEL" by (simp add: boot_mstate_ok)
  have "pte_checker 0x10000 ?T boot_mstate = None" by (simp add: pte_checker_def boot_mstate_ok(2))
  then show ?thesis
    using page_fault_maps [of boot_mstate ?T 0 "0x10000" ram_disk] boot_mstate_ok(1,3,6) T vpn_eval(1) by auto
qed

end
