(* ===== verification/Screen.thy ===== *)
theory Screen
  imports Sched KString
begin

text \<open>
  The console: \<open>drivers/screen.c\<close>.  The two character buffers are objects of the byte memory; the
  cursor is in the PCB of the running process.  What \<open>printv\<close> and \<open>bios_putchar\<close> send to the serial
  port is recorded as a list of terminal commands, one for each escape sequence or character; the
  function \<open>vt_step\<close> says what a VT100 terminal shows for them.
\<close>

section \<open>State\<close>

text \<open>The buffers, the strings of callers, and the two local buffers of \<open>printk.c\<close>.\<close>

datatype scr_obj = NewScreen | OldScreen | Text | Caller nat | Buff | Bf

datatype vt = VtMove int int | VtClear | VtHide | VtPut u8

record scr = kstate +
  smem :: "scr_obj mem"
  tty :: "vt list"          \<comment> \<open>the commands sent so far, in order\<close>

definition SCREEN_WIDTH :: nat where "SCREEN_WIDTH = 80"
definition SCREEN_HEIGHT :: nat where "SCREEN_HEIGHT = 50"
definition SCREEN_CMD_BEGIN :: nat where "SCREEN_CMD_BEGIN = 21"
definition SCREEN_LOC :: "int \<Rightarrow> int \<Rightarrow> int" where "SCREEN_LOC x y = y * int SCREEN_WIDTH + x"

definition send :: "vt \<Rightarrow> 's scr_scheme \<Rightarrow> 's scr_scheme" where
  "send c s = s\<lparr>tty := tty s @ [c]\<rparr>"

definition vt100_move_cursor :: "int \<Rightarrow> int \<Rightarrow> 's scr_scheme \<Rightarrow> 's scr_scheme" where
  "vt100_move_cursor x y s = send (VtMove x y) s"

definition vt100_clear :: "'s scr_scheme \<Rightarrow> 's scr_scheme" where
  "vt100_clear s = send VtClear s"

definition vt100_hidden_cursor :: "'s scr_scheme \<Rightarrow> 's scr_scheme" where
  "vt100_hidden_cursor s = send VtHide s"

section \<open>Writing\<close>

text \<open>A store to \<open>new_screen\<close>; an index outside the array is a stray store.\<close>

definition set_cell :: "int \<Rightarrow> u8 \<Rightarrow> 's scr_scheme \<Rightarrow> 's scr_scheme res" where
  "set_cell i c s =
     guardE (0 \<le> i \<and> i < int (SCREEN_HEIGHT * SCREEN_WIDTH)) (Inr (s\<lparr>smem := (smem s)((NewScreen, nat i) := c)\<rparr>))"

definition scroll_row :: "nat \<Rightarrow> 's scr_scheme \<Rightarrow> 's scr_scheme" where
  "scroll_row i s = s\<lparr>smem := strncpy (smem s) (NewScreen, i * SCREEN_WIDTH) (NewScreen, Suc i * SCREEN_WIDTH) SCREEN_WIDTH\<rparr>"

definition screen_write_ch :: "nat \<Rightarrow> u8 \<Rightarrow> 's scr_scheme \<Rightarrow> 's scr_scheme res" where
  "screen_write_ch cpu ch s =
     (let p = core_running s cpu
      in if ch = 10 then
           (let s = upd_pcb p (\<lambda>r. r\<lparr>cursor_x := 0, cursor_y := cursor_y r + 1\<rparr>) s
            in if cursor_y (pcb s p) = int SCREEN_HEIGHT
               then let s = fold scroll_row [SCREEN_CMD_BEGIN..<SCREEN_HEIGHT - 1] s;
                        s = upd_pcb p (cursor_y_update (\<lambda>y. y - 1)) s
                    in Inr (s\<lparr>smem := memset (smem s) (NewScreen, (SCREEN_HEIGHT - 1) * SCREEN_WIDTH) 32 SCREEN_WIDTH\<rparr>)
               else Inr s)
         else if ch = 8 \<or> ch = 127 then
           (let s = upd_pcb p (cursor_x_update (\<lambda>x. x - 1)) s
            in set_cell (SCREEN_LOC (cursor_x (pcb s p)) (cursor_y (pcb s p))) 32 s)
         else bindE (set_cell (SCREEN_LOC (cursor_x (pcb s p)) (cursor_y (pcb s p))) ch s) (\<lambda>s.
           Inr (upd_pcb p (cursor_x_update (\<lambda>x. x + 1)) s)))"

fun screen_write_loop :: "nat \<Rightarrow> nat \<Rightarrow> nat \<Rightarrow> scr_obj ptr \<Rightarrow> 's scr_scheme \<Rightarrow> 's scr_scheme res" where
  "screen_write_loop 0 i cpu buff s = Inr s"
| "screen_write_loop (Suc n) i cpu buff s =
     bindE (screen_write_ch cpu (smem s (padd buff i)) s) (screen_write_loop n (Suc i) cpu buff)"

definition screen_write :: "nat \<Rightarrow> scr_obj ptr \<Rightarrow> 's scr_scheme \<Rightarrow> 's scr_scheme res" where
  "screen_write cpu buff s =
     (case strlen (smem s) buff of None \<Rightarrow> Inl Fault | Some l \<Rightarrow> screen_write_loop l 0 cpu buff s)"

definition screen_move_cursor :: "nat \<Rightarrow> int \<Rightarrow> int \<Rightarrow> 's scr_scheme \<Rightarrow> 's scr_scheme" where
  "screen_move_cursor cpu x y s =
     vt100_move_cursor x y (upd_pcb (core_running s cpu) (\<lambda>r. r\<lparr>cursor_x := x, cursor_y := y\<rparr>) s)"

section \<open>Refreshing\<close>

definition reflush_cell :: "nat \<Rightarrow> nat \<Rightarrow> 's scr_scheme \<Rightarrow> 's scr_scheme" where
  "reflush_cell i j s =
     (let k = i * SCREEN_WIDTH + j
      in if smem s (NewScreen, k) \<noteq> smem s (OldScreen, k)
         then let s = vt100_move_cursor (int j + 1) (int i + 1) s;
                  s = send (VtPut (smem s (NewScreen, k))) s
              in s\<lparr>smem := (smem s)((OldScreen, k) := smem s (NewScreen, k))\<rparr>
         else s)"

definition screen_reflush :: "nat \<Rightarrow> 's scr_scheme \<Rightarrow> 's scr_scheme" where
  "screen_reflush cpu s =
     (let s = fold (\<lambda>i. fold (reflush_cell i) [0..<SCREEN_WIDTH]) [0..<SCREEN_HEIGHT] s;
          p = core_running s cpu
      in vt100_move_cursor (cursor_x (pcb s p)) (cursor_y (pcb s p)) s)"

definition clear_cell :: "nat \<Rightarrow> nat \<Rightarrow> 's scr_scheme \<Rightarrow> 's scr_scheme" where
  "clear_cell i j s = s\<lparr>smem := (smem s)((NewScreen, i * SCREEN_WIDTH + j) := 32)\<rparr>"

definition screen_clear :: "nat \<Rightarrow> 's scr_scheme \<Rightarrow> 's scr_scheme" where
  "screen_clear cpu s =
     (let s = fold (\<lambda>i. fold (clear_cell i) [0..<SCREEN_WIDTH]) [0..<SCREEN_HEIGHT] s;
          s = upd_pcb (core_running s cpu) (\<lambda>r. r\<lparr>cursor_x := 0, cursor_y := 0\<rparr>) s
      in screen_reflush cpu s)"

definition init_screen :: "nat \<Rightarrow> 's scr_scheme \<Rightarrow> 's scr_scheme" where
  "init_screen cpu s = screen_clear cpu (vt100_clear (vt100_hidden_cursor s))"

section \<open>The terminal\<close>

text \<open>
  A terminal has a cursor (column and row, from 1) and shows a character in each cell.  A character
  goes to the cell under the cursor, which then moves right.
\<close>

type_synonym display = "(int \<times> int) \<times> (int \<times> int \<Rightarrow> u8)"

fun vt_step :: "vt \<Rightarrow> display \<Rightarrow> display" where
  "vt_step (VtMove x y) (c, d) = ((x, y), d)"
| "vt_step VtClear (c, d) = (c, \<lambda>_. 32)"
| "vt_step VtHide (c, d) = (c, d)"
| "vt_step (VtPut ch) ((x, y), d) = ((x + 1, y), d((x, y) := ch))"

definition shown :: "display \<Rightarrow> 's scr_scheme \<Rightarrow> int \<times> int \<Rightarrow> u8" where
  "shown t s = snd (fold vt_step (tty s) t)"

definition on_screen :: "nat \<Rightarrow> nat \<Rightarrow> bool" where
  "on_screen i j \<longleftrightarrow> i < SCREEN_HEIGHT \<and> j < SCREEN_WIDTH"

text \<open>Every cell of the old buffer that needs no refresh is on the terminal.\<close>

definition tracks :: "display \<Rightarrow> 's scr_scheme \<Rightarrow> bool" where
  "tracks t s \<longleftrightarrow> (\<forall>i j. on_screen i j \<longrightarrow>
     smem s (OldScreen, i * SCREEN_WIDTH + j) = smem s (NewScreen, i * SCREEN_WIDTH + j) \<longrightarrow>
     shown t s (int j + 1, int i + 1) = smem s (NewScreen, i * SCREEN_WIDTH + j))"

lemma loc_eq_iff: "on_screen i j \<Longrightarrow> on_screen k l \<Longrightarrow> i * SCREEN_WIDTH + j = k * SCREEN_WIDTH + l \<longleftrightarrow> i = k \<and> j = l"
proof -
  assume ij: "on_screen i j" "on_screen k l"
  have "(i * SCREEN_WIDTH + j) div SCREEN_WIDTH = i \<and> (i * SCREEN_WIDTH + j) mod SCREEN_WIDTH = j"
    "(k * SCREEN_WIDTH + l) div SCREEN_WIDTH = k \<and> (k * SCREEN_WIDTH + l) mod SCREEN_WIDTH = l"
    using ij by (simp_all add: on_screen_def)
  then show ?thesis by metis
qed

lemma shown_put: "shown t (send (VtPut c) (send (VtMove x y) s)) = (shown t s)((x, y) := c)"
proof (cases "fold vt_step (tty s) t")
  case (Pair a d)
  then show ?thesis by (simp add: shown_def send_def)
qed

text \<open>What refreshing some cells leaves: \<open>done\<close> are the cells that are now up to date.\<close>

definition refreshed :: "display \<Rightarrow> (nat \<times> nat) set \<Rightarrow> 's scr_scheme \<Rightarrow> 's scr_scheme \<Rightarrow> bool" where
  "refreshed t C s s' \<longleftrightarrow> tracks t s' \<and> (\<forall>k. smem s' (NewScreen, k) = smem s (NewScreen, k)) \<and>
     pcb s' = pcb s \<and> core_running s' = core_running s \<and>
     (\<forall>(i, j) \<in> C. smem s' (OldScreen, i * SCREEN_WIDTH + j) = smem s (NewScreen, i * SCREEN_WIDTH + j)) \<and>
     (\<forall>q. q \<notin> (\<lambda>(i, j). (int j + 1, int i + 1)) ` C \<longrightarrow> shown t s' q = shown t s q)"

lemma reflush_cell_ok:
  assumes "on_screen i j" and "refreshed t C s s'" and "\<forall>(i, j)\<in>C. on_screen i j"
  shows "refreshed t (insert (i, j) C) s (reflush_cell i j s')"
proof (cases "smem s' (NewScreen, i * SCREEN_WIDTH + j) = smem s' (OldScreen, i * SCREEN_WIDTH + j)")
  case True
  then show ?thesis using assms(2) by (simp add: reflush_cell_def refreshed_def)
next
  case False
  let ?k = "i * SCREEN_WIDTH + j"
  let ?s = "reflush_cell i j s'"
  have m: "smem ?s = (smem s')((OldScreen, ?k) := smem s' (NewScreen, ?k))" "pcb ?s = pcb s'" "core_running ?s = core_running s'"
    using False by (simp_all add: reflush_cell_def vt100_move_cursor_def send_def Let_def)
  have "shown t ?s = shown t (send (VtPut (smem s' (NewScreen, ?k))) (send (VtMove (int j + 1) (int i + 1)) s'))"
    using False by (simp add: reflush_cell_def vt100_move_cursor_def send_def shown_def Let_def)
  then have d: "shown t ?s = (shown t s')((int j + 1, int i + 1) := smem s' (NewScreen, ?k))" by (simp only: shown_put)
  have "tracks t ?s"
    using assms(2) loc_eq_iff [OF _ assms(1)] unfolding tracks_def refreshed_def m d by auto
  moreover have "smem ?s (OldScreen, a * SCREEN_WIDTH + b) = smem s (NewScreen, a * SCREEN_WIDTH + b)"
    if "(a, b) \<in> insert (i, j) C" for a b
    using that assms(2) unfolding m refreshed_def by auto
  moreover have "shown t ?s q = shown t s q" if "q \<notin> (\<lambda>(i, j). (int j + 1, int i + 1)) ` insert (i, j) C" for q
    using that assms(2) unfolding d refreshed_def by (cases q) auto
  ultimately show ?thesis using assms(2) unfolding refreshed_def m by auto
qed

lemma reflush_row_ok:
  assumes "refreshed t C s s'" and "\<forall>(i, j)\<in>C. on_screen i j" and "i < SCREEN_HEIGHT" and "n \<le> SCREEN_WIDTH"
  shows "refreshed t (C \<union> {i} \<times> {..<n}) s (fold (reflush_cell i) [0..<n] s')"
  using assms(4)
proof (induction n)
  case 0
  then show ?case using assms(1) by simp
next
  case (Suc n)
  have "C \<union> {i} \<times> {..<Suc n} = insert (i, n) (C \<union> {i} \<times> {..<n})" by auto
  moreover have "\<forall>(a, b)\<in>C \<union> {i} \<times> {..<n}. on_screen a b"
    using assms(2,3) Suc.prems by (auto simp: on_screen_def)
  ultimately show ?case using Suc reflush_cell_ok [of i n t "C \<union> {i} \<times> {..<n}"] assms(3) by (simp add: on_screen_def)
qed

lemma reflush_rows_ok:
  assumes "tracks t s" and "n \<le> SCREEN_HEIGHT"
  shows "refreshed t ({..<n} \<times> {..<SCREEN_WIDTH}) s (fold (\<lambda>i. fold (reflush_cell i) [0..<SCREEN_WIDTH]) [0..<n] s)"
  using assms(2)
proof (induction n)
  case 0
  then show ?case using assms(1) by (simp add: refreshed_def)
next
  case (Suc n)
  have e: "{..<Suc n} \<times> {..<SCREEN_WIDTH} = {..<n} \<times> {..<SCREEN_WIDTH} \<union> {n} \<times> {..<SCREEN_WIDTH}" by auto
  have "\<forall>(a, b)\<in>{..<n} \<times> {..<SCREEN_WIDTH}. on_screen a b" using Suc.prems by (auto simp: on_screen_def)
  then show ?case unfolding e using Suc reflush_row_ok [of t "{..<n} \<times> {..<SCREEN_WIDTH}" s _ n SCREEN_WIDTH] by simp
qed

lemma shown_move [simp]: "shown t (vt100_move_cursor x y s) = shown t s"
  by (cases "fold vt_step (tty s) t") (simp add: shown_def vt100_move_cursor_def send_def)

text \<open>The terminal shows the old buffer.\<close>

definition synced :: "display \<Rightarrow> 's scr_scheme \<Rightarrow> bool" where
  "synced t s \<longleftrightarrow> (\<forall>i j. on_screen i j \<longrightarrow> shown t s (int j + 1, int i + 1) = smem s (OldScreen, i * SCREEN_WIDTH + j))"

lemma synced_tracks: "synced t s \<Longrightarrow> tracks t s"
  by (auto simp: synced_def tracks_def)

lemma screen_reflush_ok:
  assumes "tracks t s"
  shows "synced t (screen_reflush cpu s)" and "smem (screen_reflush cpu s) (NewScreen, k) = smem s (NewScreen, k)"
    and "on_screen i j \<Longrightarrow> smem (screen_reflush cpu s) (OldScreen, i * SCREEN_WIDTH + j) = smem s (NewScreen, i * SCREEN_WIDTH + j)"
proof -
  let ?s = "fold (\<lambda>i. fold (reflush_cell i) [0..<SCREEN_WIDTH]) [0..<SCREEN_HEIGHT] s"
  have r: "refreshed t ({..<SCREEN_HEIGHT} \<times> {..<SCREEN_WIDTH}) s ?s" by (rule reflush_rows_ok [OF assms order_refl])
  have m: "smem (screen_reflush cpu s) = smem ?s" "shown t (screen_reflush cpu s) = shown t ?s"
    by (simp_all add: screen_reflush_def Let_def) (simp add: vt100_move_cursor_def send_def)
  show new: "smem (screen_reflush cpu s) (NewScreen, k) = smem s (NewScreen, k)" for k using r by (simp add: m refreshed_def)
  show old: "smem (screen_reflush cpu s) (OldScreen, i * SCREEN_WIDTH + j) = smem s (NewScreen, i * SCREEN_WIDTH + j)"
    if "on_screen i j" for i j
    using r that unfolding m refreshed_def on_screen_def by auto
  have "tracks t ?s" using r by (simp add: refreshed_def)
  then show "synced t (screen_reflush cpu s)"
    using old new unfolding synced_def tracks_def m by (simp add: m)
qed

section \<open>Writing keeps the buffers apart\<close>

lemma memset_other: "fst q \<noteq> fst dest \<Longrightarrow> memset m dest v n q = m q"
  by (simp add: memset_closed)

lemma strncpy_other: "fst q \<noteq> fst dest \<Longrightarrow> strncpy m dest src n q = m q"
  by (induction m dest src n rule: strncpy.induct) (auto simp: strncpy_fill_memset memset_closed simp del: strncpy_fill.simps)

text \<open>\<open>writes_new s s'\<close>: only the new buffer and PCBs differ.\<close>

definition writes_new :: "'s scr_scheme \<Rightarrow> 's scr_scheme \<Rightarrow> bool" where
  "writes_new s s' \<longleftrightarrow> tty s' = tty s \<and> (\<forall>k. smem s' (OldScreen, k) = smem s (OldScreen, k))"

lemma writes_new_refl [simp]: "writes_new s s"
  by (simp add: writes_new_def)

lemma writes_new_trans: "writes_new s s' \<Longrightarrow> writes_new s' s'' \<Longrightarrow> writes_new s s''"
  by (simp add: writes_new_def)

lemma writes_new_upd_pcb [simp]: "writes_new s (upd_pcb p f s') = writes_new s s'" "writes_new (upd_pcb p f s) s' = writes_new s s'"
  by (simp_all add: writes_new_def upd_pcb_def)

lemma smem_upd_pcb: "smem (upd_pcb p f s) = smem s"
  by (simp add: upd_pcb_def)

lemma synced_writes: "writes_new s s' \<Longrightarrow> synced t s \<Longrightarrow> synced t s'"
  by (simp add: writes_new_def synced_def shown_def)

lemma writes_fold:
  assumes "\<And>i s. writes_new s (f i s)"
  shows "writes_new s (fold f xs s)"
proof (induction xs arbitrary: s)
  case (Cons x xs)
  show ?case using writes_new_trans [OF assms [of s x] Cons] by simp
qed simp

lemma scroll_row_writes: "writes_new s (scroll_row i s)"
  by (simp add: writes_new_def scroll_row_def strncpy_other)

lemma clear_cell_writes: "writes_new s (clear_cell i j s)"
  by (simp add: writes_new_def clear_cell_def)

lemma set_cell_writes: "set_cell k c s = Inr s' \<Longrightarrow> writes_new s s'"
  by (auto simp: set_cell_def guardE_eq_Inr writes_new_def)

lemma write_ch_writes: "screen_write_ch cpu ch s = Inr s' \<Longrightarrow> writes_new s s'"
proof -
  assume run: "screen_write_ch cpu ch s = Inr s'"
  let ?s1 = "upd_pcb (core_running s cpu) (\<lambda>r. r\<lparr>cursor_x := 0, cursor_y := cursor_y r + 1\<rparr>) s"
  have "writes_new ?s1 (fold scroll_row [SCREEN_CMD_BEGIN..<SCREEN_HEIGHT - 1] ?s1)"
    by (rule writes_fold) (rule scroll_row_writes)
  then show ?thesis
    using run by (auto simp: screen_write_ch_def Let_def res_eq_Inr writes_new_def memset_other upd_pcb_def dest!: set_cell_writes split: if_splits)
qed

lemma write_loop_writes: "screen_write_loop n i cpu buff s = Inr s' \<Longrightarrow> writes_new s s'"
  by (induction n arbitrary: i s) (auto simp: res_eq_Inr dest!: write_ch_writes intro: writes_new_trans)

section \<open>Scrolling\<close>

lemma strncpy_row:
  assumes "d + n \<le> e" and "\<forall>k<n. m (b, e + k) \<noteq> 0"
  shows "strncpy m (b, d) (b, e) n = (\<lambda>q. if fst q = b \<and> d \<le> snd q \<and> snd q < d + n then m (b, snd q - d + e) else m q)"
  using assms
proof (induction n arbitrary: m d e)
  case (Suc n)
  let ?m = "m((b, d) := m (b, e))"
  have "\<forall>k<n. ?m (b, Suc e + k) \<noteq> 0" using Suc.prems by auto
  then have ih: "strncpy ?m (b, Suc d) (b, Suc e) n =
      (\<lambda>q. if fst q = b \<and> Suc d \<le> snd q \<and> snd q < Suc d + n then ?m (b, snd q - Suc d + Suc e) else ?m q)"
    using Suc.prems(1) by (intro Suc.IH) simp_all
  have "m (b, e) \<noteq> 0" using Suc.prems(2) by (metis add_0_right zero_less_Suc)
  then show ?case using Suc.prems(1) by (auto simp: ih fun_eq_iff le_Suc_eq Suc_diff_le intro!: arg_cong [of _ _ m])
qed (auto simp: fun_eq_iff)

lemma scroll_row_smem:
  assumes "\<forall>j<SCREEN_WIDTH. smem s (NewScreen, Suc i * SCREEN_WIDTH + j) \<noteq> 0" and "j < SCREEN_WIDTH"
  shows "smem (scroll_row i s) (NewScreen, k * SCREEN_WIDTH + j) = smem s (NewScreen, (if k = i then Suc k else k) * SCREEN_WIDTH + j)"
proof -
  have "i * SCREEN_WIDTH \<le> k * SCREEN_WIDTH + j \<and> k * SCREEN_WIDTH + j < i * SCREEN_WIDTH + SCREEN_WIDTH \<longleftrightarrow> k = i"
  proof
    assume "i * SCREEN_WIDTH \<le> k * SCREEN_WIDTH + j \<and> k * SCREEN_WIDTH + j < i * SCREEN_WIDTH + SCREEN_WIDTH"
    then have "(k * SCREEN_WIDTH + j) div SCREEN_WIDTH = i" by (intro div_nat_eqI) (auto simp: mult.commute)
    then show "k = i" using assms(2) by simp
  qed (use assms(2) in simp)
  then show ?thesis using assms by (auto simp: scroll_row_def strncpy_row add.commute)
qed

lemma scroll_rows_smem:
  assumes "\<forall>i j. 21 \<le> i \<longrightarrow> on_screen i j \<longrightarrow> smem s (NewScreen, i * SCREEN_WIDTH + j) \<noteq> 0" and "n < SCREEN_HEIGHT"
    and "on_screen k j"
  shows "smem (fold scroll_row [21..<n] s) (NewScreen, k * SCREEN_WIDTH + j) =
    smem s (NewScreen, (if 21 \<le> k \<and> k < n then Suc k else k) * SCREEN_WIDTH + j)"
  using assms(2,3)
proof (induction n arbitrary: k j)
  case (Suc n)
  show ?case
  proof (cases "21 \<le> n")
    case True
    let ?s = "fold scroll_row [21..<n] s"
    have nz: "\<forall>l<SCREEN_WIDTH. smem ?s (NewScreen, Suc n * SCREEN_WIDTH + l) \<noteq> 0"
    proof (intro allI impI)
      fix l
      assume "l < SCREEN_WIDTH"
      then have o: "on_screen (Suc n) l" using Suc.prems by (simp add: on_screen_def)
      have "smem s (NewScreen, Suc n * SCREEN_WIDTH + l) \<noteq> 0" by (rule assms(1) [rule_format, OF _ o]) (use True in simp)
      then show "smem ?s (NewScreen, Suc n * SCREEN_WIDTH + l) \<noteq> 0" using Suc.IH [OF _ o] Suc.prems(1) by simp
    qed
    have j: "j < SCREEN_WIDTH" using Suc.prems(2) by (simp add: on_screen_def)
    have os: "on_screen (if k = n then Suc k else k) j" using Suc.prems by (simp add: on_screen_def)
    show ?thesis using True scroll_row_smem [OF nz j, of k] Suc.IH [OF _ os] Suc.prems(1) by (auto simp del: mult_Suc)
  next
    case False
    then show ?thesis using Suc.prems by (cases "n = 20") auto
  qed
qed simp

section \<open>Using the console\<close>

inductive scr_step :: "'s scr_scheme \<Rightarrow> 's scr_scheme \<Rightarrow> bool" where
  text_out: "screen_write cpu buff s = Inr s' \<Longrightarrow> scr_step s s'"
| move: "scr_step s (screen_move_cursor cpu x y s)"
| reflush: "scr_step s (screen_reflush cpu s)"
| clear: "scr_step s (screen_clear cpu s)"

inductive_cases scr_stepE: "scr_step s s'"

lemma clear_rows_writes: "writes_new s (fold (\<lambda>i. fold (clear_cell i) [0..<SCREEN_WIDTH]) xs s)"
  by (rule writes_fold, rule writes_fold, rule clear_cell_writes)

lemma screen_clear_ok:
  fixes s :: "'s scr_scheme"
  defines "c \<equiv> fold (\<lambda>i. fold (clear_cell i) [0..<SCREEN_WIDTH]) [0..<SCREEN_HEIGHT] s"
  assumes "tracks t c"
  shows "synced t (screen_clear cpu s)"
proof -
  have "tracks t (upd_pcb p f c)" for p f using assms(2) by (simp add: tracks_def shown_def upd_pcb_def)
  then show ?thesis unfolding screen_clear_def Let_def c_def by (rule screen_reflush_ok(1))
qed

lemma scr_step_synced: "scr_step s s' \<Longrightarrow> synced t s \<Longrightarrow> synced t s'"
proof (erule scr_stepE)
  show "synced t s'" if s: "synced t s" and w: "screen_write cpu buff s = Inr s'" for cpu buff
  proof -
    obtain n where "screen_write_loop n 0 cpu buff s = Inr s'" using w by (auto simp: screen_write_def split: option.splits)
    then show ?thesis using synced_writes [OF write_loop_writes s] by blast
  qed
  show "synced t s'" if "synced t s" "s' = screen_move_cursor cpu x y s" for cpu x y
  proof -
    have "synced t (upd_pcb p f s)" for p f using that(1) by (simp add: synced_def shown_def upd_pcb_def)
    then show ?thesis unfolding that(2) screen_move_cursor_def
      by (simp add: synced_def) (simp add: vt100_move_cursor_def send_def)
  qed
  show "synced t s'" if "synced t s" "s' = screen_reflush cpu s" for cpu
    unfolding that(2) by (rule screen_reflush_ok(1) [OF synced_tracks [OF that(1)]])
  show "synced t s'" if "synced t s" "s' = screen_clear cpu s" for cpu
    unfolding that(2) by (rule screen_clear_ok, rule synced_tracks, rule synced_writes [OF clear_rows_writes that(1)])
qed

lemma clear_row_smem:
  "smem (fold (clear_cell i) [0..<n] s) q = (if fst q = NewScreen \<and> i * SCREEN_WIDTH \<le> snd q \<and> snd q < i * SCREEN_WIDTH + n then 32 else smem s q)"
  by (induction n) (auto simp: clear_cell_def prod_eq_iff less_Suc_eq)

lemma clear_rows_smem:
  "k < n * SCREEN_WIDTH \<Longrightarrow> smem (fold (\<lambda>i. fold (clear_cell i) [0..<SCREEN_WIDTH]) [0..<n] s) (NewScreen, k) = 32"
  by (induction n) (auto simp: clear_row_smem)

lemma init_screen_synced:
  assumes "\<forall>k. smem s (OldScreen, k) = 0"
  shows "synced t (init_screen cpu s)"
  unfolding init_screen_def
proof (rule screen_clear_ok)
  let ?s = "vt100_clear (vt100_hidden_cursor s)"
  let ?c = "fold (\<lambda>i. fold (clear_cell i) [0..<SCREEN_WIDTH]) [0..<SCREEN_HEIGHT] ?s"
  have "smem ?c (OldScreen, k) = 0" for k
    using clear_rows_writes [of ?s "[0..<SCREEN_HEIGHT]"] assms by (simp add: writes_new_def vt100_clear_def vt100_hidden_cursor_def send_def)
  moreover have "smem ?c (NewScreen, i * SCREEN_WIDTH + j) = 32" if "on_screen i j" for i j
  proof (rule clear_rows_smem)
    have "Suc i * SCREEN_WIDTH \<le> SCREEN_HEIGHT * SCREEN_WIDTH" using that by (intro mult_le_mono1) (simp add: on_screen_def)
    then show "i * SCREEN_WIDTH + j < SCREEN_HEIGHT * SCREEN_WIDTH" using that by (simp add: on_screen_def)
  qed
  ultimately show "tracks t ?c" by (simp add: tracks_def)
qed

section \<open>Properties\<close>

text \<open>A console in use by process 0, before \<open>init_screen\<close>, with the text of one line to print.\<close>

definition boot_scr :: scr where
  "boot_scr = kstate.extend boot_kstate
     \<lparr>smem = (\<lambda>(ob, i). if ob = Text then (if i = 0 then 72 else if i = 1 then 105 else 0) else 0), tty = []\<rparr>"

lemma boot_scr_sel: "smem boot_scr (OldScreen, k) = 0" "smem boot_scr (Text, 0) = 72" "smem boot_scr (Text, 1) = 105"
  "smem boot_scr (Text, 2) = 0" "pcb boot_scr = boot_pcbs" "core_running boot_scr 0 = Pcb 0"
  by (simp_all add: boot_scr_def kstate.defs boot_kstate_def)



text \<open>
  Scrolling.  A newline in the last line, when the lines from the command area on hold no zero
  byte, moves each of them up by one, blanks the last line, leaves the lines above alone and the
  cursor at the beginning of the last line.
\<close>

theorem newline_scrolls:
  assumes "cursor_y (pcb s (core_running s cpu)) = 49"
    and "\<forall>i j. 21 \<le> i \<longrightarrow> on_screen i j \<longrightarrow> smem s (NewScreen, i * SCREEN_WIDTH + j) \<noteq> 0"
  shows "\<exists>s'. screen_write_ch cpu 10 s = Inr s' \<and> cursor_x (pcb s' (core_running s' cpu)) = 0 \<and>
    cursor_y (pcb s' (core_running s' cpu)) = 49 \<and>
    (\<forall>i j. on_screen i j \<longrightarrow> smem s' (NewScreen, i * SCREEN_WIDTH + j) =
       (if i = 49 then 32 else smem s (NewScreen, (if 21 \<le> i then Suc i else i) * SCREEN_WIDTH + j)))"
proof -
  let ?p = "core_running s cpu"
  let ?s1 = "upd_pcb ?p (\<lambda>r. r\<lparr>cursor_x := 0, cursor_y := cursor_y r + 1\<rparr>) s"
  let ?s2 = "fold scroll_row [SCREEN_CMD_BEGIN..<SCREEN_HEIGHT - 1] ?s1"
  have h: "int SCREEN_HEIGHT = 50" "SCREEN_HEIGHT - 1 = 49" by (simp_all add: SCREEN_HEIGHT_def)
  have frame: "pcb (fold scroll_row ks u) = pcb u \<and> core_running (fold scroll_row ks u) = core_running u" for ks and u :: "'a scr_scheme"
    by (induction ks arbitrary: u) (simp_all add: scroll_row_def)
  have m1: "smem ?s1 = smem s" by (simp add: upd_pcb_def)
  have rows: "smem ?s2 (NewScreen, i * SCREEN_WIDTH + j) = smem s (NewScreen, (if 21 \<le> i \<and> i < 49 then Suc i else i) * SCREEN_WIDTH + j)"
    if "on_screen i j" for i j
    using scroll_rows_smem [of ?s1 49 i j] assms(2) that unfolding m1 SCREEN_CMD_BEGIN_def h(2) by (simp add: SCREEN_HEIGHT_def)
  let ?s' = "(upd_pcb ?p (cursor_y_update (\<lambda>y. y - 1)) ?s2)\<lparr>smem := memset (smem ?s2) (NewScreen, 49 * SCREEN_WIDTH) 32 SCREEN_WIDTH\<rparr>"
  have "screen_write_ch cpu 10 s = Inr ?s'"
    using assms(1) by (simp add: screen_write_ch_def Let_def h(1) h(2) [simplified] smem_upd_pcb)
  moreover have "smem ?s' (NewScreen, i * SCREEN_WIDTH + j) =
      (if i = 49 then 32 else smem s (NewScreen, (if 21 \<le> i then Suc i else i) * SCREEN_WIDTH + j))" if o: "on_screen i j" for i j
  proof -
    have "i < 50" "j < 80" using o by (simp_all add: on_screen_def SCREEN_HEIGHT_def SCREEN_WIDTH_def)
    then have "49 * SCREEN_WIDTH \<le> i * SCREEN_WIDTH + j \<longleftrightarrow> i = 49" "i = 49 \<Longrightarrow> i * SCREEN_WIDTH + j < 49 * SCREEN_WIDTH + SCREEN_WIDTH"
      by (auto simp: SCREEN_WIDTH_def)
    then show ?thesis using rows [OF o] \<open>i < 50\<close> by (auto simp: memset_closed)
  qed
  ultimately show ?thesis using assms(1) frame [of "[SCREEN_CMD_BEGIN..<SCREEN_HEIGHT - 1]" ?s1] by (intro exI [of _ ?s']) (simp add: upd_pcb_def)
qed

end
