(* ===== verification/Printk.thy ===== *)
theory Printk
  imports Screen
begin

text \<open>
  Formatted output: \<open>libs/printk.c\<close>.  A format string is the list of its characters up to the
  terminating zero.  A \<open>va_list\<close> is the list of the 64-bit slots that are left; a slot holds a number
  or a pointer.  Taking an argument when there is none, or a string where the slot holds a number,
  is undefined (\<open>Fault\<close>), as is writing behind the local array \<open>bf\<close> of 24 characters.
\<close>

section \<open>Numbers\<close>

text \<open>Division and remainder of C, which round towards zero.\<close>

definition cquot :: "int \<Rightarrow> int \<Rightarrow> int" where
  "cquot a b = (if a < 0 then - ((- a) div b) else a div b)"

definition crem :: "int \<Rightarrow> int \<Rightarrow> int" where
  "crem a b = (if a < 0 then - ((- a) mod b) else a mod b)"

definition digit_char :: "bool \<Rightarrow> int \<Rightarrow> u8" where
  "digit_char uppercase digit =
     of_int (if digit < 10 then 48 + digit else (if uppercase then 65 else 97) + digit - 10)"

text \<open>The \<open>do\<close> loop of \<open>mini_itoa\<close>, which writes the digits back to front.\<close>

function itoa_loop :: "'o mem \<Rightarrow> 'o ptr \<Rightarrow> int \<Rightarrow> int \<Rightarrow> bool \<Rightarrow> 'o mem \<times> 'o ptr" where
  "itoa_loop m pbuffer value radix uppercase =
     (let m = m(pbuffer := digit_char uppercase (crem value radix));
          value = cquot value radix
      in if value \<noteq> 0 \<and> 2 \<le> radix then itoa_loop m (padd pbuffer 1) value radix uppercase
         else (m, padd pbuffer 1))"
  by pat_completeness auto
termination
proof (relation "measure (\<lambda>(m, p, v, r, u). nat \<bar>v\<bar>)", simp, goal_cases)
  case (1 m p v r u)
  have "nat \<bar>cquot v r\<bar> < nat \<bar>v\<bar>"
    if "2 \<le> r" "v \<noteq> 0" for v r :: int
  proof (cases "v < 0")
    case True
    have "- v div r < - v" "0 \<le> - v div r" using True that by (simp_all add: pos_imp_zdiv_nonneg_iff int_div_less_self)
    then show ?thesis using True by (simp add: cquot_def)
  next
    case False
    have "v div r < v" "0 \<le> v div r" using False that by (simp_all add: pos_imp_zdiv_nonneg_iff int_div_less_self)
    then show ?thesis using False by (simp add: cquot_def)
  qed
  moreover have "v \<noteq> 0" using 1 by (auto simp: cquot_def)
  ultimately show ?case using 1 by simp
qed

declare itoa_loop.simps [simp del]

definition swap_ends :: "'o ptr \<Rightarrow> nat \<Rightarrow> nat \<Rightarrow> 'o mem \<Rightarrow> 'o mem" where
  "swap_ends buffer len i m =
     (let j = m (padd buffer i);
          m = m(padd buffer i := m (padd buffer (len - i - 1)))
      in m(padd buffer (len - i - 1) := j))"

text \<open>
  The value is a \<open>long\<close>.  Negating the least \<open>long\<close> wraps around to itself; all other values are
  not negative afterwards.  The radixes in use are 10 and 16.
\<close>

definition itoa_value :: "u64 \<Rightarrow> bool \<Rightarrow> bool \<times> int" where
  "itoa_value value unsig =
     (if unsig then (False, uint value)
      else if sint value < 0 then (True, sint (- value)) else (False, sint value))"

definition mini_itoa ::
  "u64 \<Rightarrow> int \<Rightarrow> bool \<Rightarrow> bool \<Rightarrow> 'o ptr \<Rightarrow> nat \<Rightarrow> 'o mem \<Rightarrow> nat \<times> 'o mem" where
  "mini_itoa value radix uppercase unsig buffer zero_pad m =
     (if radix > 16 then (0, m)
      else let (negative, v) = itoa_value value unsig;
               (m, p) = itoa_loop m buffer v radix uppercase;
               len = snd p - snd buffer;
               m = fold (\<lambda>i m. m(padd buffer i := 48)) [len..<zero_pad] m;
               len = max len zero_pad;
               (m, len) = (if negative then (m(padd buffer len := 45), Suc len) else (m, len));
               m = m(padd buffer len := 0);
               m = fold (swap_ends buffer len) [0..<len div 2] m
           in (len, m))"

section \<open>The output buffer\<close>

record 'o mini_buff =
  buffer :: "'o ptr"
  pbuffer :: nat              \<comment> \<open>\<open>pbuffer - buffer\<close>\<close>
  buffer_len :: nat
  pmem :: "'o mem"

definition mb_putc :: "u8 \<Rightarrow> 'o mini_buff \<Rightarrow> 'o mini_buff" where
  "mb_putc ch b =
     (if pbuffer b + 1 \<ge> buffer_len b then b
      else b\<lparr>pmem := (pmem b)(padd (buffer b) (pbuffer b) := ch, padd (buffer b) (Suc (pbuffer b)) := 0),
             pbuffer := Suc (pbuffer b)\<rparr>)"

definition mb_puts :: "'o ptr \<Rightarrow> nat \<Rightarrow> 'o mini_buff \<Rightarrow> 'o mini_buff" where
  "mb_puts s len b =
     (let len = min len (buffer_len b - pbuffer b - 1);
          m = fold (\<lambda>i m. m(padd (buffer b) (pbuffer b + i) := m (padd s i))) [0..<len] (pmem b);
          p = pbuffer b + len
      in b\<lparr>pmem := m(padd (buffer b) p := 0), pbuffer := p\<rparr>)"

section \<open>Formats\<close>

datatype 'o slot = Num u64 | Str "'o ptr"

fun va_num :: "bool \<Rightarrow> 'o slot list \<Rightarrow> (u64 \<times> 'o slot list) res" where
  "va_num longflag (Num v # va) = Inr (if longflag then v else ucast (ucast v :: u32), va)"
| "va_num longflag va = Inl Fault"

fun va_str :: "'o slot list \<Rightarrow> ('o ptr \<times> 'o slot list) res" where
  "va_str (Str p # va) = Inr (p, va)"
| "va_str va = Inl Fault"

text \<open>
  What follows a \<open>%\<close>: the width, a flag for \<open>l\<close>, the conversion character and the rest; the
  conversion character is 0 at the end of the format.
\<close>

fun scan_pad :: "u8 \<Rightarrow> u8 list \<Rightarrow> u8 \<times> u8 \<times> u8 list" where
  "scan_pad zero_pad [] = (zero_pad, 0, [])"
| "scan_pad zero_pad (ch # fmt) =
     (if 48 \<le> ch \<and> ch \<le> 57 then scan_pad (zero_pad * 10 + ch - 48) fmt else (zero_pad, ch, fmt))"

fun next_ch :: "u8 list \<Rightarrow> u8 \<times> u8 list" where
  "next_ch [] = (0, [])"
| "next_ch (ch # fmt) = (ch, fmt)"

definition scan_directive :: "u8 list \<Rightarrow> u8 \<times> bool \<times> u8 \<times> u8 list" where
  "scan_directive fmt =
     (let (ch, fmt) = next_ch fmt;
          (zero_pad, ch, fmt) = (if ch = 48 then scan_pad 0 fmt else (0, ch, fmt));
          (longflag, ch, fmt) = (if ch = 108 then (True, next_ch fmt) else (False, ch, fmt))
      in (zero_pad, longflag, ch, fmt))"

definition BF_SIZE :: nat where "BF_SIZE = 24"

definition put_number ::
  "'o ptr \<Rightarrow> u64 \<Rightarrow> int \<Rightarrow> bool \<Rightarrow> bool \<Rightarrow> u8 \<Rightarrow> 'o mini_buff \<Rightarrow> 'o mini_buff res" where
  "put_number bf v radix uppercase unsig zero_pad b =
     (let (len, m) = mini_itoa v radix uppercase unsig bf (unat zero_pad) (pmem b)
      in guardE (len < BF_SIZE) (Inr (mb_puts bf len (b\<lparr>pmem := m\<rparr>))))"

text \<open>One conversion: \<open>None\<close> for \<open>goto end\<close>.\<close>

definition convert ::
  "'o ptr \<Rightarrow> u8 \<Rightarrow> bool \<Rightarrow> u8 \<Rightarrow> 'o slot list \<Rightarrow> 'o mini_buff \<Rightarrow> ('o slot list \<times> 'o mini_buff) option res" where
  "convert bf zero_pad longflag ch va b =
     (if ch = 0 then Inr None
      else if ch = 108 then Inr (Some (va, b))
      else if ch = 117 \<or> ch = 100 then
        bindE (va_num longflag va) (\<lambda>(v, va).
        bindE (put_number bf v 10 False (ch = 117) zero_pad b) (\<lambda>b. Inr (Some (va, b))))
      else if ch = 120 \<or> ch = 88 then
        bindE (va_num longflag va) (\<lambda>(v, va).
        bindE (put_number bf v 16 (ch = 88) True zero_pad b) (\<lambda>b. Inr (Some (va, b))))
      else if ch = 99 then
        bindE (va_num False va) (\<lambda>(v, va). Inr (Some (va, mb_putc (ucast v) b)))
      else if ch = 115 then
        bindE (va_str va) (\<lambda>(p, va).
        case strlen (pmem b) p of None \<Rightarrow> Inl Fault | Some n \<Rightarrow> Inr (Some (va, mb_puts p n b)))
      else Inr (Some (va, mb_putc ch b)))"

lemma scan_pad_shorter: "length (snd (snd (scan_pad z fmt))) \<le> length fmt"
  by (induction z fmt rule: scan_pad.induct) auto

lemma next_ch_shorter: "length (snd (next_ch fmt)) \<le> length fmt"
  by (cases fmt) auto

lemma scan_directive_shorter: "scan_directive fmt = (z, l, ch, rest) \<Longrightarrow> length rest \<le> length fmt"
  using scan_pad_shorter [of 0 "snd (next_ch fmt)"] next_ch_shorter [of fmt]
    next_ch_shorter [of "snd (snd (scan_pad 0 (snd (next_ch fmt))))"] next_ch_shorter [of "snd (next_ch fmt)"]
  by (auto simp: scan_directive_def Let_def split: prod.splits if_splits)

function vsn_loop :: "'o ptr \<Rightarrow> u8 list \<Rightarrow> 'o slot list \<Rightarrow> 'o mini_buff \<Rightarrow> 'o mini_buff res" where
  "vsn_loop bf [] va b = Inr b"
| "vsn_loop bf (ch # fmt) va b =
     (if pbuffer b + 1 \<ge> buffer_len b then Inr b
      else if ch \<noteq> 37 then vsn_loop bf fmt va (mb_putc ch b)
      else case scan_directive fmt of (zero_pad, longflag, c, rest) \<Rightarrow>
        (case convert bf zero_pad longflag c va b of
           Inl e \<Rightarrow> Inl e
         | Inr None \<Rightarrow> Inr b
         | Inr (Some (va, b)) \<Rightarrow> vsn_loop bf rest va b))"
  by pat_completeness auto
termination
  by (relation "measure (\<lambda>(bf, fmt, va, b). length fmt)") (auto simp: less_Suc_eq_le dest: scan_directive_shorter [OF sym])

definition mini_vsnprintf ::
  "'o ptr \<Rightarrow> 'o ptr \<Rightarrow> nat \<Rightarrow> u8 list \<Rightarrow> 'o slot list \<Rightarrow> 'o mem \<Rightarrow> (nat \<times> 'o mem) res" where
  "mini_vsnprintf bf buf len fmt va m =
     bindE (vsn_loop bf fmt va \<lparr>buffer = buf, pbuffer = 0, buffer_len = len, pmem = m\<rparr>) (\<lambda>b.
       Inr (pbuffer b, pmem b))"

section \<open>Printing\<close>

definition PRINT_SIZE :: nat where "PRINT_SIZE = 256"

definition vprint :: "u8 list \<Rightarrow> scr_obj slot list \<Rightarrow> scr_obj mem \<Rightarrow> (nat \<times> scr_obj mem) res" where
  "vprint fmt va m =
     bindE (mini_vsnprintf (Bf, 0) (Buff, 0) PRINT_SIZE fmt va m) (\<lambda>(ret, m). Inr (ret, m((Buff, ret) := 0)))"

definition printk :: "nat \<Rightarrow> u8 list \<Rightarrow> scr_obj slot list \<Rightarrow> 's scr_scheme \<Rightarrow> (nat \<times> 's scr_scheme) res" where
  "printk cpu fmt va s =
     bindE (vprint fmt va (smem s)) (\<lambda>(ret, m).
     bindE (screen_write cpu (Buff, 0) (s\<lparr>smem := m\<rparr>)) (\<lambda>s. Inr (ret, screen_reflush cpu s)))"

text \<open>\<open>printv\<close> and \<open>printl\<close> give the string to the firmware; the model returns it.\<close>

definition printv :: "u8 list \<Rightarrow> scr_obj slot list \<Rightarrow> scr_obj mem \<Rightarrow> u8 list res" where
  "printv fmt va m = bindE (vprint fmt va m) (\<lambda>(ret, m). Inr (bytes_at m (Buff, 0) ret))"

end
