(* ===== verification/PrintkSpec.thy ===== *)
theory PrintkSpec
  imports Printk
begin

text \<open>
  What formatted output promises: numbers are printed as their digits, output never leaves its
  buffer, and a format whose arguments have the types it asks for is always printed.
\<close>

section \<open>Writing lists of bytes\<close>

fun put_bytes :: "'o mem \<Rightarrow> 'o ptr \<Rightarrow> u8 list \<Rightarrow> 'o mem" where
  "put_bytes m p [] = m"
| "put_bytes m p (c # cs) = put_bytes (m(p := c)) (padd p 1) cs"

lemma ptr_eq_iff: "q = padd p i \<longleftrightarrow> fst q = fst p \<and> snd q = snd p + i"
  by (cases p; cases q) auto

lemma snd_padd [simp]: "snd (padd p n) = snd p + n"
  by (cases p) simp

lemma put_bytes_closed:
  "put_bytes m p cs q = (if fst q = fst p \<and> snd p \<le> snd q \<and> snd q < snd p + length cs then cs ! (snd q - snd p) else m q)"
proof (induction cs arbitrary: m p)
  case (Cons c cs)
  show ?case
  proof (cases "q = p")
    case True
    then show ?thesis using Cons [of "m(p := c)" "padd p 1"] by (simp del: fun_upd_apply) simp
  next
    case False
    then show ?thesis by (auto simp: Cons nth_Cons' prod_eq_iff Suc_diff_Suc)
  qed
qed auto

lemma put_bytes_at: "k < length cs \<Longrightarrow> put_bytes m p cs (padd p k) = cs ! k"
  by (simp add: put_bytes_closed)

lemma put_bytes_append: "put_bytes m p (xs @ ys) = put_bytes (put_bytes m p xs) (padd p (length xs)) ys"
  by (induction xs arbitrary: m p) simp_all

section \<open>Digits\<close>

text \<open>The digits of a number, least significant first.\<close>

function digits_rev :: "int \<Rightarrow> int \<Rightarrow> int list" where
  "digits_rev r v = (v mod r) # (if v div r > 0 \<and> 2 \<le> r then digits_rev r (v div r) else [])"
  by pat_completeness auto
termination
proof (relation "measure (\<lambda>(r, v). nat v)", simp, goal_cases)
  case (1 r v)
  then have "v div r < v" by (intro int_div_less_self) (auto simp: pos_imp_zdiv_pos_iff intro: order_less_le_trans [of 0 r])
  then show ?case using 1 by simp
qed

declare digits_rev.simps [simp del]

definition digits :: "int \<Rightarrow> int \<Rightarrow> int list" where
  "digits r v = rev (digits_rev r v)"

definition read_digits :: "int \<Rightarrow> int list \<Rightarrow> int" where
  "read_digits r ds = foldl (\<lambda>a d. a * r + d) 0 ds"

lemma digits_rev_value:
  assumes "2 \<le> r" and "0 \<le> v"
  shows "foldr (\<lambda>d a. a * r + d) (digits_rev r v) 0 = v"
  using assms
proof (induction r v rule: digits_rev.induct)
  case (1 r v)
  have nn: "0 \<le> v div r" using 1(2,3) by (simp add: pos_imp_zdiv_nonneg_iff)
  show ?case
  proof (cases "v div r = 0")
    case True
    then have "v mod r = v" using mult_div_mod_eq [of r v] by simp
    then show ?thesis using True by (subst digits_rev.simps) simp
  next
    case False
    then show ?thesis using 1 nn by (subst digits_rev.simps) simp
  qed
qed

lemma digits_value: "2 \<le> r \<Longrightarrow> 0 \<le> v \<Longrightarrow> read_digits r (digits r v) = v"
  using digits_rev_value [of r v] by (simp add: read_digits_def digits_def foldl_conv_foldr)

lemma digits_range: "2 \<le> r \<Longrightarrow> d \<in> set (digits r v) \<Longrightarrow> 0 \<le> d \<and> d < r"
proof (unfold digits_def set_rev, induction r v rule: digits_rev.induct)
  case (1 r v)
  then show ?case by (subst (asm) (2) digits_rev.simps) (auto split: if_splits)
qed

lemma digits_rev_length: "2 \<le> r \<Longrightarrow> v < r ^ Suc n \<Longrightarrow> length (digits_rev r v) \<le> Suc n"
proof (induction n arbitrary: v)
  case 0
  then show ?case by (subst digits_rev.simps) (auto simp: zdiv_eq_0_iff pos_imp_zdiv_pos_iff)
next
  case (Suc n)
  have "r * (v div r) \<le> v" using Suc.prems(1) mult_div_mod_eq [of r v] pos_mod_sign [of r v] by linarith
  then have "r * (v div r) < r * r ^ Suc n" using Suc.prems(2) by simp
  then have "v div r < r ^ Suc n" using Suc.prems(1) by (simp add: mult_less_cancel_left_pos)
  then show ?case using Suc.IH [of "v div r"] Suc.prems(1) by (subst digits_rev.simps) simp
qed

lemma itoa_loop_digits:
  assumes "2 \<le> r" and "0 \<le> v"
  shows "itoa_loop m p v r u = (put_bytes m p (map (digit_char u) (digits_rev r v)), padd p (length (digits_rev r v)))"
  using assms
proof (induction m p v r u rule: itoa_loop.induct)
  case (1 m p v r u)
  have c: "crem v r = v mod r" "cquot v r = v div r" using 1(3) by (simp_all add: crem_def cquot_def)
  have nn: "0 \<le> v div r" using 1(2,3) by (simp add: pos_imp_zdiv_nonneg_iff)
  show ?case
  proof (cases "v div r = 0")
    case True
    then show ?thesis by (subst itoa_loop.simps, subst (1 2) digits_rev.simps) (simp add: c)
  next
    case False
    have "itoa_loop (m(p := digit_char u (v mod r))) (padd p 1) (v div r) r u =
        (put_bytes (m(p := digit_char u (v mod r))) (padd p 1) (map (digit_char u) (digits_rev r (v div r))),
         padd (padd p 1) (length (digits_rev r (v div r))))"
      using 1(1) [OF refl refl] False 1(2) nn by (simp add: c del: fun_upd_apply)
    moreover have "itoa_loop m p v r u = itoa_loop (m(p := digit_char u (v mod r))) (padd p 1) (v div r) r u"
      using False 1(2) by (subst itoa_loop.simps) (simp add: c Let_def)
    moreover have "digits_rev r v = (v mod r) # digits_rev r (v div r)" using False nn 1(2) by (subst digits_rev.simps) simp
    ultimately show ?thesis by (simp del: fun_upd_apply)
  qed
qed

section \<open>Reversing\<close>

lemma swap_ends_closed:
  assumes "i < len div 2"
  shows "swap_ends b len i m q =
    (if q = padd b i then m (padd b (len - 1 - i)) else if q = padd b (len - 1 - i) then m (padd b i) else m q)"
  using assms by (auto simp: swap_ends_def Let_def)

lemma swap_all_closed:
  assumes "n \<le> len div 2"
  shows "fold (swap_ends b len) [0..<n] m (padd b k) =
    (if k < n \<or> len - n \<le> k \<and> k < len then m (padd b (len - 1 - k)) else m (padd b k))"
    and "(\<And>k. k < len \<Longrightarrow> q \<noteq> padd b k) \<Longrightarrow> fold (swap_ends b len) [0..<n] m q = m q"
proof -
  show "fold (swap_ends b len) [0..<n] m (padd b k) =
    (if k < n \<or> len - n \<le> k \<and> k < len then m (padd b (len - 1 - k)) else m (padd b k))"
    using assms
  proof (induction n arbitrary: k)
    case (Suc n)
    have n: "n < len div 2" "n \<le> len div 2" using Suc.prems by simp_all
    have e: "len - 1 - n < len" "\<not> (len - 1 - n < n)" "\<not> len - n \<le> len - 1 - n" "\<not> len - n \<le> n" using n by auto
    consider "k = n" | "k = len - 1 - n" "k \<noteq> n" | "k \<noteq> n" "k \<noteq> len - 1 - n" by blast
    then show ?case
    proof cases
      case 1
      then show ?thesis using Suc.IH [OF n(2)] n e by (simp add: swap_ends_closed)
    next
      case 2
      then show ?thesis using Suc.IH [OF n(2), of n] n e by (auto simp: swap_ends_closed)
    next
      case 3
      have "k < Suc n \<or> len - Suc n \<le> k \<and> k < len \<longleftrightarrow> k < n \<or> len - n \<le> k \<and> k < len" using 3 n by auto
      then show ?thesis using Suc.IH [OF n(2), of k] n 3 by (simp add: swap_ends_closed)
    qed
  qed auto
  show "fold (swap_ends b len) [0..<n] m q = m q" if "\<And>k. k < len \<Longrightarrow> q \<noteq> padd b k"
    using assms
  proof (induction n)
    case (Suc n)
    then show ?case using that [of n] that [of "len - 1 - n"] by (simp add: swap_ends_closed)
  qed simp
qed

lemma swap_all_rev:
  "k < len \<Longrightarrow> fold (swap_ends b len) [0..<len div 2] m (padd b k) = m (padd b (len - 1 - k))"
proof -
  assume k: "k < len"
  have "\<not> (k < len div 2 \<or> len - len div 2 \<le> k \<and> k < len) \<Longrightarrow> len - 1 - k = k" using k by auto
  then show ?thesis using swap_all_closed(1) [OF order_refl, of b len m k] by auto
qed

section \<open>Printing a number\<close>

text \<open>The text of a number: a sign, zeros up to the width, the digits.\<close>

definition number_text :: "bool \<Rightarrow> nat \<Rightarrow> bool \<Rightarrow> int \<Rightarrow> int \<Rightarrow> u8 list" where
  "number_text negative zero_pad uppercase r v =
     (if negative then [45] else []) @ replicate (zero_pad - length (digits r v)) 48 @ map (digit_char uppercase) (digits r v)"

lemma pad_bytes:
  "fold (\<lambda>i m. m(padd b i := 48)) [n..<k] m = put_bytes m (padd b n) (replicate (k - n) 48)"
proof (induction "k - n" arbitrary: n m)
  case (Suc d)
  then have "[n..<k] = n # [Suc n..<k]" "k - n = Suc (k - Suc n)" by (simp_all add: upt_conv_Cons)
  moreover have "fold (\<lambda>i m. m(padd b i := 48)) [Suc n..<k] (m(padd b n := 48)) =
      put_bytes (m(padd b n := 48)) (padd b (Suc n)) (replicate (k - Suc n) 48)"
    using Suc by auto
  ultimately show ?case by (simp del: upt_rec_numeral fun_upd_apply)
qed simp

lemma mini_itoa_ok:
  fixes zp :: nat and u :: bool and m :: "'o mem"
  assumes r: "2 \<le> r" "r \<le> 16" and v: "itoa_value value unsig = (neg, v)" "0 \<le> v"
  defines "t \<equiv> number_text neg zp u r v"
  shows "\<exists>m'. mini_itoa value r u unsig b zp m = (length t, m') \<and> (\<forall>k<length t. m' (padd b k) = t ! k) \<and>
    m' (padd b (length t)) = 0 \<and> (\<forall>q. fst q \<noteq> fst b \<or> snd q < snd b \<or> snd b + length t < snd q \<longrightarrow> m' q = m q)"
proof -
  let ?ds = "map (digit_char u) (digits_rev r v)"
  let ?n = "length (digits_rev r v)"
  define w where "w = ?ds @ replicate (zp - ?n) 48 @ (if neg then [45] else [])"
  let ?l = "length w"
  let ?m1 = "(put_bytes m b w)(padd b ?l := 0)"
  have t: "t = rev w" by (simp add: w_def t_def number_text_def digits_def rev_map)
  have it: "itoa_loop m b v r u = (put_bytes m b ?ds, padd b ?n)" by (rule itoa_loop_digits [OF r(1) v(2)])
  have "mini_itoa value r u unsig b zp m = (?l, fold (swap_ends b ?l) [0..<?l div 2] ?m1)"
  proof (cases neg)
    case True
    have wr: "put_bytes (put_bytes m b ?ds) (padd b ?n) (replicate (zp - ?n) 48) = put_bytes m b (?ds @ replicate (zp - ?n) 48)"
      by (simp add: put_bytes_append)
    have m: "max ?n zp = length (?ds @ replicate (zp - ?n) 48)" by simp
    have s: "(put_bytes m b (?ds @ replicate (zp - ?n) 48))(padd b (max ?n zp) := 45) = put_bytes m b w"
      unfolding m using True put_bytes_append [of m b "?ds @ replicate (zp - ?n) 48" "[45]"] by (simp add: w_def)
    have l: "Suc (max ?n zp) = ?l" using True by (simp add: w_def)
    show ?thesis using r(2) True by (simp add: mini_itoa_def v(1) it pad_bytes wr s l Let_def del: fun_upd_apply length_append)
  next
    case False
    have wr: "put_bytes (put_bytes m b ?ds) (padd b ?n) (replicate (zp - ?n) 48) = put_bytes m b w"
      using False by (simp add: w_def put_bytes_append)
    have l: "max ?n zp = ?l" using False by (simp add: w_def)
    show ?thesis using r(2) False by (simp add: mini_itoa_def v(1) it pad_bytes wr l Let_def del: fun_upd_apply length_append)
  qed
  moreover have "fold (swap_ends b ?l) [0..<?l div 2] ?m1 (padd b k) = t ! k" if "k < ?l" for k
  proof -
    have lt: "?l - Suc k < ?l" "?l - Suc k \<noteq> ?l" using that by auto
    show ?thesis using swap_all_rev [OF that, of b ?m1] lt put_bytes_at [OF lt(1), of m b] that by (simp add: t rev_nth)
  qed
  moreover have "fold (swap_ends b ?l) [0..<?l div 2] ?m1 (padd b ?l) = 0"
    by (subst swap_all_closed(2)) auto
  moreover have "fold (swap_ends b ?l) [0..<?l div 2] ?m1 q = m q" if "fst q \<noteq> fst b \<or> snd q < snd b \<or> snd b + ?l < snd q" for q
  proof (subst swap_all_closed(2))
    show "q \<noteq> padd b k" if "k < ?l" for k using that \<open>fst q \<noteq> fst b \<or> snd q < snd b \<or> snd b + ?l < snd q\<close> by (auto simp: ptr_eq_iff)
    show "?m1 q = m q" using that by (auto simp: ptr_eq_iff put_bytes_closed)
  qed simp
  moreover have "length t = ?l" by (simp add: t)
  ultimately show ?thesis by (intro exI [of _ "fold (swap_ends b ?l) [0..<?l div 2] ?m1"]) simp
qed

section \<open>Bounds\<close>

text \<open>
  \<open>inside bf b b'\<close>: between the two states only the output buffer and the 24 bytes at \<open>bf\<close> differ, and
  the position is in the buffer if it was.
\<close>

definition inside :: "'o ptr \<Rightarrow> 'o mini_buff \<Rightarrow> 'o mini_buff \<Rightarrow> bool" where
  "inside bf b b' \<longleftrightarrow> buffer b' = buffer b \<and> buffer_len b' = buffer_len b \<and>
     (pbuffer b < buffer_len b \<longrightarrow> pbuffer b' < buffer_len b \<and>
       (\<forall>q. (fst q = fst (buffer b) \<longrightarrow> snd q < snd (buffer b) \<or> snd (buffer b) + buffer_len b \<le> snd q) \<longrightarrow>
          (fst q = fst bf \<longrightarrow> snd q < snd bf \<or> snd bf + BF_SIZE \<le> snd q) \<longrightarrow> pmem b' q = pmem b q))"

lemma inside_refl [simp]: "inside bf b b"
  by (simp add: inside_def)

lemma inside_trans: "inside bf b b' \<Longrightarrow> inside bf b' b'' \<Longrightarrow> inside bf b b''"
  by (simp add: inside_def)

lemma mb_putc_inside: "inside bf b (mb_putc c b)"
  by (auto simp: inside_def mb_putc_def ptr_eq_iff)

lemma copy_bytes_outside:
  assumes "\<And>i. i < n \<Longrightarrow> q \<noteq> padd d (k + i)"
  shows "fold (\<lambda>i m. m(padd d (k + i) := m (padd s i))) [0..<n] m q = m q"
  using assms by (induction n) auto

lemma mb_puts_inside: "inside bf b (mb_puts s n b)"
proof -
  let ?n = "min n (buffer_len b - pbuffer b - 1)"
  have "pmem (mb_puts s n b) q = pmem b q"
    if "pbuffer b < buffer_len b" "fst q = fst (buffer b) \<longrightarrow> snd q < snd (buffer b) \<or> snd (buffer b) + buffer_len b \<le> snd q" for q
  proof -
    have "q \<noteq> padd (buffer b) (pbuffer b + i)" if "i \<le> ?n" for i
      using that \<open>pbuffer b < buffer_len b\<close> \<open>fst q = fst (buffer b) \<longrightarrow> _\<close> by (auto simp: ptr_eq_iff)
    then show ?thesis using copy_bytes_outside [of ?n q "buffer b" "pbuffer b" s "pmem b"] by (simp add: mb_puts_def Let_def)
  qed
  then show ?thesis by (auto simp: inside_def mb_puts_def Let_def)
qed

text \<open>Only the least \<open>long\<close> is still negative when its digits are taken.\<close>

definition itoa_plain :: "u64 \<Rightarrow> bool \<Rightarrow> bool" where
  "itoa_plain x unsig \<longleftrightarrow> unsig \<or> x \<noteq> push_bit 63 1"

lemma sint_minus_plain:
  fixes x :: u64
  assumes "x \<noteq> push_bit 63 1"
  shows "sint (- x) = - sint x"
proof -
  have s: "sint x < 2 ^ 63" "- (2 ^ 63) \<le> sint x" using sint_lt [of x] sint_ge [of x] by simp_all
  have "sint x \<noteq> - (2 ^ 63)"
  proof
    assume "sint x = - (2 ^ 63)"
    then have "word_of_int (sint x) = (word_of_int (- (2 ^ 63)) :: u64)" by (rule arg_cong)
    then show False using assms by simp
  qed
  then have "signed_take_bit 63 (- sint x) = - sint x" using s by (intro signed_take_bit_int_eq_self) simp_all
  then show ?thesis by (simp add: sint_word_ariths)
qed

lemma itoa_value_plain:
  assumes "itoa_plain x unsig"
  shows "itoa_value x unsig = (\<not> unsig \<and> sint x < 0, if unsig then uint x else \<bar>sint x\<bar>)"
  using assms sint_minus_plain [of x] by (auto simp: itoa_value_def itoa_plain_def)

lemma itoa_loop_frame:
  "itoa_loop m p v r u = (m', p') \<Longrightarrow> fst p' = fst p \<and> snd p < snd p' \<and>
     (\<forall>q. fst q \<noteq> fst p \<or> snd q < snd p \<or> snd p' \<le> snd q \<longrightarrow> m' q = m q)"
proof (induction m p v r u arbitrary: m' p' rule: itoa_loop.induct)
  case (1 m p v r u)
  let ?m = "m(p := digit_char u (crem v r))"
  show ?case
  proof (cases "cquot v r \<noteq> 0 \<and> 2 \<le> r")
    case True
    have "itoa_loop m p v r u = itoa_loop ?m (padd p 1) (cquot v r) r u" using True by (subst itoa_loop.simps) (simp add: Let_def)
    then have "itoa_loop ?m (padd p 1) (cquot v r) r u = (m', p')" using 1(2) by simp
    note ih = 1(1) [OF refl refl True this]
    have "m' q = m q" if "fst q \<noteq> fst p \<or> snd q < snd p \<or> snd p' \<le> snd q" for q
    proof -
      have "q \<noteq> p" using that ih by auto
      moreover have "m' q = ?m q" using that ih by (cases q) (auto simp del: fun_upd_apply)
      ultimately show ?thesis by simp
    qed
    then show ?thesis using ih by auto
  next
    case False
    then show ?thesis using 1(2) by (subst (asm) itoa_loop.simps) auto
  qed
qed

lemma mini_itoa_frame:
  assumes run: "mini_itoa x r u unsig b zp m = (len, m')" and q: "fst q \<noteq> fst b \<or> snd q < snd b \<or> snd b + len < snd q"
  shows "m' q = m q"
proof (cases "r > 16")
  case False
  obtain neg v where v: "itoa_value x unsig = (neg, v)" by fastforce
  obtain m1 p where i: "itoa_loop m b v r u = (m1, p)" by (cases "itoa_loop m b v r u")
  let ?n = "snd p - snd b"
  have fr: "fst p = fst b" "snd b < snd p" "\<And>q. fst q \<noteq> fst b \<or> snd q < snd b \<or> snd p \<le> snd q \<Longrightarrow> m1 q = m q"
    using itoa_loop_frame [OF i] by auto
  have len: "len = (if neg then Suc (max ?n zp) else max ?n zp)"
    using run False by (auto simp: mini_itoa_def v i Let_def split: if_splits)
  let ?m2 = "put_bytes m1 (padd b ?n) (replicate (zp - ?n) 48)"
  let ?m3 = "(if neg then ?m2(padd b (max ?n zp) := 45) else ?m2)(padd b len := 0)"
  have m': "m' = fold (swap_ends b len) [0..<len div 2] ?m3"
    using run False by (auto simp: mini_itoa_def v i Let_def pad_bytes split: if_splits)
  have ne: "q \<noteq> padd b k" if "k \<le> len" for k using q that by (auto simp: ptr_eq_iff)
  have "max ?n zp \<le> len" using len by (simp add: max_def)
  then have "snd p \<le> snd q" if "snd b + len < snd q" using that by linarith
  then have "m1 q = m q" using fr(3) [of q] q by blast
  moreover have "?m2 q = m1 q" using q len by (auto simp: put_bytes_closed split: if_splits)
  moreover have "q \<noteq> padd b (max ?n zp)" using ne [of "max ?n zp"] len by (simp add: max_def)
  ultimately have "?m3 q = m q" using ne [of len] by simp
  then show ?thesis unfolding m' using swap_all_closed(2) [of "len div 2" len q b ?m3] ne by simp
qed (use run in \<open>simp add: mini_itoa_def\<close>)

lemma put_number_inside:
  assumes "put_number bf v r up unsig zp b = Inr b'"
  shows "inside bf b b'"
proof -
  obtain len m where i: "mini_itoa v r up unsig bf (unat zp) (pmem b) = (len, m)" by fastforce
  then have len: "len < BF_SIZE" and b': "b' = mb_puts bf len (b\<lparr>pmem := m\<rparr>)"
    using assms by (auto simp: put_number_def guardE_eq_Inr)
  have "m q = pmem b q" if "fst q = fst bf \<longrightarrow> snd q < snd bf \<or> snd bf + BF_SIZE \<le> snd q" for q
    by (rule mini_itoa_frame [OF i]) (use that len in auto)
  then have "inside bf b (b\<lparr>pmem := m\<rparr>)" by (simp add: inside_def)
  then show ?thesis unfolding b' by (rule inside_trans) (rule mb_puts_inside)
qed

lemma convert_inside: "convert bf zp l c va b = Inr (Some (va', b')) \<Longrightarrow> inside bf b b'"
  by (auto simp: convert_def res_eq_Inr mb_putc_inside mb_puts_inside dest!: put_number_inside split: if_splits option.splits)

lemma vsn_loop_inside: "vsn_loop bf fmt va b = Inr b' \<Longrightarrow> inside bf b b'"
proof (induction bf fmt va b rule: vsn_loop.induct)
  case (2 bf ch fmt va b)
  note prem = "2.prems" and ih = "2.IH"
  obtain zp l c rest where sc: "scan_directive fmt = (zp, l, c, rest)" by (metis prod_cases4)
  show ?case
  proof (cases "buffer_len b \<le> pbuffer b + 1 \<or> ch \<noteq> 37")
    case True
    then show ?thesis using ih(1) prem by (auto intro: inside_trans [OF mb_putc_inside] split: if_splits)
  next
    case False
    then consider (fin) "b' = b" | (more) va' b1 where "convert bf zp l c va b = Inr (Some (va', b1))" "vsn_loop bf rest va' b1 = Inr b'"
      using prem by (auto simp: sc split: sum.splits option.splits)
    then show ?thesis
    proof cases
      case more
      have "inside bf b1 b'" using ih(2) [OF _ _ sc [symmetric]] False more by simp
      with convert_inside [OF more(1)] show ?thesis by (rule inside_trans)
    qed simp
  qed
qed simp

section \<open>The text a format stands for\<close>

text \<open>
  The reference: the text of a directive, taken from the slots, and the slots that are left.  There
  is none when a slot is missing or of the wrong kind, when the number with its padding does not fit
  in \<open>bf\<close>, and for \<open>%ld\<close> of the least \<open>long\<close>.
\<close>

definition number_of :: "u8 \<Rightarrow> u8 \<Rightarrow> u64 \<Rightarrow> u8 list" where
  "number_of zp c v = number_text (c = 100 \<and> sint v < 0) (unat zp) (c = 88) (if c = 100 \<or> c = 117 then 10 else 16)
     (if c = 100 then \<bar>sint v\<bar> else uint v)"

fun directive_text :: "'o mem \<Rightarrow> u8 \<Rightarrow> bool \<Rightarrow> u8 \<Rightarrow> 'o slot list \<Rightarrow> (u8 list \<times> 'o slot list) option" where
  "directive_text m zp l c va =
     (if c = 108 then Some ([], va)
      else if c = 117 \<or> c = 100 \<or> c = 120 \<or> c = 88 then
        (case va_num l va of Inl e \<Rightarrow> None
         | Inr (v, va) \<Rightarrow> if length (number_of zp c v) < BF_SIZE \<and> itoa_plain v (c \<noteq> 100) then Some (number_of zp c v, va) else None)
      else if c = 99 then (case va_num False va of Inl e \<Rightarrow> None | Inr (v, va) \<Rightarrow> Some ([ucast v], va))
      else if c = 115 then
        (case va_str va of Inl e \<Rightarrow> None
         | Inr (p, va) \<Rightarrow> map_option (\<lambda>n. (bytes_at m p n, va)) (strlen m p))
      else Some ([c], va))"

declare directive_text.simps [simp del]

function render :: "'o mem \<Rightarrow> u8 list \<Rightarrow> 'o slot list \<Rightarrow> u8 list option" where
  "render m [] va = Some []"
| "render m (ch # fmt) va =
     (if ch \<noteq> 37 then map_option (Cons ch) (render m fmt va)
      else case scan_directive fmt of (zp, l, c, rest) \<Rightarrow>
        if c = 0 then Some []
        else (case directive_text m zp l c va of
           None \<Rightarrow> None
         | Some (t, va) \<Rightarrow> map_option ((@) t) (render m rest va)))"
  by pat_completeness auto
termination
  by (relation "measure (\<lambda>(m, fmt, va). length fmt)") (auto simp: less_Suc_eq_le dest: scan_directive_shorter [OF sym])

text \<open>\<open>holds b out\<close>: the buffer holds exactly \<open>out\<close>, with room for the final zero.\<close>

definition holds :: "'o mini_buff \<Rightarrow> u8 list \<Rightarrow> bool" where
  "holds b out \<longleftrightarrow> pbuffer b = length out \<and> length out < buffer_len b \<and> bytes_at (pmem b) (buffer b) (length out) = out"

lemma holds_nth: "holds b out \<longleftrightarrow> pbuffer b = length out \<and> length out < buffer_len b \<and>
    (\<forall>k<length out. pmem b (padd (buffer b) k) = out ! k)"
  by (auto simp: holds_def list_eq_iff_nth_eq nth_bytes_at)

lemma holds_putc: "holds b out \<Longrightarrow> holds (mb_putc c b) (take (buffer_len b - 1) (out @ [c]))"
  by (auto simp: holds_nth mb_putc_def nth_append less_Suc_eq)

lemma copy_bytes_at:
  assumes "fst s \<noteq> fst d"
  shows "fold (\<lambda>i m. m(padd d (k + i) := m (padd s i))) [0..<n] m (padd d j) =
    (if k \<le> j \<and> j < k + n then m (padd s (j - k)) else m (padd d j))"
proof (induction n)
  case (Suc n)
  have "padd s n \<noteq> padd d (k + i)" for i using assms by (auto simp: ptr_eq_iff)
  then have "fold (\<lambda>i m. m(padd d (k + i) := m (padd s i))) [0..<n] m (padd s n) = m (padd s n)"
    by (rule copy_bytes_outside)
  then show ?case using Suc by (auto simp del: fun_upd_apply simp: fun_upd_apply [of _ "padd d (k + n)" _ "padd d j"])
qed auto

lemma holds_puts:
  assumes "holds b out" and "fst s \<noteq> fst (buffer b)" and "\<And>k. k < length t \<Longrightarrow> pmem b (padd s k) = t ! k"
  shows "holds (mb_puts s (length t) b) (take (buffer_len b - 1) (out @ t))"
proof -
  let ?n = "min (length t) (buffer_len b - pbuffer b - 1)"
  have h: "pbuffer b = length out" "length out < buffer_len b" "\<And>k. k < length out \<Longrightarrow> pmem b (padd (buffer b) k) = out ! k"
    using assms(1) by (auto simp: holds_nth)
  have l: "length (take (buffer_len b - 1) (out @ t)) = length out + ?n" using h(1,2) by auto
  have "pmem (mb_puts s (length t) b) (padd (buffer b) k) = take (buffer_len b - 1) (out @ t) ! k" if "k < length out + ?n" for k
  proof -
    have "k < buffer_len b - 1" using that h(1,2) by auto
    then show ?thesis using that h assms(3) [of "k - length out"]
      by (auto simp: mb_puts_def Let_def copy_bytes_at [OF assms(2)] nth_append)
  qed
  then show ?thesis using h(1,2) unfolding holds_nth l by (auto simp: mb_puts_def Let_def)
qed

lemma strlen_from_sound:
  assumes "strlen_from m p i = Some n"
  shows "i \<le> n \<and> m (padd p n) = 0 \<and> (\<forall>k. i \<le> k \<and> k < n \<longrightarrow> m (padd p k) \<noteq> 0)"
proof (rule strlen_from.raw_induct [OF _ assms])
  fix f :: "'a mem \<Rightarrow> 'a ptr \<Rightarrow> nat \<Rightarrow> nat option" and m p i n
  assume ih: "\<And>m p i n. f m p i = Some n \<Longrightarrow> i \<le> n \<and> m (padd p n) = 0 \<and> (\<forall>k. i \<le> k \<and> k < n \<longrightarrow> m (padd p k) \<noteq> 0)"
    and run: "(if m (padd p i) \<noteq> 0 then f m p (i + 1) else Some i) = Some n"
  show "i \<le> n \<and> m (padd p n) = 0 \<and> (\<forall>k. i \<le> k \<and> k < n \<longrightarrow> m (padd p k) \<noteq> 0)"
  proof (cases "m (padd p i) = 0")
    case False
    then have r: "i + 1 \<le> n \<and> m (padd p n) = 0 \<and> (\<forall>k. i + 1 \<le> k \<and> k < n \<longrightarrow> m (padd p k) \<noteq> 0)" using ih [of m p "i + 1" n] run by simp
    have "m (padd p k) \<noteq> 0" if "i \<le> k" "k < n" for k using r False that by (cases "k = i") auto
    then show ?thesis using r by simp
  qed (use run in auto)
qed

lemma strlen_cong:
  assumes "strlen m p = Some n" and "\<And>i. m' (padd p' i) = m (padd p i)"
  shows "strlen m' p' = Some n"
proof -
  have "cstr m' p' (bytes_at m p n)" using strlen_from_sound [of m p 0 n] assms by (simp add: strlen_def cstr_iff)
  then show ?thesis using strlen_cstr by fastforce
qed

lemma put_number_ok:
  assumes "holds b out" and "fst bf \<noteq> fst (buffer b)" and "c \<in> {117, 100, 120, 88}"
    and fits: "length (number_of zp c v) < BF_SIZE" "itoa_plain v (c \<noteq> 100)"
  shows "\<exists>b'. put_number bf v (if c = 100 \<or> c = 117 then 10 else 16) (c = 88) (c \<noteq> 100) zp b = Inr b' \<and>
    holds b' (take (buffer_len b - 1) (out @ number_of zp c v))"
proof -
  let ?r = "if c = 100 \<or> c = 117 then 10 else 16 :: int" and ?t = "number_of zp c v"
  have "itoa_value v (c \<noteq> 100) = (c = 100 \<and> sint v < 0, if c = 100 then \<bar>sint v\<bar> else uint v)"
    using itoa_value_plain [OF fits(2)] by simp
  moreover have "0 \<le> (if c = 100 then \<bar>sint v\<bar> else uint v)" by simp
  ultimately have "\<exists>m'. mini_itoa v ?r (c = 88) (c \<noteq> 100) bf (unat zp) (pmem b) = (length ?t, m') \<and>
      (\<forall>k<length ?t. m' (padd bf k) = ?t ! k) \<and> m' (padd bf (length ?t)) = 0 \<and>
      (\<forall>q. fst q \<noteq> fst bf \<or> snd q < snd bf \<or> snd bf + length ?t < snd q \<longrightarrow> m' q = pmem b q)"
    unfolding number_of_def by (intro mini_itoa_ok) simp_all
  then obtain m where m: "mini_itoa v ?r (c = 88) (c \<noteq> 100) bf (unat zp) (pmem b) = (length ?t, m)"
    "\<And>k. k < length ?t \<Longrightarrow> m (padd bf k) = ?t ! k" "\<And>q. fst q \<noteq> fst bf \<Longrightarrow> m q = pmem b q"
    by blast
  have "holds (b\<lparr>pmem := m\<rparr>) out" using assms(1,2) m(3) by (auto simp: holds_nth)
  then have "holds (mb_puts bf (length ?t) (b\<lparr>pmem := m\<rparr>)) (take (buffer_len b - 1) (out @ ?t))"
    using holds_puts [of "b\<lparr>pmem := m\<rparr>" out bf ?t] assms(2) m(2) by simp
  then show ?thesis using fits(1) by (simp add: put_number_def m(1) guardE_def)
qed

text \<open>The strings among the slots lie outside the two arrays.\<close>

definition apart :: "'o ptr \<Rightarrow> 'o mini_buff \<Rightarrow> 'o slot list \<Rightarrow> bool" where
  "apart bf b va \<longleftrightarrow> fst bf \<noteq> fst (buffer b) \<and>
     list_all (\<lambda>a. case a of Num v \<Rightarrow> True | Str p \<Rightarrow> fst p \<noteq> fst bf \<and> fst p \<noteq> fst (buffer b)) va"

lemma convert_text:
  assumes h: "holds b out" and a: "apart bf b va"
    and same: "\<And>q. fst q \<noteq> fst bf \<Longrightarrow> fst q \<noteq> fst (buffer b) \<Longrightarrow> pmem b q = m q"
    and t: "directive_text m zp l c va = Some (t, va')" and c: "c \<noteq> 0"
  shows "\<exists>b'. convert bf zp l c va b = Inr (Some (va', b')) \<and> holds b' (take (buffer_len b - 1) (out @ t)) \<and> apart bf b va'"
proof -
  consider (n) "c \<in> {117, 100, 120, 88}" | (ch) "c = 99" | (s) "c = 115" | (l) "c = 108" | (o) "c \<notin> {117, 100, 120, 88, 99, 115, 108}" by blast
  then show ?thesis
  proof cases
    case n
    then have "c \<noteq> 108" "c = 117 \<or> c = 100 \<or> c = 120 \<or> c = 88" by auto
    then obtain v where v: "va_num l va = Inr (v, va')" and f: "length (number_of zp c v) < BF_SIZE" "itoa_plain v (c \<noteq> 100)" "t = number_of zp c v"
      using t by (auto simp: directive_text.simps split: sum.splits if_splits)
    obtain b' where b': "put_number bf v (if c = 100 \<or> c = 117 then 10 else 16) (c = 88) (c \<noteq> 100) zp b = Inr b'"
      "holds b' (take (buffer_len b - 1) (out @ t))"
      using put_number_ok [OF h, of bf, OF _ n f(1,2)] a unfolding f(3) apart_def by blast
    have "apart bf b va'" using v a by (cases "(l, va)" rule: va_num.cases) (auto simp: apart_def)
    moreover have "convert bf zp l c va b = Inr (Some (va', b'))" using n v b'(1) by (auto simp: convert_def)
    ultimately show ?thesis using b'(2) by blast
  next
    case ch
    then obtain v where v: "va_num False va = Inr (v, va')" and t': "t = [ucast v]"
      using t by (auto simp: directive_text.simps split: sum.splits)
    have "apart bf b va'" using v a by (cases "(False, va)" rule: va_num.cases) (auto simp: apart_def)
    then show ?thesis using holds_putc [OF h] v ch t' by (auto simp: convert_def)
  next
    case s
    then obtain p n where v: "va_str va = Inr (p, va')" and p: "strlen m p = Some n" "t = bytes_at m p n"
      using t by (auto simp: directive_text.simps split: sum.splits)
    have ap: "fst p \<noteq> fst bf" "fst p \<noteq> fst (buffer b)" "apart bf b va'" using v a by (cases va rule: va_str.cases; auto simp: apart_def)+
    have "pmem b (padd p i) = m (padd p i)" for i using same [of "padd p i"] ap by (cases p) simp
    then have "strlen (pmem b) p = Some n" "\<And>k. k < length t \<Longrightarrow> pmem b (padd p k) = t ! k"
      using p strlen_cong [OF p(1), of "pmem b" p] by simp_all
    then show ?thesis using holds_puts [OF h ap(2), of t] s v p(2) ap(3) by (auto simp: convert_def)
  next
    case l
    then show ?thesis using t h a by (auto simp: directive_text.simps convert_def holds_def)
  next
    case o
    then show ?thesis using t holds_putc [OF h, of c] a c by (auto simp: directive_text.simps convert_def)
  qed
qed

lemma take_take_append: "take n (take n xs @ ys) = take n (xs @ ys)"
  by (cases "length xs \<le> n") auto

lemma vsn_loop_text:
  assumes "render m fmt va = Some t" and "holds b out" and "apart bf b va"
    and "\<And>q. fst q \<noteq> fst bf \<Longrightarrow> fst q \<noteq> fst (buffer b) \<Longrightarrow> pmem b q = m q"
  shows "\<exists>b'. vsn_loop bf fmt va b = Inr b' \<and> holds b' (take (buffer_len b - 1) (out @ t))"
  using assms
proof (induction m fmt va arbitrary: b out t rule: render.induct)
  case (1 m va)
  then show ?case by (auto simp: holds_def)
next
  case (2 m ch fmt va)
  note prem = "2.prems"
  obtain zp l c rest where sc: "scan_directive fmt = (zp, l, c, rest)" by (metis prod_cases4)
  have keep: "pmem b1 q = m q" if "inside bf b b1" "fst q \<noteq> fst bf" "fst q \<noteq> fst (buffer b1)" for b1 q
    using that prem(2) prem(4) [of q] by (cases q) (auto simp: inside_def holds_def)
  show ?case
  proof (cases "buffer_len b \<le> pbuffer b + 1")
    case True
    then have "take (buffer_len b - 1) (out @ t) = out" using prem(2) by (auto simp: holds_def)
    then show ?thesis using True prem(2) by simp
  next
    case room: False
    show ?thesis
    proof (cases "ch = 37")
      case False
      then obtain t1 where t1: "render m fmt va = Some t1" "t = ch # t1" using prem(1) by auto
      let ?b = "mb_putc ch b"
      have b1: "buffer ?b = buffer b" "buffer_len ?b = buffer_len b" using mb_putc_inside [of bf b ch] by (simp_all add: inside_def)
      have "\<exists>b'. vsn_loop bf fmt va ?b = Inr b' \<and> holds b' (take (buffer_len ?b - 1) (take (buffer_len b - 1) (out @ [ch]) @ t1))"
        using False prem(3) b1 keep [OF mb_putc_inside] by (intro "2.IH"(1) t1 holds_putc prem) (auto simp: apart_def)
      then show ?thesis using False room by (simp add: take_take_append t1(2) b1 del: take_append)
    next
      case True
      show ?thesis
      proof (cases "c = 0")
        case False
        then obtain t0 va1 t1 where d: "directive_text m zp l c va = Some (t0, va1)" "render m rest va1 = Some t1" "t = t0 @ t1"
          using prem(1) True by (auto simp: sc split: option.splits)
        obtain b1 where b1: "convert bf zp l c va b = Inr (Some (va1, b1))" "holds b1 (take (buffer_len b - 1) (out @ t0))" "apart bf b va1"
          using convert_text [OF prem(2,3) prem(4) d(1) False] by blast
        have i: "inside bf b b1" by (rule convert_inside [OF b1(1)])
        then have eq: "buffer b1 = buffer b" "buffer_len b1 = buffer_len b" by (simp_all add: inside_def)
        have "\<exists>b'. vsn_loop bf rest va1 b1 = Inr b' \<and> holds b' (take (buffer_len b1 - 1) (take (buffer_len b - 1) (out @ t0) @ t1))"
          using True False sc d b1 eq keep [OF i] by (intro "2.IH"(2)) (auto simp: apart_def simp del: take_append)
        then show ?thesis using True room by (simp add: sc b1(1) take_take_append d(3) eq del: take_append)
      next
        case zero: True
        then have "t = []" using prem(1) True by (simp add: sc)
        then show ?thesis using True zero room prem(2) by (auto simp: sc convert_def holds_def)
      qed
    qed
  qed
qed

section \<open>Types of formats\<close>

text \<open>
  The type of a format is the list of the types of its arguments: a number, a number other than the
  least \<open>long\<close> (for \<open>%ld\<close>), a string.  A width of more than 22 has no type: with a sign it would
  not fit in \<open>bf\<close>.
\<close>

datatype arg_type = TNum | TLong | TStr

definition directive_type :: "u8 \<Rightarrow> bool \<Rightarrow> u8 \<Rightarrow> arg_type list option" where
  "directive_type zp l c =
     (if c = 117 \<or> c = 120 \<or> c = 88 \<or> c = 100 then (if zp \<le> 22 then Some [if c = 100 \<and> l then TLong else TNum] else None)
      else if c = 99 then Some [TNum] else if c = 115 then Some [TStr] else Some [])"

function fmt_type :: "u8 list \<Rightarrow> arg_type list option" where
  "fmt_type [] = Some []"
| "fmt_type (ch # fmt) =
     (if ch \<noteq> 37 then fmt_type fmt
      else case scan_directive fmt of (zp, l, c, rest) \<Rightarrow>
        if c = 0 then Some []
        else (case directive_type zp l c of None \<Rightarrow> None | Some ts \<Rightarrow> map_option ((@) ts) (fmt_type rest)))"
  by pat_completeness auto
termination
  by (relation "measure length") (auto simp: less_Suc_eq_le dest: scan_directive_shorter [OF sym])

fun has_type :: "'o mem \<Rightarrow> arg_type \<Rightarrow> 'o slot \<Rightarrow> bool" where
  "has_type m TNum (Num v) = True"
| "has_type m TLong (Num v) = (v \<noteq> push_bit 63 1)"
| "has_type m TStr (Str p) = (strlen m p \<noteq> None)"
| "has_type m _ _ = False"

lemma digits_length:
  assumes "2 \<le> r" and "v < r ^ Suc n"
  shows "length (digits r v) \<le> Suc n"
  using digits_rev_length [OF assms] by (simp add: digits_def)

lemma number_of_fits:
  assumes "zp \<le> 22" and "c = 100 \<or> c = 117 \<or> c = 120 \<or> c = 88"
  shows "length (number_of zp c v) < BF_SIZE"
proof -
  have z: "unat zp \<le> 22" using assms(1) by (simp add: word_le_nat_alt)
  have u: "uint v < 2 ^ 64" using uint_lt2p [of v] by simp
  have "- (2 ^ 63) \<le> sint v" "sint v < 2 ^ 63" using sint_ge [of v] sint_lt [of v] by simp_all
  then have "\<bar>sint v\<bar> < 10 ^ Suc 19" by simp
  then have s: "length (digits 10 \<bar>sint v\<bar>) \<le> 20" using digits_length [of 10 "\<bar>sint v\<bar>" 19] by simp
  have "uint v < 10 ^ Suc 19" "uint v < 16 ^ Suc 15" using u by simp_all
  then have "length (digits 10 (uint v)) \<le> 20" "length (digits 16 (uint v)) \<le> 16"
    using digits_length [of 10 "uint v" 19] digits_length [of 16 "uint v" 15] by simp_all
  then show ?thesis using assms(2) z s by (auto simp: number_of_def number_text_def BF_SIZE_def)
qed

lemma uint_widen: "uint (ucast (w :: u32) :: u64) = uint w"
  using uint_lt2p [of w] by (simp add: unsigned_ucast_eq take_bit_word_eq_self take_bit_int_eq_self_iff)

lemma ucast_plain: "(ucast (w :: u32) :: u64) \<noteq> push_bit 63 1"
proof
  assume "(ucast w :: u64) = push_bit 63 1"
  then have "uint w = 2 ^ 63" using uint_widen [of w] by simp
  then show False using uint_lt2p [of w] by simp
qed

lemma directive_sound:
  assumes "directive_type zp l c = Some ts" and "list_all2 (has_type m) (ts @ us) va"
  shows "\<exists>t va'. directive_text m zp l c va = Some (t, va') \<and> list_all2 (has_type m) us va'"
proof -
  consider (n) "c = 117 \<or> c = 120 \<or> c = 88 \<or> c = 100" | (ch) "c = 99" | (s) "c = 115" | (o) "c \<notin> {117, 100, 120, 88, 99, 115}" by blast
  then show ?thesis
  proof cases
    case n
    then have z: "zp \<le> 22" and ts: "ts = [if c = 100 \<and> l then TLong else TNum]" using assms(1) by (auto simp: directive_type_def split: if_splits)
    then obtain v va' where va: "va = Num v # va'" and ty: "c = 100 \<and> l \<longrightarrow> v \<noteq> push_bit 63 1" and us: "list_all2 (has_type m) us va'"
      using assms(2) by (cases va; cases "hd va") (auto split: if_splits)
    have "itoa_plain (if l then v else ucast (ucast v :: u32)) (c \<noteq> 100)" using ty ucast_plain [of "ucast v"] by (auto simp: itoa_plain_def)
    then show ?thesis using n number_of_fits [OF z, of c] us by (auto simp: directive_text.simps va)
  next
    case ch
    then obtain v va' where "va = Num v # va'" "list_all2 (has_type m) us va'"
      using assms by (cases va; cases "hd va") (auto simp: directive_type_def)
    then show ?thesis using ch by (auto simp: directive_text.simps)
  next
    case s
    then obtain p va' where "va = Str p # va'" "strlen m p \<noteq> None" "list_all2 (has_type m) us va'"
      using assms by (cases va; cases "hd va") (auto simp: directive_type_def)
    then show ?thesis using s by (auto simp: directive_text.simps)
  next
    case o
    then show ?thesis using assms by (auto simp: directive_text.simps directive_type_def)
  qed
qed

lemma fmt_type_sound: "fmt_type fmt = Some ts \<Longrightarrow> list_all2 (has_type m) ts va \<Longrightarrow> \<exists>t. render m fmt va = Some t"
proof (induction fmt arbitrary: ts va rule: fmt_type.induct)
  case (2 ch fmt)
  obtain zp l c rest where sc: "scan_directive fmt = (zp, l, c, rest)" by (metis prod_cases4)
  show ?case
  proof (cases "ch \<noteq> 37 \<or> c = 0")
    case True
    then show ?thesis using 2(1) [of ts va] "2.prems" by (cases "ch = 37") (auto simp: sc)
  next
    case False
    then obtain ts0 ts1 where d: "directive_type zp l c = Some ts0" "fmt_type rest = Some ts1" "ts = ts0 @ ts1"
      using "2.prems"(1) by (auto simp: sc split: option.splits)
    then obtain t va' where t: "directive_text m zp l c va = Some (t, va')" "list_all2 (has_type m) ts1 va'"
      using directive_sound [OF d(1), of m ts1 va] "2.prems"(2) by blast
    have "\<exists>t. render m rest va' = Some t" by (rule "2.IH"(2)) (use False sc d t in auto)
    then obtain t1 where "render m rest va' = Some t1" by blast
    then show ?thesis using False t by (simp add: sc)
  qed
qed simp

section \<open>Reading numbers back\<close>

definition digit_of :: "u8 \<Rightarrow> int" where
  "digit_of c = (if c < 58 then uint c - 48 else if c < 91 then uint c - 55 else uint c - 87)"

fun read_number :: "int \<Rightarrow> u8 list \<Rightarrow> int" where
  "read_number r (c # cs) =
     (if c = 45 then - read_digits r (map digit_of cs) else read_digits r (map digit_of (c # cs)))"
| "read_number r [] = 0"

lemma digit_of_char: "0 \<le> d \<Longrightarrow> d < 16 \<Longrightarrow> digit_of (digit_char u d) = d \<and> digit_char u d \<noteq> 45"
proof -
  assume d: "0 \<le> d" "d < 16"
  then have "d \<in> {0, 1, 2, 3, 4, 5, 6, 7, 8, 9, 10, 11, 12, 13, 14, 15}" unfolding insert_iff empty_iff by presburger
  then show ?thesis by (elim insertE) (simp_all add: digit_of_def digit_char_def)
qed

lemma read_digits_zeros: "read_digits r (replicate n 0 @ ds) = read_digits r ds"
  by (induction n) (simp_all add: read_digits_def)

lemma read_number_text:
  assumes "2 \<le> r" "r \<le> 16" "0 \<le> v"
  shows "read_number r (number_text neg zp u r v) = (if neg then - v else v)"
proof -
  let ?t = "replicate (zp - length (digits r v)) 48 @ map (digit_char u) (digits r v)"
  have d: "digit_of (digit_char u d) = d \<and> digit_char u d \<noteq> 45" if "d \<in> set (digits r v)" for d
    using digits_range [OF assms(1) that] assms(2) by (intro digit_of_char) auto
  then have "map (digit_of \<circ> digit_char u) (digits r v) = digits r v" by (intro map_idI) simp
  moreover have "digit_of 48 = 0" by (simp add: digit_of_def)
  ultimately have t: "read_digits r (map digit_of ?t) = v" using digits_value [OF assms(1,3)] by (simp add: read_digits_zeros)
  have "c \<noteq> 45" if "c \<in> set ?t" for c using that d by auto
  moreover have "?t \<noteq> []" by (simp add: digits_def digits_rev.simps [of r v])
  ultimately obtain c cs where "?t = c # cs" "c \<noteq> 45" by (metis list.exhaust list.set_intros(1))
  then have "read_number r ?t = v" using t by simp
  then show ?thesis using t by (simp add: number_text_def)
qed

section \<open>Writing a line\<close>

text \<open>A character that is neither the end of a string nor moves the cursor in another way.\<close>

definition plain_ch :: "u8 \<Rightarrow> bool" where
  "plain_ch c \<longleftrightarrow> c \<noteq> 0 \<and> c \<noteq> 10 \<and> c \<noteq> 8 \<and> c \<noteq> 127"

definition cursor_at :: "nat \<Rightarrow> nat \<Rightarrow> nat \<Rightarrow> 's scr_scheme \<Rightarrow> bool" where
  "cursor_at cpu x y s \<longleftrightarrow> cursor_x (pcb s (core_running s cpu)) = int x \<and> cursor_y (pcb s (core_running s cpu)) = int y"

lemma write_ch_plain:
  assumes "plain_ch c" and "cursor_at cpu x y s" and "on_screen y x"
  shows "\<exists>s'. screen_write_ch cpu c s = Inr s' \<and> cursor_at cpu (Suc x) y s' \<and>
    smem s' = (smem s)((NewScreen, y * SCREEN_WIDTH + x) := c)"
proof -
  let ?p = "core_running s cpu"
  let ?s' = "upd_pcb ?p (cursor_x_update (\<lambda>x. x + 1)) (s\<lparr>smem := (smem s)((NewScreen, y * SCREEN_WIDTH + x) := c)\<rparr>)"
  have loc: "SCREEN_LOC (cursor_x (pcb s ?p)) (cursor_y (pcb s ?p)) = int (y * SCREEN_WIDTH + x)"
    using assms(2) by (simp add: cursor_at_def SCREEN_LOC_def)
  have "y * SCREEN_WIDTH + x < SCREEN_HEIGHT * SCREEN_WIDTH"
    using assms(3) by (simp add: on_screen_def SCREEN_HEIGHT_def SCREEN_WIDTH_def)
  then have "set_cell (int (y * SCREEN_WIDTH + x)) c s = Inr (s\<lparr>smem := (smem s)((NewScreen, y * SCREEN_WIDTH + x) := c)\<rparr>)"
    unfolding set_cell_def nat_int of_nat_less_iff by (simp add: guardE_def del: of_nat_add of_nat_mult)
  then have "screen_write_ch cpu c s = Inr ?s'" using assms(1) unfolding screen_write_ch_def Let_def loc by (simp add: plain_ch_def)
  moreover have "cursor_at cpu (Suc x) y ?s'" using assms(2) by (simp add: cursor_at_def upd_pcb_def)
  ultimately show ?thesis by (intro exI [of _ ?s']) (simp add: smem_upd_pcb)
qed

lemma write_loop_plain:
  assumes "cursor_at cpu x y s" and "y < SCREEN_HEIGHT" and "x + length t \<le> SCREEN_WIDTH" and "list_all plain_ch t"
    and "fst buff \<noteq> NewScreen" and "\<And>k. k < length t \<Longrightarrow> smem s (padd buff (i + k)) = t ! k"
  shows "\<exists>s'. screen_write_loop (length t) i cpu buff s = Inr s' \<and> cursor_at cpu (x + length t) y s' \<and>
    smem s' = put_bytes (smem s) (NewScreen, y * SCREEN_WIDTH + x) t"
  using assms
proof (induction t arbitrary: x i s)
  case (Cons c t)
  have c: "smem s (padd buff i) = c" using Cons.prems(6) [of 0] by simp
  have o: "plain_ch c" "on_screen y x" using Cons.prems by (simp_all add: on_screen_def)
  obtain s1 where s1: "screen_write_ch cpu c s = Inr s1" "cursor_at cpu (Suc x) y s1" "smem s1 = (smem s)((NewScreen, y * SCREEN_WIDTH + x) := c)"
    using write_ch_plain [OF o(1) Cons.prems(1) o(2)] by blast
  have "smem s1 (padd buff (Suc i + k)) = t ! k" if "k < length t" for k
  proof -
    have "padd buff (Suc i + k) \<noteq> (NewScreen, y * SCREEN_WIDTH + x)" using Cons.prems(5) by (cases buff) simp
    then show ?thesis using Cons.prems(6) [of "Suc k"] that by (simp add: s1(3))
  qed
  then obtain s2 where "screen_write_loop (length t) (Suc i) cpu buff s1 = Inr s2" "cursor_at cpu (Suc x + length t) y s2"
      "smem s2 = put_bytes (smem s1) (NewScreen, y * SCREEN_WIDTH + Suc x) t"
    using Cons.IH [OF s1(2) Cons.prems(2), of "Suc i"] Cons.prems(3-5) by auto
  then show ?case using s1 c by (simp del: fun_upd_apply)
qed simp

section \<open>Properties\<close>

definition outside :: "scr_obj slot \<Rightarrow> bool" where
  "outside a \<longleftrightarrow> (case a of Num v \<Rightarrow> True | Str p \<Rightarrow> fst p \<noteq> Bf \<and> fst p \<noteq> Buff)"

definition print_start :: "scr_obj mem \<Rightarrow> scr_obj mini_buff" where
  "print_start m = \<lparr>buffer = (Buff, 0), pbuffer = 0, buffer_len = PRINT_SIZE, pmem = m\<rparr>"

lemma vprint_start:
  "vprint fmt va m = bindE (vsn_loop (Bf, 0) fmt va (print_start m)) (\<lambda>b. Inr (pbuffer b, (pmem b)((Buff, pbuffer b) := 0)))"
  by (simp add: vprint_def mini_vsnprintf_def print_start_def bindE_def split: sum.split)

lemma vprint_inside:
  assumes "vprint fmt va m = Inr (ret, m')"
  shows "ret < PRINT_SIZE" and "m' (Buff, ret) = 0"
    and "\<And>q. (fst q = Buff \<longrightarrow> PRINT_SIZE \<le> snd q) \<Longrightarrow> (fst q = Bf \<longrightarrow> BF_SIZE \<le> snd q) \<Longrightarrow> m' q = m q"
proof -
  obtain b where b: "vsn_loop (Bf, 0) fmt va (print_start m) = Inr b" and r: "ret = pbuffer b" "m' = (pmem b)((Buff, ret) := 0)"
    using assms by (auto simp: vprint_start res_eq_Inr)
  have i: "inside (Bf, 0) (print_start m) b" by (rule vsn_loop_inside [OF b])
  then show "ret < PRINT_SIZE" by (simp add: inside_def print_start_def r PRINT_SIZE_def)
  then show "m' q = m q" if "fst q = Buff \<longrightarrow> PRINT_SIZE \<le> snd q" "fst q = Bf \<longrightarrow> BF_SIZE \<le> snd q" for q
    using that i by (cases q) (auto simp: inside_def print_start_def r(2) PRINT_SIZE_def)
qed (use assms in \<open>auto simp: vprint_start res_eq_Inr\<close>)

lemma vprint_renders:
  assumes "render m fmt va = Some t" and "list_all outside va"
  defines "u \<equiv> take (PRINT_SIZE - 1) t"
  shows "\<exists>m'. vprint fmt va m = Inr (length u, m') \<and> bytes_at m' (Buff, 0) (length u) = u \<and> m' (Buff, length u) = 0"
proof -
  have "holds (print_start m) []" by (simp add: holds_def print_start_def bytes_at_def PRINT_SIZE_def)
  moreover have "apart (Bf, 0) (print_start m) va"
    using assms(2) by (auto simp: apart_def print_start_def outside_def list_all_iff split: slot.splits)
  ultimately obtain b where b: "vsn_loop (Bf, 0) fmt va (print_start m) = Inr b" "holds b u"
    using vsn_loop_text [OF assms(1), of "print_start m" "[]" "(Bf, 0)"] by (auto simp: print_start_def u_def)
  have "buffer b = (Buff, 0)" using vsn_loop_inside [OF b(1)] by (simp add: inside_def print_start_def)
  moreover have "bytes_at ((pmem b)((Buff, length u) := 0)) (Buff, 0) (length u) = bytes_at (pmem b) (Buff, 0) (length u)"
    by (rule bytes_at_cong) simp
  ultimately show ?thesis using b by (simp add: vprint_start holds_def)
qed

lemma screen_reflush_pcb:
  assumes "tracks d s"
  shows "pcb (screen_reflush cpu s) = pcb s" and "core_running (screen_reflush cpu s) = core_running s"
  using reflush_rows_ok [OF assms order_refl]
  by (simp_all add: refreshed_def screen_reflush_def Let_def vt100_move_cursor_def send_def)

lemma synced_smem: "(\<And>k. m (OldScreen, k) = smem s (OldScreen, k)) \<Longrightarrow> synced d (s\<lparr>smem := m\<rparr>) = synced d s"
  by (simp add: synced_def shown_def)

text \<open>A state and a format for the instances: the string at \<open>Text\<close> is \<open>Hi\<close>, the format \<open>%s %03d\<close>.\<close>

definition sample_fmt :: "u8 list" where
  "sample_fmt = [37, 115, 32, 37, 48, 51, 100]"

definition sample_va :: "scr_obj slot list" where
  "sample_va = [Str (Text, 0), Num 7]"

lemma sample_text: "m = smem boot_scr \<Longrightarrow> m (Text, 0) = 72 \<and> m (Text, Suc 0) = 105 \<and> m (Text, Suc (Suc 0)) = 0"
  by (simp add: boot_scr_def kstate.defs)

lemma sample_strlen: "m (Text, 0) = 72 \<and> m (Text, Suc 0) = 105 \<and> m (Text, Suc (Suc 0)) = 0 \<Longrightarrow> strlen m (Text, 0) = Some (Suc (Suc 0))"
  using strlen_cstr [of m "(Text, 0)" "[72, 105]"] by simp

lemma sample_type: "fmt_type sample_fmt = Some [TStr, TNum]"
  by (simp add: sample_fmt_def scan_directive_def directive_type_def)

lemma sample_args: "list_all2 (has_type (smem boot_scr)) [TStr, TNum] sample_va" "list_all outside sample_va"
  by (simp_all add: sample_va_def sample_strlen [OF sample_text] outside_def)

lemma sample_render:
  assumes "m (Text, 0) = 72 \<and> m (Text, Suc 0) = 105 \<and> m (Text, Suc (Suc 0)) = 0"
  shows "render m sample_fmt sample_va = Some [72, 105, 32, 48, 48, 55]"
proof -
  have two: "replicate 2 (48 :: u8) = [48, 48]" unfolding Suc_1 [symmetric] One_nat_def by (simp only: replicate.simps)
  have "number_of 3 100 (ucast (ucast (7 :: u64) :: u32)) = [48, 48, 55]"
    using two by (simp add: number_of_def number_text_def digits_def digits_rev.simps [of 10 7] digit_char_def)
  moreover have "itoa_plain (ucast (ucast (7 :: u64) :: u32)) False" using ucast_plain by (simp add: itoa_plain_def)
  ultimately show ?thesis
    using assms by (simp add: sample_fmt_def sample_va_def scan_directive_def directive_text.simps sample_strlen bytes_at_def BF_SIZE_def)
qed

text \<open>
  C25: types of formats.  \<open>fmt_type\<close> reads off a format which arguments it needs.  When the slots have
  these types and the strings among them are terminated and do not lie in the two local arrays,
  \<open>_vprint\<close> does not go wrong: it takes no missing argument, follows no number as a pointer, does not
  write behind \<open>bf\<close>, and returns a length that fits the buffer, with a zero byte behind the text.
\<close>

theorem vprint_well_typed:
  assumes "fmt_type fmt = Some ts" and "list_all2 (has_type m) ts va" and "list_all outside va"
  shows "\<exists>ret m'. vprint fmt va m = Inr (ret, m') \<and> ret < PRINT_SIZE \<and> m' (Buff, ret) = 0"
  using fmt_type_sound [OF assms(1,2)] vprint_renders [OF _ assms(3)] vprint_inside(1) by meson

theorem vprint_well_typed_witness:
  "\<exists>ret m'. vprint sample_fmt sample_va (smem boot_scr) = Inr (ret, m') \<and> ret < 256 \<and> m' (Buff, ret) = 0"
  using vprint_well_typed [OF sample_type sample_args] by (simp add: PRINT_SIZE_def)

text \<open>
  C26: formatted output against the reference.  When \<open>render\<close> gives a text for the format and its
  arguments, \<open>_vprint\<close> puts exactly this text in its buffer, cut off after 255 characters, and returns
  its length.
\<close>

theorem vprint_prints:
  assumes "render m fmt va = Some t" and "list_all outside va"
  shows "\<exists>m'. vprint fmt va m = Inr (min 255 (length t), m') \<and>
    bytes_at m' (Buff, 0) (min 255 (length t)) = take 255 t \<and> m' (Buff, min 255 (length t)) = 0"
  using vprint_renders [OF assms] by (simp add: PRINT_SIZE_def min.commute)

theorem vprint_prints_witness:
  "\<exists>m'. vprint sample_fmt sample_va (smem boot_scr) = Inr (6, m') \<and> bytes_at m' (Buff, 0) 6 = [72, 105, 32, 48, 48, 55]"
  using vprint_prints [OF sample_render [OF sample_text [OF refl]] sample_args(2)] by (force simp: numeral_eq_Suc)

text \<open>
  bounds of formatted output.  Whatever the format and the arguments are, when \<open>_vprint\<close> returns,
  the length is below 256, a zero byte ends the text inside the buffer, and no byte outside the
  buffer of 256 and the array \<open>bf\<close> of 24 characters has changed.
\<close>

theorem vprint_bounded:
  assumes "vprint fmt va m = Inr (ret, m')"
  shows "ret < 256 \<and> m' (Buff, ret) = 0 \<and>
    (\<forall>ob k. (ob = Buff \<longrightarrow> 256 \<le> k) \<and> (ob = Bf \<longrightarrow> 24 \<le> k) \<longrightarrow> m' (ob, k) = m (ob, k))"
  using vprint_inside [OF assms] by (simp add: PRINT_SIZE_def BF_SIZE_def)

text \<open>
  numbers can be read back.  For every radix from 2 to 16, with any padding and in either case of
  letters, \<open>mini_itoa\<close> writes a text from which the number can be read: the unsigned value, or the
  signed one for every \<open>long\<close> but the least.
\<close>

theorem mini_itoa_reads_back:
  assumes "2 \<le> r" and "r \<le> 16" and "unsig \<or> x \<noteq> push_bit 63 1"
  shows "\<exists>len m'. mini_itoa x r u unsig b zp m = (len, m') \<and> m' (padd b len) = 0 \<and>
    read_number r (bytes_at m' b len) = (if unsig then uint x else sint x)"
proof -
  let ?neg = "\<not> unsig \<and> sint x < 0" and ?v = "if unsig then uint x else \<bar>sint x\<bar>"
  let ?t = "number_text ?neg zp u r ?v"
  have "itoa_value x unsig = (?neg, ?v)" using assms(3) by (intro itoa_value_plain) (simp add: itoa_plain_def)
  then obtain m' where m: "mini_itoa x r u unsig b zp m = (length ?t, m')" "\<forall>k<length ?t. m' (padd b k) = ?t ! k" "m' (padd b (length ?t)) = 0"
    using mini_itoa_ok [OF assms(1,2), of x unsig ?neg ?v u b zp m] by (auto split: if_splits)
  have "bytes_at m' b (length ?t) = ?t" using m(2) by (intro nth_equalityI) simp_all
  moreover have "read_number r ?t = (if ?neg then - ?v else ?v)" by (rule read_number_text [OF assms(1,2)]) simp
  ultimately show ?thesis using m by auto
qed

text \<open>
  \<open>%d\<close> of a negative \<open>int\<close>.  The argument is fetched as an \<open>unsigned int\<close>, so \<open>%d\<close> prints the
  value modulo 2^32, and never a sign: the program prints 4294967295 for -1.
\<close>

theorem percent_d_unsigned:
  "\<exists>m'. vprint [37, 100] [Num v] m = Inr (length (digits 10 (uint v mod 2 ^ 32)), m') \<and>
     bytes_at m' (Buff, 0) (length (digits 10 (uint v mod 2 ^ 32))) = map (digit_char False) (digits 10 (uint v mod 2 ^ 32))"
proof -
  let ?w = "ucast (ucast v :: u32) :: u64" and ?d = "digits 10 (uint v mod 2 ^ 32)"
  have "uint ?w = take_bit 32 (uint v)" by (simp add: uint_widen unsigned_ucast_eq unsigned_take_bit_eq)
  then have u: "uint ?w = uint v mod 2 ^ 32" by (simp only: take_bit_eq_mod)
  moreover have "uint v mod 2 ^ 32 < 2 ^ 32" by (rule pos_mod_bound) simp
  ultimately have "uint ?w < 2 ^ 63" by simp
  moreover have "- (2 ^ 63) \<le> uint ?w" by (rule order_trans [OF _ uint_ge_0]) simp
  ultimately have "signed_take_bit 63 (uint ?w) = uint ?w" by (intro signed_take_bit_int_eq_self)
  then have "sint ?w = uint ?w" by (simp add: sint_uint)
  then have t: "number_of 0 100 ?w = map (digit_char False) ?d" using u by (simp add: number_of_def number_text_def)
  have "length (number_of 0 100 ?w) < BF_SIZE" by (rule number_of_fits) simp_all
  then have r: "render m [37, 100] [Num v] = Some (map (digit_char False) ?d)"
    using ucast_plain by (simp add: scan_directive_def directive_text.simps itoa_plain_def t)
  have "length ?d \<le> 255" using \<open>length (number_of 0 100 ?w) < BF_SIZE\<close> by (simp add: t BF_SIZE_def)
  then show ?thesis using vprint_renders [OF r] by (force simp: outside_def PRINT_SIZE_def)
qed


text \<open>The console after \<open>init_screen\<close>.\<close>

definition ready_scr :: scr where
  "ready_scr = boot_scr\<lparr>smem := \<lambda>q. if fst q = OldScreen then 32 else smem boot_scr q\<rparr>"


end
