(* ===== verification/Proc.thy ===== *)
theory Proc
  imports Mm
begin

text \<open>
  Processes: the second half of \<open>kernel/sched/sched.c\<close> (\<open>do_exec\<close>, \<open>do_exit\<close>, \<open>do_kill\<close>, \<open>do_waitpid\<close>,
  \<open>do_process_show\<close>, the \<open>taskset\<close> calls, \<open>do_thread_create\<close>) and \<open>kernel/loader/loader.c\<close>.  Names and
  arguments are the strings their pointers lead to.  Addresses that the linker assigns (of
  \<open>ret_from_exception\<close> and of the PCBs) are the parameter \<open>K\<close>.
\<close>

section \<open>Waiting, exiting, killing\<close>

text \<open>
  The loops that release the waiters of a process.  A waiter that has exited itself is never taken
  off the list: the loop then runs for ever.  \<open>sel\<close> is the end of the list the loop looks at.
\<close>

fun release_waiters ::
  "nat \<Rightarrow> ((qid, pcb_ref) list_node \<Rightarrow> (qid, pcb_ref) lnode option) \<Rightarrow> pcb_ref \<Rightarrow> 's kstate_scheme \<Rightarrow> 's kstate_scheme res" where
  "release_waiters 0 sel p s = Inl Hang"
| "release_waiters (Suc fuel) sel p s =
     (if queue_is_empty (WaitList p) s then Inr s
      else bindE (list_entry (sel (lists s (Head (WaitList p))))) (\<lambda>wait_pcb.
        if task_status (pcb s wait_pcb) \<noteq> TASK_EXITED
        then bindE (do_unblock (WaitList p) s) (release_waiters fuel sel p)
        else Inl Hang))"

definition do_exit :: "nat \<Rightarrow> 's kstate_scheme \<Rightarrow> 's kstate_scheme res" where
  "do_exit cpu s =
     (let to_exit_pcb = core_running s cpu
      in bindE (release_waiters QUEUE_FUEL prv to_exit_pcb s) (\<lambda>s.
           do_scheduler cpu (set_status to_exit_pcb TASK_EXITED (del_queue to_exit_pcb s))))"

definition find_pid :: "int \<Rightarrow> 's kstate_scheme \<Rightarrow> pcb_ref option" where
  "find_pid p s = map_option Pcb (find (\<lambda>i. pid (pcb s (Pcb i)) = p) [0..<NUM_MAX_TASK])"

definition do_kill :: "nat \<Rightarrow> int \<Rightarrow> 's lstate_scheme \<Rightarrow> (int \<times> 's lstate_scheme) res" where
  "do_kill cpu p s =
     (case find_pid p s of None \<Rightarrow> Inr (0, s)
      | Some to_kill_pcb \<Rightarrow>
          bindE (release_waiters QUEUE_FUEL nxt to_kill_pcb s) (\<lambda>s.
          bindE (release_pcb_lock p (upd_pcb to_kill_pcb (pid_update (\<lambda>_. 0)) s)) (\<lambda>s.
            case task_status (pcb s to_kill_pcb) of
              TASK_BLOCKED \<Rightarrow> Inr (1, set_status to_kill_pcb TASK_EXITED (del_queue to_kill_pcb s))
            | TASK_RUNNING \<Rightarrow>
                bindE (do_scheduler cpu (set_status to_kill_pcb TASK_EXITED s)) (\<lambda>s. Inr (1, s))
            | TASK_READY \<Rightarrow> Inr (1, set_status to_kill_pcb TASK_EXITED (del_queue to_kill_pcb s))
            | TASK_EXITED \<Rightarrow> Inr (0, s)
            | TASK_AVAILABLE \<Rightarrow> Inr (0, s))))"

definition do_waitpid :: "nat \<Rightarrow> int \<Rightarrow> 's kstate_scheme \<Rightarrow> (int \<times> 's kstate_scheme) res" where
  "do_waitpid cpu p s =
     (case find_pid p s of None \<Rightarrow> Inr (0, s)
      | Some wait_pcb \<Rightarrow>
          bindE (if task_status (pcb s wait_pcb) \<noteq> TASK_EXITED \<and> task_status (pcb s wait_pcb) \<noteq> TASK_AVAILABLE
                 then let current_running = core_running s cpu
                      in add_queue (WaitList wait_pcb) current_running (set_status current_running TASK_BLOCKED s)
                 else Inr s) (\<lambda>s.
          bindE (do_scheduler cpu s) (\<lambda>s. Inr (p, s))))"

definition log :: "string \<Rightarrow> int list \<Rightarrow> ('d, 's) ms \<Rightarrow> ('d, 's) ms" where
  "log fmt args s = s\<lparr>klog := (fmt, args) # klog s\<rparr>"

text \<open>The format strings are logged with their \<open>%s\<close> filled in.\<close>

fun show_pcb :: "nat \<Rightarrow> ('d, 's) ms \<Rightarrow> ('d, 's) ms" where
  "show_pcb i s =
     (let p = pcb s (Pcb i)
      in case task_status p of
           TASK_RUNNING \<Rightarrow> log ''[%d] PID : %d STATUS : RUNNING MASK : 0x%d on Core %d''
             [int i, pid p, sint (task_mask p), if pid p = pid (pcb s (core_running s 0)) then 0 else 1] s
         | TASK_BLOCKED \<Rightarrow> log ''[%d] PID : %d STATUS : BLOCKED MASK : 0x%d'' [int i, pid p, sint (task_mask p)] s
         | TASK_READY \<Rightarrow> log ''[%d] PID : %d STATUS : READY MASK : 0x%d'' [int i, pid p, sint (task_mask p)] s
         | _ \<Rightarrow> s)"

definition do_process_show :: "('d, 's) ms \<Rightarrow> ('d, 's) ms" where
  "do_process_show s = fold show_pcb [0..<NUM_MAX_TASK] (log ''[PRCESS TABLE]'' [] s)"

definition do_taskset_chg :: "int \<Rightarrow> u32 \<Rightarrow> 's kstate_scheme \<Rightarrow> 's kstate_scheme res" where
  "do_taskset_chg p msk s =
     (case find_pid p s of None \<Rightarrow> Inl Panic
      | Some to_chg_pcb \<Rightarrow> Inr (upd_pcb to_chg_pcb (task_mask_update (\<lambda>_. msk)) s))"

section \<open>Loading a program\<close>

record task_info_t =
  begin_block :: u16
  end_block :: u16
  begin_offset :: u32
  end_offset :: u32
  memsz :: u32
  entry_addr :: u64
  task_name :: "u8 list"

definition TASK_MAXNUM :: nat where "TASK_MAXNUM = 16"

definition ram_memset0 :: "u64 \<Rightarrow> nat \<Rightarrow> ('d, 's) ms \<Rightarrow> ('d, 's) ms" where
  "ram_memset0 a n s = fold (\<lambda>j. wr_byte (a + of_nat j) 0) [0..<n] s"

text \<open>
  The sectors of one page.  \<open>buffer\<close> holds two sectors; a copy that starts at \<open>off\<close> stays inside it
  only if \<open>off + n\<close> is at most 1024.
\<close>

fun load_sectors :: "'d sdcard \<Rightarrow> nat \<Rightarrow> nat \<Rightarrow> u32 \<Rightarrow> u32 \<Rightarrow> u64 \<Rightarrow> int \<Rightarrow> ('d, 's) ms \<Rightarrow> ('d, 's) ms res" where
  "load_sectors D 0 block_it blk off cur_kva left_byte s = Inr s"
| "load_sectors D (Suc n) block_it blk off cur_kva left_byte s =
     (if left_byte > 0 then
        (let cnt = (if 512 > left_byte then nat left_byte else 512);
             base = cur_kva + of_nat (block_it * 512);
             buffer = (\<lambda>j. sd_get D (sdc s) (blk + of_nat block_it + of_nat (j div 512)) (j mod 512))
         in guardE (unat off + cnt \<le> 1024)
              (let s = fold (\<lambda>j. wr_byte (base + of_nat j) (buffer (unat off + j))) [0..<cnt] s
               in if left_byte < 512
                  then Inr (ram_memset0 (base + of_nat cnt) (4096 - block_it * 512 - cnt) s)
                  else load_sectors D n (Suc block_it) blk off cur_kva (left_byte - 512) s))
      else Inr s)"

text \<open>
  The loop over the pages of the program; \<open>ks\<close> are the page numbers.  \<open>None\<close> for \<open>p\<close> is an argument
  that points to no PCB.
\<close>

fun load_pages ::
  "'d sdcard \<Rightarrow> nat list \<Rightarrow> u32 \<Rightarrow> u32 \<Rightarrow> u64 \<Rightarrow> u64 \<Rightarrow> pcb_ref option \<Rightarrow> ('d, 's) ms \<Rightarrow> ('d, 's) ms res" where
  "load_pages D [] blk off filesz entry_va p s = Inr s"
| "load_pages D (k # ks) blk off filesz entry_va p s =
     (case p of None \<Rightarrow> Inl Fault
      | Some q \<Rightarrow>
          (let it = of_nat (4096 * k) :: u64
           in bindE (alloc_page_helper D (entry_va + it) q UNSWAPABLE s) (\<lambda>(cur_kva, s).
                if it < filesz
                then bindE (load_sectors D 8 0 blk off cur_kva (sint (filesz - it)) s)
                       (load_pages D ks (blk + 8) off filesz entry_va p)
                else load_pages D ks blk off filesz entry_va p (clear_pgdir cur_kva s))))"

definition load_task_img ::
  "'d sdcard \<Rightarrow> (nat \<Rightarrow> task_info_t) \<Rightarrow> u8 list \<Rightarrow> pcb_ref option \<Rightarrow> ('d, 's) ms \<Rightarrow> (u64 \<times> ('d, 's) ms) res" where
  "load_task_img D tasks taskname load_pcb s =
     (case find (\<lambda>i. task_name (tasks i) = taskname) [0..<TASK_MAXNUM] of
        None \<Rightarrow> Inl Fault
      | Some taskid \<Rightarrow>
          (let t = tasks taskid;
               blk = ucast (begin_block t) :: u32;
               begin_addr = ucast (push_bit 9 blk + begin_offset t) :: u64;
               end_addr = ucast (push_bit 9 (ucast (end_block t)) + end_offset t) :: u64;
               filesz = end_addr - begin_addr;
               pages = (unat (memsz t) + 4095) div 4096
           in bindE (load_pages D [0..<pages] blk (begin_offset t) filesz (entry_addr t) load_pcb s) (\<lambda>s.
                Inr (entry_addr t, s))))"

section \<open>Creating a process\<close>

record kaddr =
  ret_from_exception :: u64
  pcb_addr :: "pcb_ref \<Rightarrow> u64"

definition REGS_SIZE :: u64 where "REGS_SIZE = 288"        \<comment> \<open>\<open>sizeof(regs_context_t)\<close>\<close>
definition SWITCHTO_SIZE :: u64 where "SWITCHTO_SIZE = 112" \<comment> \<open>\<open>sizeof(switchto_context_t)\<close>\<close>
definition MAX_PAGETABLE_NUM :: u32 where "MAX_PAGETABLE_NUM = 24"

text \<open>Field \<open>i\<close> of the \<open>regs_context_t\<close> at \<open>r\<close>: 32 registers, then \<open>sstatus\<close> and \<open>sepc\<close>.\<close>

definition set_reg :: "u64 \<Rightarrow> nat \<Rightarrow> u64 \<Rightarrow> ('d, 's) ms \<Rightarrow> ('d, 's) ms" where
  "set_reg r i v s = wr64 (r + 8 * of_nat i) v s"

definition init_frame :: "kaddr \<Rightarrow> pcb_ref \<Rightarrow> u64 \<Rightarrow> ('d, 's) ms \<Rightarrow> u64 \<times> ('d, 's) ms" where
  "init_frame K p entry s =
     (let pt_regs = kernel_sp (pcb s p) - REGS_SIZE;
          s = fold (\<lambda>i. set_reg pt_regs i 0) [0..<32] s;
          s = set_reg pt_regs 1 entry s;
          s = set_reg pt_regs 4 (pcb_addr K p) s;
          s = set_reg pt_regs 33 entry s;
          s = set_reg pt_regs 32 0x20 s;
          pt_switchto = pt_regs - SWITCHTO_SIZE;
          s = upd_pcb p (kernel_sp_update (\<lambda>_. pt_switchto)) s;
          s = wr64 pt_switchto (ret_from_exception K) s;
          s = wr64 (pt_switchto + 8) pt_switchto s
      in (pt_regs, s))"

text \<open>The strings are copied below the array of pointers; addresses for the process and for the kernel go in step.\<close>

fun push_args :: "u8 list list \<Rightarrow> u64 \<Rightarrow> u64 \<Rightarrow> u64 \<Rightarrow> ('d, 's) ms \<Rightarrow> u64 \<times> ('d, 's) ms" where
  "push_args [] va kva kva_argv_base s = (va, wr64 kva_argv_base 0 s)"
| "push_args (str # argv) va kva kva_argv_base s =
     (let len = length str + 1;
          va = va - of_nat len; kva = kva - of_nat len;
          s = fold (\<lambda>j. wr_byte (kva + of_nat j) ((str @ [0]) ! j)) [0..<len] s;
          s = wr64 kva_argv_base va s
      in push_args argv va kva (kva_argv_base + 8) s)"

definition pass_args :: "pcb_ref \<Rightarrow> u64 \<Rightarrow> u64 \<Rightarrow> u8 list list \<Rightarrow> ('d, 's) ms \<Rightarrow> ('d, 's) ms" where
  "pass_args p pt_regs kva_stack argv s =
     (let n = 8 * of_nat (length argv + 1) :: u64;
          va = user_sp (pcb s p) - n; kva = kva_stack - n;
          s = set_reg pt_regs 10 (of_nat (length argv)) s;
          s = set_reg pt_regs 11 va s;
          (va, s) = push_args argv va kva kva s;
          va = push_bit 7 (drop_bit 7 va);
          s = upd_pcb p (user_sp_update (\<lambda>_. va)) s
      in set_reg pt_regs 2 va s)"

definition find_free_pcb :: "'s kstate_scheme \<Rightarrow> pcb_ref res" where
  "find_free_pcb s =
     (case find (\<lambda>i. task_status (pcb s (Pcb i)) = TASK_EXITED \<or> task_status (pcb s (Pcb i)) = TASK_AVAILABLE) [1..<NUM_MAX_TASK] of
        None \<Rightarrow> Inl Panic | Some i \<Rightarrow> Inr (Pcb i))"

text \<open>The list nodes of a new process: \<open>list\<close> cleared, \<open>wait_list\<close> empty.\<close>

definition reset_nodes :: "pcb_ref \<Rightarrow> 's kstate_scheme \<Rightarrow> 's kstate_scheme" where
  "reset_nodes p s = s\<lparr>lists := init_list_head ((lists s)(Elem p := \<lparr>nxt = None, prv = None\<rparr>)) (Head (WaitList p))\<rparr>"

definition start_pagetable :: "pcb_ref \<Rightarrow> ('d, 's) ms \<Rightarrow> ('d, 's) ms" where
  "start_pagetable p s =
     (let s = upd_pcb p (\<lambda>r. r\<lparr>task_status := TASK_READY, upbound := MAX_PAGETABLE_NUM, pagenum := 0\<rparr>) s
      in s\<lparr>plists := init_list_head (plists s) (Head (PageHead p))\<rparr>)"

definition set_stacks :: "pcb_ref \<Rightarrow> u64 \<Rightarrow> u64 \<Rightarrow> ('d, 's) ms \<Rightarrow> ('d, 's) ms" where
  "set_stacks p ksp usp s =
     upd_pcb p (\<lambda>r. r\<lparr>kernel_sp := ksp, user_sp := usp, kernel_stack_base := ksp, user_stack_base := usp\<rparr>) s"

definition do_exec ::
  "'d sdcard \<Rightarrow> kaddr \<Rightarrow> (nat \<Rightarrow> task_info_t) \<Rightarrow> nat \<Rightarrow> u8 list \<Rightarrow> u8 list list \<Rightarrow> ('d, 's) ms \<Rightarrow> (int \<times> ('d, 's) ms) res"
where
  "do_exec D K tasks cpu name argv s =
     bindE (find_free_pcb s) (\<lambda>p.
     bindE (allocPagetable D p UNSWAPABLE (start_pagetable p s)) (\<lambda>(temp_page, s).
       let tab = pg_kva (page_manager s temp_page);
           s = upd_pcb p (pgdir_update (\<lambda>_. tab)) s;
           s = clear_pgdir tab s;
           s = share_pgtable tab (pa2kva PGDIR_PA) s
       in bindE (allocPagetable D p UNSWAPABLE s) (\<lambda>(temp_page, s).
          let s = set_stacks p (pg_kva (page_manager s temp_page) + PAGE_SIZE) USER_STACK_ADDR s
          in bindE (alloc_page_helper D (user_sp (pcb s p) - PAGE_SIZE) p UNSWAPABLE s) (\<lambda>(kva, s).
             bindE (load_task_img D tasks name (Some p) s) (\<lambda>(entry, s).
               let s = reset_nodes p s;
                   new_pid = process_id s;
                   s = s\<lparr>process_id := process_id s + 1\<rparr>;
                   s = upd_pcb p (\<lambda>r. r\<lparr>pid := new_pid, childnum := 0, cursor_x := 0, cursor_y := 0, wakeup_time := 0,
                                       task_mode := USER\<rparr>) s;
                   s = upd_pcb p (task_mask_update (\<lambda>_. task_mask (pcb s (core_running s cpu)))) s;
                   (pt_regs, s) = init_frame K p entry s;
                   s = pass_args p pt_regs (kva + PAGE_SIZE) argv s
               in bindE (add_queue ReadyQueue p s) (\<lambda>s. Inr (pid (pcb s p), s)))))))"

text \<open>
  \<open>do_taskset_exec\<close> gives \<open>load_task_img\<close> the page directory where that expects a PCB, so loading
  anything dereferences a stray pointer.  The stack it prepares is kernel memory.
\<close>

definition taskset_stacks :: "pcb_ref \<Rightarrow> ('d, 's) ms \<Rightarrow> ('d, 's) ms" where
  "taskset_stacks p s =
     (if task_status (pcb s p) = TASK_EXITED
      then upd_pcb p (\<lambda>r. r\<lparr>kernel_sp := kernel_stack_base r, user_sp := user_stack_base r\<rparr>) s
      else (let (k, s) = allocPage 1 s; (u, s) = allocPage 1 s in set_stacks p (k + PAGE_SIZE) (u + PAGE_SIZE) s))"

definition do_taskset_exec ::
  "'d sdcard \<Rightarrow> kaddr \<Rightarrow> (nat \<Rightarrow> task_info_t) \<Rightarrow> u8 list \<Rightarrow> u8 list list \<Rightarrow> u32 \<Rightarrow> ('d, 's) ms \<Rightarrow> ('d, 's) ms res" where
  "do_taskset_exec D K tasks name argv msk s =
     bindE (find_free_pcb s) (\<lambda>p.
       let s = set_status p TASK_READY (taskset_stacks p s)
       in bindE (load_task_img D tasks name None s) (\<lambda>(entry, s).
            let s = reset_nodes p s;
                new_pid = process_id s;
                s = s\<lparr>process_id := process_id s + 1\<rparr>;
                s = upd_pcb p (\<lambda>r. r\<lparr>pid := new_pid, cursor_x := 0, cursor_y := 0, wakeup_time := 0,
                                    task_mode := USER, task_mask := msk\<rparr>) s;
                (pt_regs, s) = init_frame K p entry s;
                s = pass_args p pt_regs (user_sp (pcb s p)) argv s
            in add_queue ReadyQueue p s))"

definition do_thread_create ::
  "'d sdcard \<Rightarrow> kaddr \<Rightarrow> nat \<Rightarrow> u64 \<Rightarrow> u64 \<Rightarrow> ('d, 's) ms \<Rightarrow> (int \<times> ('d, 's) ms) res" where
  "do_thread_create D K cpu entry arg s =
     (let father = core_running s cpu;
          s = upd_pcb father (childnum_update (\<lambda>n. n + 1)) s
      in bindE (find_free_pcb s) (\<lambda>p.
           let s = start_pagetable p s;
               s = upd_pcb p (pgdir_update (\<lambda>_. pgdir (pcb s father))) s;
               s = share_pgtable (pgdir (pcb s p)) (pgdir (pcb s father)) s
           in bindE (allocPagetable D p UNSWAPABLE s) (\<lambda>(temp_page, s).
              let s = set_stacks p (pg_kva (page_manager s temp_page) + PAGE_SIZE)
                        (USER_STACK_ADDR + of_int (childnum (pcb s father)) * PAGE_SIZE) s
              in bindE (alloc_page_helper D (user_sp (pcb s p) - PAGE_SIZE) p UNSWAPABLE s) (\<lambda>(_, s).
                 let s = reset_nodes p s;
                     s = upd_pcb p (\<lambda>r. r\<lparr>pid := pid (pcb s father), cursor_x := 0, cursor_y := 0, wakeup_time := 0,
                                         task_mode := THREAD, task_mask := task_mask (pcb s (core_running s cpu))\<rparr>) s;
                     (pt_regs, s) = init_frame K p entry s;
                     s = set_reg pt_regs 10 arg s
                 in bindE (add_queue ReadyQueue p s) (\<lambda>s. Inr (pid (pcb s p), s))))))"

end
