(* ===== verification/Image.thy ===== *)
theory Image
  imports Proc
begin

text \<open>
  The image builder, \<open>tools/createimage.c\<close>: it copies the loadable segments of the boot block, the
  kernel and the programs one after the other into a file, and writes the table of programs behind
  them.  A file is the list of its bytes.  What the tool prints is not modelled.
\<close>

section \<open>Bytes\<close>

text \<open>The low \<open>n\<close> bytes of a number, and the number that some bytes stand for, both little-endian.\<close>

definition le :: "nat \<Rightarrow> u64 \<Rightarrow> u8 list" where
  "le n v = map (\<lambda>i. ucast (drop_bit (8 * i) v)) [0..<n]"

definition of_le :: "u8 list \<Rightarrow> u64" where
  "of_le bs = foldr (\<lambda>b a. push_bit 8 a OR ucast b) bs 0"

definition field :: "nat \<Rightarrow> nat \<Rightarrow> u8 list \<Rightarrow> u64" where
  "field k n bs = of_le (take n (drop k bs))"

definition TASK_NAME_LEN :: nat where "TASK_NAME_LEN = 18"
definition TASK_INFO_SIZE :: nat where "TASK_INFO_SIZE = 48"

text \<open>A \<open>task_info_t\<close> in memory: the structure is padded to a multiple of 8 bytes.\<close>

definition encode_task :: "task_info_t \<Rightarrow> u8 list" where
  "encode_task t =
     le 2 (ucast (begin_block t)) @ le 2 (ucast (end_block t)) @ le 4 (ucast (begin_offset t)) @
     le 4 (ucast (end_offset t)) @ le 4 (ucast (memsz t)) @ le 8 (entry_addr t) @
     (task_name t @ replicate (TASK_NAME_LEN - length (task_name t)) 0) @ replicate 6 0"

section \<open>The image file\<close>

record image =
  img :: "u8 list"
  img_pos :: nat
  phyaddr :: nat
  taskinfo :: "nat \<Rightarrow> task_info_t"
  nbytes_kernel :: nat

definition fputc :: "u8 \<Rightarrow> image \<Rightarrow> image" where
  "fputc c st =
     st\<lparr>img := (img st @ replicate (Suc (img_pos st) - length (img st)) 0)[img_pos st := c],
        img_pos := Suc (img_pos st)\<rparr>"

definition fwrite :: "u8 list \<Rightarrow> image \<Rightarrow> image" where
  "fwrite bs st = fold fputc bs st"

section \<open>ELF files\<close>

record elf_ehdr =
  e_entry :: u64
  e_phoff :: u64
  e_phentsize :: u16
  e_phnum :: u16

record elf_phdr =
  p_type :: u32
  p_offset :: u64
  p_vaddr :: u64
  p_filesz :: u64
  p_memsz :: u64

definition PT_LOAD :: u32 where "PT_LOAD = 1"

definition read_ehdr :: "u8 list \<Rightarrow> elf_ehdr res" where
  "read_ehdr f =
     assertE (64 \<le> length f) (assertE (f ! 1 = 69) (assertE (f ! 2 = 76) (assertE (f ! 3 = 70)
       (Inr \<lparr>e_entry = field 24 8 f, e_phoff = field 32 8 f, e_phentsize = ucast (field 54 2 f), e_phnum = ucast (field 56 2 f)\<rparr>))))"

definition read_phdr :: "u8 list \<Rightarrow> nat \<Rightarrow> elf_ehdr \<Rightarrow> elf_phdr res" where
  "read_phdr f ph h =
     (let k = unat (e_phoff h + of_nat ph * ucast (e_phentsize h))
      in assertE (k + 56 \<le> length f)
           (Inr \<lparr>p_type = ucast (field k 4 f), p_offset = field (k + 8) 8 f, p_vaddr = field (k + 16) 8 f,
                 p_filesz = field (k + 32) 8 f, p_memsz = field (k + 40) 8 f\<rparr>))"

text \<open>\<open>fgetc\<close> at the end of the file gives -1, which \<open>fputc\<close> writes as 255.\<close>

definition fgetc :: "u8 list \<Rightarrow> nat \<Rightarrow> u8" where
  "fgetc f i = (if i < length f then f ! i else 255)"

definition seg_bytes :: "u8 list \<Rightarrow> elf_phdr \<Rightarrow> u8 list" where
  "seg_bytes f ph =
     (if p_memsz ph \<noteq> 0 \<and> p_type ph = PT_LOAD
      then map (\<lambda>i. fgetc f (unat (p_offset ph) + i)) [0..<unat (p_filesz ph)] else [])"

text \<open>Every byte advances \<open>phyaddr\<close>, an \<open>int\<close>.\<close>

definition append_bytes :: "u8 list \<Rightarrow> image \<Rightarrow> image res" where
  "append_bytes bs st =
     guardE (phyaddr st + length bs < 2 ^ 31) (Inr ((fwrite bs st)\<lparr>phyaddr := phyaddr st + length bs\<rparr>))"

definition write_segment :: "elf_phdr \<Rightarrow> u8 list \<Rightarrow> image \<Rightarrow> image res" where
  "write_segment ph f st = append_bytes (seg_bytes f ph) st"

definition write_padding :: "nat \<Rightarrow> image \<Rightarrow> image res" where
  "write_padding new_phyaddr st = append_bytes (replicate (new_phyaddr - phyaddr st) 0) st"

section \<open>Building the image\<close>

definition SECTOR_SIZE :: nat where "SECTOR_SIZE = 512"
definition BOOT_LOADER_SIG_OFFSET :: nat where "BOOT_LOADER_SIG_OFFSET = 0x1fe"
definition OS_SIZE_LOC :: nat where "OS_SIZE_LOC = BOOT_LOADER_SIG_OFFSET - 2"
definition TASK_INFO_LOC :: nat where "TASK_INFO_LOC = OS_SIZE_LOC - 4"
definition IMG_TASK_NUM_LOC :: nat where "IMG_TASK_NUM_LOC = TASK_INFO_LOC - 1"

definition NBYTES2SEC :: "nat \<Rightarrow> nat" where
  "NBYTES2SEC n = n div SECTOR_SIZE + (if n mod SECTOR_SIZE \<noteq> 0 then 1 else 0)"

definition main_name :: "u8 list" where "main_name = [109, 97, 105, 110]"
definition bootblock_name :: "u8 list" where "bootblock_name = [98, 111, 111, 116, 98, 108, 111, 99, 107]"

definition upd_task :: "nat \<Rightarrow> (task_info_t \<Rightarrow> task_info_t) \<Rightarrow> image \<Rightarrow> image" where
  "upd_task i f st = st\<lparr>taskinfo := (taskinfo st)(i := f (taskinfo st i))\<rparr>"

text \<open>The loop over the program headers; \<open>task\<close> is the index in the table, if any.\<close>

fun write_segments :: "nat list \<Rightarrow> u8 list \<Rightarrow> elf_ehdr \<Rightarrow> u8 list \<Rightarrow> nat option \<Rightarrow> image \<Rightarrow> image res" where
  "write_segments [] f h name task st = Inr st"
| "write_segments (ph # phs) f h name task st =
     bindE (read_phdr f ph h) (\<lambda>phdr.
     bindE (write_segment phdr f st) (\<lambda>st.
       let st = (if name = main_name then st\<lparr>nbytes_kernel := nbytes_kernel st + unat (ucast (p_filesz phdr) :: u32)\<rparr> else st);
           st = (case task of
                   Some i \<Rightarrow> if p_type phdr = PT_LOAD
                     then upd_task i (\<lambda>t. t\<lparr>memsz := ucast (p_memsz phdr), entry_addr := p_vaddr phdr\<rparr>) st else st
                 | None \<Rightarrow> st)
       in write_segments phs f h name task st))"

text \<open>
  \<open>strcpy\<close> into the table overruns a name of 18 or more characters, and there are 16 entries.
\<close>

definition begin_task :: "nat option \<Rightarrow> u8 list \<Rightarrow> image \<Rightarrow> image res" where
  "begin_task task name st =
     (case task of None \<Rightarrow> Inr st
      | Some i \<Rightarrow> guardE (i < TASK_MAXNUM \<and> length name < TASK_NAME_LEN)
          (Inr (upd_task i (\<lambda>t. t\<lparr>task_name := name, begin_block := of_nat (phyaddr st div 512),
                                 begin_offset := of_nat (phyaddr st - 512 * (phyaddr st div 512))\<rparr>) st)))"

definition end_task :: "nat option \<Rightarrow> image \<Rightarrow> image" where
  "end_task task st =
     (case task of None \<Rightarrow> st
      | Some i \<Rightarrow>
          (let st = upd_task i (end_block_update (\<lambda>_. of_nat (phyaddr st div 512))) st
           in upd_task i (end_offset_update (\<lambda>_. of_nat (phyaddr st) - push_bit 9 (ucast (end_block (taskinfo st i))))) st))"

text \<open>\<open>content\<close> gives the bytes of a file, if there is one of this name.\<close>

definition add_file :: "(u8 list \<Rightarrow> u8 list option) \<Rightarrow> nat \<Rightarrow> u8 list \<Rightarrow> image \<Rightarrow> image res" where
  "add_file content fidx name st =
     (let task = (if 2 \<le> fidx then Some (fidx - 2) else None)
      in case content name of None \<Rightarrow> Inl Panic
         | Some f \<Rightarrow>
             bindE (read_ehdr f) (\<lambda>h.
             bindE (begin_task task name st) (\<lambda>st.
             bindE (write_segments [0..<unat (e_phnum h)] f h name task st) (\<lambda>st.
             bindE (if name = bootblock_name then write_padding SECTOR_SIZE st else Inr st) (\<lambda>st.
               Inr (end_task task st))))))"

fun add_files :: "(u8 list \<Rightarrow> u8 list option) \<Rightarrow> nat \<Rightarrow> u8 list list \<Rightarrow> image \<Rightarrow> image res" where
  "add_files content fidx [] st = Inr st"
| "add_files content fidx (name # files) st = bindE (add_file content fidx name st) (add_files content (Suc fidx) files)"

definition fseek :: "nat \<Rightarrow> image \<Rightarrow> image" where
  "fseek k st = st\<lparr>img_pos := k\<rparr>"

definition write_img_info :: "nat \<Rightarrow> image \<Rightarrow> image" where
  "write_img_info tasknum st =
     (let st = fseek (length (img st)) st;
          st = fwrite (concat (map (\<lambda>i. encode_task (taskinfo st i)) [0..<tasknum])) st;
          st = fseek OS_SIZE_LOC st;
          st = fputc (of_nat (NBYTES2SEC (nbytes_kernel st))) st;
          st = fputc (of_nat (NBYTES2SEC (nbytes_kernel st) div 256)) st;
          st = fputc 0x55 st
      in fputc 0xaa st)"

definition empty_image :: image where
  "empty_image = \<lparr>img = [], img_pos = 0, phyaddr = 0,
     taskinfo = (\<lambda>_. \<lparr>begin_block = 0, end_block = 0, begin_offset = 0, end_offset = 0, memsz = 0, entry_addr = 0, task_name = []\<rparr>),
     nbytes_kernel = 0\<rparr>"

definition create_image :: "(u8 list \<Rightarrow> u8 list option) \<Rightarrow> u8 list list \<Rightarrow> image res" where
  "create_image content files =
     (let tasknum = length files - 2
      in bindE (add_files content 0 files empty_image) (\<lambda>st.
           let st = fseek IMG_TASK_NUM_LOC st;
               st = fputc (of_nat tasknum) st;
               st = fwrite (le 4 (of_nat (phyaddr st))) st
           in Inr (write_img_info tasknum st)))"

text \<open>
  The command line: options begin with two dashes; \<open>--vm\<close> is refused, \<open>--extended\<close> only makes the tool
  say more.
\<close>

fun skip_options :: "u8 list list \<Rightarrow> u8 list list option" where
  "skip_options [] = Some []"
| "skip_options (a # args) =
     (if take 2 a = [45, 45]
      then (if drop 2 a = [118, 109] then None
            else if drop 2 a = [101, 120, 116, 101, 110, 100, 101, 100] then skip_options args
            else None)
      else Some (a # args))"

definition createimage :: "(u8 list \<Rightarrow> u8 list option) \<Rightarrow> u8 list list \<Rightarrow> image res" where
  "createimage content args =
     (case skip_options args of None \<Rightarrow> Inl Panic
      | Some files \<Rightarrow>
assertE (2 \<le> length files) (create_image content files))"

end
