(* ===== verification/Syscall.thy ===== *)
theory Syscall
  imports Irq Proc MmSpec
begin

text \<open>
  System calls: the wrappers of \<open>tiny_libc/syscall.c\<close>, the dispatch of \<open>kernel/syscall/syscall.c\<close>, the
  table that \<open>init_syscall\<close> of \<open>init/main.c\<close> fills, and the numbers both sides take from their headers
  (\<open>tiny_libc/include/syscall.h\<close> and \<open>asm/unistd.h\<close>).  The trap frame of the caller is in memory, where
  the entry code saves it.
\<close>

section \<open>Numbers\<close>

datatype sysno =
    SYSCALL_EXEC | SYSCALL_EXIT | SYSCALL_SLEEP | SYSCALL_KILL | SYSCALL_WAITPID | SYSCALL_PS
    | SYSCALL_GETPID | SYSCALL_YIELD | SYSCALL_WRITE | SYSCALL_READCH | SYSCALL_CURSOR
    | SYSCALL_REFLUSH | SYSCALL_CLEAR | SYSCALL_GET_TIMEBASE | SYSCALL_GET_TICK | SYSCALL_LOCK_INIT
    | SYSCALL_LOCK_ACQ | SYSCALL_LOCK_RELEASE | SYSCALL_SHOW_TASK | SYSCALL_BARR_INIT
    | SYSCALL_BARR_WAIT | SYSCALL_BARR_DESTROY | SYSCALL_COND_INIT | SYSCALL_COND_WAIT
    | SYSCALL_COND_SIGNAL | SYSCALL_COND_BROADCAST | SYSCALL_COND_DESTROY | SYSCALL_MBOX_OPEN
    | SYSCALL_MBOX_CLOSE | SYSCALL_MBOX_SEND | SYSCALL_MBOX_RECV | SYSCALL_SHM_GET | SYSCALL_SHM_DT
    | SYSCALL_NET_SEND | SYSCALL_NET_RECV | SYSCALL_FS_MKFS | SYSCALL_FS_STATFS | SYSCALL_FS_CD
    | SYSCALL_FS_MKDIR | SYSCALL_FS_RMDIR | SYSCALL_FS_LS | SYSCALL_FS_TOUCH | SYSCALL_FS_CAT
    | SYSCALL_FS_FOPEN | SYSCALL_FS_FREAD | SYSCALL_FS_FWRITE | SYSCALL_FS_FCLOSE | SYSCALL_FS_LN
    | SYSCALL_FS_RM | SYSCALL_FS_LSEEK | SYSCALL_SET_PID | SYS_TASKSET | SYSCALL_PTHREAD_CREATE
    | SYS_SANPSHOT | SYS_GETPA

text \<open>The numbers of the kernel, and those of the user library.\<close>

fun kernel_no :: "sysno \<Rightarrow> nat" where
  "kernel_no SYSCALL_EXEC = 0"
| "kernel_no SYSCALL_EXIT = 1"
| "kernel_no SYSCALL_SLEEP = 2"
| "kernel_no SYSCALL_KILL = 3"
| "kernel_no SYSCALL_WAITPID = 4"
| "kernel_no SYSCALL_PS = 5"
| "kernel_no SYSCALL_GETPID = 6"
| "kernel_no SYSCALL_YIELD = 7"
| "kernel_no SYSCALL_WRITE = 20"
| "kernel_no SYSCALL_READCH = 21"
| "kernel_no SYSCALL_CURSOR = 22"
| "kernel_no SYSCALL_REFLUSH = 23"
| "kernel_no SYSCALL_CLEAR = 24"
| "kernel_no SYSCALL_GET_TIMEBASE = 30"
| "kernel_no SYSCALL_GET_TICK = 31"
| "kernel_no SYSCALL_LOCK_INIT = 40"
| "kernel_no SYSCALL_LOCK_ACQ = 41"
| "kernel_no SYSCALL_LOCK_RELEASE = 42"
| "kernel_no SYSCALL_SHOW_TASK = 43"
| "kernel_no SYSCALL_BARR_INIT = 44"
| "kernel_no SYSCALL_BARR_WAIT = 45"
| "kernel_no SYSCALL_BARR_DESTROY = 46"
| "kernel_no SYSCALL_COND_INIT = 47"
| "kernel_no SYSCALL_COND_WAIT = 48"
| "kernel_no SYSCALL_COND_SIGNAL = 49"
| "kernel_no SYSCALL_COND_BROADCAST = 50"
| "kernel_no SYSCALL_COND_DESTROY = 51"
| "kernel_no SYSCALL_MBOX_OPEN = 52"
| "kernel_no SYSCALL_MBOX_CLOSE = 53"
| "kernel_no SYSCALL_MBOX_SEND = 54"
| "kernel_no SYSCALL_MBOX_RECV = 55"
| "kernel_no SYSCALL_SHM_GET = 56"
| "kernel_no SYSCALL_SHM_DT = 57"
| "kernel_no SYSCALL_NET_SEND = 63"
| "kernel_no SYSCALL_NET_RECV = 64"
| "kernel_no SYSCALL_FS_MKFS = 65"
| "kernel_no SYSCALL_FS_STATFS = 66"
| "kernel_no SYSCALL_FS_CD = 67"
| "kernel_no SYSCALL_FS_MKDIR = 68"
| "kernel_no SYSCALL_FS_RMDIR = 69"
| "kernel_no SYSCALL_FS_LS = 70"
| "kernel_no SYSCALL_FS_TOUCH = 71"
| "kernel_no SYSCALL_FS_CAT = 72"
| "kernel_no SYSCALL_FS_FOPEN = 73"
| "kernel_no SYSCALL_FS_FREAD = 74"
| "kernel_no SYSCALL_FS_FWRITE = 75"
| "kernel_no SYSCALL_FS_FCLOSE = 76"
| "kernel_no SYSCALL_FS_LN = 77"
| "kernel_no SYSCALL_FS_RM = 78"
| "kernel_no SYSCALL_FS_LSEEK = 79"
| "kernel_no SYSCALL_SET_PID = 80"
| "kernel_no SYS_TASKSET = 81"
| "kernel_no SYSCALL_PTHREAD_CREATE = 82"
| "kernel_no SYS_SANPSHOT = 83"
| "kernel_no SYS_GETPA = 84"

fun user_no :: "sysno \<Rightarrow> nat" where
  "user_no SYSCALL_EXEC = 0"
| "user_no SYSCALL_EXIT = 1"
| "user_no SYSCALL_SLEEP = 2"
| "user_no SYSCALL_KILL = 3"
| "user_no SYSCALL_WAITPID = 4"
| "user_no SYSCALL_PS = 5"
| "user_no SYSCALL_GETPID = 6"
| "user_no SYSCALL_YIELD = 7"
| "user_no SYSCALL_WRITE = 20"
| "user_no SYSCALL_READCH = 21"
| "user_no SYSCALL_CURSOR = 22"
| "user_no SYSCALL_REFLUSH = 23"
| "user_no SYSCALL_CLEAR = 24"
| "user_no SYSCALL_GET_TIMEBASE = 30"
| "user_no SYSCALL_GET_TICK = 31"
| "user_no SYSCALL_LOCK_INIT = 40"
| "user_no SYSCALL_LOCK_ACQ = 41"
| "user_no SYSCALL_LOCK_RELEASE = 42"
| "user_no SYSCALL_SHOW_TASK = 43"
| "user_no SYSCALL_BARR_INIT = 44"
| "user_no SYSCALL_BARR_WAIT = 45"
| "user_no SYSCALL_BARR_DESTROY = 46"
| "user_no SYSCALL_COND_INIT = 47"
| "user_no SYSCALL_COND_WAIT = 48"
| "user_no SYSCALL_COND_SIGNAL = 49"
| "user_no SYSCALL_COND_BROADCAST = 50"
| "user_no SYSCALL_COND_DESTROY = 51"
| "user_no SYSCALL_MBOX_OPEN = 52"
| "user_no SYSCALL_MBOX_CLOSE = 53"
| "user_no SYSCALL_MBOX_SEND = 54"
| "user_no SYSCALL_MBOX_RECV = 55"
| "user_no SYSCALL_SHM_GET = 56"
| "user_no SYSCALL_SHM_DT = 57"
| "user_no SYSCALL_NET_SEND = 63"
| "user_no SYSCALL_NET_RECV = 64"
| "user_no SYSCALL_FS_MKFS = 65"
| "user_no SYSCALL_FS_STATFS = 66"
| "user_no SYSCALL_FS_CD = 67"
| "user_no SYSCALL_FS_MKDIR = 68"
| "user_no SYSCALL_FS_RMDIR = 69"
| "user_no SYSCALL_FS_LS = 70"
| "user_no SYSCALL_FS_TOUCH = 71"
| "user_no SYSCALL_FS_CAT = 72"
| "user_no SYSCALL_FS_FOPEN = 73"
| "user_no SYSCALL_FS_FREAD = 74"
| "user_no SYSCALL_FS_FWRITE = 75"
| "user_no SYSCALL_FS_FCLOSE = 76"
| "user_no SYSCALL_FS_LN = 77"
| "user_no SYSCALL_FS_RM = 78"
| "user_no SYSCALL_FS_LSEEK = 79"
| "user_no SYSCALL_SET_PID = 80"
| "user_no SYS_TASKSET = 81"
| "user_no SYSCALL_PTHREAD_CREATE = 82"
| "user_no SYS_SANPSHOT = 83"
| "user_no SYS_GETPA = 84"

section \<open>The table\<close>

text \<open>The functions of the kernel that the table points to; \<open>None\<close> is \<open>NULL\<close>.\<close>

datatype kfun =
    Do_exec | Do_exit | Do_sleep | Do_kill | Do_waitpid | Do_process_show | Do_getpid | Do_scheduler
    | Screen_write | Bios_getchar | Screen_move_cursor | Screen_reflush | Screen_clear
    | Get_time_base | Get_ticks | Do_mutex_lock_init | Do_mutex_lock_acquire | Do_mutex_lock_release
    | Do_barrier_init | Do_barrier_wait | Do_barrier_destroy | Do_condition_init | Do_condition_wait
    | Do_condition_signal | Do_condition_broadcast | Do_condition_destroy | Do_mbox_open
    | Do_mbox_close | Do_mbox_send | Do_mbox_recv | Shm_page_get | Shm_page_dt | Do_mkfs | Do_statfs
    | Do_cd | Do_mkdir | Do_rmdir | Do_ls | Do_touch | Do_cat | Do_fopen | Do_fclose | Do_fread
    | Do_fwrite | Do_ln | Do_rm | Do_lseek | Do_taskset_chg | Do_taskset_exec | Do_thread_create
    | Do_snapshot | Do_getpa

definition NUM_SYSCALLS :: nat where "NUM_SYSCALLS = 128"

definition init_syscall :: "(nat \<Rightarrow> kfun option) \<Rightarrow> nat \<Rightarrow> kfun option" where
  "init_syscall syscall =
     (fold (\<lambda>i t. t(i := None)) [0..<NUM_SYSCALLS] syscall)
     (kernel_no SYSCALL_EXEC := Some Do_exec,
      kernel_no SYSCALL_EXIT := Some Do_exit,
      kernel_no SYSCALL_SLEEP := Some Do_sleep,
      kernel_no SYSCALL_KILL := Some Do_kill,
      kernel_no SYSCALL_WAITPID := Some Do_waitpid,
      kernel_no SYSCALL_PS := Some Do_process_show,
      kernel_no SYSCALL_GETPID := Some Do_getpid,
      kernel_no SYSCALL_YIELD := Some Do_scheduler,
      kernel_no SYSCALL_WRITE := Some Screen_write,
      kernel_no SYSCALL_READCH := Some Bios_getchar,
      kernel_no SYSCALL_CURSOR := Some Screen_move_cursor,
      kernel_no SYSCALL_REFLUSH := Some Screen_reflush,
      kernel_no SYSCALL_CLEAR := Some Screen_clear,
      kernel_no SYSCALL_GET_TIMEBASE := Some Get_time_base,
      kernel_no SYSCALL_GET_TICK := Some Get_ticks,
      kernel_no SYSCALL_LOCK_INIT := Some Do_mutex_lock_init,
      kernel_no SYSCALL_LOCK_ACQ := Some Do_mutex_lock_acquire,
      kernel_no SYSCALL_LOCK_RELEASE := Some Do_mutex_lock_release,
      kernel_no SYSCALL_SHOW_TASK := None,
      kernel_no SYSCALL_BARR_INIT := Some Do_barrier_init,
      kernel_no SYSCALL_BARR_WAIT := Some Do_barrier_wait,
      kernel_no SYSCALL_BARR_DESTROY := Some Do_barrier_destroy,
      kernel_no SYSCALL_COND_INIT := Some Do_condition_init,
      kernel_no SYSCALL_COND_WAIT := Some Do_condition_wait,
      kernel_no SYSCALL_COND_SIGNAL := Some Do_condition_signal,
      kernel_no SYSCALL_COND_BROADCAST := Some Do_condition_broadcast,
      kernel_no SYSCALL_COND_DESTROY := Some Do_condition_destroy,
      kernel_no SYSCALL_MBOX_OPEN := Some Do_mbox_open,
      kernel_no SYSCALL_MBOX_CLOSE := Some Do_mbox_close,
      kernel_no SYSCALL_MBOX_SEND := Some Do_mbox_send,
      kernel_no SYSCALL_MBOX_RECV := Some Do_mbox_recv,
      kernel_no SYSCALL_SHM_GET := Some Shm_page_get,
      kernel_no SYSCALL_SHM_DT := Some Shm_page_dt,
      kernel_no SYSCALL_FS_MKFS := Some Do_mkfs,
      kernel_no SYSCALL_FS_STATFS := Some Do_statfs,
      kernel_no SYSCALL_FS_CD := Some Do_cd,
      kernel_no SYSCALL_FS_MKDIR := Some Do_mkdir,
      kernel_no SYSCALL_FS_RMDIR := Some Do_rmdir,
      kernel_no SYSCALL_FS_LS := Some Do_ls,
      kernel_no SYSCALL_FS_TOUCH := Some Do_touch,
      kernel_no SYSCALL_FS_CAT := Some Do_cat,
      kernel_no SYSCALL_FS_FOPEN := Some Do_fopen,
      kernel_no SYSCALL_FS_FCLOSE := Some Do_fclose,
      kernel_no SYSCALL_FS_FREAD := Some Do_fread,
      kernel_no SYSCALL_FS_FWRITE := Some Do_fwrite,
      kernel_no SYSCALL_FS_LN := Some Do_ln,
      kernel_no SYSCALL_FS_RM := Some Do_rm,
      kernel_no SYSCALL_FS_LSEEK := Some Do_lseek,
      kernel_no SYSCALL_SET_PID := Some Do_taskset_chg,
      kernel_no SYS_TASKSET := Some Do_taskset_exec,
      kernel_no SYSCALL_PTHREAD_CREATE := Some Do_thread_create,
      kernel_no SYS_SANPSHOT := Some Do_snapshot,
      kernel_no SYS_GETPA := Some Do_getpa)"

section \<open>The user library\<close>

text \<open>The registers \<open>a7\<close> and \<open>a0\<close> to \<open>a4\<close> at the \<open>ecall\<close>.\<close>

record ecall =
  ec_no :: u64
  ec_a0 :: u64
  ec_a1 :: u64
  ec_a2 :: u64
  ec_a3 :: u64
  ec_a4 :: u64

definition invoke_syscall :: "nat \<Rightarrow> u64 \<Rightarrow> u64 \<Rightarrow> u64 \<Rightarrow> u64 \<Rightarrow> u64 \<Rightarrow> ecall" where
  "invoke_syscall sysno arg0 arg1 arg2 arg3 arg4 =
     \<lparr>ec_no = of_nat sysno, ec_a0 = arg0, ec_a1 = arg1, ec_a2 = arg2, ec_a3 = arg3, ec_a4 = arg4\<rparr>"

definition IGNORE :: u64 where "IGNORE = 0"

text \<open>
  What a wrapper does with the result: nothing (a \<open>void\<close> function), return it, return 0 instead, or end
  without \<open>return\<close> although it has a result type, so that the value of the call is undefined.
\<close>

datatype usys = Void ecall | Returns ecall | ReturnsZero ecall | NoReturn ecall

fun ecall_of :: "usys \<Rightarrow> ecall" where
  "ecall_of (Void c) = c"
| "ecall_of (Returns c) = c"
| "ecall_of (ReturnsZero c) = c"
| "ecall_of (NoReturn c) = c"

fun usys_value :: "usys \<Rightarrow> u64 \<Rightarrow> u64 option" where
  "usys_value (Void c) v = None"
| "usys_value (Returns c) v = Some v"
| "usys_value (ReturnsZero c) v = Some 0"
| "usys_value (NoReturn c) v = None"

definition sys_yield :: "usys" where
  "sys_yield = Void (invoke_syscall (user_no SYSCALL_YIELD) IGNORE IGNORE IGNORE IGNORE IGNORE)"

definition sys_move_cursor :: "u32 \<Rightarrow> u32 \<Rightarrow> usys" where
  "sys_move_cursor x y = Void (invoke_syscall (user_no SYSCALL_CURSOR) (scast x) (scast y) IGNORE IGNORE IGNORE)"

definition sys_write :: "u64 \<Rightarrow> usys" where
  "sys_write buff = Void (invoke_syscall (user_no SYSCALL_WRITE) buff IGNORE IGNORE IGNORE IGNORE)"

definition sys_reflush :: "usys" where
  "sys_reflush = Void (invoke_syscall (user_no SYSCALL_REFLUSH) IGNORE IGNORE IGNORE IGNORE IGNORE)"

definition sys_mutex_init :: "u32 \<Rightarrow> usys" where
  "sys_mutex_init key = Returns (invoke_syscall (user_no SYSCALL_LOCK_INIT) (scast key) IGNORE IGNORE IGNORE IGNORE)"

definition sys_mutex_acquire :: "u32 \<Rightarrow> usys" where
  "sys_mutex_acquire mutex_idx = Void (invoke_syscall (user_no SYSCALL_LOCK_ACQ) (scast mutex_idx) IGNORE IGNORE IGNORE IGNORE)"

definition sys_mutex_release :: "u32 \<Rightarrow> usys" where
  "sys_mutex_release mutex_idx = Void (invoke_syscall (user_no SYSCALL_LOCK_RELEASE) (scast mutex_idx) IGNORE IGNORE IGNORE IGNORE)"

definition sys_get_timebase :: "usys" where
  "sys_get_timebase = Returns (invoke_syscall (user_no SYSCALL_GET_TIMEBASE) IGNORE IGNORE IGNORE IGNORE IGNORE)"

definition sys_get_tick :: "usys" where
  "sys_get_tick = Returns (invoke_syscall (user_no SYSCALL_GET_TICK) IGNORE IGNORE IGNORE IGNORE IGNORE)"

definition sys_sleep :: "u32 \<Rightarrow> usys" where
  "sys_sleep time = Void (invoke_syscall (user_no SYSCALL_SLEEP) (ucast time) IGNORE IGNORE IGNORE IGNORE)"

definition sys_pthread_create :: "u64 \<Rightarrow> u64 \<Rightarrow> u64 \<Rightarrow> usys" where
  "sys_pthread_create thread start_routine arg = Void (invoke_syscall (user_no SYSCALL_PTHREAD_CREATE) thread start_routine arg IGNORE IGNORE)"

definition sys_exec :: "u64 \<Rightarrow> u32 \<Rightarrow> u64 \<Rightarrow> usys" where
  "sys_exec name argc argv = NoReturn (invoke_syscall (user_no SYSCALL_EXEC) name (scast argc) argv IGNORE IGNORE)"

definition sys_exit :: "usys" where
  "sys_exit = Void (invoke_syscall (user_no SYSCALL_EXIT) IGNORE IGNORE IGNORE IGNORE IGNORE)"

definition sys_kill :: "u32 \<Rightarrow> usys" where
  "sys_kill p = NoReturn (invoke_syscall (user_no SYSCALL_KILL) (scast p) IGNORE IGNORE IGNORE IGNORE)"

definition sys_waitpid :: "u32 \<Rightarrow> usys" where
  "sys_waitpid p = NoReturn (invoke_syscall (user_no SYSCALL_WAITPID) (scast p) IGNORE IGNORE IGNORE IGNORE)"

definition sys_ps :: "usys" where
  "sys_ps = Void (invoke_syscall (user_no SYSCALL_PS) IGNORE IGNORE IGNORE IGNORE IGNORE)"

definition sys_getpid :: "usys" where
  "sys_getpid = NoReturn (invoke_syscall (user_no SYSCALL_GETPID) IGNORE IGNORE IGNORE IGNORE IGNORE)"

definition sys_getchar :: "usys" where
  "sys_getchar = NoReturn (invoke_syscall (user_no SYSCALL_READCH) IGNORE IGNORE IGNORE IGNORE IGNORE)"

definition sys_barrier_init :: "u32 \<Rightarrow> u32 \<Rightarrow> usys" where
  "sys_barrier_init key goal = NoReturn (invoke_syscall (user_no SYSCALL_BARR_INIT) (scast key) (scast goal) IGNORE IGNORE IGNORE)"

definition sys_barrier_wait :: "u32 \<Rightarrow> usys" where
  "sys_barrier_wait bar_idx = Void (invoke_syscall (user_no SYSCALL_BARR_WAIT) (scast bar_idx) IGNORE IGNORE IGNORE IGNORE)"

definition sys_barrier_destroy :: "u32 \<Rightarrow> usys" where
  "sys_barrier_destroy bar_idx = Void (invoke_syscall (user_no SYSCALL_BARR_DESTROY) (scast bar_idx) IGNORE IGNORE IGNORE IGNORE)"

definition sys_condition_init :: "u32 \<Rightarrow> usys" where
  "sys_condition_init key = NoReturn (invoke_syscall (user_no SYSCALL_COND_INIT) (scast key) IGNORE IGNORE IGNORE IGNORE)"

definition sys_condition_wait :: "u32 \<Rightarrow> u32 \<Rightarrow> usys" where
  "sys_condition_wait cond_idx mutex_idx = Void (invoke_syscall (user_no SYSCALL_COND_WAIT) (scast cond_idx) (scast mutex_idx) IGNORE IGNORE IGNORE)"

definition sys_condition_signal :: "u32 \<Rightarrow> usys" where
  "sys_condition_signal cond_idx = Void (invoke_syscall (user_no SYSCALL_COND_SIGNAL) (scast cond_idx) IGNORE IGNORE IGNORE IGNORE)"

definition sys_condition_broadcast :: "u32 \<Rightarrow> usys" where
  "sys_condition_broadcast cond_idx = Void (invoke_syscall (user_no SYSCALL_COND_BROADCAST) (scast cond_idx) IGNORE IGNORE IGNORE IGNORE)"

definition sys_condition_destroy :: "u32 \<Rightarrow> usys" where
  "sys_condition_destroy cond_idx = Void (invoke_syscall (user_no SYSCALL_COND_DESTROY) (scast cond_idx) IGNORE IGNORE IGNORE IGNORE)"

definition sys_mbox_open :: "u64 \<Rightarrow> usys" where
  "sys_mbox_open name = NoReturn (invoke_syscall (user_no SYSCALL_MBOX_OPEN) name IGNORE IGNORE IGNORE IGNORE)"

definition sys_mbox_close :: "u32 \<Rightarrow> usys" where
  "sys_mbox_close mbox_id = Void (invoke_syscall (user_no SYSCALL_MBOX_CLOSE) (scast mbox_id) IGNORE IGNORE IGNORE IGNORE)"

definition sys_mbox_send :: "u32 \<Rightarrow> u64 \<Rightarrow> u32 \<Rightarrow> usys" where
  "sys_mbox_send mbox_idx msg msg_length = NoReturn (invoke_syscall (user_no SYSCALL_MBOX_SEND) (scast mbox_idx) msg (scast msg_length) IGNORE IGNORE)"

definition sys_mbox_recv :: "u32 \<Rightarrow> u64 \<Rightarrow> u32 \<Rightarrow> usys" where
  "sys_mbox_recv mbox_idx msg msg_length = NoReturn (invoke_syscall (user_no SYSCALL_MBOX_RECV) (scast mbox_idx) msg (scast msg_length) IGNORE IGNORE)"

definition sys_screen_clear :: "usys" where
  "sys_screen_clear = Void (invoke_syscall (user_no SYSCALL_CLEAR) IGNORE IGNORE IGNORE IGNORE IGNORE)"

definition sys_shmpageget :: "u32 \<Rightarrow> usys" where
  "sys_shmpageget key = NoReturn (invoke_syscall (user_no SYSCALL_SHM_GET) (scast key) IGNORE IGNORE IGNORE IGNORE)"

definition sys_shmpagedt :: "u64 \<Rightarrow> usys" where
  "sys_shmpagedt addr = Void (invoke_syscall (user_no SYSCALL_SHM_DT) addr IGNORE IGNORE IGNORE IGNORE)"

definition sys_set_pid :: "u32 \<Rightarrow> u32 \<Rightarrow> usys" where
  "sys_set_pid p msk = Void (invoke_syscall (user_no SYSCALL_SET_PID) (scast p) (scast msk) IGNORE IGNORE IGNORE)"

definition sys_taskset :: "u64 \<Rightarrow> u32 \<Rightarrow> u64 \<Rightarrow> u32 \<Rightarrow> usys" where
  "sys_taskset name argc argv msk = Void (invoke_syscall (user_no SYS_TASKSET) name (scast argc) argv (scast msk) IGNORE)"

definition sys_snapshot :: "u64 \<Rightarrow> usys" where
  "sys_snapshot vaddr = NoReturn (invoke_syscall (user_no SYS_SANPSHOT) vaddr IGNORE IGNORE IGNORE IGNORE)"

definition sys_getpa :: "u64 \<Rightarrow> usys" where
  "sys_getpa vaddr = NoReturn (invoke_syscall (user_no SYS_GETPA) vaddr IGNORE IGNORE IGNORE IGNORE)"

definition sys_net_send :: "u64 \<Rightarrow> u32 \<Rightarrow> usys" where
  "sys_net_send txpacket len = NoReturn (invoke_syscall (user_no SYSCALL_NET_SEND) txpacket (scast len) IGNORE IGNORE IGNORE)"

definition sys_net_recv :: "u64 \<Rightarrow> u32 \<Rightarrow> u64 \<Rightarrow> usys" where
  "sys_net_recv rxbuffer pkt_num pkt_lens = NoReturn (invoke_syscall (user_no SYSCALL_NET_RECV) rxbuffer (scast pkt_num) pkt_lens IGNORE IGNORE)"

definition sys_mkfs :: "usys" where
  "sys_mkfs = ReturnsZero (invoke_syscall (user_no SYSCALL_FS_MKFS) IGNORE IGNORE IGNORE IGNORE IGNORE)"

definition sys_statfs :: "usys" where
  "sys_statfs = ReturnsZero (invoke_syscall (user_no SYSCALL_FS_STATFS) IGNORE IGNORE IGNORE IGNORE IGNORE)"

definition sys_cd :: "u64 \<Rightarrow> usys" where
  "sys_cd path = ReturnsZero (invoke_syscall (user_no SYSCALL_FS_CD) path IGNORE IGNORE IGNORE IGNORE)"

definition sys_mkdir :: "u64 \<Rightarrow> usys" where
  "sys_mkdir path = ReturnsZero (invoke_syscall (user_no SYSCALL_FS_MKDIR) path IGNORE IGNORE IGNORE IGNORE)"

definition sys_rmdir :: "u64 \<Rightarrow> usys" where
  "sys_rmdir path = ReturnsZero (invoke_syscall (user_no SYSCALL_FS_RMDIR) path IGNORE IGNORE IGNORE IGNORE)"

definition sys_ls :: "u64 \<Rightarrow> u32 \<Rightarrow> usys" where
  "sys_ls path option = ReturnsZero (invoke_syscall (user_no SYSCALL_FS_LS) path (scast option) IGNORE IGNORE IGNORE)"

definition sys_touch :: "u64 \<Rightarrow> usys" where
  "sys_touch path = ReturnsZero (invoke_syscall (user_no SYSCALL_FS_TOUCH) path IGNORE IGNORE IGNORE IGNORE)"

definition sys_cat :: "u64 \<Rightarrow> usys" where
  "sys_cat path = ReturnsZero (invoke_syscall (user_no SYSCALL_FS_CAT) path IGNORE IGNORE IGNORE IGNORE)"

definition sys_fopen :: "u64 \<Rightarrow> u32 \<Rightarrow> usys" where
  "sys_fopen path mode = ReturnsZero (invoke_syscall (user_no SYSCALL_FS_FOPEN) path (scast mode) IGNORE IGNORE IGNORE)"

definition sys_fread :: "u32 \<Rightarrow> u64 \<Rightarrow> u32 \<Rightarrow> usys" where
  "sys_fread fd buff len = ReturnsZero (invoke_syscall (user_no SYSCALL_FS_FREAD) (scast fd) buff (scast len) IGNORE IGNORE)"

definition sys_fwrite :: "u32 \<Rightarrow> u64 \<Rightarrow> u32 \<Rightarrow> usys" where
  "sys_fwrite fd buff len = ReturnsZero (invoke_syscall (user_no SYSCALL_FS_FWRITE) (scast fd) buff (scast len) IGNORE IGNORE)"

definition sys_fclose :: "u32 \<Rightarrow> usys" where
  "sys_fclose fd = ReturnsZero (invoke_syscall (user_no SYSCALL_FS_FCLOSE) (scast fd) IGNORE IGNORE IGNORE IGNORE)"

definition sys_ln :: "u64 \<Rightarrow> u64 \<Rightarrow> usys" where
  "sys_ln src_path dst_path = ReturnsZero (invoke_syscall (user_no SYSCALL_FS_LN) src_path dst_path IGNORE IGNORE IGNORE)"

definition sys_rm :: "u64 \<Rightarrow> usys" where
  "sys_rm path = ReturnsZero (invoke_syscall (user_no SYSCALL_FS_RM) path IGNORE IGNORE IGNORE IGNORE)"

definition sys_lseek :: "u32 \<Rightarrow> u32 \<Rightarrow> u32 \<Rightarrow> usys" where
  "sys_lseek fd offset whence = ReturnsZero (invoke_syscall (user_no SYSCALL_FS_LSEEK) (scast fd) (scast offset) (scast whence) IGNORE IGNORE)"

section \<open>Dispatch\<close>

text \<open>Register \<open>i\<close> of the trap frame at \<open>r\<close>; 17 is \<open>a7\<close>, 10 to 13 are \<open>a0\<close> to \<open>a3\<close>, 33 is \<open>sepc\<close>.\<close>

definition get_reg :: "u64 \<Rightarrow> nat \<Rightarrow> ('d, 's) ms \<Rightarrow> u64" where
  "get_reg r i s = ram s (r + 8 * of_nat i)"

text \<open>
  \<open>call\<close> is what calling an entry of the table does.  The number is not checked: an index behind the
  table and a call of \<open>NULL\<close> are undefined.
\<close>

definition handle_syscall ::
  "(kfun \<Rightarrow> u64 \<Rightarrow> u64 \<Rightarrow> u64 \<Rightarrow> u64 \<Rightarrow> ('d, 's) ms \<Rightarrow> (u64 \<times> ('d, 's) ms) res) \<Rightarrow> (nat \<Rightarrow> kfun option) \<Rightarrow>
   u64 \<Rightarrow> ('d, 's) ms \<Rightarrow> ('d, 's) ms res" where
  "handle_syscall call syscall regs s =
     (let s = set_reg regs 33 (get_reg regs 33 s + 4) s;
          n = unat (get_reg regs 17 s)
      in guardE (n < NUM_SYSCALLS)
           (case syscall n of None \<Rightarrow> Inl Fault
            | Some f \<Rightarrow>
                bindE (call f (get_reg regs 10 s) (get_reg regs 11 s) (get_reg regs 12 s) (get_reg regs 13 s) s) (\<lambda>(v, s).
                  Inr (set_reg regs 10 v s))))"

text \<open>
  The calls of functions on processes, locks and memory whose arguments are numbers and addresses.
  An \<open>int\<close> parameter takes the low half of its register.  A \<open>void\<close> function leaves some value in \<open>a0\<close>,
  given by \<open>junk\<close>.  The other functions work on strings and buffers of the caller; they are given by
  \<open>other\<close>.
\<close>

definition int_arg :: "u64 \<Rightarrow> int" where
  "int_arg a = sint (ucast a :: u32)"

definition void_call :: "u64 \<Rightarrow> ('d, 's) ms res \<Rightarrow> (u64 \<times> ('d, 's) ms) res" where
  "void_call junk r = bindE r (\<lambda>s. Inr (junk, s))"

definition int_call :: "(int \<times> ('d, 's) ms) res \<Rightarrow> (u64 \<times> ('d, 's) ms) res" where
  "int_call r = bindE r (\<lambda>(v, s). Inr (of_int v, s))"

fun kcall ::
  "'d sdcard \<Rightarrow> kaddr \<Rightarrow> nat \<Rightarrow> u64 \<Rightarrow> (kfun \<Rightarrow> u64 \<Rightarrow> u64 \<Rightarrow> u64 \<Rightarrow> u64 \<Rightarrow> ('d, 's) ms \<Rightarrow> (u64 \<times> ('d, 's) ms) res) \<Rightarrow>
   kfun \<Rightarrow> u64 \<Rightarrow> u64 \<Rightarrow> u64 \<Rightarrow> u64 \<Rightarrow> ('d, 's) ms \<Rightarrow> (u64 \<times> ('d, 's) ms) res" where
  "kcall D K cpu junk other f a0 a1 a2 a3 s =
     (case f of
        Do_exit \<Rightarrow> void_call junk (do_exit cpu s)
      | Do_sleep \<Rightarrow> void_call junk (do_sleep cpu (ucast a0) s)
      | Do_kill \<Rightarrow> int_call (do_kill cpu (int_arg a0) s)
      | Do_waitpid \<Rightarrow> int_call (do_waitpid cpu (int_arg a0) s)
      | Do_process_show \<Rightarrow> Inr (junk, do_process_show s)
      | Do_getpid \<Rightarrow> Inr (of_int (do_getpid cpu s), s)
      | Do_scheduler \<Rightarrow> void_call junk (do_scheduler cpu s)
      | Get_time_base \<Rightarrow> Inr (get_time_base s, s)
      | Get_ticks \<Rightarrow> Inr (get_ticks s)
      | Do_mutex_lock_init \<Rightarrow> int_call (do_mutex_lock_init (int_arg a0) s)
      | Do_mutex_lock_acquire \<Rightarrow> void_call junk (do_mutex_lock_acquire cpu (int_arg a0) s)
      | Do_mutex_lock_release \<Rightarrow> void_call junk (do_mutex_lock_release (int_arg a0) s)
      | Do_barrier_init \<Rightarrow> int_call (Inr (do_barrier_init (int_arg a0) (int_arg a1) s))
      | Do_barrier_wait \<Rightarrow> void_call junk (do_barrier_wait cpu (int_arg a0) s)
      | Do_barrier_destroy \<Rightarrow> void_call junk (do_barrier_destroy (int_arg a0) s)
      | Do_condition_init \<Rightarrow> int_call (Inr (do_condition_init (int_arg a0) s))
      | Do_condition_wait \<Rightarrow> void_call junk (do_condition_wait cpu (int_arg a0) (int_arg a1) s)
      | Do_condition_signal \<Rightarrow> void_call junk (do_condition_signal cpu (int_arg a0) s)
      | Do_condition_broadcast \<Rightarrow> void_call junk (do_condition_broadcast cpu (int_arg a0) s)
      | Do_condition_destroy \<Rightarrow> void_call junk (do_condition_destroy (int_arg a0) s)
      | Shm_page_get \<Rightarrow> shm_page_get D cpu (int_arg a0) s
      | Shm_page_dt \<Rightarrow> void_call junk (shm_page_dt cpu a0 s)
      | Do_taskset_chg \<Rightarrow> void_call junk (do_taskset_chg (int_arg a0) (ucast a1) s)
      | Do_thread_create \<Rightarrow> bindE (do_thread_create D K cpu a1 a2 s) (\<lambda>(_, s). Inr (junk, s))
      | Do_snapshot \<Rightarrow> do_snapshot D cpu a0 s
      | Do_getpa \<Rightarrow> bindE (do_getpa cpu a0 s) (\<lambda>v. Inr (v, s))
      | _ \<Rightarrow> other f a0 a1 a2 a3 s)"

text \<open>A trap with cause \<open>scause\<close> up to the end of a system call.\<close>

definition trap_syscall ::
  "(kfun \<Rightarrow> u64 \<Rightarrow> u64 \<Rightarrow> u64 \<Rightarrow> u64 \<Rightarrow> ('d, 's) ms \<Rightarrow> (u64 \<times> ('d, 's) ms) res) \<Rightarrow>
   (nat \<Rightarrow> handler_t) \<times> (nat \<Rightarrow> handler_t) \<Rightarrow> (nat \<Rightarrow> kfun option) \<Rightarrow> u64 \<Rightarrow> u64 \<Rightarrow> ('d, 's) ms \<Rightarrow> ('d, 's) ms res" where
  "trap_syscall call tabs syscall regs scause s =
     bindE (interrupt_helper tabs scause) (\<lambda>h. if h = HandleSyscall then handle_syscall call syscall regs s else Inl Panic)"

section \<open>Lemmas\<close>

text \<open>What the kernel calls for a wrapper, once the table is filled.\<close>

definition dispatch :: "usys \<Rightarrow> (kfun \<times> u64 \<times> u64 \<times> u64 \<times> u64) option" where
  "dispatch w =
     (let c = ecall_of w
      in map_option (\<lambda>f. (f, ec_a0 c, ec_a1 c, ec_a2 c, ec_a3 c)) (init_syscall (\<lambda>_. None) (unat (ec_no c))))"

lemma clear_table: "fold (\<lambda>i t. t(i := None)) xs t n = (if n \<in> set xs then None else t n)"
  by (induction xs arbitrary: t) auto

lemma clear_empty: "fold (\<lambda>i t. t(i := None)) xs (\<lambda>_. None) = (\<lambda>_. None)"
  by (rule ext) (simp add: clear_table)

lemma init_syscall_prev: "n < NUM_SYSCALLS \<Longrightarrow> init_syscall t n = init_syscall (\<lambda>_. None) n"
  by (simp add: init_syscall_def clear_table)

lemma init_syscall_range: "init_syscall (\<lambda>_. None) n = Some f \<Longrightarrow> n < NUM_SYSCALLS"
  unfolding init_syscall_def clear_empty NUM_SYSCALLS_def by (simp split: if_splits)

lemma dispatch_invoke:
  assumes "k < NUM_SYSCALLS" and "ecall_of w = invoke_syscall k a0 a1 a2 a3 a4"
  shows "dispatch w = map_option (\<lambda>f. (f, a0, a1, a2, a3)) (init_syscall (\<lambda>_. None) k)"
proof -
  have "unat (of_nat k :: u64) = k" using assms(1) by (simp add: NUM_SYSCALLS_def unat_of_nat)
  then show ?thesis by (simp add: dispatch_def assms(2) invoke_syscall_def)
qed

lemma reg_addr_eq: "i < 36 \<Longrightarrow> j < 36 \<Longrightarrow> (r :: u64) + 8 * of_nat i = r + 8 * of_nat j \<longleftrightarrow> i = j"
proof -
  assume "i < 36" "j < 36"
  then have "unat (8 * of_nat i :: u64) = 8 * i" "unat (8 * of_nat j :: u64) = 8 * j"
    by (simp_all add: unat_word_ariths unat_of_nat)
  then show ?thesis by (metis add_left_cancel mult_cancel1 zero_neq_numeral)
qed

lemma get_set_reg [simp]: "i < 36 \<Longrightarrow> j < 36 \<Longrightarrow> get_reg r i (set_reg r j v s) = (if i = j then v else get_reg r i s)"
  using reg_addr_eq [of i j r] by (simp add: get_reg_def set_reg_def wr64_def)

text \<open>The frame at \<open>r\<close> is that of a process which executes the \<open>ecall\<close> of \<open>w\<close>.\<close>

definition saved_frame :: "usys \<Rightarrow> u64 \<Rightarrow> ('d, 's) ms \<Rightarrow> bool" where
  "saved_frame w r s \<longleftrightarrow> (let c = ecall_of w in
     get_reg r 17 s = ec_no c \<and> get_reg r 10 s = ec_a0 c \<and> get_reg r 11 s = ec_a1 c \<and> get_reg r 12 s = ec_a2 c \<and> get_reg r 13 s = ec_a3 c)"

lemma trap_is_syscall: "interrupt_helper (init_exception tabs) 8 = Inr HandleSyscall"
  by (cases tabs) (simp add: interrupt_helper_def init_exception_def EXCC_COUNT_def EXCC_SYSCALL_def
      EXCC_INST_PAGE_FAULT_def EXCC_LOAD_PAGE_FAULT_def EXCC_STORE_PAGE_FAULT_def guardE_def)

lemma trap_dispatch:
  assumes "saved_frame w r s" and "dispatch w = Some (f, a0, a1, a2, a3)"
  shows "trap_syscall call (init_exception tabs) (init_syscall t) r 8 s =
    bindE (call f a0 a1 a2 a3 (set_reg r 33 (get_reg r 33 s + 4) s)) (\<lambda>(v, s). Inr (set_reg r 10 v s))"
proof -
  have tab: "init_syscall (\<lambda>_. None) (unat (ec_no (ecall_of w))) = Some f"
    and args: "a0 = ec_a0 (ecall_of w)" "a1 = ec_a1 (ecall_of w)" "a2 = ec_a2 (ecall_of w)" "a3 = ec_a3 (ecall_of w)"
    using assms(2) by (auto simp: dispatch_def Let_def)
  have "unat (ec_no (ecall_of w)) < NUM_SYSCALLS" by (rule init_syscall_range [OF tab])
  then show ?thesis using assms(1) tab args init_syscall_prev [of _ t]
    by (simp add: trap_syscall_def trap_is_syscall handle_syscall_def saved_frame_def guardE_def Let_def)
qed

lemmas wrapper_defs =
  sys_yield_def sys_move_cursor_def sys_write_def sys_reflush_def sys_mutex_init_def
  sys_mutex_acquire_def sys_mutex_release_def sys_get_timebase_def sys_get_tick_def sys_sleep_def
  sys_pthread_create_def sys_exec_def sys_exit_def sys_kill_def sys_waitpid_def sys_ps_def
  sys_getpid_def sys_getchar_def sys_barrier_init_def sys_barrier_wait_def sys_barrier_destroy_def
  sys_condition_init_def sys_condition_wait_def sys_condition_signal_def sys_condition_broadcast_def
  sys_condition_destroy_def sys_mbox_open_def sys_mbox_close_def sys_mbox_send_def sys_mbox_recv_def
  sys_screen_clear_def sys_shmpageget_def sys_shmpagedt_def sys_set_pid_def sys_taskset_def
  sys_snapshot_def sys_getpa_def sys_net_send_def sys_net_recv_def sys_mkfs_def sys_statfs_def
  sys_cd_def sys_mkdir_def sys_rmdir_def sys_ls_def sys_touch_def sys_cat_def sys_fopen_def
  sys_fread_def sys_fwrite_def sys_fclose_def sys_ln_def sys_rm_def sys_lseek_def

lemma dispatch_user:
  assumes "ecall_of w = invoke_syscall (user_no n) a0 a1 a2 a3 a4"
  shows "dispatch w = map_option (\<lambda>f. (f, a0, a1, a2, a3)) (init_syscall (\<lambda>_. None) (kernel_no n))"
proof -
  have "user_no n = kernel_no n" "kernel_no n < NUM_SYSCALLS" by (cases n; simp add: NUM_SYSCALLS_def)+
  then show ?thesis using dispatch_invoke [of "user_no n" w a0 a1 a2 a3 a4] assms by simp
qed

lemmas dispatch_wrapper =
  dispatch_user [of "Void (invoke_syscall (user_no n) a0 a1 a2 a3 a4)" n a0 a1 a2 a3 a4, simplified ecall_of.simps, OF refl]
  dispatch_user [of "Returns (invoke_syscall (user_no n) a0 a1 a2 a3 a4)" n a0 a1 a2 a3 a4, simplified ecall_of.simps, OF refl]
  dispatch_user [of "ReturnsZero (invoke_syscall (user_no n) a0 a1 a2 a3 a4)" n a0 a1 a2 a3 a4, simplified ecall_of.simps, OF refl]
  dispatch_user [of "NoReturn (invoke_syscall (user_no n) a0 a1 a2 a3 a4)" n a0 a1 a2 a3 a4, simplified ecall_of.simps, OF refl]
  for n a0 a1 a2 a3 a4

lemma kernel_no_inj: "kernel_no m = kernel_no n \<longleftrightarrow> m = n"
  by (cases m; cases n; simp)

lemma init_syscall_some:
  "init_syscall (\<lambda>_. None) k = Some f \<Longrightarrow> \<exists>n. k = kernel_no n \<and> n \<notin> {SYSCALL_SHOW_TASK, SYSCALL_NET_SEND, SYSCALL_NET_RECV}"
  unfolding init_syscall_def clear_empty
  by (simp split: if_splits del: kernel_no.simps) (auto simp: kernel_no_inj simp del: kernel_no.simps)

lemma int_arg_scast: "int_arg (scast (k :: u32)) = sint k"
proof -
  have "(ucast (scast k :: u64) :: u32) = k" by (rule bit_word_eqI) (simp add: bit_simps)
  then show ?thesis by (simp add: int_arg_def)
qed

lemma set_reg_mlocks: "mlocks (set_reg r i v s) = mlocks s"
  by (simp add: set_reg_def wr64_def)

lemma find_mlock_some:
  "\<exists>i \<in> set xs. mkey (ms i) = k \<or> owner (ms i) = - 1 \<Longrightarrow>
   \<exists>i b. find_mlock k ms xs = Some (i, b) \<and> i \<in> set xs \<and> (b \<longrightarrow> mkey (ms i) = k)"
  by (induction xs) auto

lemma mutex_init_ok:
  assumes "\<exists>i<LOCK_NUM. mkey (mlocks s i) = k \<or> owner (mlocks s i) = - 1"
  shows "\<exists>i s'. do_mutex_lock_init k s = Inr (int i, s') \<and> i < LOCK_NUM \<and> mkey (mlocks s' i) = k \<and> ram s' = ram s"
proof -
  obtain i b where "find_mlock k (mlocks s) [0..<LOCK_NUM] = Some (i, b)" "i < LOCK_NUM" "b \<longrightarrow> mkey (mlocks s i) = k"
    using find_mlock_some [of "[0..<LOCK_NUM]" "mlocks s" k] assms unfolding set_upt atLeastLessThan_iff by (metis atLeastLessThan_iff zero_le)
  then show ?thesis by (cases b) (auto simp: do_mutex_lock_init_def upd_mlock_def)
qed

section \<open>Properties\<close>

text \<open>A process at its \<open>ecall\<close>, for the instances.\<close>

definition calling :: "u64 \<Rightarrow> u64 \<Rightarrow> (u32 \<Rightarrow> nat \<Rightarrow> u8) mstate" where
  "calling n a = boot_mstate\<lparr>ram := (\<lambda>_. 0)(4096 + 8 * of_nat 17 := n, 4096 + 8 * of_nat 10 := a)\<rparr>"


text \<open>
  unchecked numbers.  When the number in \<open>a7\<close> is none of those of the header, or is that of
  \<open>SYSCALL_SHOW_TASK\<close> or of the two network calls that the user library still offers, the kernel
  calls through a null pointer or reads behind its table, whatever its state is.
\<close>

theorem unknown_number_faults:
  assumes "\<forall>n. unat (get_reg r 17 s) = kernel_no n \<longrightarrow> n \<in> {SYSCALL_SHOW_TASK, SYSCALL_NET_SEND, SYSCALL_NET_RECV}"
  shows "trap_syscall call (init_exception tabs) (init_syscall t) r 8 s = Inl Fault"
proof -
  have "init_syscall t (unat (get_reg r 17 s)) = None" if "unat (get_reg r 17 s) < NUM_SYSCALLS"
    using init_syscall_prev [OF that, of t] init_syscall_some assms by (metis not_None_eq)
  then show ?thesis by (simp add: trap_syscall_def trap_is_syscall handle_syscall_def guardE_def Let_def)
qed

text \<open>
  C34: creating a mutex from a user program.  A process that calls \<open>sys_mutex_init(key)\<close>, when some lock
  has this key or no owner, comes back behind its \<open>ecall\<close> with the index of a lock that has the key,
  and this is what the wrapper returns.
\<close>

theorem user_mutex_init:
  assumes "saved_frame (sys_mutex_init key) r s"
    and "\<exists>i<LOCK_NUM. mkey (mlocks s i) = sint key \<or> owner (mlocks s i) = - 1"
  shows "\<exists>i s'. trap_syscall (kcall D K cpu junk other) (init_exception tabs) (init_syscall t) r 8 s = Inr s' \<and>
    i < LOCK_NUM \<and> mkey (mlocks s' i) = sint key \<and> get_reg r 33 s' = get_reg r 33 s + 4 \<and>
    usys_value (sys_mutex_init key) (get_reg r 10 s') = Some (of_nat i)"
proof -
  let ?s = "set_reg r 33 (get_reg r 33 s + 4) s"
  have d: "dispatch (sys_mutex_init key) = Some (Do_mutex_lock_init, scast key, 0, 0, 0)"
    by (simp add: wrapper_defs dispatch_wrapper IGNORE_def init_syscall_def clear_empty kernel_no_inj del: kernel_no.simps user_no.simps)
  have m: "mlocks ?s = mlocks s" by (simp add: set_reg_def wr64_def)
  obtain i s1 where i: "do_mutex_lock_init (sint key) ?s = Inr (int i, s1)" "i < LOCK_NUM" "mkey (mlocks s1 i) = sint key" "ram s1 = ram ?s"
    using mutex_init_ok [of ?s "sint key"] assms(2) by (auto simp: m)
  have "get_reg r j s1 = get_reg r j ?s" for j by (simp add: get_reg_def i(4))
  then show ?thesis using i
    by (intro exI [of _ i] exI [of _ "set_reg r 10 (of_nat i) s1"])
      (simp add: trap_dispatch [OF assms(1) d] int_call_def int_arg_scast sys_mutex_init_def set_reg_mlocks)
qed

theorem user_mutex_init_witness:
  "\<exists>i s'. trap_syscall (kcall ram_disk \<lparr>ret_from_exception = 0, pcb_addr = \<lambda>_. 0\<rparr> 0 0 (\<lambda>f a0 a1 a2 a3 s. Inr (0, s)))
      (init_exception (\<lambda>_. HandleOther, \<lambda>_. HandleOther)) (init_syscall (\<lambda>_. None)) 4096 8 (calling 40 7) = Inr s' \<and> mkey (mlocks s' i) = 7"
proof -
  have "saved_frame (sys_mutex_init 7) 4096 (calling 40 7)"
    by (simp add: saved_frame_def sys_mutex_init_def invoke_syscall_def IGNORE_def get_reg_def calling_def)
  moreover have "\<exists>i<LOCK_NUM. mkey (mlocks (calling 40 7) i) = sint (7 :: u32) \<or> owner (mlocks (calling 40 7) i) = - 1"
    by (intro exI [of _ 0]) (simp add: LOCK_NUM_def calling_def boot_mstate_def boot_lstate_def)
  ultimately show ?thesis
    using user_mutex_init [of 7 4096 "calling 40 7" ram_disk "\<lparr>ret_from_exception = 0, pcb_addr = \<lambda>_. 0\<rparr>" 0 0
        "\<lambda>f a0 a1 a2 a3 s. Inr (0, s)" "(\<lambda>_. HandleOther, \<lambda>_. HandleOther)" "\<lambda>_. None"] by auto
qed

end
