(* ===== verification/Init.thy ===== *)
theory Init
  imports Image Syscall
begin

text \<open>
  Starting the kernel: \<open>init/main.c\<close>, with the jump table of \<open>include/os/kernel.h\<close> through which the
  kernel calls the firmware.
\<close>

section \<open>The jump table\<close>

datatype jmptab_idx_t =
    CONSOLE_PUTSTR | CONSOLE_PUTCHAR | CONSOLE_GETCHAR | SD_READ | SD_WRITE | QEMU_LOGGING | SET_TIMER
    | READ_FDT | MOVE_CURSOR | PRINT | YIELD | MUTEX_INIT | MUTEX_ACQ | MUTEX_RELEASE

fun jmptab_idx :: "jmptab_idx_t \<Rightarrow> nat" where
  "jmptab_idx CONSOLE_PUTSTR = 0"
| "jmptab_idx CONSOLE_PUTCHAR = 1"
| "jmptab_idx CONSOLE_GETCHAR = 2"
| "jmptab_idx SD_READ = 3"
| "jmptab_idx SD_WRITE = 4"
| "jmptab_idx QEMU_LOGGING = 5"
| "jmptab_idx SET_TIMER = 6"
| "jmptab_idx READ_FDT = 7"
| "jmptab_idx MOVE_CURSOR = 8"
| "jmptab_idx PRINT = 9"
| "jmptab_idx YIELD = 10"
| "jmptab_idx MUTEX_INIT = 11"
| "jmptab_idx MUTEX_ACQ = 12"
| "jmptab_idx MUTEX_RELEASE = 13"

text \<open>The functions the table points to; the first eight pass on to the firmware.\<close>

datatype jfun =
    Port_write | Port_write_ch | Port_read_ch | Sd_read | Sd_write | Qemu_logging | Set_timer | Read_fdt
    | J_screen_move_cursor | J_printk | J_do_scheduler | J_do_mutex_lock_init | J_do_mutex_lock_acquire
    | J_do_mutex_lock_release

definition KERNEL_JMPTAB_BASE :: u64 where "KERNEL_JMPTAB_BASE = 0xffffffc051ffff00"

text \<open>\<open>addr\<close> gives the addresses that the linker assigns to the functions.\<close>

definition init_jmptab :: "(jfun \<Rightarrow> u64) \<Rightarrow> ('d, 's) ms \<Rightarrow> ('d, 's) ms" where
  "init_jmptab addr s =
     fold (\<lambda>(i, f). wr64 (KERNEL_JMPTAB_BASE + 8 * of_nat (jmptab_idx i)) (addr f))
       [(CONSOLE_PUTSTR, Port_write), (CONSOLE_PUTCHAR, Port_write_ch), (CONSOLE_GETCHAR, Port_read_ch),
        (SD_READ, Sd_read), (SD_WRITE, Sd_write), (QEMU_LOGGING, Qemu_logging), (SET_TIMER, Set_timer),
        (READ_FDT, Read_fdt), (MOVE_CURSOR, J_screen_move_cursor), (PRINT, J_printk), (YIELD, J_do_scheduler),
        (MUTEX_INIT, J_do_mutex_lock_init), (MUTEX_ACQ, J_do_mutex_lock_acquire),
        (MUTEX_RELEASE, J_do_mutex_lock_release)] s"

text \<open>A call through the table: the address that is called and the arguments.\<close>

definition call_jmptab :: "jmptab_idx_t \<Rightarrow> u64 \<Rightarrow> u64 \<Rightarrow> u64 \<Rightarrow> ('d, 's) ms \<Rightarrow> u64 \<times> u64 \<times> u64 \<times> u64" where
  "call_jmptab which arg0 arg1 arg2 s =
     (ram s (KERNEL_JMPTAB_BASE + 8 * of_nat (jmptab_idx which)), arg0, arg1, arg2)"

definition bios_putstr :: "u64 \<Rightarrow> ('d, 's) ms \<Rightarrow> u64 \<times> u64 \<times> u64 \<times> u64" where
  "bios_putstr str = call_jmptab CONSOLE_PUTSTR (kva2pa str) 0 0"

definition bios_putchar :: "u32 \<Rightarrow> ('d, 's) ms \<Rightarrow> u64 \<times> u64 \<times> u64 \<times> u64" where
  "bios_putchar ch = call_jmptab CONSOLE_PUTCHAR (scast ch) 0 0"

definition bios_getchar :: "('d, 's) ms \<Rightarrow> u64 \<times> u64 \<times> u64 \<times> u64" where
  "bios_getchar = call_jmptab CONSOLE_GETCHAR 0 0 0"

definition bios_sdread :: "u32 \<Rightarrow> u32 \<Rightarrow> u32 \<Rightarrow> ('d, 's) ms \<Rightarrow> u64 \<times> u64 \<times> u64 \<times> u64" where
  "bios_sdread mem_address num_of_blocks block_id =
     call_jmptab SD_READ (ucast mem_address) (ucast num_of_blocks) (ucast block_id)"

definition bios_sdwrite :: "u32 \<Rightarrow> u32 \<Rightarrow> u32 \<Rightarrow> ('d, 's) ms \<Rightarrow> u64 \<times> u64 \<times> u64 \<times> u64" where
  "bios_sdwrite mem_address num_of_blocks block_id =
     call_jmptab SD_WRITE (ucast mem_address) (ucast num_of_blocks) (ucast block_id)"

definition bios_logging :: "u64 \<Rightarrow> ('d, 's) ms \<Rightarrow> u64 \<times> u64 \<times> u64 \<times> u64" where
  "bios_logging str = call_jmptab QEMU_LOGGING (kva2pa str) 0 0"

definition bios_set_timer :: "u64 \<Rightarrow> ('d, 's) ms \<Rightarrow> u64 \<times> u64 \<times> u64 \<times> u64" where
  "bios_set_timer stime_value = call_jmptab SET_TIMER stime_value 0 0"

definition bios_read_fdt :: "u64 \<Rightarrow> ('d, 's) ms \<Rightarrow> u64 \<times> u64 \<times> u64 \<times> u64" where
  "bios_read_fdt type = call_jmptab READ_FDT type 0 0"

definition kernel_move_cursor :: "u32 \<Rightarrow> u32 \<Rightarrow> ('d, 's) ms \<Rightarrow> u64 \<times> u64 \<times> u64 \<times> u64" where
  "kernel_move_cursor x y = call_jmptab MOVE_CURSOR (scast x) (scast y) 0"

definition kernel_print :: "u64 \<Rightarrow> u64 \<Rightarrow> u64 \<Rightarrow> ('d, 's) ms \<Rightarrow> u64 \<times> u64 \<times> u64 \<times> u64" where
  "kernel_print fmt arg0 arg1 = call_jmptab PRINT fmt arg0 arg1"

definition kernel_yield :: "('d, 's) ms \<Rightarrow> u64 \<times> u64 \<times> u64 \<times> u64" where
  "kernel_yield = call_jmptab YIELD 0 0 0"

definition kernel_mutex_init :: "u32 \<Rightarrow> ('d, 's) ms \<Rightarrow> u64 \<times> u64 \<times> u64 \<times> u64" where
  "kernel_mutex_init k = call_jmptab MUTEX_INIT (scast k) 0 0"

definition kernel_mutex_acquire :: "u32 \<Rightarrow> ('d, 's) ms \<Rightarrow> u64 \<times> u64 \<times> u64 \<times> u64" where
  "kernel_mutex_acquire mlock_idx = call_jmptab MUTEX_ACQ (scast mlock_idx) 0 0"

definition kernel_mutex_release :: "u32 \<Rightarrow> ('d, 's) ms \<Rightarrow> u64 \<times> u64 \<times> u64 \<times> u64" where
  "kernel_mutex_release mlock_idx = call_jmptab MUTEX_RELEASE (scast mlock_idx) 0 0"

section \<open>The table of programs\<close>

definition TASK_NUM_LOC :: u64 where "TASK_NUM_LOC = 0xffffffc0502001f7"

definition ram_bytes :: "u64 \<Rightarrow> nat \<Rightarrow> ('d, 's) ms \<Rightarrow> u8 list" where
  "ram_bytes a n s = map (\<lambda>i. ram_byte (ram s) (a + of_nat i)) [0..<n]"

definition decode_task :: "u8 list \<Rightarrow> task_info_t" where
  "decode_task bs =
     \<lparr>begin_block = ucast (field 0 2 bs), end_block = ucast (field 2 2 bs), begin_offset = ucast (field 4 4 bs),
      end_offset = ucast (field 8 4 bs), memsz = ucast (field 12 4 bs), entry_addr = field 16 8 bs,
      task_name = takeWhile ((\<noteq>) 0) (take TASK_NAME_LEN (drop 24 bs))\<rparr>"

text \<open>What the firmware does for \<open>bios_sdread\<close>: \<open>n\<close> sectors from \<open>blk\<close> on to the physical address \<open>pa\<close>.\<close>

definition sd_read_blocks :: "'d sdcard \<Rightarrow> u64 \<Rightarrow> u32 \<Rightarrow> u32 \<Rightarrow> ('d, 's) ms \<Rightarrow> ('d, 's) ms" where
  "sd_read_blocks D pa n blk s =
     fold (\<lambda>i. wr_byte (pa2kva pa + of_nat i) (sd_get D (sdc s) (blk + of_nat (i div 512)) (i mod 512))) [0..<512 * unat n] s"

text \<open>
  \<open>mem_address\<close> is an \<open>unsigned\<close>: of the physical address only the low 32 bits are passed on.
\<close>

definition init_task_info ::
  "'d sdcard \<Rightarrow> (nat \<Rightarrow> task_info_t) \<Rightarrow> ('d, 's) ms \<Rightarrow> ((nat \<Rightarrow> task_info_t) \<times> ('d, 's) ms) res" where
  "init_task_info D tasks s =
     (let tasknum = ram_byte (ram s) TASK_NUM_LOC;
          task_info_base = ucast (of_le (ram_bytes (TASK_NUM_LOC + 1) 4 s)) :: u32;
          begin_block = drop_bit 9 task_info_base;
          begin_offset = task_info_base - push_bit 9 begin_block;
          end_addr = ucast task_info_base + ucast tasknum * of_nat TASK_INFO_SIZE :: u64;
          end_block = ucast (drop_bit 9 end_addr) :: u32;
          end_offset = ucast (end_addr - ucast (push_bit 9 end_block)) :: u32;
          block_num = end_block - begin_block + (if end_offset \<noteq> 0 then 1 else 0);
          s = sd_read_blocks D (ucast (ucast (kva2pa 0xfffffc0058000000) :: u32)) block_num begin_block s;
          src = pa2kva (0x58000000 + ucast begin_offset)
      in guardE (unat tasknum \<le> TASK_MAXNUM)
           (Inr (\<lambda>i. if i < unat tasknum then decode_task (ram_bytes (src + of_nat (TASK_INFO_SIZE * i)) TASK_INFO_SIZE s) else tasks i, s)))"

section \<open>The first process\<close>

definition SR_SUM_SPIE :: u64 where "SR_SUM_SPIE = 0x40020"   \<comment> \<open>\<open>(SR_SPIE | SR_SUM) & ~SR_SPP\<close>\<close>

definition init_pcb_stack :: "kaddr \<Rightarrow> u64 \<Rightarrow> u64 \<Rightarrow> u64 \<Rightarrow> pcb_ref \<Rightarrow> ('d, 's) ms \<Rightarrow> ('d, 's) ms" where
  "init_pcb_stack K kernel_stack user_stack entry_point p s =
     (let pt_regs = kernel_stack - REGS_SIZE;
          s = fold (\<lambda>i. set_reg pt_regs i 0) [0..<32] s;
          s = (if task_mode (pcb s p) = USER
               then let s = set_reg pt_regs 1 entry_point s;
                        s = set_reg pt_regs 2 user_stack s;
                        s = set_reg pt_regs 4 (pcb_addr K p) s;
                        s = set_reg pt_regs 33 entry_point s
                    in set_reg pt_regs 32 SR_SUM_SPIE s
               else s);
          pt_switchto = pt_regs - SWITCHTO_SIZE;
          s = upd_pcb p (\<lambda>r. r\<lparr>kernel_sp := pt_switchto, user_sp := user_stack\<rparr>) s;
          s = wr64 pt_switchto (if task_mode (pcb s p) = USER then ret_from_exception K else entry_point) s
      in wr64 (pt_switchto + 8) pt_switchto s)"

definition shell_name :: "u8 list" where "shell_name = [115, 104, 101, 108, 108]"

definition init_pcb :: "'d sdcard \<Rightarrow> kaddr \<Rightarrow> (nat \<Rightarrow> task_info_t) \<Rightarrow> ('d, 's) ms \<Rightarrow> ('d, 's) ms res" where
  "init_pcb D K tasks s =
     (let p = Pcb 0;
          s = upd_pcb p (\<lambda>r. r\<lparr>upbound := MAX_PAGETABLE_NUM, pagenum := 0\<rparr>) s;
          s = s\<lparr>plists := init_list_head (plists s) (Head (PageHead p))\<rparr>
      in bindE (allocPagetable D p UNSWAPABLE s) (\<lambda>(temp_page, s).
         let tab = pg_kva (page_manager s temp_page);
             s = upd_pcb p (pgdir_update (\<lambda>_. tab)) s;
             s = clear_pgdir tab s;
             s = share_pgtable tab (pa2kva PGDIR_PA) s
         in bindE (allocPagetable D p UNSWAPABLE s) (\<lambda>(temp_page, s).
            let s = set_stacks p (pg_kva (page_manager s temp_page) + PAGE_SIZE) USER_STACK_ADDR s
            in bindE (alloc_page_helper D (user_sp (pcb s p) - PAGE_SIZE) p UNSWAPABLE s) (\<lambda>(_, s).
               bindE (load_task_img D tasks shell_name (Some p) s) (\<lambda>(entry, s).
                 let s = reset_nodes p s;
                     new_pid = process_id s;
                     s = s\<lparr>process_id := process_id s + 1\<rparr>;
                     s = upd_pcb p (\<lambda>r. r\<lparr>pid := new_pid, childnum := 0, task_status := TASK_READY, cursor_x := 0, cursor_y := 0,
                                         wakeup_time := 0, task_mode := USER, task_mask := 3\<rparr>) s;
                     s = init_pcb_stack K (kernel_sp (pcb s p)) (user_sp (pcb s p)) entry p s
                 in bindE (add_queue ReadyQueue p s) (\<lambda>s.
                      Inr (fold (\<lambda>i. upd_pcb (Pcb i) (\<lambda>r. r\<lparr>pid := - 1, task_status := TASK_AVAILABLE\<rparr>)) [1..<NUM_MAX_TASK] s)))))))"

end
