(* ===== verification/ImageSpec.thy ===== *)
theory ImageSpec
  imports Init SwapSpec
begin

text \<open>
  From the image builder to the kernel: the table of programs that \<open>init_task_info\<close> reads is the one
  \<open>create_image\<close> wrote, and each entry leads to the segments of its program.
\<close>

section \<open>Little-endian numbers\<close>

lemma bit_of_le:
  "k < 64 \<Longrightarrow> bit (of_le bs) k \<longleftrightarrow> k div 8 < length bs \<and> bit (bs ! (k div 8)) (k mod 8)"
proof (induction bs arbitrary: k)
  case Nil
  then show ?case by (simp add: of_le_def)
next
  case (Cons b bs)
  have e: "of_le (b # bs) = push_bit 8 (of_le bs) OR ucast b" by (simp add: of_le_def)
  show ?case
  proof (cases "k < 8")
    case True
    then show ?thesis using Cons.prems by (simp add: e bit_simps)
  next
    case False
    then have k: "k div 8 = Suc ((k - 8) div 8)" "k mod 8 = (k - 8) mod 8" by (simp_all add: div_if mod_if)
    have "\<not> bit b k" using False bit_imp_le_length [of b k] by auto
    then show ?thesis using Cons.IH [of "k - 8"] Cons.prems False by (simp add: e bit_simps k)
  qed
qed

lemma length_le [simp]: "length (le n v) = n"
  by (simp add: le_def)

lemma of_le_le: "n \<le> 8 \<Longrightarrow> of_le (le n v) = take_bit (8 * n) v"
proof (rule bit_word_eqI)
  fix k
  assume n: "n \<le> 8" and "k < LENGTH(64)"
  then have k: "k < 64" by simp
  have d: "k div 8 < n \<longleftrightarrow> k < 8 * n" by auto
  have "8 * (k div 8) + k mod 8 = k" by simp
  then show "bit (of_le (le n v)) k = bit (take_bit (8 * n) v) k"
    using k by (auto simp: bit_of_le le_def d bit_simps)
qed

lemma field_append: "field (length xs + k) n (xs @ ys) = field k n ys"
  by (simp add: field_def)

lemma field_le: "n \<le> 8 \<Longrightarrow> field 0 n (le n v @ ys) = take_bit (8 * n) v"
  by (simp add: field_def of_le_le)

lemma field_after: "length xs = k \<Longrightarrow> n \<le> 8 \<Longrightarrow> field k n (xs @ le n v @ ys) = take_bit (8 * n) v"
  using field_append [of xs 0 n] by (simp add: field_le)

lemma decode_encode:
  assumes "length (task_name t) < TASK_NAME_LEN" and "0 \<notin> set (task_name t)"
  shows "decode_task (encode_task t) = t"
proof -
  let ?n = "task_name t @ replicate (TASK_NAME_LEN - length (task_name t)) 0"
  let ?b = "le 2 (ucast (begin_block t))" and ?e = "le 2 (ucast (end_block t))" and ?bo = "le 4 (ucast (begin_offset t))"
    and ?eo = "le 4 (ucast (end_offset t))" and ?m = "le 4 (ucast (memsz t))"
  note enc = encode_task_def [of t]
  have w: "ucast (take_bit 16 (ucast (w :: u16) :: u64)) = w" "ucast (take_bit 32 (ucast (x :: u32) :: u64)) = x" for w x
    by (rule bit_word_eqI, simp add: bit_simps)+
  have len: "length ?n = 18" using assms(1) by (simp add: TASK_NAME_LEN_def)
  have "takeWhile ((\<noteq>) 0) (task_name t @ zs) = task_name t @ takeWhile ((\<noteq>) 0) zs" for zs
    using assms(2) by (intro takeWhile_append2) auto
  then have "takeWhile ((\<noteq>) 0) ?n = task_name t" by (simp add: takeWhile_replicate)
  moreover have "take TASK_NAME_LEN (drop 24 (encode_task t)) = ?n" unfolding enc using len by (simp add: TASK_NAME_LEN_def)
  moreover have "field 0 2 (encode_task t) = take_bit 16 (ucast (begin_block t))" unfolding enc by (simp add: field_le)
  moreover have "field 2 2 (encode_task t) = take_bit 16 (ucast (end_block t))" unfolding enc using field_after [of ?b 2 2] by simp
  moreover have "field 4 4 (encode_task t) = take_bit 32 (ucast (begin_offset t))" unfolding enc using field_after [of "?b @ ?e" 4 4] by simp
  moreover have "field 8 4 (encode_task t) = take_bit 32 (ucast (end_offset t))" unfolding enc using field_after [of "?b @ ?e @ ?bo" 8 4] by simp
  moreover have "field 12 4 (encode_task t) = take_bit 32 (ucast (memsz t))" unfolding enc using field_after [of "?b @ ?e @ ?bo @ ?eo" 12 4] by simp
  moreover have "field 16 8 (encode_task t) = entry_addr t" unfolding enc using field_after [of "?b @ ?e @ ?bo @ ?eo @ ?m" 16 8] by (simp add: take_bit_word_eq_self)
  ultimately show ?thesis by (simp add: decode_task_def w)
qed

lemma length_encode: "length (task_name t) < TASK_NAME_LEN \<Longrightarrow> length (encode_task t) = TASK_INFO_SIZE"
  by (simp add: encode_task_def TASK_NAME_LEN_def TASK_INFO_SIZE_def)

section \<open>Writing the file\<close>

text \<open>\<open>tight\<close>: the file position and \<open>phyaddr\<close> are at the end of the file.\<close>

definition tight :: "image \<Rightarrow> bool" where
  "tight st \<longleftrightarrow> img_pos st = length (img st) \<and> phyaddr st = length (img st) \<and> length (img st) < 2 ^ 31"

lemma fwrite_append:
  "img_pos st = length (img st) \<Longrightarrow> fwrite bs st = st\<lparr>img := img st @ bs, img_pos := length (img st) + length bs\<rparr>"
proof (induction bs arbitrary: st)
  case (Cons b bs)
  have "fputc b st = st\<lparr>img := img st @ [b], img_pos := Suc (length (img st))\<rparr>"
    using Cons.prems by (simp add: fputc_def Suc_diff_le list_update_append)
  then show ?case using Cons.IH [of "fputc b st"] by (simp add: fwrite_def)
qed (simp add: fwrite_def)

lemma fwrite_inside:
  "img_pos st + length bs \<le> length (img st) \<Longrightarrow>
   fwrite bs st = st\<lparr>img := take (img_pos st) (img st) @ bs @ drop (img_pos st + length bs) (img st), img_pos := img_pos st + length bs\<rparr>"
proof (induction bs arbitrary: st)
  case (Cons b bs)
  have p: "fputc b st = st\<lparr>img := (img st)[img_pos st := b], img_pos := Suc (img_pos st)\<rparr>"
    using Cons.prems by (simp add: fputc_def)
  have "take (Suc (img_pos st)) ((img st)[img_pos st := b]) = take (img_pos st) (img st) @ [b]"
    using Cons.prems by (simp add: take_Suc_conv_app_nth)
  then show ?case using Cons.IH [of "fputc b st"] Cons.prems by (simp add: fwrite_def p)
qed (simp add: fwrite_def)

lemma append_bytes_ok:
  assumes "append_bytes bs st = Inr st'" and "tight st"
  shows "tight st'" "img st' = img st @ bs" "taskinfo st' = taskinfo st" "phyaddr st' < 2 ^ 31"
  using assms by (auto simp: append_bytes_def guardE_eq_Inr tight_def fwrite_append)

section \<open>The segments of a program\<close>

definition header_bytes :: "u8 list \<Rightarrow> elf_ehdr \<Rightarrow> nat \<Rightarrow> u8 list" where
  "header_bytes f h ph = (case read_phdr f ph h of Inl e \<Rightarrow> [] | Inr p \<Rightarrow> seg_bytes f p)"

definition program_bytes :: "u8 list \<Rightarrow> u8 list" where
  "program_bytes f = (case read_ehdr f of Inl e \<Rightarrow> [] | Inr h \<Rightarrow> concat (map (header_bytes f h) [0..<unat (e_phnum h)]))"

lemma upd_task_sel [simp]:
  "img (upd_task i f st) = img st" "img_pos (upd_task i f st) = img_pos st" "phyaddr (upd_task i f st) = phyaddr st" "tight (upd_task i f st) = tight st"
  "taskinfo (upd_task i f st) j = (if j = i then f (taskinfo st i) else taskinfo st j)"
  by (simp_all add: upd_task_def tight_def)

text \<open>\<open>same_place\<close>: the two table entries agree but for size and entry point.\<close>

definition same_place :: "task_info_t \<Rightarrow> task_info_t \<Rightarrow> bool" where
  "same_place t t' \<longleftrightarrow> t' = t\<lparr>memsz := memsz t', entry_addr := entry_addr t'\<rparr>"

lemma same_place_refl [simp]: "same_place t t"
  by (simp add: same_place_def)

text \<open>
  The program headers of the segments to be loaded, and what \<open>createimage\<close> records of them: size and address of
  the last one.
\<close>

definition load_headers :: "u8 list \<Rightarrow> elf_ehdr \<Rightarrow> nat list \<Rightarrow> elf_phdr list" where
  "load_headers f h phs =
     concat (map (\<lambda>ph. case read_phdr f ph h of Inl e \<Rightarrow> [] | Inr p \<Rightarrow> if p_type p = PT_LOAD then [p] else []) phs)"

definition elf_segments :: "u8 list \<Rightarrow> elf_phdr list" where
  "elf_segments f = (case read_ehdr f of Inl e \<Rightarrow> [] | Inr h \<Rightarrow> load_headers f h [0..<unat (e_phnum h)])"

definition recorded :: "elf_phdr list \<Rightarrow> task_info_t \<Rightarrow> task_info_t \<Rightarrow> bool" where
  "recorded ps t t' \<longleftrightarrow> memsz t' = (if ps = [] then memsz t else ucast (p_memsz (last ps))) \<and>
     entry_addr t' = (if ps = [] then entry_addr t else p_vaddr (last ps))"

lemma recorded_append: "recorded ps t t' \<Longrightarrow> recorded qs t' t'' \<Longrightarrow> recorded (ps @ qs) t t''"
  by (auto simp: recorded_def)

lemma program_bytes_segments: "program_bytes f = concat (map (seg_bytes f) (elf_segments f))"
proof -
  have "concat (map (header_bytes f h) phs) = concat (map (seg_bytes f) (load_headers f h phs))" for h phs
    by (induction phs) (auto simp: load_headers_def header_bytes_def seg_bytes_def split: sum.split)
  then show ?thesis by (simp add: program_bytes_def elf_segments_def split: sum.split)
qed

lemma write_segments_ok:
  assumes "write_segments phs f h name task st = Inr st'" and "tight st"
  shows "tight st' \<and> img st' = img st @ concat (map (header_bytes f h) phs) \<and>
    (\<forall>j. task \<noteq> Some j \<longrightarrow> taskinfo st' j = taskinfo st j) \<and> (\<forall>j. same_place (taskinfo st j) (taskinfo st' j)) \<and>
    (\<forall>i. task = Some i \<longrightarrow> recorded (load_headers f h phs) (taskinfo st i) (taskinfo st' i))"
  using assms
proof (induction phs arbitrary: st)
  case (Cons ph phs)
  obtain p st1 where p: "read_phdr f ph h = Inr p" and w: "write_segment p f st = Inr st1"
    using Cons.prems(1) by (auto simp: res_eq_Inr)
  define st2 where "st2 = (if name = main_name then st1\<lparr>nbytes_kernel := nbytes_kernel st1 + unat (ucast (p_filesz p) :: u32)\<rparr> else st1)"
  define st3 where "st3 = (case task of Some i \<Rightarrow> if p_type p = PT_LOAD
      then upd_task i (\<lambda>t. t\<lparr>memsz := ucast (p_memsz p), entry_addr := p_vaddr p\<rparr>) st2 else st2 | None \<Rightarrow> st2)"
  have r: "write_segments phs f h name task st3 = Inr st'" unfolding st3_def st2_def using Cons.prems(1) by (simp add: p w Let_def)
  note a = append_bytes_ok [OF w [unfolded write_segment_def] Cons.prems(2)]
  have s2: "tight st2" "img st2 = img st1" "taskinfo st2 = taskinfo st1" using a(1) by (simp_all add: st2_def tight_def)
  have s3: "tight st3" "img st3 = img st @ header_bytes f h ph" "\<And>j. task \<noteq> Some j \<Longrightarrow> taskinfo st3 j = taskinfo st j"
    "\<And>j. same_place (taskinfo st j) (taskinfo st3 j)"
    using s2 a(2,3) p by (auto simp: st3_def header_bytes_def same_place_def split: option.split)
  have "same_place t t''" if "same_place t t'" "same_place t' t''" for t t' t'' :: task_info_t
    using that by (cases t; cases t'; cases t'') (simp add: same_place_def)
  then have place: "\<forall>j. same_place (taskinfo st j) (taskinfo st' j)" using Cons.IH [OF r s3(1)] s3(4) by blast
  have "recorded (load_headers f h (ph # phs)) (taskinfo st i) (taskinfo st' i)" if "task = Some i" for i
  proof -
    have "recorded (load_headers f h [ph]) (taskinfo st i) (taskinfo st3 i)"
      using s2(3) a(3) p that by (simp add: recorded_def load_headers_def st3_def)
    moreover have "load_headers f h (ph # phs) = load_headers f h [ph] @ load_headers f h phs" by (simp add: load_headers_def)
    ultimately show ?thesis using recorded_append Cons.IH [OF r s3(1)] that by metis
  qed
  with place show ?case using Cons.IH [OF r s3(1)] s3(2,3) by simp
qed (simp add: recorded_def load_headers_def)

section \<open>The entry of a program\<close>

text \<open>The entry \<open>t\<close> says that the program \<open>name\<close> is at the bytes \<open>b\<close> to \<open>e\<close> of the image.\<close>

definition task_at :: "task_info_t \<Rightarrow> u8 list \<Rightarrow> nat \<Rightarrow> nat \<Rightarrow> bool" where
  "task_at t name b e \<longleftrightarrow> task_name t = name \<and> begin_block t = of_nat (b div 512) \<and> begin_offset t = of_nat (b mod 512) \<and>
     end_block t = of_nat (e div 512) \<and> end_offset t = of_nat e - push_bit 9 (ucast (end_block t))"

text \<open>The entry has the size and the address of the program's last segment.\<close>

definition records :: "task_info_t \<Rightarrow> u8 list \<Rightarrow> bool" where
  "records t f \<longleftrightarrow> (elf_segments f \<noteq> [] \<longrightarrow> memsz t = ucast (p_memsz (last (elf_segments f))) \<and> entry_addr t = p_vaddr (last (elf_segments f)))"

lemma begin_task_ok:
  assumes "begin_task task name st = Inr st'" and "tight st"
  shows "tight st' \<and> img st' = img st \<and> (\<forall>j. task \<noteq> Some j \<longrightarrow> taskinfo st' j = taskinfo st j) \<and>
    (\<forall>i. task = Some i \<longrightarrow> i < TASK_MAXNUM \<and> length name < TASK_NAME_LEN \<and> task_name (taskinfo st' i) = name \<and>
       begin_block (taskinfo st' i) = of_nat (length (img st) div 512) \<and> begin_offset (taskinfo st' i) = of_nat (length (img st) mod 512))"
  using assms by (auto simp: begin_task_def guardE_eq_Inr tight_def minus_mult_div_eq_mod split: option.splits)

lemma end_task_ok:
  assumes "tight st"
  shows "tight (end_task task st) \<and> img (end_task task st) = img st \<and> (\<forall>j. task \<noteq> Some j \<longrightarrow> taskinfo (end_task task st) j = taskinfo st j) \<and>
    (\<forall>i. task = Some i \<longrightarrow> taskinfo (end_task task st) i = (taskinfo st i)\<lparr>end_block := of_nat (length (img st) div 512),
        end_offset := of_nat (length (img st)) - push_bit 9 (ucast (of_nat (length (img st) div 512) :: u16))\<rparr>)"
  using assms by (auto simp: end_task_def Let_def tight_def split: option.splits)

lemma add_file_ok:
  assumes run: "add_file content fidx name st = Inr st'" and t: "tight st"
  defines "pad \<equiv> if name = bootblock_name then replicate (512 - length (img st @ program_bytes (the (content name)))) 0 else []"
  shows "tight st' \<and> img st' = img st @ program_bytes (the (content name)) @ pad \<and> content name \<noteq> None \<and>
    (\<forall>j. fidx < 2 \<or> j \<noteq> fidx - 2 \<longrightarrow> taskinfo st' j = taskinfo st j) \<and>
    (2 \<le> fidx \<longrightarrow> fidx - 2 < TASK_MAXNUM \<and> length name < TASK_NAME_LEN \<and>
       records (taskinfo st' (fidx - 2)) (the (content name)) \<and> task_at (taskinfo st' (fidx - 2)) name (length (img st)) (length (img st')))"
proof -
  let ?task = "if 2 \<le> fidx then Some (fidx - 2) else None"
  obtain f h st1 st2 st3 where f: "content name = Some f" and h: "read_ehdr f = Inr h" and s1: "begin_task ?task name st = Inr st1"
    and s2: "write_segments [0..<unat (e_phnum h)] f h name ?task st1 = Inr st2"
    and s3: "(if name = bootblock_name then write_padding SECTOR_SIZE st2 else Inr st2) = Inr st3" and st': "st' = end_task ?task st3"
    using run by (auto simp: add_file_def Let_def res_eq_Inr split: option.splits)
  note b = begin_task_ok [OF s1 t]
  note w = write_segments_ok [OF s2] b
  have pb: "program_bytes f = concat (map (header_bytes f h) [0..<unat (e_phnum h)])" by (simp add: program_bytes_def h)
  have t2: "tight st2" "img st2 = img st @ program_bytes f" using w by (simp_all add: pb)
  have t3: "tight st3 \<and> img st3 = img st2 @ pad \<and> taskinfo st3 = taskinfo st2"
  proof (cases "name = bootblock_name")
    case True
    then have "append_bytes (replicate (512 - phyaddr st2) 0) st2 = Inr st3" using s3 by (simp add: write_padding_def SECTOR_SIZE_def)
    note a = append_bytes_ok [OF this t2(1)]
    have "phyaddr st2 = length (img st @ program_bytes f)" using t2 by (simp add: tight_def)
    then show ?thesis using a True f [unfolded True] by (simp add: pad_def)
  qed (use s3 t2 in \<open>simp add: pad_def\<close>)
  note e = end_task_ok [of st3 ?task, folded st']
  have sp: "same_place (taskinfo st1 (fidx - 2)) (taskinfo st3 (fidx - 2))" using w t3 by simp
  have "task_at (taskinfo st' (fidx - 2)) name (length (img st)) (length (img st'))" if "2 \<le> fidx"
    using that e t3 b sp by (cases "taskinfo st1 (fidx - 2)"; cases "taskinfo st3 (fidx - 2)") (simp add: task_at_def same_place_def)
  moreover have "records (taskinfo st' (fidx - 2)) (the (content name))" if "2 \<le> fidx"
    using that w e t3 by (simp add: records_def recorded_def elf_segments_def h f)
  ultimately show ?thesis using e t3 t2 w f b by auto
qed

text \<open>\<open>placed\<close>: entry \<open>i\<close> of the table leads to the segments of the program \<open>name\<close>, at or behind \<open>lo\<close>.\<close>

definition placed :: "(u8 list \<Rightarrow> u8 list option) \<Rightarrow> u8 list \<Rightarrow> task_info_t \<Rightarrow> u8 list \<Rightarrow> nat \<Rightarrow> bool" where
  "placed content bytes t name lo \<longleftrightarrow> records t (the (content name)) \<and> (\<exists>b e. lo \<le> b \<and> b \<le> e \<and> e \<le> length bytes \<and> task_at t name b e \<and>
     (name \<noteq> bootblock_name \<longrightarrow> take (e - b) (drop b bytes) = program_bytes (the (content name))))"

lemma placed_mono:
  assumes "placed content bytes t name lo" and "lo' \<le> lo"
  shows "placed content (bytes @ tl_bytes) t name lo'"
proof -
  obtain b e where be: "lo \<le> b" "b \<le> e" "e \<le> length bytes" "task_at t name b e"
    "name \<noteq> bootblock_name \<longrightarrow> take (e - b) (drop b bytes) = program_bytes (the (content name))"
    using assms(1) by (auto simp: placed_def)
  have rc: "records t (the (content name))" using assms(1) by (simp add: placed_def)
  have "take (e - b) (drop b (bytes @ tl_bytes)) = take (e - b) (drop b bytes)" using be(2,3) by simp
  then show ?thesis unfolding placed_def using be assms(2) rc by (intro conjI exI [of _ b] exI [of _ e]) auto
qed

lemma add_files_ok:
  assumes "add_files content fidx files st = Inr st'" and "tight st"
  shows "tight st' \<and> (\<exists>tl_bytes. img st' = img st @ tl_bytes) \<and>
    (\<forall>j. (\<forall>k<length files. j + 2 \<noteq> fidx + k) \<longrightarrow> taskinfo st' j = taskinfo st j) \<and>
    (\<forall>k<length files. 2 \<le> fidx + k \<longrightarrow> fidx + k - 2 < TASK_MAXNUM \<and> length (files ! k) < TASK_NAME_LEN \<and>
       placed content (img st') (taskinfo st' (fidx + k - 2)) (files ! k) (length (img st)))"
  using assms
proof (induction files arbitrary: fidx st)
  case (Cons name files)
  obtain st1 where s1: "add_file content fidx name st = Inr st1" and r: "add_files content (Suc fidx) files st1 = Inr st'"
    using Cons.prems(1) by (auto simp: res_eq_Inr)
  note a = add_file_ok [OF s1 Cons.prems(2)]
  then have t1: "tight st1" by blast
  note ih = Cons.IH [OF r t1]
  obtain tl_bytes where tl_bytes: "img st' = img st1 @ tl_bytes" using ih by blast
  have len: "length (img st) \<le> length (img st1)" using a by auto
  have old: "taskinfo st' j = taskinfo st j" if "\<forall>k<length (name # files). j + 2 \<noteq> fidx + k" for j
  proof -
    have "j + 2 \<noteq> fidx" using that by (auto dest: spec [of _ 0])
    moreover have "\<forall>k<length files. j + 2 \<noteq> Suc fidx + k" using that by (auto dest: spec [of _ "Suc k" for k])
    ultimately show ?thesis using ih a by (metis add_diff_cancel_right' le_add_diff_inverse2 linorder_not_le)
  qed
  have k0: "fidx - 2 < TASK_MAXNUM \<and> length name < TASK_NAME_LEN \<and> placed content (img st') (taskinfo st' (fidx - 2)) name (length (img st))"
    if "2 \<le> fidx"
  proof -
    have others: "taskinfo st' j = taskinfo st1 j" if "\<forall>k<length files. j + 2 \<noteq> Suc fidx + k" for j using ih that by blast
    have "taskinfo st' (fidx - 2) = taskinfo st1 (fidx - 2)" by (rule others) (use that in auto)
    moreover have "placed content (img st1) (taskinfo st1 (fidx - 2)) name (length (img st))"
      unfolding placed_def using a that len by (intro conjI exI [of _ "length (img st)"] exI [of _ "length (img st1)"]) auto
    ultimately show ?thesis using a that placed_mono [of content "img st1" _ name "length (img st)" "length (img st)" tl_bytes] tl_bytes by simp
  qed
  have "fidx + k - 2 < TASK_MAXNUM \<and> length ((name # files) ! k) < TASK_NAME_LEN \<and>
      placed content (img st') (taskinfo st' (fidx + k - 2)) ((name # files) ! k) (length (img st))"
    if "k < length (name # files)" "2 \<le> fidx + k" for k
  proof (cases k)
    case 0
    then show ?thesis using k0 that by simp
  next
    case (Suc m)
    then have "m < length files" "2 \<le> Suc fidx + m" using that by simp_all
    with ih have "Suc fidx + m - 2 < TASK_MAXNUM \<and> length (files ! m) < TASK_NAME_LEN \<and>
        placed content (img st') (taskinfo st' (Suc fidx + m - 2)) (files ! m) (length (img st1))" by blast
    then show ?thesis using placed_mono [of content "img st'" _ _ "length (img st1)" "length (img st)" "[]"] len Suc by simp
  qed
  then show ?case using ih a old tl_bytes by auto
qed simp

section \<open>The finished image\<close>

lemma empty_tight: "tight empty_image"
  by (simp add: tight_def empty_image_def)

lemma fputcs: "fputc c st = fwrite [c] st" "fwrite xs (fwrite ys st) = fwrite (ys @ xs) st"
  by (simp_all add: fwrite_def)

definition task_table :: "image \<Rightarrow> nat \<Rightarrow> u8 list" where
  "task_table st n = concat (map (\<lambda>i. encode_task (taskinfo st i)) [0..<n])"

lemma fseek_sel: "img (fseek k st) = img st" "img_pos (fseek k st) = k" "taskinfo (fseek k st) = taskinfo st"
  by (simp_all add: fseek_def)

lemma create_image_bytes:
  assumes "create_image content files = Inr st'"
  obtains st a b where "add_files content 0 files empty_image = Inr st" "taskinfo st' = taskinfo st"
    "512 \<le> length (img st) \<Longrightarrow> img st' = take 503 (img st) @ [of_nat (length files - 2)] @ le 4 (of_nat (length (img st))) @
       [a, b, 0x55, 0xaa] @ drop 512 (img st) @ task_table st (length files - 2)"
proof -
  let ?n = "length files - 2"
  obtain st where st: "add_files content 0 files empty_image = Inr st"
    and st': "st' = write_img_info ?n (fwrite (of_nat ?n # le 4 (of_nat (phyaddr st))) (fseek 503 st))"
    using assms by (auto simp: create_image_def Let_def res_eq_Inr fputcs IMG_TASK_NUM_LOC_def TASK_INFO_LOC_def OS_SIZE_LOC_def
        BOOT_LOADER_SIG_OFFSET_def) (simp add: fseek_def fwrite_def fputc_def)
  have t: "phyaddr st = length (img st)" using add_files_ok [OF st empty_tight] by (simp add: tight_def)
  define a b :: u8 where "a = of_nat (NBYTES2SEC (nbytes_kernel st))" and "b = of_nat (NBYTES2SEC (nbytes_kernel st) div 256)"
  have keep: "taskinfo (fwrite bs u) = taskinfo u" "nbytes_kernel (fwrite bs u) = nbytes_kernel u" for bs u
    unfolding fwrite_def by (induction bs arbitrary: u) (simp_all add: fputc_def)
  have ti: "taskinfo st' = taskinfo st" by (simp add: st' write_img_info_def Let_def fputcs keep) (simp add: fseek_def keep)
  have "img st' = take 503 (img st) @ [of_nat ?n] @ le 4 (of_nat (length (img st))) @ [a, b, 0x55, 0xaa] @ drop 512 (img st) @ task_table st ?n"
    if l: "512 \<le> length (img st)"
  proof -
    let ?h = "of_nat ?n # le 4 (of_nat (length (img st)))"
    let ?s1 = "fwrite ?h (fseek 503 st)"
    have i1: "img ?s1 = take 503 (img st) @ ?h @ drop 508 (img st)" using l by (subst fwrite_inside) (simp_all add: fseek_def)
    have l1: "length (img ?s1) = length (img st)" using l by (simp add: i1)
    let ?s2 = "fwrite (task_table st ?n) (fseek (length (img ?s1)) ?s1)"
    have i2: "img ?s2 = img ?s1 @ task_table st ?n" by (subst fwrite_append) (simp_all add: fseek_def)
    have x2: "img ?s2 = take 503 (img st) @ ?h @ drop 508 (img st) @ task_table st ?n" by (subst i2, subst i1) simp
    have l2: "512 \<le> length (img ?s2)" unfolding i2 length_append using l l1 by linarith
    have e: "st' = fwrite [a, b, 0x55, 0xaa] (fseek 508 ?s2)"
      unfolding st' t by (simp add: write_img_info_def Let_def fputcs keep OS_SIZE_LOC_def BOOT_LOADER_SIG_OFFSET_def task_table_def
          fseek_def a_def b_def)
    have "img st' = take 508 (img ?s2) @ [a, b, 0x55, 0xaa] @ drop 512 (img ?s2)"
      unfolding e using l2 by (subst fwrite_inside) (simp_all add: fseek_sel)
    then show ?thesis unfolding x2 using l by simp
  qed
  then show ?thesis using that [OF st ti] by blast
qed

text \<open>What an image has to satisfy for the kernel: the first sector, the table, the programs.\<close>

lemma create_image_layout:
  assumes run: "create_image content (bootblock_name # rest) = Inr st'"
  defines "n \<equiv> length rest - 1"
  obtains base where "512 \<le> base" "base < 2 ^ 31" "n \<le> TASK_MAXNUM"
    "img st' ! 503 = of_nat n" "take 4 (drop 504 (img st')) = le 4 (of_nat base)" "drop base (img st') = task_table st' n" "base \<le> length (img st')"
    "\<And>i. i < n \<Longrightarrow> length (rest ! Suc i) < TASK_NAME_LEN \<and> placed content (img st') (taskinfo st' i) (rest ! Suc i) 512"
proof -
  obtain st a b where st: "add_files content 0 (bootblock_name # rest) empty_image = Inr st" and ti: "taskinfo st' = taskinfo st"
    and im: "512 \<le> length (img st) \<Longrightarrow> img st' = take 503 (img st) @ [of_nat n] @ le 4 (of_nat (length (img st))) @
       [a, b, 0x55, 0xaa] @ drop 512 (img st) @ task_table st n"
    using create_image_bytes [OF run] by (auto simp: n_def)
  obtain st1 where s1: "add_file content 0 bootblock_name empty_image = Inr st1" and r: "add_files content 1 rest st1 = Inr st"
    using st by (auto simp: res_eq_Inr)
  note f1 = add_file_ok [OF s1 empty_tight]
  have l1: "512 \<le> length (img st1)" using f1 by (auto simp: empty_image_def)
  have "tight st1" using f1 by blast
  note fs = add_files_ok [OF r this]
  obtain tl where tl: "img st = img st1 @ tl" using fs by blast
  then have l: "512 \<le> length (img st)" using l1 by simp
  have pl: "i < TASK_MAXNUM \<and> length (rest ! Suc i) < TASK_NAME_LEN \<and> placed content (img st) (taskinfo st i) (rest ! Suc i) 512"
    if "i < n" for i
  proof -
    have "Suc i < length rest" "2 \<le> 1 + Suc i" using that by (simp_all add: n_def)
    with fs have "1 + Suc i - 2 < TASK_MAXNUM \<and> length (rest ! Suc i) < TASK_NAME_LEN \<and>
        placed content (img st) (taskinfo st (1 + Suc i - 2)) (rest ! Suc i) (length (img st1))" by blast
    then show ?thesis using placed_mono [of content "img st" _ _ "length (img st1)" 512 "[]"] l1 by simp
  qed
  have "n \<le> TASK_MAXNUM"
  proof (cases n)
    case (Suc m)
    then show ?thesis using pl [of m] by simp
  qed simp
  let ?base = "length (img st)"
  have i: "img st' = take 503 (img st) @ [of_nat n] @ le 4 (of_nat ?base) @ [a, b, 0x55, 0xaa] @ drop 512 (img st) @ task_table st n"
    by (rule im [OF l])
  have d: "drop 512 (img st') = drop 512 (img st) @ task_table st n" unfolding i using l by simp
  have same: "drop k (img st') = drop k (img st) @ task_table st n" if "512 \<le> k" "k \<le> ?base" for k
  proof -
    have "drop k (img st') = drop (k - 512) (drop 512 (img st'))" using that by simp
    also have "\<dots> = drop k (img st) @ task_table st n" unfolding d using that by simp
    finally show ?thesis .
  qed
  have "placed content (img st') t name 512" if p: "placed content (img st) t name 512" for t name
  proof -
    obtain b e where be: "512 \<le> b" "b \<le> e" "e \<le> ?base" "task_at t name b e"
        "name \<noteq> bootblock_name \<longrightarrow> take (e - b) (drop b (img st)) = program_bytes (the (content name))"
      using p by (auto simp: placed_def)
    have "take (e - b) (drop b (img st')) = take (e - b) (drop b (img st))" using be same [of b] by simp
    moreover have "?base \<le> length (img st')" unfolding i using l by simp
    moreover have "records t (the (content name))" using p by (simp add: placed_def)
    ultimately show ?thesis unfolding placed_def using be by (intro conjI exI [of _ b] exI [of _ e]) auto
  qed
  moreover have "img st' ! 503 = of_nat n" unfolding i using l by (simp add: nth_append)
  moreover have "take 4 (drop 504 (img st')) = le 4 (of_nat ?base)" unfolding i using l by simp
  moreover have "drop ?base (img st') = task_table st' n" using same [of ?base] l by (simp add: task_table_def ti)
  moreover have "?base \<le> length (img st')" unfolding i using l by simp
  moreover have "?base < 2 ^ 31" using fs by (simp add: tight_def)
  ultimately show ?thesis using pl ti l \<open>n \<le> TASK_MAXNUM\<close> by (intro that [of ?base]) auto
qed

lemma task_table_nth:
  assumes "i < n" and "\<And>j. j < n \<Longrightarrow> length (task_name (taskinfo st j)) < TASK_NAME_LEN"
  shows "take TASK_INFO_SIZE (drop (TASK_INFO_SIZE * i) (task_table st n)) = encode_task (taskinfo st i)"
    and "length (task_table st n) = TASK_INFO_SIZE * n"
proof -
  have len: "length (concat (map (\<lambda>i. encode_task (taskinfo st i)) [0..<k])) = TASK_INFO_SIZE * k" if "k \<le> n" for k
    using that by (induction k) (simp_all add: length_encode assms(2))
  then show "length (task_table st n) = TASK_INFO_SIZE * n" by (simp add: task_table_def)
  have "[0..<n] = [0..<i] @ i # [Suc i..<n]" using assms(1) by (metis le_add1 less_imp_add_positive upt_add_eq_append upt_conv_Cons add_0 less_imp_le_nat)
  then have "task_table st n = concat (map (\<lambda>i. encode_task (taskinfo st i)) [0..<i]) @ encode_task (taskinfo st i) @
      concat (map (\<lambda>i. encode_task (taskinfo st i)) [Suc i..<n])" by (simp add: task_table_def)
  then show "take TASK_INFO_SIZE (drop (TASK_INFO_SIZE * i) (task_table st n)) = encode_task (taskinfo st i)"
    using len [of i] assms by (simp add: length_encode)
qed

section \<open>Reading the table\<close>

definition on_card :: "'d sdcard \<Rightarrow> 'd \<Rightarrow> u8 list \<Rightarrow> bool" where
  "on_card D d bytes \<longleftrightarrow> (\<forall>k<length bytes. sd_get D d (of_nat (k div 512)) (k mod 512) = bytes ! k)"

text \<open>The firmware loads the first sector to physical address \<open>0x50200000\<close>.\<close>

definition boot_sector :: "u64 \<Rightarrow> u8 list \<Rightarrow> (u64 \<Rightarrow> u64) \<Rightarrow> bool" where
  "boot_sector a bytes r \<longleftrightarrow> (\<forall>k<512. ram_byte r (a + of_nat k) = bytes ! k)"

lemma sd_read_blocks_byte:
  assumes "i < 512 * unat n" and "unat n \<le> 8"
  shows "ram_byte (ram (sd_read_blocks D pa n blk s)) (pa2kva pa + of_nat i) = sd_get D (sdc s) (blk + of_nat (i div 512)) (i mod 512)"
proof -
  have "unat (of_nat i :: u64) = i" using assms by (simp add: unat_of_nat)
  then show ?thesis unfolding sd_read_blocks_def using assms by (subst wr_bytes) auto
qed

lemma ucast_of_nat: "m < 2 ^ LENGTH('b) \<Longrightarrow> (ucast (of_nat m :: 'b :: len word) :: 'a :: len word) = of_nat m"
  by (metis of_nat_unat unat_of_nat_less)

lemma drop9: "unat w = m \<Longrightarrow> drop_bit 9 w = of_nat (m div 512)"
proof -
  assume m: "unat w = m"
  have "unat (drop_bit 9 w) = drop_bit 9 (unat w)" by (rule unat_drop_bit_eq)
  then have "unat (drop_bit 9 w) = m div 512" by (simp add: m drop_bit_eq_div)
  then show ?thesis by (metis of_nat_unat ucast_id)
qed

lemma below_sector: "(of_nat b :: 'a :: len word) - of_nat (512 * (b div 512)) = of_nat (b mod 512)"
proof -
  have "(of_nat b :: 'a word) = of_nat (512 * (b div 512) + b mod 512)" by (simp only: mult_div_mod_eq)
  then show ?thesis by (simp only: of_nat_add add_diff_cancel_left')
qed

lemma push9: "push_bit 9 (of_nat k :: 'a :: len word) = of_nat (512 * k)"
  by (simp add: push_bit_eq_mult)

lemma ceil512: "(x + 511) div 512 = x div 512 + (if x mod 512 \<noteq> 0 then 1 else (0 :: nat))"
proof -
  have x: "x + 511 = (x mod 512 + 511) + 512 * (x div 512)" by simp
  have "(x mod 512 + 511) div 512 = (if x mod 512 \<noteq> 0 then 1 else 0)"
  proof (cases "x mod 512 = 0")
    case False
    have "x mod 512 < 512" by simp
    then show ?thesis using False by (intro div_nat_eqI) auto
  qed simp
  moreover have "((x mod 512 + 511) + 512 * (x div 512)) div 512 = x div 512 + (x mod 512 + 511) div 512" by (rule div_mult_self2) simp
  ultimately show ?thesis unfolding x [symmetric] by simp
qed

text \<open>The number of sectors that \<open>init_task_info\<close> reads.\<close>

lemma table_sectors:
  assumes "b < 2 ^ 31" and "n \<le> 16"
  defines "e \<equiv> of_nat (b + 48 * n) :: u64"
  defines "eb \<equiv> ucast (drop_bit 9 e) :: u32"
  defines "num \<equiv> eb - of_nat (b div 512) + (if (ucast (e - ucast (push_bit 9 eb)) :: u32) \<noteq> 0 then 1 else 0)"
  shows "unat num = (b + 48 * n + 511) div 512 - b div 512" and "unat num \<le> 8"
proof -
  let ?m = "b + 48 * n"
  have m: "?m < 2 ^ 32" "?m div 512 < 2 ^ 23" using assms(1,2) by (simp_all add: div_less_iff_less_mult)
  have ue: "unat e = ?m" unfolding e_def by (rule unat_of_nat_less) (use m in simp)
  have "(ucast (of_nat (?m div 512) :: u64) :: u32) = of_nat (?m div 512)" by (rule ucast_of_nat) (use m in simp)
  then have eb: "eb = of_nat (?m div 512)" by (simp only: eb_def drop9 [OF ue])
  have "512 * (?m div 512) \<le> ?m" by simp
  then have "(ucast (of_nat (512 * (?m div 512)) :: u32) :: u64) = of_nat (512 * (?m div 512))"
    by (intro ucast_of_nat) (use m in simp)
  then have "e - ucast (push_bit 9 eb) = of_nat (?m mod 512)" by (simp only: eb push9 e_def below_sector)
  moreover have "?m mod 512 < 512" by simp
  moreover have "(ucast (of_nat (?m mod 512) :: u64) :: u32) = of_nat (?m mod 512)" "unat (of_nat (?m mod 512) :: u32) = ?m mod 512"
    by (rule ucast_of_nat unat_of_nat_less, rule order_less_trans [OF \<open>?m mod 512 < 512\<close>], simp)+
  ultimately have off: "(ucast (e - ucast (push_bit 9 eb)) :: u32) \<noteq> 0 \<longleftrightarrow> ?m mod 512 \<noteq> 0" by (metis unat_eq_zero)
  have le: "b div 512 \<le> ?m div 512" by (intro div_le_mono) simp
  let ?d = "if ?m mod 512 \<noteq> 0 then 1 else 0 :: nat"
  have nm: "num = of_nat (?m div 512 - b div 512 + ?d)" unfolding num_def off unfolding eb using le by (simp add: of_nat_diff)
  have "?m \<le> b + 2 * 512" using assms(2) by simp
  then have "?m div 512 \<le> (b + 2 * 512) div 512" by (rule div_le_mono)
  then have "?m div 512 - b div 512 \<le> 3" by simp
  moreover have "?d \<le> 1" by simp
  ultimately have k: "?m div 512 - b div 512 + ?d \<le> 8" by linarith
  have u: "unat num = ?m div 512 - b div 512 + ?d" unfolding nm by (rule unat_of_nat_less) (use k in simp)
  have "(?m + 511) div 512 = ?m div 512 + ?d" by (rule ceil512)
  then show "unat num = (?m + 511) div 512 - b div 512" "unat num \<le> 8" using u k le by linarith+
qed

text \<open>The sectors that are read hold the table.\<close>

lemma table_in_memory:
  assumes b: "b < 2 ^ 31" and n: "n \<le> 16" and card: "on_card D (sdc s) bytes" and len: "b + 48 * n \<le> length bytes"
    and num: "unat num = (b + 48 * n + 511) div 512 - b div 512" "unat num \<le> 8" and j: "j < 48 * n"
  shows "ram_byte (ram (sd_read_blocks D 0x58000000 num (of_nat (b div 512)) s)) (pa2kva (0x58000000 + of_nat (b mod 512)) + of_nat j) = bytes ! (b + j)"
proof -
  let ?i = "b mod 512 + j"
  let ?x = "b div 512" and ?y = "(b + 48 * n + 511) div 512"
  have up: "x \<le> 512 * ((x + 511) div 512)" for x :: nat
  proof -
    have "(x + 511) mod 512 < 512" "512 * ((x + 511) div 512) + (x + 511) mod 512 = x + 511" by simp_all
    then show ?thesis by linarith
  qed
  have e: "512 * ?x + b mod 512 = b" by simp
  have "512 * unat num = 512 * ?y - 512 * ?x" by (simp only: num(1) diff_mult_distrib2)
  then have "?i < 512 * unat num" using up [of "b + 48 * n"] e j by linarith
  note rd = sd_read_blocks_byte [where D = D and s = s and pa = "0x58000000" and blk = "of_nat (b div 512)", OF this num(2)]
  have a: "pa2kva (0x58000000 + of_nat (b mod 512)) + of_nat j = pa2kva 0x58000000 + of_nat ?i" by (simp add: pa2kva_def)
  have bj: "b + j = ?i + 512 * ?x" using e by linarith
  have "(?i + 512 * ?x) div 512 = b div 512 + ?i div 512" "(?i + 512 * ?x) mod 512 = ?i mod 512"
    by (rule div_mult_self2, simp, rule mod_mult_self2)
  note k = this [folded bj]
  have "b + j < length bytes" using len j by linarith
  then have "sd_get D (sdc s) (of_nat ((b + j) div 512)) ((b + j) mod 512) = bytes ! (b + j)" using card unfolding on_card_def by blast
  then show ?thesis unfolding a rd k by (simp only: of_nat_add)
qed

lemma init_task_info_ok:
  assumes b: "512 \<le> b" "b < 2 ^ 31" and n: "n \<le> TASK_MAXNUM"
    and bytes: "bytes ! 503 = of_nat n" "take 4 (drop 504 bytes) = le 4 (of_nat b)" "512 \<le> length bytes"
    and card: "on_card D (sdc s) bytes" and boot: "boot_sector 0xffffffc050200000 bytes (ram s)"
    and tab: "drop b bytes = task_table st n" "b \<le> length bytes"
    and names: "\<And>i. i < n \<Longrightarrow> length (task_name (taskinfo st i)) < TASK_NAME_LEN \<and> 0 \<notin> set (task_name (taskinfo st i))"
  shows "\<exists>tasks' s'. init_task_info D tasks s = Inr (tasks', s') \<and> (\<forall>i<n. tasks' i = taskinfo st i) \<and> (\<forall>i\<ge>n. tasks' i = tasks i)"
proof -
  have n16: "n \<le> 16" using n by (simp add: TASK_MAXNUM_def)
  have k503: "ram_byte (ram s) TASK_NUM_LOC = of_nat n"
  proof -
    have "ram_byte (ram s) (0xffffffc050200000 + of_nat 503) = bytes ! 503" using boot unfolding boot_sector_def by (drule_tac spec [of _ 503]) simp
    then show ?thesis by (simp add: TASK_NUM_LOC_def bytes(1))
  qed
  have un: "unat (of_nat n :: u8) = n" using n16 by (simp add: unat_of_nat)
  have "ram_bytes (TASK_NUM_LOC + 1) 4 s = take 4 (drop 504 bytes)"
  proof (rule nth_equalityI)
    fix i
    assume "i < length (ram_bytes (TASK_NUM_LOC + 1) 4 s)"
    then have i: "i < 4" by (simp add: ram_bytes_def)
    have "ram_byte (ram s) (0xffffffc050200000 + of_nat (504 + i)) = bytes ! (504 + i)"
      using boot i unfolding boot_sector_def by (drule_tac spec [of _ "504 + i"]) linarith
    then show "ram_bytes (TASK_NUM_LOC + 1) 4 s ! i = take 4 (drop 504 bytes) ! i"
      using i bytes(3) by (simp add: ram_bytes_def TASK_NUM_LOC_def)
  qed (use bytes(3) in \<open>simp add: ram_bytes_def\<close>)
  then have "of_le (ram_bytes (TASK_NUM_LOC + 1) 4 s) = take_bit 32 (of_nat b)" by (simp add: bytes(2) of_le_le)
  also have "\<dots> = of_nat b"
  proof -
    have "unat (of_nat b :: u64) = b" using b(2) by (intro unat_of_nat_less) simp
    then show ?thesis using b(2) by (intro word_unat_eq_iff [THEN iffD2]) (simp add: unsigned_take_bit_eq take_bit_nat_eq_self_iff)
  qed
  finally have base: "(ucast (of_le (ram_bytes (TASK_NUM_LOC + 1) 4 s)) :: u32) = of_nat b"
    using b(2) by (simp only:) (rule ucast_of_nat, simp)
  define num where "num = (ucast (drop_bit 9 (of_nat (b + 48 * n) :: u64)) :: u32) - of_nat (b div 512) +
    (if (ucast (of_nat (b + 48 * n) - ucast (push_bit 9 (ucast (drop_bit 9 (of_nat (b + 48 * n) :: u64)) :: u32)) :: u64) :: u32) \<noteq> 0 then 1 else 0)"
  note num = table_sectors [OF b(2) n16, folded num_def]
  let ?s' = "sd_read_blocks D 0x58000000 num (of_nat (b div 512)) s"
  let ?src = "pa2kva (0x58000000 + of_nat (b mod 512))"
  define tasks' where "tasks' = (\<lambda>i. if i < n then decode_task (ram_bytes (?src + of_nat (TASK_INFO_SIZE * i)) TASK_INFO_SIZE ?s') else tasks i)"
  have d9: "drop_bit 9 (of_nat b :: u32) = of_nat (b div 512)" by (rule drop9, rule unat_of_nat_less) (use b(2) in simp)
  have off: "(of_nat b :: u32) - push_bit 9 (of_nat (b div 512)) = of_nat (b mod 512)" by (simp only: push9 below_sector)
  have "(ucast (of_nat b :: u32) :: u64) = of_nat b" by (rule ucast_of_nat) (use b(2) in simp)
  moreover have "(ucast (of_nat n :: u8) :: u64) = of_nat n" by (rule ucast_of_nat) (use n16 in simp)
  ultimately have ea: "ucast (of_nat b :: u32) + ucast (of_nat n :: u8) * of_nat TASK_INFO_SIZE = (of_nat (b + 48 * n) :: u64)"
    by (simp add: TASK_INFO_SIZE_def)
  have pa: "ucast (ucast (kva2pa 0xfffffc0058000000) :: u32) = (0x58000000 :: u64)" by (simp add: kva2pa_def KVA_OFFSET_def)
  have "b mod 512 < 512" by simp
  then have co: "(ucast (of_nat (b mod 512) :: u32) :: u64) = of_nat (b mod 512)" by (intro ucast_of_nat) simp
  have run: "init_task_info D tasks s = Inr (tasks', ?s')"
    unfolding init_task_info_def Let_def k503 base d9 off ea pa co num_def [symmetric] un tasks'_def by (simp only: guardE_True n)
  have "tasks' i = taskinfo st i" if i: "i < n" for i
  proof -
    have len: "length (task_table st n) = 48 * n" using task_table_nth(2) [OF i, of st] names by (simp add: TASK_INFO_SIZE_def)
    have "length bytes - b = 48 * n" using arg_cong [OF tab(1), of length] len by (simp only: length_drop)
    then have lb: "b + 48 * n \<le> length bytes" using tab(2) by linarith
    have "ram_bytes (?src + of_nat (48 * i)) 48 ?s' = take 48 (drop (48 * i) (task_table st n))"
    proof (rule nth_equalityI)
      fix j
      assume "j < length (ram_bytes (?src + of_nat (48 * i)) 48 ?s')"
      then have j: "j < 48" by (simp add: ram_bytes_def)
      then have ij: "48 * i + j < 48 * n" using i by simp
      have "ram_byte (ram ?s') (?src + of_nat (48 * i + j)) = bytes ! (b + (48 * i + j))"
        by (rule table_in_memory [OF b(2) n16 card lb num ij])
      also have "\<dots> = task_table st n ! (48 * i + j)" using tab ij lb by (metis nth_drop)
      finally show "ram_bytes (?src + of_nat (48 * i)) 48 ?s' ! j = take 48 (drop (48 * i) (task_table st n)) ! j"
        using j ij len by (simp add: ram_bytes_def add.assoc)
    qed (use len i in \<open>simp add: ram_bytes_def\<close>)
    then show ?thesis using task_table_nth(1) [OF i, of st] names i decode_encode [of "taskinfo st i"] by (simp add: tasks'_def TASK_INFO_SIZE_def)
  qed
  then show ?thesis using run by (auto simp: tasks'_def)
qed

section \<open>Memory with given bytes\<close>

definition ram_of :: "(u64 \<Rightarrow> u8) \<Rightarrow> u64 \<Rightarrow> u64" where
  "ram_of f a = of_le (map (\<lambda>k. f (a + of_nat k)) [0..<8])"

lemma ram_byte_ram_of: "ram_byte (ram_of f) a = f a"
proof (rule bit_word_eqI)
  fix n
  assume "n < LENGTH(8)"
  then have n: "n < 8" by simp
  let ?k = "unat (a AND 7)"
  have k: "?k < 8" by (rule low3)
  have d: "(8 * ?k + n) div 8 = ?k" "(8 * ?k + n) mod 8 = n" using n by simp_all
  have "(a AND NOT 7) + (a AND 7) = a" using word_split7 [of a] disjunctive_add_eq_or [of "a AND NOT 7" "a AND 7"]
    by (simp add: bit_eq_iff bit_simps)
  then have "(a AND NOT 7) + of_nat ?k = a" by simp
  then show "bit (ram_byte (ram_of f) a) n = bit (f a) n"
    using n k d by (simp add: ram_byte_def ram_of_def bit_simps bit_of_le)
qed

section \<open>From the image builder to the kernel\<close>

text \<open>
  When \<open>createimage\<close> has built an image from the boot block, the kernel and some programs, the card holds
  the image, and the firmware has loaded its first sector, \<open>init_task_info\<close> fills the kernel's table with
  one entry for each program, in order: the entry has the program's name, and the bytes of the image
  between the positions it gives are the program's loadable segments.
\<close>

lemma image_reaches_kernel:
  assumes "create_image content (bootblock_name # os # programs) = Inr st"
    and "on_card D (sdc s) (img st)" and "boot_sector 0xffffffc050200000 (img st) (ram s)"
    and "\<forall>name \<in> set programs. 0 \<notin> set name \<and> name \<noteq> bootblock_name"
  shows "length programs \<le> TASK_MAXNUM \<and> (\<exists>tasks' s'. init_task_info D tasks s = Inr (tasks', s') \<and>
    (\<forall>i<length programs. tasks' i = taskinfo st i \<and> records (tasks' i) (the (content (programs ! i))) \<and> (\<exists>b e. b \<le> e \<and> e \<le> length (img st) \<and> task_at (tasks' i) (programs ! i) b e \<and>
       take (e - b) (drop b (img st)) = program_bytes (the (content (programs ! i))))))"
proof -
  let ?n = "length programs"
  obtain base where b: "512 \<le> base" "base < 2 ^ 31" "?n \<le> TASK_MAXNUM"
    "img st ! 503 = of_nat ?n" "take 4 (drop 504 (img st)) = le 4 (of_nat base)" "drop base (img st) = task_table st ?n" "base \<le> length (img st)"
    and pl: "\<And>i. i < ?n \<Longrightarrow> length (programs ! i) < TASK_NAME_LEN \<and> placed content (img st) (taskinfo st i) (programs ! i) 512"
    by (rule create_image_layout [OF assms(1)]) auto
  have nm: "task_name (taskinfo st i) = programs ! i" if "i < ?n" for i using pl [OF that] by (auto simp: placed_def task_at_def)
  have "\<exists>tasks' s'. init_task_info D tasks s = Inr (tasks', s') \<and> (\<forall>i<?n. tasks' i = taskinfo st i) \<and> (\<forall>i\<ge>?n. tasks' i = tasks i)"
    by (rule init_task_info_ok [OF b(1-5) _ assms(2,3) b(6,7)]) (use b(1,7) nm pl assms(4) in auto)
  then obtain tasks' s' where t: "init_task_info D tasks s = Inr (tasks', s')" "\<forall>i<?n. tasks' i = taskinfo st i" by blast
  have "tasks' i = taskinfo st i \<and> records (tasks' i) (the (content (programs ! i))) \<and> (\<exists>b e. b \<le> e \<and> e \<le> length (img st) \<and> task_at (tasks' i) (programs ! i) b e \<and>
       take (e - b) (drop b (img st)) = program_bytes (the (content (programs ! i))))" if "i < ?n" for i
    using pl [OF that] t(2) that assms(4) unfolding placed_def by (metis nth_mem)
  then show ?thesis using t(1) b(3) by blast
qed

section \<open>An example\<close>

text \<open>A boot block and a kernel without segments, and a shell with one segment of three bytes.\<close>

definition tiny_elf :: "u8 list" where
  "tiny_elf = map (\<lambda>i. if i = 1 then 69 else if i = 2 then 76 else if i = 3 then 70 else 0) [0..<64]"

definition shell_elf :: "u8 list" where
  "shell_elf = map (\<lambda>i. if i = 1 then 69 else if i = 2 then 76 else if i = 3 then 70 else if i = 32 then 64 else if i = 54 then 56
     else if i = 56 then 1 else if i = 64 then 1 else if i = 72 then 120 else if i = 82 then 1 else if i = 96 then 3
     else if i = 104 then 3 else if i = 120 then 7 else if i = 121 then 8 else if i = 122 then 9 else 0) [0..<123]"

definition sample_files :: "u8 list \<Rightarrow> u8 list option" where
  "sample_files name = (if name = shell_name then Some shell_elf else Some tiny_elf)"

lemma tiny_header: "read_ehdr tiny_elf = Inr \<lparr>e_entry = 0, e_phoff = 0, e_phentsize = 0, e_phnum = 0\<rparr>"
  by (simp add: read_ehdr_def tiny_elf_def field_def take_map drop_map of_le_def)

lemma shell_header: "read_ehdr shell_elf = Inr \<lparr>e_entry = 0, e_phoff = 64, e_phentsize = 56, e_phnum = 1\<rparr>"
  by (simp add: read_ehdr_def shell_elf_def field_def take_map drop_map of_le_def)

lemma shell_phdr:
  "read_phdr shell_elf 0 \<lparr>e_entry = 0, e_phoff = 64, e_phentsize = 56, e_phnum = 1\<rparr> =
     Inr \<lparr>p_type = 1, p_offset = 120, p_vaddr = 0x10000, p_filesz = 3, p_memsz = 3\<rparr>"
  by (simp add: read_phdr_def shell_elf_def field_def take_map drop_map of_le_def)

lemma shell_bytes: "program_bytes shell_elf = [7, 8, 9]"
proof -
  have "shell_elf ! 120 = 7" "shell_elf ! 121 = 8" "shell_elf ! 122 = 9" "length shell_elf = 123" by (simp_all add: shell_elf_def)
  then have "seg_bytes shell_elf \<lparr>p_type = 1, p_offset = 120, p_vaddr = 0x10000, p_filesz = 3, p_memsz = 3\<rparr> = [7, 8, 9]"
    by (simp add: seg_bytes_def PT_LOAD_def fgetc_def upt_rec)
  then show ?thesis by (simp add: program_bytes_def shell_header header_bytes_def shell_phdr)
qed

lemma sample_image:
  "\<exists>st. create_image sample_files [bootblock_name, main_name, shell_name] = Inr st \<and> length (img st) = 563 \<and>
     entry_addr (taskinfo st 0) = 0x10000 \<and> memsz (taskinfo st 0) = 3"
proof -
  have c: "sample_files bootblock_name = Some tiny_elf" "sample_files main_name = Some tiny_elf" "sample_files shell_name = Some shell_elf"
    "main_name \<noteq> bootblock_name" "shell_name \<noteq> bootblock_name" "shell_name \<noteq> main_name"
    by (simp_all add: sample_files_def bootblock_name_def main_name_def shell_name_def)
  have nm: "length shell_name < TASK_NAME_LEN" by (simp add: shell_name_def TASK_NAME_LEN_def)
  obtain st1 where s1: "add_file sample_files 0 bootblock_name empty_image = Inr st1" "phyaddr st1 = 512"
    by (simp add: add_file_def c tiny_header begin_task_def write_padding_def append_bytes_def SECTOR_SIZE_def empty_image_def end_task_def)
  have t1: "tight st1" using add_file_ok [OF s1(1) empty_tight] by blast
  have l1: "length (img st1) = 512" using t1 s1(2) by (simp add: tight_def)
  have s2: "add_file sample_files (Suc 0) main_name st1 = Inr st1"
    by (simp add: add_file_def c tiny_header begin_task_def end_task_def)
  have "\<exists>st. add_file sample_files 2 shell_name st1 = Inr st \<and> entry_addr (taskinfo st 0) = 0x10000 \<and> memsz (taskinfo st 0) = 3"
    using s1(2) by (simp add: add_file_def c shell_header begin_task_def write_segment_def append_bytes_def shell_phdr TASK_MAXNUM_def
        nm seg_bytes_def PT_LOAD_def Let_def end_task_def)
  then obtain st3 where s3: "add_file sample_files (Suc (Suc 0)) shell_name st1 = Inr st3"
    "entry_addr (taskinfo st3 0) = 0x10000" "memsz (taskinfo st3 0) = 3" unfolding numeral_2_eq_2 by blast
  have i3: "tight st3" "img st3 = img st1 @ [7, 8, 9]" "task_name (taskinfo st3 0) = shell_name"
    using add_file_ok [OF s3(1) t1] by (simp_all add: c shell_bytes task_at_def)
  have fs: "add_files sample_files 0 [bootblock_name, main_name, shell_name] empty_image = Inr st3" by (simp add: s1(1) s2 s3(1))
  obtain st where st: "create_image sample_files [bootblock_name, main_name, shell_name] = Inr st"
    by (simp add: create_image_def s1(1) s2 s3(1) Let_def)
  obtain st' a b where st': "add_files sample_files 0 [bootblock_name, main_name, shell_name] empty_image = Inr st'" "taskinfo st = taskinfo st'"
    "512 \<le> length (img st') \<Longrightarrow> img st = take 503 (img st') @ [of_nat (length [bootblock_name, main_name, shell_name] - 2)] @
       le 4 (of_nat (length (img st'))) @ [a, b, 0x55, 0xaa] @ drop 512 (img st') @ task_table st' (length [bootblock_name, main_name, shell_name] - 2)"
    using create_image_bytes [OF st] by blast
  have "st' = st3" using st'(1) fs by simp
  moreover have "length (task_table st3 1) = 48" using task_table_nth(2) [of 0 1 st3] nm i3(3) by (simp add: TASK_INFO_SIZE_def)
  ultimately have "length (img st) = 563" using st'(3) l1 i3(2) by simp
  then show ?thesis using st st'(2) s3(2,3) \<open>st' = st3\<close> by auto
qed

text \<open>A state in which the firmware has started the kernel from a card with the image \<open>bytes\<close>.\<close>

definition started :: "u8 list \<Rightarrow> (u32 \<Rightarrow> nat \<Rightarrow> u8) mstate" where
  "started bytes = boot_mstate\<lparr>sdc := \<lambda>n i. bytes ! (512 * unat n + i), ram := ram_of (\<lambda>a. bytes ! unat (a - 0xffffffc050200000))\<rparr>"

lemma started_ok:
  assumes "length bytes < 2 ^ 32"
  shows "on_card ram_disk (sdc (started bytes)) bytes" and "boot_sector 0xffffffc050200000 bytes (ram (started bytes))"
proof -
  show "on_card ram_disk (sdc (started bytes)) bytes"
    unfolding on_card_def
  proof (intro allI impI)
    fix k
    assume "k < length bytes"
    then have "k div 512 < 2 ^ 32" using assms by (meson div_le_dividend le_less_trans less_trans)
    then have "unat (of_nat (k div 512) :: u32) = k div 512" by (intro unat_of_nat_less) simp
    then show "sd_get ram_disk (sdc (started bytes)) (of_nat (k div 512)) (k mod 512) = bytes ! k" by (simp add: ram_disk_def started_def)
  qed
  show "boot_sector 0xffffffc050200000 bytes (ram (started bytes))"
    unfolding boot_sector_def
  proof (intro allI impI)
    fix k :: nat
    assume "k < 512"
    then have "unat (of_nat k :: u64) = k" by (intro unat_of_nat_less) simp
    then show "ram_byte (ram (started bytes)) (0xffffffc050200000 + of_nat k) = bytes ! k" by (simp add: ram_byte_ram_of started_def)
  qed
qed

end
