(* ===== verification/LoadSpec.thy ===== *)
theory LoadSpec
  imports ImageSpec
begin

text \<open>
  Loading a program: \<open>load_task_img\<close> of \<open>kernel/loader/loader.c\<close> maps a fresh page for every page of the
  program and copies the program from the card, whatever its position within a sector.
\<close>

section \<open>One page\<close>

text \<open>Byte \<open>x\<close> of the card, counted from the start of sector \<open>blk\<close>.\<close>

definition card_from :: "'d sdcard \<Rightarrow> 'd \<Rightarrow> u32 \<Rightarrow> nat \<Rightarrow> u8" where
  "card_from D d blk x = sd_get D d (blk + of_nat (x div 512)) (x mod 512)"

lemma card_from_shift: "card_from D d (blk + of_nat k) x = card_from D d blk (512 * k + x)"
proof -
  have "(512 * k + x) div 512 = k + x div 512" "(512 * k + x) mod 512 = x mod 512" by simp_all
  then show ?thesis by (simp add: card_from_def add.assoc)
qed

lemma offset_eq:
  assumes "i < 8192" and "j < 8192"
  shows "(t :: u64) + of_nat i = t + of_nat j \<longleftrightarrow> i = j"
proof -
  have "unat (of_nat i :: u64) = i" "unat (of_nat j :: u64) = j" by (rule unat_of_nat_less, use assms in simp)+
  then show ?thesis by (metis add_left_cancel)
qed

text \<open>Writing \<open>n\<close> bytes of a page from offset \<open>o\<close> on.\<close>

lemma page_bytes:
  assumes "o' + n \<le> 4096" and "i < 4096"
  shows "ram_byte (ram (fold (\<lambda>j. wr_byte (t + of_nat o' + of_nat j) (f j)) [0..<n] s)) (t + of_nat i) =
    (if o' \<le> i \<and> i < o' + n then f (i - o') else ram_byte (ram s) (t + of_nat i))"
proof -
  have n: "n \<le> 4096" using assms(1) by simp
  have e: "t + of_nat i = t + of_nat o' + of_nat j \<longleftrightarrow> i = o' + j" if "j < n" for j
    using offset_eq [of i "o' + j" t] that assms by (simp add: add.assoc)
  have x: "(\<exists>j<n. t + of_nat i = t + of_nat o' + of_nat j) \<longleftrightarrow> o' \<le> i \<and> i < o' + n"
    using e by (metis add.commute less_add_eq_less le_add_diff_inverse nat_add_left_cancel_less le_add1)
  have u: "unat (t + of_nat i - (t + of_nat o')) = i - o'" if "o' \<le> i"
  proof -
    have "t + of_nat i - (t + of_nat o') = of_nat (i - o')" using that by (simp add: of_nat_diff)
    then show ?thesis using unat_of_nat_less [where 'a = 64 and m = "i - o'"] assms(2) by simp
  qed
  show ?thesis unfolding wr_bytes [OF n] x using u by auto
qed

lemma page_words:
  assumes "kpage t" and "o' + n \<le> 4096" and "kpage u" and "u \<noteq> t" and "unat j < 512"
  shows "ram (fold (\<lambda>j. wr_byte (t + of_nat o' + of_nat j) (f j)) [0..<n] s) (entry_at u j) = ram s (entry_at u j)"
proof (rule wr_bytes_outside)
  fix i
  assume i: "i < n"
  then have i4: "o' + i < 4096" using assms(2) by simp
  have "(t + of_nat o' + of_nat i) AND NOT 7 = entry_at t (of_nat ((o' + i) div 8))"
    using byte_word [OF assms(1) i4] by (simp add: add.assoc)
  moreover have "unat (of_nat ((o' + i) div 8) :: u64) < 512"
    using i4 unat_of_nat_less [where 'a = 64 and m = "(o' + i) div 8"] by simp
  ultimately show "entry_at u j \<noteq> (t + of_nat o' + of_nat i) AND NOT 7"
    using entry_eq_iff [OF assms(3,1,5)] assms(4) by auto
qed

text \<open>
  The loop over the sectors of a page: the first \<open>L\<close> bytes come from the card; the rest of the page
  is cleared, except when \<open>L\<close> is a multiple of the sector size, where it stays as it was.
\<close>

lemma load_sectors_ok:
  assumes t: "kpage t" and off: "unat off < 512"
  shows "it + n = 8 \<Longrightarrow> \<exists>r. load_sectors D n it blk off t (int L) s = Inr (s\<lparr>ram := r\<rparr>) \<and>
    (\<forall>i<4096. ram_byte r (t + of_nat i) =
       (if i < 512 * it then ram_byte (ram s) (t + of_nat i)
        else if i < 512 * it + L then card_from D (sdc s) blk (unat off + i)
        else if L mod 512 = 0 then ram_byte (ram s) (t + of_nat i) else 0)) \<and>
    (\<forall>u j. kpage u \<longrightarrow> u \<noteq> t \<longrightarrow> unat j < 512 \<longrightarrow> r (entry_at u j) = ram s (entry_at u j))"
proof (induction n arbitrary: it L s)
  case 0
  then show ?case by (intro exI [of _ "ram s"]) simp
next
  case (Suc n)
  show ?case
  proof (cases "L = 0")
    case True
    then show ?thesis by (intro exI [of _ "ram s"]) auto
  next
    case False
    let ?cnt = "min L 512"
    let ?buf = "\<lambda>j. sd_get D (sdc s) (blk + of_nat it + of_nat (j div 512)) (j mod 512)"
    let ?s1 = "fold (\<lambda>j. wr_byte (t + of_nat (it * 512) + of_nat j) (?buf (unat off + j))) [0..<?cnt] s"
    obtain r1 where r1: "?s1 = s\<lparr>ram := r1\<rparr>" 
      using wr_bytes_frame [of "t + of_nat (it * 512)" "\<lambda>j. ?buf (unat off + j)" "[0..<?cnt]" s] by blast
    have it: "it * 512 + ?cnt \<le> 4096" using Suc.prems by simp
    have buf: "?buf (unat off + j) = card_from D (sdc s) blk (unat off + (512 * it + j))" for j
      using card_from_shift [of D "sdc s" blk it "unat off + j"] by (simp add: card_from_def algebra_simps)
    have b1: "ram_byte r1 (t + of_nat i) = (if 512 * it \<le> i \<and> i < 512 * it + ?cnt then card_from D (sdc s) blk (unat off + i)
        else ram_byte (ram s) (t + of_nat i))" if "i < 4096" for i
    proof -
      note page_bytes [OF it that, of t "\<lambda>j. ?buf (unat off + j)" s, unfolded r1, unfolded buf]
      then show ?thesis by (simp add: mult.commute)
    qed
    have w1: "r1 (entry_at u j) = ram s (entry_at u j)" if "kpage u" "u \<noteq> t" "unat j < 512" for u j
      using page_words [OF t it that, of "\<lambda>j. ?buf (unat off + j)" s, unfolded r1] by simp
    have g: "unat off + ?cnt \<le> 1024" using off by simp
    show ?thesis
    proof (cases "L < 512")
      case True
      let ?o = "it * 512 + L"
      let ?s2 = "fold (\<lambda>j. wr_byte (t + of_nat ?o + of_nat j) ((\<lambda>_. 0) j)) [0..<4096 - ?o] (s\<lparr>ram := r1\<rparr>)"
      have o: "?o + (4096 - ?o) \<le> 4096" using it True by simp
      obtain r2 where r2: "?s2 = s\<lparr>ram := r2\<rparr>" 
        using wr_bytes_frame [of "t + of_nat ?o" "\<lambda>_. 0" "[0..<4096 - ?o]" "s\<lparr>ram := r1\<rparr>"] by auto
      have b2: "ram_byte r2 (t + of_nat i) = (if ?o \<le> i then 0 else ram_byte r1 (t + of_nat i))" if "i < 4096" for i
        using page_bytes [OF o that, of t "\<lambda>_. 0" "s\<lparr>ram := r1\<rparr>", unfolded r2] that by simp
      have w2: "r2 (entry_at u j) = r1 (entry_at u j)" if "kpage u" "u \<noteq> t" "unat j < 512" for u j
        using page_words [OF t o that, of "\<lambda>_. 0" "s\<lparr>ram := r1\<rparr>", unfolded r2] by simp
      have a: "t + of_nat (it * 512) + of_nat L = t + of_nat ?o" "4096 - it * 512 - L = 4096 - ?o" by simp_all
      have "ram_memset0 (t + of_nat (it * 512) + of_nat L) (4096 - it * 512 - L) (s\<lparr>ram := r1\<rparr>) = ?s2"
        unfolding ram_memset0_def a ..
      moreover have "?cnt = L" using True by simp
      ultimately have "load_sectors D (Suc n) it blk off t (int L) s = Inr (s\<lparr>ram := r2\<rparr>)"
        using False True g r1 r2 by (simp add: Let_def)
      then show ?thesis using b1 b2 w1 w2 True False by (intro exI [of _ r2]) auto
    next
      case big: False
      have n: "Suc it + n = 8" using Suc.prems by simp
      have sel: "ram (s\<lparr>ram := r1\<rparr>) = r1" "sdc (s\<lparr>ram := r1\<rparr>) = sdc s" "s\<lparr>ram := r1\<rparr>\<lparr>ram := r\<rparr> = s\<lparr>ram := r\<rparr>" for r by simp_all
      obtain r where r: "load_sectors D n (Suc it) blk off t (int (L - 512)) (s\<lparr>ram := r1\<rparr>) = Inr (s\<lparr>ram := r\<rparr>)"
        "\<forall>i<4096. ram_byte r (t + of_nat i) =
           (if i < 512 * Suc it then ram_byte r1 (t + of_nat i)
            else if i < 512 * Suc it + (L - 512) then card_from D (sdc s) blk (unat off + i)
            else if (L - 512) mod 512 = 0 then ram_byte r1 (t + of_nat i) else 0)"
        "\<forall>u j. kpage u \<longrightarrow> u \<noteq> t \<longrightarrow> unat j < 512 \<longrightarrow> r (entry_at u j) = r1 (entry_at u j)"
        using Suc.IH [OF n, of "L - 512" "s\<lparr>ram := r1\<rparr>"] unfolding sel by blast
      have c: "?cnt = 512" using big by simp
      have "load_sectors D (Suc n) it blk off t (int L) s = Inr (s\<lparr>ram := r\<rparr>)"
        using False big g r1 r(1) by (simp add: Let_def of_nat_diff)
      moreover have "(L - 512) mod 512 = L mod 512" using big by (simp add: le_mod_geq)
      ultimately show ?thesis using b1 r(2,3) w1 big unfolding c by (intro exI [of _ r]) auto
    qed
  qed
qed

text \<open>
  What page \<open>k\<close> of a program of \<open>F\<close> bytes holds.  Behind the program it is zero, except when \<open>F\<close> is a
  multiple of the sector size and the program ends in this page.
\<close>

definition loaded :: "'d sdcard \<Rightarrow> 'd \<Rightarrow> u32 \<Rightarrow> nat \<Rightarrow> nat \<Rightarrow> nat \<Rightarrow> u64 \<Rightarrow> (u64 \<Rightarrow> u64) \<Rightarrow> bool" where
  "loaded D d blk off F k t r \<longleftrightarrow>
     (\<forall>i<4096. ram_byte r (t + of_nat i) = card_from D d blk (off + (4096 * k + i)) \<or> F \<le> 4096 * k + i) \<and>
     (\<forall>i<4096. ram_byte r (t + of_nat i) = 0 \<or> 4096 * k + i < F \<or> F mod 512 = 0 \<and> 4096 * k < F)"

lemma loaded_cong:
  assumes "kpage t" and "\<And>j. unat j < 512 \<Longrightarrow> r' (entry_at t j) = r (entry_at t j)" and "loaded D d blk off F k t r"
  shows "loaded D d blk off F k t r'"
proof -
  have "ram_byte r' (t + of_nat i) = ram_byte r (t + of_nat i)" if "i < 4096" for i
    using that by (intro ram_byte_page [OF assms(1)] assms(2)) (simp_all add: unat_of_nat)
  then show ?thesis using assms(3) by (simp add: loaded_def)
qed

lemma fill_page:
  assumes t: "kpage t" and off: "unat off < 512" and F: "F < 2 ^ 63" and k: "4096 * k < 2 ^ 63"
    and cur: "4096 * k < F \<Longrightarrow> cur = blk + of_nat (8 * k)"
  shows "\<exists>r. (if of_nat (4096 * k) < (of_nat F :: u64) then load_sectors D 8 0 cur off t (sint (of_nat F - of_nat (4096 * k) :: u64)) s
      else Inr (clear_pgdir t s)) = Inr (s\<lparr>ram := r\<rparr>) \<and> loaded D (sdc s) blk (unat off) F k t r \<and>
    (\<forall>u j. kpage u \<longrightarrow> u \<noteq> t \<longrightarrow> unat j < 512 \<longrightarrow> r (entry_at u j) = ram s (entry_at u j))"
proof -
  have u: "unat (of_nat F :: u64) = F" "unat (of_nat (4096 * k) :: u64) = 4096 * k"
    by (rule unat_of_nat_less, use F k in simp)+
  have lt: "of_nat (4096 * k) < (of_nat F :: u64) \<longleftrightarrow> 4096 * k < F" unfolding word_less_nat_alt u ..
  show ?thesis
  proof (cases "4096 * k < F")
    case True
    let ?L = "F - 4096 * k"
    have "of_nat F - of_nat (4096 * k) = (of_nat ?L :: u64)" using True by (simp add: of_nat_diff)
    moreover have "sint (of_nat ?L :: u64) = int ?L" using F signed_take_bit_int_eq_self [of 63 "int ?L"] by (simp add: signed_of_nat)
    ultimately have sl: "sint (of_nat F - of_nat (4096 * k) :: u64) = int ?L" by simp
    have z: "(0 :: nat) + 8 = 8" by simp
    obtain r where r: "load_sectors D 8 0 cur off t (int ?L) s = Inr (s\<lparr>ram := r\<rparr>)"
      "\<forall>i<4096. ram_byte r (t + of_nat i) = (if i < 512 * 0 then ram_byte (ram s) (t + of_nat i)
         else if i < 512 * 0 + ?L then card_from D (sdc s) cur (unat off + i)
         else if ?L mod 512 = 0 then ram_byte (ram s) (t + of_nat i) else 0)"
      "\<forall>u j. kpage u \<longrightarrow> u \<noteq> t \<longrightarrow> unat j < 512 \<longrightarrow> r (entry_at u j) = ram s (entry_at u j)"
      using load_sectors_ok [OF t off z, of D cur ?L s] by blast
    have c: "card_from D (sdc s) cur x = card_from D (sdc s) blk (4096 * k + x)" for x
      using card_from_shift [of D "sdc s" blk "8 * k" x] cur [OF True] by simp
    have "F = ?L + 512 * (8 * k)" using True by simp
    then have m: "F mod 512 = ?L mod 512" by (metis mod_mult_self2)
    have e: "i < ?L \<longleftrightarrow> 4096 * k + i < F" "unat off + (4096 * k + i) = 4096 * k + (unat off + i)" for i using True by auto
    have "loaded D (sdc s) blk (unat off) F k t r"
      unfolding loaded_def e(2) c [symmetric] m using r(2) e(1) True by simp
    then show ?thesis using r(1,3) lt True sl by (intro exI [of _ r]) simp
  next
    case False
    obtain r where r: "clear_pgdir t s = s\<lparr>ram := r\<rparr>" using clear_pgdir_frame by blast
    have "r (entry_at t j) = 0" if "unat j < 512" for j using clear_pgdir_ram(1) [OF t that, of s] by (simp add: r)
    then have "ram_byte r (t + of_nat i) = 0" if "i < 4096" for i
      using that byte_word [OF t that] by (simp add: ram_byte_def unat_of_nat)
    moreover have "r (entry_at u j) = ram s (entry_at u j)" if "kpage u" "u \<noteq> t" "unat j < 512" for u j
      using clear_pgdir_ram(2) [OF t that, of s] by (simp add: r)
    ultimately show ?thesis using lt False r by (intro exI [of _ r]) (simp add: loaded_def)
  qed
qed

section \<open>All pages\<close>

text \<open>A page that is mapped, written and no table keeps the tables in order.\<close>

lemma write_fresh:
  assumes re: "reaches T s s1" and tr: "tree (ram s1) T t" and t: "kpage t" "unat (kernMemCurr s) \<le> unat t"
    and r: "\<And>u j. kpage u \<Longrightarrow> u \<noteq> t \<Longrightarrow> unat j < 512 \<Longrightarrow> r (entry_at u j) = ram s1 (entry_at u j)"
  shows "reaches T s (s1\<lparr>ram := r\<rparr>)" and "xlate r T w = xlate (ram s1) T w" and "tab_of r T x \<noteq> Some t"
proof -
  have same: "r (entry_at u j) = ram s1 (entry_at u j)" if "tab_of (ram s1) T x = Some u" "unat j < 512" for x u j
    using tree_kpage [OF tr that(1)] that(2) by (intro r) simp_all
  have tab: "tab_of r T x = tab_of (ram s1) T x" for x by (rule tab_same(1)) (rule same)
  show "xlate r T w = xlate (ram s1) T w" by (rule tab_same(2)) (rule same)
  show "tab_of r T x \<noteq> Some t" unfolding tab using tree_kpage [OF tr] by blast
  have old: "r (entry_at u j) = ram s (entry_at u j)"
    if "kpage u" "unat j < 512" "unat u + 4096 \<le> unat (kernMemCurr s)" "\<forall>x. tab_of (ram s) T x \<noteq> Some u" for u j
  proof -
    have "u \<noteq> t" using that(3) t(2) by auto
    then have "r (entry_at u j) = ram s1 (entry_at u j)" using that by (intro r) simp_all
    then show ?thesis using reachesD [OF re] that by auto
  qed
  have "tree r T (kernMemCurr s1)" using re unfolding reaches_def tree_def tab by blast
  then show "reaches T s (s1\<lparr>ram := r\<rparr>)"
    using re old unfolding reaches_def tab by (simp add: same_proc_def tab)
qed

lemma load_pages_Cons:
  "load_pages D (k # ks) cur off F va (Some p) s =
     bindE (alloc_page_helper D (va + of_nat (4096 * k)) p UNSWAPABLE s) (\<lambda>(t, s).
       bindE (if of_nat (4096 * k) < F then load_sectors D 8 0 cur off t (sint (F - of_nat (4096 * k))) s else Inr (clear_pgdir t s))
         (load_pages D ks (if of_nat (4096 * k) < F then cur + 8 else cur) off F va (Some p)))"
  by (simp add: Let_def if_distrib [of "\<lambda>x. bindE x f" for f] cong: if_cong)

definition page_va :: "u64 \<Rightarrow> nat \<Rightarrow> u64" where
  "page_va va k = va + of_nat (4096 * k)"

text \<open>Page \<open>k\<close> of the program is in a fresh page of memory that is mapped at its address.\<close>

definition in_place :: "'d sdcard \<Rightarrow> u32 \<Rightarrow> nat \<Rightarrow> nat \<Rightarrow> u64 \<Rightarrow> u64 \<Rightarrow> nat \<Rightarrow> ('d, 's) ms \<Rightarrow> ('d, 's) ms \<Rightarrow> bool" where
  "in_place D blk off F T va k s s' \<longleftrightarrow> (\<exists>t. kpage t \<and> unat (kernMemCurr s) \<le> unat t \<and> unat t + 4096 \<le> unat (kernMemCurr s') \<and>
     (\<forall>x. tab_of (ram s') T x \<noteq> Some t) \<and> xlate (ram s') T (page_va va k) = Some (kva2pa t) \<and> loaded D (sdc s) blk off F k t (ram s'))"

lemma load_page_ok:
  fixes s :: "('d, 's) ms"
  assumes tr: "tree (ram s) T (kernMemCurr s)" and T: "T = pgdir (pcb s p)" and room: "room (Suc (Suc (Suc n))) s p"
    and va: "unat (GetVPN2 (page_va va k)) < 256" and new: "xlate (ram s) T (page_va va k) = None"
    and off: "unat off < 512" and F: "F < 2 ^ 63" and k: "4096 * k < 2 ^ 63"
    and cur: "4096 * k < F \<Longrightarrow> cur = blk + of_nat (8 * k)"
  shows "\<exists>s'. load_pages D (k # ks) cur off (of_nat F) va (Some p) s =
      load_pages D ks (if of_nat (4096 * k) < (of_nat F :: u64) then cur + 8 else cur) off (of_nat F) va (Some p) s' \<and>
    reaches T s s' \<and> room n s' p \<and> in_place D blk (unat off) F T va k s s' \<and>
    (\<forall>w. vpn w \<noteq> vpn (page_va va k) \<longrightarrow> xlate (ram s') T w = xlate (ram s) T w)"
proof -
  obtain t s1 where a: "alloc_page_helper D (page_va va k) p UNSWAPABLE s = Inr (t, s1)" "reaches T s s1" "room n s1 p"
    "\<And>w. xlate (ram s1) T w = (if vpn w = vpn (page_va va k) then Some (kva2pa t) else xlate (ram s) T w)"
    and t: "unat (kernMemCurr s) \<le> unat t" "unat t + 4096 \<le> unat (kernMemCurr s1)" "kpage t" "tree (ram s1) T t"
    using alloc_page_helper_grow [OF tr T room va, of D UNSWAPABLE] unfolding new by auto
  have d: "sdc s1 = sdc s" using a(2) by (simp add: reaches_def same_proc_def)
  obtain r where r: "(if of_nat (4096 * k) < (of_nat F :: u64) then load_sectors D 8 0 cur off t (sint (of_nat F - of_nat (4096 * k) :: u64)) s1
      else Inr (clear_pgdir t s1)) = Inr (s1\<lparr>ram := r\<rparr>)" "loaded D (sdc s) blk (unat off) F k t r"
    "\<And>u j. kpage u \<Longrightarrow> u \<noteq> t \<Longrightarrow> unat j < 512 \<Longrightarrow> r (entry_at u j) = ram s1 (entry_at u j)"
    using fill_page [OF t(3) off F k cur, of D s1] unfolding d by blast
  note w = write_fresh [OF a(2) t(4,3,1) r(3)]
  have "in_place D blk (unat off) F T va k s (s1\<lparr>ram := r\<rparr>)"
    unfolding in_place_def using t r(2) w(2,3) a(4) by (intro exI [of _ t]) simp
  moreover have "room n (s1\<lparr>ram := r\<rparr>) p" using a(3) by (simp add: room_def)
  moreover have "xlate r T w = xlate (ram s) T w" if "vpn w \<noteq> vpn (page_va va k)" for w using w(2) a(4) that by simp
  ultimately show ?thesis unfolding load_pages_Cons page_va_def [symmetric] a(1)
    using r(1) w(1) by (intro exI [of _ "s1\<lparr>ram := r\<rparr>"]) simp
qed

lemma in_place_reaches:
  assumes "in_place D blk off F T va k s s1" and "reaches T s1 s2" and "xlate (ram s2) T (page_va va k) = xlate (ram s1) T (page_va va k)"
  shows "in_place D blk off F T va k s s2"
proof -
  obtain t where t: "kpage t" "unat (kernMemCurr s) \<le> unat t" "unat t + 4096 \<le> unat (kernMemCurr s1)" "\<And>x. tab_of (ram s1) T x \<noteq> Some t"
    "xlate (ram s1) T (page_va va k) = Some (kva2pa t)" "loaded D (sdc s) blk off F k t (ram s1)"
    using assms(1) by (auto simp: in_place_def)
  have "ram s2 (entry_at t j) = ram s1 (entry_at t j)" if "unat j < 512" for j
    using reachesD [OF assms(2)] t(1,3,4) that by blast
  then have "loaded D (sdc s) blk off F k t (ram s2)" using loaded_cong [OF t(1) _ t(6)] by blast
  moreover have "tab_of (ram s2) T x \<noteq> Some t" for x
  proof
    assume "tab_of (ram s2) T x = Some t"
    then have "tab_of (ram s1) T x = Some t \<or> unat (kernMemCurr s1) \<le> unat t" using reachesD [OF assms(2)] by blast
    then show False using t(3,4) by auto
  qed
  moreover have "unat (kernMemCurr s1) \<le> unat (kernMemCurr s2)" using assms(2) by (simp add: reaches_def)
  ultimately show ?thesis unfolding in_place_def using t assms(3) by (intro exI [of _ t]) auto
qed

lemma in_place_before:
  assumes "in_place D blk off F T va k s1 s2" and "reaches T s s1"
  shows "in_place D blk off F T va k s s2"
proof -
  have "unat (kernMemCurr s) \<le> unat (kernMemCurr s1)" "sdc s1 = sdc s" using assms(2) by (simp_all add: reaches_def same_proc_def)
  then show ?thesis using assms(1) unfolding in_place_def by (auto intro: le_trans)
qed

lemma load_pages_ok:
  fixes s :: "('d, 's) ms"
  assumes off: "unat off < 512" and F: "F < 2 ^ 63" and n: "4096 * n < 2 ^ 63"
    and va: "\<And>i. i < n \<Longrightarrow> unat (GetVPN2 (page_va va i)) < 256"
    and inj: "\<And>i j. i < n \<Longrightarrow> j < n \<Longrightarrow> vpn (page_va va i) = vpn (page_va va j) \<Longrightarrow> i = j"
  shows "k + m = n \<Longrightarrow> tree (ram s) T (kernMemCurr s) \<Longrightarrow> T = pgdir (pcb s p) \<Longrightarrow> room (3 * m) s p \<Longrightarrow>
    (\<And>i. k \<le> i \<Longrightarrow> i < n \<Longrightarrow> xlate (ram s) T (page_va va i) = None) \<Longrightarrow> (4096 * k < F \<Longrightarrow> cur = blk + of_nat (8 * k)) \<Longrightarrow>
    \<exists>s'. load_pages D [k..<n] cur off (of_nat F) va (Some p) s = Inr s' \<and> reaches T s s' \<and>
      (\<forall>i. k \<le> i \<longrightarrow> i < n \<longrightarrow> in_place D blk (unat off) F T va i s s') \<and>
      (\<forall>w. (\<forall>i. k \<le> i \<longrightarrow> i < n \<longrightarrow> vpn w \<noteq> vpn (page_va va i)) \<longrightarrow> xlate (ram s') T w = xlate (ram s) T w)"
proof (induction m arbitrary: k cur s)
  case 0
  then show ?case by (simp add: reaches_refl)
next
  case (Suc m)
  have kn: "k < n" "4096 * k < 2 ^ 63" using Suc.prems(1) n by simp_all
  have room: "room (Suc (Suc (Suc (3 * m)))) s p" by (rule room_less [OF Suc.prems(4)]) simp
  let ?cur = "if of_nat (4096 * k) < (of_nat F :: u64) then cur + 8 else cur"
  obtain s1 where s1: "load_pages D (k # [Suc k..<n]) cur off (of_nat F) va (Some p) s = load_pages D [Suc k..<n] ?cur off (of_nat F) va (Some p) s1"
    "reaches T s s1" "room (3 * m) s1 p" "in_place D blk (unat off) F T va k s s1"
    "\<And>w. vpn w \<noteq> vpn (page_va va k) \<Longrightarrow> xlate (ram s1) T w = xlate (ram s) T w"
    using load_page_ok [OF Suc.prems(2,3) room va [OF kn(1)] Suc.prems(5) [OF order_refl kn(1)] off F kn(2) Suc.prems(6), of D "[Suc k..<n]"] by blast
  have other: "vpn (page_va va i) \<noteq> vpn (page_va va k)" if "Suc k \<le> i" "i < n" for i using inj [OF that(2) kn(1)] that(1) by auto
  have tr1: "tree (ram s1) T (kernMemCurr s1)" "T = pgdir (pcb s1 p)"
    using s1(2) Suc.prems(3) same_proc_fields(1) [of s s1 p] by (auto simp: reaches_def)
  have cur1: "?cur = blk + of_nat (8 * Suc k)" if "4096 * Suc k < F"
  proof -
    have "unat (of_nat F :: u64) = F" "unat (of_nat (4096 * k) :: u64) = 4096 * k" by (rule unat_of_nat_less, use F kn in simp)+
    then have "of_nat (4096 * k) < (of_nat F :: u64)" using that unfolding word_less_nat_alt by simp
    then show ?thesis using Suc.prems(6) that by simp
  qed
  have un: "xlate (ram s1) T (page_va va i) = None" if "Suc k \<le> i" "i < n" for i
    using s1(5) [OF other [OF that]] Suc.prems(5) that by simp
  have km: "Suc k + m = n" using Suc.prems(1) by simp
  obtain s2 where s2: "load_pages D [Suc k..<n] ?cur off (of_nat F) va (Some p) s1 = Inr s2" "reaches T s1 s2"
    "\<And>i. Suc k \<le> i \<Longrightarrow> i < n \<Longrightarrow> in_place D blk (unat off) F T va i s1 s2"
    "\<And>w. (\<forall>i. Suc k \<le> i \<longrightarrow> i < n \<longrightarrow> vpn w \<noteq> vpn (page_va va i)) \<Longrightarrow> xlate (ram s2) T w = xlate (ram s1) T w"
    using Suc.IH [OF km tr1 s1(3) un cur1] by blast
  have "in_place D blk (unat off) F T va k s s2"
    by (rule in_place_reaches [OF s1(4) s2(2)], rule s2(4)) (use other in metis)
  then have "in_place D blk (unat off) F T va i s s2" if "k \<le> i" "i < n" for i
    using in_place_before [OF s2(3) s1(2)] that by (cases "i = k") auto
  moreover have "[k..<n] = k # [Suc k..<n]" using kn(1) by (rule upt_conv_Cons)
  moreover have "xlate (ram s2) T w = xlate (ram s) T w" if "\<forall>i. k \<le> i \<longrightarrow> i < n \<longrightarrow> vpn w \<noteq> vpn (page_va va i)" for w
    using s2(4) s1(5) that kn(1) by (metis Suc_leD order_refl)
  ultimately show ?case using s1(1) s2(1) reaches_trans [OF s1(2) s2(2)] by (intro exI [of _ s2]) simp
qed

section \<open>User addresses\<close>

lemma unat_vpn3: "unat (GetVPN0 va) = unat va div 4096 mod 512" "unat (GetVPN1 va) = unat va div 4096 div 512 mod 512"
  "unat (GetVPN2 va) = unat va div 4096 div 512 div 512 mod 512"
  unfolding GetVPN2_def GetVPN1_def GetVPN0_def VPN_MASK_mask take_bit_eq_mask [symmetric]
  by (simp_all add: take_bit_eq_mod unat_mod drop_bit_eq_div unat_div div_mult2_eq [symmetric])

lemma vpn_eq_iff:
  assumes "unat v < 2 ^ 39" and "unat w < 2 ^ 39"
  shows "vpn v = vpn w \<longleftrightarrow> unat v div 4096 = unat w div 4096"
proof
  assume "vpn v = vpn w"
  then have e: "unat v div 4096 mod 512 = unat w div 4096 mod 512"
    "unat v div 4096 div 512 mod 512 = unat w div 4096 div 512 mod 512"
    "unat v div 4096 div 512 div 512 mod 512 = unat w div 4096 div 512 div 512 mod 512"
    unfolding unat_vpn3 [symmetric] by (simp_all add: vpn_def)
  have "unat v div 4096 div 512 div 512 < 512" "unat w div 4096 div 512 div 512 < 512"
    using assms by (simp_all add: div_mult2_eq [symmetric] less_mult_imp_div_less)
  then show "unat v div 4096 = unat w div 4096" using e by (metis mod_less mult_div_mod_eq)
qed (simp add: vpn_def word_unat_eq_iff unat_vpn3)

text \<open>The byte that a process finds at a user address.\<close>

definition user_byte :: "(u64 \<Rightarrow> u64) \<Rightarrow> u64 \<Rightarrow> u64 \<Rightarrow> u8 option" where
  "user_byte r T va = map_option (\<lambda>pa. ram_byte r (pa2kva pa + (va AND 0xfff))) (xlate r T va)"

lemma page_addr:
  assumes va: "4096 dvd unat va" "unat va + 4096 * n \<le> 2 ^ 38" and k: "k < n" and i: "i < 4096"
  shows "unat (page_va va k + of_nat i) = unat va + 4096 * k + i" "vpn (page_va va k + of_nat i) = vpn (page_va va k)"
    "(page_va va k + of_nat i) AND 0xfff = of_nat i" "unat (GetVPN2 (page_va va k)) < 256"
proof -
  have le: "4096 * Suc k \<le> 4096 * n" using k by (simp only: mult_le_mono2 Suc_leI)
  have u: "unat (page_va va k + of_nat j) = unat va + 4096 * k + j" if "j < 4096" for j
  proof -
    have e: "page_va va k + of_nat j = of_nat (unat va + 4096 * k + j)" by (simp add: page_va_def)
    show ?thesis unfolding e by (rule unat_of_nat_less) (use va(2) le that in simp)
  qed
  then show "unat (page_va va k + of_nat i) = unat va + 4096 * k + i" using i by blast
  obtain q where q: "unat va = 4096 * q" using va(1) by (rule dvdE)
  have d: "(4096 * q + 4096 * k + j) div 4096 = q + k" "(4096 * q + 4096 * k + j) mod 4096 = j" if "j < 4096" for j
    using that div_mult_self4 [of 4096 "q + k" j] mod_mult_self4 [of 4096 "q + k" j] by (simp_all add: algebra_simps)
  have u0: "unat (page_va va k) = unat va + 4096 * k" using u [of 0] by simp
  have b: "unat (page_va va k + of_nat j) < 2 ^ 38" if "j < 4096" for j using u [OF that] va(2) le that by simp
  show "vpn (page_va va k + of_nat i) = vpn (page_va va k)"
    using vpn_eq_iff [of "page_va va k + of_nat i" "page_va va k"] b [OF i] b [of 0] u [OF i] u0 d [OF i] d [of 0] q by simp
  have "(page_va va k + of_nat i) AND 0xfff = take_bit 12 (page_va va k + of_nat i)" by (simp add: take_bit_eq_mask mask_eq_exp_minus_1)
  moreover have "unat (take_bit 12 (page_va va k + of_nat i)) = i" by (simp add: take_bit_eq_mod unat_mod u [OF i] q d [OF i])
  ultimately show "(page_va va k + of_nat i) AND 0xfff = of_nat i" by (metis of_nat_unat ucast_id)
  have "unat (page_va va k) < 2 ^ 38" using b [of 0] by simp
  then have "unat (page_va va k) div 4096 div 512 div 512 < 256" by (simp add: div_mult2_eq [symmetric] less_mult_imp_div_less)
  then show "unat (GetVPN2 (page_va va k)) < 256" unfolding unat_vpn3 by simp
qed

section \<open>A program\<close>

lemma task_at_addr:
  assumes "task_at t name b e" and "e < 2 ^ 25" and "b \<le> e"
  shows "ucast (begin_block t) = (of_nat (b div 512) :: u32)" "unat (begin_offset t) = b mod 512"
    "ucast (push_bit 9 (ucast (end_block t)) + end_offset t) - ucast (push_bit 9 (ucast (begin_block t)) + begin_offset t) = (of_nat (e - b) :: u64)"
proof -
  have b16: "b div 512 < 2 ^ 16" "e div 512 < 2 ^ 16" using assms(2,3) by (simp_all add: less_mult_imp_div_less)
  have bb: "ucast (begin_block t) = (of_nat (b div 512) :: u32)" "ucast (end_block t) = (of_nat (e div 512) :: u32)"
    using assms(1) b16 by (simp_all add: task_at_def ucast_of_nat)
  then show "ucast (begin_block t) = (of_nat (b div 512) :: u32)" by simp
  have bo: "begin_offset t = of_nat (b mod 512)" and eo: "end_offset t = of_nat e - push_bit 9 (ucast (end_block t))"
    using assms(1) by (simp_all add: task_at_def)
  have "b mod 512 < 512" by simp
  then show "unat (begin_offset t) = b mod 512" unfolding bo by (intro unat_of_nat_less) simp
  have "push_bit 9 (ucast (begin_block t)) + begin_offset t = (of_nat (512 * (b div 512) + b mod 512) :: u32)"
    unfolding bb bo push9 by (simp only: of_nat_add)
  then have bs: "push_bit 9 (ucast (begin_block t)) + begin_offset t = (of_nat b :: u32)" by simp
  have es: "push_bit 9 (ucast (end_block t)) + end_offset t = (of_nat e :: u32)" unfolding eo by simp
  have u: "(ucast (of_nat b :: u32) :: u64) = of_nat b" "(ucast (of_nat e :: u32) :: u64) = of_nat e"
    by (rule ucast_of_nat, use assms(2,3) in simp)+
  show "ucast (push_bit 9 (ucast (end_block t)) + end_offset t) - ucast (push_bit 9 (ucast (begin_block t)) + begin_offset t) = (of_nat (e - b) :: u64)"
    unfolding bs es u using assms(3) by (simp add: of_nat_diff)
qed

lemma card_from_image:
  assumes "on_card D d bytes" and "b + x < length bytes"
  shows "card_from D d (of_nat (b div 512)) (b mod 512 + x) = bytes ! (b + x)"
proof -
  have "card_from D d 0 (512 * (b div 512) + (b mod 512 + x)) = bytes ! (b + x)"
    using assms by (simp add: card_from_def on_card_def flip: add.assoc)
  then show ?thesis unfolding card_from_shift [of D d 0, symmetric] by simp
qed

lemma find_name:
  assumes "\<And>j. j < length names \<Longrightarrow> task_name (tasks j) = names ! j" and "distinct names" and "i < length names"
    and "length names \<le> TASK_MAXNUM"
  shows "find (\<lambda>j. task_name (tasks j) = names ! i) [0..<TASK_MAXNUM] = Some i"
  using assms by (simp add: find_upt_Some nth_eq_iff_index_eq)

text \<open>
  The process finds \<open>code\<close>, as far as its \<open>n\<close> pages reach, at \<open>va\<close>, and zeros behind it, except perhaps in the rest of
  the last page of a program whose length is a multiple of 512.
\<close>

definition code_at :: "(u64 \<Rightarrow> u64) \<Rightarrow> u64 \<Rightarrow> u64 \<Rightarrow> u8 list \<Rightarrow> nat \<Rightarrow> bool" where
  "code_at r T va code n \<longleftrightarrow> (\<forall>j<4096 * n.
     (j < length code \<longrightarrow> user_byte r T (va + of_nat j) = Some (code ! j)) \<and>
     (length code \<le> j \<longrightarrow> length code mod 512 \<noteq> 0 \<or> length code \<le> 4096 * (j div 4096) \<longrightarrow> user_byte r T (va + of_nat j) = Some 0))"

lemma load_task_img_run:
  fixes s :: "('d, 's) ms"
  assumes find: "find (\<lambda>j. task_name (tasks j) = name) [0..<TASK_MAXNUM] = Some i"
    and at: "task_at (tasks i) name b e" "b \<le> e" "e < 2 ^ 25"
  defines "va \<equiv> entry_addr (tasks i)" and "n \<equiv> (unat (memsz (tasks i)) + 4095) div 4096"
  assumes T: "tree (ram s) T (kernMemCurr s)" "T = pgdir (pcb s p)" "room (3 * n) s p"
    and va: "4096 dvd unat va" "unat va + 4096 * n \<le> 2 ^ 38" and new: "\<forall>k<n. xlate (ram s) T (page_va va k) = None"
  shows "\<exists>s'. load_task_img D tasks name (Some p) s = Inr (va, s') \<and> reaches T s s' \<and>
    (\<forall>k<n. in_place D (of_nat (b div 512)) (b mod 512) (e - b) T va k s s') \<and>
    (\<forall>w. (\<forall>k<n. vpn w \<noteq> vpn (page_va va k)) \<longrightarrow> xlate (ram s') T w = xlate (ram s) T w)"
proof -
  note addr = task_at_addr [OF at(1,3,2)]
  have off: "unat (begin_offset (tasks i)) < 512" unfolding addr(2) by simp
  have F: "e - b < 2 ^ 63" using at(3) by simp
  have n: "4096 * n < 2 ^ 63" using va(2) by simp
  note pa = page_addr [OF va]
  have u0: "unat (page_va va k) = unat va + 4096 * k" if "k < n" for k using pa(1) [OF that, of 0] by simp
  have inj: "k = l" if "k < n" "l < n" "vpn (page_va va k) = vpn (page_va va l)" for k l
  proof -
    have b: "unat (page_va va m) < 2 ^ 39" if "m < n" for m
    proof -
      have "4096 * m < 4096 * n" using that by simp
      then show ?thesis unfolding u0 [OF that] using va(2) by simp
    qed
    obtain q where q: "unat va = 4096 * q" using va(1) by (rule dvdE)
    have "(4096 * q + 4096 * m) div 4096 = q + m" for m by simp
    then show ?thesis using that(3) unfolding vpn_eq_iff [OF b [OF that(1)] b [OF that(2)]] u0 [OF that(1)] u0 [OF that(2)] q by simp
  qed
  have va': "unat (GetVPN2 (page_va va k)) < 256" if "k < n" for k using pa(4) [OF that, of 0] by simp
  have new': "xlate (ram s) T (page_va va k) = None" if "0 \<le> k" "k < n" for k using new that by blast
  have cur: "4096 * 0 < e - b \<Longrightarrow> of_nat (b div 512) = (of_nat (b div 512) :: u32) + of_nat (8 * 0)" by simp
  obtain s' where s': "load_pages D [0..<n] (of_nat (b div 512)) (begin_offset (tasks i)) (of_nat (e - b)) va (Some p) s = Inr s'"
    "reaches T s s'" "\<And>k. k < n \<Longrightarrow> in_place D (of_nat (b div 512)) (b mod 512) (e - b) T va k s s'"
    "\<forall>w. (\<forall>k. 0 \<le> k \<longrightarrow> k < n \<longrightarrow> vpn w \<noteq> vpn (page_va va k)) \<longrightarrow> xlate (ram s') T w = xlate (ram s) T w"
    using load_pages_ok [OF off F n va' inj add_0 T new' cur, of D] unfolding addr(2) by blast
  have "load_task_img D tasks name (Some p) s = Inr (va, s')"
    unfolding load_task_img_def find Let_def option.case addr(3) using s'(1) addr(1) by (simp add: va_def n_def)
  then show ?thesis using s'(2-4) by (intro exI [of _ s']) simp
qed

lemma in_place_code:
  assumes "\<And>k. k < n \<Longrightarrow> in_place D (of_nat (b div 512)) (b mod 512) (length code) T va k s s'"
    and va: "4096 dvd unat va" "unat va + 4096 * n \<le> 2 ^ 38"
    and card: "on_card D (sdc s) bytes" and code: "code = take (e - b) (drop b bytes)" "e \<le> length bytes"
  shows "code_at (ram s') T va code n"
  unfolding code_at_def
proof (intro allI impI)
  note pa = page_addr [OF va]
  fix j
  assume j: "j < 4096 * n"
  let ?k = "j div 4096" and ?i = "j mod 4096"
  have k: "?k < n" "?i < 4096" using j by (simp_all add: less_mult_imp_div_less mult.commute)
  have e: "4096 * ?k + ?i = j" by simp
  have ad: "va + of_nat j = page_va va ?k + of_nat ?i" unfolding page_va_def add.assoc of_nat_add [symmetric] e ..
  obtain t where t: "xlate (ram s') T (page_va va ?k) = Some (kva2pa t)" "loaded D (sdc s) (of_nat (b div 512)) (b mod 512) (length code) ?k t (ram s')"
    using assms(1) [OF k(1)] by (auto simp: in_place_def)
  have u: "user_byte (ram s') T (va + of_nat j) = Some (ram_byte (ram s') (t + of_nat ?i))"
    unfolding user_byte_def ad pa(3) [OF k] xlate_vpn [OF pa(2) [OF k]] t(1) by simp
  have l: "ram_byte (ram s') (t + of_nat ?i) = card_from D (sdc s) (of_nat (b div 512)) (b mod 512 + j) \<or> length code \<le> j"
    "ram_byte (ram s') (t + of_nat ?i) = 0 \<or> j < length code \<or> length code mod 512 = 0 \<and> 4096 * ?k < length code"
    using t(2) [unfolded loaded_def, THEN conjunct1, rule_format, OF k(2)] t(2) [unfolded loaded_def, THEN conjunct2, rule_format, OF k(2)]
    unfolding e by blast+
  have c: "card_from D (sdc s) (of_nat (b div 512)) (b mod 512 + j) = code ! j" if "j < length code"
    using card_from_image [OF card, of b j] that code by simp
  show "(j < length code \<longrightarrow> user_byte (ram s') T (va + of_nat j) = Some (code ! j)) \<and>
     (length code \<le> j \<longrightarrow> length code mod 512 \<noteq> 0 \<or> length code \<le> 4096 * ?k \<longrightarrow> user_byte (ram s') T (va + of_nat j) = Some 0)"
    unfolding u using l c by auto
qed

lemma load_task_img_ok:
  fixes s :: "('d, 's) ms"
  assumes find: "find (\<lambda>j. task_name (tasks j) = name) [0..<TASK_MAXNUM] = Some i"
    and at: "task_at (tasks i) name b e" "b \<le> e" "e < 2 ^ 25" "e \<le> length bytes" and card: "on_card D (sdc s) bytes"
  defines "va \<equiv> entry_addr (tasks i)" and "n \<equiv> (unat (memsz (tasks i)) + 4095) div 4096"
  assumes T: "tree (ram s) T (kernMemCurr s)" "T = pgdir (pcb s p)" "room (3 * n) s p"
    and va: "4096 dvd unat va" "unat va + 4096 * n \<le> 2 ^ 38" and new: "\<forall>k<n. xlate (ram s) T (page_va va k) = None"
  shows "\<exists>s'. load_task_img D tasks name (Some p) s = Inr (va, s') \<and> reaches T s s' \<and> code_at (ram s') T va (take (e - b) (drop b bytes)) n"
proof -
  have len: "length (take (e - b) (drop b bytes)) = e - b" using at(2,4) by simp
  obtain s' where s': "load_task_img D tasks name (Some p) s = Inr (va, s')" "reaches T s s'"
    "\<And>k. k < n \<Longrightarrow> in_place D (of_nat (b div 512)) (b mod 512) (e - b) T va k s s'"
    using load_task_img_run [OF find at(1-3), folded va_def n_def, OF T va new] by blast
  have "code_at (ram s') T va (take (e - b) (drop b bytes)) n"
    using s'(3) by (intro in_place_code [OF _ va card refl at(4)]) (simp only: len)
  then show ?thesis using s'(1,2) by blast
qed

section \<open>Properties\<close>

text \<open>The segment of a program with one segment to be loaded, as its file has it.\<close>

lemma one_segment:
  assumes seg: "elf_segments f = [seg]" and "unat (p_offset seg) + unat (p_filesz seg) \<le> length f"
    and "p_filesz seg \<le> p_memsz seg" and "0 < p_memsz seg" and "p_memsz seg < 2 ^ 32" and t: "records t f"
  shows "program_bytes f = take (unat (p_filesz seg)) (drop (unat (p_offset seg)) f)" and "entry_addr t = p_vaddr seg"
    and "unat (memsz t) = unat (p_memsz seg)" and "unat (p_filesz seg) \<le> 4096 * ((unat (p_memsz seg) + 4095) div 4096)"
proof -
  have "p_type seg = PT_LOAD"
  proof -
    have "seg \<in> set (elf_segments f)" using seg by simp
    then show ?thesis by (auto simp: elf_segments_def load_headers_def split: sum.splits if_splits)
  qed
  then have "program_bytes f = map (\<lambda>i. fgetc f (unat (p_offset seg) + i)) [0..<unat (p_filesz seg)]"
    using assms(4) by (simp add: program_bytes_segments seg seg_bytes_def)
  also have "\<dots> = take (unat (p_filesz seg)) (drop (unat (p_offset seg)) f)"
    using assms(2) by (intro nth_equalityI) (simp_all add: fgetc_def)
  finally show "program_bytes f = take (unat (p_filesz seg)) (drop (unat (p_offset seg)) f)" .
  show "entry_addr t = p_vaddr seg" using t seg by (simp add: records_def)
  have "unat (p_memsz seg) < 2 ^ 32" using assms(5) by (simp add: word_less_nat_alt)
  then show "unat (memsz t) = unat (p_memsz seg)" using t seg by (simp add: records_def unsigned_ucast_eq take_bit_nat_eq_self)
  have "unat (p_filesz seg) \<le> unat (p_memsz seg)" using assms(3) by (simp add: word_le_nat_alt)
  then show "unat (p_filesz seg) \<le> 4096 * ((unat (p_memsz seg) + 4095) div 4096)"
    using div_mult_mod_eq [of "unat (p_memsz seg) + 4095" 4096] mod_less_divisor [of 4096 "unat (p_memsz seg) + 4095"] by linarith
qed

text \<open>
  C24: the way of a program from its ELF file into its address space.  When \<open>createimage\<close> has built an image of
  less than 32 MB, the kernel was started from a card with the image and has read its table of
  programs, then \<open>load_task_img\<close> with the name of a program that has one segment to be loaded returns the
  segment's address, and the process finds there all bytes that the file has of the segment, wherever they lie
  within the sectors of the card.  The rest of the segment up to its size in memory, and of its last page, is cleared,
  except for the rest of the last page with bytes of the file when their number is a multiple of 512.  The
  address must be page aligned and the pages of the segment in the lower half of the address
  space and not yet mapped, and there must be room for them.  Of a program with more segments \<open>createimage\<close>
  records address and size of the last one only; such programs are not covered.
\<close>

theorem program_in_memory:
  fixes s :: "('d, 's) ms"
  assumes built: "create_image content (bootblock_name # os # programs) = Inr st" "length (img st) < 2 ^ 25"
    and names: "\<forall>name \<in> set programs. 0 \<notin> set name \<and> name \<noteq> bootblock_name" "distinct programs"
    and boot: "on_card D (sdc s0) (img st)" "boot_sector 0xffffffc050200000 (img st) (ram s0)"
    and run: "init_task_info D tasks0 s0 = Inr (tasks, s1)" and i: "i < length programs"
    and elf: "content (programs ! i) = Some f" "elf_segments f = [seg]" "unat (p_offset seg) + unat (p_filesz seg) \<le> length f"
      "p_filesz seg \<le> p_memsz seg" "0 < p_memsz seg" "p_memsz seg < 2 ^ 32"
  defines "code \<equiv> take (unat (p_filesz seg)) (drop (unat (p_offset seg)) f)" and "va \<equiv> p_vaddr seg"
    and "n \<equiv> (unat (p_memsz seg) + 4095) div 4096"
  assumes card: "on_card D (sdc s) (img st)" and T: "tree (ram s) T (kernMemCurr s)" "T = pgdir (pcb s p)" "room (3 * n) s p"
    and va: "4096 dvd unat va" "unat va + 4096 * n \<le> 2 ^ 38" and new: "\<forall>k<n. xlate (ram s) T (page_va va k) = None"
  shows "\<exists>s'. load_task_img D tasks (programs ! i) (Some p) s = Inr (va, s') \<and>
    (\<forall>j<unat (p_filesz seg). user_byte (ram s') T (va + of_nat j) = Some (code ! j)) \<and>
    (\<forall>j<4096 * n. length code \<le> j \<longrightarrow> length code mod 512 \<noteq> 0 \<or> length code \<le> 4096 * (j div 4096) \<longrightarrow>
       user_byte (ram s') T (va + of_nat j) = Some 0)"
proof -
  have len: "length programs \<le> TASK_MAXNUM"
    and tab: "\<forall>i<length programs. tasks i = taskinfo st i \<and> records (tasks i) (the (content (programs ! i))) \<and>
       (\<exists>b e. b \<le> e \<and> e \<le> length (img st) \<and> task_at (tasks i) (programs ! i) b e \<and>
       take (e - b) (drop b (img st)) = program_bytes (the (content (programs ! i))))"
    using image_reaches_kernel [OF built(1) boot names(1), of tasks0] unfolding run sum.inject prod.inject by blast+
  have rc: "records (tasks i) f" using tab i elf(1) by auto
  note seg = one_segment [OF elf(2-6) rc, folded code_def va_def n_def]
  obtain b e where be: "b \<le> e" "e \<le> length (img st)" "task_at (tasks i) (programs ! i) b e" "take (e - b) (drop b (img st)) = code"
    using tab i elf(1) seg(1) by auto
  have "task_name (tasks j) = programs ! j" if "j < length programs" for j using tab that by (auto simp: task_at_def)
  then have find: "find (\<lambda>j. task_name (tasks j) = programs ! i) [0..<TASK_MAXNUM] = Some i" by (rule find_name [OF _ names(2) i len])
  have "e < 2 ^ 25" using be(2) built(2) by simp
  from load_task_img_ok [OF find be(3,1) this be(2) card, unfolded seg(2,3), folded n_def, OF T va new]
  obtain s' where s': "load_task_img D tasks (programs ! i) (Some p) s = Inr (va, s')" "code_at (ram s') T va code n"
    unfolding be(4) by blast
  have l: "length code = unat (p_filesz seg)" using elf(3) by (simp add: code_def)
  show ?thesis using s' seg(4) unfolding code_at_def l by (intro exI [of _ s']) auto
qed

theorem program_in_memory_witness:
  "\<exists>st tasks s1 s'. create_image sample_files [bootblock_name, main_name, shell_name] = Inr st \<and>
     init_task_info ram_disk (\<lambda>_. taskinfo empty_image 0) (started (img st)) = Inr (tasks, s1) \<and>
     load_task_img ram_disk tasks shell_name (Some (Pcb 0)) ((started (img st))\<lparr>ram := \<lambda>_. 0\<rparr>) = Inr (0x10000, s') \<and>
     user_byte (ram s') FREEMEM_KERNEL 0x10002 = Some 9 \<and> user_byte (ram s') FREEMEM_KERNEL 0x10003 = Some 0"
proof -
  obtain st where st: "create_image sample_files [bootblock_name, main_name, shell_name] = Inr st" "length (img st) = 563"
    "entry_addr (taskinfo st 0) = 0x10000" "memsz (taskinfo st 0) = 3" using sample_image by blast
  have l: "length (img st) < 2 ^ 25" "length (img st) < 2 ^ 32" by (simp_all add: st(2))
  note boot = started_ok [OF l(2)]
  let ?s = "(started (img st))\<lparr>ram := \<lambda>_. 0\<rparr>"
  have names: "\<forall>name \<in> set [shell_name]. 0 \<notin> set name \<and> name \<noteq> bootblock_name" "distinct [shell_name]"
    by (simp_all add: shell_name_def bootblock_name_def)
  obtain tasks s1 where run: "init_task_info ram_disk (\<lambda>_. taskinfo empty_image 0) (started (img st)) = Inr (tasks, s1)"
      "tasks 0 = taskinfo st 0"
    using image_reaches_kernel [OF st(1) boot names(1), of "\<lambda>_. taskinfo empty_image 0"] by auto
  have card: "on_card ram_disk (sdc ?s) (img st)" using boot(1) by simp
  let ?seg = "\<lparr>p_type = 1, p_offset = 120, p_vaddr = 0x10000, p_filesz = 3, p_memsz = 3\<rparr>"
  have elf: "sample_files ([shell_name] ! 0) = Some shell_elf" "elf_segments shell_elf = [?seg]"
    by (simp_all add: sample_files_def elf_segments_def shell_header load_headers_def shell_phdr PT_LOAD_def)
  have size: "unat (p_offset ?seg) + unat (p_filesz ?seg) \<le> length shell_elf" "p_filesz ?seg \<le> p_memsz ?seg" "0 < p_memsz ?seg" "p_memsz ?seg < 2 ^ 32"
    by (simp_all add: shell_elf_def)
  have n: "(unat (p_memsz ?seg) + 4095) div 4096 = 1" by simp
  have s: "ram ?s = (\<lambda>_. 0)" "kernMemCurr ?s = kernMemCurr boot_mstate" "pcb ?s = pcb boot_mstate" by (simp_all add: started_def)
  have T: "tree (ram ?s) FREEMEM_KERNEL (kernMemCurr ?s)" "FREEMEM_KERNEL = pgdir (pcb ?s (Pcb 0))"
    using boot_mstate_ok(2,4,6) unfolding s by simp_all
  have room: "room (3 * ((unat (p_memsz ?seg) + 4095) div 4096)) ?s (Pcb 0)"
    unfolding n using boot_mstate_ok(1) by (simp add: room_def started_def)
  have va: "4096 dvd unat (p_vaddr ?seg)" "unat (p_vaddr ?seg) + 4096 * ((unat (p_memsz ?seg) + 4095) div 4096) \<le> 2 ^ 38" by simp_all
  have new: "\<forall>k<(unat (p_memsz ?seg) + 4095) div 4096. xlate (ram ?s) FREEMEM_KERNEL (page_va (p_vaddr ?seg) k) = None"
    by (simp add: s xlate_def tab_of_zero)
  have c: "take (unat (p_filesz ?seg)) (drop (unat (p_offset ?seg)) shell_elf) = [7, 8, 9]"
    by (simp add: shell_elf_def take_map drop_map upt_rec)
  from program_in_memory [OF st(1) l(1) names boot run(1) _ elf size card T room va new, unfolded c n]
  obtain s' where s': "load_task_img ram_disk tasks shell_name (Some (Pcb 0)) ?s = Inr (0x10000, s')"
    "\<And>j. j < 3 \<Longrightarrow> user_byte (ram s') FREEMEM_KERNEL (0x10000 + of_nat j) = Some ([7, 8, 9] ! j)"
    "\<And>j. j < 4096 \<Longrightarrow> 3 \<le> j \<Longrightarrow> user_byte (ram s') FREEMEM_KERNEL (0x10000 + of_nat j) = Some 0"
    by auto
  have "user_byte (ram s') FREEMEM_KERNEL 0x10002 = Some 9" using s'(2) [of 2] by simp
  moreover have "user_byte (ram s') FREEMEM_KERNEL 0x10003 = Some 0" using s'(3) [of 3] by simp
  ultimately show ?thesis using st(1) run(1) s'(1) by blast
qed

end
