(* ===== verification/ProcSpec.thy ===== *)
theory ProcSpec
  imports Proc
begin

text \<open>
  What processes promise each other: a process that exits wakes everyone who waits for it, and the
  invariants of the scheduler survive.
\<close>

section \<open>Releasing the waiters\<close>

text \<open>Moving a process from one queue to the ready queue leaves the link node of a process on no queue alone.\<close>

lemma do_unblock_frame:
  assumes k: "kwf s Q" and q: "Q q = Some (p # xs)" "q \<noteq> ReadyQueue" and rs: "Q ReadyQueue = Some rs"
    and c: "c \<notin> queued Q" and run: "do_unblock q s = Inr s'"
  shows "lists s' (Elem c) = lists s (Elem c)"
proof -
  note r = kwf_qrep [OF k]
  have cq: "c \<noteq> p" "c \<notin> set xs" "c \<notin> set rs" using c queued_member [of Q, OF q(1)] queued_member [of Q, OF rs] by auto
  have d: "dll (lists s) (Head q) (Elem p # map Elem xs)" using qrep_dll [OF r q(1)] by simp
  let ?h = "list_del (lists s) (Elem p)"
  have del: "?h (Elem c) = lists s (Elem c)"
  proof -
    have n: "nxt (lists s (Elem p)) = Some (hd (map Elem xs @ [Head q]))" using dll_succ [of _ _ "[]"] d by simp
    have v: "prv (lists s (Elem p)) = Some (Head q)" using d by (simp add: dll_def)
    have ne: "hd (map Elem xs @ [Head q]) \<noteq> Elem p" "hd (map Elem xs @ [Head q]) \<noteq> Elem c"
      using d cq by (cases xs; auto simp: dll_def)+
    show ?thesis using list_del_at [of "lists s", OF v n _ ne(1)] ne(2) cq(1) by (intro list_node.equality) auto
  qed
  have "qrep ?h (Q(q \<mapsto> xs))" using lq.rep_del [OF r, of q "[]" p xs] q(1) by simp
  then have "dll ?h (Head ReadyQueue) (map Elem rs)" by (rule qrep_dll) (use q(2) rs in simp)
  moreover have "Elem p \<notin> set (Head ReadyQueue # map Elem rs)"
    using q rs lq.rep_disjoint [OF r q(1) rs q(2)] by auto
  ultimately obtain h' where h': "list_add_tail ?h (Elem p) (Head ReadyQueue) = Inr h'"
      "\<And>x. x \<notin> set (Elem p # Head ReadyQueue # map Elem rs) \<Longrightarrow> h' x = ?h x"
    by (rule dll_add_tail) blast
  have "h' (Elem c) = ?h (Elem c)" by (rule h'(2)) (use cq in auto)
  moreover have "list_entry (nxt (lists s (Head q))) = Inr p" by (rule lq.first_entry [OF r q(1)])
  ultimately show ?thesis
    using run h'(1) del by (auto simp: do_unblock_def get_head_def add_queue_def del_queue_def upd_pcb_def)
qed

lemma end_of_queue:
  assumes "kwf s Q" and "Q q = Some xs" and "xs \<noteq> []" and "sel = nxt \<or> sel = prv"
  shows "\<exists>w\<in>set xs. list_entry (sel (lists s (Head q))) = Inr w"
proof -
  have d: "dll (lists s) (Head q) (map Elem xs)" by (rule qrep_dll [OF kwf_qrep [OF assms(1)] assms(2)])
  then have "nxt (lists s (Head q)) = Some (Elem (hd xs))" "prv (lists s (Head q)) = Some (Elem (last xs))"
    using dll_front [OF d] links_last [of "lists s" "Head q" "map Elem xs" "Head q"] assms(3)
    by (simp_all add: dll_def last_map hd_map)
  then show ?thesis using assms(3,4) by (auto simp: list_entry_def)
qed

definition awake :: "pcb_ref list \<Rightarrow> (pcb_ref \<Rightarrow> pcb_t) \<Rightarrow> pcb_ref \<Rightarrow> pcb_t" where
  "awake ws f = (\<lambda>x. if x \<in> set ws then (f x)\<lparr>task_status := TASK_READY\<rparr> else f x)"

lemma release_waiters_ok:
  assumes "kinv s Q" and "no_lost s Q" and "Q (WaitList p) = Some ws" and "Q ReadyQueue = Some rs"
    and "length ws < fuel" and "\<forall>w\<in>set ws. task_status (pcb s w) \<noteq> TASK_EXITED" and sel: "sel = nxt \<or> sel = prv"
  shows "\<exists>s'. release_waiters fuel sel p s = Inr s' \<and> kinv s' (Q(WaitList p \<mapsto> [], ReadyQueue \<mapsto> rs @ ws)) \<and>
     no_lost s' (Q(WaitList p \<mapsto> [], ReadyQueue \<mapsto> rs @ ws)) \<and> pcb s' = awake ws (pcb s) \<and>
     core_running s' = core_running s \<and> (\<forall>c. c \<notin> queued Q \<longrightarrow> lists s' (Elem c) = lists s (Elem c))"
  using assms(1-6)
proof (induction ws arbitrary: s Q rs fuel)
  case Nil
  have kw: "kwf s Q" using Nil.prems(1) by (simp add: kinv_def)
  have "queue_is_empty (WaitList p) s"
    unfolding queue_is_empty_def using lq.rep_empty [OF kwf_qrep [OF kw] Nil.prems(3)] by simp
  moreover have "Q(WaitList p \<mapsto> [], ReadyQueue \<mapsto> rs @ []) = Q" using Nil.prems(3,4) by (intro ext) auto
  ultimately show ?case using Nil.prems by (cases fuel) (simp_all add: awake_def del: fun_upd_apply)
next
  case (Cons w ws)
  have kw: "kwf s Q" using Cons.prems(1) by (simp add: kinv_def)
  obtain n where fuel: "fuel = Suc n" "length ws < n" using Cons.prems(5) by (cases fuel) simp_all
  have ne: "\<not> queue_is_empty (WaitList p) s"
    unfolding queue_is_empty_def using lq.rep_empty [OF kwf_qrep [OF kw] Cons.prems(3)] by simp
  obtain v where v: "v \<in> set (w # ws)" "list_entry (sel (lists s (Head (WaitList p)))) = Inr v"
    using end_of_queue [OF kw Cons.prems(3) _ sel] by auto
  let ?Q1 = "Q(WaitList p \<mapsto> ws, ReadyQueue \<mapsto> rs @ [w])"
  obtain s1 where s1: "do_unblock (WaitList p) s = Inr s1" "kinv s1 ?Q1" "no_lost s1 ?Q1"
      "pcb s1 = (pcb s)(w := (pcb s w)\<lparr>task_status := TASK_READY\<rparr>)" "core_running s1 = core_running s"
    using do_unblock_inv [OF Cons.prems(1,3) _ Cons.prems(4)] Cons.prems(2) by blast
  have qd: "queued ?Q1 = queued Q"
    using queued_move [of s Q "WaitList p" "[]" w ws ReadyQueue rs, OF kw] Cons.prems(3,4) by simp
  have q1: "?Q1 (WaitList p) = Some ws" "?Q1 ReadyQueue = Some (rs @ [w])" by simp_all
  have alive: "\<forall>x\<in>set ws. task_status (pcb s1 x) \<noteq> TASK_EXITED" using Cons.prems(6) by (simp add: s1(4))
  have eQ: "?Q1(WaitList p \<mapsto> [], ReadyQueue \<mapsto> (rs @ [w]) @ ws) = Q(WaitList p \<mapsto> [], ReadyQueue \<mapsto> rs @ w # ws)"
    by (rule ext) simp
  obtain s2 where s2: "release_waiters n sel p s1 = Inr s2"
      "kinv s2 (Q(WaitList p \<mapsto> [], ReadyQueue \<mapsto> rs @ w # ws))" "no_lost s2 (Q(WaitList p \<mapsto> [], ReadyQueue \<mapsto> rs @ w # ws))"
      "pcb s2 = awake ws (pcb s1)" "core_running s2 = core_running s1"
      "\<forall>c. c \<notin> queued ?Q1 \<longrightarrow> lists s2 (Elem c) = lists s1 (Elem c)"
    using Cons.IH [OF s1(2,3) q1 fuel(2) alive] unfolding eQ by blast
  have "task_status (pcb s v) \<noteq> TASK_EXITED" using v(1) Cons.prems(6) by blast
  then have "release_waiters fuel sel p s = Inr s2" using ne v(2) s1(1) s2(1) by (simp add: fuel(1))
  moreover have "pcb s2 = awake (w # ws) (pcb s)" by (rule ext) (simp add: s2(4) s1(4) awake_def)
  moreover have "lists s2 (Elem c) = lists s (Elem c)" if "c \<notin> queued Q" for c
    using s2(6) do_unblock_frame [OF kw Cons.prems(3) _ Cons.prems(4) that s1(1)] that qd by simp
  ultimately show ?case using s2(2,3,5) s1(5) by (intro exI [of _ s2]) (simp del: fun_upd_apply)
qed

section \<open>Exiting\<close>

lemma detached_del: "prv (lists s (Elem p)) = None \<or> nxt (lists s (Elem p)) = None \<Longrightarrow> del_queue p s = s"
  by (simp add: del_queue_def list_del_detached)

lemma exited_inv:
  assumes k: "kinv s Q" and n: "no_lost s Q" and cpu: "cpu < CORE_NUM" and p: "p = core_running s cpu" "pid (pcb s p) \<noteq> 0"
  shows "kinv_call cpu (set_status p TASK_EXITED s) Q" and "no_lost (set_status p TASK_EXITED s) Q"
proof -
  show "kinv_call cpu (set_status p TASK_EXITED s) Q"
    using k p(1) by (simp add: kinv_def kinv_call_def)
  show "no_lost (set_status p TASK_EXITED s) Q"
    using n p(2) unfolding no_lost_def by (auto simp: alive_def)
qed

text \<open>A process that is ready when the scheduler runs is ready afterwards or has been given the core.\<close>

lemma ready_served:
  assumes "w \<in> set rs" and "w \<notin> set ss" and "w \<noteq> core_running s cpu" and "task_status (pcb s w) = TASK_READY"
  shows "sched_next cpu s ss rs = w \<and> task_status (sched_pcbs cpu s ss rs w) = TASK_RUNNING \<or>
    w \<in> set (the (sched_queues cpu s ss rs Q ReadyQueue)) \<and> task_status (sched_pcbs cpu s ss rs w) = TASK_READY"
proof (cases "sched_next cpu s ss rs = w")
  case True
  then show ?thesis using sched_pcbs_next [of cpu s ss rs] by simp
next
  case False
  have "w \<in> set (ready_after cpu s ss rs)" using assms(1) by (simp add: ready_after_def)
  then have "w \<in> set (the (sched_queues cpu s ss rs Q ReadyQueue))"
    using False by (auto simp: sched_queues_def sched_next_def split: option.splits)
  moreover have "sched_pcbs cpu s ss rs w = pcb s w" using False assms(2,3) by (intro sched_pcbs_status) auto
  ultimately show ?thesis using assms(4) by simp
qed

section \<open>Properties\<close>

text \<open>
  C9: exiting wakes the waiters.  When a process exits while living processes wait for it, \<open>do_exit\<close>
  returns on another process.  The exited process is on no queue and marked as exited, its wait list
  is empty, and everyone who waited is ready or already runs on this core.  The invariants of the
  scheduler hold again and no living process is lost.
\<close>

theorem do_exit_wakes:
  assumes "kinv s Q" and "no_lost s Q" and cpu: "cpu < CORE_NUM" and p: "p = core_running s cpu" "pid (pcb s p) \<noteq> 0"
    and node: "nxt (lists s (Elem p)) = None" and ws: "Q (WaitList p) = Some ws"
    and alive: "\<forall>w\<in>set ws. alive (pcb s w)"
  shows "\<exists>s' Q'. do_exit cpu s = Inr s' \<and> kinv s' Q' \<and> no_lost s' Q' \<and> core_running s' cpu \<noteq> p \<and>
    task_status (pcb s' p) = TASK_EXITED \<and> p \<notin> queued Q' \<and> Q' (WaitList p) = Some [] \<and>
    (\<forall>w\<in>set ws. core_running s' cpu = w \<and> task_status (pcb s' w) = TASK_RUNNING \<or>
      w \<in> set (the (Q' ReadyQueue)) \<and> task_status (pcb s' w) = TASK_READY)"
proof -
  have kw: "kwf s Q" using assms(1) by (simp add: kinv_def)
  obtain ss rs where q: "Q SleepQueue = Some ss" "Q ReadyQueue = Some rs" using kw by (auto simp: kwf_def)
  have pq: "p \<notin> queued Q" using assms(1) cpu p(1) by (simp add: kinv_def)
  have len: "length ws < QUEUE_FUEL" using kwf_length [OF kw ws] by (simp add: QUEUE_FUEL_def NUM_MAX_TASK_def)
  have living: "\<forall>w\<in>set ws. task_status (pcb s w) \<noteq> TASK_EXITED" using alive by (auto simp: alive_def)
  let ?Q1 = "Q(WaitList p \<mapsto> [], ReadyQueue \<mapsto> rs @ ws)"
  obtain s1 where s1: "release_waiters QUEUE_FUEL prv p s = Inr s1" "kinv s1 ?Q1" "no_lost s1 ?Q1"
      "pcb s1 = awake ws (pcb s)" "core_running s1 = core_running s" "lists s1 (Elem p) = lists s (Elem p)"
    using release_waiters_ok [OF assms(1,2) ws q(2) len living, of prv] pq by blast
  let ?s = "set_status p TASK_EXITED s1"
  have pid1: "pid (pcb s1 p) \<noteq> 0" "p = core_running s1 cpu" using p by (simp_all add: s1(4,5) awake_def)
  note e = exited_inv [OF s1(2,3) cpu pid1(2,1)]
  have q1: "?Q1 SleepQueue = Some ss" "?Q1 ReadyQueue = Some (rs @ ws)" using q by simp_all
  let ?Q' = "sched_queues cpu ?s ss (rs @ ws) ?Q1"
  obtain s' where s': "do_scheduler cpu ?s = Inr s'" "kinv s' ?Q'" "pcb s' = sched_pcbs cpu ?s ss (rs @ ws)"
      "core_running s' = (core_running ?s)(cpu := sched_next cpu ?s ss (rs @ ws))"
    using do_scheduler_kinv [OF e(1) cpu q1] by blast
  have nl: "no_lost s' ?Q'" by (rule do_scheduler_no_lost [OF e(1) cpu q1 e(2) s'(2-4)])
  have "do_exit cpu s = Inr s'"
    using s1(1) s'(1) detached_del [of s1 p] node s1(6) by (simp add: do_exit_def p(1))
  moreover have pq1: "p \<notin> queued ?Q1" using s1(2) cpu pid1(2) by (simp add: kinv_def)
  have pss: "p \<notin> set ss" using pq queued_member [of Q, OF q(1)] by blast
  have nreq: "\<not> requeues cpu ?s ss" using pss pid1(2) by (simp add: requeues_def wake_def)
  have "pid0_of cpu \<noteq> p" using kw p(2) by (auto simp: kwf_def pid0_of_def)
  then have nx: "sched_next cpu ?s ss (rs @ ws) \<noteq> p" using sched_next_from [OF q1, of cpu ?s] nreq pq1 by metis
  moreover have "task_status (pcb s' p) = TASK_EXITED"
    using nx nreq pss by (simp add: s'(3) sched_pcbs_def Let_def wake_def)
  moreover have "p \<notin> queued ?Q'" using queued_sched_queues [OF q1, of p cpu ?s] nreq pq1 by blast
  moreover have "?Q' (WaitList p) = Some []" by (simp add: sched_queues_def)
  moreover have "core_running s' cpu = w \<and> task_status (pcb s' w) = TASK_RUNNING \<or>
      w \<in> set (the (?Q' ReadyQueue)) \<and> task_status (pcb s' w) = TASK_READY" if w: "w \<in> set ws" for w
  proof -
    have "w \<noteq> p" "w \<notin> set ss"
      using pq queued_member [of Q, OF ws w] lq.rep_disjoint [OF kwf_qrep [OF kw] ws q(1)] w by auto
    then show ?thesis using ready_served [of w "rs @ ws" ss ?s cpu ?Q1] w pid1(2) by (simp add: s'(3,4) s1(4) awake_def)
  qed
  ultimately show ?thesis using s'(2,4) nl by (intro exI [of _ s'] exI [of _ ?Q']) auto
qed

text \<open>Process 0 runs and process 1 waits for it.\<close>

theorem do_exit_wakes_witness:
  "\<exists>s' Q'. do_exit 0 (one_waits (WaitList (Pcb 0))) = Inr s' \<and> kinv s' Q' \<and> task_status (pcb s' (Pcb 0)) = TASK_EXITED \<and>
     (core_running s' 0 = Pcb 1 \<or> Pcb 1 \<in> set (the (Q' ReadyQueue)))"
proof -
  let ?s = "one_waits (WaitList (Pcb 0))" and ?Q = "(\<lambda>_. Some [])(WaitList (Pcb 0) \<mapsto> [Pcb 1])"
  have c: "Pcb 0 = core_running ?s 0" "pid (pcb ?s (Pcb 0)) \<noteq> 0"
    using one_waits_ok(6,7) [of "WaitList (Pcb 0)"] boot_lstate_sel by simp_all
  have "nxt (lists ?s (Elem (Pcb 0))) = None"
    by (simp add: one_waits_def ready_on_def add_queue_def upd_pcb_def boot_lstate_def boot_lists_def list_add_tail_def
        list_add_between_def)
  moreover have "\<forall>w\<in>set [Pcb 1]. alive (pcb ?s w)" using one_waits_ok(8) [of "WaitList (Pcb 0)"] by simp
  ultimately show ?thesis
    using do_exit_wakes [of ?s ?Q 0 "Pcb 0" "[Pcb 1]"] one_waits_ok(1,2) [of "WaitList (Pcb 0)"] c
    by (auto simp: CORE_NUM_def)
qed

end
