(* ===== verification/ExecSpec.thy ===== *)
theory ExecSpec
  imports LoadSpec ProcSpec
begin

text \<open>
  Starting a program: \<open>do_exec\<close> builds an address space with the program and a stack, a trap frame from
  which the process starts at the program's entry, and queues the process behind all ready ones.
\<close>

section \<open>Writing to given pages\<close>

definition only_pages :: "u64 set \<Rightarrow> (u64 \<Rightarrow> u64) \<Rightarrow> (u64 \<Rightarrow> u64) \<Rightarrow> bool" where
  "only_pages P r r' \<longleftrightarrow> (\<forall>u j. kpage u \<longrightarrow> u \<notin> P \<longrightarrow> unat j < 512 \<longrightarrow> r' (entry_at u j) = r (entry_at u j))"

lemma only_pages_refl [simp]: "only_pages P r r"
  by (simp add: only_pages_def)

lemma only_pages_trans: "only_pages P r r' \<Longrightarrow> only_pages P' r' r'' \<Longrightarrow> P \<subseteq> R \<Longrightarrow> P' \<subseteq> R \<Longrightarrow> only_pages R r r''"
  unfolding only_pages_def by (metis subsetD)

lemma only_pages_word:
  assumes "kpage t" and "unat j < 512"
  shows "only_pages {t} r (r(entry_at t j := v))"
  using entry_eq_iff [OF _ assms(1) _ assms(2)] by (auto simp: only_pages_def)

lemma nat_entry: "j < 512 \<Longrightarrow> unat (of_nat j :: u64) < 512"
  by (simp add: unat_of_nat)

text \<open>Word \<open>i\<close> of page \<open>t\<close>.\<close>

definition wat :: "u64 \<Rightarrow> nat \<Rightarrow> u64" where
  "wat t i = entry_at t (of_nat i)"

lemma wat_eq: "kpage t \<Longrightarrow> i < 512 \<Longrightarrow> j < 512 \<Longrightarrow> wat t i = wat t j \<longleftrightarrow> i = j"
  using entry_eq_iff [of t t "of_nat i" "of_nat j"] by (auto simp: wat_def unat_of_nat word_unat_eq_iff)

lemma only_wat: "kpage t \<Longrightarrow> i < 512 \<Longrightarrow> only_pages {t} r r' \<Longrightarrow> only_pages {t} r (r'(wat t i := v))"
  unfolding wat_def using only_pages_trans [OF _ only_pages_word [of t "of_nat i" r' v]] by (simp add: unat_of_nat)

lemma wr64_wat: "wr64 (wat t i) v s = s\<lparr>ram := (ram s)(wat t i := v)\<rparr>"
  by (simp add: wr64_def)

lemma wr_bytes_page:
  assumes "kpage t" and "o' + n \<le> 4096"
  shows "\<exists>r. fold (\<lambda>j. wr_byte (t + of_nat o' + of_nat j) (f j)) [0..<n] s = s\<lparr>ram := r\<rparr> \<and> only_pages {t} (ram s) r \<and>
    (\<forall>i<512. o' + n \<le> 8 * i \<longrightarrow> r (wat t i) = ram s (wat t i))"
proof -
  obtain r where r: "fold (\<lambda>j. wr_byte (t + of_nat o' + of_nat j) (f j)) [0..<n] s = s\<lparr>ram := r\<rparr>"
    using wr_bytes_frame [of "t + of_nat o'" f "[0..<n]" s] by blast
  have "only_pages {t} (ram s) r"
    unfolding only_pages_def using page_words [OF assms, of _ _ f s, unfolded r] by simp
  moreover have "r (wat t i) = ram s (wat t i)" if i: "i < 512" "o' + n \<le> 8 * i" for i
  proof -
    have "ram (fold (\<lambda>j. wr_byte (t + of_nat o' + of_nat j) (f j)) [0..<n] s) (wat t i) = ram s (wat t i)"
    proof (rule wr_bytes_outside)
      fix j
      assume "j < n"
      then have j: "o' + j < 4096" "(o' + j) div 8 < i" using assms(2) i by (simp_all add: less_mult_imp_div_less mult.commute)
      have "(t + of_nat o' + of_nat j) AND NOT 7 = wat t ((o' + j) div 8)"
        using byte_word [OF assms(1) j(1)] by (simp add: wat_def add.assoc)
      then show "wat t i \<noteq> (t + of_nat o' + of_nat j) AND NOT 7" using wat_eq [OF assms(1), of i "(o' + j) div 8"] i(1) j by auto
    qed
    then show ?thesis unfolding r by simp
  qed
  ultimately show ?thesis using r by blast
qed

text \<open>The tables and the loaded pages of a process do not change when other pages are written.\<close>

lemma only_pages_tables:
  assumes "only_pages P r r'" and "\<And>x t. tab_of r T x = Some t \<Longrightarrow> kpage t \<and> t \<notin> P"
  shows "tab_of r' T x = tab_of r T x" and "xlate r' T w = xlate r T w"
proof -
  have same: "r' (entry_at t j) = r (entry_at t j)" if "tab_of r T x = Some t" "unat j < 512" for x t j
    using assms(1) assms(2) [OF that(1)] that(2) by (simp add: only_pages_def)
  show "tab_of r' T x = tab_of r T x" by (rule tab_same(1)) (rule same)
  show "xlate r' T w = xlate r T w" by (rule tab_same(2)) (rule same)
qed

lemma in_place_only:
  assumes ip: "in_place D blk off F T va k s s1" and on: "only_pages P (ram s1) r"
    and tabs: "\<And>x t. tab_of (ram s1) T x = Some t \<Longrightarrow> kpage t \<and> t \<notin> P" and below: "\<And>t. t \<in> P \<Longrightarrow> unat t < unat (kernMemCurr s)"
  shows "in_place D blk off F T va k s (s1\<lparr>ram := r\<rparr>)"
proof -
  obtain t where t: "kpage t" "unat (kernMemCurr s) \<le> unat t" "unat t + 4096 \<le> unat (kernMemCurr s1)" "\<And>x. tab_of (ram s1) T x \<noteq> Some t"
    "xlate (ram s1) T (page_va va k) = Some (kva2pa t)" "loaded D (sdc s) blk off F k t (ram s1)"
    using ip by (auto simp: in_place_def)
  have "t \<notin> P" using below [of t] t(2) by auto
  then have "loaded D (sdc s) blk off F k t r" using loaded_cong [OF t(1) _ t(6), of r] on t(1) by (simp add: only_pages_def)
  then show ?thesis unfolding in_place_def using t only_pages_tables [OF on tabs] by (intro exI [of _ t]) simp
qed

section \<open>The trap frame\<close>

lemma set_reg_wat: "set_reg (wat t 476) i v s = wr64 (wat t (476 + i)) v s"
  by (simp add: set_reg_def wat_def entry_at_def algebra_simps)

lemma clear_regs:
  assumes "kpage t" and "n \<le> 32"
  shows "\<exists>r. fold (\<lambda>i. set_reg (wat t 476) i 0) [0..<n] s = s\<lparr>ram := r\<rparr> \<and> only_pages {t} (ram s) r"
  using assms(2)
proof (induction n)
  case 0
  show ?case by (intro exI [of _ "ram s"]) simp
next
  case (Suc n)
  then obtain r where r: "fold (\<lambda>i. set_reg (wat t 476) i 0) [0..<n] s = s\<lparr>ram := r\<rparr>" "only_pages {t} (ram s) r" by auto
  have "fold (\<lambda>i. set_reg (wat t 476) i 0) [0..<Suc n] s = set_reg (wat t 476) n 0 (fold (\<lambda>i. set_reg (wat t 476) i 0) [0..<n] s)" by simp
  also have "\<dots> = s\<lparr>ram := r(wat t (476 + n) := 0)\<rparr>" unfolding r(1) set_reg_wat wr64_wat by simp
  finally show ?case using only_wat [OF assms(1) _ r(2), of "476 + n" 0] Suc.prems by auto
qed

lemma init_frame_ok:
  fixes s :: "('d, 's) ms"
  assumes k: "kpage t" and sp: "kernel_sp (pcb s p) = t + 4096"
  shows "\<exists>r. init_frame K p entry s = (wat t 476, (upd_pcb p (kernel_sp_update (\<lambda>_. wat t 462)) s)\<lparr>ram := r\<rparr>) \<and> only_pages {t} (ram s) r \<and>
    r (wat t 509) = entry \<and> r (wat t 480) = pcb_addr K p \<and> r (wat t 462) = ret_from_exception K \<and> r (wat t 463) = wat t 462"
proof -
  have a: "kernel_sp (pcb s p) - REGS_SIZE = wat t 476" "wat t 476 - SWITCHTO_SIZE = wat t 462" "wat t 462 + 8 = wat t 463"
    by (simp_all add: sp REGS_SIZE_def SWITCHTO_SIZE_def wat_def entry_at_def)
  obtain r0 where r0: "fold (\<lambda>i. set_reg (wat t 476) i 0) [0..<32] s = s\<lparr>ram := r0\<rparr>" "only_pages {t} (ram s) r0"
    using clear_regs [OF k, of 32 s] by auto
  let ?r = "r0(wat t 477 := entry, wat t 480 := pcb_addr K p, wat t 509 := entry, wat t 508 := 0x20, wat t 462 := ret_from_exception K, wat t 463 := wat t 462)"
  have "only_pages {t} (ram s) ?r" by (intro only_wat k r0(2)) simp_all
  moreover have "init_frame K p entry s = (wat t 476, (upd_pcb p (kernel_sp_update (\<lambda>_. wat t 462)) s)\<lparr>ram := ?r\<rparr>)"
    unfolding init_frame_def Let_def a(1) r0(1) set_reg_wat a(2) a(3) wr64_def by (simp add: upd_pcb_def del: fun_upd_apply)
  ultimately show ?thesis by (intro exI [of _ ?r]) (simp add: wat_eq [OF k])
qed

section \<open>The arguments\<close>

definition arg_size :: "u8 list list \<Rightarrow> nat" where
  "arg_size argv = sum_list (map (\<lambda>a. length a + 1) argv)"

lemma arg_size_length: "length argv \<le> arg_size argv"
  by (induction argv) (simp_all add: arg_size_def)

lemma ram_byte_wat:
  assumes "kpage u" and "k < 4096" and "y < 512" and "k div 8 \<noteq> y"
  shows "ram_byte (r(wat u y := v)) (u + of_nat k) = ram_byte r (u + of_nat k)"
proof -
  have "(u + of_nat k) AND NOT 7 = wat u (k div 8)" using byte_word [OF assms(1,2)] by (simp add: wat_def)
  moreover have "wat u (k div 8) \<noteq> wat u y" using wat_eq [OF assms(1), of "k div 8" y] assms by simp
  ultimately show ?thesis by (simp add: ram_byte_def)
qed

text \<open>
  \<open>stack_args u d r y argv\<close>: from word \<open>y\<close> of page \<open>u\<close> on stand pointers to the strings of \<open>argv\<close>, then a null pointer;
  \<open>d\<close> is the user address of the page, where the strings are too.
\<close>

definition stack_args :: "u64 \<Rightarrow> u64 \<Rightarrow> (u64 \<Rightarrow> u64) \<Rightarrow> nat \<Rightarrow> u8 list list \<Rightarrow> nat \<Rightarrow> bool" where
  "stack_args u d r y argv x \<longleftrightarrow> r (wat u (y + length argv)) = 0 \<and>
     (\<forall>i<length argv. \<exists>k. r (wat u (y + i)) = d + of_nat k \<and> k + length (argv ! i) < x \<and>
        (\<forall>j\<le>length (argv ! i). ram_byte r (u + of_nat (k + j)) = (argv ! i @ [0]) ! j))"

lemma push_args_ok:
  fixes s :: "('d, 's) ms"
  assumes "kpage u" and "arg_size argv \<le> x" and "x \<le> 8 * y" and "y + length argv < 512"
  shows "\<exists>z r. push_args argv (d + of_nat x) (u + of_nat x) (wat u y) s = (d + of_nat z, s\<lparr>ram := r\<rparr>) \<and>
    z + arg_size argv = x \<and> only_pages {u} (ram s) r \<and> stack_args u d r y argv x \<and>
    (\<forall>k<8 * y. x \<le> k \<longrightarrow> ram_byte r (u + of_nat k) = ram_byte (ram s) (u + of_nat k)) \<and> (\<forall>i<y. x \<le> 8 * i \<longrightarrow> r (wat u i) = ram s (wat u i))"
  using assms(2-4)
proof (induction argv arbitrary: x y s)
  case Nil
  let ?r = "(ram s)(wat u y := 0)"
  have "ram_byte ?r (u + of_nat k) = ram_byte (ram s) (u + of_nat k)" if "k < 8 * y" for k
  proof (rule ram_byte_wat [OF assms(1)])
    have "k div 8 < y" using that by (simp add: less_mult_imp_div_less mult.commute)
    then show "k div 8 \<noteq> y" by simp
  qed (use that Nil in simp_all)
  moreover have "?r (wat u i) = ram s (wat u i)" if "i < y" for i using wat_eq [OF assms(1), of i y] that Nil by simp
  moreover have "only_pages {u} (ram s) ?r" using Nil by (intro only_wat assms(1)) simp_all
  moreover have "stack_args u d ?r y [] x" by (simp add: stack_args_def)
  moreover have "push_args [] (d + of_nat x) (u + of_nat x) (wat u y) s = (d + of_nat x, s\<lparr>ram := ?r\<rparr>)" "x + arg_size [] = x"
    by (simp_all add: wr64_wat arg_size_def)
  ultimately show ?case by blast
next
  case (Cons a argv)
  let ?n = "length a + 1"
  let ?z = "x - ?n"
  have x: "?n \<le> x" "arg_size argv \<le> ?z" "?z + ?n \<le> 4096" "?z + ?n = x" using Cons.prems by (simp_all add: arg_size_def)
  have kv: "u + of_nat x - of_nat ?n = u + of_nat ?z" "d + of_nat x - of_nat ?n = d + of_nat ?z" 
    using x(1) by (simp_all only: of_nat_diff add_diff_eq)
  obtain r where r: "fold (\<lambda>j. wr_byte (u + of_nat ?z + of_nat j) ((a @ [0]) ! j)) [0..<?n] s = s\<lparr>ram := r\<rparr>" "only_pages {u} (ram s) r"
    and wd: "\<And>i. i < 512 \<Longrightarrow> ?z + ?n \<le> 8 * i \<Longrightarrow> r (wat u i) = ram s (wat u i)"
    using wr_bytes_page [OF assms(1) x(3), of "\<lambda>j. (a @ [0]) ! j" s] by blast
  have by1: "ram_byte r (u + of_nat k) = (if ?z \<le> k \<and> k < x then (a @ [0]) ! (k - ?z) else ram_byte (ram s) (u + of_nat k))" if "k < 4096" for k
    using page_bytes [OF x(3) that, of u "\<lambda>j. (a @ [0]) ! j" s, unfolded r(1)] unfolding x(4) by simp
  let ?r = "r(wat u y := d + of_nat ?z)"
  have y: "y < 512" using Cons.prems by simp
  have on: "only_pages {u} (ram s) ?r" by (intro only_wat assms(1) r(2) y)
  have w: "wat u y + 8 = wat u (Suc y)" by (simp add: wat_def entry_at_def algebra_simps)
  have p: "?z \<le> 8 * Suc y" "Suc y + length argv < 512" using x Cons.prems by simp_all
  have sel: "ram (s\<lparr>ram := ?r\<rparr>) = ?r" "s\<lparr>ram := ?r\<rparr>\<lparr>ram := q\<rparr> = s\<lparr>ram := q\<rparr>" for q by simp_all
  obtain z r' where r': "push_args argv (d + of_nat ?z) (u + of_nat ?z) (wat u (Suc y)) (s\<lparr>ram := ?r\<rparr>) = (d + of_nat z, s\<lparr>ram := r'\<rparr>)"
    "z + arg_size argv = ?z" "only_pages {u} ?r r'" "stack_args u d r' (Suc y) argv ?z"
    "\<And>k. k < 8 * Suc y \<Longrightarrow> ?z \<le> k \<Longrightarrow> ram_byte r' (u + of_nat k) = ram_byte ?r (u + of_nat k)" "\<And>i. i < Suc y \<Longrightarrow> ?z \<le> 8 * i \<Longrightarrow> r' (wat u i) = ?r (wat u i)"
    using Cons.IH [OF x(2) p, of "s\<lparr>ram := ?r\<rparr>"] unfolding sel by blast
  have run: "push_args (a # argv) (d + of_nat x) (u + of_nat x) (wat u y) s = (d + of_nat z, s\<lparr>ram := r'\<rparr>)"
    unfolding push_args.simps Let_def kv r(1) wr64_wat w using r'(1) by (simp del: fun_upd_apply of_nat_add of_nat_Suc)
  have bt: "ram_byte r' (u + of_nat k) = ram_byte r (u + of_nat k)" if "k < 8 * y" "?z \<le> k" for k
  proof -
    have "k div 8 < y" using that by (simp add: less_mult_imp_div_less mult.commute)
    then have "k < 4096" "k div 8 \<noteq> y" using that y by simp_all
    then show ?thesis using r'(5) [of k] that ram_byte_wat [OF assms(1) _ y, of k r] by simp
  qed
  have first: "r' (wat u y) = d + of_nat ?z" using r'(6) [of y] Cons.prems by simp
  have str: "ram_byte r' (u + of_nat (?z + j)) = (a @ [0]) ! j" if "j \<le> length a" for j
  proof -
    have l: "?z + j < x" "?z + j < 8 * y" "?z + j < 4096" using that x(1,3,4) Cons.prems(2) by linarith+
    have "ram_byte r' (u + of_nat (?z + j)) = ram_byte r (u + of_nat (?z + j))" by (rule bt [OF l(2)]) simp
    then show ?thesis unfolding by1 [OF l(3)] by (simp only: le_add1 l(1) simp_thms if_True diff_add_inverse)
  qed
  have "stack_args u d r' y (a # argv) x"
    unfolding stack_args_def
  proof (intro conjI allI impI)
    show "r' (wat u (y + length (a # argv))) = 0" using r'(4) by (simp add: stack_args_def)
    fix i
    assume i: "i < length (a # argv)"
    show "\<exists>k. r' (wat u (y + i)) = d + of_nat k \<and> k + length ((a # argv) ! i) < x \<and>
        (\<forall>j\<le>length ((a # argv) ! i). ram_byte r' (u + of_nat (k + j)) = ((a # argv) ! i @ [0]) ! j)"
    proof (cases i)
      case 0
      then show ?thesis using first str x by (intro exI [of _ ?z]) simp
    next
      case (Suc m)
      then obtain k where "r' (wat u (Suc y + m)) = d + of_nat k" "k + length (argv ! m) < ?z"
        "\<forall>j\<le>length (argv ! m). ram_byte r' (u + of_nat (k + j)) = (argv ! m @ [0]) ! j"
        using r'(4) i unfolding stack_args_def by auto
      then show ?thesis using Suc by (intro exI [of _ k]) simp
    qed
  qed
  moreover have "ram_byte r' (u + of_nat k) = ram_byte (ram s) (u + of_nat k)" if "k < 8 * y" "x \<le> k" for k
    using bt [of k] by1 [of k] that y by simp
  moreover have "r' (wat u i) = ram s (wat u i)" if "i < y" "x \<le> 8 * i" for i
  proof -
    have "?z \<le> 8 * i" "i < 512" using that x y by linarith+
    then have "r' (wat u i) = ?r (wat u i)" using r'(6) [of i] that(1) by simp
    also have "\<dots> = r (wat u i)" using wat_eq [OF assms(1) \<open>i < 512\<close> y] that(1) by simp
    also have "\<dots> = ram s (wat u i)" by (rule wd) (use \<open>i < 512\<close> that(2) x(4) in simp_all)
    finally show ?thesis .
  qed
  moreover have "z + arg_size (a # argv) = x" "only_pages {u} (ram s) r'"
    using r'(2) x only_pages_trans [OF on r'(3)] by (simp_all add: arg_size_def)
  ultimately show ?case using run by blast
qed

lemma stack_args_cong:
  assumes "kpage u" and "\<And>j. unat j < 512 \<Longrightarrow> r' (entry_at u j) = r (entry_at u j)"
    and "y + length argv < 512" and "x \<le> 4096" and "stack_args u d r y argv x"
  shows "stack_args u d r' y argv x"
proof -
  have w: "r' (wat u i) = r (wat u i)" if "i < 512" for i unfolding wat_def by (rule assms(2)) (use that in \<open>simp add: unat_of_nat\<close>)
  have b: "ram_byte r' (u + of_nat k) = ram_byte r (u + of_nat k)" if "k < 4096" for k
    by (rule ram_byte_page [OF assms(1) that], rule assms(2)) (use that in \<open>simp add: unat_of_nat\<close>)
  show ?thesis
    unfolding stack_args_def
  proof (intro conjI allI impI)
    show "r' (wat u (y + length argv)) = 0" using assms(3,5) w by (simp add: stack_args_def)
    fix i
    assume i: "i < length argv"
    then obtain k where k: "r (wat u (y + i)) = d + of_nat k" "k + length (argv ! i) < x"
      "\<forall>j\<le>length (argv ! i). ram_byte r (u + of_nat (k + j)) = (argv ! i @ [0]) ! j"
      using assms(5) unfolding stack_args_def by blast
    moreover have "ram_byte r' (u + of_nat (k + j)) = ram_byte r (u + of_nat (k + j))" if "j \<le> length (argv ! i)" for j
      by (rule b) (use that k(2) assms(4) in simp)
    ultimately show "\<exists>k. r' (wat u (y + i)) = d + of_nat k \<and> k + length (argv ! i) < x \<and>
        (\<forall>j\<le>length (argv ! i). ram_byte r' (u + of_nat (k + j)) = (argv ! i @ [0]) ! j)"
      using w [of "y + i"] i assms(3) by (intro exI [of _ k]) simp
  qed
qed

lemma pass_args_ok:
  fixes s :: "('d, 's) ms"
  assumes k: "kpage t" "kpage u" "t \<noteq> u" and sp: "user_sp (pcb s p) = d + 4096"
    and fit: "8 * (length argv + 1) + arg_size argv \<le> 4096"
  defines "x \<equiv> 4096 - 8 * (length argv + 1)" and "y \<equiv> 511 - length argv"
  shows "\<exists>sp' r. pass_args p (wat t 476) (u + 4096) argv s = (upd_pcb p (user_sp_update (\<lambda>_. sp')) s)\<lparr>ram := r\<rparr> \<and>
    only_pages {t, u} (ram s) r \<and> stack_args u d r y argv x \<and>
    r (wat t 478) = sp' \<and> r (wat t 486) = of_nat (length argv) \<and> r (wat t 487) = d + of_nat x \<and>
    (\<forall>i<512. i \<noteq> 478 \<longrightarrow> i \<noteq> 486 \<longrightarrow> i \<noteq> 487 \<longrightarrow> r (wat t i) = ram s (wat t i))"
proof -
  have len: "length argv < 511" "8 * y = x" "y + length argv < 512" "arg_size argv \<le> x" "x \<le> 8 * y"
    using fit arg_size_length [of argv] by (auto simp: x_def y_def)
  have n: "of_nat x = (4096 - 8 * of_nat (length argv + 1) :: u64)" unfolding x_def using len(1) by (simp add: of_nat_diff)
  have a: "d + 4096 - 8 * of_nat (length argv + 1) = d + of_nat x" "u + 4096 - 8 * of_nat (length argv + 1) = u + of_nat x"
    unfolding n by (simp_all only: add_diff_eq)
  have w: "u + of_nat x = wat u y" unfolding wat_def entry_at_def len(2) [symmetric] by simp
  let ?r1 = "(ram s)(wat t 486 := of_nat (length argv), wat t 487 := d + of_nat x)"
  have on1: "only_pages {t} (ram s) ?r1" by (intro only_wat k(1)) simp_all
  have sel: "ram (s\<lparr>ram := ?r1\<rparr>) = ?r1" "s\<lparr>ram := ?r1\<rparr>\<lparr>ram := q\<rparr> = s\<lparr>ram := q\<rparr>" for q by simp_all
  obtain z r2 where r2: "push_args argv (d + of_nat x) (u + of_nat x) (wat u y) (s\<lparr>ram := ?r1\<rparr>) = (d + of_nat z, s\<lparr>ram := r2\<rparr>)"
    "only_pages {u} ?r1 r2" "stack_args u d r2 y argv x"
    using push_args_ok [OF k(2) len(4,5,3), of d "s\<lparr>ram := ?r1\<rparr>"] unfolding sel by blast
  define sp' where "sp' = push_bit 7 (drop_bit 7 (d + of_nat z))"
  let ?r = "r2(wat t 478 := sp')"
  have on2: "only_pages {t} r2 ?r" by (intro only_wat k(1)) simp_all
  have "only_pages {t, u} (ram s) r2" by (rule only_pages_trans [OF on1 r2(2)]) simp_all
  then have on: "only_pages {t, u} (ram s) ?r" by (rule only_pages_trans [OF _ on2]) simp_all
  have args: "stack_args u d ?r y argv x"
    by (rule stack_args_cong [OF k(2) _ len(3) _ r2(3)]) (use on2 k in \<open>auto simp: only_pages_def x_def simp del: fun_upd_apply\<close>)
  have same: "r2 (wat t i) = ?r1 (wat t i)" if "i < 512" for i
    using r2(2) k that unfolding only_pages_def wat_def by (simp add: unat_of_nat del: fun_upd_apply)
  have regs: "?r (wat t 486) = of_nat (length argv)" "?r (wat t 487) = d + of_nat x"
    "\<And>i. i < 512 \<Longrightarrow> i \<noteq> 478 \<Longrightarrow> i \<noteq> 486 \<Longrightarrow> i \<noteq> 487 \<Longrightarrow> ?r (wat t i) = ram s (wat t i)"
    using same [of 486] same [of 487] same by (simp_all add: wat_eq [OF k(1)])
  have run: "pass_args p (wat t 476) (u + 4096) argv s = (upd_pcb p (user_sp_update (\<lambda>_. sp')) s)\<lparr>ram := ?r\<rparr>"
    unfolding pass_args_def Let_def sp a set_reg_wat wr64_def using r2(1) w
    by (simp add: sp'_def upd_pcb_def del: fun_upd_apply)
  show ?thesis using run on args regs by (intro exI [of _ sp'] exI [of _ ?r]) simp
qed

section \<open>The queue\<close>

lemma qrep_elem:
  assumes "qrep h Q" and "p \<notin> queued Q"
  shows "qrep (h(Elem p := v)) Q"
  unfolding qrep_def
proof (intro conjI allI impI)
  fix q xs
  assume q: "Q q = Some xs"
  have "dll h (Head q) (map Elem xs) = dll (h(Elem p := v)) (Head q) (map Elem xs)"
    by (rule dll_cong) (use assms(2) queued_member [of Q, OF q] in auto)
  then show "dll (h(Elem p := v)) (Head q) (map Elem xs)" using assms(1) q by (simp add: qrep_def)
qed (use assms(1) in \<open>auto simp: qrep_def\<close>)

lemma queue_new:
  fixes s s' :: "'s kstate_scheme"
  assumes inv: "kinv s Q" "no_lost s Q" and p: "p \<in> tasks16" "p \<notin> queued Q" "\<And>c. c < CORE_NUM \<Longrightarrow> core_running s c \<noteq> p"
    and Q: "Q (WaitList p) = None \<or> Q (WaitList p) = Some []" "Q ReadyQueue = Some rs"
    and s': "lists s' = lists (reset_nodes p s)" "core_running s' = core_running s"
      "\<And>q. q \<noteq> p \<Longrightarrow> pid (pcb s' q) = pid (pcb s q) \<and> task_status (pcb s' q) = task_status (pcb s q)" "pid (pcb s' p) \<noteq> 0" "task_status (pcb s' p) = TASK_READY"
  defines "Q' \<equiv> Q(WaitList p \<mapsto> [], ReadyQueue \<mapsto> rs @ [p])"
  shows "\<exists>h. add_queue ReadyQueue p s' = Inr (s'\<lparr>lists := h\<rparr>) \<and> kinv (s'\<lparr>lists := h\<rparr>) Q' \<and> no_lost (s'\<lparr>lists := h\<rparr>) Q'"
proof -
  have k: "kwf s Q" using inv(1) by (simp add: kinv_def)
  let ?Q = "Q(WaitList p \<mapsto> [])"
  have qd: "queued ?Q = queued Q" using Q(1) unfolding queued_def by (auto split: if_splits) (metis option.distinct(1) option.inject empty_iff list.set(1))+
  have "qrep (lists s') ?Q"
    unfolding s'(1) reset_nodes_def using qrep_init [OF qrep_elem [OF kwf_qrep [OF k] p(2)] Q(1)] by simp
  moreover have "pid (pcb s' Pid0Master) = 0" "pid (pcb s' Pid0Slave) = 0" using s'(3) p(1) k by (auto simp: kwf_def)
  ultimately have k': "kwf s' ?Q" using k qd by (simp add: kwf_def s'(2))
  have pq: "p \<notin> queued ?Q" "?Q ReadyQueue = Some rs" using p(2) qd Q(2) by simp_all
  obtain h where h: "add_queue ReadyQueue p s' = Inr (s'\<lparr>lists := h\<rparr>)" "kwf (s'\<lparr>lists := h\<rparr>) Q'"
    using add_queue_ok [OF k' pq(2,1) p(1)] unfolding Q'_def by blast
  have q': "queued Q' = insert p (queued Q)" unfolding Q'_def using queued_upd_snoc [of ?Q ReadyQueue rs p, OF pq(2)] qd by simp
  have "kinv (s'\<lparr>lists := h\<rparr>) Q'" using h(2) inv(1) p(3) by (simp add: kinv_def q' s'(2))
  moreover have "no_lost (s'\<lparr>lists := h\<rparr>) Q'"
    unfolding no_lost_def
  proof
    fix q
    assume q: "q \<in> tasks16"
    show "(q \<in> queued Q' \<or> alive (pcb (s'\<lparr>lists := h\<rparr>) q) \<longrightarrow> pid (pcb (s'\<lparr>lists := h\<rparr>) q) \<noteq> 0) \<and>
      (alive (pcb (s'\<lparr>lists := h\<rparr>) q) \<longrightarrow> q \<in> queued Q' \<or> (\<exists>c<CORE_NUM. core_running (s'\<lparr>lists := h\<rparr>) c = q \<and> task_status (pcb (s'\<lparr>lists := h\<rparr>) q) = TASK_RUNNING))"
    proof (cases "q = p")
      case True
      then show ?thesis using s'(4) by (simp add: q')
    next
      case False
      then show ?thesis using bspec [OF inv(2) [unfolded no_lost_def] q] s'(2) s'(3) [OF False] by (simp add: q' alive_def)
    qed
  qed
  ultimately show ?thesis using h(1) by blast
qed

section \<open>The address space\<close>

definition mem_room :: "nat \<Rightarrow> ('d, 's) ms \<Rightarrow> bool" where
  "mem_room n s \<longleftrightarrow> page_id s + n \<le> PAGE_NUM \<and>
     (\<forall>i. page_id s \<le> i \<longrightarrow> i < page_id s + n \<longrightarrow> pg_status (page_manager s i) = UNUSED) \<and>
     kpage (kernMemCurr s) \<and> unat (kernMemCurr s) + 4096 * n < 2 ^ 64"

lemma start_room:
  assumes "mem_room n s" and "n \<le> 24"
  shows "room n (start_pagetable p s) p"
proof -
  have "dll (plists (start_pagetable p s)) (Head (PageHead p)) []" by (simp add: start_pagetable_def Let_def dll_init)
  then show ?thesis using assms
    unfolding room_def mem_room_def by (auto simp: start_pagetable_def Let_def upd_pcb_def MAX_PAGETABLE_NUM_def intro!: exI [of _ "[]"])
qed

lemma share_pgtable_ok:
  assumes "kpage t" and "kpage g" and "g \<noteq> t"
  shows "\<exists>r. share_pgtable t g s = s\<lparr>ram := r\<rparr> \<and> only_pages {t} (ram s) r \<and> (\<forall>j. unat j < 512 \<longrightarrow> r (entry_at t j) = ram s (entry_at g j))"
proof -
  have gen: "\<exists>r. fold (\<lambda>i s. wr64 (t + 8 * of_nat i) (ram s (g + 8 * of_nat i)) s) [0..<n] s = s\<lparr>ram := r\<rparr> \<and> only_pages {t} (ram s) r \<and>
      (\<forall>i<n. r (wat t i) = ram s (wat g i))" if "n \<le> 512" for n
    using that
  proof (induction n)
    case 0
    show ?case by (intro exI [of _ "ram s"]) simp
  next
    case (Suc n)
    then obtain r where r: "fold (\<lambda>i s. wr64 (t + 8 * of_nat i) (ram s (g + 8 * of_nat i)) s) [0..<n] s = s\<lparr>ram := r\<rparr>" "only_pages {t} (ram s) r"
      "\<forall>i<n. r (wat t i) = ram s (wat g i)" by auto
    have a: "t + 8 * of_nat n = wat t n" "g + 8 * of_nat n = wat g n" by (simp_all add: wat_def entry_at_def)
    have rg: "r (wat g n) = ram s (wat g n)"
      using r(2) assms(2,3) Suc.prems unfolding only_pages_def wat_def by (simp add: unat_of_nat)
    let ?r = "r(wat t n := ram s (wat g n))"
    have "fold (\<lambda>i s. wr64 (t + 8 * of_nat i) (ram s (g + 8 * of_nat i)) s) [0..<Suc n] s = wr64 (wat t n) (r (wat g n)) (s\<lparr>ram := r\<rparr>)"
      by (simp only: upt_Suc_append [OF le0] fold_append o_apply r(1) fold.simps id_apply a) simp
    also have "\<dots> = s\<lparr>ram := ?r\<rparr>" by (simp add: wr64_def rg)
    finally have f: "fold (\<lambda>i s. wr64 (t + 8 * of_nat i) (ram s (g + 8 * of_nat i)) s) [0..<Suc n] s = s\<lparr>ram := ?r\<rparr>" .
    have "only_pages {t} (ram s) ?r" using Suc.prems by (intro only_wat assms(1) r(2)) simp
    moreover have "\<forall>i<Suc n. ?r (wat t i) = ram s (wat g i)" using r(3) wat_eq [OF assms(1)] Suc.prems by (auto simp: less_Suc_eq)
    ultimately show ?case using f by blast
  qed
  obtain r where r: "share_pgtable t g s = s\<lparr>ram := r\<rparr>" "only_pages {t} (ram s) r" "\<forall>i<512. r (wat t i) = ram s (wat g i)"
    using gen [of 512] unfolding share_pgtable_def by auto
  have "r (entry_at t j) = ram s (entry_at g j)" if "unat j < 512" for j using r(3) that by (force simp: wat_def)
  then show ?thesis using r(1,2) by blast
qed

text \<open>
  The new page directory: it has the entries of the kernel's, of which the lower half is not in use, so
  the process has no pages yet.
\<close>

abbreviation KPGDIR :: u64 where
  "KPGDIR \<equiv> pa2kva PGDIR_PA"

lemma kpgdir: "kpage KPGDIR"
  by (simp add: kpage_def pa2kva_def PGDIR_PA_def KVA_OFFSET_def)

lemma fresh_tree:
  assumes "kpage t" and "unat t + 4096 \<le> unat kern" and "\<And>j. unat j < 256 \<Longrightarrow> \<not> PageValid (r (entry_at t j))"
  shows "tree r t kern" and "xlate r t w = None"
proof -
  have tab: "tab_of r t x = (if x = N1 then Some t else None)" for x
    using assms(3) by (cases x) (simp_all add: tab_of_2 tab_of_3)
  show "tree r t kern" using assms(1,2) by (simp add: tree_def tab)
  show "xlate r t w = None" by (simp add: xlate_def tab)
qed

lemma same_proc_upd:
  assumes "same_proc s s'" and "\<And>c. uncounted (f c) = f (uncounted c)"
  shows "same_proc (upd_pcb p f s) (upd_pcb p f s')"
proof -
  have "uncounted (f (pcb s' p)) = uncounted (f (pcb s p))" unfolding assms(2) using assms(1) by (simp add: same_proc_def)
  then show ?thesis using assms(1) by (simp add: same_proc_def upd_pcb_def)
qed

lemma new_pgdir_ok:
  fixes s :: "('d, 's) ms"
  assumes room: "room (Suc n) s p" and g: "unat KPGDIR < unat (kernMemCurr s)"
    and low: "\<And>j. unat j < 256 \<Longrightarrow> \<not> PageValid (ram s (entry_at KPGDIR j))"
  defines "T \<equiv> kernMemCurr s"
  shows "\<exists>i s1 s2. allocPagetable D p UNSWAPABLE s = Inr (i, s1) \<and> pg_kva (page_manager s1 i) = T \<and>
    share_pgtable T KPGDIR (clear_pgdir T (upd_pcb p (pgdir_update (\<lambda>_. T)) s1)) = s2 \<and> room n s2 p \<and>
    kernMemCurr s2 = T + 4096 \<and> tree (ram s2) T (kernMemCurr s2) \<and> (\<forall>w. xlate (ram s2) T w = None) \<and> only_pages {T} (ram s) (ram s2) \<and>
    same_proc (upd_pcb p (pgdir_update (\<lambda>_. T)) s) s2"
proof -
  obtain i s1 where s1: "allocPagetable D p UNSWAPABLE s = Inr (i, s1)" "ram s1 = ram s" "pg_kva (page_manager s1 i) = T"
    "kernMemCurr s1 = T + 4096" "room n s1 p" "same_proc s s1"
    using allocPagetable_fresh [OF room, of D UNSWAPABLE] unfolding T_def by blast
  have T: "kpage T" "KPGDIR \<noteq> T" using room g by (auto simp: room_def T_def)
  let ?u = "upd_pcb p (pgdir_update (\<lambda>_. T)) s1"
  obtain r1 where r1: "clear_pgdir T ?u = ?u\<lparr>ram := r1\<rparr>" using clear_pgdir_frame by blast
  have c: "r1 (entry_at u j) = ram s (entry_at u j)" if "kpage u" "u \<noteq> T" "unat j < 512" for u j
    using clear_pgdir_ram(2) [OF T(1) that, of ?u, unfolded r1] by (simp add: upd_pcb_def s1(2))
  obtain r2 where r2: "share_pgtable T KPGDIR (?u\<lparr>ram := r1\<rparr>) = ?u\<lparr>ram := r1\<rparr>\<lparr>ram := r2\<rparr>" "only_pages {T} r1 r2"
    "\<And>j. unat j < 512 \<Longrightarrow> r2 (entry_at T j) = r1 (entry_at KPGDIR j)"
    using share_pgtable_ok [OF T(1) kpgdir T(2), of "?u\<lparr>ram := r1\<rparr>"] by auto
  let ?s2 = "?u\<lparr>ram := r2\<rparr>"
  have "unat T + 4096 < 2 ^ 64" using room by (simp add: room_def T_def)
  then have k: "unat (T + 4096) = unat T + 4096" by (simp add: unat_plus_if')
  have le: "unat T + 4096 \<le> unat (T + 4096)" using k by simp
  have "\<not> PageValid (r2 (entry_at T j))" if "unat j < 256" for j
    using r2(3) [of j] c [OF kpgdir T(2), of j] low [OF that] that by simp
  note ft = fresh_tree [of T "T + 4096" r2, OF T(1) le this]
  have "only_pages {T} (ram s) r2"
    unfolding only_pages_def using r2(2) c by (auto simp: only_pages_def)
  moreover have "room n ?s2 p" using s1(5) by (simp add: room_def upd_pcb_def)
  moreover have "same_proc (upd_pcb p (pgdir_update (\<lambda>_. T)) s) ?s2"
    using same_proc_upd [OF s1(6), of "pgdir_update (\<lambda>_. T)" p] by (simp add: same_proc_def upd_pcb_def)
  moreover have "kernMemCurr ?s2 = T + 4096" using s1(4) by (simp add: upd_pcb_def)
  ultimately show ?thesis using s1(1,3) r1 r2(1) ft
    by (intro exI [of _ i] exI [of _ s1] exI [of _ ?s2]) simp
qed


text \<open>
  What \<open>do_exec\<close> has built before it loads the program: a page directory \<open>T\<close>, a kernel stack \<open>K\<close> and a
  page \<open>U\<close> for the user stack, which is all that is mapped.
\<close>

abbreviation USTACK :: u64 where
  "USTACK \<equiv> USER_STACK_ADDR - PAGE_SIZE"

definition prepared :: "pcb_ref \<Rightarrow> u64 \<Rightarrow> u64 \<Rightarrow> ('d, 's) ms \<Rightarrow> ('d, 's) ms" where
  "prepared p T ksp s = set_stacks p ksp USER_STACK_ADDR (upd_pcb p (pgdir_update (\<lambda>_. T)) (start_pagetable p s))"

definition new_space :: "pcb_ref \<Rightarrow> u64 \<Rightarrow> u64 \<Rightarrow> u64 \<Rightarrow> nat \<Rightarrow> ('d, 's) ms \<Rightarrow> bool" where
  "new_space p T K U n s \<longleftrightarrow> tree (ram s) T (kernMemCurr s) \<and> room n s p \<and> kpage K \<and> kpage U \<and> K \<noteq> U \<and>
     (\<forall>t\<in>{K, U}. unat t + 4096 \<le> unat (kernMemCurr s) \<and> (\<forall>x. tab_of (ram s) T x \<noteq> Some t)) \<and>
     (\<forall>w. xlate (ram s) T w = (if vpn w = vpn USTACK then Some (kva2pa U) else None))"

lemma ustack: "unat USTACK = 0xf0000f000" "unat (GetVPN2 USTACK) < 256"
  by (simp_all add: USER_STACK_ADDR_def PAGE_SIZE_def GetVPN2_def VPN_MASK_def)

lemma stacks_ok:
  fixes s :: "('d, 's) ms"
  assumes tr: "tree (ram s) T (kernMemCurr s)" and T: "T = pgdir (pcb s p)" and room: "room (Suc (Suc (Suc (Suc n)))) s p"
    and new: "\<And>w. xlate (ram s) T w = None"
  defines "K \<equiv> kernMemCurr s"
  shows "\<exists>i s1 U s2. allocPagetable D p UNSWAPABLE s = Inr (i, s1) \<and> pg_kva (page_manager s1 i) = K \<and>
    alloc_page_helper D USTACK p UNSWAPABLE (set_stacks p (K + 4096) USER_STACK_ADDR s1) = Inr (U, s2) \<and>
    new_space p T K U n s2 \<and> same_proc (set_stacks p (K + 4096) USER_STACK_ADDR s) s2"
proof -
  obtain i s1 where s1: "allocPagetable D p UNSWAPABLE s = Inr (i, s1)" "ram s1 = ram s" "pg_kva (page_manager s1 i) = K"
    "kernMemCurr s1 = K + 4096" "room (Suc (Suc (Suc n))) s1 p" "same_proc s s1"
    using allocPagetable_fresh [OF room, of D UNSWAPABLE] unfolding K_def by blast
  have K: "kpage K" "unat (K + 4096) = unat K + 4096" using room by (simp_all add: room_def K_def unat_plus_if')
  let ?u = "set_stacks p (K + 4096) USER_STACK_ADDR s1"
  have u: "ram ?u = ram s" "kernMemCurr ?u = K + 4096" "pgdir (pcb ?u p) = T"
    using same_proc_fields(1) [OF s1(6)] T s1(2,4) by (simp_all add: set_stacks_def upd_pcb_def)
  have tru: "tree (ram ?u) T (kernMemCurr ?u)" unfolding u by (rule tree_mono [OF tr]) (simp add: K(2) flip: K_def)
  have ru: "room (Suc (Suc (Suc n))) ?u p" using s1(5) by (simp add: room_def set_stacks_def upd_pcb_def)
  have sp: "same_proc (set_stacks p (K + 4096) USER_STACK_ADDR s) ?u"
    unfolding set_stacks_def by (rule same_proc_upd [OF s1(6)]) simp
  obtain U s2 where s2: "alloc_page_helper D USTACK p UNSWAPABLE ?u = Inr (U, s2)" "reaches T ?u s2" "room n s2 p"
    "\<forall>w. xlate (ram s2) T w = (if vpn w = vpn USTACK then Some (kva2pa U) else None)"
    "unat (K + 4096) \<le> unat U" "unat U + 4096 \<le> unat (kernMemCurr s2)" "kpage U" "tree (ram s2) T U"
    using alloc_page_helper_grow [OF tru u(3) [symmetric] ru ustack(2), of D UNSWAPABLE] unfolding u(1,2) new by auto
  have "tab_of (ram s2) T x \<noteq> Some K" for x
  proof
    assume "tab_of (ram s2) T x = Some K"
    then have "tab_of (ram s) T x = Some K \<or> unat (K + 4096) \<le> unat K" using reachesD [OF s2(2)] u by metis
    then show False using tree_kpage [OF tr, of x K] K(2) by (auto simp: K_def)
  qed
  moreover have "tab_of (ram s2) T x \<noteq> Some U" for x using tree_kpage [OF s2(8), of x U] by blast
  moreover have "tree (ram s2) T (kernMemCurr s2)" "same_proc ?u s2" using s2(2) by (simp_all add: reaches_def)
  moreover have "K \<noteq> U" using s2(5) K(2) by auto
  ultimately have "new_space p T K U n s2" "same_proc (set_stacks p (K + 4096) USER_STACK_ADDR s) s2"
    using s2 K sp same_proc_trans [OF sp] by (simp_all add: new_space_def)
  then show ?thesis using s1(1,3) s2(1) by blast
qed

lemma exec_space_ok:
  fixes s :: "('d, 's) ms"
  assumes room: "mem_room (5 + n) s" "5 + n \<le> 24" and g: "unat KPGDIR < unat (kernMemCurr s)"
    and low: "\<And>j. unat j < 256 \<Longrightarrow> \<not> PageValid (ram s (entry_at KPGDIR j))"
  defines "T \<equiv> kernMemCurr s"
  shows "\<exists>U s1. new_space p T (T + 4096) U n s1 \<and> same_proc (prepared p T (T + 4096 + 4096) s) s1 \<and>
    (\<forall>f. bindE (allocPagetable D p UNSWAPABLE (start_pagetable p s)) (\<lambda>(temp_page, s).
       let tab = pg_kva (page_manager s temp_page);
           s = upd_pcb p (pgdir_update (\<lambda>_. tab)) s;
           s = clear_pgdir tab s;
           s = share_pgtable tab (pa2kva PGDIR_PA) s
       in bindE (allocPagetable D p UNSWAPABLE s) (\<lambda>(temp_page, s).
          let s = set_stacks p (pg_kva (page_manager s temp_page) + PAGE_SIZE) USER_STACK_ADDR s
          in bindE (alloc_page_helper D (user_sp (pcb s p) - PAGE_SIZE) p UNSWAPABLE s) f)) = f (U, s1))"
proof -
  let ?s = "start_pagetable p s"
  have st: "ram ?s = ram s" "kernMemCurr ?s = T" by (simp_all add: start_pagetable_def Let_def upd_pcb_def T_def)
  have "room (Suc (Suc (Suc (Suc (Suc n))))) ?s p" using start_room [OF room(1), of p] room(2) by (simp add: eval_nat_numeral)
  moreover have "unat KPGDIR < unat (kernMemCurr ?s)" "\<And>j. unat j < 256 \<Longrightarrow> \<not> PageValid (ram ?s (entry_at KPGDIR j))"
    using g low unfolding st T_def by blast+
  ultimately obtain i s1 s2 where s2: "allocPagetable D p UNSWAPABLE ?s = Inr (i, s1)" "pg_kva (page_manager s1 i) = T"
    "share_pgtable T KPGDIR (clear_pgdir T (upd_pcb p (pgdir_update (\<lambda>_. T)) s1)) = s2" "room (Suc (Suc (Suc (Suc n)))) s2 p"
    "kernMemCurr s2 = T + 4096" "tree (ram s2) T (kernMemCurr s2)" "\<And>w. xlate (ram s2) T w = None"
    "same_proc (upd_pcb p (pgdir_update (\<lambda>_. T)) ?s) s2"
    using new_pgdir_ok [of "Suc (Suc (Suc (Suc n)))" ?s p D] unfolding st by blast
  have "T = pgdir (pcb s2 p)" using same_proc_fields(1) [OF s2(8), of p] by (simp add: upd_pcb_def)
  from stacks_ok [OF s2(6) this s2(4,7), of D, unfolded s2(5)] obtain j s3 U s4 where
    s4: "allocPagetable D p UNSWAPABLE s2 = Inr (j, s3)" "pg_kva (page_manager s3 j) = T + 4096"
    "alloc_page_helper D USTACK p UNSWAPABLE (set_stacks p (T + 4096 + 4096) USER_STACK_ADDR s3) = Inr (U, s4)"
    "new_space p T (T + 4096) U n s4" "same_proc (set_stacks p (T + 4096 + 4096) USER_STACK_ADDR s2) s4" by blast
  have "same_proc (prepared p T (T + 4096 + 4096) s) (set_stacks p (T + 4096 + 4096) USER_STACK_ADDR s2)"
    unfolding prepared_def set_stacks_def by (rule same_proc_upd [OF s2(8)]) simp
  then have "same_proc (prepared p T (T + 4096 + 4096) s) s4" using s4(5) by (rule same_proc_trans)
  moreover have "user_sp (pcb (set_stacks p ksp USER_STACK_ADDR s3) p) = USER_STACK_ADDR" "PAGE_SIZE = 4096" for ksp
    by (simp_all add: set_stacks_def upd_pcb_def PAGE_SIZE_def)
  ultimately show ?thesis using s2(1,2) s4(1-4) by (intro exI [of _ U] exI [of _ s4]) (simp add: Let_def s2(3))
qed


section \<open>The whole of exec\<close>

text \<open>What the program sees: the 64-bit word at a user address, and an argument vector there.\<close>

definition user_word :: "(u64 \<Rightarrow> u64) \<Rightarrow> u64 \<Rightarrow> u64 \<Rightarrow> u64 option" where
  "user_word r T va = map_option (\<lambda>pa. r (pa2kva pa + (va AND 0xfff))) (xlate r T va)"

definition user_args :: "(u64 \<Rightarrow> u64) \<Rightarrow> u64 \<Rightarrow> u64 \<Rightarrow> u8 list list \<Rightarrow> bool" where
  "user_args r T a argv \<longleftrightarrow> user_word r T (a + 8 * of_nat (length argv)) = Some 0 \<and>
     (\<forall>i<length argv. \<exists>b. user_word r T (a + 8 * of_nat i) = Some b \<and>
        (\<forall>j\<le>length (argv ! i). user_byte r T (b + of_nat j) = Some ((argv ! i @ [0]) ! j)))"

lemma stack_args_user:
  assumes args: "stack_args U USTACK r y argv (8 * y)" and y: "y + length argv < 512" and x: "xlate r T USTACK = Some (kva2pa U)"
  shows "user_args r T (USTACK + of_nat (8 * y)) argv"
proof -
  have va: "4096 dvd unat USTACK" "unat USTACK + 4096 * 1 \<le> 2 ^ 38" unfolding ustack by simp_all
  have p0: "page_va USTACK 0 = USTACK" by (simp add: page_va_def)
  note pa = page_addr [OF va zero_less_one, unfolded p0]
  have xl: "xlate r T (USTACK + of_nat k) = Some (kva2pa U)" if "k < 4096" for k
    using xlate_vpn [OF pa(2) [OF that], of r T] x by simp
  have w: "user_word r T (USTACK + of_nat (8 * y) + 8 * of_nat i) = Some (r (wat U (y + i)))" if "y + i < 512" for i
  proof -
    have e: "USTACK + of_nat (8 * y) + 8 * of_nat i = USTACK + of_nat (8 * (y + i))" by simp
    have k: "8 * (y + i) < 4096" using that by simp
    show ?thesis unfolding user_word_def e xl [OF k] pa(3) [OF k] by (simp add: wat_def entry_at_def)
  qed
  have b: "user_byte r T (USTACK + of_nat k) = Some (ram_byte r (U + of_nat k))" if "k < 4096" for k
    unfolding user_byte_def xl [OF that] pa(3) [OF that] by simp
  show ?thesis
    unfolding user_args_def
  proof (intro conjI allI impI)
    show "user_word r T (USTACK + of_nat (8 * y) + 8 * of_nat (length argv)) = Some 0"
      using w [OF y] args by (simp add: stack_args_def)
    fix i
    assume i: "i < length argv"
    then obtain k where k: "r (wat U (y + i)) = USTACK + of_nat k" "k + length (argv ! i) < 8 * y"
      "\<And>j. j \<le> length (argv ! i) \<Longrightarrow> ram_byte r (U + of_nat (k + j)) = (argv ! i @ [0]) ! j"
      using args unfolding stack_args_def by blast
    have "user_byte r T (USTACK + of_nat k + of_nat j) = Some ((argv ! i @ [0]) ! j)" if j: "j \<le> length (argv ! i)" for j
    proof -
      have "k + j < 4096" using j k(2) y by linarith
      from b [OF this] show ?thesis unfolding k(3) [OF j] by (simp add: add.assoc)
    qed
    then show "\<exists>b. user_word r T (USTACK + of_nat (8 * y) + 8 * of_nat i) = Some b \<and>
        (\<forall>j\<le>length (argv ! i). user_byte r T (b + of_nat j) = Some ((argv ! i @ [0]) ! j))"
      using w [of i] i y k(1) by (intro exI [of _ "USTACK + of_nat k"]) simp
  qed
qed

text \<open>
  \<open>start_frame A p r c entry argc argv\<close>: when the scheduler switches to the process \<open>p\<close> with PCB \<open>c\<close>,
  \<open>switch_to\<close> returns to \<open>ret_from_exception\<close>, and that restores a trap frame whose program counter
  is \<open>entry\<close> and whose stack pointer, thread pointer and first two arguments are the given ones.
\<close>

definition start_frame :: "kaddr \<Rightarrow> pcb_ref \<Rightarrow> (u64 \<Rightarrow> u64) \<Rightarrow> pcb_t \<Rightarrow> u64 \<Rightarrow> u64 \<Rightarrow> u64 \<Rightarrow> bool" where
  "start_frame A p r c entry argc argv \<longleftrightarrow>
     r (kernel_sp c) = ret_from_exception A \<and>
     (let regs = kernel_sp c + SWITCHTO_SIZE
      in r (regs + 8 * 33) = entry \<and> r (regs + 8 * 2) = user_sp c \<and> r (regs + 8 * 4) = pcb_addr A p \<and>
         r (regs + 8 * 10) = argc \<and> r (regs + 8 * 11) = argv)"

lemma start_frame_wat:
  assumes "kernel_sp c = wat t 462" and "r (wat t 462) = ret_from_exception A" and "r (wat t 509) = entry" and "r (wat t 478) = user_sp c"
    and "r (wat t 480) = pcb_addr A p" and "r (wat t 486) = argc" and "r (wat t 487) = argv"
  shows "start_frame A p r c entry argc argv"
proof -
  have "wat t 462 + SWITCHTO_SIZE + 8 * of_nat k = wat t (476 + k)" for k by (simp add: SWITCHTO_SIZE_def wat_def entry_at_def)
  from this [of 33] this [of 2] this [of 4] this [of 10] this [of 11] assms show ?thesis by (simp add: start_frame_def)
qed


lemma frame_args_ok:
  fixes s :: "('d, 's) ms"
  assumes k: "kpage K" "kpage U" "K \<noteq> U" and sp: "kernel_sp (pcb s p) = K + 4096" "user_sp (pcb s p) = USER_STACK_ADDR"
    and fit: "8 * (length argv + 1) + arg_size argv \<le> 4096"
  defines "y \<equiv> 511 - length argv"
  shows "\<exists>sp r. (case init_frame A p entry s of (regs, s) \<Rightarrow> pass_args p regs (U + PAGE_SIZE) argv s) =
      (upd_pcb p (\<lambda>c. c\<lparr>kernel_sp := wat K 462, user_sp := sp\<rparr>) s)\<lparr>ram := r\<rparr> \<and> only_pages {K, U} (ram s) r \<and>
    start_frame A p r ((pcb s p)\<lparr>kernel_sp := wat K 462, user_sp := sp\<rparr>) entry (of_nat (length argv)) (USTACK + of_nat (8 * y)) \<and>
    stack_args U USTACK r y argv (8 * y)"
proof -
  obtain r1 where r1: "init_frame A p entry s = (wat K 476, (upd_pcb p (kernel_sp_update (\<lambda>_. wat K 462)) s)\<lparr>ram := r1\<rparr>)"
    "only_pages {K} (ram s) r1" "r1 (wat K 509) = entry" "r1 (wat K 480) = pcb_addr A p" "r1 (wat K 462) = ret_from_exception A"
    using init_frame_ok [OF k(1) sp(1), of A entry] by blast
  let ?s1 = "(upd_pcb p (kernel_sp_update (\<lambda>_. wat K 462)) s)\<lparr>ram := r1\<rparr>"
  have s1: "user_sp (pcb ?s1 p) = USTACK + 4096" using sp(2) by (simp add: upd_pcb_def PAGE_SIZE_def)
  have y: "4096 - 8 * (length argv + 1) = 8 * y" unfolding y_def by simp
  have rs: "ram ?s1 = r1" by simp
  obtain sp' r where r: "pass_args p (wat K 476) (U + 4096) argv ?s1 = (upd_pcb p (user_sp_update (\<lambda>_. sp')) ?s1)\<lparr>ram := r\<rparr>"
    "only_pages {K, U} r1 r" "stack_args U USTACK r y argv (8 * y)"
    "r (wat K 478) = sp'" "r (wat K 486) = of_nat (length argv)" "r (wat K 487) = USTACK + of_nat (8 * y)"
    "\<And>i. i < 512 \<Longrightarrow> i \<noteq> 478 \<Longrightarrow> i \<noteq> 486 \<Longrightarrow> i \<noteq> 487 \<Longrightarrow> r (wat K i) = r1 (wat K i)"
    using pass_args_ok [OF k s1 fit] unfolding y y_def [symmetric] rs by blast
  have "start_frame A p r ((pcb s p)\<lparr>kernel_sp := wat K 462, user_sp := sp'\<rparr>) entry (of_nat (length argv)) (USTACK + of_nat (8 * y))"
    by (rule start_frame_wat [of _ K]) (use r(4-6) r(7) [of 509] r(7) [of 480] r(7) [of 462] r1(3-5) in simp_all)
  moreover have "only_pages {K, U} (ram s) r" by (rule only_pages_trans [OF r1(2) r(2)]) simp_all
  moreover have "(case init_frame A p entry s of (regs, s) \<Rightarrow> pass_args p regs (U + PAGE_SIZE) argv s) =
      (upd_pcb p (\<lambda>c. c\<lparr>kernel_sp := wat K 462, user_sp := sp'\<rparr>) s)\<lparr>ram := r\<rparr>"
    unfolding r1(1) prod.case PAGE_SIZE_def r(1) by (simp add: upd_pcb_def)
  ultimately show ?thesis using r(3) by blast
qed

lemma prepared_pcb:
  assumes "same_proc (prepared p T ksp s) s'"
  shows "pgdir (pcb s' p) = T" and "kernel_sp (pcb s' p) = ksp" and "user_sp (pcb s' p) = USER_STACK_ADDR" and "task_status (pcb s' p) = TASK_READY"
    and "q \<noteq> p \<Longrightarrow> pid (pcb s' q) = pid (pcb s q) \<and> task_status (pcb s' q) = task_status (pcb s q)"
    and "core_running s' = core_running s" and "lists s' = lists s" and "process_id s' = process_id s" and "sdc s' = sdc s"
proof -
  let ?s = "prepared p T ksp s"
  have u: "uncounted (pcb s' p) = uncounted (pcb ?s p)" using assms by (simp add: same_proc_def)
  have s: "pgdir (pcb ?s p) = T" "kernel_sp (pcb ?s p) = ksp" "user_sp (pcb ?s p) = USER_STACK_ADDR" "task_status (pcb ?s p) = TASK_READY"
    "q \<noteq> p \<Longrightarrow> pcb ?s q = pcb s q" "core_running ?s = core_running s" "lists ?s = lists s" "process_id ?s = process_id s" "sdc ?s = sdc s"
    by (simp_all add: prepared_def set_stacks_def start_pagetable_def upd_pcb_def Let_def)
  have "kernel_sp (uncounted (pcb s' p)) = ksp" "user_sp (uncounted (pcb s' p)) = USER_STACK_ADDR" unfolding u using s(2,3) by simp_all
  then show "kernel_sp (pcb s' p) = ksp" "user_sp (pcb s' p) = USER_STACK_ADDR" by simp_all
  note f = same_proc_fields [OF assms]
  show "pgdir (pcb s' p) = T" "task_status (pcb s' p) = TASK_READY" using f [of p] s(1,4) by simp_all
  show "q \<noteq> p \<Longrightarrow> pid (pcb s' q) = pid (pcb s q) \<and> task_status (pcb s' q) = task_status (pcb s q)" using f [of q] s(5) by simp
  show "core_running s' = core_running s" "lists s' = lists s" "process_id s' = process_id s" "sdc s' = sdc s"
    using assms s(6-9) by (simp_all add: same_proc_def)
qed

text \<open>The program is loaded beside the stacks.\<close>

lemma load_beside:
  fixes s :: "('d, 's) ms"
  assumes sp: "new_space p T K U (3 * n) s" "pgdir (pcb s p) = T"
    and find: "find (\<lambda>j. task_name (tasks j) = name) [0..<TASK_MAXNUM] = Some i"
    and at: "task_at (tasks i) name b e" "b \<le> e" "e < 2 ^ 25" and n: "n = (unat (memsz (tasks i)) + 4095) div 4096"
    and va: "4096 dvd unat (entry_addr (tasks i))" "unat (entry_addr (tasks i)) + 4096 * n \<le> 0xf0000f000"
  shows "\<exists>s'. load_task_img D tasks name (Some p) s = Inr (entry_addr (tasks i), s') \<and> same_proc s s' \<and>
    (\<forall>k<n. in_place D (of_nat (b div 512)) (b mod 512) (e - b) T (entry_addr (tasks i)) k s s') \<and>
    (\<forall>x t. tab_of (ram s') T x = Some t \<longrightarrow> kpage t \<and> t \<notin> {K, U}) \<and> xlate (ram s') T USTACK = Some (kva2pa U)"
proof -
  let ?va = "entry_addr (tasks i)"
  have va38: "unat ?va + 4096 * n \<le> 2 ^ 38" using va(2) by simp
  have u: "unat (page_va ?va k) = unat ?va + 4096 * k" if "k < n" for k using page_addr(1) [OF va(1) va38 that, of 0] by simp
  have dif: "vpn (page_va ?va k) \<noteq> vpn USTACK" if "k < n" for k
  proof -
    have l: "unat (page_va ?va k) < 0xf0000f000" using u [OF that] va(2) that by linarith
    then have "unat (page_va ?va k) div 4096 < 0xf0000f" by (simp add: less_mult_imp_div_less)
    then show ?thesis using vpn_eq_iff [of "page_va ?va k" USTACK] l unfolding ustack by simp
  qed
  have T: "tree (ram s) T (kernMemCurr s)" "T = pgdir (pcb s p)" "room (3 * n) s p" using sp by (simp_all add: new_space_def)
  have new: "\<forall>k<n. xlate (ram s) T (page_va ?va k) = None" using sp(1) dif by (simp add: new_space_def)
  obtain s' where s': "load_task_img D tasks name (Some p) s = Inr (?va, s')" "reaches T s s'"
    "\<forall>k<n. in_place D (of_nat (b div 512)) (b mod 512) (e - b) T ?va k s s'"
    "\<And>w. (\<And>k. k < n \<Longrightarrow> vpn w \<noteq> vpn (page_va ?va k)) \<Longrightarrow> xlate (ram s') T w = xlate (ram s) T w"
    using load_task_img_run [OF find at, of s T p D] T va(1) va38 new unfolding n by blast
  have tab: "kpage t \<and> t \<notin> {K, U}" if "tab_of (ram s') T x = Some t" for x t
  proof -
    have "tab_of (ram s) T x = Some t \<or> unat (kernMemCurr s) \<le> unat t" "kpage t"
      using reachesD [OF s'(2)] that by (blast, meson tree_kpage)
    then show ?thesis using sp(1) unfolding new_space_def by fastforce
  qed
  have "xlate (ram s') T USTACK = Some (kva2pa U)" using s'(4) [of USTACK] dif sp(1) by (metis new_space_def)
  moreover have "same_proc s s'" using s'(2) by (simp add: reaches_def)
  ultimately show ?thesis using s'(1,3) tab by blast
qed


text \<open>The end of \<open>do_exec\<close>: the process gets its number and its frame and is queued.\<close>

lemma do_exec_finish:
  fixes s :: "('d, 's) ms"
  assumes run: "find_free_pcb s = Inr p" "new_space p T K U n s1" "same_proc (prepared p T (K + 4096) s) s1"
      "load_task_img D tasks name (Some p) s1 = Inr (entry, s2)" "same_proc s1 s2"
    and space: "\<And>f :: u64 \<times> ('d, 's) ms \<Rightarrow> (int \<times> ('d, 's) ms) res. bindE (allocPagetable D p UNSWAPABLE (start_pagetable p s)) (\<lambda>(temp_page, s).
       let tab = pg_kva (page_manager s temp_page);
           s = upd_pcb p (pgdir_update (\<lambda>_. tab)) s;
           s = clear_pgdir tab s;
           s = share_pgtable tab (pa2kva PGDIR_PA) s
       in bindE (allocPagetable D p UNSWAPABLE s) (\<lambda>(temp_page, s).
          let s = set_stacks p (pg_kva (page_manager s temp_page) + PAGE_SIZE) USER_STACK_ADDR s
          in bindE (alloc_page_helper D (user_sp (pcb s p) - PAGE_SIZE) p UNSWAPABLE s) f)) = f (U, s1)"
    and inv: "kinv s Q" "no_lost s Q" and p: "p \<in> tasks16" "p \<notin> queued Q" "\<And>c. c < CORE_NUM \<Longrightarrow> core_running s c \<noteq> p"
    and Q: "Q (WaitList p) = None \<or> Q (WaitList p) = Some []" "Q ReadyQueue = Some rs" and pid: "process_id s \<noteq> 0"
    and fit: "8 * (length argv + 1) + arg_size argv \<le> 4096"
  defines "Q' \<equiv> Q(WaitList p \<mapsto> [], ReadyQueue \<mapsto> rs @ [p])" and "y \<equiv> 511 - length argv"
  shows "\<exists>s'. do_exec D A tasks cpu name argv s = Inr (process_id s, s') \<and> kinv s' Q' \<and> no_lost s' Q' \<and>
    process_id s' = process_id s + 1 \<and> pid (pcb s' p) = process_id s \<and> task_status (pcb s' p) = TASK_READY \<and> pgdir (pcb s' p) = T \<and>
    kernMemCurr s' = kernMemCurr s2 \<and> only_pages {K, U} (ram s2) (ram s') \<and>
    start_frame A p (ram s') (pcb s' p) entry (of_nat (length argv)) (USTACK + of_nat (8 * y)) \<and> stack_args U USTACK (ram s') y argv (8 * y)"
proof -
  have sp: "same_proc (prepared p T (K + 4096) s) s2" using run(3,5) by (rule same_proc_trans)
  note f = prepared_pcb [OF sp]
  define s3 where "s3 = upd_pcb p (task_mask_update (\<lambda>_. task_mask (pcb
      (upd_pcb p (\<lambda>r. r\<lparr>pid := process_id s2, childnum := 0, cursor_x := 0, cursor_y := 0, wakeup_time := 0, task_mode := USER\<rparr>)
        ((reset_nodes p s2)\<lparr>process_id := process_id s2 + 1\<rparr>)) (core_running s2 cpu))))
      (upd_pcb p (\<lambda>r. r\<lparr>pid := process_id s2, childnum := 0, cursor_x := 0, cursor_y := 0, wakeup_time := 0, task_mode := USER\<rparr>)
        ((reset_nodes p s2)\<lparr>process_id := process_id s2 + 1\<rparr>))"
  have s3: "kernel_sp (pcb s3 p) = K + 4096" "user_sp (pcb s3 p) = USER_STACK_ADDR" "ram s3 = ram s2" "kernMemCurr s3 = kernMemCurr s2"
    "process_id s3 = process_id s + 1" "pid (pcb s3 p) = process_id s" "task_status (pcb s3 p) = TASK_READY" "pgdir (pcb s3 p) = T"
    "lists s3 = lists (reset_nodes p s)" "core_running s3 = core_running s"
    "\<And>q. q \<noteq> p \<Longrightarrow> pcb s3 q = pcb s2 q"
    using f by (simp_all add: s3_def upd_pcb_def reset_nodes_def)
  have k: "kpage K" "kpage U" "K \<noteq> U" using run(2) by (simp_all add: new_space_def)
  obtain usp r where r: "(case init_frame A p entry s3 of (regs, s) \<Rightarrow> pass_args p regs (U + PAGE_SIZE) argv s) =
      (upd_pcb p (\<lambda>c. c\<lparr>kernel_sp := wat K 462, user_sp := usp\<rparr>) s3)\<lparr>ram := r\<rparr>" "only_pages {K, U} (ram s2) r"
    "start_frame A p r ((pcb s3 p)\<lparr>kernel_sp := wat K 462, user_sp := usp\<rparr>) entry (of_nat (length argv)) (USTACK + of_nat (8 * y))"
    "stack_args U USTACK r y argv (8 * y)"
    using frame_args_ok [OF k s3(1,2) fit, of A entry] unfolding y_def s3(3) by blast
  let ?s4 = "(upd_pcb p (\<lambda>c. c\<lparr>kernel_sp := wat K 462, user_sp := usp\<rparr>) s3)\<lparr>ram := r\<rparr>"
  have s4: "lists ?s4 = lists (reset_nodes p s)" "core_running ?s4 = core_running s"
    "\<And>q. q \<noteq> p \<Longrightarrow> pid (pcb ?s4 q) = pid (pcb s q) \<and> task_status (pcb ?s4 q) = task_status (pcb s q)" "pid (pcb ?s4 p) \<noteq> 0" "task_status (pcb ?s4 p) = TASK_READY"
    using s3 f(5) pid by (simp_all add: upd_pcb_def)
  obtain h where h: "add_queue ReadyQueue p ?s4 = Inr (?s4\<lparr>lists := h\<rparr>)" "kinv (?s4\<lparr>lists := h\<rparr>) Q'" "no_lost (?s4\<lparr>lists := h\<rparr>) Q'"
    using queue_new [OF inv p Q s4] unfolding Q'_def by blast
  have e: "do_exec D A tasks cpu name argv s = bindE (load_task_img D tasks name (Some p) s1) (\<lambda>(entry, s).
       let s = reset_nodes p s;
           new_pid = process_id s;
           s = s\<lparr>process_id := process_id s + 1\<rparr>;
           s = upd_pcb p (\<lambda>r. r\<lparr>pid := new_pid, childnum := 0, cursor_x := 0, cursor_y := 0, wakeup_time := 0, task_mode := USER\<rparr>) s;
           s = upd_pcb p (task_mask_update (\<lambda>_. task_mask (pcb s (core_running s cpu)))) s;
           (pt_regs, s) = init_frame A p entry s;
           s = pass_args p pt_regs (U + PAGE_SIZE) argv s
       in bindE (add_queue ReadyQueue p s) (\<lambda>s. Inr (pid (pcb s p), s)))"
    unfolding do_exec_def run(1) bindE_Inr space prod.case ..
  have cr: "core_running (upd_pcb p g ((reset_nodes p s2)\<lparr>process_id := v\<rparr>)) = core_running s2" "process_id (reset_nodes p s2) = process_id s2" for g v
    by (simp_all add: upd_pcb_def reset_nodes_def)
  have "do_exec D A tasks cpu name argv s = bindE (add_queue ReadyQueue p
      (case init_frame A p entry s3 of (regs, s) \<Rightarrow> pass_args p regs (U + PAGE_SIZE) argv s)) (\<lambda>s. Inr (pid (pcb s p), s))"
    unfolding e run(4) bindE_Inr prod.case Let_def cr s3_def [symmetric] by (cases "init_frame A p entry s3") (simp only: prod.case)
  then have "do_exec D A tasks cpu name argv s = Inr (process_id s, ?s4\<lparr>lists := h\<rparr>)"
    unfolding r(1) h(1) by (simp add: upd_pcb_def s3(6))
  then show ?thesis using h(2,3) r(2-4) s3 by (intro exI [of _ "?s4\<lparr>lists := h\<rparr>"]) (simp add: upd_pcb_def)
qed


section \<open>Properties\<close>

lemma find_free_pcb_task: "find_free_pcb s = Inr p \<Longrightarrow> p \<in> tasks16"
  by (auto simp: find_free_pcb_def find_Some_iff split: option.splits)

text \<open>
  C8: what \<open>do_exec\<close> does for a program of the card.  The result is the next process number; the new
  process is ready, behind all others on the ready queue, and the queues and the processes on the cores
  are in order as before.  In its own address space it finds the program's bytes at the entry
  address.  Its first switch goes through \<open>ret_from_exception\<close> to the entry address with \<open>argc\<close> and
  \<open>argv\<close> in the argument registers, and at \<open>argv\<close> on its stack it finds the pointers to copies of all
  argument strings, ended by a null pointer.  The entry address must be page aligned with the program
  below the stack, the arguments must fit the stack page, and there must be memory for the program:
  \<open>do_exec\<close> gives a process 24 pages in all, of which each page of the program takes three at most.
\<close>

theorem exec_starts_program:
  fixes s :: "('d, 's) ms"
  assumes inv: "kinv s Q" "no_lost s Q" and p: "find_free_pcb s = Inr p" "p \<notin> queued Q" "\<forall>c<CORE_NUM. core_running s c \<noteq> p"
    and Q: "Q (WaitList p) = None \<or> Q (WaitList p) = Some []" "Q ReadyQueue = Some rs" and pid: "process_id s \<noteq> 0"
    and find: "find (\<lambda>j. task_name (tasks j) = name) [0..<TASK_MAXNUM] = Some i"
    and at: "task_at (tasks i) name b e" "b \<le> e" "e < 2 ^ 25" "e \<le> length bytes" and card: "on_card D (sdc s) bytes"
  defines "va \<equiv> entry_addr (tasks i)" and "n \<equiv> (unat (memsz (tasks i)) + 4095) div 4096"
  assumes va: "4096 dvd unat va" "unat va + 4096 * n \<le> 0xf0000f000" and room: "mem_room (5 + 3 * n) s" "n \<le> 6"
    and kpg: "unat KPGDIR < unat (kernMemCurr s)" "\<forall>j. unat j < 256 \<longrightarrow> \<not> PageValid (ram s (entry_at KPGDIR j))"
    and fit: "8 * (length argv + 1) + arg_size argv \<le> 4096"
  defines "Q' \<equiv> Q(WaitList p \<mapsto> [], ReadyQueue \<mapsto> rs @ [p])"
  shows "\<exists>s' T a. do_exec D A tasks cpu name argv s = Inr (process_id s, s') \<and> kinv s' Q' \<and> no_lost s' Q' \<and>
    process_id s' = process_id s + 1 \<and> pid (pcb s' p) = process_id s \<and> task_status (pcb s' p) = TASK_READY \<and> pgdir (pcb s' p) = T \<and>
    code_at (ram s') T va (take (e - b) (drop b bytes)) n \<and>
    start_frame A p (ram s') (pcb s' p) va (of_nat (length argv)) a \<and> user_args (ram s') T a argv"
proof -
  let ?T = "kernMemCurr s" and ?code = "take (e - b) (drop b bytes)"
  let ?K = "?T + 4096"
  have r24: "5 + 3 * n \<le> 24" using room(2) by simp
  obtain U s1 where s1: "new_space p ?T ?K U (3 * n) s1" "same_proc (prepared p ?T (?K + 4096) s) s1"
    and space: "\<And>f :: u64 \<times> ('d, 's) ms \<Rightarrow> (int \<times> ('d, 's) ms) res.
     bindE (allocPagetable D p UNSWAPABLE (start_pagetable p s)) (\<lambda>(temp_page, s).
       let tab = pg_kva (page_manager s temp_page);
           s = upd_pcb p (pgdir_update (\<lambda>_. tab)) s;
           s = clear_pgdir tab s;
           s = share_pgtable tab (pa2kva PGDIR_PA) s
       in bindE (allocPagetable D p UNSWAPABLE s) (\<lambda>(temp_page, s).
          let s = set_stacks p (pg_kva (page_manager s temp_page) + PAGE_SIZE) USER_STACK_ADDR s
          in bindE (alloc_page_helper D (user_sp (pcb s p) - PAGE_SIZE) p UNSWAPABLE s) f)) = f (U, s1)"
    using exec_space_ok [OF room(1) r24 kpg(1), of p D] kpg(2) by blast
  note f = prepared_pcb [OF s1(2)]
  obtain s2 where s2: "load_task_img D tasks name (Some p) s1 = Inr (va, s2)" "same_proc s1 s2"
    "\<And>k. k < n \<Longrightarrow> in_place D (of_nat (b div 512)) (b mod 512) (e - b) ?T va k s1 s2"
    and tabs: "\<And>x t. tab_of (ram s2) ?T x = Some t \<Longrightarrow> kpage t \<and> t \<notin> {?K, U}" and us: "xlate (ram s2) ?T USTACK = Some (kva2pa U)"
    using load_beside [OF s1(1) f(1) find at(1-3) n_def [THEN meta_eq_to_obj_eq] va [unfolded va_def], of D, folded va_def] by blast
  have c: "core_running s c \<noteq> p" if "c < CORE_NUM" for c using p(3) that by blast
  let ?y = "511 - length argv"
  obtain s' where s': "do_exec D A tasks cpu name argv s = Inr (process_id s, s')" "kinv s' Q'" "no_lost s' Q'"
    "process_id s' = process_id s + 1" "pid (pcb s' p) = process_id s" "task_status (pcb s' p) = TASK_READY" "pgdir (pcb s' p) = ?T"
    "kernMemCurr s' = kernMemCurr s2" "only_pages {?K, U} (ram s2) (ram s')"
    "start_frame A p (ram s') (pcb s' p) va (of_nat (length argv)) (USTACK + of_nat (8 * ?y))" "stack_args U USTACK (ram s') ?y argv (8 * ?y)"
    using do_exec_finish [OF p(1) s1 s2(1,2) space inv find_free_pcb_task [OF p(1)] p(2) c Q pid fit, of A cpu] unfolding Q'_def by blast
  have below: "unat t < unat (kernMemCurr s1)" if "t \<in> {?K, U}" for t using s1(1) that by (auto simp: new_space_def)
  have "in_place D (of_nat (b div 512)) (b mod 512) (e - b) ?T va k s1 (s2\<lparr>ram := ram s'\<rparr>)" if "k < n" for k
    by (rule in_place_only [OF s2(3) [OF that] s'(9) tabs below])
  moreover have "length ?code = e - b" using at(2,4) by simp
  moreover have "unat va + 4096 * n \<le> 2 ^ 38" using va(2) by simp
  moreover have "on_card D (sdc s1) bytes" using card f(9) by simp
  ultimately have "code_at (ram (s2\<lparr>ram := ram s'\<rparr>)) ?T va ?code n" by (intro in_place_code [OF _ va(1) _ _ refl at(4)]) simp_all
  moreover have "user_args (ram s') ?T (USTACK + of_nat (8 * ?y)) argv"
  proof (rule stack_args_user [OF s'(11)])
    show "?y + length argv < 512" using fit by simp
    show "xlate (ram s') ?T USTACK = Some (kva2pa U)" using only_pages_tables(2) [OF s'(9) tabs] us by simp
  qed
  ultimately show ?thesis using s'(1-7,10) by (intro exI [of _ s'] exI [of _ ?T] exI [of _ "USTACK + of_nat (8 * ?y)"]) simp
qed

text \<open>A card with one program of three bytes.\<close>

definition one_task :: task_info_t where
  "one_task = \<lparr>begin_block = 0, end_block = 0, begin_offset = 0, end_offset = 3, memsz = 3, entry_addr = 0x10000, task_name = [115, 104]\<rparr>"

definition card_state :: "(u32 \<Rightarrow> nat \<Rightarrow> u8) mstate" where
  "card_state = boot_mstate\<lparr>sdc := \<lambda>_ i. [7, 8, 9] ! i\<rparr>"

lemma card_state_ok:
  "kinv card_state (\<lambda>_. Some [])" "no_lost card_state (\<lambda>_. Some [])" "find_free_pcb card_state = Inr (Pcb 1)"
  "\<forall>c<CORE_NUM. core_running card_state c \<noteq> Pcb 1" "process_id card_state = 17" "mem_room 8 card_state"
  "unat KPGDIR < unat (kernMemCurr card_state)" "\<not> PageValid (ram card_state a)" "on_card ram_disk (sdc card_state) [7, 8, 9]"
  by (auto simp: card_state_def boot_mstate_def kinv_def kwf_def no_lost_def qrep_boot boot_pcbs_def boot_pcb_def pid0_of_def alive_def
      CORE_NUM_def NUM_MAX_TASK_def find_free_pcb_def upt_rec mem_room_def PAGE_NUM_def freemem kpage_def KVA_OFFSET_def pa2kva_def PGDIR_PA_def
      on_card_def ram_disk_def)

theorem exec_starts_program_witness:
  "\<exists>s' T. do_exec ram_disk \<lparr>ret_from_exception = 0x1000, pcb_addr = \<lambda>_. 0\<rparr> (\<lambda>_. one_task) 0 [115, 104] [[97]] card_state = Inr (17, s') \<and>
     pgdir (pcb s' (Pcb 1)) = T \<and> task_status (pcb s' (Pcb 1)) = TASK_READY \<and> user_byte (ram s') T 0x10002 = Some 9"
proof -
  have t: "find (\<lambda>j. task_name one_task = [115, 104]) [0..<TASK_MAXNUM] = Some 0" by (simp add: one_task_def TASK_MAXNUM_def upt_rec)
  have at: "task_at one_task [115, 104] 0 3" by (simp add: task_at_def one_task_def)
  have n: "(unat (memsz one_task) + 4095) div 4096 = 1" "entry_addr one_task = 0x10000" by (simp_all add: one_task_def)
  note s = card_state_ok
  have rm: "mem_room (5 + 3 * 1) card_state" using s(6) by simp
  from exec_starts_program [OF s(1,2,3) _ s(4), where tasks = "\<lambda>_. one_task" and name = "[115, 104]" and i = 0 and b = 0 and e = 3 and
      bytes = "[7, 8, 9]" and D = ram_disk and argv = "[[97]]" and cpu = 0 and A = "\<lparr>ret_from_exception = 0x1000, pcb_addr = \<lambda>_. 0\<rparr>", unfolded n]
  obtain s' T where s': "do_exec ram_disk \<lparr>ret_from_exception = 0x1000, pcb_addr = \<lambda>_. 0\<rparr> (\<lambda>_. one_task) 0 [115, 104] [[97]] card_state = Inr (17, s')"
    "task_status (pcb s' (Pcb 1)) = TASK_READY" "pgdir (pcb s' (Pcb 1)) = T" "code_at (ram s') T 0x10000 [7, 8, 9] 1"
    using s(5,7,8,9) rm t at by (auto simp: arg_size_def)
  have "user_byte (ram s') T (0x10000 + of_nat 2) = Some ([7, 8, 9] ! 2)" using s'(4) unfolding code_at_def by (auto dest: spec [of _ 2])
  then show ?thesis using s'(1-3) by auto
qed

end
