(* ===== verification/Boot.thy ===== *)
theory Boot
  imports MmSpec
begin

text \<open>
  Turning paging on: \<open>arch/riscv/kernel/boot.c\<close>, which builds the kernel's first page table out of
  2 MB pages, and \<open>cancel_preboot_map\<close> of \<open>init/main.c\<close>, which takes the identity map of the boot
  code away again.
\<close>

section \<open>The page table of the kernel\<close>

text \<open>
  The memory by physical address, the static variable of \<open>alloc_page\<close>, and the register \<open>satp\<close> of
  the core.
\<close>

record boot =
  pmem :: "u64 \<Rightarrow> u64"
  pg_base :: u64
  boot_satp :: u64

definition poke :: "u64 \<Rightarrow> u64 \<Rightarrow> boot \<Rightarrow> boot" where
  "poke a v b = b\<lparr>pmem := (pmem b)(a := v)\<rparr>"

definition boot_clear_pgdir :: "u64 \<Rightarrow> boot \<Rightarrow> boot" where
  "boot_clear_pgdir pgdir_addr b = fold (\<lambda>i. poke (entry_at pgdir_addr (of_nat i)) 0) [0..<512] b"

definition boot_alloc_page :: "boot \<Rightarrow> u64 \<times> boot" where
  "boot_alloc_page b = (pg_base b + 0x1000, b\<lparr>pg_base := pg_base b + 0x1000\<rparr>)"

definition map_page :: "u64 \<Rightarrow> u64 \<Rightarrow> u64 \<Rightarrow> boot \<Rightarrow> boot" where
  "map_page va pa pgdir_pa b =
     (let va = va AND VA_MASK;
          vpn2 = drop_bit 30 va;
          vpn1 = push_bit 9 vpn2 XOR drop_bit 21 va;
          e = entry_at pgdir_pa vpn2;
          b = (if pmem b e = 0 then
                 (let (new, b) = boot_alloc_page b;
                      b = poke e (set_pfn (pmem b e) (drop_bit 12 new)) b;
                      b = poke e (set_attribute (pmem b e) PAGE_PRESENT) b
                  in boot_clear_pgdir (get_pa (pmem b e)) b)
               else b);
          l = entry_at (get_pa (pmem b e)) vpn1;
          b = poke l (set_pfn (pmem b l) (drop_bit 12 pa)) b
      in poke l (set_attribute (pmem b l)
           (PAGE_PRESENT OR PAGE_READ OR PAGE_WRITE OR PAGE_EXEC OR PAGE_ACCESSED OR PAGE_DIRTY)) b)"

definition enable_vm :: "boot \<Rightarrow> boot" where
  "enable_vm b = b\<lparr>boot_satp := set_satp SATP_MODE_SV39 0 (drop_bit 12 PGDIR_PA)\<rparr>"

text \<open>The two loops step by 2 MB: 128 pages for the kernel, 8 for the boot code.\<close>

definition setup_vm :: "boot \<Rightarrow> boot" where
  "setup_vm b =
     (let b = boot_clear_pgdir PGDIR_PA b;
          b = fold (\<lambda>i. let kva = 0xffffffc050000000 + of_nat i * 0x200000 in map_page kva (kva2pa kva) PGDIR_PA)
                [0..<128] b;
          b = fold (\<lambda>i. let pa = 0x50000000 + of_nat i * 0x200000 in map_page pa pa PGDIR_PA) [0..<8] b
      in enable_vm b)"

text \<open>\<open>boot_kernel\<close> up to the jump to the kernel, whose address it returns; \<open>start\<close> is the symbol \<open>_start\<close>.\<close>

definition boot_kernel :: "u64 \<Rightarrow> u64 \<Rightarrow> boot \<Rightarrow> u64 \<times> boot" where
  "boot_kernel start mhartid b = (pa2kva start, if mhartid = 0 then setup_vm b else enable_vm b)"

text \<open>The kernel reaches the same memory through its own addresses.\<close>

definition cancel_preboot_map :: "boot \<Rightarrow> boot" where
  "cancel_preboot_map b =
     (let first_pgdir = pa2kva PGDIR_PA;
          va = 0x50000000 AND VA_MASK;
          first_pte = entry_at first_pgdir (GetVPN2 va);
          second_pgdir = pa2kva (get_pa (pmem b (kva2pa first_pte)));
          b = boot_clear_pgdir (kva2pa second_pgdir) b
      in poke (kva2pa first_pte) 0 b)"

section \<open>Address translation\<close>

text \<open>
  Sv39 as the hardware does it: an entry that is valid and has none of the bits R, W, X points to the
  next table; one that has is a leaf, of 1 GB, 2 MB or 4 KB by its level.  An address whose upper bits
  do not repeat bit 38 is not translated.
\<close>

definition canonical :: "u64 \<Rightarrow> bool" where
  "canonical va \<longleftrightarrow> va < 0x4000000000 \<or> 0xffffffc000000000 \<le> va"

definition leaf_pte :: "pte \<Rightarrow> bool" where
  "leaf_pte e \<longleftrightarrow> e AND (PAGE_READ OR PAGE_WRITE OR PAGE_EXEC) \<noteq> 0"

definition leaf_pa :: "nat \<Rightarrow> pte \<Rightarrow> u64 \<Rightarrow> u64" where
  "leaf_pa n e va = get_pa e + take_bit n va"

definition sv39 :: "(u64 \<Rightarrow> u64) \<Rightarrow> u64 \<Rightarrow> u64 \<Rightarrow> u64 option" where
  "sv39 m root va =
     (let e2 = m (entry_at root (GetVPN2 va))
      in if \<not> canonical va \<or> \<not> PageValid e2 then None else if leaf_pte e2 then Some (leaf_pa 30 e2 va)
      else let e1 = m (entry_at (get_pa e2) (GetVPN1 va))
      in if \<not> PageValid e1 then None else if leaf_pte e1 then Some (leaf_pa 21 e1 va)
      else let e0 = m (entry_at (get_pa e1) (GetVPN0 va))
      in if PageValid e0 \<and> leaf_pte e0 then Some (leaf_pa 12 e0 va) else None)"


section \<open>The three tables\<close>

definition tab :: "nat \<Rightarrow> u64" where
  "tab k = 0x51000000 + of_nat (4096 * k)"

lemma unat_tab_entry:
  assumes "k < 3" and "i < 512"
  shows "unat (entry_at (tab k) (of_nat i)) = 0x51000000 + 4096 * k + 8 * i"
proof -
  have "entry_at (tab k) (of_nat i) = of_nat (0x51000000 + 4096 * k + 8 * i)" by (simp add: entry_at_def tab_def)
  moreover have "unat (of_nat (0x51000000 + 4096 * k + 8 * i) :: u64) = 0x51000000 + 4096 * k + 8 * i"
    by (rule unat_of_nat_less) (use assms in simp)
  ultimately show ?thesis by metis
qed

lemma tab_entry_eq:
  assumes "k < 3" and "l < 3" and "i < 512" and "j < 512"
  shows "entry_at (tab k) (of_nat i) = entry_at (tab l) (of_nat j) \<longleftrightarrow> k = l \<and> i = j"
proof
  assume "entry_at (tab k) (of_nat i) = entry_at (tab l) (of_nat j)"
  then have e: "4096 * k + 8 * i = 4096 * l + 8 * j"
    using unat_tab_entry [OF assms(1,3)] unat_tab_entry [OF assms(2,4)] by simp
  have "(4096 * k + 8 * i) div 4096 = k" "(4096 * l + 8 * j) div 4096 = l" using assms(3,4) by simp_all
  then have "k = l" using e by metis
  then show "k = l \<and> i = j" using e by simp
qed simp

text \<open>\<open>tabs b T\<close>: entry \<open>i\<close> of table \<open>k\<close> is \<open>T k i\<close>.\<close>

definition tabs :: "boot \<Rightarrow> (nat \<Rightarrow> nat \<Rightarrow> u64) \<Rightarrow> bool" where
  "tabs b T \<longleftrightarrow> (\<forall>k < 3. \<forall>i < 512. pmem b (entry_at (tab k) (of_nat i)) = T k i)"

lemma tabs_get: "tabs b T \<Longrightarrow> k < 3 \<Longrightarrow> i < 512 \<Longrightarrow> pmem b (entry_at (tab k) (of_nat i)) = T k i"
  by (simp add: tabs_def)

lemma poke_tabs:
  "tabs b T \<Longrightarrow> k < 3 \<Longrightarrow> i < 512 \<Longrightarrow> tabs (poke (entry_at (tab k) (of_nat i)) v b) (T(k := (T k)(i := v)))"
  by (auto simp: tabs_def poke_def tab_entry_eq)

lemma tabs_pg_base [simp]: "tabs (b\<lparr>pg_base := x\<rparr>) T = tabs b T" "tabs (b\<lparr>boot_satp := y\<rparr>) T = tabs b T"
  by (simp_all add: tabs_def)

lemma clear_pmem:
  "pmem (fold (\<lambda>i. poke (entry_at t (of_nat i)) 0) ks b) a = (if \<exists>k \<in> set ks. a = entry_at t (of_nat k) then 0 else pmem b a)"
  by (induction ks arbitrary: b) (auto simp: poke_def)

lemma clear_tabs:
  assumes "tabs b T" and "k < 3"
  shows "tabs (boot_clear_pgdir (tab k) b) (T(k := (\<lambda>_. 0)))"
proof -
  have "(\<exists>j\<in>set [0..<512]. entry_at (tab l) (of_nat i) = entry_at (tab k) (of_nat j)) \<longleftrightarrow> l = k" if "l < 3" "i < 512" for l i
    using tab_entry_eq [OF that(1) assms(2) that(2)] that(2) by auto
  then show ?thesis using assms(1) by (simp add: tabs_def boot_clear_pgdir_def clear_pmem)
qed

lemma clear_keeps [simp]: "pg_base (boot_clear_pgdir t b) = pg_base b" "boot_satp (boot_clear_pgdir t b) = boot_satp b"
proof -
  have "pg_base (fold (\<lambda>i. poke (f i) 0) ks b) = pg_base b \<and> boot_satp (fold (\<lambda>i. poke (f i) 0) ks b) = boot_satp b" for f and ks :: "nat list"
    by (induction ks arbitrary: b) (auto simp: poke_def)
  then show "pg_base (boot_clear_pgdir t b) = pg_base b" "boot_satp (boot_clear_pgdir t b) = boot_satp b"
    by (simp_all add: boot_clear_pgdir_def)
qed

section \<open>Entries\<close>

definition BOOT_BITS :: u64 where
  "BOOT_BITS = PAGE_PRESENT OR PAGE_READ OR PAGE_WRITE OR PAGE_EXEC OR PAGE_ACCESSED OR PAGE_DIRTY"

abbreviation ptr :: "nat \<Rightarrow> u64" where
  "ptr k \<equiv> new_pte 0 (tab k) PAGE_PRESENT"

abbreviation large :: "nat \<Rightarrow> u64" where
  "large i \<equiv> new_pte 0 (of_nat (0x50000000 + i * 0x200000)) BOOT_BITS"

lemma kpage_phys:
  assumes "4096 dvd n" and "n < 2 ^ 32"
  shows "kpage (pa2kva (of_nat n))"
proof -
  have u: "unat (of_nat n :: u64) = n" by (rule unat_of_nat_less) (use assms(2) in simp)
  have "unat (pa2kva (of_nat n)) = n + 0xffffffc000000000"
    unfolding pa2kva_def unat_plus_if' u KVA_OFFSET_def using assms(2) by simp
  moreover have "(4096 :: nat) dvd 0xffffffc000000000" by simp
  ultimately show ?thesis using assms(1) by (simp add: kpage_def KVA_OFFSET_def)
qed

lemma phys_pte:
  assumes "4096 dvd n" and "n < 2 ^ 32" and "bits AND 0x3ff = bits" and "bits AND PAGE_PRESENT \<noteq> 0"
  shows "PageValid (new_pte e (of_nat n) bits)" and "get_pa (new_pte e (of_nat n) bits) = of_nat n"
  using new_pte_ok [OF kpage_phys [OF assms(1,2)] assms(3,4), of e] by simp_all

lemma boot_bits: "PAGE_PRESENT AND 0x3ff = PAGE_PRESENT" "PAGE_PRESENT AND PAGE_PRESENT \<noteq> 0"
  "BOOT_BITS AND 0x3ff = BOOT_BITS" "BOOT_BITS AND PAGE_PRESENT \<noteq> 0"
  by (simp_all add: page_bits BOOT_BITS_def push_bit_eq_mult)

lemma tab_nat: "tab k = of_nat (0x51000000 + 4096 * k)"
  by (simp add: tab_def)

lemma ptr_ok:
  assumes "k < 3"
  shows "PageValid (ptr k)" "get_pa (ptr k) = tab k" "\<not> leaf_pte (ptr k)" "ptr k \<noteq> 0"
proof -
  have d: "4096 dvd 0x51000000 + 4096 * k" "0x51000000 + 4096 * k < 2 ^ 32" using assms by (simp_all add: dvd_add)
  show v: "PageValid (ptr k)" "get_pa (ptr k) = tab k" using phys_pte [OF d boot_bits(1,2), of 0] unfolding tab_nat by blast+
  have "\<not> bit (ptr k) n" if "0 < n" "n < 10" for n
    using that by (simp add: new_pte_def set_attribute_def bit_simps bit_set_pfn PAGE_PRESENT_def bit_1_iff)
  moreover have "0 < n \<and> n < 10" if "bit (PAGE_READ OR PAGE_WRITE OR PAGE_EXEC) n" for n
  proof -
    have x: "PAGE_READ OR PAGE_WRITE OR PAGE_EXEC = take_bit 4 14" "\<not> bit (14::u64) 0" by (simp_all add: page_bits)
    show ?thesis using that x(2) unfolding x(1) bit_take_bit_iff by (cases n) auto
  qed
  ultimately show "\<not> leaf_pte (ptr k)"
    unfolding leaf_pte_def not_not by (intro bit_word_eqI) (auto simp: bit_and_iff)
  show "ptr k \<noteq> 0" using v(1) by (auto simp: PageValid_def)
qed

lemma large_ok:
  assumes "i < 128"
  shows "PageValid (large i)" "get_pa (large i) = of_nat (0x50000000 + i * 0x200000)" "leaf_pte (large i)"
proof -
  have d: "4096 dvd 0x50000000 + i * 0x200000" "0x50000000 + i * 0x200000 < 2 ^ 32" using assms by (simp_all add: dvd_add)
  show "PageValid (large i)" "get_pa (large i) = of_nat (0x50000000 + i * 0x200000)"
    using phys_pte [OF d boot_bits(3,4), of 0] by blast+
  have "bit (large i AND (PAGE_READ OR PAGE_WRITE OR PAGE_EXEC)) 1"
    by (simp add: new_pte_def set_attribute_def bit_simps bit_1_iff page_bits BOOT_BITS_def)
  then show "leaf_pte (large i)" unfolding leaf_pte_def by (metis bit_0_eq bot_apply bot_bool_def)
qed

text \<open>The indices that \<open>map_page\<close> computes are the fields of the address.\<close>

lemma unat_vpn: "unat (GetVPN2 va) = unat va div 2 ^ 30 mod 512" "unat (GetVPN1 va) = unat va div 2 ^ 21 mod 512"
  unfolding GetVPN2_def GetVPN1_def VPN_MASK_mask take_bit_eq_mask [symmetric]
  by (simp_all add: take_bit_eq_mod unat_mod drop_bit_eq_div unat_div)

lemma map_page_vpn:
  "drop_bit 30 (va AND VA_MASK) = GetVPN2 va"
  "push_bit 9 (drop_bit 30 (va AND VA_MASK)) XOR drop_bit 21 (va AND VA_MASK) = GetVPN1 va"
proof -
  have m: "VA_MASK = mask 39" by (simp add: VA_MASK_def mask_eq_exp_minus_1)
  show "drop_bit 30 (va AND VA_MASK) = GetVPN2 va"
    unfolding m GetVPN2_def VPN_MASK_mask by (rule bit_word_eqI) (auto simp: bit_simps)
  show "push_bit 9 (drop_bit 30 (va AND VA_MASK)) XOR drop_bit 21 (va AND VA_MASK) = GetVPN1 va"
    unfolding m GetVPN1_def VPN_MASK_mask by (rule bit_word_eqI) (auto simp: bit_simps)
qed

text \<open>One page into a second-level table that exists, or into one that has to be allocated.\<close>

lemma map_page_tabs:
  assumes T: "tabs b T" and a: "GetVPN2 va = of_nat a" "a < 512" and c: "GetVPN1 va = of_nat c" "c < 512"
    and k: "T 0 a = ptr k" "0 < k" "k < 3"
  shows "tabs (map_page va pa (tab 0) b) (T(k := (T k)(c := new_pte (T k c) pa BOOT_BITS)))"
    and "pg_base (map_page va pa (tab 0) b) = pg_base b"
proof -
  have e: "pmem b (entry_at (tab 0) (of_nat a)) = ptr k" using tabs_get [OF T _ a(2), of 0] k(1) by simp
  have l: "pmem b (entry_at (tab k) (of_nat c)) = T k c" by (rule tabs_get [OF T k(3) c(2)])
  have "map_page va pa (tab 0) b =
      poke (entry_at (tab k) (of_nat c)) (new_pte (T k c) pa BOOT_BITS)
        (poke (entry_at (tab k) (of_nat c)) (set_pfn (T k c) (drop_bit 12 pa)) b)"
    using ptr_ok [OF k(3)] unfolding map_page_def Let_def
    unfolding map_page_vpn(2) unfolding map_page_vpn(1) a(1) c(1) e
    by (simp add: e l poke_def new_pte_def GetPFN_def BOOT_BITS_def)
  then show "tabs (map_page va pa (tab 0) b) (T(k := (T k)(c := new_pte (T k c) pa BOOT_BITS)))"
    "pg_base (map_page va pa (tab 0) b) = pg_base b"
    using poke_tabs [OF poke_tabs [OF T k(3) c(2)] k(3) c(2)] by (simp_all add: poke_def)
qed

lemma map_page_new:
  assumes T: "tabs b T" and a: "GetVPN2 va = of_nat a" "a < 512" and c: "GetVPN1 va = of_nat c" "c < 512"
    and k: "T 0 a = 0" "pg_base b = tab k" "Suc k < 3"
  shows "tabs (map_page va pa (tab 0) b)
      (T(0 := (T 0)(a := ptr (Suc k)), Suc k := (\<lambda>_. 0)(c := new_pte 0 pa BOOT_BITS)))"
    and "pg_base (map_page va pa (tab 0) b) = tab (Suc k)"
proof -
  let ?e = "entry_at (tab 0) (of_nat a)" and ?l = "entry_at (tab (Suc k)) (of_nat c)"
  have e: "pmem b ?e = 0" using tabs_get [OF T _ a(2), of 0] k(1) by simp
  have s: "tab k + 0x1000 = tab (Suc k)" by (simp add: tab_def)
  let ?b1 = "poke ?e (ptr (Suc k)) (poke ?e (set_pfn 0 (drop_bit 12 (tab (Suc k)))) (b\<lparr>pg_base := tab (Suc k)\<rparr>))"
  let ?b2 = "boot_clear_pgdir (tab (Suc k)) ?b1"
  have 1: "tabs ?b1 (T(0 := (T 0)(a := ptr (Suc k))))"
    using poke_tabs [OF poke_tabs [of "b\<lparr>pg_base := tab (Suc k)\<rparr>" T 0 a] _ a(2), of 0] T a(2) by simp
  have 2: "tabs ?b2 (T(0 := (T 0)(a := ptr (Suc k)), Suc k := (\<lambda>_. 0)))"
    by (rule clear_tabs [OF 1 k(3)])
  have e2: "pmem ?b2 ?e = ptr (Suc k)" "pmem ?b2 ?l = 0"
    using tabs_get [OF 2 _ a(2), of 0] tabs_get [OF 2 k(3) c(2)] by simp_all
  have p: "pmem ?b1 ?e = ptr (Suc k)" by (simp add: poke_def)
  have "map_page va pa (tab 0) b = poke ?l (new_pte 0 pa BOOT_BITS) (poke ?l (set_pfn 0 (drop_bit 12 pa)) ?b2)"
    using ptr_ok [OF k(3)] e2 p unfolding map_page_def Let_def
    unfolding map_page_vpn(2) unfolding map_page_vpn(1) a(1) c(1)
    by (simp add: e boot_alloc_page_def k(2) s poke_def new_pte_def GetPFN_def BOOT_BITS_def)
  moreover have "tabs (poke ?l (new_pte 0 pa BOOT_BITS) (poke ?l (set_pfn 0 (drop_bit 12 pa)) ?b2))
      (T(0 := (T 0)(a := ptr (Suc k)), Suc k := (\<lambda>_. 0)(c := new_pte 0 pa BOOT_BITS)))"
    using poke_tabs [OF poke_tabs [OF 2 k(3) c(2)] k(3) c(2)] by simp
  ultimately show "tabs (map_page va pa (tab 0) b)
      (T(0 := (T 0)(a := ptr (Suc k)), Suc k := (\<lambda>_. 0)(c := new_pte 0 pa BOOT_BITS)))"
    "pg_base (map_page va pa (tab 0) b) = tab (Suc k)" by (simp_all add: poke_def)
qed

section \<open>The finished table\<close>

definition kernel_tabs :: "nat \<Rightarrow> nat \<Rightarrow> nat \<Rightarrow> nat \<Rightarrow> u64" where
  "kernel_tabs m n k i =
     (if k = 0 then (if i = 257 \<and> 0 < m then ptr 1 else if i = 1 \<and> 0 < n then ptr 2 else 0)
      else if k = 1 then (if 128 \<le> i \<and> i < 128 + m then large (i - 128) else 0)
      else (if 128 \<le> i \<and> i < 128 + n then large (i - 128) else 0))"

lemma loop_vpn:
  assumes "i < 128"
  shows "GetVPN2 (0xffffffc050000000 + of_nat i * 0x200000) = of_nat 257"
    and "GetVPN1 (0xffffffc050000000 + of_nat i * 0x200000) = of_nat (128 + i)"
    and "GetVPN2 (0x50000000 + of_nat i * 0x200000) = of_nat 1"
    and "GetVPN1 (0x50000000 + of_nat i * 0x200000) = of_nat (128 + i)"
proof -
  let ?n = "0xffffffc050000000 + i * 0x200000" and ?p = "0x50000000 + i * 0x200000"
  have n: "unat (0xffffffc050000000 + of_nat i * 0x200000 :: u64) = ?n" "unat (0x50000000 + of_nat i * 0x200000 :: u64) = ?p"
    using assms unat_of_nat_less [where 'a = 64 and m = ?n] unat_of_nat_less [where 'a = 64 and m = ?p] by simp_all
  have d: "?n div 2 ^ 30 = 0x3ffffff01" "?n div 2 ^ 21 = 0x7fffffe0280 + i" "?p div 2 ^ 30 = 1" "?p div 2 ^ 21 = 0x280 + i"
    using assms by simp_all
  have q: "(512 * q + (128 + i)) mod 512 = 128 + i" for q using assms by simp
  have m: "(0x7fffffe0280 + i) mod 512 = 128 + i" "(0x280 + i) mod 512 = 128 + i"
    using q [of "0x3ffffff01"] q [of 1] by simp_all
  show "GetVPN2 (0xffffffc050000000 + of_nat i * 0x200000) = of_nat 257"
    "GetVPN1 (0xffffffc050000000 + of_nat i * 0x200000) = of_nat (128 + i)"
    "GetVPN2 (0x50000000 + of_nat i * 0x200000) = of_nat 1"
    "GetVPN1 (0x50000000 + of_nat i * 0x200000) = of_nat (128 + i)"
    unfolding word_unat_eq_iff unat_vpn n d m using assms by (simp_all add: unat_of_nat_less del: of_nat_add of_nat_numeral)
qed

lemma tabs_cong: "tabs b T \<Longrightarrow> (\<And>k i. k < 3 \<Longrightarrow> i < 512 \<Longrightarrow> T k i = T' k i) \<Longrightarrow> tabs b T'"
  by (simp add: tabs_def)

lemma less_3: "k < 3 \<longleftrightarrow> k = 0 \<or> k = 1 \<or> k = (2::nat)"
  by auto

abbreviation kernel_step :: "nat \<Rightarrow> boot \<Rightarrow> boot" where
  "kernel_step i \<equiv> (let kva = 0xffffffc050000000 + of_nat i * 0x200000 in map_page kva (kva2pa kva) PGDIR_PA)"

abbreviation ident_step :: "nat \<Rightarrow> boot \<Rightarrow> boot" where
  "ident_step i \<equiv> (let pa = 0x50000000 + of_nat i * 0x200000 in map_page pa pa PGDIR_PA)"

lemma PGDIR_tab: "PGDIR_PA = tab 0"
  by (simp add: PGDIR_PA_def tab_def)

lemma loop_pa: "kva2pa (0xffffffc050000000 + of_nat i * 0x200000) = of_nat (0x50000000 + i * 0x200000)"
  "0x50000000 + of_nat i * 0x200000 = (of_nat (0x50000000 + i * 0x200000) :: u64)"
  by (simp_all add: kva2pa_def KVA_OFFSET_def)

lemma kernel_loop:
  assumes T: "tabs b T" "T 0 = (\<lambda>_. 0)" and b: "pg_base b = tab 0"
  shows "m < 128 \<Longrightarrow> tabs (fold kernel_step [0..<Suc m] b) ((kernel_tabs (Suc m) 0)(2 := T 2)) \<and>
    pg_base (fold kernel_step [0..<Suc m] b) = tab 1"
proof (induction m)
  case 0
  have "T 0 257 = 0" using T(2) by simp
  note n = map_page_new [OF T(1) loop_vpn(1) [of 0] _ loop_vpn(2) [of 0] _ this b]
  have "tabs (kernel_step 0 b) ((kernel_tabs 1 0)(2 := T 2))"
    unfolding Let_def PGDIR_tab loop_pa
    by (rule tabs_cong [OF n(1)]) (auto simp: less_3 kernel_tabs_def T(2))
  moreover have "pg_base (kernel_step 0 b) = tab 1"
    unfolding Let_def PGDIR_tab using n(2) by simp
  ultimately show ?case by (simp del: fun_upd_apply)
next
  case (Suc m)
  let ?T = "(kernel_tabs (Suc m) 0)(2 := T 2)"
  define b' where "b' = fold kernel_step [0..<Suc m] b"
  have IH: "tabs b' ?T" "pg_base b' = tab 1" unfolding b'_def using Suc.IH [OF Suc_lessD [OF Suc.prems]] by blast+
  have u: "fold kernel_step [0..<Suc (Suc m)] b = kernel_step (Suc m) b'" by (simp add: b'_def)
  have e: "?T 0 257 = ptr 1" by (simp add: kernel_tabs_def)
  note n = map_page_tabs [OF IH(1) loop_vpn(1) [OF Suc.prems] _ loop_vpn(2) [OF Suc.prems] _ e]
  have "tabs (kernel_step (Suc m) b') ((kernel_tabs (Suc (Suc m)) 0)(2 := T 2))"
    unfolding Let_def PGDIR_tab loop_pa
    by (rule tabs_cong [OF n(1)]) (use Suc.prems in \<open>auto simp: less_3 kernel_tabs_def less_Suc_eq\<close>)
  moreover have "pg_base (kernel_step (Suc m) b') = tab 1"
    unfolding Let_def PGDIR_tab using n(2) Suc.prems IH(2) by simp
  ultimately show ?case unfolding u by blast
qed

lemma ident_loop:
  assumes T: "tabs b ((kernel_tabs 128 0)(2 := X))" and b: "pg_base b = tab 1"
  shows "n < 8 \<Longrightarrow> tabs (fold ident_step [0..<Suc n] b) (kernel_tabs 128 (Suc n)) \<and>
    pg_base (fold ident_step [0..<Suc n] b) = tab 2"
proof (induction n)
  case 0
  have "((kernel_tabs 128 0)(2 := X)) 0 1 = 0" by (simp add: kernel_tabs_def)
  note n = map_page_new [OF T loop_vpn(3) [of 0] _ loop_vpn(4) [of 0] _ this b]
  have "tabs (ident_step 0 b) (kernel_tabs 128 1)"
    unfolding Let_def PGDIR_tab loop_pa(2)
    by (rule tabs_cong [OF n(1) [unfolded loop_pa(2)]]) (auto simp: less_3 kernel_tabs_def numeral_2_eq_2)
  moreover have "pg_base (ident_step 0 b) = tab 2"
    unfolding Let_def PGDIR_tab using n(2) by (simp add: numeral_2_eq_2)
  ultimately show ?case by simp
next
  case (Suc n)
  define b' where "b' = fold ident_step [0..<Suc n] b"
  have IH: "tabs b' (kernel_tabs 128 (Suc n))" "pg_base b' = tab 2"
    unfolding b'_def using Suc.IH [OF Suc_lessD [OF Suc.prems]] by blast+
  have u: "fold ident_step [0..<Suc (Suc n)] b = ident_step (Suc n) b'" by (simp add: b'_def)
  have e: "kernel_tabs 128 (Suc n) 0 1 = ptr 2" by (simp add: kernel_tabs_def)
  have l: "Suc n < 128" using Suc.prems by simp
  note n = map_page_tabs [OF IH(1) loop_vpn(3) [OF l] _ loop_vpn(4) [OF l] _ e]
  have "tabs (ident_step (Suc n) b') (kernel_tabs 128 (Suc (Suc n)))"
    unfolding Let_def PGDIR_tab loop_pa(2)
    by (rule tabs_cong [OF n(1) [unfolded loop_pa(2)]]) (use Suc.prems in \<open>auto simp: less_3 kernel_tabs_def less_Suc_eq\<close>)
  moreover have "pg_base (ident_step (Suc n) b') = tab 2"
    unfolding Let_def PGDIR_tab using n(2) l IH(2) by simp
  ultimately show ?case unfolding u by blast
qed

lemma setup_vm_tabs:
  assumes "pg_base b = PGDIR_PA"
  shows "tabs (setup_vm b) (kernel_tabs 128 8)"
proof -
  let ?b0 = "boot_clear_pgdir (tab 0) b"
  let ?T = "(\<lambda>k i. pmem b (entry_at (tab k) (of_nat i)))(0 := (\<lambda>_. 0))"
  have "tabs b (\<lambda>k i. pmem b (entry_at (tab k) (of_nat i)))" by (simp add: tabs_def)
  from clear_tabs [OF this, of 0] have 0: "tabs ?b0 ?T" by simp
  let ?b1 = "fold kernel_step [0..<Suc 127] ?b0"
  have 1: "tabs ?b1 ((kernel_tabs (Suc 127) 0)(2 := ?T 2))" "pg_base ?b1 = tab 1"
    using kernel_loop [OF 0, of 127] assms by (simp_all add: PGDIR_tab)
  have s: "Suc 127 = 128" "Suc 7 = 8" by simp_all
  have "tabs (fold ident_step [0..<Suc 7] ?b1) (kernel_tabs 128 (Suc 7))"
    using ident_loop [OF 1 [unfolded s], of 7] unfolding s by simp
  then show ?thesis unfolding setup_vm_def PGDIR_tab Let_def enable_vm_def s tabs_pg_base .
qed

lemma cancel_tabs:
  assumes "tabs b (kernel_tabs 128 8)"
  shows "tabs (cancel_preboot_map b) (kernel_tabs 128 0)"
proof -
  have a: "kva2pa (entry_at (pa2kva t) i) = entry_at t i" for t i
    by (simp add: entry_at_def pa2kva_def kva2pa_def)
  have v: "GetVPN2 (0x50000000 AND VA_MASK) = of_nat 1"
    by (simp add: GetVPN2_def VA_MASK_def VPN_MASK_mask flip: take_bit_eq_mask)
  have e: "pmem b (entry_at (tab 0) (of_nat 1)) = ptr 2"
    using tabs_get [OF assms, of 0 1] by (simp add: kernel_tabs_def)
  have "cancel_preboot_map b = poke (entry_at (tab 0) (of_nat 1)) 0 (boot_clear_pgdir (tab 2) b)"
    unfolding cancel_preboot_map_def Let_def PGDIR_tab a v e using ptr_ok(2) [of 2] by simp
  moreover have "tabs (poke (entry_at (tab 0) (of_nat 1)) 0 (boot_clear_pgdir (tab 2) b)) (kernel_tabs 128 0)"
    by (rule tabs_cong [OF poke_tabs [OF clear_tabs [OF assms]]]) (auto simp: less_3 kernel_tabs_def)
  ultimately show ?thesis by simp
qed

text \<open>Which numbers have the indices of the kernel's pages and of the boot code's.\<close>

lemma canonical_ranges:
  assumes N: "N = 2 ^ 39 * w + 2 ^ 30 * x + 2 ^ 21 * c + r" "x < 512" "c < 512" "r < 2 ^ 21" "N < 2 ^ 64"
    and can: "N < 0x4000000000 \<or> 0xffffffc000000000 \<le> N" and n: "n \<le> (8::nat)"
  shows "x = 257 \<and> 128 \<le> c \<and> c < 256 \<longleftrightarrow> 0xffffffc050000000 \<le> N \<and> N < 0xffffffc060000000"
    and "x = 1 \<and> 128 \<le> c \<and> c < 128 + n \<longleftrightarrow> 0x50000000 \<le> N \<and> N < 0x50000000 + n * 0x200000"
    and "x = 257 \<Longrightarrow> 128 \<le> c \<Longrightarrow> N = 0xffffffc050000000 + (c - 128) * 0x200000 + r"
    and "x = 1 \<Longrightarrow> 128 \<le> c \<Longrightarrow> N = 0x50000000 + (c - 128) * 0x200000 + r"
proof -
  have N': "N = 0x8000000000 * w + 0x40000000 * x + 0x200000 * c + r" "x \<le> 511" "c \<le> 511" "r \<le> 0x1fffff"
    using N(1-4) by simp_all
  have w: "w \<le> 0x1ffffff" using N(1,5) by simp
  have W: "w = 0x1ffffff \<and> 256 \<le> x \<or> w = 0 \<and> x < 256"
    using can
  proof
    assume a: "N < 0x4000000000"
    then have "w = 0" using N'(1) by simp
    moreover have "x < 256" using a N'(1) by simp
    ultimately show ?thesis by simp
  next
    assume a: "0xffffffc000000000 \<le> N"
    then have "w = 0x1ffffff" using N' w by linarith
    moreover have "256 \<le> x"
    proof (rule ccontr)
      assume "\<not> 256 \<le> x"
      then have "x \<le> 255" by simp
      with a N' w show False by linarith
    qed
    ultimately show ?thesis by simp
  qed
  show "x = 257 \<and> 128 \<le> c \<and> c < 256 \<longleftrightarrow> 0xffffffc050000000 \<le> N \<and> N < 0xffffffc060000000"
  proof
    assume "x = 257 \<and> 128 \<le> c \<and> c < 256"
    then show "0xffffffc050000000 \<le> N \<and> N < 0xffffffc060000000" using W N' by auto
  next
    assume a: "0xffffffc050000000 \<le> N \<and> N < 0xffffffc060000000"
    then have W1: "w = 0x1ffffff" using W N' by auto
    have x: "x = 257" using a N' W1 by simp
    show "x = 257 \<and> 128 \<le> c \<and> c < 256" using a N' W1 x by simp
  qed
  show "x = 1 \<and> 128 \<le> c \<and> c < 128 + n \<longleftrightarrow> 0x50000000 \<le> N \<and> N < 0x50000000 + n * 0x200000"
  proof
    assume a: "x = 1 \<and> 128 \<le> c \<and> c < 128 + n"
    then have "c + 1 \<le> 128 + n" "w = 0" using W by auto
    then show "0x50000000 \<le> N \<and> N < 0x50000000 + n * 0x200000" using a N' by simp
  next
    assume a: "0x50000000 \<le> N \<and> N < 0x50000000 + n * 0x200000"
    then have W0: "w = 0" using W N' n by auto
    have x: "x = 1" using a N' W0 n by simp
    show "x = 1 \<and> 128 \<le> c \<and> c < 128 + n" using a N' W0 x by simp
  qed
  show "x = 257 \<Longrightarrow> 128 \<le> c \<Longrightarrow> N = 0xffffffc050000000 + (c - 128) * 0x200000 + r"
    "x = 1 \<Longrightarrow> 128 \<le> c \<Longrightarrow> N = 0x50000000 + (c - 128) * 0x200000 + r"
    using W N(1) by auto
qed

definition boot_view :: "nat \<Rightarrow> u64 \<Rightarrow> u64 option" where
  "boot_view n va =
     (if 0xffffffc050000000 \<le> va \<and> va < 0xffffffc060000000 then Some (kva2pa va)
      else if 0x50000000 \<le> va \<and> va < 0x50000000 + of_nat n * 0x200000 then Some va
      else None)"

lemma large_pa:
  assumes "i < 128" and "unat va mod 2 ^ 21 = r"
  shows "leaf_pa 21 (large i) va = of_nat (0x50000000 + i * 0x200000 + r)"
proof -
  have "unat (take_bit 21 va) = r" using assms(2) by (simp add: take_bit_eq_mod unat_mod)
  from arg_cong [OF this, of "of_nat :: nat \<Rightarrow> u64"] have "take_bit 21 va = of_nat r" unfolding of_nat_unat ucast_id .
  then show ?thesis unfolding leaf_pa_def large_ok(2) [OF assms(1)] by simp
qed

lemma sv39_walk:
  assumes T: "tabs b (kernel_tabs 128 n)" and can: "canonical va" and n: "n \<le> 8"
  defines "x \<equiv> unat (GetVPN2 va)" and "c \<equiv> unat (GetVPN1 va)" and "r \<equiv> unat va mod 2 ^ 21"
  shows "sv39 (pmem b) PGDIR_PA va =
    (if (x = 257 \<and> 128 \<le> c \<and> c < 256) \<or> (x = 1 \<and> 128 \<le> c \<and> c < 128 + n)
     then Some (of_nat (0x50000000 + (c - 128) * 0x200000 + r)) else None)"
proof -
  have i: "x < 512" "c < 512" by (simp_all add: x_def c_def)
  have v: "GetVPN2 va = of_nat x" "GetVPN1 va = of_nat c" by (simp_all add: x_def c_def)
  have t0: "pmem b (entry_at (tab 0) (of_nat x)) = kernel_tabs 128 n 0 x" by (rule tabs_get [OF T _ i(1)]) simp
  have t: "pmem b (entry_at (tab k) (of_nat c)) = kernel_tabs 128 n k c" if "k < 3" for k
    by (rule tabs_get [OF T that i(2)])
  have z: "\<not> PageValid 0" by (simp add: PageValid_def)
  note p1 = ptr_ok [of 1, simplified] and p2 = ptr_ok [of 2, simplified]
  consider "x = 257" | "x = 1" "0 < n" | "x = 1" "n = 0" | "x \<noteq> 257" "x \<noteq> 1" by auto
  then show ?thesis
  proof cases
    case 1
    have "kernel_tabs 128 n 0 x = ptr 1" using 1 by (simp add: kernel_tabs_def)
    then have "sv39 (pmem b) PGDIR_PA va =
        (let e1 = kernel_tabs 128 n 1 c in if \<not> PageValid e1 then None else if leaf_pte e1 then Some (leaf_pa 21 e1 va)
         else let e0 = pmem b (entry_at (get_pa e1) (GetVPN0 va))
              in if PageValid e0 \<and> leaf_pte e0 then Some (leaf_pa 12 e0 va) else None)"
      unfolding sv39_def PGDIR_tab v Let_def t0 using can p1 t [of 1] by simp
    then show ?thesis
      using 1 z large_ok(1,3) [of "c - 128"] large_pa [of "c - 128" va r] r_def by (auto simp: kernel_tabs_def)
  next
    case 2
    have "kernel_tabs 128 n 0 x = ptr 2" using 2 by (simp add: kernel_tabs_def)
    then have "sv39 (pmem b) PGDIR_PA va =
        (let e1 = kernel_tabs 128 n 2 c in if \<not> PageValid e1 then None else if leaf_pte e1 then Some (leaf_pa 21 e1 va)
         else let e0 = pmem b (entry_at (get_pa e1) (GetVPN0 va))
              in if PageValid e0 \<and> leaf_pte e0 then Some (leaf_pa 12 e0 va) else None)"
      unfolding sv39_def PGDIR_tab v Let_def t0 using can p2 t [of 2] by simp
    then show ?thesis
      using 2 z n large_ok(1,3) [of "c - 128"] large_pa [of "c - 128" va r] r_def by (auto simp: kernel_tabs_def)
  next
    case 3
    then show ?thesis using z t0 by (simp add: sv39_def PGDIR_tab v kernel_tabs_def)
  next
    case 4
    then show ?thesis using z t0 by (simp add: sv39_def PGDIR_tab v kernel_tabs_def)
  qed
qed

lemma sv39_tabs:
  assumes T: "tabs b (kernel_tabs 128 n)" and n: "n \<le> 8"
  shows "sv39 (pmem b) PGDIR_PA va = boot_view n va"
proof (cases "canonical va")
  case False
  have "(0x50000000 + of_nat n * 0x200000 :: u64) \<le> 0x51000000"
    using n by (simp add: word_le_nat_alt unat_word_ariths unat_of_nat)
  from order_less_le_trans [OF _ this] have "va < 0x4000000000" if "va < 0x50000000 + of_nat n * 0x200000"
    by (rule order_less_trans [OF _ _]) (use that in simp_all)
  moreover have "0xffffffc000000000 \<le> va" if "0xffffffc050000000 \<le> va"
    by (rule order_trans [OF _ that]) simp
  ultimately show ?thesis using False by (auto simp: sv39_def boot_view_def canonical_def)
next
  case True
  let ?N = "unat va"
  let ?x = "unat (GetVPN2 va)" and ?c = "unat (GetVPN1 va)" and ?r = "unat va mod 2 ^ 21"
  let ?w = "?N div 2 ^ 39"
  have N: "?N = 2 ^ 39 * ?w + 2 ^ 30 * ?x + 2 ^ 21 * ?c + ?r" "?x < 512" "?c < 512" "?r < 2 ^ 21" "?N < 2 ^ 64"
  proof -
    have a: "?N div 2 ^ 30 = 512 * ?w + ?x" "?N div 2 ^ 21 = 512 * (?N div 2 ^ 30) + ?c"
      unfolding unat_vpn using div_mult2_eq [of ?N "2 ^ 30" 512] div_mult2_eq [of ?N "2 ^ 21" 512] by simp_all
    have "?N = 2 ^ 21 * (?N div 2 ^ 21) + ?r" by simp
    then show "?N = 2 ^ 39 * ?w + 2 ^ 30 * ?x + 2 ^ 21 * ?c + ?r" unfolding a by simp
  qed (simp_all, use unsigned_less [of va] in simp)
  have can: "?N < 0x4000000000 \<or> 0xffffffc000000000 \<le> ?N"
    using True by (simp add: canonical_def word_less_nat_alt word_le_nat_alt)
  note rg = canonical_ranges [OF N can n]
  have n': "unat (0x50000000 + of_nat n * 0x200000 :: u64) = 0x50000000 + n * 0x200000"
    using n unat_of_nat_less [where 'a = 64 and m = "0x50000000 + n * 0x200000"] by simp
  have e: "boot_view n va = (if 0xffffffc050000000 \<le> ?N \<and> ?N < 0xffffffc060000000 then Some (kva2pa va)
      else if 0x50000000 \<le> ?N \<and> ?N < 0x50000000 + n * 0x200000 then Some va else None)"
    unfolding boot_view_def word_less_nat_alt word_le_nat_alt n' by simp
  have k: "kva2pa va = of_nat (0x50000000 + (?c - 128) * 0x200000 + ?r)" if "?x = 257" "128 \<le> ?c"
  proof -
    have "of_nat ?N = (of_nat (0xffffffc050000000 + (?c - 128) * 0x200000 + ?r) :: u64)"
      by (rule arg_cong [OF rg(3) [OF that]])
    then have "va = of_nat (0xffffffc050000000 + (?c - 128) * 0x200000 + ?r)" unfolding of_nat_unat ucast_id .
    then show ?thesis by (simp add: kva2pa_def KVA_OFFSET_def add.assoc)
  qed
  have l: "va = of_nat (0x50000000 + (?c - 128) * 0x200000 + ?r)" if "?x = 1" "128 \<le> ?c"
    using arg_cong [OF rg(4) [OF that], of "of_nat :: nat \<Rightarrow> u64"] unfolding of_nat_unat ucast_id .
  show ?thesis
    unfolding sv39_walk [OF T True n] e rg(1) [symmetric] rg(2) [symmetric] using k l by auto
qed

section \<open>Properties\<close>

text \<open>
  C15: The kernel's address space.  Whatever the memory held, after \<open>boot_kernel\<close> on core 0 the
  hardware translates the 256 MB from \<open>0xffffffc050000000\<close> on to the physical memory that \<open>kva2pa\<close>
  names, the 16 MB of the boot code to themselves, and nothing else; the address it jumps to
  translates to \<open>_start\<close>.  After \<open>cancel_preboot_map\<close> only the kernel's own addresses are left.
\<close>

theorem boot_maps_kernel:
  assumes "pg_base b = PGDIR_PA" and "boot_kernel start 0 b = (target, b1)" and "cancel_preboot_map b1 = b2"
  shows "boot_satp b1 = set_satp SATP_MODE_SV39 0 (drop_bit 12 PGDIR_PA) \<and>
    (\<forall>va. sv39 (pmem b1) PGDIR_PA va =
       (if 0xffffffc050000000 \<le> va \<and> va < 0xffffffc060000000 then Some (kva2pa va)
        else if 0x50000000 \<le> va \<and> va < 0x51000000 then Some va else None)) \<and>
    (0x50000000 \<le> start \<and> start < 0x60000000 \<longrightarrow> sv39 (pmem b1) PGDIR_PA target = Some start) \<and>
    (\<forall>va. sv39 (pmem b2) PGDIR_PA va =
       (if 0xffffffc050000000 \<le> va \<and> va < 0xffffffc060000000 then Some (kva2pa va) else None))"
proof -
  have b1: "b1 = setup_vm b" "target = pa2kva start" using assms(2) by (simp_all add: boot_kernel_def)
  have T: "tabs b1 (kernel_tabs 128 8)" "tabs b2 (kernel_tabs 128 0)"
    using setup_vm_tabs [OF assms(1)] cancel_tabs assms(3) b1(1) by auto
  have v: "sv39 (pmem b1) PGDIR_PA va = boot_view 8 va" "sv39 (pmem b2) PGDIR_PA va = boot_view 0 va" for va
    using sv39_tabs [OF T(1)] sv39_tabs [OF T(2)] by simp_all
  have "boot_view 8 target = Some start" if "0x50000000 \<le> start" "start < 0x60000000"
  proof -
    have "unat (start + 0xffffffc000000000) = unat start + 0xffffffc000000000"
      using that by (simp add: unat_plus_if' word_less_nat_alt word_le_nat_alt)
    then have "0xffffffc050000000 \<le> target" "target < 0xffffffc060000000"
      using that by (simp_all add: b1(2) pa2kva_def KVA_OFFSET_def word_less_nat_alt word_le_nat_alt)
    then show ?thesis by (simp add: boot_view_def b1(2))
  qed
  then show ?thesis
    unfolding v by (simp add: boot_view_def b1(1) setup_vm_def enable_vm_def Let_def) auto
qed

theorem boot_maps_kernel_witness:
  "\<exists>b1. boot_kernel 0x50201000 0 \<lparr>pmem = (\<lambda>_. 0xdeadbeef), pg_base = PGDIR_PA, boot_satp = 0\<rparr> = (0xffffffc050201000, b1) \<and>
     sv39 (pmem b1) PGDIR_PA 0xffffffc050201000 = Some 0x50201000 \<and>
     sv39 (pmem (cancel_preboot_map b1)) PGDIR_PA 0x50201000 = None"
proof -
  let ?b = "\<lparr>pmem = (\<lambda>_. 0xdeadbeef), pg_base = PGDIR_PA, boot_satp = 0\<rparr>"
  have r: "boot_kernel 0x50201000 0 ?b = (0xffffffc050201000, setup_vm ?b)"
    by (simp add: boot_kernel_def pa2kva_def KVA_OFFSET_def)
  have p: "pg_base ?b = PGDIR_PA" by simp
  from boot_maps_kernel [OF p r refl] r show ?thesis by (intro exI [of _ "setup_vm ?b"]) (simp add: kva2pa_def KVA_OFFSET_def)
qed

end
