(* ===== verification/E1000.thy ===== *)
theory E1000
  imports Sched KString
begin

text \<open>
  The network card driver: \<open>drivers/e1000.c\<close> and the structures of \<open>drivers/e1000.h\<close>.  The
  descriptor rings and packet buffers are memory that driver and card share.  The card itself is
  not part of the repository: its registers are a parameter \<open>R\<close> of the driver, and what the card
  does with the rings is a parameter of the properties.  \<open>local_flush_dcache\<close> is a memory barrier
  and has no effect on the state.
\<close>

section \<open>Registers\<close>

text \<open>
  \<open>io_read\<close> returns the value of a register and the state of the card after the read,
  \<open>io_write\<close> the state after a write.  A register is named by its offset from \<open>e1000\<close>.
\<close>

record 'r nic =
  io_read :: "'r \<Rightarrow> u32 \<Rightarrow> u32 \<times> 'r"
  io_write :: "'r \<Rightarrow> u32 \<Rightarrow> u32 \<Rightarrow> 'r"

definition E1000_ICR :: u32 where "E1000_ICR = 0x000C0"
definition E1000_IMS :: u32 where "E1000_IMS = 0x000D0"
definition E1000_IMC :: u32 where "E1000_IMC = 0x000D8"
definition E1000_RCTL :: u32 where "E1000_RCTL = 0x00100"
definition E1000_TCTL :: u32 where "E1000_TCTL = 0x00400"
definition E1000_RDBAL :: u32 where "E1000_RDBAL = 0x02800"
definition E1000_RDBAH :: u32 where "E1000_RDBAH = 0x02804"
definition E1000_RDLEN :: u32 where "E1000_RDLEN = 0x02808"
definition E1000_RDH :: u32 where "E1000_RDH = 0x02810"
definition E1000_RDT :: u32 where "E1000_RDT = 0x02818"
definition E1000_TDBAL :: u32 where "E1000_TDBAL = 0x03800"
definition E1000_TDBAH :: u32 where "E1000_TDBAH = 0x03804"
definition E1000_TDLEN :: u32 where "E1000_TDLEN = 0x03808"
definition E1000_TDH :: u32 where "E1000_TDH = 0x03810"
definition E1000_TDT :: u32 where "E1000_TDT = 0x03818"
definition E1000_RA :: u32 where "E1000_RA = 0x05400"

lemmas reg_defs = E1000_ICR_def E1000_IMS_def E1000_IMC_def E1000_RCTL_def E1000_TCTL_def E1000_RDBAL_def
  E1000_RDBAH_def E1000_RDLEN_def E1000_RDH_def E1000_RDT_def E1000_TDBAL_def E1000_TDBAH_def
  E1000_TDLEN_def E1000_TDH_def E1000_TDT_def E1000_RA_def

definition E1000_RXD_STAT_DD :: u8 where "E1000_RXD_STAT_DD = 1"
definition E1000_TXD_STAT_DD :: u8 where "E1000_TXD_STAT_DD = 1"
definition E1000_TXD_CMD_EOP :: u8 where "E1000_TXD_CMD_EOP = 1"
definition E1000_TXD_CMD_RS :: u8 where "E1000_TXD_CMD_RS = 8"
definition E1000_RAH_AV :: u32 where "E1000_RAH_AV = 0x80000000"
definition E1000_ICR_TXQE :: u32 where "E1000_ICR_TXQE = 2"
definition E1000_ICR_RXDMT0 :: u32 where "E1000_ICR_RXDMT0 = 0x10"
definition E1000_RCTL_EN :: u32 where "E1000_RCTL_EN = 2"
definition E1000_RCTL_BAM :: u32 where "E1000_RCTL_BAM = 0x8000"
definition E1000_TCTL_EN :: u32 where "E1000_TCTL_EN = 2"
definition E1000_TCTL_PSP :: u32 where "E1000_TCTL_PSP = 8"
definition E1000_TCTL_CT :: u32 where "E1000_TCTL_CT = 0xff0"
definition E1000_TCTL_COLD :: u32 where "E1000_TCTL_COLD = 0x3ff000"

definition TXDESCS :: nat where "TXDESCS = 64"
definition RXDESCS :: nat where "RXDESCS = 64"
definition TX_PKT_SIZE :: nat where "TX_PKT_SIZE = 2048"
definition RX_PKT_SIZE :: nat where "RX_PKT_SIZE = 2048"

section \<open>Descriptors and buffers\<close>

record e1000_rx_desc =
  rx_addr :: u64
  rx_length :: u16
  rx_csum :: u16
  rx_status :: u8
  rx_errors :: u8
  rx_special :: u16

record e1000_tx_desc =
  tx_addr :: u64
  tx_length :: u16
  tx_cso :: u8
  tx_cmd :: u8
  tx_status :: u8
  tx_css :: u8
  tx_special :: u16

text \<open>The packet buffers of the driver and the memory of the user, in which packets are handed over.\<close>

datatype nobj = TxBuf nat | RxBuf nat | UserMem

text \<open>
  The scheduler's state with the driver's static data.  The four addresses are those the linker
  gives the arrays.
\<close>

record 'r nstate = kstate +
  regs :: 'r
  tx_desc_array :: "nat \<Rightarrow> e1000_tx_desc"
  rx_desc_array :: "nat \<Rightarrow> e1000_rx_desc"
  nmem :: "nobj mem"
  tx_desc_array_at :: u64
  rx_desc_array_at :: u64
  tx_pkt_buffer_at :: u64
  rx_pkt_buffer_at :: u64

definition tx_pkt_buffer :: "('r, 's) nstate_scheme \<Rightarrow> nat \<Rightarrow> u64" where
  "tx_pkt_buffer s i = tx_pkt_buffer_at s + of_nat (TX_PKT_SIZE * i)"

definition rx_pkt_buffer :: "('r, 's) nstate_scheme \<Rightarrow> nat \<Rightarrow> u64" where
  "rx_pkt_buffer s i = rx_pkt_buffer_at s + of_nat (RX_PKT_SIZE * i)"

definition e1000_write_reg :: "'r nic \<Rightarrow> u32 \<Rightarrow> u32 \<Rightarrow> ('r, 's) nstate_scheme \<Rightarrow> ('r, 's) nstate_scheme" where
  "e1000_write_reg R reg val s = s\<lparr>regs := io_write R (regs s) reg val\<rparr>"

definition e1000_read_reg :: "'r nic \<Rightarrow> u32 \<Rightarrow> ('r, 's) nstate_scheme \<Rightarrow> u32 \<times> ('r, 's) nstate_scheme" where
  "e1000_read_reg R reg s = (case io_read R (regs s) reg of (v, r) \<Rightarrow> (v, s\<lparr>regs := r\<rparr>))"

definition e1000_write_reg_array ::
  "'r nic \<Rightarrow> u32 \<Rightarrow> u32 \<Rightarrow> u32 \<Rightarrow> ('r, 's) nstate_scheme \<Rightarrow> ('r, 's) nstate_scheme" where
  "e1000_write_reg_array R reg offset val s = s\<lparr>regs := io_write R (regs s) (reg + push_bit 2 offset) val\<rparr>"

definition upd_tx :: "nat \<Rightarrow> (e1000_tx_desc \<Rightarrow> e1000_tx_desc) \<Rightarrow> ('r, 's) nstate_scheme \<Rightarrow> ('r, 's) nstate_scheme" where
  "upd_tx i f s = s\<lparr>tx_desc_array := (tx_desc_array s)(i := f (tx_desc_array s i))\<rparr>"

definition upd_rx :: "nat \<Rightarrow> (e1000_rx_desc \<Rightarrow> e1000_rx_desc) \<Rightarrow> ('r, 's) nstate_scheme \<Rightarrow> ('r, 's) nstate_scheme" where
  "upd_rx i f s = s\<lparr>rx_desc_array := (rx_desc_array s)(i := f (rx_desc_array s i))\<rparr>"

section \<open>Initialisation\<close>

text \<open>The loop of \<open>e1000_reset\<close> that reads \<open>ICR\<close> until no interrupt is pending.\<close>

partial_function (option) clear_icr :: "'r nic \<Rightarrow> 'r \<Rightarrow> 'r option" where
  "clear_icr R r =
     (case io_read R r E1000_ICR of (v, r') \<Rightarrow> if v \<noteq> 0 then clear_icr R r' else Some r')"

text \<open>\<open>latency(1)\<close> waits for the clock; it changes nothing of this state.\<close>

definition e1000_reset :: "'r nic \<Rightarrow> ('r, 's) nstate_scheme \<Rightarrow> ('r, 's) nstate_scheme res" where
  "e1000_reset R s =
     (let s = e1000_write_reg R E1000_RCTL 0 s;
          s = e1000_write_reg R E1000_TCTL 0 s;
          s = e1000_write_reg R E1000_TDH 0 s;
          s = e1000_write_reg R E1000_TDT 0 s;
          s = e1000_write_reg R E1000_RDH 0 s;
          s = e1000_write_reg R E1000_RDT 0 s;
          s = e1000_write_reg R E1000_IMC 0xffffffff s
      in case clear_icr R (regs s) of
           None \<Rightarrow> Inl Hang
         | Some r \<Rightarrow> Inr (s\<lparr>regs := r\<rparr>))"

definition init_tx_desc :: "('r, 's) nstate_scheme \<Rightarrow> nat \<Rightarrow> e1000_tx_desc \<Rightarrow> e1000_tx_desc" where
  "init_tx_desc s i d =
     d\<lparr>tx_addr := kva2pa (tx_pkt_buffer s i), tx_length := 0,
       tx_cmd := E1000_TXD_CMD_RS OR E1000_TXD_CMD_EOP, tx_cso := 0, tx_css := 0, tx_special := 0,
       tx_status := E1000_TXD_STAT_DD\<rparr>"

definition e1000_configure_tx :: "'r nic \<Rightarrow> ('r, 's) nstate_scheme \<Rightarrow> ('r, 's) nstate_scheme" where
  "e1000_configure_tx R s =
     (let s = fold (\<lambda>i s. upd_tx i (init_tx_desc s i) s) [0..<TXDESCS] s;
          tx_array_base = kva2pa (tx_desc_array_at s);
          s = e1000_write_reg R E1000_TDBAL (ucast (tx_array_base AND 0xffffffff)) s;
          s = e1000_write_reg R E1000_TDBAH (ucast (drop_bit 32 tx_array_base)) s;
          s = e1000_write_reg R E1000_TDLEN (of_nat (16 * TXDESCS)) s;
          s = e1000_write_reg R E1000_TDH 0 s;
          s = e1000_write_reg R E1000_TDT 0 s
      in e1000_write_reg R E1000_TCTL
           (E1000_TCTL_EN OR E1000_TCTL_PSP OR (E1000_TCTL_CT AND 0x100) OR (E1000_TCTL_COLD AND 0x40000)) s)"

definition enetaddr :: "u32 list" where
  "enetaddr = [0x00, 0x0a, 0x35, 0x00, 0x1e, 0x53]"

definition e1000_configure_rx :: "'r nic \<Rightarrow> ('r, 's) nstate_scheme \<Rightarrow> ('r, 's) nstate_scheme" where
  "e1000_configure_rx R s =
     (let ral = push_bit 24 (enetaddr ! 3) OR push_bit 16 (enetaddr ! 2) OR push_bit 8 (enetaddr ! 1) OR enetaddr ! 0;
          rah = E1000_RAH_AV OR push_bit 8 (enetaddr ! 5) OR enetaddr ! 4;
          s = e1000_write_reg_array R E1000_RA 0 ral s;
          s = e1000_write_reg_array R E1000_RA 1 rah s;
          s = fold (\<lambda>i s. upd_rx i (rx_addr_update (\<lambda>_. kva2pa (rx_pkt_buffer s i))) s) [0..<RXDESCS] s;
          rx_desc_base = kva2pa (rx_desc_array_at s);
          s = e1000_write_reg R E1000_RDBAL (ucast (rx_desc_base AND 0xffffffff)) s;
          s = e1000_write_reg R E1000_RDBAH (ucast (drop_bit 32 rx_desc_base)) s;
          s = e1000_write_reg R E1000_RDLEN (of_nat (16 * RXDESCS)) s;
          s = e1000_write_reg R E1000_RDH 0 s;
          s = e1000_write_reg R E1000_RDT (of_nat (RXDESCS - 1)) s;
          s = e1000_write_reg R E1000_RCTL (E1000_RCTL_EN OR E1000_RCTL_BAM) s
      in e1000_write_reg R E1000_IMS E1000_ICR_RXDMT0 s)"

definition e1000_init :: "'r nic \<Rightarrow> ('r, 's) nstate_scheme \<Rightarrow> ('r, 's) nstate_scheme res" where
  "e1000_init R s =
     bindE (e1000_reset R s) (\<lambda>s. Inr (e1000_configure_rx R (e1000_configure_tx R s)))"

section \<open>Sending and receiving\<close>

text \<open>
  The descriptor index comes from a register of the card: an index outside the array is a stray
  access.  \<open>memcpy\<close> takes its length as \<open>uint32_t\<close>, so a negative \<open>length\<close> passes the assertion
  and overruns the buffer.
\<close>

definition e1000_transmit ::
  "'r nic \<Rightarrow> nobj ptr \<Rightarrow> int \<Rightarrow> ('r, 's) nstate_scheme \<Rightarrow> (int \<times> ('r, 's) nstate_scheme) res" where
  "e1000_transmit R txpacket len s =
     assertE (len < int TX_PKT_SIZE)
       (let (tail, s) = e1000_read_reg R E1000_TDT s; i = unat tail
        in guardE (i < TXDESCS)
          (if tx_status (tx_desc_array s i) AND E1000_TXD_STAT_DD = 0 then Inr (0, s)
           else
             let s = upd_tx i (tx_length_update (\<lambda>_. word_of_int len)) s;
                 s = upd_tx i (tx_status_update (\<lambda>st. st AND NOT E1000_TXD_STAT_DD)) s;
                 s = upd_tx i (tx_cmd_update (\<lambda>c. c OR (E1000_TXD_CMD_EOP OR E1000_TXD_CMD_RS))) s
             in assertE (tx_addr (tx_desc_array s i) = kva2pa (tx_pkt_buffer s i))
                 (guardE (0 \<le> len)
                   (let s = s\<lparr>nmem := memcpy (nmem s) (TxBuf i, 0) txpacket (nat len)\<rparr>
                    in Inr (len, e1000_write_reg R E1000_TDT ((tail + 1) mod of_nat TXDESCS) s)))))"

text \<open>\<open>memcpy\<close> of a length above the buffer size reads behind the packet buffer.\<close>

definition e1000_poll ::
  "'r nic \<Rightarrow> nobj ptr \<Rightarrow> ('r, 's) nstate_scheme \<Rightarrow> (int \<times> ('r, 's) nstate_scheme) res" where
  "e1000_poll R rxbuffer s =
     (let (rdt, s) = e1000_read_reg R E1000_RDT s; tail = (rdt + 1) mod of_nat RXDESCS; i = unat tail
      in if rx_status (rx_desc_array s i) AND E1000_RXD_STAT_DD = 0 then Inr (0, s)
         else
           let len = unat (rx_length (rx_desc_array s i))
           in assertE (rx_addr (rx_desc_array s i) = kva2pa (rx_pkt_buffer s i))
               (guardE (len \<le> RX_PKT_SIZE)
                 (let s = s\<lparr>nmem := memcpy (nmem s) rxbuffer (RxBuf i, 0) len\<rparr>;
                      s = upd_rx i (rx_status_update (\<lambda>st. st AND NOT E1000_RXD_STAT_DD)) s
                  in Inr (int len, e1000_write_reg R E1000_RDT (tail mod of_nat RXDESCS) s))))"

definition e1000_enable_txqe :: "'r nic \<Rightarrow> ('r, 's) nstate_scheme \<Rightarrow> ('r, 's) nstate_scheme" where
  "e1000_enable_txqe R s = e1000_write_reg R E1000_IMS E1000_ICR_TXQE s"

definition e1000_disable_txqe :: "'r nic \<Rightarrow> ('r, 's) nstate_scheme \<Rightarrow> ('r, 's) nstate_scheme" where
  "e1000_disable_txqe R s = e1000_write_reg R E1000_IMC E1000_ICR_TXQE s"

definition is_tx_ready :: "'r nic \<Rightarrow> ('r, 's) nstate_scheme \<Rightarrow> (bool \<times> ('r, 's) nstate_scheme) res" where
  "is_tx_ready R s =
     (let (tail, s) = e1000_read_reg R E1000_TDT s
      in guardE (unat tail < TXDESCS)
          (Inr (tx_status (tx_desc_array s (unat tail)) AND E1000_TXD_STAT_DD \<noteq> 0, s)))"

definition is_rx_ready :: "'r nic \<Rightarrow> ('r, 's) nstate_scheme \<Rightarrow> bool \<times> ('r, 's) nstate_scheme" where
  "is_rx_ready R s =
     (let (rdt, s) = e1000_read_reg R E1000_RDT s; tail = (rdt + 1) mod of_nat RXDESCS
      in (rx_status (rx_desc_array s (unat tail)) AND E1000_RXD_STAT_DD \<noteq> 0, s))"

end
