(* ===== verification/E1000Spec.thy ===== *)
theory E1000Spec
  imports E1000
begin

text \<open>
  The driver and the card together.  The documented behaviour of the card (its ring registers, when
  it sends or fills a descriptor) is stated as hypotheses on the parameters of the driver; from them
  follows that frames go out in the order in which they were handed over and come in in the order in
  which they arrived, each unchanged, whatever the interleaving of driver and card.
\<close>

section \<open>Ring buffers\<close>

text \<open>
  \<open>ring N h P full frame\<close>: in an array of \<open>N\<close> slots the slots from \<open>h\<close> on, around the end of the
  array, hold the list \<open>P\<close>, and the other slots are not full.
\<close>

definition ring :: "nat \<Rightarrow> nat \<Rightarrow> 'a list \<Rightarrow> (nat \<Rightarrow> bool) \<Rightarrow> (nat \<Rightarrow> 'a) \<Rightarrow> bool" where
  "ring N h P full frame \<longleftrightarrow> length P \<le> N \<and>
     (\<forall>j < length P. full ((h + j) mod N) \<and> frame ((h + j) mod N) = P ! j) \<and>
     (\<forall>j. length P \<le> j \<and> j < N \<longrightarrow> \<not> full ((h + j) mod N))"

lemma ring_slot_inj:
  assumes "j < N" and "k < N" and "(h + j) mod N = (h + k) mod N"
  shows "j = (k::nat)"
proof -
  have "((h + j) mod N + (N - h mod N)) mod N = i mod N" if "i = j" "i < N" for i
  proof -
    have "((h + j) mod N + (N - h mod N)) mod N = (h + j + (N - h mod N)) mod N" by (simp add: mod_simps)
    also have "\<dots> = (h mod N + (N - h mod N) + j) mod N"
      by (metis (no_types, opaque_lifting) add.assoc add.commute mod_add_left_eq)
    also have "\<dots> = j mod N" using assms(1) by simp
    finally show ?thesis using that by simp
  qed
  moreover have "((h + k) mod N + (N - h mod N)) mod N = k mod N"
  proof -
    have "((h + k) mod N + (N - h mod N)) mod N = (h + k + (N - h mod N)) mod N" by (simp add: mod_simps)
    also have "\<dots> = (h mod N + (N - h mod N) + k) mod N"
      by (metis (no_types, opaque_lifting) add.assoc add.commute mod_add_left_eq)
    also have "\<dots> = k mod N" using assms(1) by simp
    finally show ?thesis .
  qed
  ultimately show ?thesis using assms by simp
qed

lemma ring_cong:
  assumes "ring N h P full frame" and "0 < N"
    and "\<And>i. i < N \<Longrightarrow> full' i = full i" and "\<And>i. i < N \<Longrightarrow> full i \<Longrightarrow> frame' i = frame i"
  shows "ring N h P full' frame'"
  using assms unfolding ring_def by simp

lemma ring_free: "ring N h P full frame \<Longrightarrow> length P < N \<Longrightarrow> \<not> full ((h + length P) mod N)"
  by (simp add: ring_def)

lemma ring_head: "ring N h (f # P) full frame \<Longrightarrow> full (h mod N) \<and> frame (h mod N) = f"
  by (auto simp: ring_def)

lemma ring_push:
  assumes r: "ring N h P full frame" and n: "length P < N"
    and other: "\<And>i. i < N \<Longrightarrow> i \<noteq> (h + length P) mod N \<Longrightarrow> full' i = full i \<and> (full i \<longrightarrow> frame' i = frame i)"
    and new: "full' ((h + length P) mod N)" "frame' ((h + length P) mod N) = f"
  shows "ring N h (P @ [f]) full' frame'"
proof -
  have o: "full' ((h + j) mod N) = full ((h + j) mod N) \<and>
      (full ((h + j) mod N) \<longrightarrow> frame' ((h + j) mod N) = frame ((h + j) mod N))"
    if "j < N" "j \<noteq> length P" for j
    using other ring_slot_inj that n by (metis less_nat_zero_code mod_less_divisor not_gr_zero)
  show ?thesis
    unfolding ring_def
  proof (intro conjI allI impI)
    fix j
    assume j: "j < length (P @ [f])"
    then have "full' ((h + j) mod N) \<and> frame' ((h + j) mod N) = (P @ [f]) ! j"
      using r new n o [of j] by (cases "j = length P") (auto simp: ring_def nth_append)
    then show "full' ((h + j) mod N)" "frame' ((h + j) mod N) = (P @ [f]) ! j" by simp_all
  qed (use r n o in \<open>auto simp: ring_def\<close>)
qed

lemma ring_pop:
  assumes r: "ring N h (f # P) full frame"
    and other: "\<And>i. i < N \<Longrightarrow> i \<noteq> h mod N \<Longrightarrow> full' i = full i \<and> (full i \<longrightarrow> frame' i = frame i)"
    and gone: "\<not> full' (h mod N)"
  shows "ring N ((h + 1) mod N) P full' frame'"
proof -
  have n: "Suc (length P) \<le> N" using r by (simp add: ring_def)
  have s: "((h + 1) mod N + j) mod N = (h + Suc j) mod N" for j by (simp add: mod_simps)
  have o: "full' ((h + Suc j) mod N) = full ((h + Suc j) mod N) \<and>
      (full ((h + Suc j) mod N) \<longrightarrow> frame' ((h + Suc j) mod N) = frame ((h + Suc j) mod N))"
    if "Suc j < N" for j
    using other [of "(h + Suc j) mod N"] ring_slot_inj [of "Suc j" N 0 h] that by auto
  have last: "(h + N) mod N = h mod N" by simp
  show ?thesis
    unfolding ring_def s
  proof (intro conjI allI impI)
    fix j
    assume "length P \<le> j \<and> j < N"
    then show "\<not> full' ((h + Suc j) mod N)"
      using r o [of j] gone last by (cases "Suc j = N") (auto simp: ring_def)
  qed (use r n o in \<open>auto simp: ring_def\<close>)
qed

section \<open>The card\<close>

definition peek :: "'r nic \<Rightarrow> 'r \<Rightarrow> u32 \<Rightarrow> u32" where
  "peek R r a = fst (io_read R r a)"

abbreviation reg :: "'r nic \<Rightarrow> u32 \<Rightarrow> ('r, 's) nstate_scheme \<Rightarrow> nat" where
  "reg R a s \<equiv> unat (peek R (regs s) a)"

abbreviation ring_regs :: "u32 set" where
  "ring_regs \<equiv> {E1000_TDH, E1000_TDT, E1000_RDH, E1000_RDT}"

text \<open>
  The registers: the four ring registers (16 bits wide) hold what was last written to them and are
  not affected by accesses to other registers; reading \<open>ICR\<close> clears it.
\<close>

definition nic_ok :: "'r nic \<Rightarrow> bool" where
  "nic_ok R \<longleftrightarrow>
     (\<forall>r a v. \<forall>b \<in> ring_regs. a \<noteq> b \<longrightarrow> peek R (io_write R r a v) b = peek R r b) \<and>
     (\<forall>r v. \<forall>b \<in> ring_regs. v < 0x10000 \<longrightarrow> peek R (io_write R r b v) b = v) \<and>
     (\<forall>r a. \<forall>b \<in> ring_regs. peek R (snd (io_read R r a)) b = peek R r b) \<and>
     (\<forall>r. peek R (snd (io_read R r E1000_ICR)) E1000_ICR = 0)"

datatype nev = Accept "u8 list" | OnWire "u8 list" | Arrive "u8 list" | Deliver "u8 list"

text \<open>What the card leaves alone: the tail registers, the user's memory, the kernel's own state.\<close>

definition tx_frame :: "('r, 's) nstate_scheme \<Rightarrow> nat \<Rightarrow> u8 list" where
  "tx_frame s i = bytes_at (nmem s) (TxBuf i, 0) (unat (tx_length (tx_desc_array s i)))"

definition rx_frame :: "('r, 's) nstate_scheme \<Rightarrow> nat \<Rightarrow> u8 list" where
  "rx_frame s i = bytes_at (nmem s) (RxBuf i, 0) (unat (rx_length (rx_desc_array s i)))"

definition same_links :: "('r, 's) nstate_scheme \<Rightarrow> ('r, 's) nstate_scheme \<Rightarrow> bool" where
  "same_links s s' \<longleftrightarrow> tx_pkt_buffer_at s' = tx_pkt_buffer_at s \<and> rx_pkt_buffer_at s' = rx_pkt_buffer_at s"

definition tx_same :: "'r nic \<Rightarrow> ('r, 's) nstate_scheme \<Rightarrow> ('r, 's) nstate_scheme \<Rightarrow> bool" where
  "tx_same R s s' \<longleftrightarrow>
     reg R E1000_TDH s' = reg R E1000_TDH s \<and> reg R E1000_TDT s' = reg R E1000_TDT s \<and>
     tx_desc_array s' = tx_desc_array s \<and> (\<forall>i k. nmem s' (TxBuf i, k) = nmem s (TxBuf i, k))"

definition rx_same :: "'r nic \<Rightarrow> ('r, 's) nstate_scheme \<Rightarrow> ('r, 's) nstate_scheme \<Rightarrow> bool" where
  "rx_same R s s' \<longleftrightarrow>
     reg R E1000_RDH s' = reg R E1000_RDH s \<and> reg R E1000_RDT s' = reg R E1000_RDT s \<and>
     rx_desc_array s' = rx_desc_array s \<and> (\<forall>i k. nmem s' (RxBuf i, k) = nmem s (RxBuf i, k))"

text \<open>
  The card sends the frame of the descriptor at \<open>TDH\<close> when \<open>TDH\<close> and \<open>TDT\<close> differ (equal
  registers mean an empty ring), sets the done bit if the descriptor asks for it, and advances
  \<open>TDH\<close>.
\<close>

definition card_sends :: "'r nic \<Rightarrow> ('r, 's) nstate_scheme \<Rightarrow> u8 list \<Rightarrow> ('r, 's) nstate_scheme \<Rightarrow> bool" where
  "card_sends R s f s' \<longleftrightarrow>
     (let h = reg R E1000_TDH s; d = tx_desc_array s h
      in rx_same R s s' \<and> h \<noteq> reg R E1000_TDT s \<and>
         reg R E1000_TDT s' = reg R E1000_TDT s \<and> reg R E1000_TDH s' = (h + 1) mod TXDESCS \<and>
         tx_desc_array s' = (tx_desc_array s)
           (h := d\<lparr>tx_status := (if tx_cmd d AND E1000_TXD_CMD_RS \<noteq> 0 then tx_status d OR E1000_TXD_STAT_DD
                                  else tx_status d)\<rparr>) \<and>
         (\<forall>i k. nmem s' (TxBuf i, k) = nmem s (TxBuf i, k)) \<and>
         (tx_cmd d AND E1000_TXD_CMD_EOP \<noteq> 0 \<longrightarrow>
            (\<forall>i < TXDESCS. tx_addr d = kva2pa (tx_pkt_buffer s i) \<longrightarrow>
               f = bytes_at (nmem s) (TxBuf i, 0) (unat (tx_length d)))))"

text \<open>
  An arriving frame, at most as long as a buffer, goes to the buffer of the descriptor at \<open>RDH\<close>
  when \<open>RDH\<close> and \<open>RDT\<close> differ; the descriptor gets the length and the done bit, and \<open>RDH\<close>
  advances.
\<close>

definition card_fills :: "'r nic \<Rightarrow> ('r, 's) nstate_scheme \<Rightarrow> u8 list \<Rightarrow> ('r, 's) nstate_scheme \<Rightarrow> bool" where
  "card_fills R s f s' \<longleftrightarrow>
     (let h = reg R E1000_RDH s; d = rx_desc_array s h; d' = rx_desc_array s' h
      in tx_same R s s' \<and> h \<noteq> reg R E1000_RDT s \<and> f \<noteq> [] \<and> length f \<le> RX_PKT_SIZE \<and>
         reg R E1000_RDT s' = reg R E1000_RDT s \<and> reg R E1000_RDH s' = (h + 1) mod RXDESCS \<and>
         rx_addr d' = rx_addr d \<and> rx_length d' = of_nat (length f) \<and> rx_status d' AND E1000_RXD_STAT_DD \<noteq> 0 \<and>
         (\<forall>i. i \<noteq> h \<longrightarrow> rx_desc_array s' i = rx_desc_array s i) \<and>
         (\<forall>i < RXDESCS. rx_addr d = kva2pa (rx_pkt_buffer s i) \<longrightarrow>
            bytes_at (nmem s') (RxBuf i, 0) (length f) = f \<and>
            (\<forall>j k. j \<noteq> i \<longrightarrow> nmem s' (RxBuf j, k) = nmem s (RxBuf j, k))))"

definition nic_step ::
  "'r nic \<Rightarrow> ('r, 's) nstate_scheme \<Rightarrow> nev option \<Rightarrow> ('r, 's) nstate_scheme \<Rightarrow> bool" where
  "nic_step R s e s' \<longleftrightarrow> same_links s s' \<and> (\<forall>k. nmem s' (UserMem, k) = nmem s (UserMem, k)) \<and>
     (case e of
        None \<Rightarrow> tx_same R s s' \<and> rx_same R s s'
      | Some (OnWire f) \<Rightarrow> card_sends R s f s'
      | Some (Arrive f) \<Rightarrow> card_fills R s f s'
      | Some _ \<Rightarrow> False)"

section \<open>Driver and card together\<close>

text \<open>
  The steps: the card (a parameter \<open>dev\<close>), the entry points of the driver, and everything else,
  which may change the user's memory and the kernel's state but not the driver's data.
\<close>

inductive net_step ::
  "'r nic \<Rightarrow> (('r, 's) nstate_scheme \<Rightarrow> nev option \<Rightarrow> ('r, 's) nstate_scheme \<Rightarrow> bool) \<Rightarrow>
   ('r, 's) nstate_scheme \<Rightarrow> nev list \<Rightarrow> ('r, 's) nstate_scheme \<Rightarrow> bool"
  for R dev
where
  card: "dev s e s' \<Longrightarrow> net_step R dev s (case e of None \<Rightarrow> [] | Some f \<Rightarrow> [f]) s'"
| send: "0 < len \<Longrightarrow> e1000_transmit R (UserMem, p) len s = Inr (n, s') \<Longrightarrow>
    net_step R dev s (if n = 0 then [] else [Accept (bytes_at (nmem s) (UserMem, p) (nat n))]) s'"
| recv: "e1000_poll R (UserMem, p) s = Inr (n, s') \<Longrightarrow>
    net_step R dev s (if n = 0 then [] else [Deliver (bytes_at (nmem s') (UserMem, p) (nat n))]) s'"
| tx_ready: "is_tx_ready R s = Inr (b, s') \<Longrightarrow> net_step R dev s [] s'"
| rx_ready: "is_rx_ready R s = (b, s') \<Longrightarrow> net_step R dev s [] s'"
| enable: "net_step R dev s [] (e1000_enable_txqe R s)"
| disable: "net_step R dev s [] (e1000_disable_txqe R s)"
| other: "regs s' = regs s \<Longrightarrow> tx_same R s s' \<Longrightarrow> rx_same R s s' \<Longrightarrow> same_links s s' \<Longrightarrow> net_step R dev s [] s'"

inductive net_steps ::
  "'r nic \<Rightarrow> (('r, 's) nstate_scheme \<Rightarrow> nev option \<Rightarrow> ('r, 's) nstate_scheme \<Rightarrow> bool) \<Rightarrow>
   ('r, 's) nstate_scheme \<Rightarrow> nev list \<Rightarrow> ('r, 's) nstate_scheme \<Rightarrow> bool"
  for R dev
where
  none: "net_steps R dev s [] s"
| step: "net_steps R dev s tr s' \<Longrightarrow> net_step R dev s' ev s'' \<Longrightarrow> net_steps R dev s (tr @ ev) s''"

definition accepted :: "nev list \<Rightarrow> u8 list list" where "accepted tr = [f. Accept f \<leftarrow> tr]"
definition on_wire :: "nev list \<Rightarrow> u8 list list" where "on_wire tr = [f. OnWire f \<leftarrow> tr]"
definition arrived :: "nev list \<Rightarrow> u8 list list" where "arrived tr = [f. Arrive f \<leftarrow> tr]"
definition delivered :: "nev list \<Rightarrow> u8 list list" where "delivered tr = [f. Deliver f \<leftarrow> tr]"

lemmas ev_defs = accepted_def on_wire_def arrived_def delivered_def

lemma ev_nil [simp]: "accepted [] = []" "on_wire [] = []" "arrived [] = []" "delivered [] = []"
  by (simp_all add: ev_defs)

lemma ev_append [simp]:
  "accepted (tr @ tr') = accepted tr @ accepted tr'" "on_wire (tr @ tr') = on_wire tr @ on_wire tr'"
  "arrived (tr @ tr') = arrived tr @ arrived tr'" "delivered (tr @ tr') = delivered tr @ delivered tr'"
  by (simp_all add: ev_defs)

section \<open>The invariant\<close>

definition tx_inv :: "'r nic \<Rightarrow> ('r, 's) nstate_scheme \<Rightarrow> u8 list list \<Rightarrow> bool" where
  "tx_inv R s P \<longleftrightarrow>
     reg R E1000_TDH s < TXDESCS \<and> reg R E1000_TDT s = (reg R E1000_TDH s + length P) mod TXDESCS \<and>
     ring TXDESCS (reg R E1000_TDH s) P (\<lambda>i. tx_status (tx_desc_array s i) AND E1000_TXD_STAT_DD = 0) (tx_frame s) \<and>
     (\<forall>i < TXDESCS. tx_addr (tx_desc_array s i) = kva2pa (tx_pkt_buffer s i) \<and>
        tx_cmd (tx_desc_array s i) AND E1000_TXD_CMD_RS \<noteq> 0 \<and> tx_cmd (tx_desc_array s i) AND E1000_TXD_CMD_EOP \<noteq> 0)"

definition rx_inv :: "'r nic \<Rightarrow> ('r, 's) nstate_scheme \<Rightarrow> u8 list list \<Rightarrow> bool" where
  "rx_inv R s P \<longleftrightarrow>
     reg R E1000_RDT s < RXDESCS \<and> length P < RXDESCS \<and>
     reg R E1000_RDH s = (reg R E1000_RDT s + 1 + length P) mod RXDESCS \<and>
     ring RXDESCS (reg R E1000_RDT s + 1) P (\<lambda>i. rx_status (rx_desc_array s i) AND E1000_RXD_STAT_DD \<noteq> 0) (rx_frame s) \<and>
     (\<forall>f \<in> set P. f \<noteq> [] \<and> length f \<le> RX_PKT_SIZE) \<and>
     (\<forall>i < RXDESCS. rx_addr (rx_desc_array s i) = kva2pa (rx_pkt_buffer s i))"

lemma ring_mod: "ring N (h mod N) P full frame = ring N h P full frame"
  by (simp add: ring_def mod_simps)

lemmas descs = TXDESCS_def RXDESCS_def TX_PKT_SIZE_def RX_PKT_SIZE_def
lemmas stat_dd = E1000_TXD_STAT_DD_def E1000_RXD_STAT_DD_def

lemma dd_clear [simp]:
  "(x AND NOT E1000_TXD_STAT_DD) AND E1000_TXD_STAT_DD = 0" "(x AND NOT E1000_RXD_STAT_DD) AND E1000_RXD_STAT_DD = 0"
  by (simp_all add: and.assoc)

lemma or_and_ne0: "(b::'a::len word) \<noteq> 0 \<Longrightarrow> (x OR b) AND b \<noteq> 0"
  by (metis bit.conj_disj_distrib2 or_eq_0_iff and.idem)

lemma dd_set [simp]: "(x OR E1000_TXD_STAT_DD) AND E1000_TXD_STAT_DD \<noteq> 0"
  by (rule or_and_ne0) (simp add: stat_dd)

lemma tx_inv_same:
  assumes "tx_inv R s P" and "tx_same R s s'" and "same_links s s'"
  shows "tx_inv R s' P"
proof -
  have "tx_frame s' = tx_frame s"
    using assms(2) by (auto simp: tx_same_def tx_frame_def fun_eq_iff bytes_at_def)
  then show ?thesis
    using assms by (simp add: tx_inv_def tx_same_def same_links_def tx_pkt_buffer_def)
qed

lemma rx_inv_same:
  assumes "rx_inv R s P" and "rx_same R s s'" and "same_links s s'"
  shows "rx_inv R s' P"
proof -
  have "rx_frame s' = rx_frame s"
    using assms(2) by (auto simp: rx_same_def rx_frame_def fun_eq_iff bytes_at_def)
  then show ?thesis
    using assms by (simp add: rx_inv_def rx_same_def same_links_def rx_pkt_buffer_def)
qed

lemma nic_regs:
  assumes "nic_ok R" and "b \<in> ring_regs"
  shows "a \<noteq> b \<Longrightarrow> peek R (io_write R r a v) b = peek R r b"
    and "v < 0x10000 \<Longrightarrow> peek R (io_write R r b v) b = v"
    and "peek R (snd (io_read R r a)) b = peek R r b"
  using assms unfolding nic_ok_def by blast+

lemma ring_reg_ne [simp]:
  "E1000_TDH \<noteq> E1000_TDT" "E1000_TDH \<noteq> E1000_RDH" "E1000_TDH \<noteq> E1000_RDT" "E1000_TDT \<noteq> E1000_TDH"
  "E1000_TDT \<noteq> E1000_RDH" "E1000_TDT \<noteq> E1000_RDT" "E1000_RDH \<noteq> E1000_TDH" "E1000_RDH \<noteq> E1000_TDT"
  "E1000_RDH \<noteq> E1000_RDT" "E1000_RDT \<noteq> E1000_TDH" "E1000_RDT \<noteq> E1000_TDT" "E1000_RDT \<noteq> E1000_RDH"
  "E1000_IMS \<notin> ring_regs" "E1000_IMC \<notin> ring_regs"
  by (simp_all add: reg_defs)

lemma read_reg:
  "e1000_read_reg R a s = (peek R (regs s) a, s\<lparr>regs := snd (io_read R (regs s) a)\<rparr>)"
  by (simp add: e1000_read_reg_def peek_def split: prod.splits)

text \<open>Reading a register, and writing one that is no ring register, leaves both rings as they are.\<close>

lemma regs_same:
  assumes "\<And>b. b \<in> ring_regs \<Longrightarrow> peek R r b = peek R (regs s) b"
  shows "tx_same R s (s\<lparr>regs := r\<rparr>)" and "rx_same R s (s\<lparr>regs := r\<rparr>)" and "same_links s (s\<lparr>regs := r\<rparr>)"
  using assms by (simp_all add: tx_same_def rx_same_def same_links_def)

lemma read_same:
  assumes "nic_ok R"
  shows "tx_same R s (s\<lparr>regs := snd (io_read R (regs s) a)\<rparr>)"
    and "rx_same R s (s\<lparr>regs := snd (io_read R (regs s) a)\<rparr>)"
    and "same_links s (s\<lparr>regs := snd (io_read R (regs s) a)\<rparr>)"
  using nic_regs(3) [OF assms] by (blast intro: regs_same)+

lemma write_same:
  assumes "nic_ok R" and "a \<notin> ring_regs"
  shows "tx_same R s (e1000_write_reg R a v s)" and "rx_same R s (e1000_write_reg R a v s)"
    and "same_links s (e1000_write_reg R a v s)"
proof -
  have "\<And>b. b \<in> ring_regs \<Longrightarrow> peek R (io_write R (regs s) a v) b = peek R (regs s) b"
    using nic_regs(1) [OF assms(1)] assms(2) by blast
  from regs_same [OF this] show "tx_same R s (e1000_write_reg R a v s)" "rx_same R s (e1000_write_reg R a v s)"
    "same_links s (e1000_write_reg R a v s)" by (simp_all add: e1000_write_reg_def)
qed

lemma next_index: "unat ((t + 1) mod 64 :: u32) = (unat t + 1) mod 64" 
proof -
  have "unat ((t + 1) mod 64 :: u32) = unat (t + 1) mod 64" by (simp add: unat_mod)
  also have "\<dots> = (unat t + 1) mod 2 ^ 32 mod 64" by (simp add: unat_word_ariths)
  also have "\<dots> = (unat t + 1) mod 64" by (simp add: mod_mod_cancel)
  finally show ?thesis .
qed

lemma mod64_small: "((t::u32) mod 64) < 0x10000"
  unfolding word_less_nat_alt unat_mod by (rule less_trans [of _ 64]) simp_all

section \<open>The operations keep the invariant\<close>

text \<open>\<open>e1000_transmit\<close> appends the packet to the ring, or returns 0 when all 64 descriptors are in use.\<close>

lemma transmit_ok:
  assumes R: "nic_ok R" and inv: "tx_inv R s P" and len: "0 \<le> len" "len < 2048"
  defines "s1 \<equiv> s\<lparr>regs := snd (io_read R (regs s) E1000_TDT)\<rparr>"
  shows "length P = 64 \<Longrightarrow> e1000_transmit R (UserMem, p) len s = Inr (0, s1)"
    and "length P < 64 \<Longrightarrow> \<exists>s'. e1000_transmit R (UserMem, p) len s = Inr (len, s') \<and>
        tx_inv R s' (P @ [bytes_at (nmem s) (UserMem, p) (nat len)]) \<and> rx_same R s s' \<and> same_links s s' \<and>
        (\<forall>k. nmem s' (UserMem, k) = nmem s (UserMem, k)) \<and> kstate.truncate s' = kstate.truncate s"
proof -
  let ?t = "peek R (regs s) E1000_TDT" and ?h = "reg R E1000_TDH s"
  let ?i = "unat ?t"
  have t: "?i = (?h + length P) mod 64" "?h < 64" using inv by (simp_all add: tx_inv_def descs)
  then have i: "?i < TXDESCS" by (simp add: descs)
  have rg: "ring 64 ?h P (\<lambda>i. tx_status (tx_desc_array s i) AND E1000_TXD_STAT_DD = 0) (tx_frame s)"
    using inv by (simp add: tx_inv_def descs)
  have read: "e1000_read_reg R E1000_TDT s = (?t, s1)" by (simp add: read_reg s1_def)
  have s1: "tx_desc_array s1 = tx_desc_array s" "nmem s1 = nmem s" "tx_pkt_buffer s1 = tx_pkt_buffer s"
    by (simp_all add: s1_def tx_pkt_buffer_def fun_eq_iff)
  {
    assume "length P = 64"
    then obtain f P' where P: "P = f # P'" and hd: "?i mod 64 = ?h" using t by (cases P) auto
    have "tx_status (tx_desc_array s ?i) AND E1000_TXD_STAT_DD = 0"
      using ring_head [OF rg [unfolded P]] hd t by simp
    then show "e1000_transmit R (UserMem, p) len s = Inr (0, s1)"
      using len i read by (simp add: e1000_transmit_def s1 descs)
  }
  assume n: "length P < 64"
  let ?f = "bytes_at (nmem s) (UserMem, p) (nat len)"
  let ?d = "tx_desc_array s ?i"
  let ?d' = "tx_cmd_update (\<lambda>c. c OR (E1000_TXD_CMD_EOP OR E1000_TXD_CMD_RS))
     (tx_status_update (\<lambda>st. st AND NOT E1000_TXD_STAT_DD) (?d\<lparr>tx_length := word_of_int len\<rparr>))"
  let ?s2 = "s1\<lparr>tx_desc_array := (tx_desc_array s)(?i := ?d'),
      nmem := memcpy (nmem s) (TxBuf ?i, 0) (UserMem, p) (nat len)\<rparr>"
  let ?s' = "e1000_write_reg R E1000_TDT ((?t + 1) mod 64) ?s2"
  have free: "tx_status ?d AND E1000_TXD_STAT_DD \<noteq> 0" using ring_free [OF rg n] t(1) by simp
  have "tx_addr ?d = kva2pa (tx_pkt_buffer s ?i)" using inv i by (simp add: tx_inv_def)
  then have run: "e1000_transmit R (UserMem, p) len s = Inr (len, ?s')"
    using len i read free
    by (simp add: e1000_transmit_def s1 descs upd_tx_def Let_def tx_pkt_buffer_def)
      (simp add: s1_def tx_pkt_buffer_def e1000_write_reg_def)
  have mem: "nmem ?s' = memcpy (nmem s) (TxBuf ?i, 0) (UserMem, p) (nat len)" by (simp add: e1000_write_reg_def)
  have l: "unat (word_of_int len :: u16) = nat len"
    using len by (simp add: unat_eq_nat_uint uint_word_of_int_eq take_bit_int_eq_self)
  have regs: "reg R E1000_TDT ?s' = (?i + 1) mod 64" "reg R E1000_TDH ?s' = ?h"
    "reg R E1000_RDT ?s' = reg R E1000_RDT s" "reg R E1000_RDH ?s' = reg R E1000_RDH s"
    using R mod64_small [of "?t + 1"] next_index [of ?t]
    by (simp_all add: e1000_write_reg_def s1_def nic_regs)
  have "ring 64 ?h (P @ [?f]) (\<lambda>i. tx_status (tx_desc_array ?s' i) AND E1000_TXD_STAT_DD = 0) (tx_frame ?s')"
  proof (rule ring_push [OF rg n])
    show "tx_frame ?s' ((?h + length P) mod 64) = ?f"
      unfolding t(1) [symmetric] tx_frame_def mem
      by (simp add: e1000_write_reg_def l bytes_at_memcpy)
  next
    fix j assume "j \<noteq> (?h + length P) mod 64"
    then show "(tx_status (tx_desc_array ?s' j) AND E1000_TXD_STAT_DD = 0) =
        (tx_status (tx_desc_array s j) AND E1000_TXD_STAT_DD = 0) \<and>
        (tx_status (tx_desc_array s j) AND E1000_TXD_STAT_DD = 0 \<longrightarrow> tx_frame ?s' j = tx_frame s j)"
      unfolding t(1) [symmetric] tx_frame_def mem
      by (simp add: e1000_write_reg_def bytes_at_def memcpy_outside)
  qed (simp add: t(1) [symmetric] e1000_write_reg_def)
  moreover have "tx_cmd ?d' AND E1000_TXD_CMD_RS \<noteq> 0" "tx_cmd ?d' AND E1000_TXD_CMD_EOP \<noteq> 0"
    by (simp_all add: E1000_TXD_CMD_RS_def E1000_TXD_CMD_EOP_def bit.conj_disj_distrib2)
  ultimately have "tx_inv R ?s' (P @ [?f])"
    unfolding tx_inv_def regs using inv t
    by (simp add: tx_inv_def descs mod_simps e1000_write_reg_def s1_def tx_pkt_buffer_def)
  moreover have "rx_same R s ?s'"
    unfolding rx_same_def regs mem
    by (simp add: memcpy_outside e1000_write_reg_def s1_def)
  ultimately show "\<exists>s'. e1000_transmit R (UserMem, p) len s = Inr (len, s') \<and>
        tx_inv R s' (P @ [?f]) \<and> rx_same R s s' \<and> same_links s s' \<and>
        (\<forall>k. nmem s' (UserMem, k) = nmem s (UserMem, k)) \<and> kstate.truncate s' = kstate.truncate s"
    using run mem
    by (intro exI [of _ ?s'])
      (simp add: memcpy_outside same_links_def e1000_write_reg_def s1_def kstate.truncate_def)
qed

text \<open>\<open>e1000_poll\<close> hands out the oldest frame, or returns 0 when there is none.\<close>

lemma ring_cong_start: "h mod N = k mod N \<Longrightarrow> ring N h P full frame = ring N k P full frame"
  by (metis ring_mod)

lemma poll_empty:
  assumes "rx_inv R s []"
  shows "e1000_poll R q s = Inr (0, s\<lparr>regs := snd (io_read R (regs s) E1000_RDT)\<rparr>)"
proof -
  have "\<not> rx_status (rx_desc_array s ((reg R E1000_RDT s + 1) mod 64)) AND E1000_RXD_STAT_DD \<noteq> 0"
    using assms ring_free [of 64 "reg R E1000_RDT s + 1" "[]"] by (auto simp: rx_inv_def descs)
  then show ?thesis by (simp add: e1000_poll_def read_reg next_index descs)
qed

lemma poll_ok:
  assumes R: "nic_ok R" and inv: "rx_inv R s (f # P)"
  shows "\<exists>s'. e1000_poll R (UserMem, p) s = Inr (int (length f), s') \<and> rx_inv R s' P \<and>
      bytes_at (nmem s') (UserMem, p) (length f) = f \<and> tx_same R s s' \<and> same_links s s' \<and>
      (\<forall>k. k < p \<or> p + length f \<le> k \<longrightarrow> nmem s' (UserMem, k) = nmem s (UserMem, k)) \<and>
      kstate.truncate s' = kstate.truncate s"
proof -
  let ?t = "peek R (regs s) E1000_RDT" and ?s1 = "s\<lparr>regs := snd (io_read R (regs s) E1000_RDT)\<rparr>"
  let ?n = "(?t + 1) mod 64"
  let ?i = "unat ?n" and ?h = "unat ?t + 1"
  let ?d = "rx_desc_array s ?i"
  have i: "?i = ?h mod 64" by (rule next_index)
  then have i64: "?i < RXDESCS" by (simp add: descs)
  have rg: "ring 64 ?h (f # P) (\<lambda>i. rx_status (rx_desc_array s i) AND E1000_RXD_STAT_DD \<noteq> 0) (rx_frame s)"
    using inv by (simp add: rx_inv_def descs)
  have full: "rx_status ?d AND E1000_RXD_STAT_DD \<noteq> 0" and f: "rx_frame s ?i = f"
    using ring_head [OF rg] unfolding i by blast+
  have len: "unat (rx_length ?d) = length f" using f by (auto simp: rx_frame_def)
  have lf: "length f \<le> 2048" using inv by (simp add: rx_inv_def descs)
  have addr: "rx_addr ?d = kva2pa (rx_pkt_buffer s ?i)" using inv i64 by (simp add: rx_inv_def)
  let ?s2 = "?s1\<lparr>nmem := memcpy (nmem s) (UserMem, p) (RxBuf ?i, 0) (length f),
      rx_desc_array := (rx_desc_array s)(?i := rx_status_update (\<lambda>st. st AND NOT E1000_RXD_STAT_DD) ?d)\<rparr>"
  let ?s' = "e1000_write_reg R E1000_RDT (?n mod 64) ?s2"
  have run: "e1000_poll R (UserMem, p) s = Inr (int (length f), ?s')"
    using full len lf addr
    by (simp add: e1000_poll_def read_reg descs upd_rx_def Let_def rx_pkt_buffer_def)
  have mem: "nmem ?s' = memcpy (nmem s) (UserMem, p) (RxBuf ?i, 0) (length f)" by (simp add: e1000_write_reg_def)
  have nn: "unat (?n mod 64) = ?h mod 64" using i by (simp add: unat_mod del: unat_mod_distrib)
  have regs: "reg R E1000_RDT ?s' = ?h mod 64" "reg R E1000_RDH ?s' = reg R E1000_RDH s"
    "reg R E1000_TDT ?s' = reg R E1000_TDT s" "reg R E1000_TDH ?s' = reg R E1000_TDH s"
    using R mod64_small [of ?n] nn
    by (simp_all add: e1000_write_reg_def nic_regs)
  have "ring 64 ((?h + 1) mod 64) P (\<lambda>i. rx_status (rx_desc_array ?s' i) AND E1000_RXD_STAT_DD \<noteq> 0) (rx_frame ?s')"
  proof (rule ring_pop [OF rg])
    fix j assume "j \<noteq> ?h mod 64"
    then show "(rx_status (rx_desc_array ?s' j) AND E1000_RXD_STAT_DD \<noteq> 0) =
        (rx_status (rx_desc_array s j) AND E1000_RXD_STAT_DD \<noteq> 0) \<and>
        (rx_status (rx_desc_array s j) AND E1000_RXD_STAT_DD \<noteq> 0 \<longrightarrow> rx_frame ?s' j = rx_frame s j)"
      unfolding i [symmetric] rx_frame_def mem
      by (simp add: e1000_write_reg_def bytes_at_def memcpy_outside)
  qed (unfold i [symmetric], simp add: e1000_write_reg_def)
  then have rg': "ring 64 (?h mod 64 + 1) P (\<lambda>i. rx_status (rx_desc_array ?s' i) AND E1000_RXD_STAT_DD \<noteq> 0) (rx_frame ?s')"
    by (rule ring_cong_start [THEN iffD1, rotated]) (simp add: mod_simps)
  have "rx_addr (rx_desc_array ?s' j) = kva2pa (rx_pkt_buffer ?s' j)" if "j < 64" for j
    using inv that by (simp add: rx_inv_def descs e1000_write_reg_def rx_pkt_buffer_def)
  moreover have "reg R E1000_RDH s = (?h mod 64 + 1 + length P) mod 64"
    unfolding add.assoc mod_add_left_eq using inv by (simp add: rx_inv_def descs)
  moreover have "length P < 64" "\<forall>f\<in>set P. f \<noteq> [] \<and> length f \<le> 2048" "?h mod 64 < 64"
    using inv by (simp_all add: rx_inv_def descs)
  ultimately have "rx_inv R ?s' P"
    unfolding rx_inv_def regs descs using rg' by blast
  moreover have "tx_same R s ?s'"
    unfolding tx_same_def regs mem by (simp add: memcpy_outside e1000_write_reg_def)
  moreover have "bytes_at (nmem ?s') (UserMem, p) (length f) = f"
    using f len unfolding mem by (simp add: bytes_at_memcpy rx_frame_def)
  ultimately show ?thesis
    using run mem
    by (intro exI [of _ ?s'])
      (simp add: memcpy_outside same_links_def e1000_write_reg_def kstate.truncate_def)
qed

text \<open>The steps of the card.\<close>

lemma card_sends_ok:
  assumes inv: "tx_inv R s P" and c: "card_sends R s f s'" and l: "same_links s s'"
  shows "\<exists>P'. P = f # P' \<and> tx_inv R s' P'"
proof -
  let ?h = "reg R E1000_TDH s"
  note c' = c [unfolded card_sends_def Let_def descs]
  have h: "?h < 64" "reg R E1000_TDT s = (?h + length P) mod 64" and
    rg: "ring 64 ?h P (\<lambda>i. tx_status (tx_desc_array s i) AND E1000_TXD_STAT_DD = 0) (tx_frame s)"
    using inv by (simp_all add: tx_inv_def descs)
  have "P \<noteq> []" using h c' by auto
  then obtain g P' where P: "P = g # P'" by (cases P) auto
  have g: "g = tx_frame s ?h" using ring_head [OF rg [unfolded P]] h(1) by simp
  have d: "tx_addr (tx_desc_array s ?h) = kva2pa (tx_pkt_buffer s ?h)"
    "tx_cmd (tx_desc_array s ?h) AND E1000_TXD_CMD_RS \<noteq> 0" "tx_cmd (tx_desc_array s ?h) AND E1000_TXD_CMD_EOP \<noteq> 0"
    using inv h(1) by (simp_all add: tx_inv_def descs)
  have f: "f = g" using c' d(1,3) h(1) unfolding g tx_frame_def by blast
  have t: "tx_desc_array s' = (tx_desc_array s)(?h := (tx_desc_array s ?h)
      \<lparr>tx_status := tx_status (tx_desc_array s ?h) OR E1000_TXD_STAT_DD\<rparr>)"
    using c' d(2) by simp
  have "ring 64 ((?h + 1) mod 64) P' (\<lambda>i. tx_status (tx_desc_array s' i) AND E1000_TXD_STAT_DD = 0) (tx_frame s')"
  proof (rule ring_pop [OF rg [unfolded P]])
    fix i assume "i \<noteq> ?h mod 64"
    then show "(tx_status (tx_desc_array s' i) AND E1000_TXD_STAT_DD = 0) =
        (tx_status (tx_desc_array s i) AND E1000_TXD_STAT_DD = 0) \<and>
        (tx_status (tx_desc_array s i) AND E1000_TXD_STAT_DD = 0 \<longrightarrow> tx_frame s' i = tx_frame s i)"
      using c' h(1) by (simp add: tx_frame_def t bytes_at_def)
  qed (use h(1) in \<open>simp add: t stat_dd\<close>)
  moreover have "reg R E1000_TDT s' = reg R E1000_TDT s" "reg R E1000_TDH s' = (?h + 1) mod 64" using c' by auto
  ultimately have "tx_inv R s' P'"
    using inv l h P unfolding tx_inv_def
    by (simp add: descs mod_simps t same_links_def tx_pkt_buffer_def)
  with P f show ?thesis by blast
qed

lemma card_fills_ok:
  assumes inv: "rx_inv R s P" and c: "card_fills R s f s'" and l: "same_links s s'"
  shows "rx_inv R s' (P @ [f])"
proof -
  let ?t = "reg R E1000_RDT s"
  let ?h = "reg R E1000_RDH s"
  note c' = c [unfolded card_fills_def Let_def descs]
  have h: "?h = (?t + 1 + length P) mod 64" "?t < 64" "length P < 64" and
    rg: "ring 64 (?t + 1) P (\<lambda>i. rx_status (rx_desc_array s i) AND E1000_RXD_STAT_DD \<noteq> 0) (rx_frame s)"
    using inv by (simp_all add: rx_inv_def descs)
  have "length P \<noteq> 63"
  proof
    assume "length P = 63"
    then have "?h = ?t" using h by simp
    with c' show False by simp
  qed
  with h(3) have n: "length P + 1 < 64" by simp
  have h64: "?h < 64" unfolding h(1) by simp
  have a: "rx_addr (rx_desc_array s ?h) = kva2pa (rx_pkt_buffer s ?h)" using inv h64 by (simp add: rx_inv_def descs)
  have buf: "bytes_at (nmem s') (RxBuf ?h, 0) (length f) = f" "\<And>j k. j \<noteq> ?h \<Longrightarrow> nmem s' (RxBuf j, k) = nmem s (RxBuf j, k)"
    using c' h64 a by blast+
  have lf: "unat (of_nat (length f) :: u16) = length f"
    using c' by (simp add: unat_of_nat)
  have "ring 64 (?t + 1) (P @ [f]) (\<lambda>i. rx_status (rx_desc_array s' i) AND E1000_RXD_STAT_DD \<noteq> 0) (rx_frame s')"
  proof (rule ring_push [OF rg h(3)])
    show "rx_frame s' ((?t + 1 + length P) mod 64) = f"
      using c' buf(1) unfolding h(1) [symmetric] rx_frame_def by (simp add: lf)
  next
    fix i assume "i \<noteq> (?t + 1 + length P) mod 64"
    then show "(rx_status (rx_desc_array s' i) AND E1000_RXD_STAT_DD \<noteq> 0) =
        (rx_status (rx_desc_array s i) AND E1000_RXD_STAT_DD \<noteq> 0) \<and>
        (rx_status (rx_desc_array s i) AND E1000_RXD_STAT_DD \<noteq> 0 \<longrightarrow> rx_frame s' i = rx_frame s i)"
      using c' buf(2) unfolding h(1) [symmetric] rx_frame_def by (simp add: bytes_at_def)
  qed (use c' h(1) in simp)
  moreover have "rx_addr (rx_desc_array s' i) = rx_addr (rx_desc_array s i)" for i
    using c' by (cases "i = ?h") auto
  moreover have "reg R E1000_RDT s' = ?t" "reg R E1000_RDH s' = (?h + 1) mod 64" "f \<noteq> []" "length f \<le> 2048"
    using c' by auto
  ultimately show ?thesis
    using inv l h n unfolding rx_inv_def
    by (simp add: descs mod_simps same_links_def rx_pkt_buffer_def)
qed

section \<open>Initialisation\<close>

text \<open>Reading \<open>ICR\<close> clears it, so the loop of \<open>e1000_reset\<close> ends after at most two reads.\<close>

lemma clear_icr_ok:
  assumes "nic_ok R"
  shows "\<exists>r'. clear_icr R r = Some r' \<and> (\<forall>b \<in> ring_regs. peek R r' b = peek R r b)"
proof -
  let ?r1 = "snd (io_read R r E1000_ICR)"
  let ?r2 = "snd (io_read R ?r1 E1000_ICR)"
  have "peek R ?r1 E1000_ICR = 0" using assms by (simp add: nic_ok_def)
  then have "clear_icr R ?r1 = Some ?r2"
    by (subst clear_icr.simps) (auto simp: peek_def split: prod.splits)
  then have "clear_icr R r = Some (if peek R r E1000_ICR = 0 then ?r1 else ?r2)"
    by (subst clear_icr.simps) (auto simp: peek_def split: prod.splits)
  moreover have "\<forall>b \<in> ring_regs. peek R ?r1 b = peek R r b" "\<forall>b \<in> ring_regs. peek R ?r2 b = peek R r b"
    using nic_regs(3) [OF assms] by auto
  ultimately show ?thesis by simp
qed

lemma fold_init_tx:
  "fold (\<lambda>i s. upd_tx i (init_tx_desc s i) s) [0..<n] s =
   s\<lparr>tx_desc_array := (\<lambda>i. if i < n then init_tx_desc s i (tx_desc_array s i) else tx_desc_array s i)\<rparr>"
proof (induction n)
  case (Suc n)
  show ?case
    unfolding upt_Suc_append [OF le0] fold_append comp_def Suc.IH
    by (auto simp: upd_tx_def init_tx_desc_def tx_pkt_buffer_def fun_eq_iff less_Suc_eq)
qed simp

lemma fold_init_rx:
  "fold (\<lambda>i s. upd_rx i (rx_addr_update (\<lambda>_. kva2pa (rx_pkt_buffer s i))) s) [0..<n] s =
   s\<lparr>rx_desc_array := (\<lambda>i. if i < n then (rx_desc_array s i)\<lparr>rx_addr := kva2pa (rx_pkt_buffer s i)\<rparr>
                             else rx_desc_array s i)\<rparr>"
proof (induction n)
  case (Suc n)
  show ?case
    unfolding upt_Suc_append [OF le0] fold_append comp_def Suc.IH
    by (auto simp: upd_rx_def rx_pkt_buffer_def fun_eq_iff less_Suc_eq)
qed simp

lemma pkt_buffer_upd [simp]:
  "tx_pkt_buffer (regs_update f s) = tx_pkt_buffer s" "rx_pkt_buffer (regs_update f s) = rx_pkt_buffer s"
  "tx_pkt_buffer (tx_desc_array_update g s) = tx_pkt_buffer s" "rx_pkt_buffer (tx_desc_array_update g s) = rx_pkt_buffer s"
  "tx_pkt_buffer (rx_desc_array_update h s) = tx_pkt_buffer s" "rx_pkt_buffer (rx_desc_array_update h s) = rx_pkt_buffer s"
  by (simp_all add: tx_pkt_buffer_def rx_pkt_buffer_def fun_eq_iff)

lemma ring_empty: "(\<And>i. i < N \<Longrightarrow> \<not> full i) \<Longrightarrow> ring N h [] full frame"
  by (simp add: ring_def)

lemma init_ok:
  assumes R: "nic_ok R" and fresh: "\<forall>i < RXDESCS. rx_status (rx_desc_array s i) AND E1000_RXD_STAT_DD = 0"
  shows "\<exists>s'. e1000_init R s = Inr s' \<and> tx_inv R s' [] \<and> rx_inv R s' []"
proof -
  have "\<exists>r'. clear_icr R r = Some r'" for r using clear_icr_ok [OF R] by blast
  then obtain c where c: "clear_icr R r = Some (c r)" for r by metis
  then obtain r where r: "e1000_reset R s = Inr (s\<lparr>regs := r\<rparr>)"
    by (simp add: e1000_reset_def Let_def e1000_write_reg_def)
  let ?s' = "e1000_configure_rx R (e1000_configure_tx R (s\<lparr>regs := r\<rparr>))"
  note w = nic_regs(1,2) [OF R]
  have regs: "peek R (regs ?s') E1000_TDH = 0" "peek R (regs ?s') E1000_TDT = 0"
    "peek R (regs ?s') E1000_RDH = 0" "peek R (regs ?s') E1000_RDT = 63"
    by (simp_all add: e1000_configure_rx_def e1000_configure_tx_def Let_def e1000_write_reg_def
        e1000_write_reg_array_def fold_init_tx fold_init_rx w reg_defs descs)
  have d: "tx_desc_array ?s' i = init_tx_desc s i (tx_desc_array s i)"
    "rx_desc_array ?s' i = (rx_desc_array s i)\<lparr>rx_addr := kva2pa (rx_pkt_buffer s i)\<rparr>"
    "tx_pkt_buffer ?s' i = tx_pkt_buffer s i" "rx_pkt_buffer ?s' i = rx_pkt_buffer s i" if "i < 64" for i
    using that by (simp_all add: e1000_configure_rx_def e1000_configure_tx_def Let_def e1000_write_reg_def
        e1000_write_reg_array_def fold_init_tx fold_init_rx descs init_tx_desc_def)
  have "tx_inv R ?s' []"
    unfolding tx_inv_def regs descs
    by (auto intro!: ring_empty simp: d init_tx_desc_def stat_dd E1000_TXD_CMD_RS_def E1000_TXD_CMD_EOP_def)
  moreover have "rx_inv R ?s' []"
    unfolding rx_inv_def regs descs using fresh
    by (auto intro!: ring_empty simp: d descs)
  ultimately show ?thesis using r by (simp add: e1000_init_def)
qed

section \<open>The frames in order\<close>

abbreviation card_ok ::
  "'r nic \<Rightarrow> (('r, 's) nstate_scheme \<Rightarrow> nev option \<Rightarrow> ('r, 's) nstate_scheme \<Rightarrow> bool) \<Rightarrow> bool" where
  "card_ok R dev \<equiv> nic_ok R \<and> (\<forall>s e s'. dev s e s' \<longrightarrow> nic_step R s e s')"

lemma quiet_step:
  assumes "tx_inv R s P" and "rx_inv R s Q" and "tx_same R s s'" and "rx_same R s s'" and "same_links s s'"
  shows "\<exists>P' Q'. tx_inv R s' P' \<and> rx_inv R s' Q' \<and> P @ accepted [] = on_wire [] @ P' \<and>
    Q @ arrived [] = delivered [] @ Q'"
  using tx_inv_same [OF assms(1,3,5)] rx_inv_same [OF assms(2,4,5)] by simp

lemma is_ready_same:
  assumes "nic_ok R"
  shows "is_tx_ready R s = Inr (b, s') \<Longrightarrow> tx_same R s s' \<and> rx_same R s s' \<and> same_links s s'"
    and "is_rx_ready R s = (b, s') \<Longrightarrow> tx_same R s s' \<and> rx_same R s s' \<and> same_links s s'"
  using read_same [OF assms]
  by (auto simp: is_tx_ready_def is_rx_ready_def read_reg res_eq_Inr)

lemma card_step_inv:
  assumes "tx_inv R s P" and "rx_inv R s Q" and "nic_step R s e s'"
  defines "ev \<equiv> case e of None \<Rightarrow> [] | Some f \<Rightarrow> [f]"
  shows "\<exists>P' Q'. tx_inv R s' P' \<and> rx_inv R s' Q' \<and> P @ accepted ev = on_wire ev @ P' \<and>
    Q @ arrived ev = delivered ev @ Q'"
proof -
  have l: "same_links s s'" using assms(3) by (simp add: nic_step_def)
  consider "e = None" "tx_same R s s'" "rx_same R s s'" | f where "e = Some (OnWire f)" "card_sends R s f s'"
    | f where "e = Some (Arrive f)" "card_fills R s f s'"
    using assms(3) by (auto simp: nic_step_def split: option.splits nev.splits)
  then show ?thesis
  proof cases
    case 1
    then show ?thesis unfolding ev_def using quiet_step [OF assms(1,2) _ _ l] by simp
  next
    case 2
    then have "rx_same R s s'" by (simp add: card_sends_def Let_def)
    with 2 card_sends_ok [OF assms(1) _ l] rx_inv_same [OF assms(2) _ l] show ?thesis
      by (auto simp: ev_def ev_defs)
  next
    case 3
    then have "tx_same R s s'" by (simp add: card_fills_def Let_def)
    with 3 card_fills_ok [OF assms(2) _ l] tx_inv_same [OF assms(1) _ l] show ?thesis
      by (auto simp: ev_def ev_defs)
  qed
qed

lemma send_step_inv:
  assumes R: "nic_ok R" and inv: "tx_inv R s P" "rx_inv R s Q"
    and "0 < len" and run: "e1000_transmit R (UserMem, p) len s = Inr (n, s')"
  defines "ev \<equiv> if n = 0 then [] else [Accept (bytes_at (nmem s) (UserMem, p) (nat n))]"
  shows "\<exists>P' Q'. tx_inv R s' P' \<and> rx_inv R s' Q' \<and> P @ accepted ev = on_wire ev @ P' \<and>
    Q @ arrived ev = delivered ev @ Q'"
proof -
  have len: "0 \<le> len" "len < 2048"
    using assms(4) run by (auto simp: e1000_transmit_def assertE_eq_Inr descs)
  have "length P \<le> 64" using inv(1) by (simp add: tx_inv_def ring_def descs)
  then consider "length P = 64" | "length P < 64" by linarith
  then show ?thesis
  proof cases
    case 1
    with transmit_ok(1) [OF R inv(1) len, of p] run
    have "n = 0" "s' = s\<lparr>regs := snd (io_read R (regs s) E1000_TDT)\<rparr>" by simp_all
    with quiet_step [OF inv read_same [OF R]] show ?thesis by (simp add: ev_def)
  next
    case 2
    with transmit_ok(2) [OF R inv(1) len, of p] run assms(4) rx_inv_same [OF inv(2)] show ?thesis
      by (auto simp: ev_def ev_defs)
  qed
qed

lemma recv_step_inv:
  assumes R: "nic_ok R" and inv: "tx_inv R s P" "rx_inv R s Q"
    and run: "e1000_poll R (UserMem, p) s = Inr (n, s')"
  defines "ev \<equiv> if n = 0 then [] else [Deliver (bytes_at (nmem s') (UserMem, p) (nat n))]"
  shows "\<exists>P' Q'. tx_inv R s' P' \<and> rx_inv R s' Q' \<and> P @ accepted ev = on_wire ev @ P' \<and>
    Q @ arrived ev = delivered ev @ Q'"
proof (cases Q)
  case Nil
  with poll_empty [of R s "(UserMem, p)"] inv(2) run
  have "n = 0" "s' = s\<lparr>regs := snd (io_read R (regs s) E1000_RDT)\<rparr>" by simp_all
  with quiet_step [OF inv read_same [OF R]] show ?thesis by (simp add: ev_def)
next
  case (Cons f Q')
  have "f \<noteq> []" using inv(2) Cons by (simp add: rx_inv_def)
  with poll_ok [OF R inv(2) [unfolded Cons], of p] run tx_inv_same [OF inv(1)] Cons show ?thesis
    by (auto simp: ev_def ev_defs)
qed

lemma net_step_inv:
  assumes "net_step R dev s ev s'" and "card_ok R dev" and "tx_inv R s P" and "rx_inv R s Q"
  shows "\<exists>P' Q'. tx_inv R s' P' \<and> rx_inv R s' Q' \<and> P @ accepted ev = on_wire ev @ P' \<and>
    Q @ arrived ev = delivered ev @ Q'"
  using assms(1)
proof cases
  case (card e)
  with card_step_inv [OF assms(3,4)] assms(2) show ?thesis by blast
next
  case (send len p n)
  with send_step_inv [OF _ assms(3,4)] assms(2) show ?thesis by blast
next
  case (recv p n)
  with recv_step_inv [OF _ assms(3,4)] assms(2) show ?thesis by blast
next
  case (tx_ready b)
  with quiet_step [OF assms(3,4)] is_ready_same(1) assms(2) show ?thesis by blast
next
  case (rx_ready b)
  with quiet_step [OF assms(3,4)] is_ready_same(2) assms(2) show ?thesis by blast
next
  case enable
  with quiet_step [OF assms(3,4) write_same [OF _ ring_reg_ne(13)]] assms(2) show ?thesis
    by (simp add: e1000_enable_txqe_def)
next
  case disable
  with quiet_step [OF assms(3,4) write_same [OF _ ring_reg_ne(14)]] assms(2) show ?thesis
    by (simp add: e1000_disable_txqe_def)
next
  case other
  with quiet_step [OF assms(3,4)] show ?thesis by blast
qed

lemma net_steps_inv:
  assumes "net_steps R dev s tr s'" and "card_ok R dev" and "tx_inv R s P" and "rx_inv R s Q"
  shows "\<exists>P' Q'. tx_inv R s' P' \<and> rx_inv R s' Q' \<and> P @ accepted tr = on_wire tr @ P' \<and>
    Q @ arrived tr = delivered tr @ Q'"
  using assms(1,3,4)
proof (induction arbitrary: rule: net_steps.induct)
  case (step s tr s' ev s'')
  then obtain P1 Q1 where 1: "tx_inv R s' P1" "rx_inv R s' Q1" "P @ accepted tr = on_wire tr @ P1"
    "Q @ arrived tr = delivered tr @ Q1" by blast
  from net_step_inv [OF step.hyps(2) assms(2) 1(1,2)] obtain P2 Q2 where
    2: "tx_inv R s'' P2" "rx_inv R s'' Q2" "P1 @ accepted ev = on_wire ev @ P2" "Q1 @ arrived ev = delivered ev @ Q2"
    by blast
  have "P @ accepted (tr @ ev) = on_wire (tr @ ev) @ P2" "Q @ arrived (tr @ ev) = delivered (tr @ ev) @ Q2"
    using 1(3,4) 2(3,4) by (metis append.assoc ev_append)+
  with 2(1,2) show ?case by blast
qed (auto simp: ev_defs)

text \<open>When all 64 descriptors are in use \<open>TDH\<close> equals \<open>TDT\<close>: to the card the ring is empty.\<close>

lemma full_step:
  assumes "net_step R dev s ev s'" and "card_ok R dev" and inv: "tx_inv R s P" and full: "length P = 64"
  shows "accepted ev = [] \<and> on_wire ev = []"
  using assms(1)
proof cases
  case (card e)
  have "reg R E1000_TDT s = reg R E1000_TDH s" using inv full by (simp add: tx_inv_def descs)
  then have "\<not> card_sends R s f s'" for f by (simp add: card_sends_def Let_def)
  moreover have "nic_step R s e s'" using card assms(2) by blast
  ultimately show ?thesis
    using card by (auto simp: nic_step_def ev_defs split: option.splits nev.splits)
next
  case (send len p n)
  then have "0 \<le> len" "len < 2048" by (auto simp: e1000_transmit_def assertE_eq_Inr descs)
  with transmit_ok(1) [OF _ inv _ _ full, of len p] assms(2) send show ?thesis by auto
qed (auto simp: ev_defs)

lemma full_steps:
  assumes "net_steps R dev s tr s'" and "card_ok R dev" and "tx_inv R s P" and "rx_inv R s Q" and "length P = 64"
  shows "accepted tr = [] \<and> on_wire tr = []"
  using assms(1,3,4)
proof (induction rule: net_steps.induct)
  case (step s tr s' ev s'')
  then have 1: "accepted tr = [] \<and> on_wire tr = []" by blast
  obtain P' Q' where 2: "tx_inv R s' P'" "P @ accepted tr = on_wire tr @ P'"
    using net_steps_inv [OF step.hyps(1) assms(2) step.prems] by blast
  from 2 1 have "tx_inv R s' P" by simp
  from full_step [OF step.hyps(2) assms(2) this assms(5)] 1 show ?case by simp
qed simp

lemma fill_ring:
  assumes R: "card_ok R dev" and inv: "tx_inv R s []" "rx_inv R s Q"
  shows "k \<le> 64 \<Longrightarrow> \<exists>tr s' P. net_steps R dev s tr s' \<and> length (accepted tr) = k \<and> on_wire tr = [] \<and>
    tx_inv R s' P \<and> rx_inv R s' Q \<and> length P = k"
proof (induction k)
  case 0
  then show ?case using inv net_steps.none [of R dev s] by (intro exI [of _ "[]"] exI [of _ s]) auto
next
  case (Suc k)
  then obtain tr s1 P where 1: "net_steps R dev s tr s1" "length (accepted tr) = k" "on_wire tr = []"
    "tx_inv R s1 P" "rx_inv R s1 Q" "length P = k" by auto
  obtain s2 where 2: "e1000_transmit R (UserMem, 0) 1 s1 = Inr (1, s2)"
    "tx_inv R s2 (P @ [bytes_at (nmem s1) (UserMem, 0) (nat 1)])" "rx_same R s1 s2" "same_links s1 s2"
    using transmit_ok(2) [OF _ 1(4), of 1 0] R Suc.prems 1(6) by auto
  from net_steps.step [OF 1(1) net_step.send [OF _ 2(1)]]
  have "net_steps R dev s (tr @ [Accept (bytes_at (nmem s1) (UserMem, 0) 1)]) s2" by simp
  with 1 2 rx_inv_same [OF 1(5) 2(3,4)] show ?case
    by (intro exI [of _ "tr @ [Accept (bytes_at (nmem s1) (UserMem, 0) 1)]"] exI [of _ s2]
        exI [of _ "P @ [bytes_at (nmem s1) (UserMem, 0) (nat 1)]"]) (simp add: ev_defs)
qed

section \<open>A card on which the properties are instantiated\<close>

text \<open>Registers that are plain memory except \<open>ICR\<close>, and a transmit unit that sends one frame at a time.\<close>

definition ram_nic :: "(u32 \<Rightarrow> u32) nic" where
  "ram_nic = \<lparr>io_read = (\<lambda>r a. (r a, if a = E1000_ICR then r(E1000_ICR := 0) else r)),
              io_write = (\<lambda>r a v. r(a := v))\<rparr>"

lemma ram_nic_ok: "nic_ok ram_nic"
  by (simp add: nic_ok_def ram_nic_def peek_def reg_defs)

definition ram_card :: "(u32 \<Rightarrow> u32) nstate \<Rightarrow> nev option \<Rightarrow> (u32 \<Rightarrow> u32) nstate \<Rightarrow> bool" where
  "ram_card s e s' \<longleftrightarrow>
     (let h = regs s E1000_TDH; i = unat h; d = tx_desc_array s i
      in h \<noteq> regs s E1000_TDT \<and> i < 64 \<and> tx_addr d = kva2pa (tx_pkt_buffer s i) \<and> tx_cmd d AND E1000_TXD_CMD_RS \<noteq> 0 \<and>
         e = Some (OnWire (tx_frame s i)) \<and>
         s' = s\<lparr>regs := (regs s)(E1000_TDH := (h + 1) mod 64),
                tx_desc_array := (tx_desc_array s)(i := d\<lparr>tx_status := tx_status d OR E1000_TXD_STAT_DD\<rparr>)\<rparr>)"

lemma tx_pkt_buffer_inj:
  assumes "i < 64" and "j < 64" and "tx_pkt_buffer s i = tx_pkt_buffer s j"
  shows "i = j"
proof -
  have "(of_nat (2048 * i) :: u64) = of_nat (2048 * j)" using assms(3) by (simp add: tx_pkt_buffer_def descs)
  then have "unat (of_nat (2048 * i) :: u64) = unat (of_nat (2048 * j) :: u64)" by metis
  then have "2048 * i mod 2 ^ 64 = 2048 * j mod 2 ^ 64" unfolding unat_of_nat by simp
  then show ?thesis using assms(1,2) by simp
qed

lemma ram_card_ok: "card_ok ram_nic ram_card"
proof -
  have inj: "kva2pa a = kva2pa b \<longleftrightarrow> a = b" for a b by (simp add: kva2pa_def)
  have p: "peek ram_nic r a = r a" for r a by (simp add: peek_def ram_nic_def)
  have ne: "E1000_TDH \<noteq> E1000_TDT" "E1000_TDH \<noteq> E1000_RDT" "E1000_TDH \<noteq> E1000_RDH" by simp_all
  show ?thesis
    by (auto simp: ram_nic_ok ram_card_def Let_def nic_step_def card_sends_def same_links_def rx_same_def p
        next_index descs tx_frame_def inj word_unat_eq_iff [symmetric] dest: tx_pkt_buffer_inj)
qed

definition bare_nic :: "(u32 \<Rightarrow> u32) nstate" where
  "bare_nic = kstate.extend two_ready
     \<lparr>regs = (\<lambda>_. 0),
      tx_desc_array = (\<lambda>_. \<lparr>tx_addr = 0, tx_length = 0, tx_cso = 0, tx_cmd = 0, tx_status = 0, tx_css = 0, tx_special = 0\<rparr>),
      rx_desc_array = (\<lambda>_. \<lparr>rx_addr = 0, rx_length = 0, rx_csum = 0, rx_status = 0, rx_errors = 0, rx_special = 0\<rparr>),
      nmem = (\<lambda>(b, i). of_nat (i + 1)), tx_desc_array_at = 0xffffffc050300000, rx_desc_array_at = 0xffffffc050301000,
      tx_pkt_buffer_at = 0xffffffc050310000, rx_pkt_buffer_at = 0xffffffc050340000\<rparr>"

lemma bare_nic_fresh: "\<forall>i < RXDESCS. rx_status (rx_desc_array bare_nic i) AND E1000_RXD_STAT_DD = 0"
  by (simp add: bare_nic_def kstate.defs)

section \<open>Properties\<close>



text \<open>
  C39: The ring can be filled once too often.  \<open>e1000_transmit\<close> looks only at the done bit of the
  descriptor at \<open>TDT\<close>, so it also fills the last free one; then \<open>TDT\<close> equals \<open>TDH\<close>, which the card
  takes for an empty ring.  After 64 packets sent faster than the card takes them, whatever happens
  afterwards, no frame goes out and no packet is accepted any more.
\<close>

theorem tx_ring_wedges:
  assumes "nic_ok R" and "\<forall>s e s'. dev s e s' \<longrightarrow> nic_step R s e s'"
    and "\<forall>i < RXDESCS. rx_status (rx_desc_array s0 i) AND E1000_RXD_STAT_DD = 0"
  shows "\<exists>s1 tr s. e1000_init R s0 = Inr s1 \<and> net_steps R dev s1 tr s \<and>
     length (accepted tr) = 64 \<and> on_wire tr = [] \<and>
     (\<forall>tr' s'. net_steps R dev s tr' s' \<longrightarrow> accepted tr' = [] \<and> on_wire tr' = [])"
proof -
  have c: "card_ok R dev" using assms(1,2) by simp
  obtain s1 where s1: "e1000_init R s0 = Inr s1" "tx_inv R s1 []" "rx_inv R s1 []"
    using init_ok [OF assms(1,3)] by blast
  obtain tr s P where *: "net_steps R dev s1 tr s" "length (accepted tr) = 64" "on_wire tr = []"
    "tx_inv R s P" "rx_inv R s []" "length P = 64"
    using fill_ring [OF c s1(2,3), of 64] by auto
  from full_steps [OF _ c *(4-6)] * s1(1) show ?thesis by blast
qed

theorem tx_ring_wedges_witness:
  "\<exists>s1 tr s. e1000_init ram_nic bare_nic = Inr s1 \<and> net_steps ram_nic ram_card s1 tr s \<and>
     length (accepted tr) = 64 \<and> (\<forall>e s'. \<not> ram_card s e s')"
proof -
  from tx_ring_wedges [OF ram_nic_ok ram_card_ok [THEN conjunct2] bare_nic_fresh]
  obtain s1 tr s where *: "e1000_init ram_nic bare_nic = Inr s1" "net_steps ram_nic ram_card s1 tr s"
    "length (accepted tr) = 64" "\<And>tr' s'. net_steps ram_nic ram_card s tr' s' \<Longrightarrow> on_wire tr' = []" by blast
  have "\<not> ram_card s e s'" for e s'
  proof
    assume c: "ram_card s e s'"
    then obtain f where e: "e = Some (OnWire f)" by (auto simp: ram_card_def Let_def)
    from *(4) [OF net_steps.step [OF net_steps.none net_step.card [of ram_card s e s' ram_nic, OF c]]] e show False by (simp add: ev_defs)
  qed
  with * show ?thesis by blast
qed

end
