(* ===== verification/Net.thy ===== *)
theory Net
  imports E1000Spec Lock
begin

text \<open>
  Network system calls and interrupts: \<open>kernel/net/net.c\<close>, the interrupt controller
  \<open>drivers/plic.c\<close>, and \<open>handle_irq_ext\<close> of \<open>kernel/irq/irq.c\<close>.  The message that
  \<open>net_handle_irq\<close> prints is left out.
\<close>

section \<open>System calls\<close>

text \<open>
  A call either returns or leaves the calling process on a queue; then it goes on with the
  corresponding \<open>resume\<close> function when it is scheduled again.
\<close>

datatype 'a net_outcome = NetReturn 'a | NetWait

definition do_net_send ::
  "'r nic \<Rightarrow> nat \<Rightarrow> nobj ptr \<Rightarrow> int \<Rightarrow> ('r, 's) nstate_scheme \<Rightarrow> (int net_outcome \<times> ('r, 's) nstate_scheme) res" where
  "do_net_send R cpu txpacket len s =
     bindE (e1000_transmit R txpacket len s) (\<lambda>(send_bytes, s).
       if send_bytes \<noteq> 0 then Inr (NetReturn send_bytes, e1000_disable_txqe R s)
       else bindE (do_block cpu (core_running s cpu) RecvBlockQueue s) (\<lambda>s. Inr (NetWait, s)))"

definition net_send_resume ::
  "'r nic \<Rightarrow> nat \<Rightarrow> nobj ptr \<Rightarrow> int \<Rightarrow> ('r, 's) nstate_scheme \<Rightarrow> (int net_outcome \<times> ('r, 's) nstate_scheme) res" where
  "net_send_resume R cpu txpacket len s = do_net_send R cpu txpacket len (e1000_enable_txqe R s)"

text \<open>
  The receive loop at packet number \<open>i\<close>: \<open>pkt_lens\<close> is the caller's array.  \<open>int\<close> overflow of the
  packet number or of the byte count is undefined.
\<close>

record recv_at =
  at_pkt :: int
  recv_bytes :: int
  pkt_lens :: "nat \<Rightarrow> int"

function net_recv_loop ::
  "'r nic \<Rightarrow> nat \<Rightarrow> nobj ptr \<Rightarrow> int \<Rightarrow> recv_at \<Rightarrow> ('r, 's) nstate_scheme \<Rightarrow>
   (int net_outcome \<times> recv_at \<times> ('r, 's) nstate_scheme) res" where
  "net_recv_loop R cpu rxbuffer pkt_num a s =
     (if at_pkt a = pkt_num then Inr (NetReturn (recv_bytes a), a, s)
      else case e1000_poll R (padd rxbuffer (nat (recv_bytes a))) s of
        Inl e \<Rightarrow> Inl e
      | Inr (cur_recv, s) \<Rightarrow>
          if cur_recv \<noteq> 0
          then if at_pkt a + 1 < 2 ^ 31 \<and> recv_bytes a + cur_recv < 2 ^ 31
               then net_recv_loop R cpu rxbuffer pkt_num
                      \<lparr>at_pkt = at_pkt a + 1, recv_bytes = recv_bytes a + cur_recv,
                       pkt_lens = (pkt_lens a)(nat (at_pkt a) := cur_recv)\<rparr> s
               else Inl Fault
          else bindE (do_block cpu (core_running s cpu) RecvBlockQueue s) (\<lambda>s. Inr (NetWait, a, s)))"
  by pat_completeness auto
termination
  by (relation "measure (\<lambda>(R, cpu, rxbuffer, pkt_num, a, s). nat (2 ^ 31 - at_pkt a))") auto

declare net_recv_loop.simps [simp del]

definition do_net_recv ::
  "'r nic \<Rightarrow> nat \<Rightarrow> nobj ptr \<Rightarrow> int \<Rightarrow> (nat \<Rightarrow> int) \<Rightarrow> ('r, 's) nstate_scheme \<Rightarrow>
   (int net_outcome \<times> recv_at \<times> ('r, 's) nstate_scheme) res" where
  "do_net_recv R cpu rxbuffer pkt_num lens s =
     net_recv_loop R cpu rxbuffer pkt_num \<lparr>at_pkt = 0, recv_bytes = 0, pkt_lens = lens\<rparr> s"

section \<open>Waking the waiting processes\<close>

definition check_net_send :: "'r nic \<Rightarrow> ('r, 's) nstate_scheme \<Rightarrow> ('r, 's) nstate_scheme res" where
  "check_net_send R s =
     (if \<not> queue_is_empty SendBlockQueue s
      then bindE (is_tx_ready R s) (\<lambda>(ready, s). if ready then do_unblock SendBlockQueue s else Inr s)
      else Inr s)"

definition check_net_recv :: "'r nic \<Rightarrow> ('r, 's) nstate_scheme \<Rightarrow> ('r, 's) nstate_scheme res" where
  "check_net_recv R s =
     (if \<not> queue_is_empty RecvBlockQueue s
      then let (ready, s) = is_rx_ready R s in if ready then do_unblock RecvBlockQueue s else Inr s
      else Inr s)"

definition e1000_handle_txqe :: "'r nic \<Rightarrow> ('r, 's) nstate_scheme \<Rightarrow> ('r, 's) nstate_scheme res" where
  "e1000_handle_txqe R s = assertE (\<not> queue_is_empty SendBlockQueue s) (check_net_send R s)"

definition e1000_handle_rxdmt0 :: "'r nic \<Rightarrow> ('r, 's) nstate_scheme \<Rightarrow> ('r, 's) nstate_scheme res" where
  "e1000_handle_rxdmt0 R s = assertE (\<not> queue_is_empty RecvBlockQueue s) (check_net_recv R s)"

definition net_handle_irq :: "'r nic \<Rightarrow> ('r, 's) nstate_scheme \<Rightarrow> ('r, 's) nstate_scheme res" where
  "net_handle_irq R s =
     (let (icr, s) = e1000_read_reg R E1000_ICR s;
          (ims, s) = e1000_read_reg R E1000_IMS s;
          ICR_value = icr AND ims
      in bindE (if ICR_value AND E1000_ICR_TXQE \<noteq> 0 then e1000_handle_txqe R s else Inr s) (\<lambda>s.
         if ICR_value AND E1000_ICR_RXDMT0 \<noteq> 0 then e1000_handle_rxdmt0 R s else Inr s))"

section \<open>The interrupt controller\<close>

text \<open>The registers of the controller, by address; like the card's they are a parameter.\<close>

record 'q plic_io =
  readl :: "'q \<Rightarrow> u64 \<Rightarrow> u32 \<times> 'q"
  writel :: "'q \<Rightarrow> u64 \<Rightarrow> u32 \<Rightarrow> 'q"

record plic_handler =
  present :: bool
  hart_base :: u64
  enable_base :: u64

record 'q plic =
  plic_regs :: u64
  plic_handlers :: plic_handler
  plic_dev :: 'q

definition PLIC_E1000_PYNQ_IRQ :: nat where "PLIC_E1000_PYNQ_IRQ = 3"
definition PLIC_E1000_QEMU_IRQ :: nat where "PLIC_E1000_QEMU_IRQ = 33"
definition PRIORITY_BASE :: u64 where "PRIORITY_BASE = 0"
definition PRIORITY_PER_ID :: u64 where "PRIORITY_PER_ID = 4"
definition ENABLE_BASE :: u64 where "ENABLE_BASE = 0x2000"
definition CONTEXT_BASE :: u64 where "CONTEXT_BASE = 0x200000"
definition CONTEXT_THRESHOLD :: u64 where "CONTEXT_THRESHOLD = 0x00"
definition CONTEXT_CLAIM :: u64 where "CONTEXT_CLAIM = 0x04"

definition plic_toggle :: "'q plic_io \<Rightarrow> plic_handler \<Rightarrow> nat \<Rightarrow> bool \<Rightarrow> 'q \<Rightarrow> 'q" where
  "plic_toggle W handler hwirq enable q =
     (let a = enable_base handler + of_nat (hwirq div 32 * 4);
          hwirq_mask = push_bit (hwirq mod 32) 1;
          (v, q) = readl W q a
      in if enable then writel W q a (v OR hwirq_mask) else writel W q a (v AND NOT hwirq_mask))"

definition plic_irq_unmask :: "'q plic_io \<Rightarrow> nat \<Rightarrow> 'q plic \<Rightarrow> 'q plic" where
  "plic_irq_unmask W hwirq s =
     (let q = writel W (plic_dev s) (plic_regs s + PRIORITY_BASE + of_nat hwirq * PRIORITY_PER_ID) 1
      in s\<lparr>plic_dev := if present (plic_handlers s) then plic_toggle W (plic_handlers s) hwirq True q else q\<rparr>)"

definition plic_claim :: "'q plic_io \<Rightarrow> 'q plic \<Rightarrow> u32 \<times> 'q plic" where
  "plic_claim W s = (case readl W (plic_dev s) (hart_base (plic_handlers s) + CONTEXT_CLAIM) of
     (v, q) \<Rightarrow> (v, s\<lparr>plic_dev := q\<rparr>))"

definition plic_complete :: "'q plic_io \<Rightarrow> u32 \<Rightarrow> 'q plic \<Rightarrow> 'q plic" where
  "plic_complete W hwirq s =
     s\<lparr>plic_dev := writel W (plic_dev s) (hart_base (plic_handlers s) + CONTEXT_CLAIM) hwirq\<rparr>"

text \<open>The loop counter is an \<open>int\<close> compared with the unsigned \<open>nr_irqs\<close>; it must not overflow.\<close>

definition plic_init :: "'q plic_io \<Rightarrow> u64 \<Rightarrow> nat \<Rightarrow> 'q plic \<Rightarrow> 'q plic res" where
  "plic_init W plic_regs_addr nr_irqs s =
     guardE (nr_irqs < 2 ^ 31 - 1)
       (let s = s\<lparr>plic_regs := plic_regs_addr\<rparr>;
            threshold = (if present (plic_handlers s) then 0xffffffff else 0);
            s = (if present (plic_handlers s) then s
                 else s\<lparr>plic_handlers := \<lparr>present = True, hart_base = plic_regs_addr + CONTEXT_BASE,
                                         enable_base = plic_regs_addr + ENABLE_BASE\<rparr>\<rparr>);
            handler = plic_handlers s;
            s = s\<lparr>plic_dev := writel W (plic_dev s) (hart_base handler + CONTEXT_THRESHOLD) threshold\<rparr>;
            s = s\<lparr>plic_dev := fold (\<lambda>hwirq. plic_toggle W handler hwirq True) [1..<nr_irqs + 1] (plic_dev s)\<rparr>
        in Inr (if nr_irqs + 1 > PLIC_E1000_QEMU_IRQ then plic_irq_unmask W PLIC_E1000_QEMU_IRQ s
                else plic_irq_unmask W PLIC_E1000_PYNQ_IRQ s))"

definition handle_irq_ext ::
  "'r nic \<Rightarrow> 'q plic_io \<Rightarrow> ('r, 's) nstate_scheme \<times> 'q plic \<Rightarrow> (('r, 's) nstate_scheme \<times> 'q plic) res" where
  "handle_irq_ext R W st =
     (case st of (s, pl) \<Rightarrow>
        let (plic_id, pl) = plic_claim W pl
        in bindE (if plic_id = of_nat PLIC_E1000_PYNQ_IRQ then net_handle_irq R s else Inr s) (\<lambda>s.
             Inr (s, plic_complete W plic_id pl)))"

section \<open>Receiving\<close>

text \<open>The loop takes the waiting frames one after the other, each behind the one before it.\<close>

definition took :: "recv_at \<Rightarrow> u8 list list \<Rightarrow> recv_at" where
  "took a Fs = \<lparr>at_pkt = at_pkt a + int (length Fs), recv_bytes = recv_bytes a + int (length (concat Fs)),
     pkt_lens = (\<lambda>k. if nat (at_pkt a) \<le> k \<and> k < nat (at_pkt a) + length Fs
                      then int (length (Fs ! (k - nat (at_pkt a)))) else pkt_lens a k)\<rparr>"

lemma took_Nil [simp]: "took a [] = a"
  by (cases a) (auto simp: took_def)

lemma took_Cons:
  assumes "0 \<le> at_pkt a"
  shows "took \<lparr>at_pkt = at_pkt a + 1, recv_bytes = recv_bytes a + int (length f),
     pkt_lens = (pkt_lens a)(nat (at_pkt a) := int (length f))\<rparr> Fs = took a (f # Fs)"
proof -
  obtain m where m: "at_pkt a = int m" using assms by (metis nonneg_int_cases)
  have n: "nat (int m + 1) = Suc m" "nat (1 + int m) = Suc m" by simp_all
  show ?thesis
    by (auto simp: took_def m n fun_eq_iff nth_Cons' Suc_le_eq)
qed

lemma bytes_at_append: "bytes_at m p (a + b) = bytes_at m p a @ bytes_at m (padd p a) b"
  by (rule nth_equalityI) (auto simp: nth_append)

lemma recv_loop_takes:
  assumes "nic_ok R"
  shows "rx_inv R s (Fs @ Q) \<Longrightarrow> recv_bytes a = int b \<Longrightarrow> 0 \<le> at_pkt a \<Longrightarrow>
     at_pkt a + int (length Fs) \<le> pkt_num \<Longrightarrow> at_pkt a + int (length Fs) < 2 ^ 31 \<Longrightarrow>
     int b + int (length (concat Fs)) < 2 ^ 31 \<Longrightarrow>
     \<exists>s'. net_recv_loop R cpu (UserMem, p) pkt_num a s = net_recv_loop R cpu (UserMem, p) pkt_num (took a Fs) s' \<and>
       rx_inv R s' Q \<and> bytes_at (nmem s') (UserMem, p + b) (length (concat Fs)) = concat Fs \<and>
       (\<forall>k < p + b. nmem s' (UserMem, k) = nmem s (UserMem, k)) \<and> kstate.truncate s' = kstate.truncate s"
proof (induction Fs arbitrary: s a b)
  case Nil
  then show ?case by auto
next
  case (Cons f Fs)
  let ?a = "\<lparr>at_pkt = at_pkt a + 1, recv_bytes = recv_bytes a + int (length f),
     pkt_lens = (pkt_lens a)(nat (at_pkt a) := int (length f))\<rparr>"
  obtain s1 where 1: "e1000_poll R (UserMem, p + b) s = Inr (int (length f), s1)" "rx_inv R s1 (Fs @ Q)"
    "bytes_at (nmem s1) (UserMem, p + b) (length f) = f"
    "\<forall>k. k < p + b \<or> p + b + length f \<le> k \<longrightarrow> nmem s1 (UserMem, k) = nmem s (UserMem, k)"
    "kstate.truncate s1 = kstate.truncate s"
    using poll_ok [OF assms, of s f "Fs @ Q" "p + b"] Cons.prems(1) by auto
  have f: "f \<noteq> []" using Cons.prems(1) by (simp add: rx_inv_def)
  have b: "recv_bytes ?a = int (b + length f)" using Cons.prems(2) by simp
  obtain s2 where 2: "net_recv_loop R cpu (UserMem, p) pkt_num ?a s1 = net_recv_loop R cpu (UserMem, p) pkt_num (took ?a Fs) s2"
    "rx_inv R s2 Q" "bytes_at (nmem s2) (UserMem, p + (b + length f)) (length (concat Fs)) = concat Fs"
    "\<forall>k < p + (b + length f). nmem s2 (UserMem, k) = nmem s1 (UserMem, k)"
    "kstate.truncate s2 = kstate.truncate s1"
    using Cons.IH [OF 1(2) b] Cons.prems(3-6) by auto
  have "net_recv_loop R cpu (UserMem, p) pkt_num a s = net_recv_loop R cpu (UserMem, p) pkt_num ?a s1"
    using 1(1) f Cons.prems(2-6) by (subst net_recv_loop.simps) simp
  moreover have "bytes_at (nmem s2) (UserMem, p + b) (length f) = f"
    using 2(4) by (intro trans [OF bytes_at_cong 1(3)]) simp
  then have "bytes_at (nmem s2) (UserMem, p + b) (length (concat (f # Fs))) = concat (f # Fs)"
    using 2(3) by (simp add: bytes_at_append add.assoc)
  moreover have "\<forall>k < p + b. nmem s2 (UserMem, k) = nmem s (UserMem, k)" using 1(4) 2(4) by simp
  ultimately show ?case using 1(5) 2(1,2,5) took_Cons [OF Cons.prems(3), of f Fs] by metis
qed

lemma truncate_kinv:
  assumes "kstate.truncate s' = kstate.truncate s"
  shows "lists s' = lists s" "pcb s' = pcb s" "core_running s' = core_running s"
    "kinv s' Q = kinv s Q" "no_lost s' Q = no_lost s Q"
proof -
  show *: "lists s' = lists s" "pcb s' = pcb s" "core_running s' = core_running s"
    using assms by (simp_all add: kstate.truncate_def)
  show "kinv s' Q = kinv s Q" "no_lost s' Q = no_lost s Q" using kinv_cong [OF *] by blast+
qed

text \<open>Blocking on a network queue, with what the scheduler leaves alone.\<close>

lemma net_block:
  assumes "kinv s Q" and "no_lost s Q" and "cpu < CORE_NUM" and "pid (pcb s (core_running s cpu)) \<noteq> 0"
    and "Q RecvBlockQueue = Some xs"
  shows "\<exists>s' Q'. do_block cpu (core_running s cpu) RecvBlockQueue s = Inr s' \<and> kinv s' Q' \<and> no_lost s' Q' \<and>
     Q' RecvBlockQueue = Some (xs @ [core_running s cpu]) \<and> Q' SendBlockQueue = Q SendBlockQueue \<and>
     nmem s' = nmem s \<and> regs s' = regs s \<and> tx_desc_array s' = tx_desc_array s \<and> rx_desc_array s' = rx_desc_array s"
proof -
  obtain ss rs where q: "Q SleepQueue = Some ss" "Q ReadyQueue = Some rs"
    using assms(1) by (auto simp: kinv_def kwf_def)
  obtain s' where s': "do_block cpu (core_running s cpu) RecvBlockQueue s = Inr s'"
    "kinv s' (sched_queues cpu (block_state cpu (task_status_update (\<lambda>_. TASK_BLOCKED)) s) ss rs
       (Q(RecvBlockQueue \<mapsto> xs @ [core_running s cpu])))"
    "no_lost s' (sched_queues cpu (block_state cpu (task_status_update (\<lambda>_. TASK_BLOCKED)) s) ss rs
       (Q(RecvBlockQueue \<mapsto> xs @ [core_running s cpu])))"
    using do_block_ok [OF assms(1,3,4,5) _ _ q] assms(2) by auto
  have m: "kstate.more s' = kstate.more s" using do_block_more [OF s'(1)] .
  then have "nmem s' = nmem s" "regs s' = regs s" "tx_desc_array s' = tx_desc_array s" "rx_desc_array s' = rx_desc_array s"
    by (cases s; cases s'; simp)+
  moreover have "sched_queues cpu t ss rs (Q(RecvBlockQueue \<mapsto> xs @ [c])) RecvBlockQueue = Some (xs @ [c])"
    "sched_queues cpu t ss rs (Q(RecvBlockQueue \<mapsto> xs @ [c])) SendBlockQueue = Q SendBlockQueue" for t :: "('a, 'b) nstate_scheme" and c
    by (simp_all add: sched_queues_def)
  ultimately show ?thesis using s' by blast
qed

lemma queue_empty_iff: "kinv s Q \<Longrightarrow> Q q = Some xs \<Longrightarrow> queue_is_empty q s \<longleftrightarrow> xs = []"
  using lq.rep_empty [OF kwf_qrep, of s Q q xs] by (auto simp: kinv_def queue_is_empty_def)

lemma rx_total:
  assumes "rx_inv R s Q"
  shows "length (concat (take n Q)) < 2 ^ 31" and "length Q < 64"
proof -
  have l: "length Q < 64" "\<forall>f \<in> set Q. length f \<le> 2048" using assms by (simp_all add: rx_inv_def descs)
  have "length (concat P) \<le> length P * 2048" if "\<forall>f \<in> set P. length f \<le> 2048" for P :: "u8 list list"
    using that by (induction P) auto
  from this [of "take n Q"] l show "length (concat (take n Q)) < 2 ^ 31" by (force dest: in_set_takeD)
  show "length Q < 64" by (rule l(1))
qed

section \<open>Enabled interrupt sources\<close>

text \<open>
  The registers of the controller other than the claim register hold what was last written.
\<close>

definition plic_ok :: "'q plic_io \<Rightarrow> u64 \<Rightarrow> bool" where
  "plic_ok W base \<longleftrightarrow>
     (\<forall>q a v b. b \<noteq> base + CONTEXT_BASE + CONTEXT_CLAIM \<longrightarrow>
        fst (readl W (writel W q a v) b) = (if a = b then v else fst (readl W q b)) \<and>
        fst (readl W (snd (readl W q a)) b) = fst (readl W q b))"

definition enabled :: "'q plic_io \<Rightarrow> u64 \<Rightarrow> 'q \<Rightarrow> nat \<Rightarrow> bool" where
  "enabled W base q k \<longleftrightarrow> bit (fst (readl W q (base + ENABLE_BASE + of_nat (k div 32 * 4)))) (k mod 32)"

abbreviation attached :: "u64 \<Rightarrow> plic_handler" where
  "attached base \<equiv> \<lparr>present = True, hart_base = base + CONTEXT_BASE, enable_base = base + ENABLE_BASE\<rparr>"

lemmas plic_offsets = CONTEXT_BASE_def CONTEXT_CLAIM_def CONTEXT_THRESHOLD_def ENABLE_BASE_def
  PRIORITY_BASE_def PRIORITY_PER_ID_def

lemma offset_ne:
  assumes "m < 0x400000" and "n < 0x400000" and "m \<noteq> n"
  shows "(base :: u64) + of_nat m \<noteq> base + of_nat n"
proof
  assume "base + of_nat m = base + of_nat n"
  then have "(of_nat m :: u64) = of_nat n" by simp
  then have "unat (of_nat m :: u64) = unat (of_nat n :: u64)" by simp
  with assms show False by (simp add: unat_of_nat_less)
qed

lemma enable_word_ne:
  assumes "k < 1024"
  shows "j < 1024 \<Longrightarrow> k div 32 \<noteq> j div 32 \<Longrightarrow> (base :: u64) + ENABLE_BASE + of_nat (k div 32 * 4) \<noteq> base + ENABLE_BASE + of_nat (j div 32 * 4)"
    and "base + ENABLE_BASE + of_nat (k div 32 * 4) \<noteq> base + CONTEXT_BASE + CONTEXT_CLAIM"
    and "base + ENABLE_BASE + of_nat (k div 32 * 4) \<noteq> base + CONTEXT_BASE + CONTEXT_THRESHOLD"
    and "i < 1024 \<Longrightarrow> base + ENABLE_BASE + of_nat (k div 32 * 4) \<noteq> base + PRIORITY_BASE + of_nat i * PRIORITY_PER_ID"
proof -
  have k: "k div 32 < 32" using assms by (simp add: less_mult_imp_div_less)
  have e: "base + ENABLE_BASE + of_nat (k div 32 * 4) = base + of_nat (0x2000 + k div 32 * 4)" for k
    by (simp add: plic_offsets)
  show "base + ENABLE_BASE + of_nat (k div 32 * 4) \<noteq> base + ENABLE_BASE + of_nat (j div 32 * 4)"
    if "j < 1024" "k div 32 \<noteq> j div 32"
  proof -
    have "j div 32 < 32" using that(1) by (simp add: less_mult_imp_div_less)
    then show ?thesis unfolding e using k that(2) by (intro offset_ne) simp_all
  qed
  have c: "base + CONTEXT_BASE + CONTEXT_CLAIM = base + of_nat 0x200004"
    "base + CONTEXT_BASE + CONTEXT_THRESHOLD = base + of_nat 0x200000" by (simp_all add: plic_offsets)
  show "base + ENABLE_BASE + of_nat (k div 32 * 4) \<noteq> base + CONTEXT_BASE + CONTEXT_CLAIM"
    "base + ENABLE_BASE + of_nat (k div 32 * 4) \<noteq> base + CONTEXT_BASE + CONTEXT_THRESHOLD"
    unfolding e c by (rule offset_ne; use k in simp)+
  show "base + ENABLE_BASE + of_nat (k div 32 * 4) \<noteq> base + PRIORITY_BASE + of_nat i * PRIORITY_PER_ID" if "i < 1024"
  proof -
    have p: "base + PRIORITY_BASE + of_nat i * PRIORITY_PER_ID = base + of_nat (i * 4)" by (simp add: plic_offsets)
    show ?thesis unfolding e p by (rule offset_ne; use k that in simp)
  qed
qed

lemma toggle_enables:
  assumes W: "plic_ok W base" and k: "k < 1024" and j: "j < 1024"
  shows "enabled W base (plic_toggle W (attached base) k True q) j \<longleftrightarrow> j = k \<or> enabled W base q j"
proof -
  have m: "k mod 32 < 32" by simp
  have s: "j div 32 = k div 32 \<Longrightarrow> j mod 32 = k mod 32 \<longleftrightarrow> j = k" by (metis div_mult_mod_eq)
  show ?thesis
    using W enable_word_ne(1) [OF k j] enable_word_ne(2) [OF j] s m
    by (cases "j div 32 = k div 32")
      (auto simp: enabled_def plic_toggle_def plic_ok_def Let_def case_prod_unfold bit_simps bit_push_bit_iff bit_1_iff)
qed

lemma toggle_other:
  assumes "plic_ok W base" and "a \<noteq> base + CONTEXT_BASE + CONTEXT_CLAIM"
    and "a \<noteq> base + ENABLE_BASE + of_nat (k div 32 * 4)"
  shows "fst (readl W (plic_toggle W (attached base) k True q) a) = fst (readl W q a)"
  using assms by (auto simp: plic_toggle_def plic_ok_def Let_def case_prod_unfold)

lemma fold_toggle_enables:
  assumes W: "plic_ok W base" and n: "n < 1024" and j: "j < 1024"
  shows "enabled W base (fold (\<lambda>k. plic_toggle W (attached base) k True) [1..<n + 1] q) j \<longleftrightarrow>
     (1 \<le> j \<and> j \<le> n) \<or> enabled W base q j"
  using n
proof (induction n)
  case (Suc n)
  have u: "[1..<Suc n + 1] = [1..<n + 1] @ [Suc n]" by simp
  show ?case
    unfolding u fold_append comp_def fold.simps id_apply toggle_enables [OF W Suc.prems j]
    using Suc.IH Suc.prems by (auto simp: le_Suc_eq)
qed auto

lemma fold_toggle_other:
  assumes W: "plic_ok W base" and n: "n < 1024" and a: "a \<noteq> base + CONTEXT_BASE + CONTEXT_CLAIM"
    "\<And>k. k < 1024 \<Longrightarrow> a \<noteq> base + ENABLE_BASE + of_nat (k div 32 * 4)"
  shows "fst (readl W (fold (\<lambda>k. plic_toggle W (attached base) k True) [1..<n + 1] q) a) = fst (readl W q a)"
  using n
proof (induction n)
  case (Suc n)
  have u: "[1..<Suc n + 1] = [1..<n + 1] @ [Suc n]" by simp
  show ?case
    unfolding u fold_append comp_def fold.simps id_apply toggle_other [OF W a(1) a(2) [OF Suc.prems]]
    using Suc.IH Suc.prems by simp
qed simp

text \<open>A controller whose registers are plain memory.\<close>

definition ram_plic :: "(u64 \<Rightarrow> u32) plic_io" where
  "ram_plic = \<lparr>readl = (\<lambda>q a. (q a, q)), writel = (\<lambda>q a v. q(a := v))\<rparr>"

lemma ram_plic_ok: "plic_ok ram_plic base"
  by (simp add: plic_ok_def ram_plic_def)

section \<open>A state with a full transmit ring and two frames waiting\<close>

definition busy_nic :: "(u32 \<Rightarrow> u32) nstate" where
  "busy_nic = kstate.extend two_ready
     \<lparr>regs = (\<lambda>_. 0)(E1000_RDT := 63, E1000_RDH := 2),
      tx_desc_array = (\<lambda>i. \<lparr>tx_addr = kva2pa (0xffffffc050310000 + of_nat (2048 * i)), tx_length = 1, tx_cso = 0,
        tx_cmd = 9, tx_status = 0, tx_css = 0, tx_special = 0\<rparr>),
      rx_desc_array = (\<lambda>i. \<lparr>rx_addr = kva2pa (0xffffffc050340000 + of_nat (2048 * i)), rx_length = if i < 2 then 3 else 0,
        rx_csum = 0, rx_status = if i < 2 then 1 else 0, rx_errors = 0, rx_special = 0\<rparr>),
      nmem = (\<lambda>(b, i). case b of RxBuf k \<Rightarrow> of_nat (10 * k + i) | _ \<Rightarrow> 0),
      tx_desc_array_at = 0xffffffc050300000, rx_desc_array_at = 0xffffffc050301000,
      tx_pkt_buffer_at = 0xffffffc050310000, rx_pkt_buffer_at = 0xffffffc050340000\<rparr>"

lemma busy_nic_kernel:
  defines "K \<equiv> (\<lambda>_. Some [])(ReadyQueue \<mapsto> [Pcb 1, Pcb 2])"
  shows "kinv busy_nic K" "no_lost busy_nic K" "pid (pcb busy_nic (core_running busy_nic 0)) \<noteq> 0"
    "core_running busy_nic 0 = Pcb 0"
  using two_ready_ok kinv_cong [of busy_nic two_ready] by (simp_all add: busy_nic_def kstate.defs K_def)

lemma busy_nic_rings:
  "rx_inv ram_nic busy_nic [[0, 1, 2], [10, 11, 12]]" "tx_inv ram_nic busy_nic (map (tx_frame busy_nic) [0..<64])"
proof -
  have p: "peek ram_nic r a = r a" for r a by (simp add: peek_def ram_nic_def)
  have j: "j < length [[0, 1, 2], [10, 11, 12 :: u8]] \<longleftrightarrow> j = 0 \<or> j = 1" for j by auto
  have f: "rx_frame busy_nic 0 = [0, 1, 2]" "rx_frame busy_nic 1 = [10, 11, 12]"
    by (simp_all add: rx_frame_def bytes_at_def busy_nic_def kstate.defs upt_rec)
  have "ring 64 64 [[0, 1, 2], [10, 11, 12]] (\<lambda>i. rx_status (rx_desc_array busy_nic i) AND E1000_RXD_STAT_DD \<noteq> 0)
      (rx_frame busy_nic)"
    unfolding ring_def j using f by (auto simp: busy_nic_def kstate.defs stat_dd)
  then show "rx_inv ram_nic busy_nic [[0, 1, 2], [10, 11, 12]]"
    unfolding rx_inv_def descs
    by (simp add: p reg_defs rx_pkt_buffer_def descs busy_nic_def kstate.defs)
  show "tx_inv ram_nic busy_nic (map (tx_frame busy_nic) [0..<64])"
    by (simp add: tx_inv_def ring_def p descs reg_defs tx_pkt_buffer_def busy_nic_def kstate.defs
        E1000_TXD_CMD_RS_def E1000_TXD_CMD_EOP_def)
qed

section \<open>Properties\<close>

text \<open>
  C14: \<open>do_net_recv\<close> with \<open>n\<close> frames asked for.  It copies the waiting frames to the caller's
  buffer, one behind the other in the order in which they arrived, and stores their lengths.  With
  at least \<open>n\<close> frames waiting it returns the number of bytes; with fewer it takes all there are
  and leaves the caller at the end of the queue of receivers, losing no process.
\<close>

theorem do_net_recv_collects:
  assumes "nic_ok R" and "rx_inv R s Q" and "kinv s K" and "no_lost s K" and "cpu < CORE_NUM"
    and "pid (pcb s (core_running s cpu)) \<noteq> 0" and "K RecvBlockQueue = Some xs" and "n < 2 ^ 31"
  defines "Fs \<equiv> take n Q"
  shows "\<exists>a s'. do_net_recv R cpu (UserMem, p) (int n) lens s =
       Inr (if n \<le> length Q then NetReturn (int (length (concat Fs))) else NetWait, a, s') \<and>
     bytes_at (nmem s') (UserMem, p) (length (concat Fs)) = concat Fs \<and>
     recv_bytes a = int (length (concat Fs)) \<and> at_pkt a = int (length Fs) \<and>
     (\<forall>k < length Fs. pkt_lens a k = int (length (Fs ! k))) \<and>
     (\<exists>K'. kinv s' K' \<and> no_lost s' K' \<and>
        K' RecvBlockQueue = Some (if n \<le> length Q then xs else xs @ [core_running s cpu]))"
proof -
  let ?a = "\<lparr>at_pkt = 0, recv_bytes = 0, pkt_lens = lens\<rparr>"
  have inv: "rx_inv R s (Fs @ drop n Q)" using assms(2) by (simp add: Fs_def)
  have Fs: "length Fs = min n (length Q)" by (auto simp: Fs_def)
  have tot0: "int (length (concat Fs)) < int (2 ^ 31)"
    unfolding Fs_def by (rule of_nat_less_iff [THEN iffD2], rule rx_total(1) [OF assms(2)])
  have m: "min n (length Q) < 2147483648" using assms(8) by simp
  have tot: "int 0 + int (length (concat Fs)) < 2 ^ 31" using tot0 by simp
  obtain s1 where 1: "do_net_recv R cpu (UserMem, p) (int n) lens s = net_recv_loop R cpu (UserMem, p) (int n) (took ?a Fs) s1"
    "rx_inv R s1 (drop n Q)" "bytes_at (nmem s1) (UserMem, p) (length (concat Fs)) = concat Fs"
    "kstate.truncate s1 = kstate.truncate s"
    using recv_loop_takes [OF assms(1) inv, of ?a 0 "int n" cpu p] tot m
    by (auto simp: do_net_recv_def Fs)
  note t = truncate_kinv [OF 1(4)]
  have took: "at_pkt (took ?a Fs) = int (length Fs)" "recv_bytes (took ?a Fs) = int (length (concat Fs))"
    "\<forall>k < length Fs. pkt_lens (took ?a Fs) k = int (length (Fs ! k))"
    by (simp_all add: took_def)
  show ?thesis
  proof (cases "n \<le> length Q")
    case True
    then have "net_recv_loop R cpu (UserMem, p) (int n) (took ?a Fs) s1 = Inr (NetReturn (int (length (concat Fs))), took ?a Fs, s1)"
      using took Fs by (subst net_recv_loop.simps) simp
    moreover have "kinv s1 K" "no_lost s1 K" using assms(3,4) t by simp_all
    ultimately show ?thesis using True 1(1,3) took assms(7) by (intro exI [of _ "took ?a Fs"] exI [of _ s1]) auto
  next
    case False
    let ?s2 = "s1\<lparr>regs := snd (io_read R (regs s1) E1000_RDT)\<rparr>"
    have k: "kinv ?s2 K" "no_lost ?s2 K" "pid (pcb ?s2 (core_running ?s2 cpu)) \<noteq> 0"
      using assms(3,4,6) t kinv_cong [of ?s2 s1] by simp_all
    obtain s3 K' where 3: "do_block cpu (core_running ?s2 cpu) RecvBlockQueue ?s2 = Inr s3" "kinv s3 K'" "no_lost s3 K'"
      "K' RecvBlockQueue = Some (xs @ [core_running ?s2 cpu])" "nmem s3 = nmem ?s2"
      using net_block [OF k(1,2) assms(5) k(3) assms(7)] by blast
    have "rx_inv R s1 []" using 1(2) False by simp
    from poll_empty [OF this] 3(1)
    have "net_recv_loop R cpu (UserMem, p) (int n) (took ?a Fs) s1 = Inr (NetWait, took ?a Fs, s3)"
      using took Fs False by (subst net_recv_loop.simps) simp
    then show ?thesis
      using False 1(1,3) took 3 t by (intro exI [of _ "took ?a Fs"] exI [of _ s3]) auto
  qed
qed

theorem do_net_recv_collects_witness:
  "\<exists>a s'. do_net_recv ram_nic 0 (UserMem, 5) 2 (\<lambda>_. 0) busy_nic = Inr (NetReturn 6, a, s') \<and>
     bytes_at (nmem s') (UserMem, 5) 6 = [0, 1, 2, 10, 11, 12] \<and> pkt_lens a 1 = 3"
proof -
  have c: "(0::nat) < CORE_NUM" by (simp add: CORE_NUM_def)
  from do_net_recv_collects [OF ram_nic_ok busy_nic_rings(1) busy_nic_kernel(1,2) c busy_nic_kernel(3), of "[]" 2 5 "\<lambda>_. 0"]
  obtain a s' where "do_net_recv ram_nic 0 (UserMem, 5) 2 (\<lambda>_. 0) busy_nic = Inr (NetReturn 6, a, s')"
    "bytes_at (nmem s') (UserMem, 5) (Suc (Suc (Suc (Suc (Suc (Suc 0)))))) = [0, 1, 2, 10, 11, 12]" "\<forall>k < Suc (Suc 0). pkt_lens a k = int (length ([[0, 1, 2], [10, 11, 12::u8]] ! k))"
    by auto
  then show ?thesis by (intro exI [of _ a] exI [of _ s']) (simp add: eval_nat_numeral)
qed

text \<open>
  A process that cannot send waits in the wrong queue.  When the transmit ring is full
  \<open>do_net_send\<close> puts the caller behind the waiting receivers; \<open>send_block_queue\<close> stays empty, so
  \<open>check_net_send\<close> never wakes anybody and the handler of the interrupt that announces free
  descriptors fails its assertion.
\<close>

theorem sender_waits_with_receivers:
  assumes "nic_ok R" and "tx_inv R s P" and "length P = 64" and "kinv s K" and "no_lost s K" and "cpu < CORE_NUM"
    and "pid (pcb s (core_running s cpu)) \<noteq> 0" and "K RecvBlockQueue = Some xs" and "K SendBlockQueue = Some []"
    and "0 < len" and "len < 2048"
  shows "\<exists>s' K'. do_net_send R cpu (UserMem, p) len s = Inr (NetWait, s') \<and> kinv s' K' \<and> no_lost s' K' \<and>
     K' RecvBlockQueue = Some (xs @ [core_running s cpu]) \<and> K' SendBlockQueue = Some [] \<and>
     check_net_send R s' = Inr s' \<and> e1000_handle_txqe R s' = Inl Panic"
proof -
  let ?s1 = "s\<lparr>regs := snd (io_read R (regs s) E1000_TDT)\<rparr>"
  have t: "e1000_transmit R (UserMem, p) len s = Inr (0, ?s1)"
    using transmit_ok(1) [OF assms(1,2) _ assms(11,3)] assms(10) by simp
  have k: "kinv ?s1 K" "no_lost ?s1 K" "pid (pcb ?s1 (core_running ?s1 cpu)) \<noteq> 0"
    using assms(4,5,7) kinv_cong [of ?s1 s] by simp_all
  obtain s' K' where s': "do_block cpu (core_running ?s1 cpu) RecvBlockQueue ?s1 = Inr s'" "kinv s' K'" "no_lost s' K'"
    "K' RecvBlockQueue = Some (xs @ [core_running ?s1 cpu])" "K' SendBlockQueue = K SendBlockQueue"
    using net_block [OF k(1,2) assms(6) k(3) assms(8)] by blast
  have "queue_is_empty SendBlockQueue s'" using queue_empty_iff [OF s'(2)] s'(5) assms(9) by simp
  with t s' assms(9) show ?thesis
    by (intro exI [of _ s'] exI [of _ K']) (simp add: do_net_send_def check_net_send_def e1000_handle_txqe_def)
qed

text \<open>
  \<open>plic_init\<close> on a controller that is not yet attached.  Afterwards the sources from 1 to
  \<open>nr_irqs\<close> and that of the network card are enabled and no other one that was not, the threshold is
  0 and the priority of the card's source is 1, so that its interrupts reach the core.  The source of
  the card is 33 when there are that many and else 3; but \<open>handle_irq_ext\<close> serves only source 3, and
  on a board with more than 32 sources it completes the card's interrupt without looking at the card.
\<close>

theorem plic_init_enables:
  assumes W: "plic_ok W base" and n: "nr_irqs < 1024" and fresh: "\<not> present (plic_handlers s)"
  defines "nic_src \<equiv> if nr_irqs < 33 then 3 else 33"
  shows "\<exists>s'. plic_init W base nr_irqs s = Inr s' \<and>
     (\<forall>k < 1024. enabled W base (plic_dev s') k \<longleftrightarrow> (1 \<le> k \<and> k \<le> nr_irqs) \<or> k = nic_src \<or> enabled W base (plic_dev s) k) \<and>
     fst (readl W (plic_dev s') (base + 0x200000)) = 0 \<and>
     fst (readl W (plic_dev s') (base + of_nat (4 * nic_src))) = 1 \<and>
     (\<forall>t. fst (plic_claim W t) = of_nat nic_src \<and> 33 \<le> nr_irqs \<longrightarrow>
        (\<exists>t'. handle_irq_ext R W (ns, t) = Inr (ns, t')))"
proof -
  let ?q1 = "writel W (plic_dev s) (base + CONTEXT_BASE + CONTEXT_THRESHOLD) 0"
  let ?q2 = "fold (\<lambda>k. plic_toggle W (attached base) k True) [1..<nr_irqs + 1] ?q1"
  let ?pa = "base + PRIORITY_BASE + of_nat nic_src * PRIORITY_PER_ID"
  let ?q3 = "plic_toggle W (attached base) nic_src True (writel W ?q2 ?pa 1)"
  have src: "nic_src < 1024" by (simp add: nic_src_def)
  have run: "plic_init W base nr_irqs s = Inr (s\<lparr>plic_regs := base, plic_handlers := attached base, plic_dev := ?q3\<rparr>)"
    using fresh n
    by (auto simp: plic_init_def plic_irq_unmask_def Let_def nic_src_def PLIC_E1000_QEMU_IRQ_def PLIC_E1000_PYNQ_IRQ_def)
  have rw: "fst (readl W (writel W q a v) b) = (if a = b then v else fst (readl W q b))"
    if "b \<noteq> base + CONTEXT_BASE + CONTEXT_CLAIM" for q a v b
    using W that by (simp add: plic_ok_def)
  have addr: "base + 0x200000 = base + of_nat 0x200000" "base + CONTEXT_BASE + CONTEXT_THRESHOLD = base + of_nat 0x200000"
    "base + CONTEXT_BASE + CONTEXT_CLAIM = base + of_nat 0x200004" "?pa = base + of_nat (4 * nic_src)"
    by (simp_all add: plic_offsets)
  have ne: "base + of_nat (4 * nic_src) \<noteq> base + CONTEXT_BASE + CONTEXT_CLAIM"
    "base + of_nat (4 * nic_src) \<noteq> base + CONTEXT_BASE + CONTEXT_THRESHOLD"
    "base + of_nat 0x200000 \<noteq> base + CONTEXT_BASE + CONTEXT_CLAIM"
    unfolding addr by (rule offset_ne; use src in simp)+
  have en: "enabled W base ?q3 k \<longleftrightarrow> (1 \<le> k \<and> k \<le> nr_irqs) \<or> k = nic_src \<or> enabled W base (plic_dev s) k" if k: "k < 1024" for k
  proof -
    have "enabled W base (writel W q a v) k = enabled W base q k"
      if "a \<noteq> base + ENABLE_BASE + of_nat (k div 32 * 4)" for q a v
      using rw enable_word_ne(2) [OF k] that by (simp add: enabled_def)
    note w = this
    have "enabled W base (writel W ?q2 ?pa 1) k = enabled W base ?q2 k"
      by (rule w) (rule enable_word_ne(4) [OF k src, symmetric])
    moreover have "enabled W base ?q1 k = enabled W base (plic_dev s) k"
      by (rule w) (rule enable_word_ne(3) [OF k, symmetric])
    ultimately show ?thesis
      unfolding toggle_enables [OF W src k] fold_toggle_enables [OF W n k] by blast
  qed
  have th: "fst (readl W ?q3 (base + of_nat 0x200000)) = 0"
  proof -
    have e: "base + of_nat 0x200000 \<noteq> base + ENABLE_BASE + of_nat (k div 32 * 4)" if "k < 1024" for k
      unfolding addr(2) [symmetric] by (rule enable_word_ne(3) [OF that, symmetric])
    have "fst (readl W ?q3 (base + of_nat 0x200000)) = fst (readl W (writel W ?q2 ?pa 1) (base + of_nat 0x200000))"
      by (rule toggle_other [OF W ne(3) e [OF src]])
    also have "\<dots> = fst (readl W ?q2 (base + of_nat 0x200000))"
      unfolding rw [OF ne(3)] using ne(2) unfolding addr by simp
    also have "\<dots> = fst (readl W ?q1 (base + of_nat 0x200000))" by (rule fold_toggle_other [OF W n ne(3) e])
    also have "\<dots> = 0" unfolding rw [OF ne(3)] unfolding addr by simp
    finally show ?thesis .
  qed
  have pr: "fst (readl W ?q3 (base + of_nat (4 * nic_src))) = 1"
  proof -
    have "fst (readl W ?q3 (base + of_nat (4 * nic_src))) = fst (readl W (writel W ?q2 ?pa 1) (base + of_nat (4 * nic_src)))"
      by (rule toggle_other [OF W ne(1)], unfold addr(4) [symmetric]) (rule enable_word_ne(4) [OF src src, symmetric])
    also have "\<dots> = 1" unfolding rw [OF ne(1)] unfolding addr by simp
    finally show ?thesis .
  qed
  have "\<exists>t'. handle_irq_ext R W (ns, t) = Inr (ns, t')" if "fst (plic_claim W t) = of_nat nic_src" "33 \<le> nr_irqs" for t
    using that by (simp add: handle_irq_ext_def case_prod_unfold nic_src_def PLIC_E1000_PYNQ_IRQ_def)
  with run en th pr show ?thesis unfolding addr(1) by auto
qed

end
