(* ===== verification/UserLib.thy ===== *)
theory UserLib
  imports PrintkSpec Syscall "HOL-Library.Signed_Division"
begin

text \<open>
  The user library \<open>tiny_libc\<close> besides the system calls: number conversion, random strings, checksums,
  threads and formatted output.  The string functions have the bodies of \<open>libs/string.c\<close>, which
  \<open>KString\<close> models.  A \<open>long\<close> is a 64-bit word: where C leaves overflow undefined, the result of the
  machine's instructions is taken.
\<close>

section \<open>Characters\<close>

definition isupper :: "u8 \<Rightarrow> bool" where
  "isupper ch \<longleftrightarrow> 65 \<le> ch \<and> ch \<le> 90"

definition islower :: "u8 \<Rightarrow> bool" where
  "islower ch \<longleftrightarrow> 97 \<le> ch \<and> ch \<le> 122"

definition isalpha :: "u8 \<Rightarrow> bool" where
  "isalpha ch \<longleftrightarrow> isupper ch \<or> islower ch"

definition isdigit :: "u8 \<Rightarrow> bool" where
  "isdigit ch \<longleftrightarrow> 48 \<le> ch \<and> ch \<le> 57"

definition isxdigit :: "u8 \<Rightarrow> bool" where
  "isxdigit ch \<longleftrightarrow> isdigit ch \<or> 97 \<le> ch \<and> ch \<le> 102 \<or> 65 \<le> ch \<and> ch \<le> 70"

definition isalnum :: "u8 \<Rightarrow> bool" where
  "isalnum ch \<longleftrightarrow> isalpha ch \<or> isdigit ch"

definition isspace :: "u8 \<Rightarrow> bool" where
  "isspace ch \<longleftrightarrow> ch = 32 \<or> ch = 9 \<or> ch = 10 \<or> ch = 11 \<or> ch = 12 \<or> ch = 13"

section \<open>From text to number\<close>

text \<open>The loop over the blanks in front; its body is empty.\<close>

partial_function (option) skip_blanks :: "'o mem \<Rightarrow> 'o ptr \<Rightarrow> 'o ptr option" where
  "skip_blanks m str = (if isspace (m str) then skip_blanks m str else Some str)"

text \<open>The loop over the digits; \<open>Some None\<close> is the \<open>return 0\<close> at a character that is no digit.\<close>

partial_function (option) atol_loop :: "'o mem \<Rightarrow> 'o ptr \<Rightarrow> u64 \<Rightarrow> u64 \<Rightarrow> u64 option option" where
  "atol_loop m str base ret =
     (if m str = 0 then Some (Some ret)
      else if isdigit (m str) then atol_loop m (padd str 1) base (ret * base + ucast (m str - 48))
      else if base = 16 then
        (if 97 \<le> m str \<and> m str \<le> 102 then atol_loop m (padd str 1) base (ret * base + (ucast (m str - 97) + 10))
         else if 65 \<le> m str \<and> m str \<le> 70 then atol_loop m (padd str 1) base (ret * base + (ucast (m str - 65) + 10))
         else Some None)
      else Some None)"

definition atol_base :: "'o mem \<Rightarrow> 'o ptr \<Rightarrow> u64 \<times> 'o ptr" where
  "atol_base m str =
     (if m str = 48 \<and> m (padd str 1) = 120 \<or> m str = 48 \<and> m (padd str 1) = 88 then (16, padd str 2) else (10, str))"

text \<open>The null pointer is \<open>None\<close>; no result means that the function does not return.\<close>

definition atol :: "'o mem \<Rightarrow> 'o ptr option \<Rightarrow> u64 option" where
  "atol m str =
     (case str of None \<Rightarrow> Some 0
      | Some str \<Rightarrow>
          (case skip_blanks m str of None \<Rightarrow> None
           | Some str \<Rightarrow>
               (if m str = 43 \<or> m str = 45 \<or> isdigit (m str) then
                  (let negative = (m str = 45);
                       str = (if m str = 43 \<or> m str = 45 then padd str 1 else str);
                       (base, str) = atol_base m str
                   in map_option (\<lambda>r. case r of None \<Rightarrow> 0 | Some ret \<Rightarrow> if negative then - ret else ret)
                        (atol_loop m str base 0))
                else Some 0)))"

definition atoi :: "'o mem \<Rightarrow> 'o ptr option \<Rightarrow> u32 option" where
  "atoi m str = map_option ucast (atol m str)"

section \<open>From number to text\<close>

text \<open>The \<open>do\<close> loop of \<open>itoa\<close>.\<close>

function itoa_do :: "'o ptr \<Rightarrow> int \<Rightarrow> int \<Rightarrow> 'o mem \<Rightarrow> nat \<Rightarrow> int \<Rightarrow> 'o mem \<times> nat \<times> int" where
  "itoa_do str len base m i remain =
     (let digit = remain smod base;
          m = m(padd str i := of_int (if digit < 10 then 48 + digit else 65 + digit - 10));
          remain = remain sdiv base
      in if remain \<noteq> 0 \<and> int (Suc i) < len - 1 then itoa_do str len base m (Suc i) remain else (m, Suc i, remain))"
  by pat_completeness auto
termination
  by (relation "measure (\<lambda>(str, len, base, m, i, remain). nat (len - int i))") auto

declare itoa_do.simps [simp del]

definition itoa :: "int \<Rightarrow> 'o ptr \<Rightarrow> int \<Rightarrow> int \<Rightarrow> 'o mem \<Rightarrow> (int \<times> 'o mem) res" where
  "itoa num str len base m =
     (if len = 0 then Inr (- 1, m)
      else guardE (base \<noteq> 0)
        (let (m, i, remain) = itoa_do str len base m 0 num
         in if int i = len - 1 \<and> remain \<noteq> 0 then Inr (- 1, m)
            else case strrev (m(padd str i := 0)) str of None \<Rightarrow> Inl Hang | Some m \<Rightarrow> Inr (0, m)))"

section \<open>Correctness of the conversions\<close>

lemma skip_blanks_hangs: "isspace (m str) \<Longrightarrow> skip_blanks m str = None"
proof (rule ccontr)
  assume s: "isspace (m str)" and "skip_blanks m str \<noteq> None"
  then obtain y where "skip_blanks m str = Some y" by blast
  then have "\<not> isspace (m str)" by (rule skip_blanks.raw_induct [rotated]) (auto split: if_splits)
  then show False using s by simp
qed

lemma skip_blanks_stays: "\<not> isspace (m str) \<Longrightarrow> skip_blanks m str = Some str"
  by (simp add: skip_blanks.simps)

text \<open>The value of a digit, and of a list of digits.\<close>

definition digit_of :: "bool \<Rightarrow> u8 \<Rightarrow> int option" where
  "digit_of hex ch =
     (if isdigit ch then Some (uint ch - 48)
      else if hex \<and> 97 \<le> ch \<and> ch \<le> 102 then Some (uint ch - 87)
      else if hex \<and> 65 \<le> ch \<and> ch \<le> 70 then Some (uint ch - 55) else None)"

fun digits_of :: "bool \<Rightarrow> u8 list \<Rightarrow> int list option" where
  "digits_of hex [] = Some []"
| "digits_of hex (c # cs) =
     (case digit_of hex c of None \<Rightarrow> None | Some d \<Rightarrow> map_option (Cons d) (digits_of hex cs))"

text \<open>The number that a text stands for: sign, base, digits.\<close>

definition unsigned_value :: "u8 list \<Rightarrow> int" where
  "unsigned_value t =
     (let (hex, t) = (case t of c # x # t' \<Rightarrow> if c = 48 \<and> (x = 120 \<or> x = 88) then (True, t') else (False, t) | _ \<Rightarrow> (False, t))
      in case digits_of hex t of None \<Rightarrow> 0 | Some ds \<Rightarrow> read_digits (if hex then 16 else 10) ds)"

definition text_value :: "u8 list \<Rightarrow> int" where
  "text_value s =
     (case s of c # t \<Rightarrow> if c = 45 then - unsigned_value t else if c = 43 then unsigned_value t else unsigned_value s | [] \<Rightarrow> 0)"

lemma digit_of_isxdigit: "digit_of True ch \<noteq> None \<longleftrightarrow> isxdigit ch"
  by (auto simp: digit_of_def isxdigit_def)

lemma ucast_diff: "k \<le> ch \<Longrightarrow> (ucast (ch - k :: u8) :: u64) = of_int (uint ch - uint k)"
proof -
  assume "k \<le> ch"
  then have "uint (ch - k) = uint ch - uint k" by (simp add: uint_sub_if' word_le_def)
  then show ?thesis by (metis word_of_int_uint of_int_uint)
qed

lemma atol_loop_digits:
  assumes "cstr m p t"
  shows "atol_loop m p (if hex then 16 else 10) (of_int r) =
    Some (map_option (\<lambda>ds. of_int (foldl (\<lambda>a d. a * (if hex then 16 else 10) + d) r ds)) (digits_of hex t))"
  using assms
proof (induction t arbitrary: p r)
  case Nil
  then show ?case by (simp add: atol_loop.simps)
next
  case (Cons c t)
  let ?b = "if hex then 16 else 10 :: int"
  have b: "(if hex then 16 else 10 :: u64) = of_int ?b" "of_int ?b = (16 :: u64) \<longleftrightarrow> hex" by auto
  have c: "m p = c" "c \<noteq> 0" and t: "cstr m (padd p 1) t" using Cons.prems by simp_all
  note ih = Cons.IH [OF t]
  have nx: "of_int r * of_int ?b + of_int d = (of_int (r * ?b + d) :: u64)" for d by simp
  have nx16: "of_int r * 16 + of_int d = (of_int (r * 16 + d) :: u64)" for d by simp
  have l: "(ucast (c - 97) :: u64) + 10 = of_int (uint c - 87)" if "97 \<le> c" using ucast_diff [OF that] by simp
  have u: "(ucast (c - 65) :: u64) + 10 = of_int (uint c - 55)" if "65 \<le> c" using ucast_diff [OF that] by simp
  have d: "(ucast (c - 48) :: u64) = of_int (uint c - 48)" if "48 \<le> c" using ucast_diff [OF that] by simp
  consider "isdigit c" | "\<not> isdigit c" "hex" "97 \<le> c" "c \<le> 102" | "\<not> isdigit c" "hex" "\<not> (97 \<le> c \<and> c \<le> 102)" "65 \<le> c" "c \<le> 70"
    | "digit_of hex c = None" 
    by (cases "isdigit c"; cases "hex \<and> 97 \<le> c \<and> c \<le> 102"; cases "hex \<and> 65 \<le> c \<and> c \<le> 70") (auto simp: digit_of_def)
  then show ?case
  proof cases
    case 1
    then have dv: "digit_of hex c = Some (uint c - 48)" "48 \<le> c" by (simp_all add: digit_of_def isdigit_def)
    have "atol_loop m p (if hex then 16 else 10) (of_int r) = atol_loop m (padd p 1) (if hex then 16 else 10) (of_int (r * ?b + (uint c - 48)))"
      by (subst atol_loop.simps) (simp only: c 1 if_True if_False b(1) d [OF dv(2)] nx)
    then show ?thesis unfolding ih by (simp add: dv(1) option.map_comp comp_def)
  next
    case 2
    then have dv: "digit_of hex c = Some (uint c - 87)" by (simp add: digit_of_def)
    have "atol_loop m p (if hex then 16 else 10) (of_int r) = atol_loop m (padd p 1) (if hex then 16 else 10) (of_int (r * ?b + (uint c - 87)))"
      by (subst atol_loop.simps) (simp only: c 2 simp_thms if_True if_False b(1) l [OF 2(3)] nx16)
    then show ?thesis unfolding ih by (simp add: dv(1) option.map_comp comp_def)
  next
    case 3
    then have dv: "digit_of hex c = Some (uint c - 55)" by (simp add: digit_of_def)
    have "atol_loop m p (if hex then 16 else 10) (of_int r) = atol_loop m (padd p 1) (if hex then 16 else 10) (of_int (r * ?b + (uint c - 55)))"
      by (subst atol_loop.simps) (simp only: c 3 simp_thms if_True if_False b(1) u [OF 3(4)] nx16)
    then show ?thesis unfolding ih by (simp add: dv(1) option.map_comp comp_def)
  next
    case 4
    then have "atol_loop m p (if hex then 16 else 10) (of_int r) = Some None"
      using c by (subst atol_loop.simps) (auto simp: digit_of_def split: if_splits)
    then show ?thesis by (simp add: 4)
  qed
qed

lemma unsigned_value_hex: "x = 120 \<or> x = 88 \<Longrightarrow> unsigned_value (48 # x # t) = (case digits_of True t of None \<Rightarrow> 0 | Some ds \<Rightarrow> read_digits 16 ds)"
  by (auto simp: unsigned_value_def)

lemma unsigned_value_dec:
  "(\<And>x t'. t = 48 # x # t' \<Longrightarrow> x \<noteq> 120 \<and> x \<noteq> 88) \<Longrightarrow> unsigned_value t = (case digits_of False t of None \<Rightarrow> 0 | Some ds \<Rightarrow> read_digits 10 ds)"
  by (auto simp: unsigned_value_def split: list.split)

lemma atol_loop_value:
  assumes "cstr m p t"
  shows "\<exists>r. (case atol_base m p of (base, str) \<Rightarrow> atol_loop m str base 0) = Some r \<and>
    (case r of None \<Rightarrow> 0 | Some v \<Rightarrow> v) = (of_int (unsigned_value t) :: u64)"
proof (cases "\<exists>x t'. t = 48 # x # t' \<and> (x = 120 \<or> x = 88)")
  case True
  then obtain x t' where t: "t = 48 # x # t'" "x = 120 \<or> x = 88" by blast
  have c: "m p = 48" "m (padd p 1) = x" "cstr m (padd p 2) t'" using assms by (simp_all add: t(1) numeral_2_eq_2)
  have b: "atol_base m p = (16, padd p 2)" using t(2) c(1,2) by (auto simp: atol_base_def)
  show ?thesis unfolding b prod.case using atol_loop_digits [OF c(3), of True 0]
    by (simp add: t unsigned_value_hex read_digits_def split: option.split)
next
  case False
  have "\<not> (m p = 48 \<and> (m (padd p 1) = 120 \<or> m (padd p 1) = 88))"
  proof
    assume h: "m p = 48 \<and> (m (padd p 1) = 120 \<or> m (padd p 1) = 88)"
    then obtain t1 where t1: "t = 48 # t1" "cstr m (padd p 1) t1" using assms by (cases t) auto
    then show False using h False by (cases t1) auto
  qed
  then have b: "atol_base m p = (10, p)" by (auto simp: atol_base_def)
  have "unsigned_value t = (case digits_of False t of None \<Rightarrow> 0 | Some ds \<Rightarrow> read_digits 10 ds)"
    by (rule unsigned_value_dec) (use False in blast)
  then show ?thesis unfolding b prod.case using atol_loop_digits [OF assms, of False 0]
    by (simp add: read_digits_def split: option.split)
qed

lemma atol_value:
  assumes s: "cstr m p s" and b: "s = [] \<or> \<not> isspace (hd s)"
  shows "atol m (Some p) = Some (of_int (text_value s))"
proof -
  have head: "m p = (case s of [] \<Rightarrow> 0 | c # t \<Rightarrow> c)" using s by (cases s) simp_all
  then have "\<not> isspace (m p)" using b by (cases s) (simp_all add: isspace_def)
  note sk = skip_blanks_stays [of m p, OF this]
  have fin: "map_option (\<lambda>r. case r of None \<Rightarrow> 0 | Some ret \<Rightarrow> if neg then - ret else ret) (case atol_base m q of (base, str) \<Rightarrow> atol_loop m str base 0) =
      Some (of_int (if neg then - unsigned_value t else unsigned_value t))" if "cstr m q t" for q t neg
    using atol_loop_value [OF that] by (auto split: option.splits)
  show ?thesis
  proof (cases s)
    case Nil
    then show ?thesis using s sk by (simp add: atol_def isdigit_def text_value_def read_digits_def)
  next
    case (Cons c t)
    then have t: "cstr m (padd p 1) t" and mp: "m p = c" using s by simp_all
    consider "c = 45" | "c = 43" | "c \<noteq> 45" "c \<noteq> 43" "isdigit c" | "c \<noteq> 45" "c \<noteq> 43" "\<not> isdigit c" by blast
    then show ?thesis
    proof cases
      case 1
      then show ?thesis using fin [OF t, of True] unfolding if_True by (simp add: atol_def sk mp Cons text_value_def Let_def case_prod_unfold)
    next
      case 2
      then show ?thesis using fin [OF t, of False] unfolding if_False by (simp add: atol_def sk mp Cons text_value_def Let_def case_prod_unfold)
    next
      case 3
      then show ?thesis using fin [OF s, of False] unfolding if_False by (simp add: atol_def sk mp Cons text_value_def Let_def case_prod_unfold)
    next
      case 4
      then have "unsigned_value (c # t) = 0"
        by (subst unsigned_value_dec) (auto simp: digit_of_def isdigit_def)
      then show ?thesis using 4 by (simp add: atol_def sk mp Cons text_value_def)
    qed
  qed
qed

section \<open>Correctness of itoa\<close>

lemma itoa_do_digits:
  assumes "2 \<le> base" and "0 \<le> v" and "int i + 1 < len"
  shows "\<exists>n rest'. itoa_do str len base m i v = (put_bytes m (padd str i) (map (digit_char True) (take n (digits_rev base v))), i + n, rest') \<and>
    (rest' = 0 \<longleftrightarrow> n = length (digits_rev base v)) \<and> n = min (length (digits_rev base v)) (nat (len - 1) - i)"
  using assms
proof (induction str len base m i v rule: itoa_do.induct)
  case (1 str len base m i v)
  have c: "v smod base = v mod base" "v sdiv base = v div base"
    using 1(2,3) by (simp_all add: signed_modulo_int_def signed_divide_int_def sgn_if)
  let ?m = "m(padd str i := digit_char True (v mod base))"
  have dc: "of_int (if v mod base < 10 then 48 + v mod base else 65 + v mod base - 10) = digit_char True (v mod base)" by (simp add: digit_char_def)
  have nn: "0 \<le> v div base" using 1(2,3) by (simp add: pos_imp_zdiv_nonneg_iff)
  show ?case
  proof (cases "v div base \<noteq> 0 \<and> int (Suc i) < len - 1")
    case True
    have len: "int (Suc i) + 1 < len" using True by simp
    obtain n rest' where n: "itoa_do str len base ?m (Suc i) (v div base) =
        (put_bytes ?m (padd str (Suc i)) (map (digit_char True) (take n (digits_rev base (v div base)))), Suc i + n, rest')"
      "rest' = 0 \<longleftrightarrow> n = length (digits_rev base (v div base))" "n = min (length (digits_rev base (v div base))) (nat (len - 1) - Suc i)"
      using 1(1) [OF refl refl refl, unfolded c dc, OF True 1(2) nn len] by blast
    have d: "digits_rev base v = (v mod base) # digits_rev base (v div base)" using True nn 1(2) by (subst digits_rev.simps) simp
    have run: "itoa_do str len base m i v = itoa_do str len base ?m (Suc i) (v div base)"
      using True by (subst itoa_do.simps) (simp only: c dc Let_def if_True simp_thms)
    have sn: "min (Suc (length (digits_rev base (v div base)))) (nat (len - 1) - i) = Suc n"
    proof -
      have "nat (len - 1) - i = Suc (nat (len - 1) - Suc i)" using len by arith
      then show ?thesis using n(3) by simp
    qed
    show ?thesis unfolding run using n(1,2) by (intro exI [of _ "Suc n"] exI [of _ rest']) (simp add: d sn del: fun_upd_apply)
  next
    case False
    have "itoa_do str len base m i v = (?m, Suc i, v div base)"
      using False by (subst itoa_do.simps) (simp only: c dc Let_def if_False simp_thms)
    moreover have "digits_rev base v = (v mod base) # (if v div base \<noteq> 0 then digits_rev base (v div base) else [])"
      using nn 1(2) by (subst digits_rev.simps) simp
    moreover have "digits_rev base (v div base) \<noteq> []" by (subst digits_rev.simps) simp
    moreover have "nat (len - 1) - i = 1" if "v div base \<noteq> 0" using False that 1(4) by simp
    moreover have "1 \<le> nat (len - 1) - i" using 1(4) by simp
    ultimately show ?thesis by (intro exI [of _ 1] exI [of _ "v div base"]) (auto simp del: fun_upd_apply)
  qed
qed

lemma uint_digit_char: "0 \<le> d \<Longrightarrow> d < 36 \<Longrightarrow> uint (digit_char u d) = (if d < 10 then 48 + d else (if u then 65 else 97) + d - 10)"
proof -
  assume d: "0 \<le> d" "d < 36"
  have "uint (of_int k :: u8) = k" if "0 \<le> k" "k < 256" for k using that by (simp add: uint_word_of_int take_bit_int_eq_self)
  then show ?thesis unfolding digit_char_def using d by auto
qed

lemma digit_char_nonzero: "0 \<le> d \<Longrightarrow> d < 36 \<Longrightarrow> digit_char u d \<noteq> 0"
  using uint_digit_char [of d u] by (auto split: if_splits)

lemma strrev_loop_beyond:
  "0 \<le> i \<Longrightarrow> fst q \<noteq> fst p \<or> snd q < snd p \<or> int (snd p) + j < int (snd q) \<Longrightarrow> strrev_loop m p i j q = m q"
proof (induction m p i j rule: strrev_loop.induct)
  case (1 m p i j)
  show ?case
  proof (cases "i < j")
    case True
    then have "q \<noteq> padd p (nat i)" "q \<noteq> padd p (nat j)" using 1(2,3) by (auto simp: ptr_eq_iff)
    moreover have "fst q \<noteq> fst p \<or> snd q < snd p \<or> int (snd p) + (j - 1) < int (snd q)" using 1(3) by auto
    ultimately show ?thesis using 1(1) [OF True] 1(2) True
      by (subst strrev_loop.simps) (simp add: fun_upd_other del: fun_upd_apply)
  qed (simp add: strrev_loop.simps)
qed

text \<open>The text of a number in base \<open>r\<close>.\<close>

definition itoa_text :: "int \<Rightarrow> int \<Rightarrow> u8 list" where
  "itoa_text r v = map (digit_char True) (digits r v)"

lemma itoa_ok:
  fixes m :: "'o mem"
  assumes r: "2 \<le> base" "base \<le> 36" and v: "0 \<le> num" and len: "2 \<le> len"
  defines "t \<equiv> itoa_text base num"
  shows "\<exists>m'. itoa num str len base m = Inr (if int (length t) < len then 0 else - 1, m') \<and>
    (int (length t) < len \<longrightarrow> cstr m' str t) \<and> (\<forall>q. fst q \<noteq> fst str \<or> snd q < snd str \<or> snd str + nat len \<le> snd q \<longrightarrow> m' q = m q)"
proof -
  let ?ds = "digits_rev base num"
  obtain n rest' where n: "itoa_do str len base m 0 num = (put_bytes m str (map (digit_char True) (take n ?ds)), n, rest')"
    "rest' = 0 \<longleftrightarrow> n = length ?ds" "n = min (length ?ds) (nat (len - 1))"
    using itoa_do_digits [OF r(1) v, of 0 len str m] len by auto
  have lt: "length t = length ?ds" by (simp add: t_def itoa_text_def digits_def)
  have b: "base \<noteq> 0" "len \<noteq> 0" using r(1) len by simp_all
  show ?thesis
  proof (cases "int (length t) < len")
    case True
    then have nl: "n = length ?ds" using n(3) lt by simp
    let ?s = "map (digit_char True) ?ds"
    let ?m1 = "(put_bytes m str ?s)(padd str n := 0)"
    have rt: "rev ?s = t" by (simp add: t_def itoa_text_def digits_def rev_map)
    have nz: "digit_char True d \<noteq> 0" if "d \<in> set ?ds" for d
      using digits_range [OF r(1), of d num] that r(2) digit_char_nonzero [of d True] by (auto simp: digits_def)
    have cs: "cstr ?m1 str ?s"
      unfolding cstr_iff using nl nz by (auto simp: put_bytes_at ptr_eq_iff)
    note rv = strrev_cstr [OF cs]
    have run: "itoa num str len base m = Inr (0, strrev_loop ?m1 str 0 (int (length ?s) - 1))"
      using b n(1,2) nl rv(1) by (simp add: itoa_def)
    have "strrev_loop ?m1 str 0 (int (length ?s) - 1) q = m q" if "fst q \<noteq> fst str \<or> snd q < snd str \<or> snd str + nat len \<le> snd q" for q
    proof -
      have "length ?s < nat len" using True lt by simp
      then show ?thesis using nl that by (subst strrev_loop_beyond) (auto simp: put_bytes_closed ptr_eq_iff)
    qed
    then show ?thesis using True run rv(2) unfolding rt by (intro exI [of _ "strrev_loop ?m1 str 0 (int (length ?s) - 1)"]) simp
  next
    case False
    then have nl: "n = nat (len - 1)" "n \<noteq> length ?ds" using n(3) lt len by auto
    have "itoa num str len base m = Inr (- 1, put_bytes m str (map (digit_char True) (take n ?ds)))"
      using b n(1,2) nl len by (simp add: itoa_def)
    moreover have "put_bytes m str (map (digit_char True) (take n ?ds)) q = m q"
      if "fst q \<noteq> fst str \<or> snd q < snd str \<or> snd str + nat len \<le> snd q" for q
      using that nl(1) by (auto simp: put_bytes_closed)
    ultimately show ?thesis using False by auto
  qed
qed

lemma digits_of_text:
  assumes "\<And>d. d \<in> set ds \<Longrightarrow> 0 \<le> d \<and> d < 10"
  shows "digits_of False (map (digit_char True) ds) = Some ds"
  using assms
proof (induction ds)
  case (Cons d ds)
  have d: "0 \<le> d" "d < 10" using Cons.prems by simp_all
  then have "uint (digit_char True d) = 48 + d" by (simp add: uint_digit_char)
  then have "digit_of False (digit_char True d) = Some d" using d by (simp add: digit_of_def isdigit_def word_le_def)
  then show ?case using Cons by simp
qed simp

lemma text_value_itoa:
  assumes "0 \<le> v"
  shows "text_value (itoa_text 10 v) = v" and "itoa_text 10 v \<noteq> []" and "\<not> isspace (hd (itoa_text 10 v))"
proof -
  have dg: "0 \<le> d \<and> d < 10" if "d \<in> set (digits 10 v)" for d using digits_range [of 10 d v] that by simp
  obtain d ds where ds: "digits 10 v = d # ds" by (metis digits_def digits_rev.simps list.distinct(1) list.exhaust rev_is_Nil_conv)
  have u: "uint (digit_char True e) = 48 + e" if "0 \<le> e" "e < 10" for e using that by (simp add: uint_digit_char)
  have ne: "digit_char True e \<noteq> c" if "0 \<le> e" "e < 10" "uint c < 48 \<or> 57 < uint c" for e c using u [OF that(1,2)] that by auto
  have d: "0 \<le> d" "d < 10" using dg ds by simp_all
  show "itoa_text 10 v \<noteq> []" by (simp add: itoa_text_def ds)
  show "\<not> isspace (hd (itoa_text 10 v))" using ne [OF d] by (simp add: itoa_text_def ds isspace_def)
  have "unsigned_value (itoa_text 10 v) = (case digits_of False (itoa_text 10 v) of None \<Rightarrow> 0 | Some ds \<Rightarrow> read_digits 10 ds)"
  proof (rule unsigned_value_dec)
    fix x t'
    assume "itoa_text 10 v = 48 # x # t'"
    then obtain e where "x = digit_char True e" "e \<in> set (digits 10 v)" by (auto simp: itoa_text_def ds)
    then show "x \<noteq> 120 \<and> x \<noteq> 88" using dg [of e] ne [of e] by simp
  qed
  also have "\<dots> = v" using digits_of_text [of "digits 10 v"] dg digits_value [of 10 v] assms by (simp add: itoa_text_def)
  finally have uv: "unsigned_value (itoa_text 10 v) = v" .
  show "text_value (itoa_text 10 v) = v" using uv ne [OF d] by (simp add: text_value_def itoa_text_def ds)
qed

section \<open>Checksums\<close>

definition MOD_ADLER :: u32 where "MOD_ADLER = 65521"

definition adler_step :: "u8 \<Rightarrow> u32 \<times> u32 \<Rightarrow> u32 \<times> u32" where
  "adler_step c = (\<lambda>(a, b). let a = (a + ucast c) mod MOD_ADLER; b = (b + a) mod MOD_ADLER in (a, b))"

definition adler32 :: "'o mem \<Rightarrow> 'o ptr \<Rightarrow> nat \<Rightarrow> u32" where
  "adler32 m data len =
     (let (a, b) = fold (\<lambda>index. adler_step (m (padd data index))) [0..<len] (1, 0)
      in push_bit 16 b OR a)"

text \<open>Adler-32 as RFC 1950 defines it: \<open>A\<close> is one plus the sum of the bytes, \<open>B\<close> the sum of all values of \<open>A\<close>.\<close>

definition adler_A :: "u8 list \<Rightarrow> nat" where
  "adler_A bs = 1 + sum_list (map unat bs)"

definition adler_B :: "u8 list \<Rightarrow> nat" where
  "adler_B bs = sum_list (map (\<lambda>n. adler_A (take (Suc n) bs)) [0..<length bs])"

lemma adler_snoc: "adler_A (bs @ [c]) = adler_A bs + unat c" "adler_B (bs @ [c]) = adler_B bs + adler_A (bs @ [c])"
proof -
  show "adler_A (bs @ [c]) = adler_A bs + unat c" by (simp add: adler_A_def)
  have e: "map (\<lambda>n. adler_A (take (Suc n) (bs @ [c]))) [0..<length bs] = map (\<lambda>n. adler_A (take (Suc n) bs)) [0..<length bs]"
    by (rule map_cong) simp_all
  have "adler_B (bs @ [c]) = sum_list (map (\<lambda>n. adler_A (take (Suc n) (bs @ [c]))) ([0..<length bs] @ [length bs]))"
    by (simp only: adler_B_def length_append_singleton upt_Suc_append le0)
  then show "adler_B (bs @ [c]) = adler_B bs + adler_A (bs @ [c])" unfolding map_append e sum_list_append by (simp add: adler_B_def)
qed

lemma unat_mod_adler: "unat (of_nat (z mod 65521) :: u32) = z mod 65521"
  by (rule unat_of_nat_less) (simp add: less_trans [OF mod_less_divisor])

lemma adler_step_mod:
  assumes "unat a = x mod 65521" and "unat b = y mod 65521"
  shows "adler_step c (a, b) = (of_nat ((x + unat c) mod 65521), of_nat ((y + (x + unat c)) mod 65521))"
proof -
  have "unat c < 2 ^ LENGTH(8)" by (rule unsigned_less)
  then have c: "unat (ucast c :: u32) = unat c" "unat c < 256" by (simp_all add: unsigned_ucast_eq take_bit_nat_eq_self)
  have xl: "x mod 65521 < 65521" "y mod 65521 < 65521" by simp_all
  have s1: "x mod 65521 + unat c < 4294967296" using xl(1) c(2) by linarith
  have s2: "y mod 65521 + (x + unat c) mod 65521 < 4294967296" using xl(2) mod_less_divisor [of 65521 "x + unat c"] by linarith
  have "unat (a + ucast c) = x mod 65521 + unat c" 
    using s1 assms(1) c(1) by (simp add: unat_plus_if')
  then have "unat ((a + ucast c) mod MOD_ADLER) = (x + unat c) mod 65521" by (simp add: unat_mod MOD_ADLER_def mod_simps)
  then have a: "(a + ucast c) mod MOD_ADLER = of_nat ((x + unat c) mod 65521)" by (metis of_nat_unat ucast_id)
  have "unat (b + of_nat ((x + unat c) mod 65521)) = y mod 65521 + (x + unat c) mod 65521"
    using s2 assms(2) unat_mod_adler [of "x + unat c"] by (simp add: unat_plus_if')
  then have "unat ((b + of_nat ((x + unat c) mod 65521)) mod MOD_ADLER) = (y + (x + unat c)) mod 65521"
    by (simp only: unat_mod) (simp add: MOD_ADLER_def mod_simps)
  then have "(b + of_nat ((x + unat c) mod 65521)) mod MOD_ADLER = of_nat ((y + (x + unat c)) mod 65521)" by (metis of_nat_unat ucast_id)
  then show "adler_step c (a, b) = (of_nat ((x + unat c) mod 65521), of_nat ((y + (x + unat c)) mod 65521))"
    by (simp only: adler_step_def prod.case a Let_def)
qed

lemma adler_loop:
  "fold (\<lambda>i. adler_step (m (padd data i))) [0..<len] (1, 0) =
     (of_nat (adler_A (bytes_at m data len) mod 65521), of_nat (adler_B (bytes_at m data len) mod 65521))"
proof (induction len)
  case 0
  show ?case by (simp add: adler_A_def adler_B_def)
next
  case (Suc len)
  let ?b = "bytes_at m data len"
  have b: "bytes_at m data (Suc len) = ?b @ [m (padd data len)]" by (simp add: bytes_at_def)
  have "unat (of_nat (adler_A ?b mod 65521) :: u32) = adler_A ?b mod 65521" "unat (of_nat (adler_B ?b mod 65521) :: u32) = adler_B ?b mod 65521"
    by (rule unat_mod_adler)+
  from adler_step_mod [OF this, of "m (padd data len)"] show ?case
    unfolding b by (simp add: Suc.IH adler_snoc add.assoc)
qed

lemma adler32_value:
  "unat (adler32 m data len) = adler_B (bytes_at m data len) mod 65521 * 65536 + adler_A (bytes_at m data len) mod 65521"
proof -
  let ?a = "adler_A (bytes_at m data len) mod 65521" and ?b = "adler_B (bytes_at m data len) mod 65521"
  have lt: "?a < 65521" "?b < 65521" by simp_all
  have hi: "\<not> bit (of_nat ?a :: u32) k" if "16 \<le> k" for k
  proof -
    have "?a < 2 ^ k" using lt(1) power_increasing [OF that, of "2 :: nat"] by simp
    then have "\<not> bit ?a k" by (metis bit_take_bit_iff less_irrefl take_bit_nat_eq_self)
    moreover have "bit (unat (of_nat ?a :: u32)) k = bit (of_nat ?a :: u32) k" by (simp only: bit_unsigned_iff possible_bit_def) simp
    ultimately show ?thesis unfolding unat_mod_adler by simp
  qed
  have "push_bit 16 (of_nat ?b) OR of_nat ?a = (push_bit 16 (of_nat ?b) + of_nat ?a :: u32)"
    by (rule disjunctive_add [symmetric]) (use hi in \<open>auto simp: bit_simps\<close>)
  then have "adler32 m data len = of_nat (65536 * ?b + ?a)" unfolding adler32_def adler_loop by (simp add: push_bit_eq_mult)
  moreover have "65536 * ?b + ?a < 4294967296" using lt by linarith
  ultimately show ?thesis using unat_of_nat_less [where 'a = 32 and m = "65536 * ?b + ?a"] by (simp add: mult.commute)
qed

section \<open>Random strings\<close>

text \<open>\<open>rand\<close> takes the state and returns the new one, which is also its result.\<close>

definition srand :: "u32 \<Rightarrow> u32" where
  "srand seed = seed"

definition rand :: "u32 \<Rightarrow> u32" where
  "rand x = (let tmp = 0x5deece66d * scast x + 0xb :: u64 in ucast (tmp AND 0x7fffffff))"

definition alpha :: "u8 list" where
  "alpha = map of_char ''abcdefghijklmnopqrstuvwxyzABCDEFGHIJKLMNOPQRSTUVWXYZ0123456789-={};|[],./<>?!@#$%^&*'' @ [0]"

definition alphaSz :: nat where "alphaSz = 85"

fun random_fill :: "nat \<Rightarrow> 'o ptr \<Rightarrow> u32 \<Rightarrow> 'o mem \<Rightarrow> u32 \<times> 'o mem" where
  "random_fill 0 buf x m = (x, m)"
| "random_fill (Suc i) buf x m =
     (let x = rand x in random_fill i buf x (m(padd buf i := alpha ! (unat x mod alphaSz))))"

definition generateRandomString :: "'o ptr \<Rightarrow> int \<Rightarrow> u32 \<Rightarrow> 'o mem \<Rightarrow> (u32 \<times> 'o mem) res" where
  "generateRandomString buf len x m =
     guardE (1 \<le> len) (Inr (random_fill (nat len - 1) buf x (m(padd buf (nat len - 1) := 0))))"

lemma length_alpha: "length alpha = alphaSz"
  by (simp add: alpha_def alphaSz_def)

lemma rand_bound: "unat (rand x) < 2 ^ 31"
proof -
  have "0x7fffffff = (mask 31 :: u64)" by (simp add: mask_eq_exp_minus_1)
  then have "rand x = ucast (take_bit 31 (0x5deece66d * scast x + 0xb :: u64))" by (simp add: rand_def Let_def take_bit_eq_mask)
  also have "\<dots> = take_bit 31 (ucast (0x5deece66d * scast x + 0xb :: u64))" by (rule bit_word_eqI) (auto simp: bit_simps)
  finally show ?thesis by (simp only: unsigned_take_bit_eq take_bit_nat_less_exp)
qed

lemma random_fill_ok:
  "random_fill n buf x m = (x', m') \<Longrightarrow> (\<forall>i<n. m' (padd buf i) \<in> set alpha) \<and> (\<forall>q. (\<forall>i<n. q \<noteq> padd buf i) \<longrightarrow> m' q = m q)"
proof (induction n arbitrary: x m)
  case (Suc n)
  let ?m = "m(padd buf n := alpha ! (unat (rand x) mod alphaSz))"
  have ih: "(\<forall>i<n. m' (padd buf i) \<in> set alpha) \<and> (\<forall>q. (\<forall>i<n. q \<noteq> padd buf i) \<longrightarrow> m' q = ?m q)"
    by (rule Suc.IH [of "rand x" ?m]) (use Suc.prems in \<open>simp add: Let_def del: fun_upd_apply\<close>)
  have "alpha ! (unat (rand x) mod alphaSz) \<in> set alpha" by (rule nth_mem) (simp add: length_alpha alphaSz_def)
  moreover have "m' (padd buf n) = ?m (padd buf n)"
  proof -
    have "\<forall>i<n. padd buf n \<noteq> padd buf i" by auto
    then show ?thesis using ih by blast
  qed
  ultimately have mn: "m' (padd buf n) \<in> set alpha" by simp
  have "m' q = m q" if "\<forall>i<Suc n. q \<noteq> padd buf i" for q using ih that by (simp del: split_paired_All)
  then show ?case using ih mn by (simp add: less_Suc_eq all_conj_distrib)
qed simp

section \<open>Threads, time and input\<close>

definition pthread_create :: "u64 \<Rightarrow> u64 \<Rightarrow> u64 \<Rightarrow> usys" where
  "pthread_create thread start_routine arg = sys_pthread_create thread start_routine arg"

text \<open>\<open>pthread_join\<close> begins with \<open>while(1)\<close>: the call of \<open>sys_waitpid\<close> behind it is never reached.\<close>

definition pthread_join :: "u32 \<Rightarrow> usys res" where
  "pthread_join thread = Inl Hang"

definition clock :: usys where
  "clock = sys_get_tick"

text \<open>\<open>getchar\<close> with the values that the calls of \<open>sys_getchar\<close> yield; \<open>None\<close> when it still waits at their end.\<close>

fun getchar :: "int list \<Rightarrow> (int \<times> int list) option" where
  "getchar [] = None"
| "getchar (ch # chs) = (if ch = - 1 then getchar chs else Some (ch, chs))"

section \<open>Formatted output\<close>

text \<open>
  \<open>printf.c\<close> has the code of \<open>libs/printk.c\<close> but for \<open>mini_itoa\<close>, which divides the value as a \<open>long\<close> even
  when it is to be taken as unsigned, and stops at the first quotient that is not positive.
\<close>

function printf_itoa_loop :: "'o mem \<Rightarrow> 'o ptr \<Rightarrow> int \<Rightarrow> int \<Rightarrow> bool \<Rightarrow> 'o mem \<times> 'o ptr" where
  "printf_itoa_loop m pb value radix uppercase =
     (let m = m(pb := digit_char uppercase (crem value radix));
          value = cquot value radix
      in if value > 0 \<and> 2 \<le> radix then printf_itoa_loop m (padd pb 1) value radix uppercase
         else (m, padd pb 1))"
  by pat_completeness auto
termination
proof (relation "measure (\<lambda>(m, p, v, r, u). nat v)", simp, goal_cases)
  case (1 m p v r u)
  have "0 < v"
  proof (rule ccontr)
    assume "\<not> 0 < v"
    then have "0 \<le> - v div r" using 1 by (simp add: pos_imp_zdiv_nonneg_iff)
    then show False using 1 \<open>\<not> 0 < v\<close> by (cases "v = 0") (simp_all add: cquot_def)
  qed
  then have "v div r < v" using 1 by (intro int_div_less_self) auto
  then show ?case using 1 \<open>0 < v\<close> by (simp add: cquot_def)
qed

declare printf_itoa_loop.simps [simp del]

definition printf_itoa_value :: "u64 \<Rightarrow> bool \<Rightarrow> bool \<times> int" where
  "printf_itoa_value value unsig =
     (if sint value < 0 \<and> \<not> unsig then (True, sint (- value)) else (False, sint value))"

definition printf_itoa ::
  "u64 \<Rightarrow> int \<Rightarrow> bool \<Rightarrow> bool \<Rightarrow> 'o ptr \<Rightarrow> nat \<Rightarrow> 'o mem \<Rightarrow> nat \<times> 'o mem" where
  "printf_itoa value radix uppercase unsig bufp zero_pad m =
     (if radix > 16 then (0, m)
      else let (negative, v) = printf_itoa_value value unsig;
               (m, p) = printf_itoa_loop m bufp v radix uppercase;
               len = snd p - snd bufp;
               m = fold (\<lambda>i m. m(padd bufp i := 48)) [len..<zero_pad] m;
               len = max len zero_pad;
               (m, len) = (if negative then (m(padd bufp len := 45), Suc len) else (m, len));
               m = m(padd bufp len := 0);
               m = fold (swap_ends bufp len) [0..<len div 2] m
           in (len, m))"

definition printf_number ::
  "'o ptr \<Rightarrow> u64 \<Rightarrow> int \<Rightarrow> bool \<Rightarrow> bool \<Rightarrow> u8 \<Rightarrow> 'o mini_buff \<Rightarrow> 'o mini_buff res" where
  "printf_number bf v radix uppercase unsig zero_pad b =
     (let (len, m) = printf_itoa v radix uppercase unsig bf (unat zero_pad) (pmem b)
      in guardE (len < BF_SIZE) (Inr (mb_puts bf len (b\<lparr>pmem := m\<rparr>))))"

definition printf_convert ::
  "'o ptr \<Rightarrow> u8 \<Rightarrow> bool \<Rightarrow> u8 \<Rightarrow> 'o slot list \<Rightarrow> 'o mini_buff \<Rightarrow> ('o slot list \<times> 'o mini_buff) option res" where
  "printf_convert bf zero_pad longflag ch va b =
     (if ch = 0 then Inr None
      else if ch = 108 then Inr (Some (va, b))
      else if ch = 117 \<or> ch = 100 then
        bindE (va_num longflag va) (\<lambda>(v, va).
        bindE (printf_number bf v 10 False (ch = 117) zero_pad b) (\<lambda>b. Inr (Some (va, b))))
      else if ch = 120 \<or> ch = 88 then
        bindE (va_num longflag va) (\<lambda>(v, va).
        bindE (printf_number bf v 16 (ch = 88) True zero_pad b) (\<lambda>b. Inr (Some (va, b))))
      else if ch = 99 then
        bindE (va_num False va) (\<lambda>(v, va). Inr (Some (va, mb_putc (ucast v) b)))
      else if ch = 115 then
        bindE (va_str va) (\<lambda>(p, va).
        case strlen (pmem b) p of None \<Rightarrow> Inl Fault | Some n \<Rightarrow> Inr (Some (va, mb_puts p n b)))
      else Inr (Some (va, mb_putc ch b)))"

function printf_loop :: "'o ptr \<Rightarrow> u8 list \<Rightarrow> 'o slot list \<Rightarrow> 'o mini_buff \<Rightarrow> 'o mini_buff res" where
  "printf_loop bf [] va b = Inr b"
| "printf_loop bf (ch # fmt) va b =
     (if pbuffer b + 1 \<ge> buffer_len b then Inr b
      else if ch \<noteq> 37 then printf_loop bf fmt va (mb_putc ch b)
      else case scan_directive fmt of (zero_pad, longflag, c, rest) \<Rightarrow>
        (case printf_convert bf zero_pad longflag c va b of
           Inl e \<Rightarrow> Inl e
         | Inr None \<Rightarrow> Inr b
         | Inr (Some (va, b)) \<Rightarrow> printf_loop bf rest va b))"
  by pat_completeness auto
termination
  by (relation "measure (\<lambda>(bf, fmt, va, b). length fmt)") (auto simp: less_Suc_eq_le dest: scan_directive_shorter [OF sym])

definition printf_vsnprintf ::
  "'o ptr \<Rightarrow> 'o ptr \<Rightarrow> nat \<Rightarrow> u8 list \<Rightarrow> 'o slot list \<Rightarrow> 'o mem \<Rightarrow> (nat \<times> 'o mem) res" where
  "printf_vsnprintf bf buf len fmt va m =
     bindE (printf_loop bf fmt va \<lparr>buffer = buf, pbuffer = 0, buffer_len = len, pmem = m\<rparr>) (\<lambda>b.
       Inr (pbuffer b, pmem b))"

text \<open>
  \<open>printf\<close> with its local arrays \<open>bf\<close> and \<open>buff\<close>; \<open>addr\<close> gives the address of an object.  The result has the
  length, the memory and the two system calls.
\<close>

definition vprintf :: "('o ptr \<Rightarrow> u64) \<Rightarrow> 'o ptr \<Rightarrow> 'o ptr \<Rightarrow> u8 list \<Rightarrow> 'o slot list \<Rightarrow> 'o mem \<Rightarrow> (nat \<times> 'o mem \<times> usys list) res" where
  "vprintf addr bf buff fmt va m =
     bindE (printf_vsnprintf bf buff 256 fmt va m) (\<lambda>(ret, m).
       Inr (ret, m(padd buff ret := 0), [sys_write (addr buff), sys_reflush]))"

definition printf :: "('o ptr \<Rightarrow> u64) \<Rightarrow> 'o ptr \<Rightarrow> 'o ptr \<Rightarrow> u8 list \<Rightarrow> 'o slot list \<Rightarrow> 'o mem \<Rightarrow> (nat \<times> 'o mem \<times> usys list) res" where
  "printf addr bf buff fmt va m = vprintf addr bf buff fmt va m"

subsection \<open>Numbers below two to the 63\<close>

lemma printf_itoa_loop_eq: "0 \<le> v \<Longrightarrow> 2 \<le> r \<Longrightarrow> printf_itoa_loop m p v r u = itoa_loop m p v r u"
proof (induction m p v r u rule: itoa_loop.induct)
  case (1 m p v r u)
  have c: "cquot v r = v div r" "0 \<le> v div r" using 1(2,3) by (simp_all add: cquot_def pos_imp_zdiv_nonneg_iff)
  show ?case
    using 1 c by (subst printf_itoa_loop.simps, subst itoa_loop.simps) (auto simp: Let_def simp del: fun_upd_apply)
qed

lemma printf_itoa_eq:
  assumes "0 \<le> sint v" and "2 \<le> r"
  shows "printf_itoa v r u un b zp m = mini_itoa v r u un b zp m"
proof -
  have "sint v < 2 ^ 63" using sint_lt [of v] by simp
  then have "uint v = sint v" using assms(1) unfolding uint_sint by (simp add: take_bit_int_eq_self)
  then have "printf_itoa_value v un = itoa_value v un" "0 \<le> snd (itoa_value v un)"
    using assms(1) by (simp_all add: printf_itoa_value_def itoa_value_def)
  then show ?thesis using assms(2) by (simp add: printf_itoa_def mini_itoa_def printf_itoa_loop_eq Let_def case_prod_unfold)
qed

definition small_args :: "'o slot list \<Rightarrow> bool" where
  "small_args va \<longleftrightarrow> list_all (\<lambda>a. case a of Num v \<Rightarrow> 0 \<le> sint v | Str p \<Rightarrow> True) va"

lemma va_num_small:
  assumes "va_num l va = Inr (v, va')" and "small_args va"
  shows "0 \<le> sint v" and "small_args va'"
proof -
  obtain w where w: "va = Num w # va'" "v = (if l then w else ucast (ucast w :: u32))"
    using assms(1) by (cases "(l, va)" rule: va_num.cases) auto
  have "0 \<le> sint (ucast (ucast w :: u32) :: u64)"
  proof -
    have "uint (ucast w :: u32) < 2 ^ LENGTH(32)" by (rule uint_lt2p)
    then show ?thesis unfolding sint_uint uint_widen by (subst signed_take_bit_int_eq_self) (simp_all add: order_trans [of _ 0])
  qed
  then show "0 \<le> sint v" "small_args va'" using assms(2) w by (simp_all add: small_args_def)
qed

lemma va_str_small: "va_str va = Inr (p, va') \<Longrightarrow> small_args va \<Longrightarrow> small_args va'"
  by (cases va rule: va_str.cases) (auto simp: small_args_def)

lemma printf_convert_eq:
  assumes "small_args va"
  shows "printf_convert bf zp l ch va b = convert bf zp l ch va b"
    and "convert bf zp l ch va b = Inr (Some (va', b')) \<Longrightarrow> small_args va'"
proof -
  have n: "printf_number bf v r u un zp b = put_number bf v r u un zp b" if "va_num l va = Inr (v, va1)" "2 \<le> r" for v va1 r u un
    by (simp add: printf_number_def put_number_def printf_itoa_eq [OF va_num_small(1) [OF that(1) assms] that(2)])
  show "printf_convert bf zp l ch va b = convert bf zp l ch va b"
  proof (cases "va_num l va")
    case (Inr r)
    then show ?thesis using n by (cases r) (simp add: printf_convert_def convert_def)
  qed (simp add: printf_convert_def convert_def)
  show "small_args va'" if "convert bf zp l ch va b = Inr (Some (va', b'))"
    using that assms va_num_small(2) [OF _ assms] va_str_small [OF _ assms]
    by (auto simp: convert_def res_eq_Inr split: if_splits option.splits)
qed

lemma printf_loop_eq: "small_args va \<Longrightarrow> printf_loop bf fmt va b = vsn_loop bf fmt va b"
proof (induction bf fmt va b rule: vsn_loop.induct)
  case (2 bf ch fmt va b)
  obtain zp l c rest where sc: "scan_directive fmt = (zp, l, c, rest)" by (metis prod_cases4)
  note eq = printf_convert_eq [OF "2.prems"]
  show ?case
  proof (cases "ch = 37 \<and> \<not> buffer_len b \<le> pbuffer b + 1")
    case True
    then have n: "\<not> buffer_len b \<le> pbuffer b + 1" "\<not> ch \<noteq> 37" by simp_all
    show ?thesis
    proof (cases "\<exists>va1 b1. convert bf zp l c va b = Inr (Some (va1, b1))")
      case True
      then obtain va1 b1 where cv: "convert bf zp l c va b = Inr (Some (va1, b1))" by blast
      have "printf_loop bf rest va1 b1 = vsn_loop bf rest va1 b1"
        by (rule "2.IH"(2) [OF n sc [symmetric] refl refl cv refl refl eq(2) [OF cv]])
      then show ?thesis using n by (simp add: sc eq(1) cv)
    next
      case False
      then show ?thesis using n by (simp add: sc eq(1) split: sum.split option.split)
    qed
  qed (use "2.IH"(1) "2.prems" in auto)
qed simp

lemma printf_text:
  assumes t: "render m fmt va = Some t" and va: "small_args va" "list_all (\<lambda>a. case a of Num v \<Rightarrow> True | Str p \<Rightarrow> fst p \<noteq> fst bf \<and> fst p \<noteq> fst buff) va"
    and bf: "fst bf \<noteq> fst buff"
  shows "\<exists>m'. printf addr bf buff fmt va m = Inr (min 255 (length t), m', [sys_write (addr buff), sys_reflush]) \<and>
    bytes_at m' buff (min 255 (length t)) = take 255 t \<and> m' (padd buff (min 255 (length t))) = 0"
proof -
  let ?b = "\<lparr>buffer = buff, pbuffer = 0, buffer_len = 256, pmem = m\<rparr>"
  have h: "holds ?b []" by (simp add: holds_def bytes_at_def)
  have a: "PrintkSpec.apart bf ?b va" unfolding PrintkSpec.apart_def mini_buff.select_convs using va(2) bf by simp
  obtain b' where b': "vsn_loop bf fmt va ?b = Inr b'" "holds b' (take 255 t)"
    using vsn_loop_text [OF t h a] by auto
  have "buffer b' = buff" using vsn_loop_inside [OF b'(1)] by (simp add: inside_def)
  then have hb: "pbuffer b' = length (take 255 t)" "bytes_at (pmem b') buff (length (take 255 t)) = take 255 t" using b'(2) by (simp_all add: holds_def)
  have l: "length (take 255 t) = min 255 (length t)" by (simp add: min.commute)
  let ?m = "(pmem b')(padd buff (min 255 (length t)) := 0)"
  have "bytes_at ?m buff (min 255 (length t)) = bytes_at (pmem b') buff (min 255 (length t))"
    by (rule bytes_at_cong) (metis fun_upd_other less_irrefl padd_inj)
  moreover have "printf addr bf buff fmt va m = Inr (min 255 (length t), ?m, [sys_write (addr buff), sys_reflush])"
    by (simp add: printf_def vprintf_def printf_vsnprintf_def printf_loop_eq [OF va(1)] b'(1) hb(1) [unfolded l])
  ultimately show ?thesis using hb(2) unfolding l by (intro exI [of _ ?m]) simp
qed

text \<open>
  Numbers from 2 to the 63 on: with \<open>%lu\<close> or \<open>%lx\<close> the library prints a single character, a zero or one of
  those in front of it, where \<open>printk\<close> prints the digits.
\<close>

lemma printf_long_wrong:
  assumes "sint v < 0" and "2 \<le> r" and "r \<le> 16"
  shows "\<exists>m'. printf_itoa v r u True b 0 m = (1, m') \<and> 32 < uint (m' b) \<and> uint (m' b) \<le> 48"
proof -
  let ?d = "- ((- sint v) mod r)"
  have d: "- r < ?d" "?d \<le> 0" using assms(2) pos_mod_bound [of r "- sint v"] pos_mod_sign [of r "- sint v"] by simp_all
  have q: "cquot (sint v) r \<le> 0" using assms(1,2) by (simp add: cquot_def pos_imp_zdiv_nonneg_iff)
  have c: "crem (sint v) r = ?d" using assms(1) by (simp add: crem_def)
  have lp: "printf_itoa_loop m b (sint v) r u = (m(b := digit_char u ?d), padd b 1)"
    using q by (subst printf_itoa_loop.simps) (simp add: c)
  have "printf_itoa v r u True b 0 m = (1, m(b := digit_char u ?d, padd b 1 := 0))"
    using assms(3) by (simp add: printf_itoa_def printf_itoa_value_def lp)
  moreover have "uint (digit_char u ?d) = 48 + ?d"
  proof -
    have "uint (of_int (48 + ?d) :: u8) = 48 + ?d" using d assms(3) by (simp only: uint_word_of_int) (simp add: take_bit_int_eq_self)
    then show ?thesis using d by (simp add: digit_char_def)
  qed
  moreover have "b \<noteq> padd b 1" by (cases b) simp
  ultimately show ?thesis using d assms(3) by simp
qed

section \<open>Properties\<close>

text \<open>
  C29: number conversion of the user library.  \<open>itoa\<close> of a number that is not negative, in a base from 2
  to 36 and with room for at least two characters, writes the number's digits and a zero byte when
  they fit and returns -1 otherwise, and writes nowhere else; \<open>atoi\<close> of the decimal text gives the
  number back.
\<close>

theorem itoa_atoi_roundtrip:
  fixes m :: "'o mem"
  assumes "2 \<le> base" and "base \<le> 36" and "0 \<le> num" and "num < 2 ^ 31" and "2 \<le> len"
  shows "\<exists>m'. itoa num str len base m = Inr (if int (length (itoa_text base num)) < len then 0 else - 1, m') \<and>
    (\<forall>q. fst q \<noteq> fst str \<or> snd q < snd str \<or> snd str + nat len \<le> snd q \<longrightarrow> m' q = m q) \<and>
    (int (length (itoa_text base num)) < len \<longrightarrow> cstr m' str (itoa_text base num) \<and>
      (base = 10 \<longrightarrow> atoi m' (Some str) = Some (of_int num)))"
proof -
  obtain m' where m': "itoa num str len base m = Inr (if int (length (itoa_text base num)) < len then 0 else - 1, m')"
    "int (length (itoa_text base num)) < len \<longrightarrow> cstr m' str (itoa_text base num)"
    "\<forall>q. fst q \<noteq> fst str \<or> snd q < snd str \<or> snd str + nat len \<le> snd q \<longrightarrow> m' q = m q"
    using itoa_ok [OF assms(1-3,5), of str m] by blast
  have "atoi m' (Some str) = Some (of_int num)" if "cstr m' str (itoa_text 10 num)"
  proof -
    have "atol m' (Some str) = Some (of_int num)"
      using atol_value [OF that] text_value_itoa [OF assms(3)] by simp
    moreover have "ucast (of_int num :: u64) = (of_int num :: u32)" by (rule bit_word_eqI) (simp add: bit_simps)
    ultimately show ?thesis by (simp add: atoi_def)
  qed
  then show ?thesis using m' by (intro exI [of _ m']) auto
qed

theorem itoa_atoi_roundtrip_witness:
  "\<exists>m'. itoa 407 (0 :: nat, 0) 11 10 (\<lambda>_. 7) = Inr (0, m') \<and> cstr m' (0, 0) [52, 48, 55] \<and> atoi m' (Some (0, 0)) = Some 407 \<and> m' (1, 0) = 7"
proof -
  have t: "itoa_text 10 407 = [52, 48, 55]"
    by (simp add: itoa_text_def digits_def digits_rev.simps [of 10 407] digits_rev.simps [of 10 40] digits_rev.simps [of 10 4] digit_char_def)
  show ?thesis using itoa_atoi_roundtrip [of 10 407 11 "(0, 0)" "\<lambda>_. 7"] by (auto simp: t)
qed

text \<open>
  C30: text to number.  For every text that does not begin with a blank, \<open>atol\<close> returns the number it
  stands for, decimal or hexadecimal, with its sign, and 0 for a text that is no number; with a
  blank in front it never returns, because the loop over the blanks does not advance.
\<close>

theorem atol_correct:
  assumes "cstr m p s"
  shows "atol m (Some p) = (if s \<noteq> [] \<and> isspace (hd s) then None else Some (of_int (text_value s)))"
proof (cases "s \<noteq> [] \<and> isspace (hd s)")
  case True
  then have "isspace (m p)" using assms by (cases s) simp_all
  then show ?thesis using True by (simp add: atol_def skip_blanks_hangs [of m p])
qed (use atol_value [OF assms] in auto)

theorem atol_correct_witness:
  "atol (\<lambda>q. if q = (0 :: nat, 0) then 45 else if q = (0, 1) then 48 else if q = (0, 2) then 120 else if q = (0, 3) then 102 else 0) (Some (0, 0)) = Some (- 15)"
proof -
  let ?m = "\<lambda>q. if q = (0 :: nat, 0) then 45 else if q = (0, 1) then 48 else if q = (0, 2) then 120 else if q = (0, 3) then 102 else 0 :: u8"
  have c: "cstr ?m (0, 0) [45, 48, 120, 102]" by simp
  have v: "text_value [45, 48, 120, 102] = - 15" "\<not> isspace 45"
    by (simp_all add: text_value_def unsigned_value_def digit_of_def isdigit_def read_digits_def isspace_def)
  show ?thesis using atol_correct [OF c] v by simp
qed

text \<open>
  C31: checksums.  \<open>adler32\<close> computes Adler-32 as RFC 1950 defines it: no intermediate sum overflows.
\<close>

theorem adler32_correct:
  "unat (adler32 m data len) = adler_B (bytes_at m data len) mod 65521 * 65536 + adler_A (bytes_at m data len) mod 65521"
  by (rule adler32_value)

text \<open>
  C28: formatted output of user programs.  When the arguments fit the format and no number is 2 to the
  63 or more, \<open>printf\<close> hands the reference text of the format, cut off after 255 characters, to
  \<open>sys_write\<close> and has it shown.
\<close>

theorem printf_prints:
  assumes "render m fmt va = Some t" and "small_args va"
    and "list_all (\<lambda>a. case a of Num v \<Rightarrow> True | Str p \<Rightarrow> fst p \<noteq> fst bf \<and> fst p \<noteq> fst buff) va" and "fst bf \<noteq> fst buff"
  shows "\<exists>m'. printf addr bf buff fmt va m = Inr (min 255 (length t), m', [sys_write (addr buff), sys_reflush]) \<and>
    bytes_at m' buff (min 255 (length t)) = take 255 t \<and> m' (padd buff (min 255 (length t))) = 0"
  by (rule printf_text [OF assms])

theorem printf_prints_witness:
  "\<exists>m'. printf (\<lambda>p. of_nat (snd p)) (0 :: nat, 0) (1, 0) [97, 37, 100] [Num 7] (\<lambda>_. 0) = Inr (2, m', [sys_write 0, sys_reflush]) \<and>
     bytes_at m' (1, 0) 2 = [97, 55]"
proof -
  have "number_of 0 100 (ucast (ucast (7 :: u64) :: u32)) = [55]"
    by (simp add: number_of_def number_text_def digits_def digits_rev.simps [of 10 7] digit_char_def)
  moreover have "itoa_plain (ucast (ucast (7 :: u64) :: u32)) False" using ucast_plain by (simp add: itoa_plain_def)
  ultimately have r: "render (\<lambda>_. 0) [97, 37, 100] [Num 7 :: nat slot] = Some [97, 55]"
    by (simp add: scan_directive_def directive_text.simps BF_SIZE_def)
  have s: "small_args [Num 7 :: nat slot]" by (simp add: small_args_def)
  show ?thesis using printf_prints [OF r s, of "(0, 0)" "(1, 0)" "\<lambda>p. of_nat (snd p)"] by (auto simp: numeral_2_eq_2)
qed

end
