(* ===== verification/Shell.thy ===== *)
theory Shell
  imports UserLib
begin

text \<open>
  The shell, \<open>test/shell.c\<close>: a line editor on a buffer of 80 bytes, the division of the line into words, the
  table of commands and their system calls.  What the shell does is the list of its calls of \<open>printf\<close>
  and of the system.  The words are the rows of the local array \<open>arg\<close>, which is a memory whose objects are
  the row numbers.
\<close>

section \<open>Commands\<close>

definition lit :: "string \<Rightarrow> u8 list" where
  "lit s = map of_char s"

datatype sarg = AInt u32 | AStr "u8 list" | AChar u8

datatype act = Printf "u8 list" "sarg list" | Sys usys

text \<open>
  What the shell depends on: the value that a system call yields, the address of \<open>arg[i]\<close> and that of
  \<open>argv[i]\<close>.
\<close>

record env =
  call_value :: "usys \<Rightarrow> u32"
  arg_addr :: "nat \<Rightarrow> u64"
  argv_addr :: "nat \<Rightarrow> u64"

definition BUFFER_LEN :: nat where "BUFFER_LEN = 80"
definition BASH_NUM :: nat where "BASH_NUM = 18"
definition SHELL_BEGIN :: u32 where "SHELL_BEGIN = 20"

definition bash_table :: "(u8 list \<times> nat) list" where
  "bash_table =
     [(lit ''exec'', 3), (lit ''wait'', 1), (lit ''kill'', 1), (lit ''exit'', 0), (lit ''clear'', 0), (lit ''ps'', 0),
      (lit ''taskset'', 3), (lit ''mkfs'', 0), (lit ''statfs'', 0), (lit ''ls'', 0), (lit ''mkdir'', 1), (lit ''rmdir'', 1),
      (lit ''cd'', 1), (lit ''touch'', 1), (lit ''cat'', 1), (lit ''rm'', 1), (lit ''ln'', 2)]"

text \<open>The string in row \<open>i\<close>.  \<open>strcmp\<close> is 0 exactly for equal strings.\<close>

definition row :: "nat mem \<Rightarrow> nat \<Rightarrow> u8 list" where
  "row arg i = takeWhile ((\<noteq>) 0) (bytes_at arg (i, 0) 16)"

definition atoi_row :: "nat mem \<Rightarrow> nat \<Rightarrow> u32 res" where
  "atoi_row arg i = (case atoi arg (Some (i, 0)) of None \<Rightarrow> Inl Hang | Some v \<Rightarrow> Inr v)"

definition shell_exec :: "env \<Rightarrow> nat \<Rightarrow> nat mem \<Rightarrow> act list" where
  "shell_exec E argc arg =
     (let background = (argc > 1 \<and> row arg argc = lit ''&'')
      in if background
         then (let c = sys_exec (arg_addr E 1) (of_nat (argc - 1)) (argv_addr E 1)
               in [Sys c, Printf (lit ''exec process[%d]'' @ [10]) [AInt (call_value E c)]])
         else (let c = sys_exec (arg_addr E 1) (of_nat argc) (argv_addr E 1)
               in [Sys c, Sys (sys_waitpid (call_value E c)), Printf (lit ''exec process[%d]'' @ [10]) [AInt (call_value E c)]]))"

definition not_found :: "u8 list" where
  "not_found = lit ''ERROR: process[%d] not found.'' @ [10]"

definition shell_waitpid :: "env \<Rightarrow> nat mem \<Rightarrow> act list res" where
  "shell_waitpid E arg =
     bindE (atoi_row arg 1) (\<lambda>pid.
       let c = sys_waitpid pid
       in Inr [Sys c, Printf (if call_value E c \<noteq> 0 then lit ''waiting for process[%d]'' @ [10] else not_found) [AInt pid]])"

definition shell_kill :: "env \<Rightarrow> nat mem \<Rightarrow> act list res" where
  "shell_kill E arg =
     bindE (atoi_row arg 1) (\<lambda>pid.
       let c = sys_kill pid
       in Inr [Sys c, Printf (if call_value E c \<noteq> 0 then lit ''kill process[%d]'' @ [10] else not_found) [AInt pid]])"

definition shell_taskset :: "env \<Rightarrow> nat \<Rightarrow> nat mem \<Rightarrow> act list res" where
  "shell_taskset E argc arg =
     (if row arg 1 = lit ''-p'' then
        (if argc \<noteq> 3 then Inr [Printf (lit ''wrong param numbers!!'' @ [10]) []]
         else bindE (atoi_row arg 2) (\<lambda>msk. bindE (atoi_row arg 3) (\<lambda>pid.
           Inr [Sys (sys_set_pid pid msk), Printf (lit ''taskset %s %s %s'' @ [10]) [AStr (row arg 1), AStr (row arg 2), AStr (row arg 3)]])))
      else bindE (atoi_row arg 1) (\<lambda>msk.
        Inr [Sys (sys_taskset (arg_addr E 2) (of_nat argc - 1) (argv_addr E 2) msk),
             Printf (lit ''taskset %s %s'' @ [10]) [AStr (row arg 1), AStr (row arg 2)]]))"

definition command_line :: "u8 list" where
  "command_line = lit ''------------------- COMMAND -------------------'' @ [10]"

definition shell_clear :: "act list" where
  "shell_clear = [Sys sys_screen_clear, Sys (sys_move_cursor 0 SHELL_BEGIN), Printf command_line []]"

definition shell_ls :: "env \<Rightarrow> nat \<Rightarrow> nat mem \<Rightarrow> act list" where
  "shell_ls E argc arg =
     (let fault = [Printf (lit ''Error: argument fault'' @ [10]) []]
      in if argc = 0 then [Sys (sys_ls (arg_addr E 1) 0)]
         else if argc = 1 then
           (if row arg 1 = lit ''-l'' then [Sys (sys_ls (arg_addr E 1) 2)]
            else if arg (1, 0) \<noteq> 45 then [Sys (sys_ls (arg_addr E 1) 1)]
            else fault)
         else if argc = 2 then
           (if row arg 1 = lit ''-l'' \<and> arg (2, 0) \<noteq> 45 then [Sys (sys_ls (arg_addr E 2) 3)] else fault)
         else fault)"

definition shell_cd :: "env \<Rightarrow> nat mem \<Rightarrow> act list" where
  "shell_cd E arg =
     (if arg_addr E 1 \<noteq> 0 \<and> arg (1, 0) \<noteq> 0 then [Sys (sys_cd (arg_addr E 1))]
      else [Printf (lit ''Error: please input path'' @ [10]) []])"

definition no_support :: "u8 list" where
  "no_support = lit ''so'' @ lit ''rry, no support for %s inst now'' @ [10]"

text \<open>The \<open>switch\<close> of \<open>shell_parse\<close>; the commands without a case of their own are single system calls.\<close>

definition run_cmd :: "env \<Rightarrow> nat \<Rightarrow> nat \<Rightarrow> nat mem \<Rightarrow> act list res" where
  "run_cmd E cmd_id argc arg =
     (if cmd_id = 0 then Inr (shell_exec E argc arg)
      else if cmd_id = 1 then shell_waitpid E arg
      else if cmd_id = 2 then shell_kill E arg
      else if cmd_id = 3 then Inr [Sys sys_exit]
      else if cmd_id = 4 then Inr shell_clear
      else if cmd_id = 5 then Inr [Sys sys_ps]
      else if cmd_id = 6 then shell_taskset E argc arg
      else if cmd_id = 7 then Inr [Sys sys_mkfs]
      else if cmd_id = 8 then Inr [Sys sys_statfs]
      else if cmd_id = 9 then Inr (shell_ls E argc arg)
      else if cmd_id = 10 then Inr [Sys (sys_mkdir (arg_addr E 1))]
      else if cmd_id = 11 then Inr [Sys (sys_rmdir (arg_addr E 1))]
      else if cmd_id = 12 then Inr (shell_cd E arg)
      else if cmd_id = 13 then Inr [Sys (sys_touch (arg_addr E 1))]
      else if cmd_id = 14 then Inr [Sys (sys_cat (arg_addr E 1))]
      else if cmd_id = 15 then Inr [Sys (sys_rm (arg_addr E 1))]
      else if cmd_id = 16 then Inr [Sys (sys_ln (arg_addr E 1) (arg_addr E 2))]
      else Inr [Printf no_support [AStr (row arg 0)]])"

section \<open>Parsing\<close>

text \<open>The loop over the table, which has one entry less than \<open>BASH_NUM\<close> says.\<close>

fun cmd_loop :: "u8 list \<Rightarrow> nat \<Rightarrow> nat \<Rightarrow> int res" where
  "cmd_loop sh_name 0 i = Inr (- 1)"
| "cmd_loop sh_name (Suc n) i =
     guardE (i < length bash_table)
       (if sh_name = fst (bash_table ! i) then Inr (int i) else cmd_loop sh_name n (Suc i))"

definition get_cmd_id :: "u8 list \<Rightarrow> int res" where
  "get_cmd_id sh_name = cmd_loop sh_name BASH_NUM 0"

fun split_args :: "u8 list \<Rightarrow> nat \<Rightarrow> nat \<Rightarrow> nat mem \<Rightarrow> (nat \<times> nat mem) res" where
  "split_args [] i k arg = guardE (i < 6 \<and> k < 16) (Inr (i, arg((i, k) := 0)))"
| "split_args (c # cs) i k arg =
     guardE (i < 6 \<and> k < 16)
       (if c \<noteq> 32 then split_args cs i (Suc k) (arg((i, k) := c))
        else split_args cs (Suc i) 0 (arg((i, k) := 0)))"

definition prompt :: act where
  "prompt = Printf (lit ''> root@UCAS_OS: '') []"

text \<open>
  \<open>sys_exit\<close> does not return: a command that ends with it is the last thing that the shell does.  The flag
  says whether \<open>shell_parse\<close> returns.
\<close>

definition exits :: "act list \<Rightarrow> bool" where
  "exits acts \<longleftrightarrow> acts \<noteq> [] \<and> last acts = Sys sys_exit"

definition shell_parse :: "env \<Rightarrow> u8 list \<Rightarrow> (act list \<times> bool) res" where
  "shell_parse E line =
     bindE (split_args line 0 0 (\<lambda>_. 0)) (\<lambda>(i, arg).
     bindE (get_cmd_id (row arg 0)) (\<lambda>cmd_id.
       if cmd_id < 0 then Inr ([Printf (lit ''ERROR: unknown command %s'' @ [10]) [AStr (row arg 0)], prompt], True)
       else if snd (bash_table ! nat cmd_id) \<noteq> i \<and> cmd_id \<noteq> 0 \<and> cmd_id \<noteq> 6 \<and> cmd_id \<noteq> 9
       then Inr ([Printf (lit ''ERROR: unmatched parameters %s'' @ [10]) [AStr (row arg 0)], prompt], True)
       else bindE (run_cmd E (nat cmd_id) i arg) (\<lambda>acts.
              if exits acts then Inr (acts, False) else Inr (acts @ [prompt], True))))"

section \<open>The line editor\<close>

datatype char_mode_t = ENTER | DELETE | LEGAL | IILLEGAL

definition char_parse :: "u8 \<Rightarrow> char_mode_t" where
  "char_parse c =
     (if c = 13 \<or> c = 10 then ENTER
      else if c = 8 \<or> c = 127 then DELETE
      else if c > 31 \<and> c < 127 then LEGAL
      else IILLEGAL)"

record shell =
  line_buffer :: "u8 list"
  line_index :: nat

definition shell_start :: shell where
  "shell_start = \<lparr>line_buffer = replicate BUFFER_LEN 0, line_index = 0\<rparr>"

text \<open>What \<open>main\<close> prints in front of its loop.\<close>

definition shell_banner :: "act list" where
  "shell_banner = [Sys (sys_move_cursor 0 SHELL_BEGIN), Printf command_line [], prompt]"

text \<open>One turn of the loop of \<open>main\<close>; there is no state afterwards when the shell has exited.\<close>

definition shell_key :: "env \<Rightarrow> u8 \<Rightarrow> shell \<Rightarrow> (shell option \<times> act list) res" where
  "shell_key E c s =
     (case char_parse c of
        ENTER \<Rightarrow>
          guardE (line_index s < BUFFER_LEN)
            (let buf = (line_buffer s)[line_index s := 0]
             in bindE (shell_parse E (takeWhile ((\<noteq>) 0) buf)) (\<lambda>(acts, returns).
                  Inr (if returns then Some \<lparr>line_buffer = replicate (line_index s) 0 @ drop (line_index s) buf, line_index = 0\<rparr> else None,
                       Printf [10] [] # acts)))
      | DELETE \<Rightarrow>
          if line_index s \<noteq> 0
          then Inr (Some \<lparr>line_buffer = (line_buffer s)[line_index s - 1 := 0], line_index = line_index s - 1\<rparr>, [Printf [8] []])
          else Inr (Some s, [])
      | LEGAL \<Rightarrow>
          guardE (line_index s < BUFFER_LEN)
            (Inr (Some \<lparr>line_buffer = (line_buffer s)[line_index s := c], line_index = Suc (line_index s)\<rparr>, [Printf (lit ''%c'') [AChar c]]))
      | IILLEGAL \<Rightarrow> Inr (Some s, []))"

fun shell_keys :: "env \<Rightarrow> u8 list \<Rightarrow> shell option \<Rightarrow> (shell option \<times> act list) res" where
  "shell_keys E cs None = Inr (None, [])"
| "shell_keys E [] (Some s) = Inr (Some s, [])"
| "shell_keys E (c # cs) (Some s) =
     bindE (shell_key E c s) (\<lambda>(s, acts). bindE (shell_keys E cs s) (\<lambda>(s, acts'). Inr (s, acts @ acts')))"

section \<open>Words\<close>

text \<open>The words of a line, and the rows of \<open>arg\<close> that hold them.\<close>

fun join :: "u8 list list \<Rightarrow> u8 list" where
  "join [] = []"
| "join [w] = w"
| "join (w # ws) = w @ 32 # join ws"

definition word_ok :: "u8 list \<Rightarrow> bool" where
  "word_ok w \<longleftrightarrow> length w < 16 \<and> (\<forall>c\<in>set w. 32 < c \<and> c < 127)"

lemma word_okD: "word_ok w \<Longrightarrow> length w < 16 \<and> 32 \<notin> set w \<and> 0 \<notin> set w"
  by (auto simp: word_ok_def)

definition rows_from :: "nat \<Rightarrow> u8 list list \<Rightarrow> nat mem \<Rightarrow> nat mem" where
  "rows_from n ws arg = (\<lambda>(i, k).
     if n \<le> i \<and> i < n + length ws \<and> k < length (ws ! (i - n)) then (ws ! (i - n)) ! k else arg (i, k))"

definition rows :: "u8 list list \<Rightarrow> nat mem" where
  "rows ws = rows_from 0 ws (\<lambda>_. 0)"

lemma split_word:
  assumes "32 \<notin> set w" and "k + length w < 16" and "i < 6"
  shows "split_args (w @ cs) i k arg = split_args cs i (k + length w) (put_bytes arg (i, k) w)"
  using assms
proof (induction w arbitrary: k arg)
  case (Cons c w)
  have "split_args (w @ cs) i (Suc k) (arg((i, k) := c)) = split_args cs i (Suc k + length w) (put_bytes (arg((i, k) := c)) (i, Suc k) w)"
    by (rule Cons.IH) (use Cons.prems in simp_all)
  then show ?case using Cons.prems by simp
qed simp

lemma put_bytes_row: "put_bytes arg (i, 0) w = (\<lambda>(j, k). if j = i \<and> k < length w then w ! k else arg (j, k))"
  by (rule ext) (auto simp: put_bytes_closed)

lemma rows_from_Cons: "rows_from i (w # ws) arg = rows_from (Suc i) ws (put_bytes arg (i, 0) w)"
proof (rule ext)
  fix q :: "nat \<times> nat"
  obtain j k where q: "q = (j, k)" by (cases q)
  have "j - i = Suc (j - Suc i)" if "Suc i \<le> j" using that by simp
  then show "rows_from i (w # ws) arg q = rows_from (Suc i) ws (put_bytes arg (i, 0) w) q"
    unfolding q rows_from_def put_bytes_row by (cases "j = i") (auto simp: nth_Cons')
qed

lemma zero_end: "(\<And>k. arg (i, k) = 0) \<Longrightarrow> (put_bytes arg (i, 0) w)((i, length w) := 0) = put_bytes arg (i, 0) w"
  unfolding put_bytes_row by (rule ext) auto

lemma split_words:
  assumes "ws \<noteq> []" and "i + length ws \<le> 6" and "\<forall>w\<in>set ws. word_ok w" and "\<And>j k. i \<le> j \<Longrightarrow> arg (j, k) = 0"
  shows "split_args (join ws) i 0 arg = Inr (i + length ws - 1, rows_from i ws arg)"
  using assms
proof (induction ws arbitrary: i arg rule: join.induct)
  case (2 w)
  have "split_args (w @ []) i 0 arg = split_args [] i (0 + length w) (put_bytes arg (i, 0) w)"
    by (rule split_word) (use 2 in \<open>simp_all add: word_okD\<close>)
  moreover have "rows_from i [w] arg = put_bytes arg (i, 0) w" unfolding rows_from_Cons by (rule ext) (auto simp: rows_from_def split: prod.split)
  ultimately show ?case using 2 zero_end [of arg i w] by (simp add: word_okD del: fun_upd_apply)
next
  case (3 w v ws)
  have s: "split_args (w @ 32 # join (v # ws)) i 0 arg = split_args (32 # join (v # ws)) i (0 + length w) (put_bytes arg (i, 0) w)"
    by (rule split_word) (use 3(4,3) in \<open>simp_all add: word_okD\<close>)
  have "split_args (join (v # ws)) (Suc i) 0 (put_bytes arg (i, 0) w) =
      Inr (Suc i + length (v # ws) - 1, rows_from (Suc i) (v # ws) (put_bytes arg (i, 0) w))"
    by (rule 3(1)) (use 3(3-5) in \<open>simp_all add: put_bytes_row\<close>)
  then show ?case using s zero_end [of arg i w] 3(3-5)
    by (simp add: word_okD rows_from_Cons [of i w] del: fun_upd_apply)
qed simp

text \<open>Word \<open>i\<close>, empty when there are not so many.\<close>

definition word :: "u8 list list \<Rightarrow> nat \<Rightarrow> u8 list" where
  "word ws i = (if i < length ws then ws ! i else [])"

lemma word_word_ok: "\<forall>w\<in>set ws. word_ok w \<Longrightarrow> word_ok (word ws i)"
  by (auto simp: word_def word_ok_def)

lemma rows_word: "rows ws (i, k) = (if k < length (word ws i) then word ws i ! k else 0)"
  by (auto simp: rows_def rows_from_def word_def)

lemma cstr_rows:
  assumes "\<forall>w\<in>set ws. word_ok w"
  shows "cstr (rows ws) (i, 0) (word ws i)"
proof -
  have "word ws i ! k \<noteq> 0" if "k < length (word ws i)" for k
    using word_okD [OF word_word_ok [OF assms]] nth_mem [OF that] by metis
  then show ?thesis by (simp add: cstr_iff rows_word)
qed

lemma row_rows:
  assumes "\<forall>w\<in>set ws. word_ok w"
  shows "row (rows ws) i = word ws i"
proof -
  let ?w = "word ws i"
  note ok = word_okD [OF word_word_ok [OF assms], of i]
  have "bytes_at (rows ws) (i, 0) 16 = ?w @ replicate (16 - length ?w) 0"
    by (rule nth_equalityI) (use ok in \<open>auto simp: nth_bytes_at rows_word nth_append\<close>)
  moreover have "takeWhile ((\<noteq>) 0) (?w @ zs) = ?w @ takeWhile ((\<noteq>) 0) zs" for zs
    using ok by (intro takeWhile_append2) auto
  ultimately show ?thesis using ok by (simp add: row_def takeWhile_replicate)
qed

lemma split_long:
  "32 \<notin> set w \<Longrightarrow> k \<le> 16 \<Longrightarrow> 16 \<le> k + length w \<Longrightarrow> split_args (w @ cs) i k arg = Inl Fault"
proof (induction w arbitrary: k arg)
  case Nil
  then show ?case by (cases cs) (simp_all add: guardE_def)
next
  case (Cons c w)
  then show ?case by (cases "k = 16") (auto simp: guardE_def)
qed

section \<open>The command\<close>

lemma table_distinct: "distinct (map fst bash_table)" "length bash_table = 17"
  by (simp_all add: bash_table_def lit_def)

lemma cmd_loop_found:
  "c < length bash_table \<Longrightarrow> i \<le> c \<Longrightarrow> c - i < n \<Longrightarrow> cmd_loop (fst (bash_table ! c)) n i = Inr (int c)"
proof (induction n arbitrary: i)
  case (Suc n)
  show ?case
  proof (cases "i = c")
    case True
    then show ?thesis using Suc.prems by simp
  next
    case False
    have "fst (bash_table ! c) \<noteq> fst (bash_table ! i)"
      using table_distinct(1) Suc.prems False by (simp add: distinct_conv_nth)
    then show ?thesis using Suc False by simp
  qed
qed simp

lemma get_cmd_id_found: "c < 17 \<Longrightarrow> get_cmd_id (fst (bash_table ! c)) = Inr (int c)"
  unfolding get_cmd_id_def by (rule cmd_loop_found) (simp_all add: table_distinct BASH_NUM_def)

lemma cmd_loop_unknown:
  "name \<notin> fst ` set bash_table \<Longrightarrow> length bash_table < i + n \<Longrightarrow> i \<le> length bash_table \<Longrightarrow> cmd_loop name n i = Inl Fault"
proof (induction n arbitrary: i)
  case (Suc n)
  show ?case
  proof (cases "i < length bash_table")
    case True
    then have "name \<noteq> fst (bash_table ! i)" using Suc.prems(1) by (metis image_eqI nth_mem)
    then show ?thesis using Suc True by simp
  qed (simp add: guardE_def)
qed simp

lemma get_cmd_id_unknown: "name \<notin> fst ` set bash_table \<Longrightarrow> get_cmd_id name = Inl Fault"
  unfolding get_cmd_id_def by (rule cmd_loop_unknown) (simp_all add: table_distinct BASH_NUM_def)

section \<open>The edited line\<close>

text \<open>
  The state of the shell in which \<open>line\<close> has been typed; what one key makes of the line, and its echo: a
  printable character is appended, backspace (8) and delete (127) take the last one away, and other
  keys do nothing.
\<close>

definition shell_of :: "u8 list \<Rightarrow> shell" where
  "shell_of line = \<lparr>line_buffer = line @ replicate (BUFFER_LEN - length line) 0, line_index = length line\<rparr>"

definition printable :: "u8 \<Rightarrow> bool" where
  "printable c \<longleftrightarrow> 31 < c \<and> c < 127"

definition edit :: "u8 list \<Rightarrow> u8 \<Rightarrow> u8 list" where
  "edit line c = (if printable c then line @ [c] else if c = 8 \<or> c = 127 then butlast line else line)"

definition echo :: "u8 list \<Rightarrow> u8 \<Rightarrow> act list" where
  "echo line c =
     (if printable c then [Printf (lit ''%c'') [AChar c]] else if (c = 8 \<or> c = 127) \<and> line \<noteq> [] then [Printf [8] []] else [])"

lemma char_parse_keys:
  "char_parse c = ENTER \<longleftrightarrow> c = 13 \<or> c = 10" "char_parse c = LEGAL \<longleftrightarrow> printable c" "char_parse c = DELETE \<longleftrightarrow> c = 8 \<or> c = 127"
  by (auto simp: char_parse_def printable_def)

lemma not_printable [simp]: "\<not> printable 8" "\<not> printable 127" "\<not> printable 13" "\<not> printable 10"
  by (simp_all add: printable_def)

fun echoes :: "u8 list \<Rightarrow> u8 list \<Rightarrow> act list" where
  "echoes line [] = []"
| "echoes line (c # cs) = echo line c @ echoes (edit line c) cs"

text \<open>All keys but Enter, and the line never fills the buffer.\<close>

fun fits :: "u8 list \<Rightarrow> u8 list \<Rightarrow> bool" where
  "fits line [] = (length line < 80)"
| "fits line (c # cs) = (length line < 80 \<and> c \<noteq> 13 \<and> c \<noteq> 10 \<and> fits (edit line c) cs)"

lemma start_empty: "shell_start = shell_of []"
  by (simp add: shell_start_def shell_of_def)

lemma shell_key_edit:
  assumes "length line < 80" and "c \<noteq> 13" "c \<noteq> 10"
  shows "shell_key E c (shell_of line) = Inr (Some (shell_of (edit line c)), echo line c)"
proof (cases "char_parse c")
  case ENTER
  then show ?thesis using assms(2,3) by (simp add: char_parse_keys)
next
  case DELETE
  then have c: "c = 8 \<or> c = 127" "\<not> printable c" by (auto simp: char_parse_keys)
  show ?thesis
  proof (cases line rule: rev_cases)
    case (snoc xs x)
    have "BUFFER_LEN - length xs = Suc (BUFFER_LEN - length line)" using assms(1) snoc by (simp add: BUFFER_LEN_def)
    then show ?thesis using DELETE c snoc by (simp add: shell_key_def shell_of_def edit_def echo_def list_update_append)
  qed (use c in \<open>simp add: shell_key_def shell_of_def edit_def echo_def DELETE\<close>)
next
  case LEGAL
  then have c: "printable c" by (simp add: char_parse_keys)
  have "BUFFER_LEN - length line = Suc (BUFFER_LEN - Suc (length line))" "length line < BUFFER_LEN" using assms(1) by (simp_all add: BUFFER_LEN_def)
  then show ?thesis using LEGAL c by (simp add: shell_key_def shell_of_def edit_def echo_def list_update_append)
next
  case IILLEGAL
  then have "\<not> printable c" "c \<noteq> 8" "c \<noteq> 127" using char_parse_keys [of c] by auto
  then show ?thesis by (simp add: shell_key_def edit_def echo_def IILLEGAL)
qed

lemma shell_keys_append:
  "shell_keys E (xs @ ys) s = bindE (shell_keys E xs s) (\<lambda>(s, acts). bindE (shell_keys E ys s) (\<lambda>(s, acts'). Inr (s, acts @ acts')))"
proof (induction xs arbitrary: s)
  case Nil
  show ?case by (cases s) (auto simp: bindE_def split: sum.split)
next
  case (Cons c cs)
  then show ?case by (cases s) (auto simp: bindE_def split: sum.split prod.split)
qed

lemma shell_keys_edit:
  "fits line cs \<Longrightarrow> shell_keys E cs (Some (shell_of line)) = Inr (Some (shell_of (foldl edit line cs)), echoes line cs)"
  by (induction cs arbitrary: line) (simp_all add: shell_key_edit)

lemma fits_length: "fits line cs \<Longrightarrow> length (foldl edit line cs) < 80"
  by (induction cs arbitrary: line) simp_all

lemma edit_nonzero: "0 \<notin> set line \<Longrightarrow> 0 \<notin> set (foldl edit line cs)"
proof (induction cs arbitrary: line)
  case (Cons c cs)
  have "c \<noteq> 0" if "printable c" using that by (auto simp: printable_def)
  then have "0 \<notin> set (edit line c)" using Cons.prems by (auto simp: edit_def dest: in_set_butlastD)
  then show ?case using Cons.IH by simp
qed simp

lemma shell_enter:
  assumes "length line < 80" and "0 \<notin> set line" and "c = 13 \<or> c = 10" and "shell_parse E line = Inr (acts, ret)"
  shows "shell_key E c (shell_of line) = Inr (if ret then Some shell_start else None, Printf [10] [] # acts)"
proof -
  have l: "length line < BUFFER_LEN" using assms(1) by (simp add: BUFFER_LEN_def)
  then have n: "BUFFER_LEN - length line = Suc (BUFFER_LEN - Suc (length line))" by simp
  have buf: "(line @ replicate (BUFFER_LEN - length line) 0)[length line := 0] = line @ replicate (BUFFER_LEN - length line) 0"
    by (simp add: n list_update_append)
  have "takeWhile (\<lambda>y. y \<noteq> 0) (line @ zs) = line @ takeWhile (\<lambda>y. y \<noteq> 0) zs" for zs using assms(2) by (intro takeWhile_append2) auto
  then have tw: "takeWhile (\<lambda>y. y \<noteq> 0) (line @ replicate k 0) = line" for k by (simp add: takeWhile_replicate)
  have r: "replicate (length line) 0 @ replicate (BUFFER_LEN - length line) 0 = replicate BUFFER_LEN (0 :: u8)"
    using l by (simp flip: replicate_add)
  have "char_parse c = ENTER" using assms(3) by (simp add: char_parse_keys)
  then show ?thesis using l assms(4)
    by (simp add: shell_key_def shell_of_def buf tw r shell_start_def)
qed

lemma shell_parse_words:
  assumes "ws \<noteq> []" and "length ws \<le> 6" and "\<forall>w\<in>set ws. word_ok w"
  shows "shell_parse E (join ws) =
    bindE (get_cmd_id (hd ws)) (\<lambda>c.
      if c < 0 then Inr ([Printf (lit ''ERROR: unknown command %s'' @ [10]) [AStr (hd ws)], prompt], True)
      else if snd (bash_table ! nat c) \<noteq> length ws - 1 \<and> c \<noteq> 0 \<and> c \<noteq> 6 \<and> c \<noteq> 9
      then Inr ([Printf (lit ''ERROR: unmatched parameters %s'' @ [10]) [AStr (hd ws)], prompt], True)
      else bindE (run_cmd E (nat c) (length ws - 1) (rows ws)) (\<lambda>acts.
             if exits acts then Inr (acts, False) else Inr (acts @ [prompt], True)))"
proof -
  have s: "split_args (join ws) 0 0 (\<lambda>_. 0) = Inr (length ws - 1, rows ws)"
    using split_words [of ws 0 "\<lambda>_. 0"] assms by (simp add: rows_def)
  have r: "row (rows ws) 0 = hd ws" using row_rows [OF assms(3), of 0] assms(1) by (simp add: word_def hd_conv_nth)
  show ?thesis unfolding shell_parse_def s bindE_Inr prod.case r ..
qed

section \<open>Overruns\<close>

text \<open>
  Where the shell overruns its memory.  A line of 80 characters makes the next key, or Enter, write
  behind the buffer; a word of 16 characters writes behind its row; and every command that is not in
  the table makes \<open>get_cmd_id\<close> read behind the table, so the message for unknown commands is never
  reached.
\<close>

lemma shell_overruns:
  "(length line = 80 \<and> (char_parse c = LEGAL \<or> char_parse c = ENTER) \<longrightarrow> shell_key E c (shell_of line) = Inl Fault) \<and>
   (32 \<notin> set w \<and> 16 \<le> length w \<longrightarrow> shell_parse E (w @ tail) = Inl Fault) \<and>
   (ws \<noteq> [] \<and> length ws \<le> 6 \<and> (\<forall>w\<in>set ws. word_ok w) \<and> hd ws \<notin> fst ` set bash_table \<longrightarrow> shell_parse E (join ws) = Inl Fault)"
proof (intro conjI impI)
  assume "length line = 80 \<and> (char_parse c = LEGAL \<or> char_parse c = ENTER)"
  then show "shell_key E c (shell_of line) = Inl Fault" by (auto simp: shell_key_def shell_of_def BUFFER_LEN_def guardE_def)
next
  assume "32 \<notin> set w \<and> 16 \<le> length w"
  then show "shell_parse E (w @ tail) = Inl Fault" using split_long [of w 0 tail 0] by (simp add: shell_parse_def)
next
  assume "ws \<noteq> [] \<and> length ws \<le> 6 \<and> (\<forall>w\<in>set ws. word_ok w) \<and> hd ws \<notin> fst ` set bash_table"
  then show "shell_parse E (join ws) = Inl Fault" by (simp add: shell_parse_words get_cmd_id_unknown)
qed

section \<open>The commands\<close>

text \<open>
  What every command is to do, by its name: how many parameters it takes, and the calls for a
  line of words.  \<open>argument E i\<close> is the user address of word \<open>i\<close>, \<open>number\<close> the value of a word.
\<close>

definition number :: "u8 list \<Rightarrow> u32" where
  "number w = of_int (text_value w)"

definition answer :: "env \<Rightarrow> usys \<Rightarrow> string \<Rightarrow> u32 \<Rightarrow> act list" where
  "answer E call good n =
     [Sys call, Printf (lit (if call_value E call \<noteq> 0 then good else ''ERROR: process[%d] not found.'') @ [10]) [AInt n]]"

definition exec_acts :: "env \<Rightarrow> u8 list list \<Rightarrow> act list" where
  "exec_acts E ws =
     (let n = length ws - 1; started = (\<lambda>call. Printf (lit ''exec process[%d]'' @ [10]) [AInt (call_value E call)])
      in if 2 \<le> n \<and> last ws = lit ''&''
         then (let call = sys_exec (arg_addr E 1) (of_nat (n - 1)) (argv_addr E 1) in [Sys call, started call])
         else (let call = sys_exec (arg_addr E 1) (of_nat n) (argv_addr E 1)
               in [Sys call, Sys (sys_waitpid (call_value E call)), started call]))"

definition taskset_acts :: "env \<Rightarrow> u8 list list \<Rightarrow> act list" where
  "taskset_acts E ws =
     (if word ws 1 = lit ''-p'' then
        (if length ws = 4
         then [Sys (sys_set_pid (number (word ws 3)) (number (word ws 2))),
               Printf (lit ''taskset %s %s %s'' @ [10]) [AStr (word ws 1), AStr (word ws 2), AStr (word ws 3)]]
         else [Printf (lit ''wrong param numbers!!'' @ [10]) []])
      else [Sys (sys_taskset (arg_addr E 2) (of_nat (length ws - 1) - 1) (argv_addr E 2) (number (word ws 1))),
            Printf (lit ''taskset %s %s'' @ [10]) [AStr (word ws 1), AStr (word ws 2)]])"

definition ls_acts :: "env \<Rightarrow> u8 list list \<Rightarrow> act list" where
  "ls_acts E ws =
     (case tl ws of
        [] \<Rightarrow> [Sys (sys_ls (arg_addr E 1) 0)]
      | [a] \<Rightarrow> if a = lit ''-l'' then [Sys (sys_ls (arg_addr E 1) 2)]
               else if take 1 a = lit ''-'' then [Printf (lit ''Error: argument fault'' @ [10]) []]
               else [Sys (sys_ls (arg_addr E 1) 1)]
      | [a, b] \<Rightarrow> if a = lit ''-l'' \<and> take 1 b \<noteq> lit ''-'' then [Sys (sys_ls (arg_addr E 2) 3)]
                  else [Printf (lit ''Error: argument fault'' @ [10]) []]
      | _ \<Rightarrow> [Printf (lit ''Error: argument fault'' @ [10]) []])"

definition commands :: "env \<Rightarrow> (u8 list \<times> nat option \<times> (u8 list list \<Rightarrow> act list)) list" where
  "commands E =
     [(lit ''exec'', None, exec_acts E),
      (lit ''wait'', Some 1, \<lambda>ws. let n = number (word ws 1) in answer E (sys_waitpid n) ''waiting for process[%d]'' n),
      (lit ''kill'', Some 1, \<lambda>ws. let n = number (word ws 1) in answer E (sys_kill n) ''kill process[%d]'' n),
      (lit ''exit'', Some 0, \<lambda>_. [Sys sys_exit]),
      (lit ''clear'', Some 0, \<lambda>_. [Sys sys_screen_clear, Sys (sys_move_cursor 0 20),
         Printf (lit ''------------------- COMMAND -------------------'' @ [10]) []]),
      (lit ''ps'', Some 0, \<lambda>_. [Sys sys_ps]),
      (lit ''taskset'', None, taskset_acts E),
      (lit ''mkfs'', Some 0, \<lambda>_. [Sys sys_mkfs]),
      (lit ''statfs'', Some 0, \<lambda>_. [Sys sys_statfs]),
      (lit ''ls'', None, ls_acts E),
      (lit ''mkdir'', Some 1, \<lambda>_. [Sys (sys_mkdir (arg_addr E 1))]),
      (lit ''rmdir'', Some 1, \<lambda>_. [Sys (sys_rmdir (arg_addr E 1))]),
      (lit ''cd'', Some 1, \<lambda>ws. if word ws 1 = [] then [Printf (lit ''Error: please input path'' @ [10]) []] else [Sys (sys_cd (arg_addr E 1))]),
      (lit ''touch'', Some 1, \<lambda>_. [Sys (sys_touch (arg_addr E 1))]),
      (lit ''cat'', Some 1, \<lambda>_. [Sys (sys_cat (arg_addr E 1))]),
      (lit ''rm'', Some 1, \<lambda>_. [Sys (sys_rm (arg_addr E 1))]),
      (lit ''ln'', Some 2, \<lambda>_. [Sys (sys_ln (arg_addr E 1) (arg_addr E 2))])]"

definition meaning :: "env \<Rightarrow> u8 list list \<Rightarrow> act list option" where
  "meaning E ws =
     (case map_of (commands E) (hd ws) of
        Some (arity, f) \<Rightarrow> if arity = None \<or> arity = Some (length ws - 1) then Some (f ws) else None
      | None \<Rightarrow> None)"

lemma atoi_rows:
  assumes "\<forall>w\<in>set ws. word_ok w"
  shows "atoi_row (rows ws) i = Inr (number (word ws i))"
proof -
  have "word ws i = [] \<or> \<not> isspace (hd (word ws i))"
    using word_word_ok [OF assms, of i] by (cases "word ws i") (auto simp: word_ok_def isspace_def)
  from atol_value [OF cstr_rows [OF assms] this]
  have "atol (rows ws) (Some (i, 0)) = Some (of_int (text_value (word ws i)))" .
  moreover have "ucast (of_int v :: u64) = (of_int v :: u32)" for v by (rule bit_word_eqI) (simp add: bit_simps)
  ultimately show ?thesis by (simp add: atoi_row_def atoi_def number_def)
qed

lemma first_char: "rows ws (i, 0) = (case word ws i of [] \<Rightarrow> 0 | c # _ \<Rightarrow> c)"
  by (simp add: rows_word split: list.split)

lemma exec_ok:
  assumes "ws \<noteq> []" and "\<forall>w\<in>set ws. word_ok w"
  shows "shell_exec E (length ws - 1) (rows ws) = exec_acts E ws"
proof -
  have "word ws (length ws - 1) = last ws" using assms(1) by (simp add: word_def last_conv_nth)
  then show ?thesis by (simp add: shell_exec_def exec_acts_def row_rows [OF assms(2)] Let_def numeral_2_eq_2 Suc_le_eq)
qed

lemma taskset_ok:
  assumes "ws \<noteq> []" and "\<forall>w\<in>set ws. word_ok w"
  shows "shell_taskset E (length ws - 1) (rows ws) = Inr (taskset_acts E ws)"
proof -
  have "length ws - 1 = 3 \<longleftrightarrow> length ws = 4" by auto
  then show ?thesis by (simp add: shell_taskset_def taskset_acts_def row_rows [OF assms(2)] atoi_rows [OF assms(2)])
qed

lemma minus_first: "(case w of [] \<Rightarrow> 0 | c # _ \<Rightarrow> c) = (45 :: u8) \<longleftrightarrow> take 1 w = lit ''-''"
  by (cases w) (simp_all add: lit_def)

lemma ls_ok:
  assumes "ws \<noteq> []" and "\<forall>w\<in>set ws. word_ok w"
  shows "shell_ls E (length ws - 1) (rows ws) = ls_acts E ws"
proof -
  obtain c as where ws: "ws = c # as" using assms(1) by (cases ws) simp_all
  show ?thesis
    unfolding shell_ls_def row_rows [OF assms(2)] first_char minus_first
    by (cases as; cases "tl as"; cases "tl (tl as)") (simp_all add: ws ls_acts_def word_def lit_def Let_def)
qed

text \<open>The table of the shell, its parameter numbers and its \<open>switch\<close> together do what the table of commands says.\<close>

lemma command_ok:
  assumes m: "meaning E ws = Some acts" and ws: "ws \<noteq> []" "\<forall>w\<in>set ws. word_ok w" and E: "arg_addr E 1 \<noteq> 0"
  shows "\<exists>c<17. hd ws = fst (bash_table ! c) \<and> (length ws - 1 = snd (bash_table ! c) \<or> c \<in> {0, 6, 9}) \<and>
    run_cmd E c (length ws - 1) (rows ws) = Inr acts"
proof -
  obtain arity f where f: "map_of (commands E) (hd ws) = Some (arity, f)" "arity = None \<or> arity = Some (length ws - 1)" "acts = f ws"
    using m by (auto simp: meaning_def split: option.splits if_splits)
  then obtain c where c: "c < length (commands E)" "commands E ! c = (hd ws, arity, f)" by (meson in_set_conv_nth map_of_SomeD)
  have l: "length (commands E) = 17" by (simp add: commands_def)
  note run = run_cmd_def exec_ok [OF ws, unfolded One_nat_def] taskset_ok [OF ws, unfolded One_nat_def] ls_ok [OF ws, unfolded One_nat_def] shell_waitpid_def shell_kill_def atoi_rows [OF ws(2)]
    answer_def not_found_def shell_clear_def command_line_def SHELL_BEGIN_def shell_cd_def first_char Let_def
  have cd: "(case word ws 1 of [] \<Rightarrow> 0 | c # _ \<Rightarrow> c) = 0 \<longleftrightarrow> word ws 1 = []"
    using word_okD [OF word_word_ok [OF ws(2)], of 1] by (cases "word ws 1") auto
  have "c \<in> {0, 1, 2, 3, 4, 5, 6, 7, 8, 9, 10, 11, 12, 13, 14, 15, 16}" using c(1) unfolding l by simp presburger
  then have "hd ws = fst (bash_table ! c) \<and> (length ws - 1 = snd (bash_table ! c) \<or> c \<in> {0, 6, 9}) \<and>
      run_cmd E c (length ws - 1) (rows ws) = Inr acts"
    unfolding f(3) using c(2) f(2) E
    by (elim insertE emptyE) (auto simp: commands_def bash_table_def run cd [unfolded One_nat_def])
  then show ?thesis using c(1) unfolding l by blast
qed

lemma exits_Cons: "exits (x # xs) \<longleftrightarrow> (if xs = [] then x = Sys sys_exit else exits xs)"
  by (auto simp: exits_def)

lemma exits_meaning:
  assumes "meaning E ws = Some acts"
  shows "exits acts \<longleftrightarrow> hd ws = lit ''exit''"
proof -
  have other: "sys_exit \<noteq> sys_set_pid p q" "sys_exit \<noteq> sys_taskset n x y z" "sys_exit \<noteq> sys_ls n m" for p q n x y z m
    by (simp_all add: sys_exit_def sys_set_pid_def sys_taskset_def sys_ls_def invoke_syscall_def)
  have e: "\<not> exits (exec_acts E ws)" "\<not> exits (taskset_acts E ws)" "\<not> exits (ls_acts E ws)" "\<not> exits (answer E u g n)" for u g n
    by (auto simp: exits_Cons exec_acts_def taskset_acts_def ls_acts_def answer_def Let_def other [symmetric] split: list.split)
  show ?thesis
    using assms unfolding meaning_def commands_def
    by (auto simp: e Let_def exits_Cons sys_exit_def sys_ps_def sys_mkfs_def sys_statfs_def sys_mkdir_def sys_rmdir_def sys_cd_def
        sys_touch_def sys_cat_def sys_rm_def sys_ln_def invoke_syscall_def lit_def split: if_splits)
qed

section \<open>Properties\<close>

text \<open>
  C27: the shell runs what was typed.  When the keys, with backspaces and keys that are ignored, leave a
  line of at most six words below 16 characters that \<open>commands\<close> gives a meaning, a known name with the right
  number of parameters, then Enter makes exactly the calls of this meaning.  Then the shell prints the prompt and has
  an empty line again; but after \<open>exit\<close> it does nothing more.  Before, every key is echoed.
\<close>

theorem shell_runs_line:
  assumes "fits [] ks" and "foldl edit [] ks = join ws" and "ws \<noteq> []" and "length ws \<le> 6" and "\<forall>w\<in>set ws. word_ok w"
    and "meaning E ws = Some acts" and "arg_addr E 1 \<noteq> 0" and "k = 13 \<or> k = 10"
  shows "shell_keys E (ks @ k # more_keys) (Some shell_start) =
    (if hd ws = lit ''exit'' then Inr (None, echoes [] ks @ Printf [10] [] # acts)
     else bindE (shell_keys E more_keys (Some shell_start)) (\<lambda>(s, acts').
            Inr (s, echoes [] ks @ Printf [10] [] # acts @ prompt # acts')))"
proof -
  obtain c where c: "c < 17" "hd ws = fst (bash_table ! c)" "length ws - 1 = snd (bash_table ! c) \<or> c \<in> {0, 6, 9}"
    "run_cmd E c (length ws - 1) (rows ws) = Inr acts"
    using command_ok [OF assms(6,3,5,7)] by blast
  have ex: "exits acts \<longleftrightarrow> hd ws = lit ''exit''"
    using exits_meaning [OF assms(6)] .
  have "shell_parse E (join ws) = Inr (if exits acts then (acts, False) else (acts @ [prompt], True))"
    using c(3,4) shell_parse_words [OF assms(3-5)] get_cmd_id_found [OF c(1)] c(2) by auto
  then have "shell_key E k (shell_of (join ws)) =
      Inr (if exits acts then (None, Printf [10] [] # acts) else (Some shell_start, Printf [10] [] # acts @ [prompt]))"
    using shell_enter [of "join ws" k E] fits_length [OF assms(1)] edit_nonzero [of "[]" ks] assms(2,8) by auto
  then show ?thesis using shell_keys_edit [OF assms(1), of E] unfolding ex
    by (auto simp: start_empty [symmetric] shell_keys_append assms(2) bindE_def split: sum.split prod.split)
qed

theorem shell_runs_line_witness:
  "shell_keys \<lparr>call_value = (\<lambda>_. 1), arg_addr = (\<lambda>i. 1000 + of_nat i), argv_addr = of_nat\<rparr>
       (lit ''kilk'' @ [127] @ lit ''l 3'' @ [13] @ lit ''exit'' @ [13, 65]) (Some shell_start) =
     Inr (None, map (\<lambda>c. Printf (lit ''%c'') [AChar c]) (lit ''kilk'') @ Printf [8] [] #
       map (\<lambda>c. Printf (lit ''%c'') [AChar c]) (lit ''l 3'') @ Printf [10] [] #
       [Sys (sys_kill 3), Printf (lit ''kill process[%d]'' @ [10]) [AInt 3]] @ prompt #
       map (\<lambda>c. Printf (lit ''%c'') [AChar c]) (lit ''exit'') @ [Printf [10] [], Sys sys_exit])"
proof -
  let ?E = "\<lparr>call_value = (\<lambda>_. 1), arg_addr = (\<lambda>i. 1000 + of_nat i), argv_addr = of_nat\<rparr>"
  let ?ks = "lit ''kilk'' @ [127] @ lit ''l 3''" and ?ws = "[lit ''kill'', lit ''3'']"
  have f: "fits [] ?ks" "fits [] (lit ''exit'')" and e: "foldl edit [] ?ks = join ?ws" "foldl edit [] (lit ''exit'') = join [lit ''exit'']"
    and ec: "echoes [] ?ks = map (\<lambda>c. Printf (lit ''%c'') [AChar c]) (lit ''kilk'') @ Printf [8] [] #
       map (\<lambda>c. Printf (lit ''%c'') [AChar c]) (lit ''l 3'')" "echoes [] (lit ''exit'') = map (\<lambda>c. Printf (lit ''%c'') [AChar c]) (lit ''exit'')"
    by (simp_all add: lit_def edit_def echo_def printable_def)
  have w: "?ws \<noteq> []" "length ?ws \<le> 6" "\<forall>w\<in>set ?ws. word_ok w"
    "[lit ''exit''] \<noteq> []" "length [lit ''exit''] \<le> 6" "\<forall>w\<in>set [lit ''exit'']. word_ok w" by (simp_all add: lit_def word_ok_def)
  have "text_value [51] = 3"
    by (simp add: text_value_def unsigned_value_def digit_of_def isdigit_def read_digits_def)
  then have m: "meaning ?E ?ws = Some [Sys (sys_kill 3), Printf (lit ''kill process[%d]'' @ [10]) [AInt 3]]"
    "meaning ?E [lit ''exit''] = Some [Sys sys_exit]"
    by (simp_all add: meaning_def commands_def word_def number_def answer_def lit_def)
  have a: "arg_addr ?E 1 \<noteq> 0" by simp
  have k: "(13 :: u8) = 13 \<or> (13 :: u8) = 10" by simp
  note r1 = shell_runs_line [OF f(1) e(1) w(1-3) m(1) a k, of "lit ''exit'' @ [13, 65]"]
  note r2 = shell_runs_line [OF f(2) e(2) w(4-6) m(2) a k, of "[65]"]
  have n: "hd ?ws \<noteq> lit ''exit''" by (simp add: lit_def)
  show ?thesis using r1 r2 n unfolding ec by simp
qed

end
