(* ===== verification/Spec2Isabelle.thy ===== *)
theory Spec2Isabelle
  imports KString KList Pgtable Sched Lock Mailbox FsFileSpec MmSpec SwapSpec IrqSpec PrintkSpec ExecSpec Boot Net Shell
begin

text \<open>
  A verification of the kernel of a RISC-V teaching operating system, its user library and its image
  builder.

  \<^bold>\<open>The program.\<close>  The kernel runs on two cores under one big lock.  Processes are scheduled round robin
  from intrusive lists (\<open>kernel/sched\<close>), synchronise through mutexes, barriers, condition variables and
  mailboxes (\<open>kernel/locking\<close>), have address spaces with three-level page tables, demand paging, swapping
  to an SD card, shared pages and copy on write (\<open>kernel/mm\<close>, \<open>kernel/irq\<close>), are created from programs in
  an image on the card (\<open>kernel/loader\<close>, \<open>tools/createimage.c\<close>), and use a file system on the same card
  (\<open>kernel/fs\<close>) and a text console (\<open>drivers/screen.c\<close>, \<open>libs/printk.c\<close>).  User programs reach all this
  through the system calls of \<open>tiny_libc\<close>.

  \<^bold>\<open>Conventions.\<close>  Machine integers are words, C \<open>int\<close>s that cannot overflow are \<open>int\<close>.  A function that
  can fail returns a value of the sum type \<open>res\<close>: \<open>Panic\<close> is a failed assertion, \<open>Fault\<close> undefined
  behaviour (a stray pointer, an index out of range, an uninitialised variable), \<open>Hang\<close> a loop that
  never ends.  Memory is either a map from object and offset to bytes (\<open>'o mem\<close>, for strings, buffers
  of the file system and mailboxes, screen buffers) or a map from kernel addresses to 64-bit words (the
  field \<open>ram\<close>, for page tables, pages and trap frames).  The state of the scheduler is the record
  \<open>kstate\<close>; locks, memory management and console extend it (\<open>lstate\<close>, \<open>mstate\<close>, \<open>scr\<close>).  The SD card is
  a parameter with two operations and the law \<open>sd_ok\<close>: a sector that was written is read back.

  \<^bold>\<open>Theories.\<close>
  \<^item> \<open>Prelude\<close>: results, byte memory, little-endian words, general lemmas.
  \<^item> \<open>KString\<close>: \<open>libs/string.c\<close> on bytes.
  \<^item> \<open>KList\<close>: \<open>include/os/list.h\<close>; the locale \<open>queue_store\<close> states the contract of the link operations, and
    its interpretation shows that pointer lists are FIFO queues.
  \<^item> \<open>Pgtable\<close>: the bits of page table entries, \<open>arch/riscv/include/pgtable.h\<close>.
  \<^item> \<open>Sched\<close>: queues, sleeping, blocking, \<open>do_scheduler\<close>, the timer interrupt.  \<open>kinv\<close> is the invariant of
    the queues and cores, \<open>no_lost\<close> says that every live process runs or is queued.  The scheduler
    refines an abstract one on lists, and every queued process gets a core.
  \<^item> \<open>Lock\<close>: spin locks, mutexes, barriers, condition variables and the big kernel lock, the latter two
    with interleaved steps of processes and cores.
  \<^item> \<open>Mailbox\<close>: the ring buffers, refined to byte lists; transfers are cut at their scheduler calls.
  \<^item> \<open>Sdcard\<close>, \<open>FsDisk\<close>, \<open>FsDir\<close>, \<open>FsDirSpec\<close>, \<open>FsFile\<close>, \<open>FsFileSpec\<close>: the file system.  Bit maps, inodes and blocks;
    directories refined to tables of entries; files with three levels of indirect blocks.
  \<^item> \<open>Mm\<close>, \<open>MmSpec\<close>, \<open>SwapSpec\<close>: pages, page tables as trees, mapping and isolation, swapping.
  \<^item> \<open>Irq\<close>, \<open>IrqSpec\<close>: exception tables and page faults.
  \<^item> \<open>Proc\<close>, \<open>ProcSpec\<close>: creating, loading and ending processes.
  \<^item> \<open>Screen\<close>: the console and a VT100 terminal; \<open>Printk\<close>, \<open>PrintkSpec\<close>: formatted output, against a
    reference text and a type system for formats.
  \<^item> \<open>Syscall\<close>: wrappers, numbers, table and dispatch of system calls.
  \<^item> \<open>Image\<close>, \<open>Init\<close>, \<open>ImageSpec\<close>, \<open>LoadSpec\<close>, \<open>ExecSpec\<close>: the image builder, the start of the kernel, and the way of a
    program from its file through the image, the card and the kernel's table into the pages of a process, up
    to the first switch to it with its arguments on the stack.
  \<^item> \<open>Boot\<close>: \<open>arch/riscv/kernel/boot.c\<close> on physical memory, against a definition of the hardware's table walk.
  \<^item> \<open>E1000\<close>, \<open>E1000Spec\<close>: the driver of the network card (\<open>drivers/e1000.c\<close>) and the card as its partner on
    the descriptor rings; in every interleaving frames keep their order and contents.
  \<^item> \<open>UserLib\<close>, \<open>Shell\<close>: \<open>tiny_libc\<close> besides the system calls (numbers and text, checksums, random strings,
    \<open>printf\<close>) and the shell, from the keys to the system calls.
  \<^item> \<open>Net\<close>: \<open>kernel/net/net.c\<close>, the interrupt controller (\<open>drivers/plic.c\<close>) and the external interrupt.

  \<^bold>\<open>Bounds.\<close>  \<open>QUEUE_FUEL\<close> (20) bounds the walks along queues of processes: there are 16 PCBs, and a walk
  that visits more is on a cycle.  \<open>PAGE_FUEL\<close> (302) bounds the walks along page records, of which there
  are 300.  The transfer loops of files have as fuel the number of bytes, and it is proved that they
  never run out.  Loops over strings are partial functions whose result is \<open>None\<close> when there is no end.

  \<^bold>\<open>Not modelled.\<close>  Assembly (trap entry, context switch, start-up code): its effect on the saved registers
  and on the running process is part of the operations that rely on it.  The firmware and the devices
  are parameters with the laws that the drivers rely on.  Register names and constants of \<open>e1000.h\<close> that
  no code uses.  The order of the calls in \<open>main\<close> of the kernel, of which the single steps are modelled.
  The two test programs for files, straight sequences of system calls.  Messages of the host tool.
\<close>

end
